(* ===== verification/Prelude.thy ===== *)
theory Prelude
  imports Main "HOL-Library.Word" "HOL-Library.Product_Lexorder" "HOL-Library.Code_Target_Numeral"
begin

text \<open>
  Shared material of the development: results (\<open>Result\<close> values and loops that stop at the
  first error), the casts and the slice operations of the Rust standard library the sources
  use (\<open>as u32\<close>, \<open>copy_within\<close>, a range of assignments), the ordered map that stands for
  \<open>BTreeMap\<close>, with its interface as the locale \<open>ordered_map\<close>, and list lemmas that
  several components rest on.
\<close>

named_theorems slice_simps \<open>lengths and entries of the slice operations\<close>
named_theorems bt_simps \<open>lookup and order facts of the ordered map\<close>

section \<open>Results\<close>

type_synonym ('e, 'a) res = "'e + 'a"

abbreviation Err :: "'e \<Rightarrow> ('e, 'a) res" where
  "Err \<equiv> Inl"

abbreviation Ok :: "'a \<Rightarrow> ('e, 'a) res" where
  "Ok \<equiv> Inr"

definition and_then :: "('e, 'a) res \<Rightarrow> ('a \<Rightarrow> ('e, 'b) res) \<Rightarrow> ('e, 'b) res" where
  "and_then r f = (case r of Inl e \<Rightarrow> Inl e | Inr x \<Rightarrow> f x)"

definition is_ok :: "('e, 'a) res \<Rightarrow> bool" where
  "is_ok r = (case r of Inl _ \<Rightarrow> False | Inr _ \<Rightarrow> True)"

text \<open>\<open>ok_or_else\<close> of an option.\<close>

definition ok_or :: "'e \<Rightarrow> 'a option \<Rightarrow> ('e, 'a) res" where
  "ok_or e o' = (case o' of None \<Rightarrow> Inl e | Some x \<Rightarrow> Inr x)"

text \<open>A loop over a list whose body may fail: it stops at the first error.\<close>

fun traverse_res :: "('a \<Rightarrow> ('e, 'b) res) \<Rightarrow> 'a list \<Rightarrow> ('e, 'b list) res" where
  "traverse_res f [] = Inr []"
| "traverse_res f (x # xs) =
     (case f x of Inl e \<Rightarrow> Inl e
      | Inr y \<Rightarrow> (case traverse_res f xs of Inl e \<Rightarrow> Inl e | Inr ys \<Rightarrow> Inr (y # ys)))"

lemma and_then_simps [simp]:
  "and_then (Inl e) f = Inl e"
  "and_then (Inr x) f = f x"
  by (simp_all add: and_then_def)

lemma and_then_eq_Inr: "and_then r f = Inr y \<longleftrightarrow> (\<exists>x. r = Inr x \<and> f x = Inr y)"
  by (cases r) simp_all

lemma is_ok_simps [simp]:
  "is_ok (Inr x)"
  "\<not> is_ok (Inl e)"
  by (simp_all add: is_ok_def)

lemma ok_or_eq_Inr [simp]: "ok_or e x = Inr y \<longleftrightarrow> x = Some y"
  by (cases x) (simp_all add: ok_or_def)

lemma traverse_res_Inr_iff:
  "traverse_res f xs = Inr ys \<longleftrightarrow>
     length ys = length xs \<and> (\<forall>i < length xs. f (xs ! i) = Inr (ys ! i))"
proof (induction xs arbitrary: ys)
  case Nil
  then show ?case by auto
next
  case (Cons x xs)
  show ?case
  proof (cases ys)
    case Nil
    then show ?thesis by (auto split: sum.splits)
  next
    case (Cons z zs)
    have "traverse_res f (x # xs) = Inr (z # zs) \<longleftrightarrow> f x = Inr z \<and> traverse_res f xs = Inr zs"
      by (auto split: sum.splits)
    also have "\<dots> \<longleftrightarrow> length (z # zs) = length (x # xs) \<and>
        (\<forall>i < length (x # xs). f ((x # xs) ! i) = Inr ((z # zs) ! i))"
      by (auto simp: Cons.IH nth_Cons split: nat.splits)
    finally show ?thesis using Cons by simp
  qed
qed

section \<open>Printing numbers\<close>

text \<open>The decimal digits \<open>format!\<close> prints for an integer.\<close>

fun nat_to_string :: "nat \<Rightarrow> string" where
  "nat_to_string n =
     (if n < 10 then [char_of (48 + n)] else nat_to_string (n div 10) @ [char_of (48 + n mod 10)])"

declare nat_to_string.simps [simp del]

definition int_to_string :: "int \<Rightarrow> string" where
  "int_to_string i = (if i < 0 then ''-'' @ nat_to_string (nat (- i)) else nat_to_string (nat i))"

section \<open>Casts and slices\<close>

definition as_u32 :: "nat \<Rightarrow> nat" where
  "as_u32 n = n mod 2 ^ 32"

lemma as_u32_small [simp]: "n < 2 ^ 32 \<Longrightarrow> as_u32 n = n"
  by (simp add: as_u32_def)

text \<open>\<open>xs.copy_within(a..b, d)\<close>: a memmove inside one slice.\<close>

definition copy_within :: "'a list \<Rightarrow> nat \<Rightarrow> nat \<Rightarrow> nat \<Rightarrow> 'a list" where
  "copy_within xs a b d = take d xs @ take (b - a) (drop a xs) @ drop (d + (b - a)) xs"

text \<open>The slice operation panics on a range outside the slice.\<close>

definition copy_within_ok :: "'a list \<Rightarrow> nat \<Rightarrow> nat \<Rightarrow> nat \<Rightarrow> bool" where
  "copy_within_ok xs a b d \<longleftrightarrow> a \<le> b \<and> b \<le> length xs \<and> d + (b - a) \<le> length xs"

text \<open>\<open>for c in lo..hi { xs[c] = v }\<close>.\<close>

definition set_range :: "'a list \<Rightarrow> nat \<Rightarrow> nat \<Rightarrow> 'a \<Rightarrow> 'a list" where
  "set_range xs lo hi v = fold (\<lambda>c ys. ys[c := v]) [lo..<hi] xs"

text \<open>\<open>for c in lo..hi { if P(c) && xs[c] == old { xs[c] = v } }\<close>.\<close>

definition replace_range :: "(nat \<Rightarrow> bool) \<Rightarrow> 'a \<Rightarrow> 'a \<Rightarrow> nat \<Rightarrow> nat \<Rightarrow> 'a list \<Rightarrow> 'a list" where
  "replace_range P old v lo hi xs =
     fold (\<lambda>c ys. if P c \<and> ys ! c = old then ys[c := v] else ys) [lo..<hi] xs"

lemma length_copy_within [slice_simps]:
  "copy_within_ok xs a b d \<Longrightarrow> length (copy_within xs a b d) = length xs"
  by (auto simp: copy_within_def copy_within_ok_def)

lemma nth_copy_within [slice_simps]:
  assumes "copy_within_ok xs a b d" "i < length xs"
  shows "copy_within xs a b d ! i = (if d \<le> i \<and> i < d + (b - a) then xs ! (a + (i - d)) else xs ! i)"
proof -
  have ok: "a \<le> b" "b \<le> length xs" "d + (b - a) \<le> length xs"
    using assms(1) by (auto simp: copy_within_ok_def)
  have len: "length (take (b - a) (drop a xs)) = b - a" using ok by simp
  consider "i < d" | "d \<le> i" "i < d + (b - a)" | "d + (b - a) \<le> i" by linarith
  then show ?thesis
  proof cases
    case 1
    then show ?thesis using ok assms(2) by (simp add: copy_within_def nth_append)
  next
    case 2
    then have "i - d < b - a" by linarith
    then show ?thesis using 2 ok assms(2) len by (simp add: copy_within_def nth_append)
  next
    case 3
    then have "\<not> i - d < b - a" by linarith
    then show ?thesis using 3 ok assms(2) len by (simp add: copy_within_def nth_append)
  qed
qed

lemma length_fold_update:
  "length (fold (\<lambda>c ys. ys[c := v]) cs xs) = length xs"
  by (induction cs arbitrary: xs) auto

lemma nth_fold_update:
  "i < length xs \<Longrightarrow>
   fold (\<lambda>c ys. ys[c := v]) cs xs ! i = (if i \<in> set cs then v else xs ! i)"
  by (induction cs arbitrary: xs) (auto simp: nth_list_update)

lemma length_set_range [simp]: "length (set_range xs lo hi v) = length xs"
  by (simp add: set_range_def length_fold_update)

lemma nth_set_range [slice_simps]:
  "i < length xs \<Longrightarrow> set_range xs lo hi v ! i = (if lo \<le> i \<and> i < hi then v else xs ! i)"
  by (simp add: set_range_def nth_fold_update)

lemma length_fold_replace:
  "length (fold (\<lambda>c ys. if P c \<and> ys ! c = old then ys[c := v] else ys) cs xs) = length xs"
  by (induction cs arbitrary: xs) auto

lemma nth_fold_replace:
  "i < length xs \<Longrightarrow> distinct cs \<Longrightarrow>
   fold (\<lambda>c ys. if P c \<and> ys ! c = old then ys[c := v] else ys) cs xs ! i =
     (if i \<in> set cs \<and> P i \<and> xs ! i = old then v else xs ! i)"
proof (induction cs arbitrary: xs)
  case Nil
  then show ?case by simp
next
  case (Cons c cs)
  show ?case
    using Cons.prems Cons.IH [of "if P c \<and> xs ! c = old then xs[c := v] else xs"]
    by (cases "i = c") auto
qed

lemma length_replace_range [simp]: "length (replace_range P old v lo hi xs) = length xs"
  by (simp add: replace_range_def length_fold_replace)

lemma nth_replace_range [slice_simps]:
  "i < length xs \<Longrightarrow>
   replace_range P old v lo hi xs ! i =
     (if lo \<le> i \<and> i < hi \<and> P i \<and> xs ! i = old then v else xs ! i)"
  by (simp add: replace_range_def nth_fold_replace)

section \<open>The ordered map (\<open>BTreeMap\<close>)\<close>

text \<open>
  A \<open>BTreeMap\<close> is the list of its entries in ascending key order, which is the order its
  iterators visit them in.
\<close>

type_synonym ('k, 'v) btree = "('k \<times> 'v) list"

definition bt_wf :: "('k::linorder, 'v) btree \<Rightarrow> bool" where
  "bt_wf m = sorted_wrt (<) (map fst m)"

fun bt_insert :: "'k::linorder \<Rightarrow> 'v \<Rightarrow> ('k, 'v) btree \<Rightarrow> ('k, 'v) btree" where
  "bt_insert k v [] = [(k, v)]"
| "bt_insert k v (e # es) =
     (if fst e < k then e # bt_insert k v es
      else if fst e = k then (k, v) # es
      else (k, v) # e # es)"

definition bt_remove :: "'k::linorder \<Rightarrow> ('k, 'v) btree \<Rightarrow> ('k, 'v) btree" where
  "bt_remove k m = filter (\<lambda>e. fst e \<noteq> k) m"

text \<open>\<open>values_mut\<close>: every value is rewritten in place.\<close>

definition bt_map_values :: "('v \<Rightarrow> 'w) \<Rightarrow> ('k, 'v) btree \<Rightarrow> ('k, 'w) btree" where
  "bt_map_values f m = map (\<lambda>(k, v). (k, f v)) m"

text \<open>\<open>iter().collect()\<close> into a map: a later entry replaces an earlier one of its key.\<close>

definition bt_collect :: "('k::linorder \<times> 'v) list \<Rightarrow> ('k, 'v) btree" where
  "bt_collect es = fold (\<lambda>(k, v). bt_insert k v) es []"

lemma map_of_bt_insert [bt_simps, simp]: "map_of (bt_insert k v m) = (map_of m)(k \<mapsto> v)"
  by (induction m) auto

lemma map_of_bt_remove [bt_simps, simp]: "map_of (bt_remove k m) = (map_of m)(k := None)"
  by (induction m) (auto simp: bt_remove_def)

lemma map_of_bt_map_values [bt_simps, simp]:
  "map_of (bt_map_values f m) k = map_option f (map_of m k)"
  by (induction m) (auto simp: bt_map_values_def)

lemma set_keys_bt_insert: "fst ` set (bt_insert k v m) = insert k (fst ` set m)"
  by (induction m) auto

lemma bt_wf_Nil [simp]: "bt_wf []"
  by (simp add: bt_wf_def)

lemma bt_wf_insert [bt_simps, simp]: "bt_wf m \<Longrightarrow> bt_wf (bt_insert k v m)"
proof (induction m)
  case Nil
  then show ?case by (simp add: bt_wf_def)
next
  case (Cons e es)
  then have IH: "bt_wf (bt_insert k v es)" by (simp add: bt_wf_def)
  have "\<forall>x \<in> fst ` set (bt_insert k v es). fst e < x" if "fst e < k"
    using Cons.prems that by (auto simp: set_keys_bt_insert bt_wf_def)
  with IH Cons.prems show ?case
    by (auto simp: bt_wf_def)
qed

lemma bt_wf_remove [bt_simps, simp]: "bt_wf m \<Longrightarrow> bt_wf (bt_remove k m)"
  by (induction m) (auto simp: bt_wf_def bt_remove_def)

lemma bt_wf_map_values [bt_simps, simp]: "bt_wf (bt_map_values f m) = bt_wf m"
  by (simp add: bt_wf_def bt_map_values_def comp_def case_prod_beta)

lemma bt_wf_distinct: "bt_wf m \<Longrightarrow> distinct (map fst m)"
  by (simp add: bt_wf_def strict_sorted_iff)

lemma bt_mem_iff: "bt_wf m \<Longrightarrow> (k, v) \<in> set m \<longleftrightarrow> map_of m k = Some v"
  by (simp add: bt_wf_distinct)

section \<open>The contract of an ordered map\<close>

text \<open>
  What a client of a \<open>BTreeMap\<close> relies on: lookups after an update, an order that the updates
  keep, and that the entries determine the map.
\<close>

locale ordered_map =
  fixes wf :: "'m \<Rightarrow> bool"
    and empty_map :: 'm
    and lookup :: "'m \<Rightarrow> 'k \<Rightarrow> 'v option"
    and put :: "'k \<Rightarrow> 'v \<Rightarrow> 'm \<Rightarrow> 'm"
    and del :: "'k \<Rightarrow> 'm \<Rightarrow> 'm"
  assumes wf_empty: "wf empty_map"
    and wf_put: "wf m \<Longrightarrow> wf (put k v m)"
    and wf_del: "wf m \<Longrightarrow> wf (del k m)"
    and lookup_empty: "lookup empty_map = Map.empty"
    and lookup_put: "lookup (put k v m) = (lookup m)(k \<mapsto> v)"
    and lookup_del: "lookup (del k m) = (lookup m)(k := None)"
    and ext: "wf m \<Longrightarrow> wf m' \<Longrightarrow> lookup m = lookup m' \<Longrightarrow> m = m'"
begin

lemma put_same: "wf m \<Longrightarrow> lookup m k = Some v \<Longrightarrow> put k v m = m"
  by (rule ext) (auto simp: wf_put lookup_put)

lemma put_put: "wf m \<Longrightarrow> put k v (put k w m) = put k v m"
  by (rule ext) (auto simp: wf_put lookup_put)

lemma put_swap: "wf m \<Longrightarrow> k \<noteq> l \<Longrightarrow> put k v (put l w m) = put l w (put k v m)"
  by (rule ext) (auto simp: wf_put lookup_put fun_upd_twist)

lemma del_put: "wf m \<Longrightarrow> lookup m k = None \<Longrightarrow> del k (put k v m) = m"
  by (rule ext) (auto simp: wf_put wf_del lookup_put lookup_del)

lemma del_absent: "wf m \<Longrightarrow> lookup m k = None \<Longrightarrow> del k m = m"
  by (rule ext) (auto simp: wf_del lookup_del)

lemma wf_puts: "wf m \<Longrightarrow> wf (fold (\<lambda>(k, v). put k v) es m)"
  by (induction es arbitrary: m) (auto simp: wf_put)

lemma lookup_puts:
  "distinct (map fst es) \<Longrightarrow> lookup (fold (\<lambda>(k, v). put k v) es m) = lookup m ++ map_of es"
proof (induction es arbitrary: m)
  case (Cons e es)
  then have "fst e \<notin> dom (map_of es)" by (simp add: dom_map_of_conv_image_fst)
  then show ?case using Cons by (cases e) (auto simp: lookup_put map_add_def fun_eq_iff split: option.split)
qed simp

end

lemma bt_ext: "bt_wf m \<Longrightarrow> bt_wf m' \<Longrightarrow> map_of m = map_of m' \<Longrightarrow> m = m'"
  using map_of_inject_set [of m m'] map_sorted_distinct_set_unique [of fst m m']
  by (auto simp: bt_wf_def strict_sorted_iff distinct_map)

interpretation bt: ordered_map bt_wf "[]" map_of bt_insert bt_remove
  by unfold_locales (simp_all add: bt_ext)

lemma bt_collect_self: "bt_wf m \<Longrightarrow> bt_collect m = m"
  unfolding bt_collect_def
  by (rule bt_ext) (simp_all add: bt.wf_puts bt.lookup_puts bt_wf_distinct)

end
