(* ===== verification/Kv_Cache.thy ===== *)
theory Kv_Cache
  imports Prelude
begin

text \<open>
  The sequence-addressable KV cell store of \<open>src/graph/kvcache.rs\<close>: the records of the
  store, one definition per method of \<open>KvCache\<close>, and the re-ordering of relocations.
  Cell indices, row counts and the \<open>u64\<close> event counters are natural numbers (every sum the
  code forms is of values below \<open>2^32\<close>, which a 64-bit \<open>usize\<close> holds), the casts to \<open>u32\<close>
  are written out, and a method taking \<open>&mut self\<close> returns the store beside its result, so
  that a store left partly updated by an error is visible.
\<close>

section \<open>Data\<close>

type_synonym SeqId = nat

definition SEQ_MAIN :: SeqId where
  "SEQ_MAIN = 0"

definition FREE :: SeqId where
  "FREE = 2 ^ 32 - 1"

definition KV_MAP_MAX_SPANS :: nat where
  "KV_MAP_MAX_SPANS = 4"

text \<open>A backend buffer handle (\<open>src/graph/mod.rs\<close>).\<close>

record BufRef =
  br_backend :: nat
  br_id :: nat
  br_offset :: nat
  br_len :: nat

definition bufref_own :: "nat \<Rightarrow> nat \<Rightarrow> nat \<Rightarrow> BufRef" where
  "bufref_own backend i n = \<lparr>br_backend = backend, br_id = i, br_offset = 0, br_len = n\<rparr>"

definition bufref_window :: "BufRef \<Rightarrow> nat \<Rightarrow> nat \<Rightarrow> BufRef" where
  "bufref_window r off n = r\<lparr>br_offset := br_offset r + off, br_len := n\<rparr>"

record KvLayer =
  kl_k :: BufRef
  kl_v :: BufRef
  kl_elems :: nat
  kl_n_ctx :: nat
  kl_n_embd :: nat
  kl_packed :: bool
  kl_owner :: "SeqId list"
  kl_n_used :: nat

record SharedPrefix =
  sp_cell :: nat
  sp_rows :: nat

record SeqSlot =
  sl_start :: nat
  sl_cap :: nat
  sl_shared :: SharedPrefix
  sl_written :: nat

text \<open>A span: position base, first cell, length.\<close>

type_synonym span = "nat \<times> nat \<times> nat"

record KvCache =
  kv_layers :: "(nat, KvLayer) btree"
  kv_identity :: bool
  kv_seqs :: "(SeqId, SeqSlot) btree"
  kv_spans :: "(SeqId, span list) btree"
  kv_n_ctx :: nat
  kv_defrags :: nat
  kv_cells_moved :: nat
  kv_cows :: nat
  kv_cow_cells :: nat

record KvMove =
  mv_seq :: SeqId
  mv_from :: nat
  mv_to :: nat
  mv_rows :: nat

record KvShift =
  sh_seq :: SeqId
  sh_base :: nat
  sh_from :: nat
  sh_to :: nat
  sh_rows :: nat

record KvArenaStats =
  st_n_ctx :: nat
  st_reserved_cells :: nat
  st_shared_cells :: nat
  st_owned_cells :: nat
  st_free_cells :: nat
  st_free_runs :: nat
  st_largest_free_run :: nat
  st_sequences :: nat
  st_defrags :: nat
  st_cells_moved :: nat
  st_cows :: nat
  st_cow_cells :: nat

record KvLayerSession =
  ls_layer :: nat
  ls_n_used :: nat
  ls_owner :: "SeqId list"

record KvSessionState =
  ks_identity :: bool
  ks_n_ctx :: nat
  ks_seqs :: "(SeqId \<times> SeqSlot) list"
  ks_spans :: "(SeqId \<times> span list) list"
  ks_layers :: "KvLayerSession list"
  ks_defrags :: nat
  ks_cells_moved :: nat
  ks_cows :: nat
  ks_cow_cells :: nat

text \<open>
  One constructor per error message of the store, carrying the values the message prints.
  A panic constructor is a slice operation out of range.
\<close>

datatype cells_error = NoArenaForLayer nat | ArenaOverflow nat nat nat

datatype reserve_error =
    ReserveZero SeqId
  | ReserveNoGrowth SeqId nat nat
  | ReserveNoArena
  | ReserveNoRun nat SeqId nat nat

datatype set_cap_error =
    SetCapNoRun SeqId
  | SetCapShrink SeqId nat nat
  | SetCapFull SeqId nat nat nat

datatype own_error = OwnUncovered SeqId nat "span list"

datatype rm_error = RmMultiSequence | RmShared nat | RmRange nat nat nat nat | RmPanic

datatype query_error =
    QueryLengths nat nat
  | NoArena
  | QueryNoCells nat SeqId
  | QueryManySpans nat SeqId nat
  | QueryOutsideRun nat SeqId nat nat nat
  | QueryNotWritten nat SeqId nat
  | MapTooManyRuns nat SeqId nat "span list"
  | MapNoCells nat SeqId nat "span list"

datatype share_error =
    ShareZero
  | ShareSelf SeqId
  | ShareNoSource SeqId
  | ShareSourceShort SeqId nat nat
  | ShareNoDest SeqId
  | ShareDestShares SeqId nat
  | ShareDestWritten SeqId nat
  | ShareNoFirstCell SeqId
  | ShareNotContiguous SeqId nat "span list"

datatype private_error =
    PrivateNoRoom SeqId nat nat nat nat nat
  | ApplyPrivateNoRun SeqId
  | ApplyPrivateStale SeqId nat nat nat KvShift
  | ApplyPrivateArena KvShift nat

datatype session_error =
    SessionNCtx nat nat
  | SessionNoLayer nat
  | SessionOwnerLen nat nat nat
  | SessionUsed nat nat nat
  | SessionRun SeqId nat nat nat
  | SessionWritten SeqId nat nat nat
  | SessionNoSpans SeqId
  | SessionSpan SeqId nat nat nat

datatype moves_error =
    MovesStart SeqId nat nat
  | MovesRows KvMove nat
  | MovesOverlap nat nat nat
  | MovesPastArena nat nat
  | MovesStraddle SeqId nat nat nat
  | MovesPanic

section \<open>Slots and queries\<close>

definition no_share :: SharedPrefix where
  "no_share = \<lparr>sp_cell = 0, sp_rows = 0\<rparr>"

definition slot_new :: "nat \<Rightarrow> nat \<Rightarrow> SeqSlot" where
  "slot_new start cap = \<lparr>sl_start = start, sl_cap = cap, sl_shared = no_share, sl_written = 0\<rparr>"

abbreviation shared_rows :: "SeqSlot \<Rightarrow> nat" where
  "shared_rows s \<equiv> sp_rows (sl_shared s)"

abbreviation shared_cell :: "SeqSlot \<Rightarrow> nat" where
  "shared_cell s \<equiv> sp_cell (sl_shared s)"

definition private_written :: "SeqSlot \<Rightarrow> nat" where
  "private_written s = sl_written s - shared_rows s"

definition kv_new :: KvCache where
  "kv_new = \<lparr>kv_layers = [], kv_identity = True, kv_seqs = [], kv_spans = [], kv_n_ctx = 0,
     kv_defrags = 0, kv_cells_moved = 0, kv_cows = 0, kv_cow_cells = 0\<rparr>"

definition set_n_ctx :: "KvCache \<Rightarrow> nat \<Rightarrow> KvCache" where
  "set_n_ctx c n = c\<lparr>kv_n_ctx := n\<rparr>"

definition kv_get :: "KvCache \<Rightarrow> nat \<Rightarrow> KvLayer option" where
  "kv_get c layer = map_of (kv_layers c) layer"

definition kv_insert ::
  "KvCache \<Rightarrow> nat \<Rightarrow> BufRef \<Rightarrow> BufRef \<Rightarrow> nat \<Rightarrow> nat \<Rightarrow> nat \<Rightarrow> bool \<Rightarrow> KvCache" where
  "kv_insert c layer k v n_embd row_elems n_ctx packed =
     c\<lparr>kv_n_ctx := max (kv_n_ctx c) n_ctx,
       kv_layers := bt_insert layer
         \<lparr>kl_k = k, kl_v = v, kl_elems = row_elems * n_ctx, kl_n_ctx = n_ctx,
          kl_n_embd = n_embd, kl_packed = packed, kl_owner = replicate n_ctx FREE,
          kl_n_used = 0\<rparr> (kv_layers c)\<rparr>"

definition any_packed :: "KvCache \<Rightarrow> bool" where
  "any_packed c = list_ex (\<lambda>(_, l). kl_packed l) (kv_layers c)"

definition layer_count :: "KvCache \<Rightarrow> nat" where
  "layer_count c = length (kv_layers c)"

definition region_bytes :: "KvCache \<Rightarrow> nat" where
  "region_bytes c = sum_list (map (\<lambda>(_, l). kl_elems l * 4 * 2) (kv_layers c))"

definition kv_contains :: "KvCache \<Rightarrow> nat \<Rightarrow> bool" where
  "kv_contains c layer = (map_of (kv_layers c) layer \<noteq> None)"

definition is_identity :: "KvCache \<Rightarrow> bool" where
  "is_identity c = kv_identity c"

fun cells_for_loop :: "nat \<Rightarrow> nat \<Rightarrow> nat list \<Rightarrow> (cells_error, nat list) res" where
  "cells_for_loop layer n [] = Ok []"
| "cells_for_loop layer n (p # ps) =
     (if n \<le> p then Err (ArenaOverflow layer p n)
      else (case cells_for_loop layer n ps of Inl e \<Rightarrow> Inl e | Inr cs \<Rightarrow> Inr (as_u32 p # cs)))"

definition cells_for :: "KvCache \<Rightarrow> nat \<Rightarrow> nat list \<Rightarrow> (cells_error, nat list) res" where
  "cells_for c layer positions =
     and_then (ok_or (NoArenaForLayer layer) (map_of (kv_layers c) layer))
       (\<lambda>l. cells_for_loop layer (kl_n_ctx l) positions)"

section \<open>Spans\<close>

text \<open>The span list a slot stands for (the body of \<open>refresh_spans\<close>).\<close>

definition slot_spans :: "SeqSlot \<Rightarrow> span list" where
  "slot_spans s =
     (if shared_rows s > 0 then [(0, shared_cell s, shared_rows s)] else []) @
     (if sl_cap s > 0 then [(shared_rows s, sl_start s, sl_cap s)] else [])"

definition refresh_spans :: "KvCache \<Rightarrow> SeqId \<Rightarrow> KvCache" where
  "refresh_spans c seq =
     (case map_of (kv_seqs c) seq of
        Some slot \<Rightarrow>
          (let v = slot_spans slot in
           if v \<noteq> [] then c\<lparr>kv_spans := bt_insert seq v (kv_spans c)\<rparr>
           else c\<lparr>kv_spans := bt_remove seq (kv_spans c)\<rparr>)
      | None \<Rightarrow> c\<lparr>kv_spans := bt_remove seq (kv_spans c)\<rparr>)"

definition occupied :: "KvCache \<Rightarrow> bool list" where
  "occupied c =
     fold (\<lambda>(_, spans) taken.
       fold (\<lambda>(_, cell, len) t. set_range t cell (min (cell + len) (kv_n_ctx c)) True) spans taken)
     (kv_spans c) (replicate (kv_n_ctx c) False)"

definition spans_of :: "KvCache \<Rightarrow> SeqId \<Rightarrow> span list" where
  "spans_of c seq = (case map_of (kv_spans c) seq of None \<Rightarrow> [] | Some v \<Rightarrow> v)"

fun find_pos :: "nat \<Rightarrow> span list \<Rightarrow> nat option" where
  "find_pos cell [] = None"
| "find_pos cell ((base, c, len) # ss) =
     (if c \<le> cell \<and> cell < c + len then Some (base + (cell - c)) else find_pos cell ss)"

fun find_cell :: "nat \<Rightarrow> span list \<Rightarrow> nat option" where
  "find_cell pos [] = None"
| "find_cell pos ((base, cell, len) # ss) =
     (if base \<le> pos \<and> pos < base + len then Some (cell + (pos - base)) else find_cell pos ss)"

definition pos_of_cell :: "KvCache \<Rightarrow> SeqId \<Rightarrow> nat \<Rightarrow> nat option" where
  "pos_of_cell c seq cell = Option.bind (map_of (kv_spans c) seq) (find_pos cell)"

definition cell_of :: "KvCache \<Rightarrow> SeqId \<Rightarrow> nat \<Rightarrow> nat option" where
  "cell_of c seq pos = Option.bind (map_of (kv_spans c) seq) (find_cell pos)"

definition seq_slot :: "KvCache \<Rightarrow> SeqId \<Rightarrow> SeqSlot option" where
  "seq_slot c seq = map_of (kv_seqs c) seq"

definition written_rows :: "KvCache \<Rightarrow> SeqId \<Rightarrow> nat" where
  "written_rows c seq = (case map_of (kv_seqs c) seq of None \<Rightarrow> 0 | Some s \<Rightarrow> sl_written s)"

section \<open>Reserving and releasing\<close>

text \<open>The first-fit scan: \<open>run\<close> counts the free cells that end at the current one.\<close>

fun first_fit :: "bool list \<Rightarrow> nat \<Rightarrow> nat \<Rightarrow> nat \<Rightarrow> nat option" where
  "first_fit [] start run cap = None"
| "first_fit (t # ts) start run cap =
     (if t then first_fit ts (start + 1) 0 cap
      else if run + 1 = cap then Some (start + 1 - cap)
      else first_fit ts (start + 1) (run + 1) cap)"

definition reserve_seq :: "KvCache \<Rightarrow> SeqId \<Rightarrow> nat \<Rightarrow> KvCache \<times> (reserve_error, SeqSlot) res" where
  "reserve_seq c seq cap =
     (if cap = 0 then (c, Err (ReserveZero seq))
      else case map_of (kv_seqs c) seq of
        Some slot \<Rightarrow>
          if cap \<le> sl_cap slot then (c, Ok slot)
          else (c, Err (ReserveNoGrowth seq (sl_cap slot) cap))
      | None \<Rightarrow>
          if kv_n_ctx c = 0 then (c, Err ReserveNoArena)
          else case first_fit (occupied c) 0 0 cap of
            Some start \<Rightarrow>
              (let slot = slot_new start cap in
               (refresh_spans (c\<lparr>kv_seqs := bt_insert seq slot (kv_seqs c)\<rparr>) seq, Ok slot))
          | None \<Rightarrow>
              (c, Err (ReserveNoRun cap seq
                (sum_list (map (sl_cap \<circ> snd) (kv_seqs c))) (kv_n_ctx c))))"

definition release_layer :: "SeqId \<Rightarrow> SeqSlot \<Rightarrow> KvLayer \<Rightarrow> KvLayer" where
  "release_layer seq slot l =
     l\<lparr>kl_owner := replace_range (\<lambda>_. True) seq FREE (sl_start slot)
         (min (sl_start slot + sl_cap slot) (length (kl_owner l))) (kl_owner l)\<rparr>"

definition release_seq :: "KvCache \<Rightarrow> SeqId \<Rightarrow> KvCache \<times> nat" where
  "release_seq c seq =
     (case map_of (kv_seqs c) seq of
        None \<Rightarrow> (c, 0)
      | Some slot \<Rightarrow>
          (let c1 = refresh_spans (c\<lparr>kv_seqs := bt_remove seq (kv_seqs c)\<rparr>) seq in
           (c1\<lparr>kv_layers := bt_map_values (release_layer seq slot) (kv_layers c1)\<rparr>, sl_cap slot)))"

section \<open>Planning relocations\<close>

text \<open>
  The packing loop: \<open>need = Some n\<close> stops at the first prefix that leaves \<open>n\<close> free cells
  between the packed cursor and the next run that stays.
\<close>

fun plan_loop :: "nat \<Rightarrow> nat option \<Rightarrow> nat \<Rightarrow> (SeqId \<times> SeqSlot) list \<Rightarrow> KvMove list" where
  "plan_loop n_ctx need cursor [] = []"
| "plan_loop n_ctx need cursor ((seq, slot) # rest) =
     (let mv = (if sl_start slot \<noteq> cursor
                then [\<lparr>mv_seq = seq, mv_from = sl_start slot, mv_to = cursor,
                       mv_rows = private_written slot\<rparr>]
                else []);
          cursor' = cursor + sl_cap slot;
          gap_end = (case rest of [] \<Rightarrow> n_ctx | (_, nxt) # _ \<Rightarrow> sl_start nxt)
      in case need of
           None \<Rightarrow> mv @ plan_loop n_ctx need cursor' rest
         | Some n \<Rightarrow> if n \<le> gap_end - cursor' then mv
                     else mv @ plan_loop n_ctx need cursor' rest)"

definition plan_runs :: "KvCache \<Rightarrow> (SeqId \<times> SeqSlot) list" where
  "plan_runs c = sort_key (\<lambda>(seq, slot). (sl_start slot, seq))
     (filter (\<lambda>(_, s). 0 < sl_cap s) (kv_seqs c))"

definition compaction_plan :: "KvCache \<Rightarrow> nat option \<Rightarrow> KvMove list" where
  "compaction_plan c need = plan_loop (kv_n_ctx c) need 0 (plan_runs c)"

definition set_cap :: "KvCache \<Rightarrow> SeqId \<Rightarrow> nat \<Rightarrow> KvCache \<times> (set_cap_error, KvMove list) res" where
  "set_cap c seq cap =
     (case map_of (kv_seqs c) seq of
        None \<Rightarrow> (c, Err (SetCapNoRun seq))
      | Some slot \<Rightarrow>
          let others = sum_list (map (\<lambda>(_, s). sl_cap s) (filter (\<lambda>(s, _). s \<noteq> seq) (kv_seqs c)));
              resized = refresh_spans
                (c\<lparr>kv_seqs := bt_insert seq (slot\<lparr>sl_cap := cap\<rparr>) (kv_seqs c)\<rparr>) seq
          in if cap = sl_cap slot then (c, Ok [])
             else if cap = 0 then
               (let c1 = fst (release_seq c seq) in (c1, Ok (compaction_plan c1 None)))
             else if cap < sl_cap slot \<and> cap < private_written slot
               then (c, Err (SetCapShrink seq (private_written slot) cap))
             else if sl_cap slot < cap \<and> kv_n_ctx c < others + cap
               then (c, Err (SetCapFull seq cap others (kv_n_ctx c)))
             else (resized, Ok (compaction_plan resized None)))"

text \<open>
  \<open>order_moves\<close>: the comparator puts upward moves first, from the top down, and downward
  moves after them, from the bottom up; the sort is stable.
\<close>

definition move_up :: "KvMove \<Rightarrow> bool" where
  "move_up m \<longleftrightarrow> mv_from m < mv_to m"

definition order_key :: "KvMove \<Rightarrow> int \<times> int" where
  "order_key m = (if move_up m then (0, - int (mv_from m)) else (1, int (mv_from m)))"

definition order_moves :: "KvMove list \<Rightarrow> KvMove list" where
  "order_moves ms = sort_key order_key ms"

section \<open>Ownership\<close>

definition own_layer :: "SeqId \<Rightarrow> nat \<Rightarrow> nat \<Rightarrow> KvLayer \<Rightarrow> KvLayer" where
  "own_layer seq from to l =
     (let upto = min to (length (kl_owner l)) in
      l\<lparr>kl_owner := set_range (kl_owner l) (min from upto) upto seq,
        kl_n_used := max (kl_n_used l) upto\<rparr>)"

text \<open>
  \<open>own_range\<close>: a cell outside the sequence's spans trips a debug assertion, which a
  release build compiles out, so it leaves the written count as it is.
\<close>

definition own_range :: "KvCache \<Rightarrow> SeqId \<Rightarrow> nat \<Rightarrow> nat \<Rightarrow> KvCache" where
  "own_range c seq from to =
     (let c1 = c\<lparr>kv_layers := bt_map_values (own_layer seq from to) (kv_layers c)\<rparr>;
          written = fold (\<lambda>cell w. case pos_of_cell c1 seq cell of
                                      Some pos \<Rightarrow> max w (pos + 1) | None \<Rightarrow> w)
                      [from..<to] (written_rows c1 seq)
      in case map_of (kv_seqs c1) seq of
           Some slot \<Rightarrow>
             c1\<lparr>kv_seqs := bt_insert seq (slot\<lparr>sl_written := written\<rparr>) (kv_seqs c1)\<rparr>
         | None \<Rightarrow> c1)"

fun own_positions :: "KvCache \<Rightarrow> SeqId \<Rightarrow> nat list \<Rightarrow> KvCache \<times> (own_error, unit) res" where
  "own_positions c seq [] = (c, Ok ())"
| "own_positions c seq (pos # ps) =
     (case cell_of c seq pos of
        None \<Rightarrow> (c, Err (OwnUncovered seq pos (spans_of c seq)))
      | Some cell \<Rightarrow> own_positions (own_range c seq cell (cell + 1)) seq ps)"

text \<open>
  \<open>after_rm\<close>: the rows after the removed ones slide down and the freed tail becomes
  \<open>FREE\<close>. The loop stops at the first layer that has not written that far; the layers
  before it have already been renumbered.
\<close>

definition rm_layer :: "nat \<Rightarrow> nat \<Rightarrow> KvLayer \<Rightarrow> KvLayer" where
  "rm_layer start len l =
     l\<lparr>kl_owner := set_range (copy_within (kl_owner l) (start + len) (kl_n_used l) start)
         (kl_n_used l - len) (kl_n_used l) FREE,
       kl_n_used := kl_n_used l - len\<rparr>"

fun rm_layers :: "nat \<Rightarrow> nat \<Rightarrow> nat \<Rightarrow> (nat, KvLayer) btree \<Rightarrow>
    (nat, KvLayer) btree \<times> (rm_error, nat) res" where
  "rm_layers start len used [] = ([], Ok used)"
| "rm_layers start len used ((layer, l) # ls) =
     (if kl_n_used l < start + len
      then ((layer, l) # ls, Err (RmRange layer len start (kl_n_used l)))
      else if length (kl_owner l) < kl_n_used l then ((layer, l) # ls, Err RmPanic)
      else (let l' = rm_layer start len l; (ls', r) = rm_layers start len (kl_n_used l') ls
            in ((layer, l') # ls', r)))"

definition after_rm :: "KvCache \<Rightarrow> nat \<Rightarrow> nat \<Rightarrow> KvCache \<times> (rm_error, nat) res" where
  "after_rm c start len =
     (if list_ex (\<lambda>(s, _). s \<noteq> SEQ_MAIN) (kv_seqs c) then (c, Err RmMultiSequence)
      else case map_of (kv_seqs c) SEQ_MAIN of
        Some slot \<Rightarrow>
          if 0 < shared_rows slot then (c, Err (RmShared (shared_rows slot)))
          else (let (ls, r) = rm_layers start len 0 (kv_layers c) in (c\<lparr>kv_layers := ls\<rparr>, r))
      | None \<Rightarrow>
          (let (ls, r) = rm_layers start len 0 (kv_layers c) in (c\<lparr>kv_layers := ls\<rparr>, r)))"

section \<open>Attention windows\<close>

definition span_query :: "KvCache \<Rightarrow> nat \<Rightarrow> SeqId \<Rightarrow> nat \<Rightarrow> (query_error, nat \<times> nat) res" where
  "span_query c t seq rel =
     (case spans_of c seq of
        [] \<Rightarrow> Err (QueryNoCells t seq)
      | [(_, first_cell, len)] \<Rightarrow>
          (case cell_of c seq rel of
             None \<Rightarrow> Err (QueryOutsideRun t seq rel first_cell (first_cell + len))
           | Some cell \<Rightarrow>
               if written_rows c seq \<le> rel then Err (QueryNotWritten t seq rel)
               else Ok (first_cell, min (first_cell + len) (cell + 1)))
      | many \<Rightarrow> Err (QueryManySpans t seq (length many)))"

definition queries :: "SeqId list \<Rightarrow> nat list \<Rightarrow> (nat \<times> SeqId \<times> nat) list" where
  "queries seq_ids positions = zip [0..<length seq_ids] (zip seq_ids positions)"

definition attn_span :: "KvCache \<Rightarrow> SeqId list \<Rightarrow> nat list \<Rightarrow> (query_error, nat list) res" where
  "attn_span c seq_ids positions =
     (if length positions \<noteq> length seq_ids
      then Err (QueryLengths (length seq_ids) (length positions))
      else if kv_layers c = [] then Err NoArena
      else and_then
        (traverse_res (\<lambda>(t, seq, rel). span_query c t seq rel) (queries seq_ids positions))
        (\<lambda>ws. Ok (map (as_u32 \<circ> fst) ws @ map (as_u32 \<circ> snd) ws)))"

text \<open>The runs of one query; \<open>None\<close> when the input cannot carry them.\<close>

fun map_runs :: "nat \<Rightarrow> nat \<Rightarrow> span list \<Rightarrow> (nat \<times> nat) list option" where
  "map_runs rel k [] = Some []"
| "map_runs rel k ((base, cell, len) # ss) =
     (if rel < base then Some []
      else (let n = min len (rel + 1 - base) in
            if n = 0 then map_runs rel k ss
            else if k = KV_MAP_MAX_SPANS then None
            else map_option ((#) (cell, n)) (map_runs rel (k + 1) ss)))"

definition map_query ::
  "KvCache \<Rightarrow> nat \<Rightarrow> SeqId \<Rightarrow> nat \<Rightarrow> (query_error, (nat \<times> nat) list) res" where
  "map_query c t seq rel =
     (let spans = spans_of c seq in
      if spans = [] then Err (QueryNoCells t seq)
      else if written_rows c seq \<le> rel then Err (QueryNotWritten t seq rel)
      else case map_runs rel 0 spans of
        None \<Rightarrow> Err (MapTooManyRuns t seq rel spans)
      | Some runs \<Rightarrow> if runs = [] then Err (MapNoCells t seq rel spans) else Ok runs)"

definition map_entry :: "(nat \<times> nat) list \<Rightarrow> nat list" where
  "map_entry runs =
     concat (map (\<lambda>(cell, n). [as_u32 cell, as_u32 n]) runs) @
     replicate (2 * (KV_MAP_MAX_SPANS - length runs)) 0"

definition attn_map :: "KvCache \<Rightarrow> SeqId list \<Rightarrow> nat list \<Rightarrow> (query_error, nat list) res" where
  "attn_map c seq_ids positions =
     (if length positions \<noteq> length seq_ids
      then Err (QueryLengths (length seq_ids) (length positions))
      else if kv_layers c = [] then Err NoArena
      else and_then
        (traverse_res (\<lambda>(t, seq, rel). map_query c t seq rel) (queries seq_ids positions))
        (\<lambda>rss. Ok (concat (map map_entry rss))))"

section \<open>Free runs and counters\<close>

fun free_runs_loop :: "nat \<Rightarrow> nat option \<Rightarrow> bool list \<Rightarrow> (nat \<times> nat) list" where
  "free_runs_loop c None [] = []"
| "free_runs_loop c (Some start) [] = [(start, c - start)]"
| "free_runs_loop c None (t # ts) =
     free_runs_loop (c + 1) (if t then None else Some c) ts"
| "free_runs_loop c (Some start) (t # ts) =
     (if t then (start, c - start) # free_runs_loop (c + 1) None ts
      else free_runs_loop (c + 1) (Some start) ts)"

definition free_runs :: "KvCache \<Rightarrow> (nat \<times> nat) list" where
  "free_runs c = free_runs_loop 0 None (occupied c)"

definition arena_stats :: "KvCache \<Rightarrow> KvArenaStats" where
  "arena_stats c =
     (let reserved = sum_list (map (\<lambda>(_, s). min (sl_cap s) (kv_n_ctx c)) (kv_seqs c));
          runs = free_runs c
      in \<lparr>st_n_ctx = kv_n_ctx c,
          st_reserved_cells = reserved,
          st_shared_cells = sum_list (map (\<lambda>(_, s). shared_rows s) (kv_seqs c)),
          st_owned_cells = (case kv_layers c of [] \<Rightarrow> 0
            | (_, l) # _ \<Rightarrow> length (filter (\<lambda>s. s \<noteq> FREE) (kl_owner l))),
          st_free_cells = kv_n_ctx c - reserved,
          st_free_runs = length runs,
          st_largest_free_run = fold max (map snd runs) 0,
          st_sequences = length (kv_seqs c),
          st_defrags = kv_defrags c,
          st_cells_moved = kv_cells_moved c,
          st_cows = kv_cows c,
          st_cow_cells = kv_cow_cells c\<rparr>)"

section \<open>Sharing a prefix and copying on write\<close>

definition share_prefix ::
  "KvCache \<Rightarrow> SeqId \<Rightarrow> SeqId \<Rightarrow> nat \<Rightarrow> KvCache \<times> (share_error, unit) res" where
  "share_prefix c src dst rows =
     (if rows = 0 then (c, Err ShareZero)
      else if src = dst then (c, Err (ShareSelf src))
      else case map_of (kv_seqs c) src of
        None \<Rightarrow> (c, Err (ShareNoSource src))
      | Some donor \<Rightarrow>
          if sl_written donor < rows then (c, Err (ShareSourceShort src (sl_written donor) rows))
          else case map_of (kv_seqs c) dst of
            None \<Rightarrow> (c, Err (ShareNoDest dst))
          | Some d \<Rightarrow>
              if 0 < shared_rows d then (c, Err (ShareDestShares dst (shared_rows d)))
              else if 0 < sl_written d then (c, Err (ShareDestWritten dst (sl_written d)))
              else case cell_of c src 0 of
                None \<Rightarrow> (c, Err (ShareNoFirstCell src))
              | Some cell \<Rightarrow>
                  if cell_of c src (rows - 1) = Some (cell + rows - 1)
                  then (refresh_spans
                         (c\<lparr>kv_seqs := bt_insert dst
                            (d\<lparr>sl_shared := \<lparr>sp_cell = cell, sp_rows = rows\<rparr>,
                               sl_written := rows\<rparr>) (kv_seqs c)\<rparr>) dst, Ok ())
                  else (c, Err (ShareNotContiguous src rows (spans_of c src))))"

definition private_row_for ::
  "KvCache \<Rightarrow> SeqId \<Rightarrow> nat \<Rightarrow> (private_error, KvShift option) res" where
  "private_row_for c seq t =
     (case map_of (kv_seqs c) seq of
        None \<Rightarrow> Ok None
      | Some slot \<Rightarrow>
          if shared_rows slot = 0 \<or> shared_rows slot \<le> t then Ok None
          else (let d = shared_rows slot - t; rows = private_written slot in
                if sl_cap slot < rows + d
                then Err (PrivateNoRoom seq t rows d (sl_cap slot) (shared_rows slot))
                else Ok (Some \<lparr>sh_seq = seq, sh_base = t, sh_from = sl_start slot,
                               sh_to = sl_start slot + d, sh_rows = rows\<rparr>)))"

definition last_owned :: "SeqId list \<Rightarrow> nat" where
  "last_owned owner = length (dropWhile (\<lambda>o'. o' = FREE) (rev owner))"

definition shift_layer :: "KvShift \<Rightarrow> KvLayer \<Rightarrow> KvLayer" where
  "shift_layer s l =
     (let moved = (if 0 < sh_rows s
                   then copy_within (kl_owner l) (sh_from s) (sh_from s + sh_rows s) (sh_to s)
                   else kl_owner l);
          owner = replace_range (\<lambda>_. True) (sh_seq s) FREE (sh_from s) (sh_to s) moved
      in l\<lparr>kl_owner := owner, kl_n_used := last_owned owner\<rparr>)"

definition apply_private_row ::
  "KvCache \<Rightarrow> KvShift \<Rightarrow> KvCache \<times> (private_error, unit) res" where
  "apply_private_row c s =
     (case map_of (kv_seqs c) (sh_seq s) of
        None \<Rightarrow> (c, Err (ApplyPrivateNoRun (sh_seq s)))
      | Some slot \<Rightarrow>
          if sl_start slot \<noteq> sh_from s \<or> shared_rows slot \<le> sh_base s
             \<or> private_written slot \<noteq> sh_rows s
          then (c, Err (ApplyPrivateStale (sh_seq s) (sl_start slot) (shared_rows slot)
                          (private_written slot) s))
          else case find (\<lambda>(_, l). length (kl_owner l) < sh_to s + sh_rows s
                              \<or> length (kl_owner l) < sh_from s + sh_rows s) (kv_layers c) of
            Some (_, l) \<Rightarrow> (c, Err (ApplyPrivateArena s (length (kl_owner l))))
          | None \<Rightarrow>
              (let slot' = slot\<lparr>sl_shared := (sl_shared slot)\<lparr>sp_rows := sh_base s\<rparr>\<rparr>;
                   c1 = c\<lparr>kv_layers := bt_map_values (shift_layer s) (kv_layers c),
                         kv_seqs := bt_insert (sh_seq s) slot' (kv_seqs c)\<rparr>;
                   c2 = refresh_spans c1 (sh_seq s)
               in (c2\<lparr>kv_cows := kv_cows c2 + 1,
                      kv_cow_cells := kv_cow_cells c2 + length (kv_layers c) * sh_rows s\<rparr>, Ok ())))"

section \<open>Sessions\<close>

definition session_written :: "KvSessionState \<Rightarrow> nat" where
  "session_written st = fold max (map (\<lambda>(_, s). sl_written s) (ks_seqs st)) 0"

definition session_state :: "KvCache \<Rightarrow> KvSessionState" where
  "session_state c =
     \<lparr>ks_identity = kv_identity c, ks_n_ctx = kv_n_ctx c, ks_seqs = kv_seqs c,
      ks_spans = kv_spans c,
      ks_layers = map (\<lambda>(layer, l). \<lparr>ls_layer = layer, ls_n_used = kl_n_used l,
                                     ls_owner = kl_owner l\<rparr>) (kv_layers c),
      ks_defrags = kv_defrags c, ks_cells_moved = kv_cells_moved c,
      ks_cows = kv_cows c, ks_cow_cells = kv_cow_cells c\<rparr>"

fun check_session_layers :: "KvCache \<Rightarrow> KvLayerSession list \<Rightarrow> (session_error, unit) res" where
  "check_session_layers c [] = Ok ()"
| "check_session_layers c (ls # rest) =
     (if map_of (kv_layers c) (ls_layer ls) = None then Err (SessionNoLayer (ls_layer ls))
      else if length (ls_owner ls) \<noteq> kv_n_ctx c
        then Err (SessionOwnerLen (ls_layer ls) (length (ls_owner ls)) (kv_n_ctx c))
      else if kv_n_ctx c < ls_n_used ls
        then Err (SessionUsed (ls_layer ls) (ls_n_used ls) (kv_n_ctx c))
      else check_session_layers c rest)"

fun check_session_spans :: "nat \<Rightarrow> SeqId \<Rightarrow> SeqSlot \<Rightarrow> span list \<Rightarrow> (session_error, unit) res" where
  "check_session_spans n seq slot [] = Ok ()"
| "check_session_spans n seq slot ((base, cell, len) # ss) =
     (if shared_rows slot + sl_cap slot < base + len \<or> n < cell + len
      then Err (SessionSpan seq base cell len)
      else check_session_spans n seq slot ss)"

fun check_session_seqs ::
  "nat \<Rightarrow> (SeqId \<times> span list) list \<Rightarrow> (SeqId \<times> SeqSlot) list \<Rightarrow> (session_error, unit) res" where
  "check_session_seqs n spans [] = Ok ()"
| "check_session_seqs n spans ((seq, slot) # rest) =
     (if n < sl_start slot + sl_cap slot
        then Err (SessionRun seq (sl_start slot) (sl_start slot + sl_cap slot) n)
      else if shared_rows slot + sl_cap slot < sl_written slot
        then Err (SessionWritten seq (sl_written slot) (sl_cap slot) (shared_rows slot))
      else case map_of spans seq of
        None \<Rightarrow> Err (SessionNoSpans seq)
      | Some ss \<Rightarrow> and_then (check_session_spans n seq slot ss)
                    (\<lambda>_. check_session_seqs n spans rest))"

definition restore_layer :: "KvLayerSession \<Rightarrow> (nat, KvLayer) btree \<Rightarrow> (nat, KvLayer) btree" where
  "restore_layer ls layers =
     (case map_of layers (ls_layer ls) of
        None \<Rightarrow> layers
      | Some l \<Rightarrow> bt_insert (ls_layer ls)
                    (l\<lparr>kl_owner := ls_owner ls, kl_n_used := ls_n_used ls\<rparr>) layers)"

definition restore_session ::
  "KvCache \<Rightarrow> KvSessionState \<Rightarrow> KvCache \<times> (session_error, unit) res" where
  "restore_session c st =
     (if ks_n_ctx st \<noteq> kv_n_ctx c then (c, Err (SessionNCtx (ks_n_ctx st) (kv_n_ctx c)))
      else case check_session_layers c (ks_layers st) of
        Inl e \<Rightarrow> (c, Err e)
      | Inr _ \<Rightarrow>
          (case check_session_seqs (kv_n_ctx c) (ks_spans st) (ks_seqs st) of
             Inl e \<Rightarrow> (c, Err e)
           | Inr _ \<Rightarrow>
               (c\<lparr>kv_layers := fold restore_layer (ks_layers st) (kv_layers c),
                  kv_identity := ks_identity st,
                  kv_seqs := bt_collect (ks_seqs st),
                  kv_spans := bt_collect (ks_spans st),
                  kv_defrags := ks_defrags st, kv_cells_moved := ks_cells_moved st,
                  kv_cows := ks_cows st, kv_cow_cells := ks_cow_cells st\<rparr>, Ok ())))"

section \<open>Applying relocations\<close>

text \<open>The layout check: every run at its planned place, sorted, must not overlap.\<close>

definition planned_run :: "KvMove list \<Rightarrow> SeqId \<times> SeqSlot \<Rightarrow> (moves_error, nat \<times> nat) res" where
  "planned_run moves = (\<lambda>(seq, slot).
     case find (\<lambda>m. mv_seq m = seq) moves of
       None \<Rightarrow> Ok (sl_start slot, sl_cap slot)
     | Some m \<Rightarrow>
         if sl_start slot \<noteq> mv_from m then Err (MovesStart seq (sl_start slot) (mv_from m))
         else if sl_cap slot < mv_rows m then Err (MovesRows m (sl_cap slot))
         else Ok (mv_to m, sl_cap slot))"

fun check_windows :: "(nat \<times> nat) list \<Rightarrow> (moves_error, unit) res" where
  "check_windows [] = Ok ()"
| "check_windows [_] = Ok ()"
| "check_windows ((a, ca) # (b, cb) # rest) =
     (if b < a + ca then Err (MovesOverlap a (a + ca) b) else check_windows ((b, cb) # rest))"

definition check_moves :: "KvCache \<Rightarrow> KvMove list \<Rightarrow> (moves_error, unit) res" where
  "check_moves c moves =
     and_then (traverse_res (planned_run moves) (kv_seqs c)) (\<lambda>planned0.
       let planned = sort planned0 in
       and_then (check_windows planned) (\<lambda>_.
         if planned \<noteq> [] \<and> kv_n_ctx c < fst (last planned) + snd (last planned)
         then Err (MovesPastArena (fst (last planned) + snd (last planned)) (kv_n_ctx c))
         else Ok ()))"

definition move_len :: "KvMove \<Rightarrow> KvLayer \<Rightarrow> nat" where
  "move_len m l = min (mv_rows m) (length (kl_owner l) - mv_from m)"

definition move_layer :: "KvMove \<Rightarrow> KvLayer \<Rightarrow> KvLayer" where
  "move_layer m l =
     (let rows = move_len m l;
          owner = (if 0 < rows then
            replace_range (\<lambda>cell. \<not> (mv_to m \<le> cell \<and> cell < mv_to m + rows)) (mv_seq m) FREE
              (min (mv_to m) (mv_from m))
              (min (max (mv_to m) (mv_from m) + rows) (length (kl_owner l)))
              (copy_within (kl_owner l) (mv_from m) (mv_from m + rows) (mv_to m))
            else kl_owner l)
      in l\<lparr>kl_owner := owner, kl_n_used := last_owned owner\<rparr>)"

definition move_panics :: "KvMove \<Rightarrow> KvLayer \<Rightarrow> bool" where
  "move_panics m l \<longleftrightarrow> 0 < move_len m l \<and>
     \<not> copy_within_ok (kl_owner l) (mv_from m) (mv_from m + move_len m l) (mv_to m)"

text \<open>The sequences whose shared prefix lies in the moved rows, or the one it straddles.\<close>

fun find_sharers :: "KvMove \<Rightarrow> (SeqId \<times> SeqSlot) list \<Rightarrow> (moves_error, SeqId list) res" where
  "find_sharers m [] = Ok []"
| "find_sharers m ((other, slot) # rest) =
     (let lo = shared_cell slot; hi = shared_cell slot + shared_rows slot;
          mlo = mv_from m; mhi = mv_from m + mv_rows m
      in if other = mv_seq m \<or> shared_rows slot = 0 then find_sharers m rest
         else if mhi \<le> lo \<or> hi \<le> mlo then find_sharers m rest
         else if lo < mlo \<or> mhi < hi
           then Err (MovesStraddle other (shared_rows slot) lo hi)
         else (case find_sharers m rest of Inl e \<Rightarrow> Inl e | Inr os \<Rightarrow> Inr (other # os)))"

definition renumber_sharer :: "KvMove \<Rightarrow> SeqId \<Rightarrow> KvCache \<Rightarrow> KvCache" where
  "renumber_sharer m other c =
     (case map_of (kv_seqs c) other of
        None \<Rightarrow> c
      | Some slot \<Rightarrow>
          refresh_spans (c\<lparr>kv_seqs := bt_insert other
            (slot\<lparr>sl_shared := (sl_shared slot)\<lparr>sp_cell := mv_to m + (shared_cell slot - mv_from m)\<rparr>\<rparr>)
            (kv_seqs c)\<rparr>) other)"

definition apply_move :: "KvMove \<Rightarrow> KvCache \<Rightarrow> KvCache \<times> (moves_error, unit) res" where
  "apply_move m c =
     (if list_ex (\<lambda>(_, l). move_panics m l) (kv_layers c) then (c, Err MovesPanic)
      else
        let c1 = c\<lparr>kv_layers := bt_map_values (move_layer m) (kv_layers c)\<rparr>;
            c2 = (case map_of (kv_seqs c1) (mv_seq m) of
                    None \<Rightarrow> c1
                  | Some slot \<Rightarrow>
                      c1\<lparr>kv_seqs := bt_insert (mv_seq m) (slot\<lparr>sl_start := mv_to m\<rparr>) (kv_seqs c1)\<rparr>);
            c3 = refresh_spans c2 (mv_seq m)
        in if mv_rows m = 0 then (c3, Ok ())
           else case find_sharers m (kv_seqs c3) of
             Inl e \<Rightarrow> (c3, Err e)
           | Inr os \<Rightarrow> (fold (renumber_sharer m) os c3, Ok ()))"

fun apply_move_list :: "KvMove list \<Rightarrow> KvCache \<Rightarrow> KvCache \<times> (moves_error, unit) res" where
  "apply_move_list [] c = (c, Ok ())"
| "apply_move_list (m # ms) c =
     (case apply_move m c of
        (c', Inl e) \<Rightarrow> (c', Err e)
      | (c', Inr _) \<Rightarrow> apply_move_list ms c')"

definition apply_moves :: "KvCache \<Rightarrow> KvMove list \<Rightarrow> KvCache \<times> (moves_error, nat) res" where
  "apply_moves c moves0 =
     (if moves0 = [] then (c, Ok 0)
      else
        let moves = order_moves moves0 in
        case check_moves c moves of
          Inl e \<Rightarrow> (c, Err e)
        | Inr _ \<Rightarrow>
            (case apply_move_list moves c of
               (c', Inl e) \<Rightarrow> (c', Err e)
             | (c', Inr _) \<Rightarrow>
                 (let rows_moved = sum_list (map mv_rows moves) in
                  (c'\<lparr>kv_defrags := kv_defrags c' + 1,
                     kv_cells_moved := kv_cells_moved c' + rows_moved * length (kv_layers c)\<rparr>,
                   Ok rows_moved))))"

end
