(* ===== verification/Kv_Inv.thy ===== *)
theory Kv_Inv
  imports Kv_Cache
begin

text \<open>
  The well-formedness of the KV store and the operations that keep it: the span lists are
  the ones the run table stands for, every run lies in the arena, two runs never overlap,
  and a shared prefix never covers a cell a sequence has reserved and not yet written.
\<close>

section \<open>The invariant\<close>

definition run_of :: "SeqSlot \<Rightarrow> nat set" where
  "run_of s = {sl_start s ..< sl_start s + sl_cap s}"

definition prefix_of :: "SeqSlot \<Rightarrow> nat set" where
  "prefix_of s = {shared_cell s ..< shared_cell s + shared_rows s}"

definition unwritten_of :: "SeqSlot \<Rightarrow> nat set" where
  "unwritten_of s = {sl_start s + private_written s ..< sl_start s + sl_cap s}"

definition slot_ok :: "nat \<Rightarrow> SeqSlot \<Rightarrow> bool" where
  "slot_ok n s \<longleftrightarrow> 0 < sl_cap s \<and> sl_start s + sl_cap s \<le> n \<and>
     shared_rows s \<le> sl_written s \<and> sl_written s \<le> shared_rows s + sl_cap s \<and>
     shared_cell s + shared_rows s \<le> n \<and> run_of s \<inter> prefix_of s = {}"

definition layer_ok :: "nat \<Rightarrow> KvLayer \<Rightarrow> bool" where
  "layer_ok n l \<longleftrightarrow> length (kl_owner l) = n \<and> kl_n_used l \<le> n"

definition spans_derived :: "KvCache \<Rightarrow> bool" where
  "spans_derived c \<longleftrightarrow> (\<forall>s. map_of (kv_spans c) s = map_option slot_spans (map_of (kv_seqs c) s))"

definition runs_disjoint :: "(SeqId \<rightharpoonup> SeqSlot) \<Rightarrow> bool" where
  "runs_disjoint m \<longleftrightarrow>
     (\<forall>s t a b. m s = Some a \<longrightarrow> m t = Some b \<longrightarrow> s \<noteq> t \<longrightarrow> run_of a \<inter> run_of b = {})"

definition prefixes_written :: "(SeqId \<rightharpoonup> SeqSlot) \<Rightarrow> bool" where
  "prefixes_written m \<longleftrightarrow>
     (\<forall>s t a b. m s = Some a \<longrightarrow> m t = Some b \<longrightarrow> prefix_of a \<inter> unwritten_of b = {})"

definition seqs_ok :: "nat \<Rightarrow> (SeqId \<rightharpoonup> SeqSlot) \<Rightarrow> bool" where
  "seqs_ok n m \<longleftrightarrow> (\<forall>s a. m s = Some a \<longrightarrow> slot_ok n a) \<and> runs_disjoint m \<and> prefixes_written m"

definition kv_wf :: "KvCache \<Rightarrow> bool" where
  "kv_wf c \<longleftrightarrow> bt_wf (kv_layers c) \<and> bt_wf (kv_seqs c) \<and> bt_wf (kv_spans c) \<and>
     spans_derived c \<and> seqs_ok (kv_n_ctx c) (map_of (kv_seqs c)) \<and>
     (\<forall>k l. map_of (kv_layers c) k = Some l \<longrightarrow> layer_ok (kv_n_ctx c) l)"

named_theorems kv_defs \<open>definitions of the cell sets of a slot\<close>
declare run_of_def [kv_defs] prefix_of_def [kv_defs] unwritten_of_def [kv_defs]
  private_written_def [kv_defs]

section \<open>Spans and resolution\<close>

lemma slot_spans_nonempty: "0 < sl_cap s \<Longrightarrow> slot_spans s \<noteq> []"
  by (simp add: slot_spans_def)

text \<open>Every record update of the other fields leaves these fields alone.\<close>

lemma refresh_spans_fields [simp]:
  "kv_layers (refresh_spans c s) = kv_layers c"
  "kv_seqs (refresh_spans c s) = kv_seqs c"
  "kv_identity (refresh_spans c s) = kv_identity c"
  "kv_n_ctx (refresh_spans c s) = kv_n_ctx c"
  "kv_defrags (refresh_spans c s) = kv_defrags c"
  "kv_cells_moved (refresh_spans c s) = kv_cells_moved c"
  "kv_cows (refresh_spans c s) = kv_cows c"
  "kv_cow_cells (refresh_spans c s) = kv_cow_cells c"
  by (simp_all add: refresh_spans_def Let_def split: option.splits)

lemma refresh_spans_wf [simp]: "bt_wf (kv_spans c) \<Longrightarrow> bt_wf (kv_spans (refresh_spans c s))"
  by (simp add: refresh_spans_def Let_def split: option.splits)

lemma map_of_refresh_spans:
  assumes "\<And>a. map_of (kv_seqs c) s = Some a \<Longrightarrow> 0 < sl_cap a"
  shows "map_of (kv_spans (refresh_spans c s)) =
    (map_of (kv_spans c))(s := map_option slot_spans (map_of (kv_seqs c) s))"
  using assms by (auto simp: refresh_spans_def Let_def slot_spans_nonempty split: option.splits)

text \<open>A store whose span lists match everywhere but at \<open>s\<close> is repaired by a refresh of \<open>s\<close>.\<close>

lemma spans_derived_refresh:
  assumes "\<And>a. map_of (kv_seqs c) s = Some a \<Longrightarrow> 0 < sl_cap a"
    and "\<And>t. t \<noteq> s \<Longrightarrow> map_of (kv_spans c) t = map_option slot_spans (map_of (kv_seqs c) t)"
  shows "spans_derived (refresh_spans c s)"
  using assms by (simp add: spans_derived_def map_of_refresh_spans)

definition slot_cell :: "SeqSlot \<Rightarrow> nat \<Rightarrow> nat option" where
  "slot_cell s p =
     (if p < shared_rows s then Some (shared_cell s + p)
      else if p < shared_rows s + sl_cap s then Some (sl_start s + (p - shared_rows s))
      else None)"

lemma find_cell_slot_spans: "find_cell p (slot_spans s) = slot_cell s p"
  by (auto simp: slot_spans_def slot_cell_def)

lemma cell_of_slot:
  "spans_derived c \<Longrightarrow> cell_of c s p = Option.bind (map_of (kv_seqs c) s) (\<lambda>a. slot_cell a p)"
  by (cases "map_of (kv_seqs c) s") (simp_all add: cell_of_def spans_derived_def find_cell_slot_spans)

lemma spans_of_slot:
  "spans_derived c \<Longrightarrow> map_of (kv_seqs c) s = Some a \<Longrightarrow> spans_of c s = slot_spans a"
  by (simp add: spans_of_def spans_derived_def)

lemma spans_of_none: "spans_derived c \<Longrightarrow> map_of (kv_seqs c) s = None \<Longrightarrow> spans_of c s = []"
  by (simp add: spans_of_def spans_derived_def)

text \<open>On a good slot the two directions of the resolution invert each other.\<close>

lemma find_pos_slot_cell:
  assumes "slot_ok n s" "slot_cell s p = Some cell"
  shows "find_pos cell (slot_spans s) = Some p"
proof -
  have dis: "run_of s \<inter> prefix_of s = {}" using assms(1) by (simp add: slot_ok_def)
  show ?thesis
  proof (cases "p < shared_rows s")
    case True
    then show ?thesis using assms(2) by (simp add: slot_cell_def slot_spans_def)
  next
    case False
    then have c: "cell = sl_start s + (p - shared_rows s)" "p < shared_rows s + sl_cap s"
      using assms(2) by (auto simp: slot_cell_def split: if_splits)
    then have "cell \<in> run_of s" using False by (auto simp: kv_defs)
    then have "cell \<notin> prefix_of s" using dis by auto
    then show ?thesis using c False by (auto simp: slot_spans_def kv_defs)
  qed
qed

lemma slot_cell_inj:
  "slot_ok n s \<Longrightarrow> slot_cell s p = Some x \<Longrightarrow> slot_cell s q = Some x \<Longrightarrow> p = q"
  by (metis find_pos_slot_cell option.inject)

lemma slot_cell_range:
  "slot_ok n s \<Longrightarrow> slot_cell s p = Some x \<Longrightarrow> x \<in> run_of s \<union> prefix_of s"
  by (auto simp: slot_cell_def kv_defs split: if_splits)

lemma slot_cell_bound: "slot_ok n s \<Longrightarrow> slot_cell s p = Some x \<Longrightarrow> x < n"
  by (auto simp: slot_cell_def slot_ok_def split: if_splits)

section \<open>Occupancy and first fit\<close>

text \<open>The cells a span list covers.\<close>

definition in_span :: "nat \<Rightarrow> span \<Rightarrow> bool" where
  "in_span i sp \<longleftrightarrow> fst (snd sp) \<le> i \<and> i < fst (snd sp) + snd (snd sp)"

definition covered :: "nat \<Rightarrow> span list \<Rightarrow> bool" where
  "covered i spans \<longleftrightarrow> (\<exists>sp \<in> set spans. in_span i sp)"

definition mark_spans :: "nat \<Rightarrow> span list \<Rightarrow> bool list \<Rightarrow> bool list" where
  "mark_spans n = fold (\<lambda>(_, cell, len) t. set_range t cell (min (cell + len) n) True)"

lemma length_mark_spans [simp]: "length (mark_spans n spans t) = length t"
  by (induction spans arbitrary: t) (auto simp: mark_spans_def)

lemma nth_mark_spans:
  "i < length t \<Longrightarrow> i < n \<Longrightarrow> mark_spans n spans t ! i = (t ! i \<or> covered i spans)"
proof (induction spans arbitrary: t)
  case Nil
  then show ?case by (simp add: mark_spans_def covered_def)
next
  case (Cons sp spans)
  obtain b c l where sp: "sp = (b, c, l)" by (cases sp) auto
  have "mark_spans n (sp # spans) t = mark_spans n spans (set_range t c (min (c + l) n) True)"
    by (simp add: mark_spans_def sp)
  with Cons show ?case by (auto simp: sp nth_set_range covered_def in_span_def)
qed

lemma occupied_mark: "occupied c = fold (\<lambda>e. mark_spans (kv_n_ctx c) (snd e)) (kv_spans c)
    (replicate (kv_n_ctx c) False)"
  by (simp add: occupied_def mark_spans_def split_def)

lemma mark_all:
  "length (fold (\<lambda>e. mark_spans n (snd e)) m t) = length t"
  "i < length t \<Longrightarrow> i < n \<Longrightarrow>
     fold (\<lambda>e. mark_spans n (snd e)) m t ! i = (t ! i \<or> (\<exists>e \<in> set m. covered i (snd e)))"
  by (induction m arbitrary: t) (auto simp: nth_mark_spans)

lemma length_occupied [simp]: "length (occupied c) = kv_n_ctx c"
  by (simp add: occupied_mark mark_all)

lemma covered_slot_spans: "covered i (slot_spans s) \<longleftrightarrow> i \<in> run_of s \<union> prefix_of s"
  by (auto simp: covered_def in_span_def slot_spans_def kv_defs)

lemma occupied_iff:
  assumes "bt_wf (kv_spans c)" "spans_derived c" "i < kv_n_ctx c"
  shows "occupied c ! i \<longleftrightarrow>
    (\<exists>s a. map_of (kv_seqs c) s = Some a \<and> i \<in> run_of a \<union> prefix_of a)"
proof -
  have "occupied c ! i \<longleftrightarrow> (\<exists>e \<in> set (kv_spans c). covered i (snd e))"
    using assms(3) by (simp add: occupied_mark mark_all)
  also have "\<dots> \<longleftrightarrow> (\<exists>s spans. map_of (kv_spans c) s = Some spans \<and> covered i spans)"
    using bt_mem_iff [OF assms(1)] by (metis prod.collapse snd_conv)
  also have "\<dots> \<longleftrightarrow> (\<exists>s a. map_of (kv_seqs c) s = Some a \<and> covered i (slot_spans a))"
    using assms(2) by (auto simp: spans_derived_def)
  finally show ?thesis by (simp add: covered_slot_spans)
qed

definition all_free :: "bool list \<Rightarrow> nat \<Rightarrow> nat \<Rightarrow> bool" where
  "all_free xs p n \<longleftrightarrow> p + n \<le> length xs \<and> (\<forall>i. p \<le> i \<longrightarrow> i < p + n \<longrightarrow> \<not> xs ! i)"

text \<open>
  The scan's loop invariant: \<open>run\<close> free cells end at \<open>start\<close>, the cell before them is taken,
  and no window of \<open>cap\<close> cells that ends by \<open>start\<close> is free.
\<close>

lemma first_fit_scan:
  assumes "ts = drop start xs" "start \<le> length xs" "run \<le> start" "run < cap"
    and "\<forall>i. start - run \<le> i \<longrightarrow> i < start \<longrightarrow> \<not> xs ! i"
    and "run = start \<or> xs ! (start - run - 1)"
    and "\<forall>q. q + cap \<le> start \<longrightarrow> \<not> all_free xs q cap"
  shows "case first_fit ts start run cap of
      Some p \<Rightarrow> all_free xs p cap \<and> (\<forall>q < p. \<not> all_free xs q cap)
    | None \<Rightarrow> \<forall>q. \<not> all_free xs q cap"
  using assms
proof (induction ts start run cap rule: first_fit.induct)
  case (1 start run cap)
  then have "start = length xs" by simp
  with 1 show ?case by (auto simp: all_free_def)
next
  case (2 t ts start run cap)
  have lt: "start < length xs"
    using "2.prems"(1) by (metis drop_eq_Nil leI list.distinct(1))
  then have dr: "drop start xs = xs ! start # drop (Suc start) xs"
    by (simp add: Cons_nth_drop_Suc)
  then have t: "t = xs ! start" and ts: "ts = drop (start + 1) xs"
    using "2.prems"(1) by auto
  show ?case
  proof (cases t)
    case True
    have "\<forall>q. q + cap \<le> start + 1 \<longrightarrow> \<not> all_free xs q cap"
    proof (intro allI impI)
      fix q assume q: "q + cap \<le> start + 1"
      show "\<not> all_free xs q cap"
      proof (cases "q + cap \<le> start")
        case True
        then show ?thesis using "2.prems"(7) by blast
      next
        case False
        then have "q \<le> start" "start < q + cap" using q "2.prems"(4) by linarith+
        then show ?thesis using t \<open>t\<close> by (auto simp: all_free_def)
      qed
    qed
    then show ?thesis
      using "2.IH"(1) True ts lt t "2.prems"(4) by simp
  next
    case False
    note IH = "2.IH"(2) [OF False]
    have free: "\<forall>i. start - run \<le> i \<longrightarrow> i < start + 1 \<longrightarrow> \<not> xs ! i"
      using "2.prems"(5) False t by (auto simp: less_Suc_eq)
    have below: "\<not> all_free xs q cap" if "q + cap \<le> start + 1" "q < start - run" for q
    proof (cases "q + cap \<le> start")
      case True
      then show ?thesis using "2.prems"(7) by blast
    next
      case nle: False
      then have "q \<le> start - run - 1" "start - run - 1 < q + cap" "run \<noteq> start"
        using that "2.prems"(3,4) by linarith+
      then show ?thesis using "2.prems"(6) by (auto simp: all_free_def)
    qed
    show ?thesis
    proof (cases "run + 1 = cap")
      case True
      then have "all_free xs (start + 1 - cap) cap"
        using free lt "2.prems"(3) by (auto simp: all_free_def)
      moreover have "\<forall>q < start + 1 - cap. \<not> all_free xs q cap"
        using below True "2.prems"(3) by auto
      ultimately show ?thesis using False True by simp
    next
      case ne: False
      have "\<forall>q. q + cap \<le> start + 1 \<longrightarrow> \<not> all_free xs q cap"
      proof (intro allI impI)
        fix q assume q: "q + cap \<le> start + 1"
        then have "q < start - run" using ne "2.prems"(3,4) by linarith
        then show "\<not> all_free xs q cap" using below q by blast
      qed
      then show ?thesis
        using IH [OF ne ts] lt free False ne "2.prems"(3,4,6) by simp
    qed
  qed
qed

lemma first_fit_correct:
  assumes "0 < cap"
  shows "case first_fit xs 0 0 cap of
      Some p \<Rightarrow> all_free xs p cap \<and> (\<forall>q < p. \<not> all_free xs q cap)
    | None \<Rightarrow> \<forall>q. \<not> all_free xs q cap"
  using assms by (intro first_fit_scan) (auto simp: all_free_def)

section \<open>Preservation\<close>

lemma seqs_okD:
  assumes "seqs_ok n m"
  shows "m s = Some a \<Longrightarrow> slot_ok n a"
    "m s = Some a \<Longrightarrow> m t = Some b \<Longrightarrow> s \<noteq> t \<Longrightarrow> run_of a \<inter> run_of b = {}"
    "m s = Some a \<Longrightarrow> m t = Some b \<Longrightarrow> prefix_of a \<inter> unwritten_of b = {}"
  using assms unfolding seqs_ok_def runs_disjoint_def prefixes_written_def by blast+

lemma kv_wfD:
  assumes "kv_wf c"
  shows "bt_wf (kv_layers c)" "bt_wf (kv_seqs c)" "bt_wf (kv_spans c)" "spans_derived c"
    "seqs_ok (kv_n_ctx c) (map_of (kv_seqs c))"
    "map_of (kv_layers c) k = Some l \<Longrightarrow> layer_ok (kv_n_ctx c) l"
    "map_of (kv_seqs c) s = Some a \<Longrightarrow> slot_ok (kv_n_ctx c) a"
    "map_of (kv_seqs c) s = Some a \<Longrightarrow> map_of (kv_seqs c) t = Some b \<Longrightarrow> s \<noteq> t \<Longrightarrow>
       run_of a \<inter> run_of b = {}"
    "map_of (kv_seqs c) s = Some a \<Longrightarrow> map_of (kv_seqs c) t = Some b \<Longrightarrow>
       prefix_of a \<inter> unwritten_of b = {}"
  using assms unfolding kv_wf_def seqs_ok_def runs_disjoint_def prefixes_written_def by blast+

lemma unwritten_subset_run: "unwritten_of a \<subseteq> run_of a"
  by (auto simp: kv_defs)

text \<open>Replacing the slot of one sequence.\<close>

lemma seqs_ok_update:
  assumes "seqs_ok n m" "slot_ok n a"
    and others: "\<And>t b. m t = Some b \<Longrightarrow> t \<noteq> s \<Longrightarrow>
      run_of a \<inter> run_of b = {} \<and> prefix_of a \<inter> unwritten_of b = {} \<and> prefix_of b \<inter> unwritten_of a = {}"
  shows "seqs_ok n (m(s \<mapsto> a))"
proof -
  have self: "prefix_of a \<inter> unwritten_of a = {}"
    using assms(2) unwritten_subset_run [of a] by (auto simp: slot_ok_def)
  have "runs_disjoint (m(s \<mapsto> a))"
    using assms(1) others unfolding seqs_ok_def runs_disjoint_def
    by (auto simp: Int_commute split: if_splits)
  moreover have "prefixes_written (m(s \<mapsto> a))"
    using assms(1) others self unfolding seqs_ok_def prefixes_written_def by (auto split: if_splits)
  ultimately show ?thesis using assms(1,2) by (auto simp: seqs_ok_def)
qed

lemma seqs_ok_remove: "seqs_ok n m \<Longrightarrow> seqs_ok n (m(s := None))"
  by (auto simp: seqs_ok_def runs_disjoint_def prefixes_written_def)

lemma kv_wf_update_slot:
  assumes "kv_wf c" "seqs_ok (kv_n_ctx c) ((map_of (kv_seqs c))(s \<mapsto> a))"
  shows "kv_wf (refresh_spans (c\<lparr>kv_seqs := bt_insert s a (kv_seqs c)\<rparr>) s)"
proof -
  have "0 < sl_cap a" using seqs_okD(1) [OF assms(2), of s a] by (simp add: slot_ok_def)
  then have "spans_derived (refresh_spans (c\<lparr>kv_seqs := bt_insert s a (kv_seqs c)\<rparr>) s)"
    using kv_wfD(4) [OF assms(1)] by (intro spans_derived_refresh) (auto simp: spans_derived_def)
  then show ?thesis using assms by (simp add: kv_wf_def)
qed

lemma kv_wf_map_layers:
  assumes "kv_wf c" "\<And>l. layer_ok (kv_n_ctx c) l \<Longrightarrow> layer_ok (kv_n_ctx c) (f l)"
  shows "kv_wf (c\<lparr>kv_layers := bt_map_values f (kv_layers c)\<rparr>)"
  using assms by (auto simp: kv_wf_def spans_derived_def)

lemma kv_wf_new: "kv_wf kv_new"
  by (simp add: kv_wf_def kv_new_def spans_derived_def seqs_ok_def runs_disjoint_def
      prefixes_written_def)

lemma layer_ok_fresh: "layer_ok n \<lparr>kl_k = k, kl_v = v, kl_elems = e, kl_n_ctx = n,
    kl_n_embd = d, kl_packed = p, kl_owner = replicate n FREE, kl_n_used = 0\<rparr>"
  by (simp add: layer_ok_def)

text \<open>
  A layer whose arena has the declared capacity keeps the store well formed; so does the
  first layer of a store with no reservation, which declares the capacity.
\<close>

lemma kv_wf_insert:
  assumes "kv_wf c" "n = kv_n_ctx c \<or> kv_layers c = [] \<and> kv_seqs c = [] \<and> kv_n_ctx c \<le> n"
  shows "kv_wf (kv_insert c layer k v d e n p)"
proof -
  have "kv_n_ctx c \<le> n" using assms(2) by auto
  then show ?thesis
    using assms by (auto simp: kv_wf_def kv_insert_def spans_derived_def layer_ok_fresh max_def
        seqs_ok_def runs_disjoint_def prefixes_written_def split: if_splits)
qed

text \<open>Reserving: the run found is free, so it meets no run and no shared prefix.\<close>

lemma free_window_disjoint:
  assumes "kv_wf c" "all_free (occupied c) p cap" "map_of (kv_seqs c) t = Some b"
  shows "{p ..< p + cap} \<inter> (run_of b \<union> prefix_of b) = {}"
proof -
  have "\<not> i \<in> run_of b \<union> prefix_of b" if "p \<le> i" "i < p + cap" for i
  proof -
    have "i < kv_n_ctx c" "\<not> occupied c ! i" using assms(2) that by (auto simp: all_free_def)
    then show ?thesis
      using occupied_iff [OF kv_wfD(3) [OF assms(1)] kv_wfD(4) [OF assms(1)]] assms(3) by blast
  qed
  then show ?thesis by auto
qed

lemma reserve_seq_new:
  assumes "kv_wf c" "map_of (kv_seqs c) s = None" "reserve_seq c s cap = (c', Ok slot)"
  shows "all_free (occupied c) (sl_start slot) cap"
    "\<forall>q < sl_start slot. \<not> all_free (occupied c) q cap"
    "slot = slot_new (sl_start slot) cap"
    "c' = refresh_spans (c\<lparr>kv_seqs := bt_insert s slot (kv_seqs c)\<rparr>) s"
  using assms first_fit_correct [of cap "occupied c"]
  by (auto simp: reserve_seq_def slot_new_def Let_def split: if_splits option.splits)

lemma seqs_ok_reserve:
  assumes "kv_wf c" "all_free (occupied c) p cap" "0 < cap"
  shows "seqs_ok (kv_n_ctx c) ((map_of (kv_seqs c))(s \<mapsto> slot_new p cap))"
proof (rule seqs_ok_update [OF kv_wfD(5) [OF assms(1)]])
  show "slot_ok (kv_n_ctx c) (slot_new p cap)"
    using assms(2,3) by (auto simp: slot_ok_def slot_new_def no_share_def kv_defs all_free_def)
  fix t b assume t: "map_of (kv_seqs c) t = Some b"
  show "run_of (slot_new p cap) \<inter> run_of b = {} \<and> prefix_of (slot_new p cap) \<inter> unwritten_of b = {}
      \<and> prefix_of b \<inter> unwritten_of (slot_new p cap) = {}"
  proof -
    have "run_of (slot_new p cap) = {p ..< p + cap}" "prefix_of (slot_new p cap) = {}"
      by (auto simp: slot_new_def no_share_def kv_defs)
    then show ?thesis
      using free_window_disjoint [OF assms(1,2) t] unwritten_subset_run [of "slot_new p cap"] by blast
  qed
qed

lemma kv_wf_reserve_seq: "kv_wf c \<Longrightarrow> kv_wf (fst (reserve_seq c s cap))"
proof (cases "\<exists>slot. map_of (kv_seqs c) s = None \<and> snd (reserve_seq c s cap) = Ok slot")
  case True
  assume wf: "kv_wf c"
  from True obtain slot where s: "map_of (kv_seqs c) s = None" "reserve_seq c s cap = (fst (reserve_seq c s cap), Ok slot)"
    by (metis prod.collapse)
  note new = reserve_seq_new [OF wf s]
  have "0 < cap" using s by (auto simp: reserve_seq_def split: if_splits)
  then have "kv_wf (refresh_spans (c\<lparr>kv_seqs := bt_insert s slot (kv_seqs c)\<rparr>) s)"
    using kv_wf_update_slot [OF wf seqs_ok_reserve [OF wf new(1)]] new(3) by metis
  then show ?thesis using new(4) by simp
next
  case False
  assume "kv_wf c"
  moreover have "fst (reserve_seq c s cap) = c"
    using False by (auto simp: reserve_seq_def Let_def split: option.splits)
  ultimately show ?thesis by simp
qed

text \<open>Releasing.\<close>

lemma layer_ok_release: "layer_ok n l \<Longrightarrow> layer_ok n (release_layer s slot l)"
  by (simp add: layer_ok_def release_layer_def)

lemma release_seq_some:
  assumes "map_of (kv_seqs c) s = Some slot"
  shows "release_seq c s =
    ((refresh_spans (c\<lparr>kv_seqs := bt_remove s (kv_seqs c)\<rparr>) s)
       \<lparr>kv_layers := bt_map_values (release_layer s slot) (kv_layers c)\<rparr>, sl_cap slot)"
  using assms by (simp add: release_seq_def Let_def)

lemma kv_wf_release_seq:
  assumes "kv_wf c"
  shows "kv_wf (fst (release_seq c s))"
proof (cases "map_of (kv_seqs c) s")
  case None
  then show ?thesis using assms by (simp add: release_seq_def)
next
  case (Some slot)
  let ?c1 = "refresh_spans (c\<lparr>kv_seqs := bt_remove s (kv_seqs c)\<rparr>) s"
  have "spans_derived ?c1"
    using kv_wfD(4) [OF assms] by (intro spans_derived_refresh) (auto simp: spans_derived_def)
  then have "kv_wf ?c1"
    using assms seqs_ok_remove by (simp add: kv_wf_def)
  then have "kv_wf (?c1\<lparr>kv_layers := bt_map_values (release_layer s slot) (kv_layers ?c1)\<rparr>)"
    by (rule kv_wf_map_layers) (simp add: layer_ok_release)
  then show ?thesis by (simp add: release_seq_some [OF Some])
qed

text \<open>Marking rows as written.\<close>

lemma layer_ok_own: "layer_ok n l \<Longrightarrow> layer_ok n (own_layer s from to l)"
  by (simp add: layer_ok_def own_layer_def Let_def)

text \<open>The rows a sequence may claim: positions inside its address space.\<close>

lemma written_fold_bound:
  fixes w b :: nat
  assumes "\<And>x p. f x = Some p \<Longrightarrow> p < b" "w \<le> b"
  shows "w \<le> fold (\<lambda>x w. case f x of Some p \<Rightarrow> max w (p + 1) | None \<Rightarrow> w) xs w
    \<and> fold (\<lambda>x w. case f x of Some p \<Rightarrow> max w (p + 1) | None \<Rightarrow> w) xs w \<le> b"
  using assms(2)
proof (induction xs arbitrary: w)
  case Nil
  then show ?case by simp
next
  case (Cons x xs)
  show ?case
  proof (cases "f x")
    case None
    then show ?thesis using Cons by simp
  next
    case (Some p)
    then have "max w (p + 1) \<le> b" using assms(1) Cons.prems by (simp add: Suc_leI)
    from Cons.IH [OF this] show ?thesis using Some by auto
  qed
qed

lemma find_pos_bound: "find_pos x (slot_spans a) = Some p \<Longrightarrow> p < shared_rows a + sl_cap a"
  by (auto simp: slot_spans_def split: if_splits)

lemma seqs_ok_written:
  assumes "seqs_ok n m" "m s = Some a" "sl_written a \<le> w" "w \<le> shared_rows a + sl_cap a"
  shows "seqs_ok n (m(s \<mapsto> a\<lparr>sl_written := w\<rparr>))"
proof (rule seqs_ok_update [OF assms(1)])
  have a: "slot_ok n a" using assms(1,2) by (auto simp: seqs_ok_def)
  then show "slot_ok n (a\<lparr>sl_written := w\<rparr>)"
    using assms(3,4) by (auto simp: slot_ok_def kv_defs)
  fix t b assume t: "m t = Some b" "t \<noteq> s"
  have "unwritten_of (a\<lparr>sl_written := w\<rparr>) \<subseteq> unwritten_of a"
    "run_of (a\<lparr>sl_written := w\<rparr>) = run_of a" "prefix_of (a\<lparr>sl_written := w\<rparr>) = prefix_of a"
    using assms(3) by (auto simp: kv_defs)
  then show "run_of (a\<lparr>sl_written := w\<rparr>) \<inter> run_of b = {} \<and>
      prefix_of (a\<lparr>sl_written := w\<rparr>) \<inter> unwritten_of b = {} \<and>
      prefix_of b \<inter> unwritten_of (a\<lparr>sl_written := w\<rparr>) = {}"
    using seqs_okD(2) [OF assms(1,2) t(1)] seqs_okD(3) [OF assms(1,2) t(1)]
      seqs_okD(3) [OF assms(1) t(1) assms(2)] t(2) by blast
qed

lemma own_range_none:
  "map_of (kv_seqs c) s = None \<Longrightarrow>
   own_range c s from to = c\<lparr>kv_layers := bt_map_values (own_layer s from to) (kv_layers c)\<rparr>"
  by (simp add: own_range_def Let_def)

definition claimed :: "KvCache \<Rightarrow> SeqId \<Rightarrow> nat \<Rightarrow> nat \<Rightarrow> nat" where
  "claimed c s from to =
     fold (\<lambda>cell w. case pos_of_cell c s cell of Some pos \<Rightarrow> max w (pos + 1) | None \<Rightarrow> w)
       [from..<to] (written_rows c s)"

lemma own_range_some:
  assumes "map_of (kv_seqs c) s = Some a"
  shows "own_range c s from to =
    c\<lparr>kv_layers := bt_map_values (own_layer s from to) (kv_layers c),
      kv_seqs := bt_insert s (a\<lparr>sl_written := claimed c s from to\<rparr>) (kv_seqs c)\<rparr>"
proof -
  have "pos_of_cell (c\<lparr>kv_layers := ls\<rparr>) s = pos_of_cell c s"
    "written_rows (c\<lparr>kv_layers := ls\<rparr>) s = written_rows c s" for ls
    by (simp_all add: pos_of_cell_def written_rows_def fun_eq_iff)
  then show ?thesis using assms by (simp add: own_range_def Let_def claimed_def)
qed

lemma kv_update_commute:
  "c\<lparr>kv_layers := ls, kv_seqs := ss\<rparr> = c\<lparr>kv_seqs := ss, kv_layers := ls\<rparr>"
  by simp

lemma pos_of_cell_slot:
  "spans_derived c \<Longrightarrow> map_of (kv_seqs c) s = Some a \<Longrightarrow>
   pos_of_cell c s x = find_pos x (slot_spans a)"
  by (simp add: pos_of_cell_def spans_derived_def)

lemma claimed_bounds:
  assumes "kv_wf c" "map_of (kv_seqs c) s = Some a"
  shows "sl_written a \<le> claimed c s from to" "claimed c s from to \<le> shared_rows a + sl_cap a"
proof -
  have w: "written_rows c s = sl_written a" using assms(2) by (simp add: written_rows_def)
  have "sl_written a \<le> shared_rows a + sl_cap a"
    using kv_wfD(7) [OF assms] by (simp add: slot_ok_def)
  moreover have "pos_of_cell c s x = Some p \<Longrightarrow> p < shared_rows a + sl_cap a" for x p
    using find_pos_bound pos_of_cell_slot [OF kv_wfD(4) [OF assms(1)] assms(2)] by metis
  ultimately show "sl_written a \<le> claimed c s from to" "claimed c s from to \<le> shared_rows a + sl_cap a"
    using written_fold_bound [of "pos_of_cell c s" "shared_rows a + sl_cap a" "sl_written a" "[from..<to]"]
    by (simp_all add: claimed_def w)
qed

text \<open>Changing only how much a sequence has written leaves its span list as it is.\<close>

lemma kv_wf_set_written:
  assumes "kv_wf c" "map_of (kv_seqs c) s = Some a" "sl_written a \<le> w"
    "w \<le> shared_rows a + sl_cap a"
  shows "kv_wf (c\<lparr>kv_seqs := bt_insert s (a\<lparr>sl_written := w\<rparr>) (kv_seqs c)\<rparr>)"
proof -
  have "slot_spans (a\<lparr>sl_written := w\<rparr>) = slot_spans a" by (simp add: slot_spans_def)
  then have "spans_derived (c\<lparr>kv_seqs := bt_insert s (a\<lparr>sl_written := w\<rparr>) (kv_seqs c)\<rparr>)"
    using kv_wfD(4) [OF assms(1)] assms(2) by (simp add: spans_derived_def)
  then show ?thesis
    using assms(1) seqs_ok_written [OF kv_wfD(5) [OF assms(1)] assms(2-4)] by (simp add: kv_wf_def)
qed

lemma kv_wf_own_range:
  assumes "kv_wf c"
  shows "kv_wf (own_range c s from to)"
proof (cases "map_of (kv_seqs c) s")
  case None
  then show ?thesis
    using kv_wf_map_layers [OF assms layer_ok_own] by (simp add: own_range_none)
next
  case (Some a)
  let ?c1 = "c\<lparr>kv_seqs := bt_insert s (a\<lparr>sl_written := claimed c s from to\<rparr>) (kv_seqs c)\<rparr>"
  have "kv_wf ?c1"
    using kv_wf_set_written [OF assms Some claimed_bounds [OF assms Some]] .
  then have "kv_wf (?c1\<lparr>kv_layers := bt_map_values (own_layer s from to) (kv_layers ?c1)\<rparr>)"
    by (rule kv_wf_map_layers) (rule layer_ok_own)
  then show ?thesis by (simp add: own_range_some [OF Some] kv_update_commute)
qed

lemma own_range_fields [simp]:
  "kv_spans (own_range c s from to) = kv_spans c"
  "kv_n_ctx (own_range c s from to) = kv_n_ctx c"
  "cell_of (own_range c s from to) t p = cell_of c t p"
  by (cases "map_of (kv_seqs c) s";
      simp add: own_range_none own_range_some cell_of_def)+

lemma own_positions_wf: "kv_wf c \<Longrightarrow> kv_wf (fst (own_positions c s ps))"
  by (induction c s ps rule: own_positions.induct) (auto simp: kv_wf_own_range split: option.splits)

text \<open>Writing never changes where a position lives.\<close>

lemma own_positions_cell_of:
  "cell_of (fst (own_positions c s ps)) t p = cell_of c t p"
  by (induction c s ps rule: own_positions.induct) (auto split: option.splits)

lemma own_range_one_written:
  assumes "kv_wf c" "map_of (kv_seqs c) s = Some a" "cell_of c s p = Some x"
  shows "written_rows (own_range c s x (x + 1)) s = max (sl_written a) (p + 1)"
proof -
  have "slot_cell a p = Some x" using assms cell_of_slot [OF kv_wfD(4) [OF assms(1)]] by simp
  then have "pos_of_cell c s x = Some p"
    using find_pos_slot_cell [OF kv_wfD(7) [OF assms(1,2)]] pos_of_cell_slot [OF kv_wfD(4) [OF assms(1)] assms(2)]
    by simp
  then show ?thesis
    using assms(2) by (simp add: own_range_some claimed_def written_rows_def)
qed

lemma own_range_other: "t \<noteq> s \<Longrightarrow> map_of (kv_seqs (own_range c s from to)) t = map_of (kv_seqs c) t"
  by (cases "map_of (kv_seqs c) s") (simp_all add: own_range_none own_range_some)

lemma own_range_slot:
  "map_of (kv_seqs c) s = Some a \<Longrightarrow>
   map_of (kv_seqs (own_range c s from to)) s = Some (a\<lparr>sl_written := claimed c s from to\<rparr>)"
  by (simp add: own_range_some)

section \<open>Sharing\<close>

text \<open>
  The cells of the first \<open>rows\<close> positions of a donor that are one contiguous range are rows
  the donor reads: its own shared prefix and the rows it wrote itself.
\<close>

lemma shared_range:
  assumes "slot_ok n a" "0 < rows" "rows \<le> sl_written a" "slot_cell a 0 = Some cell"
    "slot_cell a (rows - 1) = Some (cell + rows - 1)"
  shows "p < rows \<Longrightarrow> slot_cell a p = Some (cell + p)"
    "{cell ..< cell + rows} \<subseteq> prefix_of a \<union> (run_of a - unwritten_of a)"
    "cell + rows \<le> n"
proof -
  consider "shared_rows a = 0" | "0 < shared_rows a" "rows \<le> shared_rows a"
    | "0 < shared_rows a" "shared_rows a < rows" by linarith
  then have "(p < rows \<longrightarrow> slot_cell a p = Some (cell + p)) \<and>
      {cell ..< cell + rows} \<subseteq> prefix_of a \<union> (run_of a - unwritten_of a) \<and> cell + rows \<le> n"
  proof cases
    case 1
    then have "cell = sl_start a" "rows \<le> sl_cap a"
      using assms by (auto simp: slot_cell_def slot_ok_def split: if_splits)
    then show ?thesis using 1 assms by (auto simp: slot_cell_def slot_ok_def kv_defs)
  next
    case 2
    then have "cell = shared_cell a" using assms by (simp add: slot_cell_def)
    then show ?thesis using 2 assms by (auto simp: slot_cell_def slot_ok_def kv_defs)
  next
    case 3
    then have cell: "cell = shared_cell a" using assms by (simp add: slot_cell_def)
    have lst: "sl_start a + (rows - 1 - shared_rows a) = cell + rows - 1"
      "rows - 1 < shared_rows a + sl_cap a"
      using 3 assms(5) by (auto simp: slot_cell_def split: if_splits)
    then have adj: "sl_start a = shared_cell a + shared_rows a" using cell 3 by linarith
    have "rows - shared_rows a \<le> sl_cap a" using lst(2) 3 by linarith
    then show ?thesis
      using 3 assms adj cell by (auto simp: slot_cell_def slot_ok_def kv_defs)
  qed
  then show "p < rows \<Longrightarrow> slot_cell a p = Some (cell + p)"
    "{cell ..< cell + rows} \<subseteq> prefix_of a \<union> (run_of a - unwritten_of a)" "cell + rows \<le> n"
    by auto
qed

text \<open>What a successful share did.\<close>

lemma share_prefix_ok:
  assumes "kv_wf c" "share_prefix c src dst rows = (c', Ok ())"
  obtains donor d cell where "map_of (kv_seqs c) src = Some donor" "map_of (kv_seqs c) dst = Some d"
    "src \<noteq> dst" "0 < rows" "rows \<le> sl_written donor" "shared_rows d = 0" "sl_written d = 0"
    "slot_cell donor 0 = Some cell" "slot_cell donor (rows - 1) = Some (cell + rows - 1)"
    "c' = refresh_spans (c\<lparr>kv_seqs := bt_insert dst
       (d\<lparr>sl_shared := \<lparr>sp_cell = cell, sp_rows = rows\<rparr>, sl_written := rows\<rparr>) (kv_seqs c)\<rparr>) dst"
  using assms(2) cell_of_slot [OF kv_wfD(4) [OF assms(1)]]
  by (auto simp: share_prefix_def split: if_splits option.splits)

lemma seqs_ok_share:
  assumes "seqs_ok n m" "m src = Some a" "m dst = Some d" "src \<noteq> dst" "0 < rows"
    "rows \<le> sl_written a" "shared_rows d = 0" "sl_written d = 0"
    "slot_cell a 0 = Some cell" "slot_cell a (rows - 1) = Some (cell + rows - 1)"
  defines "d' \<equiv> d\<lparr>sl_shared := \<lparr>sp_cell = cell, sp_rows = rows\<rparr>, sl_written := rows\<rparr>"
  shows "seqs_ok n (m(dst \<mapsto> d'))"
proof -
  note a = seqs_okD(1) [OF assms(1,2)] and d = seqs_okD(1) [OF assms(1,3)]
  note rng = shared_range [OF a assms(5,6,9,10)]
  have pre: "prefix_of d' = {cell ..< cell + rows}" "run_of d' = run_of d"
    "unwritten_of d' = run_of d" "unwritten_of d = run_of d"
    using assms(7,8) by (auto simp: d'_def kv_defs)
  have disj: "prefix_of d' \<inter> unwritten_of b = {}" if "m t = Some b" for t b
  proof (cases "t = src")
    case True
    then have "b = a" using that assms(2) by simp
    then show ?thesis
      using rng(2) pre(1) seqs_okD(3) [OF assms(1,2,2)] by blast
  next
    case False
    then have "run_of a \<inter> run_of b = {}" using seqs_okD(2) [OF assms(1,2) that] by simp
    then show ?thesis
      using rng(2) pre(1) seqs_okD(3) [OF assms(1,2) that] unwritten_subset_run [of b] by blast
  qed
  have "run_of d' \<inter> prefix_of d' = {}" using disj [OF assms(3)] pre by blast
  then have "slot_ok n d'"
    using d rng(3) assms(5) by (simp add: slot_ok_def d'_def)
  then show ?thesis
  proof (rule seqs_ok_update [OF assms(1)])
    fix t b assume t: "m t = Some b" "t \<noteq> dst"
    then show "run_of d' \<inter> run_of b = {} \<and> prefix_of d' \<inter> unwritten_of b = {} \<and>
        prefix_of b \<inter> unwritten_of d' = {}"
      using disj [OF t(1)] pre seqs_okD(2) [OF assms(1,3) t(1)] seqs_okD(3) [OF assms(1) t(1) assms(3)]
      by simp
  qed
qed

lemma share_prefix_err: "share_prefix c src dst rows = (c', Err e) \<Longrightarrow> c' = c"
  by (auto simp: share_prefix_def split: if_splits option.splits)

lemma kv_wf_share_prefix:
  assumes "kv_wf c"
  shows "kv_wf (fst (share_prefix c src dst rows))"
proof (cases "snd (share_prefix c src dst rows)")
  case (Inl e)
  then show ?thesis using share_prefix_err assms by (metis prod.collapse)
next
  case (Inr u)
  then have ok: "share_prefix c src dst rows = (fst (share_prefix c src dst rows), Ok ())"
    by (simp add: prod_eq_iff)
  from share_prefix_ok [OF assms ok] obtain donor d cell where
    h: "map_of (kv_seqs c) src = Some donor" "map_of (kv_seqs c) dst = Some d" "src \<noteq> dst"
    "0 < rows" "rows \<le> sl_written donor" "shared_rows d = 0" "sl_written d = 0"
    "slot_cell donor 0 = Some cell" "slot_cell donor (rows - 1) = Some (cell + rows - 1)"
    "fst (share_prefix c src dst rows) = refresh_spans (c\<lparr>kv_seqs := bt_insert dst
       (d\<lparr>sl_shared := \<lparr>sp_cell = cell, sp_rows = rows\<rparr>, sl_written := rows\<rparr>) (kv_seqs c)\<rparr>) dst" .
  show ?thesis
    using kv_wf_update_slot [OF assms seqs_ok_share [OF kv_wfD(5) [OF assms] h(1-9)]] h(10) by simp
qed

end
