(* ===== verification/Kv_Window.thy ===== *)
theory Kv_Window
  imports Kv_Inv
begin

text \<open>
  The attention windows the store resolves: what \<open>attn_map\<close> and \<open>attn_span\<close> hand to the
  kernels is, for every query, exactly the cells of its sequence's positions up to its own.
\<close>

section \<open>One query\<close>

text \<open>The cells a list of \<open>(cell, len)\<close> runs names, in the order a kernel gathers them.\<close>

definition run_cells :: "(nat \<times> nat) list \<Rightarrow> nat list" where
  "run_cells runs = concat (map (\<lambda>(cell, n). [cell ..< cell + n]) runs)"

definition window :: "SeqSlot \<Rightarrow> nat \<Rightarrow> nat list" where
  "window a rel = map (\<lambda>p. the (slot_cell a p)) [0..<Suc rel]"

lemma map_shift_upt: "map (\<lambda>p. c + (p - b)) [b..<b + n] = [c..<c + n]"
  by (induction n) auto

lemma window_private:
  assumes "shared_rows a = 0" "rel < sl_cap a"
  shows "window a rel = [sl_start a ..< sl_start a + Suc rel]"
proof -
  have "window a rel = map (\<lambda>p. sl_start a + (p - 0)) [0..<0 + Suc rel]"
    using assms by (simp add: window_def slot_cell_def)
  then show ?thesis using map_shift_upt [of "sl_start a" 0 "Suc rel"] by simp
qed

lemma window_prefix:
  assumes "rel < shared_rows a"
  shows "window a rel = [shared_cell a ..< shared_cell a + Suc rel]"
proof -
  have "window a rel = map (\<lambda>p. shared_cell a + (p - 0)) [0..<0 + Suc rel]"
    using assms by (auto simp: window_def slot_cell_def)
  then show ?thesis using map_shift_upt [of "shared_cell a" 0 "Suc rel"] by simp
qed

lemma window_both:
  assumes "shared_rows a \<le> rel" "rel < shared_rows a + sl_cap a"
  shows "window a rel = [shared_cell a ..< shared_cell a + shared_rows a] @
    [sl_start a ..< sl_start a + (Suc rel - shared_rows a)]"
proof -
  have sp: "[0..<Suc rel] = [0..<shared_rows a] @
      [shared_rows a ..< shared_rows a + (Suc rel - shared_rows a)]"
    using assms(1) upt_add_eq_append [of 0 "shared_rows a" "Suc rel - shared_rows a"] by simp
  have "map (\<lambda>p. the (slot_cell a p)) [0..<shared_rows a] =
      map (\<lambda>p. shared_cell a + (p - 0)) [0..<0 + shared_rows a]"
    by (auto simp: slot_cell_def)
  also have "\<dots> = [shared_cell a ..< shared_cell a + shared_rows a]"
    by (rule map_shift_upt)
  finally have pre: "map (\<lambda>p. the (slot_cell a p)) [0..<shared_rows a] =
      [shared_cell a ..< shared_cell a + shared_rows a]" .
  have "map (\<lambda>p. the (slot_cell a p)) [shared_rows a ..< shared_rows a + (Suc rel - shared_rows a)] =
      map (\<lambda>p. sl_start a + (p - shared_rows a)) [shared_rows a ..< shared_rows a + (Suc rel - shared_rows a)]"
    using assms by (auto simp: slot_cell_def)
  also have "\<dots> = [sl_start a ..< sl_start a + (Suc rel - shared_rows a)]"
    by (rule map_shift_upt)
  finally show ?thesis using pre by (simp only: window_def sp map_append)
qed

lemma map_runs_slot:
  assumes "rel < shared_rows a + sl_cap a"
  shows "\<exists>runs. map_runs rel 0 (slot_spans a) = Some runs \<and> runs \<noteq> [] \<and> length runs \<le> 2 \<and>
    (\<forall>(cell, n) \<in> set runs. 0 < n) \<and> run_cells runs = window a rel"
proof -
  consider "rel < shared_rows a" | "shared_rows a \<le> rel" "shared_rows a = 0"
    | "shared_rows a \<le> rel" "0 < shared_rows a" by linarith
  then show ?thesis
  proof cases
    case 1
    then have "map_runs rel 0 (slot_spans a) = Some [(shared_cell a, Suc rel)]"
      by (auto simp: slot_spans_def KV_MAP_MAX_SPANS_def Let_def)
    then show ?thesis using window_prefix [OF 1] by (simp add: run_cells_def)
  next
    case 2
    then have "map_runs rel 0 (slot_spans a) = Some [(sl_start a, Suc rel)]"
      using assms by (auto simp: slot_spans_def KV_MAP_MAX_SPANS_def Let_def)
    then show ?thesis using window_private [OF 2(2)] assms 2 by (simp add: run_cells_def)
  next
    case 3
    then have "map_runs rel 0 (slot_spans a) =
        Some [(shared_cell a, shared_rows a), (sl_start a, Suc rel - shared_rows a)]"
      using assms by (auto simp: slot_spans_def KV_MAP_MAX_SPANS_def Let_def min_def)
    then show ?thesis using window_both [OF 3(1) assms] 3 by (simp add: run_cells_def)
  qed
qed

lemma written_slot:
  assumes "kv_wf c" "rel < written_rows c s"
  obtains a where "map_of (kv_seqs c) s = Some a" "rel < shared_rows a + sl_cap a"
    "spans_of c s = slot_spans a" "slot_spans a \<noteq> []" "sl_written a = written_rows c s"
proof -
  obtain a where a: "map_of (kv_seqs c) s = Some a"
    using assms(2) by (auto simp: written_rows_def split: option.splits)
  note ok = kv_wfD(7) [OF assms(1) a]
  have "rel < shared_rows a + sl_cap a"
    using assms(2) a ok by (auto simp: written_rows_def slot_ok_def)
  moreover have "slot_spans a \<noteq> []" using ok by (simp add: slot_ok_def slot_spans_nonempty)
  ultimately show thesis
    using that a spans_of_slot [OF kv_wfD(4) [OF assms(1)] a] by (simp add: written_rows_def)
qed

lemma map_query_ok:
  assumes "kv_wf c" "rel < written_rows c s"
  shows "\<exists>runs. map_query c t s rel = Ok runs \<and> length runs \<le> 2 \<and> (\<forall>(cell, n) \<in> set runs. 0 < n) \<and>
    run_cells runs = map (\<lambda>p. the (cell_of c s p)) [0..<Suc rel]"
proof -
  from written_slot [OF assms] obtain a where
    a: "map_of (kv_seqs c) s = Some a" "rel < shared_rows a + sl_cap a"
      "spans_of c s = slot_spans a" "slot_spans a \<noteq> []" .
  from map_runs_slot [OF a(2)] obtain runs where
    r: "map_runs rel 0 (slot_spans a) = Some runs" "runs \<noteq> []" "length runs \<le> 2"
      "\<forall>(cell, n) \<in> set runs. 0 < n" "run_cells runs = window a rel" by blast
  have "window a rel = map (\<lambda>p. the (cell_of c s p)) [0..<Suc rel]"
    by (simp add: window_def cell_of_slot [OF kv_wfD(4) [OF assms(1)]] a(1))
  then show ?thesis using a r assms(2) by (auto simp: map_query_def Let_def)
qed

section \<open>The \<open>kv_map\<close> input\<close>

text \<open>How a kernel reads one query's entry: \<open>(cell, len)\<close> pairs, a zero length is padding.\<close>

fun entry_cells :: "nat list \<Rightarrow> nat list" where
  "entry_cells (cell # n # rest) = [cell ..< cell + n] @ entry_cells rest"
| "entry_cells _ = []"

lemma entry_cells_append:
  "entry_cells (concat (map (\<lambda>(cell, n). [cell, n]) runs) @ replicate (2 * k) 0) = run_cells runs"
proof (induction runs)
  case Nil
  have "entry_cells (replicate (2 * k) 0) = []" by (induction k) auto
  then show ?case by (simp add: run_cells_def)
next
  case (Cons r runs)
  then show ?case by (cases r) (simp add: run_cells_def)
qed

lemma length_map_entry:
  "length runs \<le> KV_MAP_MAX_SPANS \<Longrightarrow> length (map_entry runs) = 2 * KV_MAP_MAX_SPANS"
proof -
  have "length (concat (map (\<lambda>(cell, n). [as_u32 cell, as_u32 n]) runs)) = 2 * length runs"
    by (induction runs) auto
  then show "length runs \<le> KV_MAP_MAX_SPANS \<Longrightarrow> ?thesis" by (simp add: map_entry_def)
qed

lemma set_run_cells: "(cell, n) \<in> set runs \<Longrightarrow> 0 < n \<Longrightarrow> cell + n - 1 \<in> set (run_cells runs)"
  by (induction runs) (auto simp: run_cells_def)

lemma map_entry_cells:
  assumes "\<forall>x \<in> set (run_cells runs). x < 2 ^ 32 - 1" "\<forall>(cell, n) \<in> set runs. 0 < n"
  shows "entry_cells (map_entry runs) = run_cells runs"
proof -
  have "as_u32 cell = cell \<and> as_u32 n = n" if r: "(cell, n) \<in> set runs" for cell n
  proof -
    have "0 < n" using r assms(2) by auto
    then have "cell + n - 1 \<in> set (run_cells runs)"
      using r set_run_cells by blast
    then have "cell + n - 1 < 2 ^ 32 - 1" using assms(1) by blast
    then have "cell < 2 ^ 32" "n < 2 ^ 32" using \<open>0 < n\<close> by linarith+
    then show ?thesis by simp
  qed
  then have "map (\<lambda>(cell, n). [as_u32 cell, as_u32 n]) runs = map (\<lambda>(cell, n). [cell, n]) runs"
    by auto
  then have "map_entry runs = concat (map (\<lambda>(cell, n). [cell, n]) runs) @
      replicate (2 * (KV_MAP_MAX_SPANS - length runs)) 0"
    by (simp only: map_entry_def)
  then show ?thesis by (simp only: entry_cells_append)
qed

lemma concat_block:
  assumes "\<forall>x \<in> set xs. length (f x) = k" "i < length xs"
  shows "take k (drop (k * i) (concat (map f xs))) = f (xs ! i)"
  using assms
proof (induction xs arbitrary: i)
  case (Cons x xs)
  then show ?case by (cases i) auto
qed simp

lemma length_queries: "length ps = length ids \<Longrightarrow> length (queries ids ps) = length ids"
  by (simp add: queries_def)

lemma nth_queries:
  "length ps = length ids \<Longrightarrow> t < length ids \<Longrightarrow> queries ids ps ! t = (t, ids ! t, ps ! t)"
  by (simp add: queries_def)

lemma traverse_res_total:
  "(\<And>i. i < length xs \<Longrightarrow> \<exists>y. f (xs ! i) = Inr y \<and> P i y) \<Longrightarrow>
   \<exists>ys. traverse_res f xs = Inr ys \<and> length ys = length xs \<and> (\<forall>i < length xs. P i (ys ! i))"
proof -
  assume h: "\<And>i. i < length xs \<Longrightarrow> \<exists>y. f (xs ! i) = Inr y \<and> P i y"
  then obtain g where g: "\<And>i. i < length xs \<Longrightarrow> f (xs ! i) = Inr (g i) \<and> P i (g i)" by metis
  have "traverse_res f xs = Inr (map g [0..<length xs])"
    by (simp add: traverse_res_Inr_iff g)
  then show ?thesis using g by auto
qed

lemma attn_map_exact:
  assumes "kv_wf c" "kv_n_ctx c < 2 ^ 32" "kv_layers c \<noteq> []" "length ps = length ids"
    and "\<forall>t < length ids. ps ! t < written_rows c (ids ! t)"
  shows "\<exists>out. attn_map c ids ps = Ok out \<and> length out = 2 * KV_MAP_MAX_SPANS * length ids \<and>
    (\<forall>t < length ids.
       entry_cells (take (2 * KV_MAP_MAX_SPANS) (drop (2 * KV_MAP_MAX_SPANS * t) out)) =
       map (\<lambda>p. the (cell_of c (ids ! t) p)) [0..<Suc (ps ! t)])"
proof -
  let ?f = "\<lambda>(t, seq, rel). map_query c t seq rel"
  let ?P = "\<lambda>t runs. length runs \<le> 2 \<and> (\<forall>(cell, n) \<in> set runs. 0 < n) \<and>
    run_cells runs = map (\<lambda>p. the (cell_of c (ids ! t) p)) [0..<Suc (ps ! t)]"
  have "\<exists>y. ?f (queries ids ps ! t) = Inr y \<and> ?P t y" if "t < length (queries ids ps)" for t
    using that map_query_ok [OF assms(1)] assms(4,5)
    by (simp add: length_queries nth_queries)
  then have "\<exists>rss. traverse_res ?f (queries ids ps) = Inr rss \<and> length rss = length (queries ids ps)
      \<and> (\<forall>t < length (queries ids ps). ?P t (rss ! t))"
    by (rule traverse_res_total)
  then obtain rss where rss: "traverse_res ?f (queries ids ps) = Inr rss" "length rss = length ids"
    and P: "\<And>t. t < length ids \<Longrightarrow> ?P t (rss ! t)"
    by (auto simp: length_queries [OF assms(4)])
  have len: "\<forall>r \<in> set rss. length (map_entry r) = 2 * KV_MAP_MAX_SPANS"
  proof
    fix r assume "r \<in> set rss"
    then have "length r \<le> 2" using P rss(2) by (metis in_set_conv_nth)
    then show "length (map_entry r) = 2 * KV_MAP_MAX_SPANS"
      by (intro length_map_entry) (simp add: KV_MAP_MAX_SPANS_def)
  qed
  have lout: "length (concat (map map_entry rss)) = 2 * KV_MAP_MAX_SPANS * length ids"
    using len rss(2) by (simp add: length_concat sum_list_triv cong: map_cong)
  have "entry_cells (map_entry (rss ! t)) = map (\<lambda>p. the (cell_of c (ids ! t) p)) [0..<Suc (ps ! t)]"
    if t: "t < length ids" for t
  proof -
    from written_slot [OF assms(1)] assms(5) t obtain a where
      a: "map_of (kv_seqs c) (ids ! t) = Some a" "ps ! t < shared_rows a + sl_cap a" by metis
    have "x < kv_n_ctx c" if "x \<in> set (run_cells (rss ! t))" for x
    proof -
      from that P [OF t] obtain p where "p < Suc (ps ! t)" "x = the (cell_of c (ids ! t) p)"
        by (auto simp del: upt_Suc)
      then have "slot_cell a p = Some x"
        using a by (auto simp: cell_of_slot [OF kv_wfD(4) [OF assms(1)]] slot_cell_def)
      then show ?thesis using slot_cell_bound kv_wfD(7) [OF assms(1) a(1)] by blast
    qed
    then have "\<forall>x \<in> set (run_cells (rss ! t)). x < 2 ^ 32 - 1" using assms(2) by fastforce
    from map_entry_cells [OF this] show ?thesis using P [OF t] by (simp del: upt_Suc)
  qed
  then show ?thesis
    using rss concat_block [OF len] lout assms(3,4) by (auto simp: attn_map_def)
qed

section \<open>The \<open>attn_span\<close> input\<close>

lemma span_query_ok:
  assumes "kv_wf c" "rel < written_rows c s" "map_of (kv_seqs c) s = Some a" "shared_rows a = 0"
  shows "span_query c t s rel = Ok (sl_start a, sl_start a + Suc rel)"
proof -
  from written_slot [OF assms(1,2)] assms(3,4) have a: "rel < sl_cap a" "spans_of c s = slot_spans a"
    by auto
  then have "spans_of c s = [(0, sl_start a, sl_cap a)]" using assms(4) by (simp add: slot_spans_def)
  moreover have "cell_of c s rel = Some (sl_start a + rel)"
    using a assms(3,4) by (simp add: cell_of_slot [OF kv_wfD(4) [OF assms(1)]] slot_cell_def)
  ultimately show ?thesis using a assms(2) by (simp add: span_query_def min_def)
qed

text \<open>A sharing sequence has no single range: the span input refuses it.\<close>

lemma span_query_shared:
  assumes "kv_wf c" "map_of (kv_seqs c) s = Some a" "0 < shared_rows a"
  shows "span_query c t s rel = Err (QueryManySpans t s 2)"
proof -
  have "0 < sl_cap a" using kv_wfD(7) [OF assms(1,2)] by (simp add: slot_ok_def)
  then have "spans_of c s = [(0, shared_cell a, shared_rows a), (shared_rows a, sl_start a, sl_cap a)]"
    using spans_of_slot [OF kv_wfD(4) [OF assms(1)] assms(2)] assms(3) by (simp add: slot_spans_def)
  then show ?thesis by (simp add: span_query_def)
qed

lemma attn_span_exact:
  assumes "kv_wf c" "kv_n_ctx c < 2 ^ 32" "kv_layers c \<noteq> []" "length ps = length ids"
    and "\<forall>t < length ids. ps ! t < written_rows c (ids ! t)"
    and unshared: "\<And>s a. map_of (kv_seqs c) s = Some a \<Longrightarrow> shared_rows a = 0"
  shows "\<exists>out. attn_span c ids ps = Ok out \<and> length out = 2 * length ids \<and>
    (\<forall>t < length ids. [out ! t ..< out ! (length ids + t)] =
       map (\<lambda>p. the (cell_of c (ids ! t) p)) [0..<Suc (ps ! t)])"
proof -
  let ?f = "\<lambda>(t, seq, rel). span_query c t seq rel"
  let ?P = "\<lambda>t w. snd w < 2 ^ 32 \<and> fst w \<le> snd w \<and>
    [fst w ..< snd w] = map (\<lambda>p. the (cell_of c (ids ! t) p)) [0..<Suc (ps ! t)]"
  have "\<exists>y. ?f (queries ids ps ! t) = Inr y \<and> ?P t y" if t: "t < length (queries ids ps)" for t
  proof -
    have lt: "t < length ids" "ps ! t < written_rows c (ids ! t)"
      using t assms(4,5) by (auto simp: length_queries)
    from written_slot [OF assms(1) lt(2)] obtain a where
      a: "map_of (kv_seqs c) (ids ! t) = Some a" "ps ! t < shared_rows a + sl_cap a" .
    note u = unshared [OF a(1)]
    have "sl_start a + Suc (ps ! t) \<le> kv_n_ctx c"
      using a u kv_wfD(7) [OF assms(1) a(1)] by (simp add: slot_ok_def)
    moreover have "[sl_start a ..< sl_start a + Suc (ps ! t)] =
        map (\<lambda>p. the (cell_of c (ids ! t) p)) [0..<Suc (ps ! t)]"
      using window_private [OF u] a u
      by (simp add: window_def cell_of_slot [OF kv_wfD(4) [OF assms(1)]])
    ultimately show ?thesis
      using span_query_ok [OF assms(1) lt(2) a(1) u] assms(2) lt(1) assms(4)
      by (simp add: nth_queries del: upt_Suc)
  qed
  then have "\<exists>ws. traverse_res ?f (queries ids ps) = Inr ws \<and> length ws = length (queries ids ps)
      \<and> (\<forall>t < length (queries ids ps). ?P t (ws ! t))"
    by (rule traverse_res_total)
  then obtain ws where ws: "traverse_res ?f (queries ids ps) = Inr ws" "length ws = length ids"
    and P: "\<And>t. t < length ids \<Longrightarrow> ?P t (ws ! t)"
    by (auto simp: length_queries [OF assms(4)])
  let ?out = "map (as_u32 \<circ> fst) ws @ map (as_u32 \<circ> snd) ws"
  have "?out ! t = fst (ws ! t) \<and> ?out ! (length ids + t) = snd (ws ! t)" if "t < length ids" for t
    using P [OF that] that ws(2) by (simp add: nth_append)
  then have "\<forall>t < length ids. [?out ! t ..< ?out ! (length ids + t)] =
      map (\<lambda>p. the (cell_of c (ids ! t) p)) [0..<Suc (ps ! t)]"
    using P by metis
  then show ?thesis
    using ws assms(3,4) by (auto simp: attn_span_def)
qed

end
