(* ===== verification/Kv_Moves.thy ===== *)
theory Kv_Moves
  imports Kv_Inv "HOL-Library.Multiset"
begin

text \<open>
  Relocating runs: the plans of \<open>compaction_plan\<close>, the order \<open>order_moves\<close> puts them in, and
  what \<open>apply_moves\<close> does with them. The main facts are that an ordered plan never
  overwrites a row it has still to copy, and that after it every sequence resolves each of
  its positions to the cell its row was copied to, shared prefixes included.
\<close>

section \<open>Orders that do not clobber\<close>

definition mv_src :: "KvMove \<Rightarrow> nat set" where
  "mv_src m = {mv_from m ..< mv_from m + mv_rows m}"

definition mv_dest :: "KvMove \<Rightarrow> nat set" where
  "mv_dest m = {mv_to m ..< mv_to m + mv_rows m}"

text \<open>\<open>a\<close> may run before \<open>b\<close>.\<close>

definition noclob :: "KvMove \<Rightarrow> KvMove \<Rightarrow> bool" where
  "noclob a b \<longleftrightarrow> mv_dest a \<inter> mv_src b = {} \<and> mv_dest a \<inter> mv_dest b = {}"

text \<open>Two moves of a plan: the runs keep their order, before and after.\<close>

definition plan_rel :: "KvMove \<Rightarrow> KvMove \<Rightarrow> bool" where
  "plan_rel a b \<longleftrightarrow> mv_from a + mv_rows a \<le> mv_from b \<and> mv_to a + mv_rows a \<le> mv_to b"

lemma noclob_order_key:
  assumes "plan_rel a b \<or> plan_rel b a" "order_key a \<le> order_key b"
  shows "noclob a b"
proof -
  have k: "move_up a \<and> move_up b \<and> mv_from b \<le> mv_from a \<or> move_up a \<and> \<not> move_up b
      \<or> \<not> move_up a \<and> \<not> move_up b \<and> mv_from a \<le> mv_from b"
    using assms(2) by (auto simp: order_key_def less_eq_prod_def split: if_splits)
  have "mv_to a + mv_rows a \<le> mv_from b \<or> mv_from b + mv_rows b \<le> mv_to a \<or> mv_rows a = 0 \<or> mv_rows b = 0"
    using k assms(1) unfolding plan_rel_def move_up_def by linarith
  moreover have "mv_to a + mv_rows a \<le> mv_to b \<or> mv_to b + mv_rows b \<le> mv_to a"
    using assms(1) by (auto simp: plan_rel_def)
  ultimately show ?thesis by (auto simp: noclob_def mv_src_def mv_dest_def)
qed

lemma sorted_wrt_distinct:
  "sorted_wrt P xs \<Longrightarrow> distinct xs \<Longrightarrow> sorted_wrt (\<lambda>a b. P a b \<and> a \<noteq> b) xs"
  by (induction xs) auto

lemma sorted_wrt_pairs:
  "sorted_wrt P xs \<Longrightarrow> a \<in> set xs \<Longrightarrow> b \<in> set xs \<Longrightarrow> a \<noteq> b \<Longrightarrow> P a b \<or> P b a"
  by (induction xs) auto

lemma order_moves_noclob:
  assumes "sorted_wrt plan_rel ms" "distinct ms"
  shows "sorted_wrt noclob (order_moves ms)"
proof -
  have "sorted_wrt (\<lambda>a b. order_key a \<le> order_key b) (order_moves ms)"
    using sorted_sort_key [of order_key ms] by (simp add: order_moves_def sorted_map)
  then have "sorted_wrt (\<lambda>a b. order_key a \<le> order_key b \<and> a \<noteq> b) (order_moves ms)"
    using assms(2) by (intro sorted_wrt_distinct) (auto simp: order_moves_def)
  then show ?thesis
  proof (rule sorted_wrt_mono_rel [rotated])
    fix a b assume "a \<in> set (order_moves ms)" "b \<in> set (order_moves ms)"
      "order_key a \<le> order_key b \<and> a \<noteq> b"
    then show "noclob a b"
      using sorted_wrt_pairs [OF assms(1), of a b] noclob_order_key by (simp add: order_moves_def)
  qed
qed

section \<open>The cells after a sequence of copies\<close>

text \<open>One copy of \<open>mv_rows\<close> cells, as a memmove does it.\<close>

definition mv_copy :: "KvMove \<Rightarrow> (nat \<Rightarrow> 'r) \<Rightarrow> nat \<Rightarrow> 'r" where
  "mv_copy m f x = (if x \<in> mv_dest m then f (mv_from m + (x - mv_to m)) else f x)"

lemma fold_mv_copy_outside:
  "(\<And>m. m \<in> set ms \<Longrightarrow> x \<notin> mv_dest m) \<Longrightarrow> fold mv_copy ms f x = f x"
  by (induction ms arbitrary: f) (auto simp: mv_copy_def)

lemma fold_mv_copy_dest:
  assumes "sorted_wrt noclob ms" "m \<in> set ms" "k < mv_rows m"
  shows "fold mv_copy ms f (mv_to m + k) = f (mv_from m + k)"
  using assms
proof (induction ms arbitrary: f)
  case (Cons a ms)
  show ?case
  proof (cases "m = a")
    case True
    then have "mv_to m + k \<notin> mv_dest b" if "b \<in> set ms" for b
      using Cons.prems that by (auto simp: noclob_def mv_dest_def)
    then have "fold mv_copy ms (mv_copy a f) (mv_to m + k) = mv_copy a f (mv_to m + k)"
      by (rule fold_mv_copy_outside)
    moreover have "mv_copy a f (mv_to m + k) = f (mv_from m + k)"
      using True Cons.prems(3) by (simp add: mv_copy_def mv_dest_def)
    ultimately show ?thesis by simp
  next
    case False
    then have m: "m \<in> set ms" "noclob a m" using Cons.prems by auto
    then have "mv_from m + k \<notin> mv_dest a"
      using Cons.prems(3) by (auto simp: noclob_def mv_src_def)
    then show ?thesis using Cons m by (simp add: mv_copy_def)
  qed
qed simp

section \<open>Plans as layouts\<close>

text \<open>
  A plan is a target for every run: the runs \<open>rs\<close> in ascending order of their starts, and
  \<open>T\<close> the cell each is moved to.
\<close>

definition mk_move :: "(SeqId \<Rightarrow> nat) \<Rightarrow> SeqId \<times> SeqSlot \<Rightarrow> KvMove" where
  "mk_move T = (\<lambda>(s, a). \<lparr>mv_seq = s, mv_from = sl_start a, mv_to = T s, mv_rows = private_written a\<rparr>)"

definition moves_of :: "(SeqId \<times> SeqSlot) list \<Rightarrow> (SeqId \<Rightarrow> nat) \<Rightarrow> KvMove list" where
  "moves_of rs T = map (mk_move T) (filter (\<lambda>(s, a). sl_start a \<noteq> T s) rs)"

definition good_layout :: "nat \<Rightarrow> (SeqId \<times> SeqSlot) list \<Rightarrow> (SeqId \<Rightarrow> nat) \<Rightarrow> bool" where
  "good_layout n rs T \<longleftrightarrow> distinct (map fst rs) \<and>
     (\<forall>(s, a) \<in> set rs. 0 < sl_cap a \<and> private_written a \<le> sl_cap a \<and>
        sl_start a + private_written a \<le> n \<and> T s + sl_cap a \<le> n) \<and>
     sorted_wrt (\<lambda>x y. sl_start (snd x) + private_written (snd x) \<le> sl_start (snd y)) rs \<and>
     sorted_wrt (\<lambda>x y. T (fst x) + sl_cap (snd x) \<le> T (fst y)) rs"

lemma good_layout_Cons:
  "good_layout n ((s, a) # rs) T \<longleftrightarrow> s \<notin> fst ` set rs \<and> 0 < sl_cap a \<and>
     private_written a \<le> sl_cap a \<and> sl_start a + private_written a \<le> n \<and> T s + sl_cap a \<le> n \<and>
     (\<forall>(t, b) \<in> set rs. sl_start a + private_written a \<le> sl_start b \<and> T s + sl_cap a \<le> T t) \<and>
     good_layout n rs T"
  by (auto simp: good_layout_def)

lemma moves_of_plan_rel: "good_layout n rs T \<Longrightarrow> sorted_wrt plan_rel (moves_of rs T)"
proof (induction rs)
  case (Cons r rs)
  obtain s a where r: "r = (s, a)" by (cases r)
  have "plan_rel (mk_move T (s, a)) m" if m: "m \<in> set (moves_of rs T)" for m
  proof -
    from m obtain t b where tb: "(t, b) \<in> set rs" "m = mk_move T (t, b)"
      by (auto simp: moves_of_def)
    then have "sl_start a + private_written a \<le> sl_start b" "T s + sl_cap a \<le> T t"
      "private_written a \<le> sl_cap a"
      using Cons.prems by (auto simp: r good_layout_Cons)
    then show ?thesis using tb(2) by (simp add: plan_rel_def mk_move_def)
  qed
  with Cons show ?case by (auto simp: r good_layout_Cons moves_of_def)
qed (simp add: moves_of_def)

lemma distinct_moves_of:
  assumes "good_layout n rs T"
  shows "distinct (map mv_seq (moves_of rs T))"
proof -
  have "map mv_seq (moves_of rs T) = map fst (filter (\<lambda>(s, a). sl_start a \<noteq> T s) rs)"
    by (auto simp: moves_of_def mk_move_def)
  then show ?thesis using assms by (simp add: good_layout_def distinct_map_filter)
qed

lemma distinct_order_moves: "distinct (map mv_seq ms) \<Longrightarrow> distinct (map mv_seq (order_moves ms))"
  using distinct_map [of mv_seq "order_moves ms"] distinct_map [of mv_seq ms]
  by (simp add: order_moves_def)

lemma moves_of_mem:
  "m \<in> set (moves_of rs T) \<longleftrightarrow>
     (\<exists>s a. (s, a) \<in> set rs \<and> sl_start a \<noteq> T s \<and> m = mk_move T (s, a))"
  by (auto simp: moves_of_def)

section \<open>The layout check of \<open>apply_moves\<close>\<close>

lemma find_moves_of:
  assumes "distinct (map mv_seq ms)" "set ms = set (moves_of rs T)" "distinct (map fst rs)" "(s, a) \<in> set rs"
  shows "find (\<lambda>m. mv_seq m = s) ms = (if sl_start a = T s then None else Some (mk_move T (s, a)))"
proof -
  have uniq: "m = mk_move T (s, a) \<and> sl_start a \<noteq> T s" if "m \<in> set ms" "mv_seq m = s" for m
    using that assms(2-4) by (auto simp: moves_of_mem mk_move_def dest: eq_key_imp_eq_value)
  show ?thesis
  proof (cases "find (\<lambda>m. mv_seq m = s) ms")
    case None
    then have "\<not> (\<exists>m \<in> set ms. mv_seq m = s)" by (simp add: find_None_iff)
    then have "sl_start a = T s"
      using assms(2,4) by (force simp: moves_of_mem mk_move_def)
    then show ?thesis using None by simp
  next
    case (Some m)
    then have "m \<in> set ms" "mv_seq m = s" by (auto simp: find_Some_iff)
    then show ?thesis using uniq Some by simp
  qed
qed

lemma planned_run_layout:
  assumes "distinct (map mv_seq ms)" "set ms = set (moves_of rs T)" "good_layout n rs T" "(s, a) \<in> set rs"
  shows "planned_run ms (s, a) = Ok (T s, sl_cap a)"
proof -
  have "distinct (map fst rs)" "private_written a \<le> sl_cap a"
    using assms(3,4) by (auto simp: good_layout_def)
  then show ?thesis
    using find_moves_of [OF assms(1,2) _ assms(4)] by (simp add: planned_run_def mk_move_def)
qed

lemma check_windows_sorted:
  "sorted_wrt (\<lambda>x y. fst x + snd x \<le> fst y) ps \<Longrightarrow> check_windows ps = Ok ()"
  by (induction ps rule: check_windows.induct) auto

lemma traverse_res_all_ok:
  "(\<And>x. x \<in> set xs \<Longrightarrow> f x = Inr (g x)) \<Longrightarrow> traverse_res f xs = Inr (map g xs)"
  by (induction xs) auto

lemma check_moves_layout:
  assumes "good_layout (kv_n_ctx c) rs T" "mset rs = mset (kv_seqs c)"
    "distinct (map mv_seq ms)" "set ms = set (moves_of rs T)"
  shows "check_moves c ms = Ok ()"
proof -
  let ?g = "\<lambda>(s, a). (T s, sl_cap a)"
  have set_eq: "set (kv_seqs c) = set rs" using assms(2) by (metis set_mset_mset)
  have tr: "traverse_res (planned_run ms) (kv_seqs c) = Inr (map ?g (kv_seqs c))"
    by (rule traverse_res_all_ok)
      (use planned_run_layout [OF assms(3,4,1)] set_eq in auto)
  have wrt: "sorted_wrt (\<lambda>x y. fst x + snd x \<le> fst y) (map ?g rs)"
    using assms(1) by (auto simp: good_layout_def sorted_wrt_map case_prod_beta)
  have pos: "\<forall>x \<in> set (map ?g rs). 0 < snd x \<and> fst x + snd x \<le> kv_n_ctx c"
    using assms(1) by (auto simp: good_layout_def)
  have "sorted (map ?g rs)"
    using wrt unfolding sorted_wrt_map [symmetric]
    by (rule sorted_wrt_mono_rel [rotated]) (use pos in \<open>auto simp: less_eq_prod_def\<close>)
  then have "sort (map ?g (kv_seqs c)) = map ?g rs"
    using assms(2) by (intro properties_for_sort) (simp_all)
  moreover have "map ?g rs \<noteq> [] \<Longrightarrow> fst (last (map ?g rs)) + snd (last (map ?g rs)) \<le> kv_n_ctx c"
    using pos last_in_set by blast
  ultimately show ?thesis
    using check_windows_sorted [OF wrt] by (auto simp: check_moves_def tr Let_def)
qed

section \<open>One move on the run table\<close>

definition written_of :: "SeqSlot \<Rightarrow> nat set" where
  "written_of a = {sl_start a ..< sl_start a + private_written a}"

text \<open>
  Every shared prefix lies in the rows another live sequence wrote, one that shares nothing
  itself.
\<close>

definition anchored :: "(SeqId \<rightharpoonup> SeqSlot) \<Rightarrow> bool" where
  "anchored M \<longleftrightarrow> (\<forall>s a. M s = Some a \<longrightarrow> 0 < shared_rows a \<longrightarrow>
     (\<exists>t b. M t = Some b \<and> t \<noteq> s \<and> shared_rows b = 0 \<and> prefix_of a \<subseteq> written_of b))"

definition follow_share :: "KvMove \<Rightarrow> SeqSlot \<Rightarrow> SeqSlot" where
  "follow_share m a =
     a\<lparr>sl_shared := (sl_shared a)\<lparr>sp_cell := mv_to m + (shared_cell a - mv_from m)\<rparr>\<rparr>"

text \<open>What a move does to the slot of \<open>s\<close>.\<close>

definition moved_slot :: "KvMove \<Rightarrow> SeqId \<Rightarrow> SeqSlot \<Rightarrow> SeqSlot" where
  "moved_slot m s a =
     (if s = mv_seq m then a\<lparr>sl_start := mv_to m\<rparr>
      else if 0 < shared_rows a \<and> prefix_of a \<subseteq> mv_src m then follow_share m a else a)"

definition moved_seqs :: "KvMove \<Rightarrow> (SeqId \<rightharpoonup> SeqSlot) \<Rightarrow> (SeqId \<rightharpoonup> SeqSlot)" where
  "moved_seqs m M s = map_option (moved_slot m s) (M s)"

definition moves_ready :: "nat \<Rightarrow> (SeqId \<rightharpoonup> SeqSlot) \<Rightarrow> KvMove list \<Rightarrow> bool" where
  "moves_ready n M ms \<longleftrightarrow> distinct (map mv_seq ms) \<and> sorted_wrt noclob ms \<and>
     (\<forall>m \<in> set ms. mv_to m + mv_rows m \<le> n \<and> mv_from m + mv_rows m \<le> n \<and>
        (\<exists>a. M (mv_seq m) = Some a \<and> sl_start a = mv_from m \<and> private_written a = mv_rows m)) \<and>
     (\<forall>s a t b. M s = Some a \<longrightarrow> M t = Some b \<longrightarrow> s \<noteq> t \<longrightarrow> written_of a \<inter> written_of b = {}) \<and>
     (\<forall>s b m. M s = Some b \<longrightarrow> s \<notin> mv_seq ` set ms \<longrightarrow> m \<in> set ms \<longrightarrow>
        written_of b \<inter> mv_dest m = {}) \<and>
     (\<forall>s a. M s = Some a \<longrightarrow> 0 < sl_cap a \<and> shared_rows a \<le> sl_written a \<and>
        sl_written a \<le> shared_rows a + sl_cap a) \<and>
     anchored M"

lemma moves_readyD:
  assumes "moves_ready n M (m # ms)"
  obtains d where "M (mv_seq m) = Some d" "sl_start d = mv_from m" "private_written d = mv_rows m"
    "written_of d = mv_src m" "mv_to m + mv_rows m \<le> n" "mv_from m + mv_rows m \<le> n"
  using assms by (auto simp: moves_ready_def written_of_def mv_src_def)

lemma private_written_moved [simp]: "private_written (moved_slot m s a) = private_written a"
  by (simp add: moved_slot_def private_written_def follow_share_def)

lemma moved_slot_fields [simp]:
  "sl_cap (moved_slot m s a) = sl_cap a"
  "sl_written (moved_slot m s a) = sl_written a"
  "shared_rows (moved_slot m s a) = shared_rows a"
  by (simp_all add: moved_slot_def follow_share_def)

lemma written_of_moved:
  assumes "moves_ready n M (m # ms)" "M s = Some a"
  shows "written_of (moved_slot m s a) = (if s = mv_seq m then mv_dest m else written_of a)"
proof -
  from moves_readyD [OF assms(1)] obtain d where
    d: "M (mv_seq m) = Some d" "private_written d = mv_rows m" .
  show ?thesis
  proof (cases "s = mv_seq m")
    case True
    then have "a = d" using d assms(2) by simp
    then show ?thesis using True d by (simp add: moved_slot_def written_of_def mv_dest_def private_written_def)
  next
    case False
    then show ?thesis by (simp add: moved_slot_def written_of_def follow_share_def private_written_def)
  qed
qed

text \<open>A shared prefix is either carried by the move or lies clear of its source.\<close>

lemma prefix_cases:
  assumes "moves_ready n M (m # ms)" "M s = Some a" "0 < shared_rows a" "s \<noteq> mv_seq m"
  shows "prefix_of a \<subseteq> mv_src m \<and> (\<exists>d. M (mv_seq m) = Some d \<and> shared_rows d = 0) \<or>
    prefix_of a \<inter> mv_src m = {} \<and>
    (\<exists>t b. M t = Some b \<and> t \<noteq> s \<and> t \<noteq> mv_seq m \<and> shared_rows b = 0 \<and> prefix_of a \<subseteq> written_of b)"
proof -
  from moves_readyD [OF assms(1)] obtain d where
    d: "M (mv_seq m) = Some d" "written_of d = mv_src m" .
  from assms obtain t b where t: "M t = Some b" "t \<noteq> s" "shared_rows b = 0" "prefix_of a \<subseteq> written_of b"
    unfolding moves_ready_def anchored_def by blast
  show ?thesis
  proof (cases "t = mv_seq m")
    case True
    then show ?thesis using t d by auto
  next
    case False
    then have "written_of b \<inter> written_of d = {}"
      using assms(1) t(1) d(1) unfolding moves_ready_def by blast
    then show ?thesis using t d False by blast
  qed
qed

lemma prefix_of_follow:
  assumes "prefix_of a \<subseteq> mv_src m" "0 < shared_rows a"
  shows "prefix_of (follow_share m a) \<subseteq> mv_dest m" "mv_from m \<le> shared_cell a"
    "shared_cell a + shared_rows a \<le> mv_from m + mv_rows m"
proof -
  have "shared_cell a \<in> mv_src m" "shared_cell a + shared_rows a - 1 \<in> mv_src m"
    using assms(2) by (auto simp: prefix_of_def intro!: subsetD [OF assms(1)])
  then have "mv_from m \<le> shared_cell a" "shared_cell a + shared_rows a - 1 < mv_from m + mv_rows m"
    by (auto simp: mv_src_def)
  then show lo: "mv_from m \<le> shared_cell a"
    and hi: "shared_cell a + shared_rows a \<le> mv_from m + mv_rows m"
    using assms(2) by linarith+
  show "prefix_of (follow_share m a) \<subseteq> mv_dest m"
    using lo hi by (auto simp: prefix_of_def follow_share_def mv_dest_def)
qed

lemma moved_seqs_Some:
  "moved_seqs m M s = Some a' \<longleftrightarrow> (\<exists>a. M s = Some a \<and> a' = moved_slot m s a)"
  by (auto simp: moved_seqs_def)

lemma anchored_moved:
  assumes "moves_ready n M (m # ms)"
  shows "anchored (moved_seqs m M)"
  unfolding anchored_def
proof (intro allI impI)
  fix s a' assume s: "moved_seqs m M s = Some a'" "0 < shared_rows a'"
  then obtain a where a: "M s = Some a" "a' = moved_slot m s a" "0 < shared_rows a"
    by (auto simp: moved_seqs_Some)
  have goal: "\<exists>t b. moved_seqs m M t = Some b \<and> t \<noteq> s \<and> shared_rows b = 0 \<and> prefix_of a' \<subseteq> written_of b"
    if "M t = Some b" "t \<noteq> s" "shared_rows b = 0"
      "prefix_of a' \<subseteq> (if t = mv_seq m then mv_dest m else written_of b)" for t b
    using that written_of_moved [OF assms that(1)]
    by (intro exI [of _ t] exI [of _ "moved_slot m t b"]) (simp add: moved_seqs_Some)
  show "\<exists>t b. moved_seqs m M t = Some b \<and> t \<noteq> s \<and> shared_rows b = 0 \<and> prefix_of a' \<subseteq> written_of b"
  proof (cases "s = mv_seq m")
    case True
    then obtain t b where t: "M t = Some b" "t \<noteq> s" "shared_rows b = 0" "prefix_of a \<subseteq> written_of b"
      using assms a unfolding moves_ready_def anchored_def by blast
    moreover have "prefix_of a' = prefix_of a" using a True by (simp add: moved_slot_def prefix_of_def)
    ultimately show ?thesis using goal True by auto
  next
    case False
    have sub: "prefix_of a' \<subseteq> mv_dest m" if "prefix_of a \<subseteq> mv_src m"
      using that a False prefix_of_follow by (simp add: moved_slot_def)
    have stay: "a' = a" if "prefix_of a \<inter> mv_src m = {}"
    proof -
      have "prefix_of a \<noteq> {}" using a(3) by (simp add: prefix_of_def)
      then show ?thesis using that a False by (auto simp: moved_slot_def)
    qed
    show ?thesis using prefix_cases [OF assms a(1,3) False] goal sub stay False by auto
  qed
qed

lemma moves_ready_step:
  assumes "moves_ready n M (m # ms)"
  shows "moves_ready n (moved_seqs m M) ms"
proof -
  note W = written_of_moved [OF assms]
  have dm: "distinct (map mv_seq ms)" "mv_seq m \<notin> mv_seq ` set ms" "sorted_wrt noclob ms"
    "\<And>m'. m' \<in> set ms \<Longrightarrow> noclob m m'"
    using assms by (auto simp: moves_ready_def)
  have own: "mv_to m' + mv_rows m' \<le> n \<and> mv_from m' + mv_rows m' \<le> n \<and>
      (\<exists>a. moved_seqs m M (mv_seq m') = Some a \<and> sl_start a = mv_from m' \<and> private_written a = mv_rows m')"
    if m': "m' \<in> set ms" for m'
  proof -
    from m' assms obtain a where
      a: "M (mv_seq m') = Some a" "sl_start a = mv_from m'" "private_written a = mv_rows m'"
      "mv_to m' + mv_rows m' \<le> n" "mv_from m' + mv_rows m' \<le> n"
      unfolding moves_ready_def by auto
    have "mv_seq m' \<noteq> mv_seq m" using m' dm(2) by (metis image_eqI)
    then have "sl_start (moved_slot m (mv_seq m') a) = sl_start a"
      by (simp add: moved_slot_def follow_share_def)
    then show ?thesis using a by (auto simp: moved_seqs_Some)
  qed
  have undone: "written_of b \<inter> mv_dest m = {}" if "M t = Some b" "t \<noteq> mv_seq m" for t b
  proof (cases "t \<in> mv_seq ` set ms")
    case True
    then obtain m' where m': "m' \<in> set ms" "mv_seq m' = t" by auto
    then obtain a where "M (mv_seq m') = Some a" "written_of a = mv_src m'"
      using assms unfolding moves_ready_def by (auto simp: written_of_def mv_src_def)
    then show ?thesis using m' that dm(4) by (auto simp: noclob_def)
  next
    case False
    then show ?thesis using assms that unfolding moves_ready_def by (metis insert_iff image_insert list.set(2))
  qed
  have disj: "written_of a' \<inter> written_of b' = {}"
    if "moved_seqs m M s = Some a'" "moved_seqs m M t = Some b'" "s \<noteq> t" for s t a' b'
  proof -
    from that obtain a b where ab: "M s = Some a" "M t = Some b" "a' = moved_slot m s a" "b' = moved_slot m t b"
      by (auto simp: moved_seqs_Some)
    have "written_of a \<inter> written_of b = {}"
      using assms ab(1,2) that(3) unfolding moves_ready_def by blast
    then show ?thesis
      using W [OF ab(1)] W [OF ab(2)] undone [OF ab(1)] undone [OF ab(2)] ab that(3) by auto
  qed
  have later: "written_of b' \<inter> mv_dest m' = {}"
    if "moved_seqs m M s = Some b'" "s \<notin> mv_seq ` set ms" "m' \<in> set ms" for s b' m'
  proof -
    from that obtain b where b: "M s = Some b" "b' = moved_slot m s b" by (auto simp: moved_seqs_Some)
    show ?thesis
    proof (cases "s = mv_seq m")
      case True
      then show ?thesis using W [OF b(1)] b dm(4) [OF that(3)] by (auto simp: noclob_def)
    next
      case False
      then have "written_of b \<inter> mv_dest m' = {}"
        using assms b(1) that(2,3) unfolding moves_ready_def by auto
      then show ?thesis using W [OF b(1)] b False by simp
    qed
  qed
  have fields: "0 < sl_cap a' \<and> shared_rows a' \<le> sl_written a' \<and> sl_written a' \<le> shared_rows a' + sl_cap a'"
    if "moved_seqs m M s = Some a'" for s a'
    using that assms unfolding moves_ready_def by (auto simp: moved_seqs_Some)
  show ?thesis
    unfolding moves_ready_def using dm own disj later fields anchored_moved [OF assms] by blast
qed

text \<open>The row a position names is the same before and after, once the cells are copied.\<close>

lemma moved_reads:
  assumes "moves_ready n M (m # ms)" "M s = Some a" "p < sl_written a"
  shows "\<exists>x x'. slot_cell a p = Some x \<and> slot_cell (moved_slot m s a) p = Some x' \<and> mv_copy m f x' = f x"
proof -
  have wr: "shared_rows a \<le> sl_written a" "sl_written a \<le> shared_rows a + sl_cap a"
    using assms unfolding moves_ready_def by blast+
  from moves_readyD [OF assms(1)] obtain d where
    d: "M (mv_seq m) = Some d" "sl_start d = mv_from m" "private_written d = mv_rows m" "written_of d = mv_src m" .
  have undone: "written_of b \<inter> mv_dest m = {}" if "M t = Some b" "t \<noteq> mv_seq m" for t b
  proof -
    have "moved_seqs m M t = Some (moved_slot m t b)" "moved_seqs m M (mv_seq m) = Some (moved_slot m (mv_seq m) d)"
      using that d by (auto simp: moved_seqs_Some)
    then have "written_of (moved_slot m t b) \<inter> written_of (moved_slot m (mv_seq m) d) = {}"
      using moves_ready_step [OF assms(1)] that(2) unfolding moves_ready_def by blast
    then show ?thesis using written_of_moved [OF assms(1)] that d by simp
  qed
  show ?thesis
  proof (cases "p < shared_rows a")
    case pre: True
    then have x: "slot_cell a p = Some (shared_cell a + p)" by (simp add: slot_cell_def)
    have mem: "shared_cell a + p \<in> prefix_of a" using pre by (simp add: prefix_of_def)
    show ?thesis
    proof (cases "s \<noteq> mv_seq m \<and> prefix_of a \<subseteq> mv_src m")
      case True
      then have "moved_slot m s a = follow_share m a" using pre by (simp add: moved_slot_def)
      moreover have "mv_from m \<le> shared_cell a" "shared_cell a + shared_rows a \<le> mv_from m + mv_rows m"
        using prefix_of_follow(2,3) True pre by auto
      ultimately show ?thesis
        using x pre by (auto simp: slot_cell_def follow_share_def mv_copy_def mv_dest_def)
    next
      case False
      then have "slot_cell (moved_slot m s a) p = Some (shared_cell a + p)"
        using pre by (auto simp: moved_slot_def slot_cell_def)
      moreover have "shared_cell a + p \<notin> mv_dest m"
      proof -
        obtain t b where t: "M t = Some b" "t \<noteq> mv_seq m" "prefix_of a \<subseteq> written_of b"
        proof (cases "s = mv_seq m")
          case True
          then show ?thesis
            using assms(1,2) pre that unfolding moves_ready_def anchored_def by (metis gr_zeroI not_less0)
        next
          case sne: False
          then show ?thesis
            using prefix_cases [OF assms(1,2) _ sne] False pre that by (metis gr_zeroI not_less0)
        qed
        then show ?thesis using undone [OF t(1,2)] mem by blast
      qed
      ultimately show ?thesis using x by (simp add: mv_copy_def)
    qed
  next
    case priv: False
    let ?i = "p - shared_rows a"
    have i: "?i < private_written a" "p < shared_rows a + sl_cap a"
      using priv assms(3) wr by (auto simp: private_written_def)
    then have x: "slot_cell a p = Some (sl_start a + ?i)" using priv by (simp add: slot_cell_def)
    show ?thesis
    proof (cases "s = mv_seq m")
      case True
      then have "a = d" using d assms(2) by simp
      have "slot_cell (moved_slot m s a) p = Some (mv_to m + ?i)"
        using True i priv by (simp add: moved_slot_def slot_cell_def)
      moreover have "mv_copy m f (mv_to m + ?i) = f (sl_start a + ?i)"
        using i d \<open>a = d\<close> unfolding mv_copy_def mv_dest_def by simp
      ultimately show ?thesis using x by blast
    next
      case False
      have "sl_start a + ?i \<in> written_of a" using i by (simp add: written_of_def)
      then have "sl_start a + ?i \<notin> mv_dest m" using undone [OF assms(2) False] by blast
      moreover have "slot_cell (moved_slot m s a) p = Some (sl_start a + ?i)"
        using False i priv by (simp add: moved_slot_def slot_cell_def follow_share_def)
      ultimately show ?thesis using x by (simp add: mv_copy_def)
    qed
  qed
qed

section \<open>One move on the store\<close>

text \<open>The part of the invariant that every step of a relocation keeps.\<close>

definition kv_base :: "KvCache \<Rightarrow> bool" where
  "kv_base c \<longleftrightarrow> bt_wf (kv_layers c) \<and> bt_wf (kv_seqs c) \<and> bt_wf (kv_spans c) \<and>
     spans_derived c \<and> (\<forall>k l. map_of (kv_layers c) k = Some l \<longrightarrow> layer_ok (kv_n_ctx c) l) \<and>
     (\<forall>s a. map_of (kv_seqs c) s = Some a \<longrightarrow> 0 < sl_cap a)"

lemma kv_wf_base: "kv_wf c \<longleftrightarrow> kv_base c \<and> seqs_ok (kv_n_ctx c) (map_of (kv_seqs c))"
  by (auto simp: kv_wf_def kv_base_def seqs_ok_def slot_ok_def)

lemma kv_base_update:
  assumes "kv_base c" "0 < sl_cap a"
  shows "kv_base (refresh_spans (c\<lparr>kv_seqs := bt_insert s a (kv_seqs c)\<rparr>) s)"
proof -
  have "spans_derived (refresh_spans (c\<lparr>kv_seqs := bt_insert s a (kv_seqs c)\<rparr>) s)"
    using assms by (intro spans_derived_refresh) (auto simp: kv_base_def spans_derived_def)
  then show ?thesis using assms by (auto simp: kv_base_def)
qed

lemma kv_base_layers:
  assumes "kv_base c" "\<And>l. layer_ok (kv_n_ctx c) l \<Longrightarrow> layer_ok (kv_n_ctx c) (f l)"
  shows "kv_base (c\<lparr>kv_layers := bt_map_values f (kv_layers c)\<rparr>)"
  using assms by (auto simp: kv_base_def spans_derived_def)

lemma last_owned_le: "last_owned owner \<le> length owner"
  unfolding last_owned_def using length_dropWhile_le [of _ "rev owner"] by simp

lemma move_len_full:
  "layer_ok n l \<Longrightarrow> mv_from m + mv_rows m \<le> n \<Longrightarrow> move_len m l = mv_rows m"
  by (simp add: move_len_def layer_ok_def)

lemma copy_within_ok_move:
  "layer_ok n l \<Longrightarrow> mv_from m + mv_rows m \<le> n \<Longrightarrow> mv_to m + mv_rows m \<le> n \<Longrightarrow>
   copy_within_ok (kl_owner l) (mv_from m) (mv_from m + mv_rows m) (mv_to m)"
  by (simp add: copy_within_ok_def layer_ok_def)

lemma layer_ok_move:
  assumes "mv_from m + mv_rows m \<le> n" "mv_to m + mv_rows m \<le> n" "layer_ok n l"
  shows "layer_ok n (move_layer m l)" "\<not> move_panics m l"
proof -
  note f = move_len_full [OF assms(3,1)] and ok = copy_within_ok_move [OF assms(3,1,2)]
  show "\<not> move_panics m l" using ok by (simp add: move_panics_def f)
  have "length (kl_owner (move_layer m l)) = n"
    using assms(3) length_copy_within [OF ok] by (simp add: move_layer_def Let_def f layer_ok_def)
  moreover have "kl_n_used (move_layer m l) = last_owned (kl_owner (move_layer m l))"
    by (simp add: move_layer_def Let_def)
  ultimately show "layer_ok n (move_layer m l)"
    using last_owned_le by (metis layer_ok_def)
qed

definition follows :: "KvMove \<Rightarrow> SeqId \<Rightarrow> SeqSlot \<Rightarrow> bool" where
  "follows m s a \<longleftrightarrow> s \<noteq> mv_seq m \<and> 0 < shared_rows a \<and> prefix_of a \<subseteq> mv_src m"

definition clear_or_inside :: "KvMove \<Rightarrow> SeqId \<Rightarrow> SeqSlot \<Rightarrow> bool" where
  "clear_or_inside m s a \<longleftrightarrow> s = mv_seq m \<or> shared_rows a = 0 \<or>
     prefix_of a \<subseteq> mv_src m \<or> prefix_of a \<inter> mv_src m = {}"

lemma ivl_disjoint:
  "(a::nat) < b \<Longrightarrow> c < d \<Longrightarrow> {a..<b} \<inter> {c..<d} = {} \<longleftrightarrow> b \<le> c \<or> d \<le> a"
  by (auto simp: ivl_disj_int_two)

lemma ivl_subset: "(a::nat) < b \<Longrightarrow> {a..<b} \<subseteq> {c..<d} \<longleftrightarrow> c \<le> a \<and> b \<le> d"
  using atLeastLessThan_subset_iff [of a b c d] by auto

lemma find_sharers_ok:
  assumes "0 < mv_rows m" "\<And>s a. (s, a) \<in> set xs \<Longrightarrow> clear_or_inside m s a"
  shows "find_sharers m xs = Ok (map fst (filter (\<lambda>(s, a). follows m s a) xs))"
  using assms(2)
proof (induction xs)
  case (Cons x xs)
  obtain s a where x: "x = (s, a)" by (cases x)
  have IH: "find_sharers m xs = Ok (map fst (filter (\<lambda>(s, a). follows m s a) xs))"
    using Cons by auto
  have c: "clear_or_inside m s a" using Cons.prems x by auto
  show ?case
  proof (cases "s = mv_seq m \<or> shared_rows a = 0")
    case True
    then show ?thesis using IH x by (auto simp: follows_def Let_def)
  next
    case False
    have d: "prefix_of a \<inter> mv_src m = {} \<longleftrightarrow> shared_cell a + shared_rows a \<le> mv_from m
        \<or> mv_from m + mv_rows m \<le> shared_cell a"
      using False assms(1) unfolding prefix_of_def mv_src_def by (subst ivl_disjoint) auto
    have i: "prefix_of a \<subseteq> mv_src m \<longleftrightarrow> mv_from m \<le> shared_cell a
        \<and> shared_cell a + shared_rows a \<le> mv_from m + mv_rows m"
      using False by (simp add: prefix_of_def mv_src_def ivl_subset)
    show ?thesis
      using False c IH d i x by (auto simp: follows_def clear_or_inside_def Let_def)
  qed
qed simp

lemma renumber_sharer_some:
  assumes "map_of (kv_seqs c) s = Some a"
  shows "renumber_sharer m s c =
    refresh_spans (c\<lparr>kv_seqs := bt_insert s (follow_share m a) (kv_seqs c)\<rparr>) s"
  using assms by (simp add: renumber_sharer_def follow_share_def)

lemma fold_renumber:
  fixes m :: KvMove and os :: "SeqId list" and c :: KvCache
  assumes "kv_base c" "distinct os" "\<And>s. s \<in> set os \<Longrightarrow> map_of (kv_seqs c) s \<noteq> None"
  defines "c' \<equiv> fold (renumber_sharer m) os c"
  shows "kv_base c' \<and> kv_n_ctx c' = kv_n_ctx c \<and> kv_layers c' = kv_layers c \<and>
    map_of (kv_seqs c') = (\<lambda>s. if s \<in> set os then map_option (follow_share m) (map_of (kv_seqs c) s)
           else map_of (kv_seqs c) s)"
  using assms(1-3) unfolding c'_def
proof (induction os arbitrary: c)
  case (Cons s os)
  then obtain a where a: "map_of (kv_seqs c) s = Some a" by auto
  then have "0 < sl_cap (follow_share m a)" using Cons.prems by (auto simp: kv_base_def follow_share_def)
  then have b: "kv_base (renumber_sharer m s c)"
    using Cons.prems a by (simp add: renumber_sharer_some kv_base_update)
  have "\<And>t. t \<in> set os \<Longrightarrow> map_of (kv_seqs (renumber_sharer m s c)) t \<noteq> None" "distinct os"
    using Cons.prems a by (auto simp: renumber_sharer_some)
  from Cons.IH [OF b this(2,1)] show ?case
    using a Cons.prems(2) by (auto simp: renumber_sharer_some fun_eq_iff)
qed (simp add: fun_eq_iff)

lemma apply_move_step:
  assumes "kv_base c" "moves_ready (kv_n_ctx c) (map_of (kv_seqs c)) (m # ms)"
  obtains c' where "apply_move m c = (c', Ok ())" "kv_base c'" "kv_n_ctx c' = kv_n_ctx c"
    "map_of (kv_seqs c') = moved_seqs m (map_of (kv_seqs c))"
    "kv_layers c' = bt_map_values (move_layer m) (kv_layers c)"
proof -
  let ?M = "map_of (kv_seqs c)"
  from moves_readyD [OF assms(2)] obtain d where d: "?M (mv_seq m) = Some d" "private_written d = mv_rows m"
    and b: "mv_to m + mv_rows m \<le> kv_n_ctx c" "mv_from m + mv_rows m \<le> kv_n_ctx c" .
  note lok = layer_ok_move [OF b(2,1)]
  define c1 where "c1 = c\<lparr>kv_layers := bt_map_values (move_layer m) (kv_layers c)\<rparr>"
  define c3 where "c3 = refresh_spans
    (c1\<lparr>kv_seqs := bt_insert (mv_seq m) (d\<lparr>sl_start := mv_to m\<rparr>) (kv_seqs c1)\<rparr>) (mv_seq m)"
  have np: "\<not> list_ex (\<lambda>(_, l). move_panics m l) (kv_layers c)"
    using assms(1) lok(2) bt_mem_iff by (fastforce simp: kv_base_def list_ex_iff)
  have c1: "kv_base c1" "kv_seqs c1 = kv_seqs c" "kv_n_ctx c1 = kv_n_ctx c"
    "kv_layers c1 = bt_map_values (move_layer m) (kv_layers c)"
    unfolding c1_def using assms(1) lok(1) kv_base_layers by auto
  have "0 < sl_cap d" using assms(1) d by (auto simp: kv_base_def)
  then have c3: "kv_base c3" "map_of (kv_seqs c3) = ?M(mv_seq m \<mapsto> d\<lparr>sl_start := mv_to m\<rparr>)"
    "kv_n_ctx c3 = kv_n_ctx c" "kv_layers c3 = bt_map_values (move_layer m) (kv_layers c)"
    using c1 kv_base_update [OF c1(1), of "d\<lparr>sl_start := mv_to m\<rparr>" "mv_seq m"] by (simp_all add: c3_def)
  have am: "apply_move m c = (if mv_rows m = 0 then (c3, Ok ())
      else case find_sharers m (kv_seqs c3) of Inl e \<Rightarrow> (c3, Err e)
        | Inr os \<Rightarrow> (fold (renumber_sharer m) os c3, Ok ()))"
    using np d(1) by (simp add: apply_move_def Let_def c3_def c1_def split: sum.split)
  show ?thesis
  proof (cases "mv_rows m = 0")
    case True
    have nf: "\<not> (0 < shared_rows a \<and> prefix_of a \<subseteq> mv_src m)" for a
      using True by (auto simp: prefix_of_def mv_src_def)
    have "moved_slot m s a = (if s = mv_seq m then a\<lparr>sl_start := mv_to m\<rparr> else a)" for s a
      by (simp only: moved_slot_def nf if_False)
    then have "map_of (kv_seqs c3) s = moved_seqs m ?M s" for s
      using d by (cases "?M s") (auto simp: c3(2) moved_seqs_def)
    then have "map_of (kv_seqs c3) = moved_seqs m ?M" ..
    then show ?thesis using that am True c3 by auto
  next
    case False
    let ?os = "map fst (filter (\<lambda>(s, a). follows m s a) (kv_seqs c3))"
    have mem: "(s, a) \<in> set (kv_seqs c3) \<longleftrightarrow> map_of (kv_seqs c3) s = Some a" for s a
      using c3(1) by (simp add: kv_base_def bt_mem_iff)
    have "clear_or_inside m s a" if "(s, a) \<in> set (kv_seqs c3)" for s a
    proof (cases "s = mv_seq m \<or> shared_rows a = 0")
      case sane: False
      then have "?M s = Some a" using that mem c3(2) by auto
      then show ?thesis
        using prefix_cases [OF assms(2)] sane by (auto simp: clear_or_inside_def)
    qed (auto simp: clear_or_inside_def)
    then have fs: "find_sharers m (kv_seqs c3) = Ok ?os"
      using find_sharers_ok False by blast
    have dis: "distinct ?os"
      using c3(1) by (simp add: kv_base_def bt_wf_distinct distinct_map_filter)
    have in_os: "s \<in> set ?os \<longleftrightarrow> (\<exists>a. map_of (kv_seqs c3) s = Some a \<and> follows m s a)" for s
      using mem by force
    have fr: "kv_base (fold (renumber_sharer m) ?os c3)"
      "kv_n_ctx (fold (renumber_sharer m) ?os c3) = kv_n_ctx c3"
      "kv_layers (fold (renumber_sharer m) ?os c3) = kv_layers c3"
      "map_of (kv_seqs (fold (renumber_sharer m) ?os c3)) =
        (\<lambda>s. if s \<in> set ?os then map_option (follow_share m) (map_of (kv_seqs c3) s) else map_of (kv_seqs c3) s)"
      using fold_renumber [OF c3(1) dis, of m] in_os by blast+
    have "map_of (kv_seqs (fold (renumber_sharer m) ?os c3)) s = moved_seqs m ?M s" for s
      unfolding fr(4) in_os using d
      by (cases "?M s") (auto simp: c3(2) moved_seqs_def moved_slot_def follows_def split: if_splits)
    then show ?thesis using that [of "fold (renumber_sharer m) ?os c3"] am False fs fr c3 by auto
  qed
qed


section \<open>The whole plan\<close>

lemma apply_move_list_ready:
  assumes "kv_base c" "moves_ready (kv_n_ctx c) (map_of (kv_seqs c)) ms"
  shows "\<exists>c'. apply_move_list ms c = (c', Ok ()) \<and> kv_base c' \<and> kv_n_ctx c' = kv_n_ctx c \<and>
    map_of (kv_seqs c') = fold moved_seqs ms (map_of (kv_seqs c)) \<and>
    length (kv_layers c') = length (kv_layers c)"
  using assms
proof (induction ms arbitrary: c)
  case (Cons m ms)
  from apply_move_step [OF Cons.prems] obtain c1 where
    c1: "apply_move m c = (c1, Ok ())" "kv_base c1" "kv_n_ctx c1 = kv_n_ctx c"
      "map_of (kv_seqs c1) = moved_seqs m (map_of (kv_seqs c))"
      "kv_layers c1 = bt_map_values (move_layer m) (kv_layers c)" .
  have "moves_ready (kv_n_ctx c1) (map_of (kv_seqs c1)) ms"
    using moves_ready_step [OF Cons.prems(2)] c1 by simp
  from Cons.IH [OF c1(2) this] show ?case using c1 by (auto simp: bt_map_values_def)
qed simp

lemma fold_moved_reads:
  assumes "moves_ready n M ms" "M s = Some a" "p < sl_written a"
  shows "\<exists>b x x'. fold moved_seqs ms M s = Some b \<and> sl_written b = sl_written a \<and> sl_cap b = sl_cap a \<and>
    shared_rows b = shared_rows a \<and>
    slot_cell a p = Some x \<and> slot_cell b p = Some x' \<and> fold mv_copy ms f x' = f x"
  using assms
proof (induction ms arbitrary: M a f)
  case Nil
  then have "p < shared_rows a + sl_cap a" unfolding moves_ready_def by fastforce
  then show ?case using Nil by (auto simp: slot_cell_def)
next
  case (Cons m ms)
  have M': "moved_seqs m M s = Some (moved_slot m s a)" using Cons.prems by (simp add: moved_seqs_def)
  from moved_reads [OF Cons.prems, of f] obtain x x1 where
    x: "slot_cell a p = Some x" "slot_cell (moved_slot m s a) p = Some x1" "mv_copy m f x1 = f x" by blast
  from Cons.IH [OF moves_ready_step [OF Cons.prems(1)] M', of "mv_copy m f"] Cons.prems(3) x
  show ?case by fastforce
qed

lemma fold_moved_start:
  assumes "M s = Some a" "distinct (map mv_seq ms)"
  shows "\<exists>b. fold moved_seqs ms M s = Some b \<and> sl_cap b = sl_cap a \<and> sl_written b = sl_written a \<and>
    shared_rows b = shared_rows a \<and>
    sl_start b = (case find (\<lambda>m. mv_seq m = s) ms of None \<Rightarrow> sl_start a | Some m \<Rightarrow> mv_to m)"
  using assms
proof (induction ms arbitrary: M a)
  case (Cons m ms)
  have M': "moved_seqs m M s = Some (moved_slot m s a)" using Cons.prems by (simp add: moved_seqs_def)
  from Cons.IH [of "moved_seqs m M" "moved_slot m s a"] M' Cons.prems(2) obtain b where
    b: "fold moved_seqs ms (moved_seqs m M) s = Some b" "sl_cap b = sl_cap a" "sl_written b = sl_written a"
      "shared_rows b = shared_rows a"
      "sl_start b = (case find (\<lambda>m. mv_seq m = s) ms of None \<Rightarrow> sl_start (moved_slot m s a) | Some m \<Rightarrow> mv_to m)"
    by auto
  have "find (\<lambda>m. mv_seq m = s) ms = None" if "mv_seq m = s"
    using Cons.prems(2) that by (simp add: find_None_iff) (metis image_eqI)
  then show ?case using b by (auto simp: moved_slot_def follow_share_def split: option.splits)
qed simp

lemma fold_moved_none: "M s = None \<Longrightarrow> fold moved_seqs ms M s = None"
  by (induction ms arbitrary: M) (auto simp: moved_seqs_def)

text \<open>After the last move the runs are where the layout puts them.\<close>

lemma fold_moved_layout:
  assumes "good_layout n rs T" "distinct (map mv_seq ms)" "set ms = set (moves_of rs T)"
    "M s = Some a" "(s, a) \<in> set rs"
  obtains b where "fold moved_seqs ms M s = Some b" "sl_cap b = sl_cap a" "sl_written b = sl_written a"
    "shared_rows b = shared_rows a" "sl_start b = T s"
proof -
  have "distinct (map fst rs)" using assms(1) by (simp add: good_layout_def)
  with fold_moved_start [of M s a ms] assms(2,4) find_moves_of [OF assms(2,3) _ assms(5)] that
  show ?thesis by (auto simp: mk_move_def split: if_splits)
qed

lemma moves_ready_anchored: "moves_ready n M ms \<Longrightarrow> anchored (fold moved_seqs ms M)"
proof (induction ms arbitrary: M)
  case Nil
  then show ?case by (simp add: moves_ready_def)
next
  case (Cons m ms)
  then show ?case using moves_ready_step by auto
qed

lemma moves_ready_layout:
  assumes "good_layout n rs T" "\<And>s a. M s = Some a \<longleftrightarrow> (s, a) \<in> set rs" "anchored M"
    "\<And>s a. M s = Some a \<Longrightarrow> shared_rows a \<le> sl_written a \<and> sl_written a \<le> shared_rows a + sl_cap a"
  shows "moves_ready n M (order_moves (moves_of rs T))"
proof -
  have ord: "set (order_moves (moves_of rs T)) = set (moves_of rs T)" by (simp add: order_moves_def)
  have d: "distinct (map mv_seq (moves_of rs T))" using distinct_moves_of assms(1) .
  then have noclob: "sorted_wrt noclob (order_moves (moves_of rs T))"
    by (intro order_moves_noclob moves_of_plan_rel [OF assms(1)]) (simp add: distinct_map)
  have run: "0 < sl_cap a \<and> private_written a \<le> sl_cap a \<and> sl_start a + private_written a \<le> n \<and> T s + sl_cap a \<le> n"
    if "(s, a) \<in> set rs" for s a
    using assms(1) that by (auto simp: good_layout_def)
  have own: "mv_to m + mv_rows m \<le> n \<and> mv_from m + mv_rows m \<le> n \<and>
      (\<exists>a. M (mv_seq m) = Some a \<and> sl_start a = mv_from m \<and> private_written a = mv_rows m)"
    if "m \<in> set (moves_of rs T)" for m
    using that run assms(2) by (fastforce simp: moves_of_mem mk_move_def)
  have pairs: "(sl_start a + private_written a \<le> sl_start b \<and> T s + sl_cap a \<le> T t) \<or>
      (sl_start b + private_written b \<le> sl_start a \<and> T t + sl_cap b \<le> T s)"
    if "(s, a) \<in> set rs" "(t, b) \<in> set rs" "s \<noteq> t" for s a t b
  proof -
    have "sorted_wrt (\<lambda>x y. sl_start (snd x) + private_written (snd x) \<le> sl_start (snd y) \<and>
        T (fst x) + sl_cap (snd x) \<le> T (fst y)) rs"
      using assms(1) by (induction rs) (auto simp: good_layout_def)
    then show ?thesis using sorted_wrt_pairs [of _ rs "(s, a)" "(t, b)"] that by fastforce
  qed
  have disj: "written_of a \<inter> written_of b = {}" if "M s = Some a" "M t = Some b" "s \<noteq> t" for s a t b
    using pairs [of s a t b] that by (auto simp: assms(2) written_of_def)
  have stay: "written_of b \<inter> mv_dest m = {}"
    if "M s = Some b" "s \<notin> mv_seq ` set (moves_of rs T)" "m \<in> set (moves_of rs T)" for s b m
  proof -
    have sb: "(s, b) \<in> set rs" using that assms(2) by simp
    then have T: "sl_start b = T s" using that(2) by (force simp: moves_of_mem mk_move_def)
    from that(3) obtain t a where ta: "(t, a) \<in> set rs" "m = mk_move T (t, a)"
      by (auto simp: moves_of_mem)
    then have "mv_seq m = t" by (simp add: mk_move_def)
    then have "t \<noteq> s" using that(2,3) by (metis image_eqI)
    then show ?thesis
      using pairs [OF sb ta(1)] run [OF sb] run [OF ta(1)] T ta(2)
      by (auto simp: written_of_def mv_dest_def mk_move_def)
  qed
  show ?thesis
    unfolding moves_ready_def ord
    using distinct_order_moves [OF d] noclob own disj stay assms(2-4) run by auto
qed

lemma fold_moved_no_share:
  "M s = Some a \<Longrightarrow> shared_rows a = 0 \<Longrightarrow>
   \<exists>b. fold moved_seqs ms M s = Some b \<and> shared_rows b = 0 \<and> shared_cell b = shared_cell a"
proof (induction ms arbitrary: M a)
  case (Cons m ms)
  have "moved_seqs m M s = Some (moved_slot m s a)" "shared_rows (moved_slot m s a) = 0"
    "shared_cell (moved_slot m s a) = shared_cell a"
    using Cons.prems by (auto simp: moved_seqs_def moved_slot_def)
  then show ?case using Cons.IH [of "moved_seqs m M" "moved_slot m s a"] by simp
qed simp

lemma written_unwritten_run:
  "private_written a \<le> sl_cap a \<Longrightarrow> written_of a \<subseteq> run_of a"
  "written_of a \<inter> unwritten_of a = {}"
  by (auto simp: written_of_def kv_defs)

text \<open>An anchored table laid out without overlap satisfies the slot invariant.\<close>

lemma seqs_ok_anchored:
  assumes "anchored M"
    and fields: "\<And>s a. M s = Some a \<Longrightarrow> 0 < sl_cap a \<and> sl_start a + sl_cap a \<le> n \<and>
      shared_rows a \<le> sl_written a \<and> sl_written a \<le> shared_rows a + sl_cap a \<and>
      (shared_rows a = 0 \<longrightarrow> shared_cell a \<le> n)"
    and disj: "runs_disjoint M"
  shows "seqs_ok n M"
proof -
  have pw: "private_written a \<le> sl_cap a" if "M s = Some a" for s a
    using fields [OF that] unfolding private_written_def by linarith
  have anch: "prefix_of a = {} \<or> (\<exists>t b. M t = Some b \<and> t \<noteq> s \<and> prefix_of a \<subseteq> written_of b)"
    if "M s = Some a" for s a
    using assms(1) that unfolding anchored_def by (cases "shared_rows a = 0") (simp add: prefix_of_def, blast)
  have rd: "run_of a \<inter> run_of b = {}" if "M s = Some a" "M t = Some b" "s \<noteq> t" for s t a b
    using disj that unfolding runs_disjoint_def by blast
  have "slot_ok n a" if a: "M s = Some a" for s a
  proof -
    have "shared_cell a + shared_rows a \<le> n \<and> run_of a \<inter> prefix_of a = {}"
    proof (cases "shared_rows a = 0")
      case True
      then show ?thesis using fields [OF a] by (simp add: prefix_of_def)
    next
      case False
      then obtain t b where t: "M t = Some b" "t \<noteq> s" "prefix_of a \<subseteq> written_of b"
        using assms(1) a unfolding anchored_def by blast
      then have "prefix_of a \<subseteq> run_of b" using written_unwritten_run(1) pw by blast
      moreover have "sl_start b + sl_cap b \<le> n" using fields t by blast
      ultimately show ?thesis
        using rd [OF a t(1)] t(2) False by (auto simp: prefix_of_def run_of_def ivl_subset)
    qed
    then show ?thesis using fields [OF a] by (simp add: slot_ok_def)
  qed
  moreover have "prefix_of a \<inter> unwritten_of b = {}" if "M s = Some a" "M t = Some b" for s t a b
    using anch [OF that(1)]
  proof
    assume "\<exists>t b. M t = Some b \<and> t \<noteq> s \<and> prefix_of a \<subseteq> written_of b"
    then obtain u e where u: "M u = Some e" "prefix_of a \<subseteq> written_of e" by blast
    show ?thesis
    proof (cases "u = t")
      case True
      then show ?thesis using u that written_unwritten_run(2) by auto
    next
      case False
      then show ?thesis
        using u rd [OF u(1) that(2)] written_unwritten_run(1) [OF pw [OF u(1)]] unwritten_subset_run
        by blast
    qed
  qed simp
  ultimately show ?thesis using disj by (simp add: seqs_ok_def prefixes_written_def)
qed

text \<open>
  The main lemma on plans: a table whose runs have a good layout is moved there, without an
  error, into a well-formed store in which every written position names the cell its row was
  copied to.
\<close>

lemma kv_base_counters [simp]:
  "kv_base (c\<lparr>kv_defrags := x, kv_cells_moved := y\<rparr>) = kv_base c"
  by (simp add: kv_base_def spans_derived_def)

lemma apply_layout:
  assumes "kv_base c" "good_layout (kv_n_ctx c) rs T" "mset rs = mset (kv_seqs c)"
    "anchored (map_of (kv_seqs c))"
    and fields: "\<And>s a. map_of (kv_seqs c) s = Some a \<Longrightarrow> shared_rows a \<le> sl_written a \<and>
      sl_written a \<le> shared_rows a + sl_cap a \<and> (shared_rows a = 0 \<longrightarrow> shared_cell a \<le> kv_n_ctx c)"
  shows "\<exists>c'. apply_moves c (moves_of rs T) = (c', Ok (sum_list (map mv_rows (moves_of rs T)))) \<and> kv_wf c' \<and>
    kv_n_ctx c' = kv_n_ctx c \<and> length (kv_layers c') = length (kv_layers c) \<and>
    map_of (kv_seqs c') = fold moved_seqs (order_moves (moves_of rs T)) (map_of (kv_seqs c)) \<and>
    anchored (map_of (kv_seqs c')) \<and> moves_ready (kv_n_ctx c) (map_of (kv_seqs c)) (order_moves (moves_of rs T))"
proof -
  let ?M = "map_of (kv_seqs c)" and ?ms = "order_moves (moves_of rs T)"
  have ord: "set ?ms = set (moves_of rs T)" "distinct (map mv_seq ?ms)"
    using distinct_order_moves [OF distinct_moves_of [OF assms(2)]] by (auto simp: order_moves_def)
  have mem: "?M s = Some a \<longleftrightarrow> (s, a) \<in> set rs" for s a
    using assms(1,3) by (metis bt_mem_iff kv_base_def set_mset_mset)
  have rdy: "moves_ready (kv_n_ctx c) ?M ?ms"
    using moves_ready_layout [OF assms(2) mem assms(4)] fields by blast
  from apply_move_list_ready [OF assms(1) rdy] obtain c1 where
    c1: "apply_move_list ?ms c = (c1, Ok ())" "kv_base c1" "kv_n_ctx c1 = kv_n_ctx c"
      "map_of (kv_seqs c1) = fold moved_seqs ?ms ?M" "length (kv_layers c1) = length (kv_layers c)" by blast
  have anch: "anchored (fold moved_seqs ?ms ?M)" by (rule moves_ready_anchored [OF rdy])
  have orig: "\<exists>a. (s, a) \<in> set rs \<and> sl_start b = T s \<and> sl_cap b = sl_cap a \<and>
      sl_written b = sl_written a \<and> shared_rows b = shared_rows a \<and>
      (shared_rows b = 0 \<longrightarrow> shared_cell b = shared_cell a)"
    if b: "fold moved_seqs ?ms ?M s = Some b" for s b
  proof -
    obtain a where a: "?M s = Some a" using b fold_moved_none [of ?M s ?ms] by fastforce
    then have sa: "(s, a) \<in> set rs" using mem by simp
    obtain b' where "fold moved_seqs ?ms ?M s = Some b'" "sl_cap b' = sl_cap a" "sl_written b' = sl_written a"
      "shared_rows b' = shared_rows a" "sl_start b' = T s"
      by (rule fold_moved_layout [OF assms(2) ord(2,1), of ?M, OF a sa])
    moreover have "shared_rows a = 0 \<Longrightarrow> shared_cell b = shared_cell a"
      using fold_moved_no_share [of ?M s a ?ms] a b by auto
    ultimately show ?thesis using b sa by auto
  qed
  have T: "T s + sl_cap a \<le> T t \<or> T t + sl_cap b \<le> T s"
    if "(s, a) \<in> set rs" "(t, b) \<in> set rs" "s \<noteq> t" for s t a b
    using sorted_wrt_pairs [of _ rs "(s, a)" "(t, b)"] assms(2) that unfolding good_layout_def by fastforce
  have "run_of a \<inter> run_of b = {}"
    if ab: "fold moved_seqs ?ms ?M s = Some a" "fold moved_seqs ?ms ?M t = Some b" "s \<noteq> t" for s t a b
  proof -
    obtain a0 b0 where "(s, a0) \<in> set rs" "sl_start a = T s" "sl_cap a = sl_cap a0"
      "(t, b0) \<in> set rs" "sl_start b = T t" "sl_cap b = sl_cap b0"
      using orig [OF ab(1)] orig [OF ab(2)] by blast
    then show ?thesis using T [of s a0 t b0] ab(3) by (auto simp: run_of_def)
  qed
  then have "runs_disjoint (fold moved_seqs ?ms ?M)" unfolding runs_disjoint_def by blast
  moreover have "0 < sl_cap a \<and> T s + sl_cap a \<le> kv_n_ctx c" if "(s, a) \<in> set rs" for s a
    using assms(2) that by (auto simp: good_layout_def)
  ultimately have "seqs_ok (kv_n_ctx c) (fold moved_seqs ?ms ?M)"
    using orig fields mem by (intro seqs_ok_anchored [OF anch]) fastforce+
  then have wf1: "kv_wf c1" using c1 by (simp add: kv_wf_base)
  have rows: "sum_list (map mv_rows ?ms) = sum_list (map mv_rows (moves_of rs T))"
    by (metis mset_map mset_sort order_moves_def sum_mset_sum_list)
  show ?thesis
  proof (cases "moves_of rs T = []")
    case True
    then show ?thesis using c1 wf1 anch rdy by (auto simp: apply_moves_def order_moves_def)
  next
    case False
    have "check_moves c ?ms = Ok ()" by (rule check_moves_layout [OF assms(2,3) ord(2,1)])
    then show ?thesis
      using c1 False wf1 anch rdy rows by (auto simp: apply_moves_def kv_wf_base Let_def)
  qed
qed


section \<open>The plans of the store are good layouts\<close>

text \<open>The starts the packing loop gives the runs, in their order.\<close>

fun plan_starts :: "nat \<Rightarrow> nat option \<Rightarrow> nat \<Rightarrow> (SeqId \<times> SeqSlot) list \<Rightarrow> nat list" where
  "plan_starts n need cur [] = []"
| "plan_starts n need cur ((s, a) # rest) =
     cur # (if (\<exists>k. need = Some k \<and>
                  k \<le> (case rest of [] \<Rightarrow> n | (_, nxt) # _ \<Rightarrow> sl_start nxt) - (cur + sl_cap a))
            then map (sl_start \<circ> snd) rest else plan_starts n need (cur + sl_cap a) rest)"

lemma length_plan_starts [simp]: "length (plan_starts n need cur rs) = length rs"
  by (induction n need cur rs rule: plan_starts.induct) auto

definition target :: "(SeqId \<times> SeqSlot) list \<Rightarrow> nat list \<Rightarrow> SeqId \<Rightarrow> nat" where
  "target rs ts s = (case map_of (zip (map fst rs) ts) s of None \<Rightarrow> 0 | Some t \<Rightarrow> t)"

definition aims :: "(SeqId \<Rightarrow> nat) \<Rightarrow> (SeqId \<times> SeqSlot) list \<Rightarrow> nat list \<Rightarrow> bool" where
  "aims T rs ts = list_all2 (\<lambda>r t. T (fst r) = t) rs ts"

lemma aims_target:
  assumes "distinct (map fst rs)" "length ts = length rs"
  shows "aims (target rs ts) rs ts"
  unfolding aims_def
proof (rule list_all2_all_nthI)
  fix i assume i: "i < length rs"
  have "map_of (zip (map fst rs) ts) (map fst rs ! i) = Some (ts ! i)"
    using assms i by (intro map_of_zip_nth) auto
  then show "target rs ts (fst (rs ! i)) = ts ! i" using i by (simp add: target_def)
qed (simp add: assms(2))

lemma moves_of_Cons:
  "moves_of ((s, a) # rs) T = (if sl_start a \<noteq> T s
     then [\<lparr>mv_seq = s, mv_from = sl_start a, mv_to = T s, mv_rows = private_written a\<rparr>] else []) @ moves_of rs T"
  by (simp add: moves_of_def mk_move_def)

lemma moves_of_stay: "aims T rs (map (sl_start \<circ> snd) rs) \<Longrightarrow> moves_of rs T = []"
  by (induction rs) (auto simp: moves_of_def aims_def)

lemma plan_loop_moves:
  "aims T rs (plan_starts n need cur rs) \<Longrightarrow> plan_loop n need cur rs = moves_of rs T"
proof (induction n need cur rs rule: plan_starts.induct)
  case (2 n need cur s a rest)
  then show ?case
    using moves_of_stay [of T rest]
    by (auto simp: Let_def aims_def moves_of_Cons split: option.splits)
qed (simp add: moves_of_def)

text \<open>Runs in ascending order that do not overlap, the first at or after \<open>cur\<close>.\<close>

definition runs_chain :: "nat \<Rightarrow> nat \<Rightarrow> (SeqId \<times> SeqSlot) list \<Rightarrow> bool" where
  "runs_chain n cur rs \<longleftrightarrow>
     sorted_wrt (\<lambda>x y. sl_start (snd x) + sl_cap (snd x) \<le> sl_start (snd y)) rs \<and>
     (\<forall>(s, a) \<in> set rs. cur \<le> sl_start a \<and> 0 < sl_cap a \<and> private_written a \<le> sl_cap a \<and>
        sl_start a + sl_cap a \<le> n)"

lemma layout_of_chain:
  assumes "runs_chain n cur rs" "distinct (map fst rs)" "aims T rs (plan_starts n need cur rs)"
  shows "good_layout n rs T \<and> (\<forall>(s, a) \<in> set rs. cur \<le> T s \<and> T s \<le> sl_start a)"
  using assms
proof (induction n need cur rs rule: plan_starts.induct)
  case (2 n need cur s a rest)
  let ?stop = "\<exists>k. need = Some k \<and>
     k \<le> (case rest of [] \<Rightarrow> n | (_, nxt) # _ \<Rightarrow> sl_start nxt) - (cur + sl_cap a)"
  have chain: "runs_chain n (cur + sl_cap a) rest" using "2.prems"(1) by (auto simp: runs_chain_def)
  have rest: "good_layout n rest T \<and> (\<forall>(t, b) \<in> set rest. cur + sl_cap a \<le> T t \<and> T t \<le> sl_start b)"
  proof (cases ?stop)
    case True
    then have T: "T t = sl_start b" if "(t, b) \<in> set rest" for t b
      using "2.prems"(3) that by (fastforce simp: aims_def list_all2_conv_all_nth in_set_conv_nth)
    have "sorted_wrt (\<lambda>x y. T (fst x) + sl_cap (snd x) \<le> T (fst y)) rest"
      using chain T unfolding runs_chain_def
      by (auto intro!: sorted_wrt_mono_rel [of rest "\<lambda>x y. sl_start (snd x) + sl_cap (snd x) \<le> sl_start (snd y)"])
    moreover have "sorted_wrt (\<lambda>x y. sl_start (snd x) + private_written (snd x) \<le> sl_start (snd y)) rest"
      using chain unfolding runs_chain_def
      by (auto intro!: sorted_wrt_mono_rel [of rest "\<lambda>x y. sl_start (snd x) + sl_cap (snd x) \<le> sl_start (snd y)"])
    ultimately show ?thesis
      using chain T "2.prems"(2) unfolding good_layout_def runs_chain_def by fastforce
  next
    case False
    then have "aims T rest (plan_starts n need (cur + sl_cap a) rest)"
      using "2.prems"(3) unfolding aims_def plan_starts.simps by (simp only: if_False list_all2_Cons)
    then show ?thesis using "2.IH" [OF False chain] "2.prems"(2) by simp
  qed
  have "T s = cur" using "2.prems"(3) by (simp add: aims_def)
  then show ?case
    using rest "2.prems"(1,2) by (fastforce simp: good_layout_Cons runs_chain_def)
qed (simp add: good_layout_def)

text \<open>With no early stop the starts are the running sums of the capacities.\<close>

lemma layout_of_sums:
  assumes "distinct (map fst rs)" "aims T rs (plan_starts n None cur rs)"
    "cur + sum_list (map (sl_cap \<circ> snd) rs) \<le> n"
    "sorted_wrt (\<lambda>x y. sl_start (snd x) + private_written (snd x) \<le> sl_start (snd y)) rs"
    "\<forall>(s, a) \<in> set rs. 0 < sl_cap a \<and> private_written a \<le> sl_cap a \<and> sl_start a + private_written a \<le> n"
  shows "good_layout n rs T \<and> (\<forall>(s, a) \<in> set rs. cur \<le> T s)"
  using assms
proof (induction rs arbitrary: cur)
  case (Cons r rs)
  obtain s a where r: "r = (s, a)" by (cases r)
  have "good_layout n rs T \<and> (\<forall>(t, b) \<in> set rs. cur + sl_cap a \<le> T t)"
    using Cons by (intro Cons.IH) (auto simp: r aims_def)
  moreover have "T s = cur" using Cons.prems(2) by (simp add: r aims_def)
  ultimately show ?case using Cons.prems by (fastforce simp: r good_layout_Cons)
qed (simp add: good_layout_def)

end
