(* ===== verification/Kv_Compact.thy ===== *)
theory Kv_Compact
  imports Kv_Moves
begin

text \<open>
  The operations that relocate runs: \<open>compaction_plan\<close> with and without an early stop, the
  room a partial compaction makes for a reservation, and \<open>set_cap\<close>, whose plan moves runs in
  both directions.
\<close>

section \<open>Compaction of a well-formed store\<close>

lemma mset_plan_runs: "kv_base c \<Longrightarrow> mset (plan_runs c) = mset (kv_seqs c)"
proof -
  assume b: "kv_base c"
  then have "\<forall>e \<in> set (kv_seqs c). case e of (_, s) \<Rightarrow> 0 < sl_cap s"
    by (auto simp: kv_base_def bt_mem_iff)
  then have "filter (\<lambda>(_, s). 0 < sl_cap s) (kv_seqs c) = kv_seqs c"
    by (simp add: filter_id_conv)
  then show ?thesis by (simp add: plan_runs_def)
qed

lemma set_plan_runs: "kv_base c \<Longrightarrow> (s, a) \<in> set (plan_runs c) \<longleftrightarrow> map_of (kv_seqs c) s = Some a"
  using mset_eq_setD [OF mset_plan_runs] by (auto simp: kv_base_def bt_mem_iff)

lemma distinct_plan_runs: "kv_base c \<Longrightarrow> distinct (map fst (plan_runs c))"
proof -
  assume b: "kv_base c"
  then have "mset (map fst (plan_runs c)) = mset (map fst (kv_seqs c))"
    using mset_plan_runs by simp
  then show ?thesis
    using b bt_wf_distinct mset_eq_imp_distinct_iff by (metis kv_base_def)
qed

lemma sorted_plan_runs: "sorted_wrt (\<lambda>x y. sl_start (snd x) \<le> sl_start (snd y)) (plan_runs c)"
proof -
  have "sorted_wrt (\<lambda>x y. (\<lambda>(seq, slot). (sl_start slot, seq)) x \<le> (\<lambda>(seq, slot). (sl_start slot, seq)) y)
      (plan_runs c)"
    using sorted_sort_key [of "\<lambda>(seq, slot). (sl_start slot, seq)" "filter (\<lambda>(_, s). 0 < sl_cap s) (kv_seqs c)"]
    by (simp add: plan_runs_def sorted_map)
  then show ?thesis by (rule sorted_wrt_mono_rel [rotated]) auto
qed

lemma sorted_disjoint_chain:
  assumes "sorted_wrt (\<lambda>x y. sl_start (snd x) \<le> sl_start (snd y)) rs" "distinct (map fst rs)"
    and "\<And>s t a b. (s, a) \<in> set rs \<Longrightarrow> (t, b) \<in> set rs \<Longrightarrow> s \<noteq> t \<Longrightarrow>
      sl_start a \<le> sl_start b \<Longrightarrow> sl_start a + w a \<le> sl_start b"
  shows "sorted_wrt (\<lambda>x y. sl_start (snd x) + w (snd x) \<le> sl_start (snd y)) rs"
  using assms
proof (induction rs)
  case (Cons r rs)
  have "sorted_wrt (\<lambda>x y. sl_start (snd x) + w (snd x) \<le> sl_start (snd y)) rs"
    using Cons.prems by (intro Cons.IH) (simp, simp, meson list.set_intros(2))
  moreover have "sl_start (snd r) + w (snd r) \<le> sl_start (snd x)" if "x \<in> set rs" for x
    using Cons.prems(1,2) Cons.prems(3) [of "fst r" "snd r" "fst x" "snd x"] that by auto
  ultimately show ?case by simp
qed simp

text \<open>Two runs of a good table that start in order end in order.\<close>

lemma run_before:
  assumes "seqs_ok n M" "M s = Some a" "M t = Some b" "s \<noteq> t" "sl_start a \<le> sl_start b"
  shows "sl_start a + sl_cap a \<le> sl_start b"
proof (rule ccontr)
  assume "\<not> ?thesis"
  moreover have "0 < sl_cap b" using seqs_okD(1) [OF assms(1,3)] by (simp add: slot_ok_def)
  ultimately have "sl_start b \<in> run_of a \<inter> run_of b" using assms(5) by (simp add: run_of_def)
  then show False using seqs_okD(2) [OF assms(1-4)] by simp
qed

lemma plan_runs_chain:
  assumes "kv_wf c"
  shows "runs_chain (kv_n_ctx c) 0 (plan_runs c)"
proof -
  have b: "kv_base c" and ok: "seqs_ok (kv_n_ctx c) (map_of (kv_seqs c))"
    using assms by (auto simp: kv_wf_base)
  have "sorted_wrt (\<lambda>x y. sl_start (snd x) + sl_cap (snd x) \<le> sl_start (snd y)) (plan_runs c)"
    using run_before [OF ok] set_plan_runs [OF b]
    by (intro sorted_disjoint_chain [OF sorted_plan_runs distinct_plan_runs [OF b]]) blast
  moreover have "slot_ok (kv_n_ctx c) a" if "(s, a) \<in> set (plan_runs c)" for s a
    using that ok b by (auto simp: set_plan_runs seqs_ok_def)
  ultimately show ?thesis by (fastforce simp: runs_chain_def slot_ok_def private_written_def)
qed

text \<open>The starts a plan gives, by sequence.\<close>

definition plan_target :: "KvCache \<Rightarrow> nat option \<Rightarrow> SeqId \<Rightarrow> nat" where
  "plan_target c need = target (plan_runs c) (plan_starts (kv_n_ctx c) need 0 (plan_runs c))"

lemma compaction_plan_layout:
  assumes "kv_wf c"
  shows "compaction_plan c need = moves_of (plan_runs c) (plan_target c need)"
    "good_layout (kv_n_ctx c) (plan_runs c) (plan_target c need)"
    "map_of (kv_seqs c) s = Some a \<Longrightarrow> plan_target c need s \<le> sl_start a"
proof -
  have b: "kv_base c" using assms by (simp add: kv_wf_base)
  have aim: "aims (plan_target c need) (plan_runs c) (plan_starts (kv_n_ctx c) need 0 (plan_runs c))"
    unfolding plan_target_def by (rule aims_target) (simp_all add: distinct_plan_runs b)
  show "compaction_plan c need = moves_of (plan_runs c) (plan_target c need)"
    unfolding compaction_plan_def by (rule plan_loop_moves [OF aim])
  have l: "good_layout (kv_n_ctx c) (plan_runs c) (plan_target c need) \<and>
      (\<forall>(s, a) \<in> set (plan_runs c). 0 \<le> plan_target c need s \<and> plan_target c need s \<le> sl_start a)"
    by (rule layout_of_chain [OF plan_runs_chain [OF assms] distinct_plan_runs [OF b] aim])
  then show "good_layout (kv_n_ctx c) (plan_runs c) (plan_target c need)" by simp
  show "map_of (kv_seqs c) s = Some a \<Longrightarrow> plan_target c need s \<le> sl_start a"
    using l b by (auto simp: set_plan_runs)
qed

lemma kv_wf_fields:
  assumes "kv_wf c" "map_of (kv_seqs c) s = Some a"
  shows "shared_rows a \<le> sl_written a \<and> sl_written a \<le> shared_rows a + sl_cap a \<and>
    (shared_rows a = 0 \<longrightarrow> shared_cell a \<le> kv_n_ctx c)"
  using seqs_okD(1) [OF kv_wfD(5) [OF assms(1)] assms(2)] by (auto simp: slot_ok_def)

text \<open>A plan applied to a store: it succeeds and every written row is where its position now points.\<close>

definition rows_follow :: "KvCache \<Rightarrow> KvMove list \<Rightarrow> KvCache \<Rightarrow> bool" where
  "rows_follow c ms c' \<longleftrightarrow>
     (\<forall>s a p. map_of (kv_seqs c) s = Some a \<longrightarrow> p < sl_written a \<longrightarrow>
        (\<exists>x x'. cell_of c s p = Some x \<and> cell_of c' s p = Some x' \<and>
           (\<forall>f :: nat \<Rightarrow> nat. fold mv_copy (order_moves ms) f x' = f x)))"

lemma rows_follow_ready:
  assumes "moves_ready n (map_of (kv_seqs c)) (order_moves ms)" "spans_derived c" "spans_derived c'"
    "map_of (kv_seqs c') = fold moved_seqs (order_moves ms) (map_of (kv_seqs c))"
  shows "rows_follow c ms c'"
  unfolding rows_follow_def
proof (intro allI impI)
  fix s a p assume a: "map_of (kv_seqs c) s = Some a" "p < sl_written a"
  have "\<exists>b x x'. fold moved_seqs (order_moves ms) (map_of (kv_seqs c)) s = Some b \<and>
      slot_cell a p = Some x \<and> slot_cell b p = Some x' \<and> fold mv_copy (order_moves ms) f x' = f x"
    for f :: "nat \<Rightarrow> nat"
    using fold_moved_reads [of n "map_of (kv_seqs c)" "order_moves ms" s a p f] assms(1) a by blast
  then have "\<exists>x x'. cell_of c s p = Some x \<and> cell_of c' s p = Some x' \<and> fold mv_copy (order_moves ms) f x' = f x"
    for f :: "nat \<Rightarrow> nat"
    using assms(2-4) a by (simp add: cell_of_slot) (metis bind.bind_lunit)
  then show "\<exists>x x'. cell_of c s p = Some x \<and> cell_of c' s p = Some x' \<and>
      (\<forall>f :: nat \<Rightarrow> nat. fold mv_copy (order_moves ms) f x' = f x)"
    by (metis option.inject)
qed

lemma compaction_applies:
  assumes "kv_wf c" "anchored (map_of (kv_seqs c))"
  shows "\<exists>c'. apply_moves c (compaction_plan c need) =
      (c', Ok (sum_list (map mv_rows (compaction_plan c need)))) \<and> kv_wf c' \<and>
    kv_n_ctx c' = kv_n_ctx c \<and> anchored (map_of (kv_seqs c')) \<and> rows_follow c (compaction_plan c need) c' \<and>
    map_of (kv_seqs c') = fold moved_seqs (order_moves (compaction_plan c need)) (map_of (kv_seqs c))"
proof -
  have b: "kv_base c" using assms(1) by (simp add: kv_wf_base)
  note L = compaction_plan_layout [OF assms(1), where need = need]
  from apply_layout [OF b L(2) mset_plan_runs [OF b] assms(2)] kv_wf_fields [OF assms(1)]
  obtain c' where c': "apply_moves c (compaction_plan c need) =
      (c', Ok (sum_list (map mv_rows (compaction_plan c need))))" "kv_wf c'"
    "kv_n_ctx c' = kv_n_ctx c" "anchored (map_of (kv_seqs c'))"
    "map_of (kv_seqs c') = fold moved_seqs (order_moves (compaction_plan c need)) (map_of (kv_seqs c))"
    "moves_ready (kv_n_ctx c) (map_of (kv_seqs c)) (order_moves (compaction_plan c need))"
    unfolding L(1) by blast
  moreover have "rows_follow c (compaction_plan c need) c'"
    using c' kv_wfD(4) assms(1) by (intro rows_follow_ready)
  ultimately show ?thesis by blast
qed


section \<open>Compaction makes room\<close>

lemma chain_sum:
  "runs_chain n cur rs \<Longrightarrow> cur \<le> n \<Longrightarrow> cur + sum_list (map (sl_cap \<circ> snd) rs) \<le> n"
proof (induction rs arbitrary: cur)
  case (Cons r rs)
  obtain s a where r: "r = (s, a)" by (cases r)
  have "runs_chain n (cur + sl_cap a) rs" "cur + sl_cap a \<le> n"
    using Cons.prems by (auto simp: runs_chain_def r)
  then show ?case using Cons.IH [of "cur + sl_cap a"] by (simp add: r add.assoc)
qed simp

lemma plan_gap:
  assumes "runs_chain n cur rs" "aims T rs (plan_starts n (Some k) cur rs)" "0 < k"
    "cur + sum_list (map (sl_cap \<circ> snd) rs) + k \<le> n"
  shows "\<exists>p. cur \<le> p \<and> p + k \<le> n \<and> (\<forall>(s, a) \<in> set rs. T s + sl_cap a \<le> p \<or> p + k \<le> T s)"
  using assms
proof (induction n "Some k" cur rs rule: plan_starts.induct)
  case (2 n cur s a rest)
  let ?gap = "case rest of [] \<Rightarrow> n | (_, nxt) # _ \<Rightarrow> sl_start nxt"
  have T: "T s = cur" using "2.prems"(2) by (simp add: aims_def)
  have chain: "runs_chain n (cur + sl_cap a) rest" using "2.prems"(1) by (auto simp: runs_chain_def)
  show ?case
  proof (cases "k \<le> ?gap - (cur + sl_cap a)")
    case True
    then have "T t = sl_start b" if "(t, b) \<in> set rest" for t b
      using "2.prems"(2) that by (fastforce simp: aims_def list_all2_conv_all_nth in_set_conv_nth)
    moreover have "?gap \<le> sl_start b \<and> sl_start b \<le> n" if "(t, b) \<in> set rest" for t b
      using chain that by (cases rest) (auto simp: runs_chain_def)
    moreover have "?gap \<le> n" using chain by (cases rest) (auto simp: runs_chain_def)
    ultimately show ?thesis
      using True \<open>0 < k\<close> T by (intro exI [of _ "cur + sl_cap a"]) fastforce
  next
    case False
    then have "aims T rest (plan_starts n (Some k) (cur + sl_cap a) rest)"
      using "2.prems"(2) unfolding aims_def plan_starts.simps by simp
    then obtain p where "cur + sl_cap a \<le> p" "p + k \<le> n"
      "\<forall>(s, a) \<in> set rest. T s + sl_cap a \<le> p \<or> p + k \<le> T s"
      using "2.hyps" [OF _ chain] False "2.prems"(3,4) by (auto simp: add.assoc)
    then show ?thesis using T by (intro exI [of _ p]) auto
  qed
qed auto

lemma reserve_seq_room:
  assumes "kv_wf c" "map_of (kv_seqs c) s = None" "0 < cap" "all_free (occupied c) p cap"
  shows "\<exists>c' slot. reserve_seq c s cap = (c', Ok slot)"
proof -
  have "kv_n_ctx c \<noteq> 0" using assms(3,4) by (auto simp: all_free_def)
  moreover obtain q where "first_fit (occupied c) 0 0 cap = Some q"
    using first_fit_correct [OF assms(3), of "occupied c"] assms(4) by (fastforce split: option.splits)
  ultimately show ?thesis using assms(2,3) by (simp add: reserve_seq_def Let_def)
qed

definition reserved_cells :: "KvCache \<Rightarrow> nat" where
  "reserved_cells c = sum_list (map (sl_cap \<circ> snd) (kv_seqs c))"

lemma sum_plan_runs: "kv_base c \<Longrightarrow> sum_list (map (sl_cap \<circ> snd) (plan_runs c)) = reserved_cells c"
  unfolding reserved_cells_def by (metis mset_map mset_plan_runs sum_mset_sum_list)

lemma compaction_room:
  assumes "kv_wf c" "anchored (map_of (kv_seqs c))" "0 < k" "reserved_cells c + k \<le> kv_n_ctx c"
    "apply_moves c (compaction_plan c (Some k)) = (c', r)" "map_of (kv_seqs c) s = None"
  shows "\<exists>c'' slot. reserve_seq c' s k = (c'', Ok slot)"
proof -
  let ?T = "plan_target c (Some k)" and ?rs = "plan_runs c"
  have b: "kv_base c" using assms(1) by (simp add: kv_wf_base)
  note L = compaction_plan_layout [OF assms(1), where need = "Some k"]
  from compaction_applies [OF assms(1,2), of "Some k"] assms(5) have
    c': "kv_wf c'" "kv_n_ctx c' = kv_n_ctx c" "anchored (map_of (kv_seqs c'))"
      "map_of (kv_seqs c') = fold moved_seqs (order_moves (moves_of ?rs ?T)) (map_of (kv_seqs c))"
    by (auto simp: L(1))
  have aim: "aims ?T ?rs (plan_starts (kv_n_ctx c) (Some k) 0 ?rs)"
    unfolding plan_target_def by (rule aims_target) (simp_all add: distinct_plan_runs b)
  obtain p where p: "p + k \<le> kv_n_ctx c" "\<forall>(s, a) \<in> set ?rs. ?T s + sl_cap a \<le> p \<or> p + k \<le> ?T s"
    using plan_gap [OF plan_runs_chain [OF assms(1)] aim assms(3)] assms(4) b by (auto simp: sum_plan_runs)
  have ms: "distinct (map mv_seq (order_moves (moves_of ?rs ?T)))"
    "set (order_moves (moves_of ?rs ?T)) = set (moves_of ?rs ?T)"
    using distinct_order_moves [OF distinct_moves_of [OF L(2)]] by (auto simp: order_moves_def)
  have free: "{p ..< p + k} \<inter> run_of b' = {}" if b': "map_of (kv_seqs c') t = Some b'" for t b'
  proof -
    obtain a where a: "map_of (kv_seqs c) t = Some a"
      using b' c'(4) fold_moved_none [of "map_of (kv_seqs c)" t] by fastforce
    then have mem: "(t, a) \<in> set ?rs" using b by (simp add: set_plan_runs)
    obtain b1 where "map_of (kv_seqs c') t = Some b1" "sl_cap b1 = sl_cap a" "sl_start b1 = ?T t"
      unfolding c'(4) by (rule fold_moved_layout [OF L(2) ms, of "map_of (kv_seqs c)", OF a mem])
    then show ?thesis using p(2) mem b' by (auto simp: run_of_def)
  qed
  have "\<not> occupied c' ! i" if i: "p \<le> i" "i < p + k" for i
  proof
    assume "occupied c' ! i"
    then obtain t e where t: "map_of (kv_seqs c') t = Some e" "i \<in> run_of e \<union> prefix_of e"
      using occupied_iff [OF kv_wfD(3,4) [OF c'(1)], of i] i p(1) c'(2) by auto
    obtain u e' where "map_of (kv_seqs c') u = Some e'" "i \<in> run_of e'"
    proof (cases "i \<in> run_of e")
      case False
      then have "i \<in> prefix_of e" "0 < shared_rows e" using t by (auto simp: prefix_of_def)
      then obtain u e' where u: "map_of (kv_seqs c') u = Some e'" "i \<in> written_of e'"
        using c'(3) t(1) unfolding anchored_def by blast
      then have "private_written e' \<le> sl_cap e'"
        using kv_wf_fields [OF c'(1) u(1)] unfolding private_written_def by linarith
      then show ?thesis using u that written_unwritten_run(1) by blast
    qed (use t that in blast)
    then show False using free i by fastforce
  qed
  then have "all_free (occupied c') p k" using p(1) c'(2) by (simp add: all_free_def)
  moreover have "map_of (kv_seqs c') s = None" using assms(6) c'(4) fold_moved_none by metis
  ultimately show ?thesis using reserve_seq_room [OF c'(1) _ assms(3)] by blast
qed


section \<open>Resizing a run\<close>

lemma bt_insert_mset:
  "bt_wf m \<Longrightarrow> mset (bt_insert k v m) = add_mset (k, v) (mset (filter (\<lambda>e. fst e \<noteq> k) m))"
proof (induction m)
  case (Cons e es)
  have "filter (\<lambda>e. fst e \<noteq> k) es = es" if "k \<le> fst e"
    using Cons.prems that by (auto simp: bt_wf_def filter_id_conv)
  then show ?case using Cons by (auto simp: bt_wf_def)
qed simp

lemma bt_insert_same: "bt_wf m \<Longrightarrow> map_of m k = Some v \<Longrightarrow> bt_insert k v m = m"
  by (induction m) (auto simp: bt_wf_def split: if_splits dest!: map_of_SomeD)

definition resized :: "KvCache \<Rightarrow> SeqId \<Rightarrow> SeqSlot \<Rightarrow> nat \<Rightarrow> KvCache" where
  "resized c s slot cap = refresh_spans (c\<lparr>kv_seqs := bt_insert s (slot\<lparr>sl_cap := cap\<rparr>) (kv_seqs c)\<rparr>) s"

lemma set_cap_resized:
  assumes "kv_wf c" "map_of (kv_seqs c) s = Some slot" "0 < cap" "set_cap c s cap = (c1, Ok ms)"
    "cap \<noteq> sl_cap slot"
  shows "c1 = resized c s slot cap" "ms = compaction_plan c1 None" "private_written slot \<le> cap"
    "reserved_cells c1 \<le> kv_n_ctx c"
proof -
  let ?others = "sum_list (map (\<lambda>(_, s). sl_cap s) (filter (\<lambda>(t, _). t \<noteq> s) (kv_seqs c)))"
  have sums: "reserved_cells (resized c s slot w) = ?others + w" for w
  proof -
    have "map (\<lambda>(_, s). sl_cap s) (filter (\<lambda>(t, _). t \<noteq> s) (kv_seqs c)) =
        map (sl_cap \<circ> snd) (filter (\<lambda>e. fst e \<noteq> s) (kv_seqs c))"
      by (induction "kv_seqs c" rule: list.induct) (simp_all add: case_prod_beta comp_def)
    moreover have "mset (map (sl_cap \<circ> snd) (bt_insert s (slot\<lparr>sl_cap := w\<rparr>) (kv_seqs c))) =
        add_mset w (mset (map (sl_cap \<circ> snd) (filter (\<lambda>e. fst e \<noteq> s) (kv_seqs c))))"
      using bt_insert_mset [OF kv_wfD(2) [OF assms(1)]] by simp
    ultimately have "sum_list (map (sl_cap \<circ> snd) (bt_insert s (slot\<lparr>sl_cap := w\<rparr>) (kv_seqs c))) = w + ?others"
      by (metis sum_mset.add_mset sum_mset_sum_list)
    then show ?thesis by (simp add: reserved_cells_def resized_def)
  qed
  have same: "reserved_cells (resized c s slot (sl_cap slot)) = reserved_cells c"
  proof -
    have "bt_insert s slot (kv_seqs c) = kv_seqs c"
      by (rule bt_insert_same [OF kv_wfD(2) [OF assms(1)] assms(2)])
    then show ?thesis by (simp add: reserved_cells_def resized_def)
  qed
  have le: "reserved_cells c \<le> kv_n_ctx c"
    using chain_sum [OF plan_runs_chain [OF assms(1)]] assms(1) by (simp add: sum_plan_runs kv_wf_base)
  show c1: "c1 = resized c s slot cap"
    using assms(2-5) by (auto simp: set_cap_def resized_def Let_def split: if_splits)
  show "ms = compaction_plan c1 None"
    using assms(2-5) by (auto simp: set_cap_def Let_def split: if_splits)
  have pw: "private_written slot \<le> sl_cap slot"
    using kv_wf_fields [OF assms(1,2)] unfolding private_written_def by linarith
  show "private_written slot \<le> cap"
    using assms(2-5) pw by (auto simp: set_cap_def Let_def split: if_splits)
  show "reserved_cells c1 \<le> kv_n_ctx c"
    using assms(2-5) sums [of cap] sums [of "sl_cap slot"] same le
    by (auto simp: set_cap_def Let_def c1 split: if_splits)
qed

lemma resized_layout:
  assumes "kv_wf c" "map_of (kv_seqs c) s = Some slot" "0 < cap" "private_written slot \<le> cap"
    "reserved_cells (resized c s slot cap) \<le> kv_n_ctx c"
  defines "c1 \<equiv> resized c s slot cap"
  shows "kv_base c1" "compaction_plan c1 None = moves_of (plan_runs c1) (plan_target c1 None)"
    "good_layout (kv_n_ctx c1) (plan_runs c1) (plan_target c1 None)"
proof -
  have ok: "seqs_ok (kv_n_ctx c) (map_of (kv_seqs c))" and b0: "kv_base c"
    using assms(1) by (auto simp: kv_wf_base)
  show b: "kv_base c1" unfolding c1_def resized_def using kv_base_update [OF b0] assms(3) by simp
  have aim: "aims (plan_target c1 None) (plan_runs c1) (plan_starts (kv_n_ctx c1) None 0 (plan_runs c1))"
    unfolding plan_target_def by (rule aims_target) (simp_all add: distinct_plan_runs b)
  show "compaction_plan c1 None = moves_of (plan_runs c1) (plan_target c1 None)"
    unfolding compaction_plan_def by (rule plan_loop_moves [OF aim])
  have orig: "\<exists>a0. map_of (kv_seqs c) t = Some a0 \<and> sl_start a = sl_start a0 \<and> private_written a = private_written a0"
    if "(t, a) \<in> set (plan_runs c1)" for t a
    using that b assms(2) by (auto simp: set_plan_runs c1_def resized_def private_written_def split: if_splits)
  have run: "0 < sl_cap a0 \<and> private_written a0 \<le> sl_cap a0 \<and> sl_start a0 + sl_cap a0 \<le> kv_n_ctx c"
    if "map_of (kv_seqs c) t = Some a0" for t a0
    using seqs_okD(1) [OF ok that] by (auto simp: slot_ok_def private_written_def)
  have "sorted_wrt (\<lambda>x y. sl_start (snd x) + private_written (snd x) \<le> sl_start (snd y)) (plan_runs c1)"
  proof (rule sorted_disjoint_chain [OF sorted_plan_runs distinct_plan_runs [OF b]])
    fix t u a d assume td: "(t, a) \<in> set (plan_runs c1)" "(u, d) \<in> set (plan_runs c1)" "t \<noteq> u" "sl_start a \<le> sl_start d"
    obtain a0 d0 where "map_of (kv_seqs c) t = Some a0" "sl_start a = sl_start a0" "private_written a = private_written a0"
      "map_of (kv_seqs c) u = Some d0" "sl_start d = sl_start d0"
      using orig [OF td(1)] orig [OF td(2)] by blast
    then show "sl_start a + private_written a \<le> sl_start d"
      using run [of t a0] run_before [OF ok, of t a0 u d0] td(3,4) by simp
  qed
  moreover have "0 < sl_cap a \<and> private_written a \<le> sl_cap a \<and> sl_start a + private_written a \<le> kv_n_ctx c1"
    if ta: "(t, a) \<in> set (plan_runs c1)" for t a
  proof -
    obtain a0 where a0: "map_of (kv_seqs c) t = Some a0" "sl_start a = sl_start a0" "private_written a = private_written a0"
      using orig [OF ta] by blast
    have "a = (if t = s then slot\<lparr>sl_cap := cap\<rparr> else a0)" "t = s \<Longrightarrow> a0 = slot"
      using ta b a0(1) assms(2) by (auto simp: set_plan_runs c1_def resized_def split: if_splits)
    then show ?thesis using run [OF a0(1)] a0 assms(3,4) by (auto simp: c1_def resized_def)
  qed
  moreover have "reserved_cells c1 \<le> kv_n_ctx c1" using assms(5) by (simp add: c1_def resized_def)
  ultimately show "good_layout (kv_n_ctx c1) (plan_runs c1) (plan_target c1 None)"
    using layout_of_sums [OF distinct_plan_runs [OF b] aim] b by (auto simp: sum_plan_runs)
qed


lemma resized_same_cells:
  assumes "kv_wf c" "map_of (kv_seqs c) s = Some slot" "0 < cap" "private_written slot \<le> cap"
    "map_of (kv_seqs c) t = Some a" "p < sl_written a"
  shows "cell_of (resized c s slot cap) t p = cell_of c t p"
proof -
  have "spans_derived (resized c s slot cap)"
    using kv_base_update [of c "slot\<lparr>sl_cap := cap\<rparr>" s] assms(1,3) by (auto simp: kv_wf_base resized_def kv_base_def)
  then show ?thesis
    using assms(2-6) kv_wfD(4) [OF assms(1)] kv_wf_fields [OF assms(1,5)]
    by (auto simp: cell_of_slot resized_def slot_cell_def private_written_def)
qed

lemma set_cap_applies:
  assumes "kv_wf c" "anchored (map_of (kv_seqs c))" "map_of (kv_seqs c) s = Some slot" "0 < cap"
    "set_cap c s cap = (c1, Ok ms)"
  shows "\<exists>c' k slot'. apply_moves c1 ms = (c', Ok k) \<and> kv_wf c' \<and> anchored (map_of (kv_seqs c')) \<and>
    map_of (kv_seqs c') s = Some slot' \<and> sl_cap slot' = cap \<and> rows_follow c ms c'"
proof (cases "cap = sl_cap slot")
  case True
  then have "c1 = c" "ms = []" using assms(3,5) by (auto simp: set_cap_def)
  moreover have "rows_follow c [] c"
    using kv_wf_fields [OF assms(1)] kv_wfD(4) [OF assms(1)]
    by (fastforce simp: rows_follow_def order_moves_def cell_of_slot slot_cell_def)
  ultimately show ?thesis using assms True by (auto simp: apply_moves_def)
next
  case False
  note R = set_cap_resized [OF assms(1,3,4,5) False]
  note L = resized_layout [OF assms(1,3,4) R(3) R(4) [unfolded R(1)], folded R(1)]
  have seqs1: "map_of (kv_seqs c1) = (map_of (kv_seqs c))(s \<mapsto> slot\<lparr>sl_cap := cap\<rparr>)"
    by (simp add: R(1) resized_def)
  have w: "written_of (slot\<lparr>sl_cap := cap\<rparr>) = written_of slot" "prefix_of (slot\<lparr>sl_cap := cap\<rparr>) = prefix_of slot"
    by (simp_all add: written_of_def private_written_def prefix_of_def)
  have anch: "anchored (map_of (kv_seqs c1))"
    unfolding anchored_def seqs1
  proof (intro allI impI)
    fix t a assume "((map_of (kv_seqs c))(s \<mapsto> slot\<lparr>sl_cap := cap\<rparr>)) t = Some a" "0 < shared_rows a"
    then obtain a0 where "map_of (kv_seqs c) t = Some a0" "0 < shared_rows a0" "prefix_of a = prefix_of a0"
      using assms(3) w by (auto split: if_splits)
    then obtain u e where "map_of (kv_seqs c) u = Some e" "u \<noteq> t" "shared_rows e = 0" "prefix_of a \<subseteq> written_of e"
      using assms(2) unfolding anchored_def by metis
    then show "\<exists>u e. ((map_of (kv_seqs c))(s \<mapsto> slot\<lparr>sl_cap := cap\<rparr>)) u = Some e \<and> u \<noteq> t \<and> shared_rows e = 0 \<and>
        prefix_of a \<subseteq> written_of e"
      using assms(3) w by (cases "u = s") auto
  qed
  have fields: "shared_rows a \<le> sl_written a \<and> sl_written a \<le> shared_rows a + sl_cap a \<and>
      (shared_rows a = 0 \<longrightarrow> shared_cell a \<le> kv_n_ctx c1)" if "map_of (kv_seqs c1) t = Some a" for t a
    using that kv_wf_fields [OF assms(1)] kv_wf_fields [OF assms(1,3)] R(3)
    by (auto simp: R(1) resized_def private_written_def split: if_splits)
  from apply_layout [OF L(1,3) mset_plan_runs [OF L(1)] anch] fields obtain c' where
    c': "apply_moves c1 ms = (c', Ok (sum_list (map mv_rows ms)))" "kv_wf c'" "anchored (map_of (kv_seqs c'))"
      "map_of (kv_seqs c') = fold moved_seqs (order_moves ms) (map_of (kv_seqs c1))"
      "moves_ready (kv_n_ctx c1) (map_of (kv_seqs c1)) (order_moves ms)"
    unfolding R(2) L(2) by blast
  have "\<exists>b. map_of (kv_seqs c') s = Some b \<and> sl_cap b = cap"
    using fold_moved_start [of "map_of (kv_seqs c1)" s "slot\<lparr>sl_cap := cap\<rparr>" "order_moves ms"] c'(4,5) seqs1
    by (auto simp: moves_ready_def)
  moreover have "rows_follow c ms c'"
    unfolding rows_follow_def
  proof (intro allI impI)
    fix t a p assume a: "map_of (kv_seqs c) t = Some a" "p < sl_written a"
    let ?a = "if t = s then slot\<lparr>sl_cap := cap\<rparr> else a"
    have "map_of (kv_seqs c1) t = Some ?a" "p < sl_written ?a" using a assms(3) seqs1 by auto
    moreover have "rows_follow c1 ms c'"
      using c' L(1) kv_wfD(4) by (intro rows_follow_ready) (auto simp: kv_base_def)
    ultimately show "\<exists>x x'. cell_of c t p = Some x \<and> cell_of c' t p = Some x' \<and>
      (\<forall>f :: nat \<Rightarrow> nat. fold mv_copy (order_moves ms) f x' = f x)"
      using resized_same_cells [OF assms(1,3,4) R(3) a] R(1) unfolding rows_follow_def by metis
  qed
  ultimately show ?thesis using c' by blast
qed

end
