(* ===== verification/Kv_Share.thy ===== *)
theory Kv_Share
  imports Kv_Compact
begin

text \<open>
  Shared prefixes: that the operations keep every prefix inside rows a live sequence wrote,
  what the copy-on-write shift of \<open>private_row_for\<close> and \<open>apply_private_row\<close> does to the
  rows, the session snapshot and its restore, and the histories of the store as a step
  relation with its invariant.
\<close>

section \<open>Shared prefixes stay anchored\<close>

lemma kv_wf_written_run:
  assumes "kv_wf c" "map_of (kv_seqs c) s = Some a"
  shows "written_of a \<subseteq> run_of a"
proof -
  have "private_written a \<le> sl_cap a"
    using kv_wf_fields [OF assms] unfolding private_written_def by linarith
  then show ?thesis by (rule written_unwritten_run(1))
qed

lemma anchored_empty [simp]: "anchored Map.empty"
  by (simp add: anchored_def)

text \<open>A slot that keeps its written rows and at most its prefix, and does not begin to share.\<close>

lemma anchored_update:
  assumes "anchored M" "M s = Some a" "prefix_of a' \<subseteq> prefix_of a" "shared_rows a' \<le> shared_rows a"
    "written_of a \<subseteq> written_of a'"
  shows "anchored (M(s \<mapsto> a'))"
  unfolding anchored_def
proof (intro allI impI)
  fix t b assume b: "(M(s \<mapsto> a')) t = Some b" "0 < shared_rows b"
  obtain b0 where b0: "M t = Some b0" "0 < shared_rows b0" "prefix_of b \<subseteq> prefix_of b0"
    using b assms(2-4) by (cases "t = s") auto
  then obtain u e where u: "M u = Some e" "u \<noteq> t" "shared_rows e = 0" "prefix_of b0 \<subseteq> written_of e"
    using assms(1) unfolding anchored_def by blast
  show "\<exists>u e. (M(s \<mapsto> a')) u = Some e \<and> u \<noteq> t \<and> shared_rows e = 0 \<and> prefix_of b \<subseteq> written_of e"
  proof (cases "u = s")
    case True
    then have "e = a" using u(1) assms(2) by simp
    then show ?thesis using True u b0(3) assms(4,5) by (intro exI [of _ s] exI [of _ a']) auto
  next
    case False
    then show ?thesis using u b0(3) by (intro exI [of _ u] exI [of _ e]) auto
  qed
qed

lemma anchored_fresh:
  assumes "anchored M" "M s = None" "shared_rows a = 0"
  shows "anchored (M(s \<mapsto> a))"
  unfolding anchored_def
proof (intro allI impI)
  fix t b assume b: "(M(s \<mapsto> a)) t = Some b" "0 < shared_rows b"
  then obtain u e where u: "M u = Some e" "u \<noteq> t" "shared_rows e = 0" "prefix_of b \<subseteq> written_of e"
    using assms unfolding anchored_def by (metis fun_upd_apply nat_less_le option.inject)
  then have "u \<noteq> s" using assms(2) by auto
  then show "\<exists>u e. (M(s \<mapsto> a)) u = Some e \<and> u \<noteq> t \<and> shared_rows e = 0 \<and> prefix_of b \<subseteq> written_of e"
    using u by (intro exI [of _ u] exI [of _ e]) auto
qed

lemma anchored_remove:
  assumes "anchored M" "\<And>t b. M t = Some b \<Longrightarrow> t \<noteq> s \<Longrightarrow> prefix_of b \<inter> run_of a = {}"
    "M s = Some a" "private_written a \<le> sl_cap a"
  shows "anchored (M(s := None))"
  unfolding anchored_def
proof (intro allI impI)
  fix t b assume b: "(M(s := None)) t = Some b" "0 < shared_rows b"
  then have t: "t \<noteq> s" "M t = Some b" by (auto split: if_splits)
  then obtain u e where u: "M u = Some e" "u \<noteq> t" "shared_rows e = 0" "prefix_of b \<subseteq> written_of e"
    using assms(1) b(2) unfolding anchored_def by blast
  have "prefix_of b \<noteq> {}" using b(2) by (simp add: prefix_of_def)
  moreover have "prefix_of b = {}" if "u = s"
    using that u assms(2) [OF t(2,1)] assms(3) written_unwritten_run(1) [OF assms(4)] by fastforce
  ultimately have "u \<noteq> s" by blast
  then show "\<exists>u e. (M(s := None)) u = Some e \<and> u \<noteq> t \<and> shared_rows e = 0 \<and> prefix_of b \<subseteq> written_of e"
    using u by (intro exI [of _ u] exI [of _ e]) auto
qed

lemma anchored_own_range:
  assumes "kv_wf c" "anchored (map_of (kv_seqs c))"
  shows "anchored (map_of (kv_seqs (own_range c s from to)))"
proof (cases "map_of (kv_seqs c) s")
  case None
  then show ?thesis using assms(2) by (simp add: own_range_none)
next
  case (Some a)
  have "written_of a \<subseteq> written_of (a\<lparr>sl_written := claimed c s from to\<rparr>)"
    using claimed_bounds(1) [OF assms(1) Some, of "from" to] by (auto simp: written_of_def private_written_def)
  then have "anchored ((map_of (kv_seqs c))(s \<mapsto> a\<lparr>sl_written := claimed c s from to\<rparr>))"
    by (intro anchored_update [OF assms(2) Some]) (simp_all add: prefix_of_def)
  then show ?thesis by (simp add: own_range_some [OF Some])
qed

lemma anchored_own_positions:
  "kv_wf c \<Longrightarrow> anchored (map_of (kv_seqs c)) \<Longrightarrow> anchored (map_of (kv_seqs (fst (own_positions c s ps))))"
  by (induction c s ps rule: own_positions.induct)
     (auto simp: anchored_own_range kv_wf_own_range split: option.splits)

text \<open>
  A share stays inside the donor's own rows or inside the prefix it reads itself. The code
  also accepts a donor whose run happens to follow its prefix in the arena; the guard leaves
  that case out.
\<close>

definition plain_share :: "KvCache \<Rightarrow> SeqId \<Rightarrow> nat \<Rightarrow> bool" where
  "plain_share c src rows = (case map_of (kv_seqs c) src of None \<Rightarrow> True
     | Some a \<Rightarrow> shared_rows a = 0 \<or> rows \<le> shared_rows a)"

lemma anchored_share:
  assumes "kv_wf c" "anchored (map_of (kv_seqs c))" "plain_share c src rows"
  shows "anchored (map_of (kv_seqs (fst (share_prefix c src dst rows))))"
proof (cases "snd (share_prefix c src dst rows)")
  case (Inl e)
  then show ?thesis using share_prefix_err assms(2) by (metis prod.collapse)
next
  case (Inr u)
  let ?M = "map_of (kv_seqs c)"
  have ok: "share_prefix c src dst rows = (fst (share_prefix c src dst rows), Ok ())"
    using Inr by (simp add: prod_eq_iff)
  from share_prefix_ok [OF assms(1) ok] obtain a d cell where
    h: "?M src = Some a" "?M dst = Some d" "src \<noteq> dst" "0 < rows" "rows \<le> sl_written a"
    "shared_rows d = 0" "sl_written d = 0" "slot_cell a 0 = Some cell"
    "fst (share_prefix c src dst rows) = refresh_spans (c\<lparr>kv_seqs := bt_insert dst
       (d\<lparr>sl_shared := \<lparr>sp_cell = cell, sp_rows = rows\<rparr>, sl_written := rows\<rparr>) (kv_seqs c)\<rparr>) dst" .
  let ?d = "d\<lparr>sl_shared := \<lparr>sp_cell = cell, sp_rows = rows\<rparr>, sl_written := rows\<rparr>"
  have pre: "prefix_of ?d = {cell ..< cell + rows}" by (simp add: prefix_of_def)
  have root: "\<exists>u e. ?M u = Some e \<and> u \<noteq> dst \<and> shared_rows e = 0 \<and> prefix_of ?d \<subseteq> written_of e"
  proof (cases "shared_rows a = 0")
    case True
    then have "cell = sl_start a" using h(8) by (auto simp: slot_cell_def split: if_splits)
    then have "prefix_of ?d \<subseteq> written_of a"
      using True h(5) by (auto simp: prefix_of_def written_of_def private_written_def)
    then show ?thesis using True h(1,3) by blast
  next
    case False
    then have "rows \<le> shared_rows a" "cell = shared_cell a"
      using assms(3) h(1,8) by (auto simp: plain_share_def slot_cell_def)
    then have "prefix_of ?d \<subseteq> prefix_of a" by (auto simp: pre prefix_of_def)
    moreover obtain u e where u: "?M u = Some e" "shared_rows e = 0" "prefix_of a \<subseteq> written_of e"
      using assms(2) h(1) False unfolding anchored_def by blast
    moreover have "u \<noteq> dst"
    proof
      assume "u = dst"
      then have "written_of e = {}" using u(1) h(2,7) by (simp add: written_of_def private_written_def)
      then show False using u(3) False by (simp add: prefix_of_def)
    qed
    ultimately show ?thesis by blast
  qed
  have "anchored (?M(dst \<mapsto> ?d))"
    unfolding anchored_def
  proof (intro allI impI)
    fix t b assume b: "(?M(dst \<mapsto> ?d)) t = Some b" "0 < shared_rows b"
    obtain u e where u: "?M u = Some e" "u \<noteq> t" "u \<noteq> dst" "shared_rows e = 0" "prefix_of b \<subseteq> written_of e"
    proof (cases "t = dst")
      case True
      then show ?thesis using root b that by auto
    next
      case False
      then obtain u e where u: "?M u = Some e" "u \<noteq> t" "shared_rows e = 0" "prefix_of b \<subseteq> written_of e"
        using assms(2) b unfolding anchored_def by (metis fun_upd_apply)
      moreover have "u \<noteq> dst"
      proof
        assume "u = dst"
        then have "written_of e = {}" using u(1) h(2,7) by (simp add: written_of_def private_written_def)
        then show False using u(4) b(2) by (simp add: prefix_of_def)
      qed
      ultimately show ?thesis using that by blast
    qed
    then show "\<exists>u e. (?M(dst \<mapsto> ?d)) u = Some e \<and> u \<noteq> t \<and> shared_rows e = 0 \<and> prefix_of b \<subseteq> written_of e"
      by (intro exI [of _ u] exI [of _ e]) auto
  qed
  then show ?thesis using h(9) by simp
qed

lemma anchored_reserve:
  assumes "kv_wf c" "anchored (map_of (kv_seqs c))"
  shows "anchored (map_of (kv_seqs (fst (reserve_seq c s cap))))"
proof (cases "map_of (kv_seqs c) s")
  case None
  then show ?thesis
    using assms anchored_fresh [of "map_of (kv_seqs c)" s]
    by (auto simp: reserve_seq_def Let_def slot_new_def no_share_def split: option.splits)
next
  case (Some a)
  then show ?thesis using assms(2) by (simp add: reserve_seq_def)
qed


section \<open>Copy on write\<close>

lemma mv_copy_at: "k < mv_rows m \<Longrightarrow> mv_copy m f (mv_to m + k) = f (mv_from m + k)"
  by (simp add: mv_copy_def mv_dest_def)

text \<open>The copy a shift asks the backend for.\<close>

definition shift_move :: "KvShift \<Rightarrow> KvMove" where
  "shift_move s = \<lparr>mv_seq = sh_seq s, mv_from = sh_from s, mv_to = sh_to s, mv_rows = sh_rows s\<rparr>"

definition cow_slot :: "SeqSlot \<Rightarrow> nat \<Rightarrow> SeqSlot" where
  "cow_slot a t = a\<lparr>sl_shared := (sl_shared a)\<lparr>sp_rows := t\<rparr>\<rparr>"

lemma private_row_some:
  assumes "private_row_for c s t = Ok (Some sh)"
  obtains a where "map_of (kv_seqs c) s = Some a" "t < shared_rows a"
    "private_written a + (shared_rows a - t) \<le> sl_cap a"
    "sh = \<lparr>sh_seq = s, sh_base = t, sh_from = sl_start a,
       sh_to = sl_start a + (shared_rows a - t), sh_rows = private_written a\<rparr>"
  using assms by (auto simp: private_row_for_def Let_def split: option.splits if_splits)

lemma seqs_ok_cow:
  assumes "seqs_ok n M" "M s = Some a" "t < shared_rows a" "private_written a + (shared_rows a - t) \<le> sl_cap a"
  shows "seqs_ok n (M(s \<mapsto> cow_slot a t))"
proof -
  note ok = seqs_okD(1) [OF assms(1,2)]
  have "sl_written a \<le> t + sl_cap a"
    using ok assms(3,4) by (auto simp: slot_ok_def private_written_def)
  then have "slot_ok n (cow_slot a t)"
    using ok assms(3) by (auto simp: slot_ok_def cow_slot_def kv_defs)
  moreover have "prefix_of (cow_slot a t) \<subseteq> prefix_of a" "run_of (cow_slot a t) = run_of a"
    "unwritten_of (cow_slot a t) \<subseteq> unwritten_of a"
    using assms(3) by (auto simp: cow_slot_def kv_defs)
  ultimately show ?thesis
    using seqs_okD(2) [OF assms(1,2)] seqs_okD(3) [OF assms(1)] assms(2)
    by (intro seqs_ok_update [OF assms(1)]) blast+
qed

lemma layer_ok_shift:
  assumes "layer_ok n l" "sh_from s + sh_rows s \<le> n" "sh_to s + sh_rows s \<le> n"
  shows "layer_ok n (shift_layer s l)"
proof -
  have "copy_within_ok (kl_owner l) (sh_from s) (sh_from s + sh_rows s) (sh_to s)"
    using assms by (simp add: copy_within_ok_def layer_ok_def)
  from length_copy_within [OF this] have "length (kl_owner (shift_layer s l)) = n"
    using assms(1) by (simp add: shift_layer_def Let_def layer_ok_def)
  moreover have "kl_n_used (shift_layer s l) = last_owned (kl_owner (shift_layer s l))"
    by (simp add: shift_layer_def Let_def)
  ultimately show ?thesis using last_owned_le by (metis layer_ok_def)
qed

lemma kv_wf_cow_counters [simp]:
  "kv_wf (c\<lparr>kv_cows := x, kv_cow_cells := y\<rparr>) = kv_wf c"
  by (simp add: kv_wf_def spans_derived_def)

lemma cow_applies:
  assumes "kv_wf c" "private_row_for c s t = Ok (Some sh)"
  obtains a c' where "map_of (kv_seqs c) s = Some a" "t < shared_rows a" "apply_private_row c sh = (c', Ok ())"
    "kv_wf c'" "map_of (kv_seqs c') = (map_of (kv_seqs c))(s \<mapsto> cow_slot a t)"
    "sh_from sh = sl_start a" "sh_to sh = sl_start a + (shared_rows a - t)" "sh_rows sh = private_written a"
    "private_written a + (shared_rows a - t) \<le> sl_cap a"
proof -
  from private_row_some [OF assms(2)] obtain a where a: "map_of (kv_seqs c) s = Some a" "t < shared_rows a"
    "private_written a + (shared_rows a - t) \<le> sl_cap a"
    "sh = \<lparr>sh_seq = s, sh_base = t, sh_from = sl_start a,
       sh_to = sl_start a + (shared_rows a - t), sh_rows = private_written a\<rparr>" .
  note ok = kv_wfD(7) [OF assms(1) a(1)]
  have bnd: "sh_from sh + sh_rows sh \<le> kv_n_ctx c" "sh_to sh + sh_rows sh \<le> kv_n_ctx c"
    using a(3,4) ok by (auto simp: slot_ok_def)
  have len: "length (kl_owner l) = kv_n_ctx c" if "(k, l) \<in> set (kv_layers c)" for k l
    using that assms(1) by (auto simp: kv_wf_def bt_mem_iff layer_ok_def)
  then have noerr: "find (\<lambda>(_, l). length (kl_owner l) < sh_to sh + sh_rows sh
      \<or> length (kl_owner l) < sh_from sh + sh_rows sh) (kv_layers c) = None"
    using bnd by (fastforce simp: find_None_iff)
  define c2 where "c2 = refresh_spans (c\<lparr>kv_seqs := bt_insert s (cow_slot a t) (kv_seqs c)\<rparr>) s"
  define c3 where "c3 = refresh_spans (c\<lparr>kv_layers := bt_map_values (shift_layer sh) (kv_layers c),
    kv_seqs := bt_insert s (cow_slot a t) (kv_seqs c)\<rparr>) s"
  have lay: "kv_wf (c\<lparr>kv_layers := bt_map_values (shift_layer sh) (kv_layers c)\<rparr>)"
    using kv_wf_map_layers [OF assms(1)] layer_ok_shift [OF _ bnd] by blast
  have "seqs_ok (kv_n_ctx c) ((map_of (kv_seqs c))(s \<mapsto> cow_slot a t))"
    by (rule seqs_ok_cow [OF kv_wfD(5) [OF assms(1)] a(1-3)])
  then have wf3: "kv_wf c3"
    using kv_wf_update_slot [OF lay, of s "cow_slot a t"] by (simp add: c3_def)
  have "apply_private_row c sh = (c3\<lparr>kv_cows := kv_cows c3 + 1,
      kv_cow_cells := kv_cow_cells c3 + length (kv_layers c) * sh_rows sh\<rparr>, Ok ())"
    using a noerr by (simp add: apply_private_row_def Let_def c3_def cow_slot_def)
  then show ?thesis using that a wf3 by (simp add: c3_def)
qed

text \<open>The run of a sequence that shares a prefix is read by no other sequence.\<close>

lemma sharer_run_unread:
  assumes "kv_wf c" "anchored (map_of (kv_seqs c))" "map_of (kv_seqs c) s = Some a" "0 < shared_rows a"
    "map_of (kv_seqs c) u = Some b" "u \<noteq> s" "slot_cell b q = Some y"
  shows "y \<notin> run_of a"
proof (cases "q < shared_rows b")
  case True
  then have "y \<in> prefix_of b" "0 < shared_rows b" using assms(7) by (auto simp: slot_cell_def prefix_of_def)
  then obtain v e where v: "map_of (kv_seqs c) v = Some e" "shared_rows e = 0" "y \<in> written_of e"
    using assms(2,5) unfolding anchored_def by blast
  then have "v \<noteq> s" using assms(3,4) by auto
  moreover have "y \<in> run_of e" using v(3) kv_wf_written_run [OF assms(1) v(1)] by blast
  ultimately show ?thesis using seqs_okD(2) [OF kv_wfD(5) [OF assms(1)] v(1) assms(3)] by blast
next
  case False
  then have "y \<in> run_of b" using assms(7) by (auto simp: slot_cell_def run_of_def split: if_splits)
  then show ?thesis using seqs_okD(2) [OF kv_wfD(5) [OF assms(1)] assms(5,3,6)] by blast
qed

text \<open>
  Where the rows are after the copy: a sequence other than \<open>s\<close> reads what it read, and \<open>s\<close>
  reads its rows below the new base and those it had written itself.
\<close>

lemma cow_reads:
  assumes "kv_wf c" "anchored (map_of (kv_seqs c))" "private_row_for c s t = Ok (Some sh)"
    "apply_private_row c sh = (c', r)" "map_of (kv_seqs c) u = Some b" "p < sl_written b"
    "u = s \<Longrightarrow> p < t \<or> shared_rows b \<le> p"
  shows "\<exists>x x'. cell_of c u p = Some x \<and> cell_of c' u p = Some x' \<and> mv_copy (shift_move sh) f x' = f x"
proof -
  let ?M = "map_of (kv_seqs c)"
  from cow_applies [OF assms(1,3)] assms(4) obtain a where
    a: "?M s = Some a" "t < shared_rows a" "kv_wf c'" "map_of (kv_seqs c') = ?M(s \<mapsto> cow_slot a t)"
      "sh_from sh = sl_start a" "sh_to sh = sl_start a + (shared_rows a - t)" "sh_rows sh = private_written a"
      "private_written a + (shared_rows a - t) \<le> sl_cap a" by (metis prod.inject)
  note ok = kv_wfD(5) [OF assms(1)]
  have dest: "mv_dest (shift_move sh) \<subseteq> run_of a"
    using a(5-8) by (auto simp: mv_dest_def shift_move_def run_of_def)
  have p: "p < shared_rows b + sl_cap b" using kv_wf_fields [OF assms(1,5)] assms(6) by linarith
  have cells: "cell_of c u p = slot_cell b p"
    "cell_of c' u p = slot_cell (if u = s then cow_slot a t else b) p"
    using assms(5) a(4) by (auto simp: cell_of_slot [OF kv_wfD(4) [OF assms(1)]] cell_of_slot [OF kv_wfD(4) [OF a(3)]])
  show ?thesis
  proof (cases "u = s")
    case True
    then have ba: "b = a" using a(1) assms(5) by simp
    show ?thesis
    proof (cases "p < t")
      case lt: True
      then have "shared_cell a + p \<in> prefix_of a" using a(2) by (simp add: prefix_of_def)
      then have "shared_cell a + p \<notin> mv_dest (shift_move sh)"
        using dest seqs_okD(1) [OF ok a(1)] by (auto simp: slot_ok_def)
      then show ?thesis using True ba lt a(2) cells by (auto simp: slot_cell_def cow_slot_def mv_copy_def)
    next
      case False
      then have ge: "shared_rows a \<le> p" using assms(7) True ba by simp
      then have "p < t + sl_cap a" using assms(6) a(2,8) ba by (simp add: private_written_def)
      then have "cell_of c u p = Some (sl_start a + (p - shared_rows a))"
        "cell_of c' u p = Some (sh_to sh + (p - shared_rows a))"
        using True ba ge cells p a(2,6) by (auto simp: slot_cell_def cow_slot_def)
      moreover have "mv_copy (shift_move sh) f (sh_to sh + (p - shared_rows a)) = f (sl_start a + (p - shared_rows a))"
        using mv_copy_at [of "p - shared_rows a" "shift_move sh" f] assms(6) ge ba a(5,7)
        by (simp add: shift_move_def private_written_def)
      ultimately show ?thesis by blast
    qed
  next
    case False
    obtain x where x: "slot_cell b p = Some x" using p by (cases "p < shared_rows b") (auto simp: slot_cell_def)
    have "x \<notin> run_of a" using sharer_run_unread [OF assms(1,2) a(1) _ assms(5) False x] a(2) by simp
    then show ?thesis using x cells False dest by (auto simp: mv_copy_def)
  qed
qed

lemma anchored_cow:
  assumes "kv_wf c" "anchored (map_of (kv_seqs c))" "private_row_for c s t = Ok (Some sh)"
  shows "anchored (map_of (kv_seqs (fst (apply_private_row c sh))))"
proof -
  from cow_applies [OF assms(1,3)] obtain a c' where
    a: "map_of (kv_seqs c) s = Some a" "t < shared_rows a" "apply_private_row c sh = (c', Ok ())"
      "map_of (kv_seqs c') = (map_of (kv_seqs c))(s \<mapsto> cow_slot a t)" .
  have "anchored ((map_of (kv_seqs c))(s \<mapsto> cow_slot a t))"
    using a(2) by (intro anchored_update [OF assms(2) a(1)])
      (auto simp: cow_slot_def prefix_of_def written_of_def private_written_def)
  then show ?thesis using a by simp
qed


section \<open>Sessions\<close>

lemma check_session_layers_ok:
  assumes "\<And>ls. ls \<in> set lss \<Longrightarrow> map_of (kv_layers c) (ls_layer ls) \<noteq> None \<and>
    length (ls_owner ls) = kv_n_ctx c \<and> ls_n_used ls \<le> kv_n_ctx c"
  shows "check_session_layers c lss = Ok ()"
  using assms by (induction lss) (fastforce simp: not_less)+

lemma check_session_seqs_ok:
  assumes "\<And>s a. (s, a) \<in> set ss \<Longrightarrow> sl_start a + sl_cap a \<le> n \<and> sl_written a \<le> shared_rows a + sl_cap a \<and>
    (\<exists>sp. map_of spans s = Some sp \<and> check_session_spans n s a sp = Ok ())"
  shows "check_session_seqs n spans ss = Ok ()"
  using assms
proof (induction ss)
  case (Cons e ss)
  obtain s a where e: "e = (s, a)" by (cases e)
  have "check_session_seqs n spans ss = Ok ()" by (rule Cons.IH) (use Cons.prems in auto)
  then show ?case using Cons.prems [of s a] e by (auto simp: not_less)
qed simp

lemma check_session_spans_slot: "slot_ok n a \<Longrightarrow> check_session_spans n s a (slot_spans a) = Ok ()"
  by (auto simp: slot_spans_def slot_ok_def)

lemma bt_insert_last:
  "(\<And>x. x \<in> set (map fst m) \<Longrightarrow> x < k) \<Longrightarrow> bt_insert k v m = m @ [(k, v)]"
  by (induction m) auto

text \<open>The arenas a session is restored into: the same layers, with any bookkeeping.\<close>

definition same_arena :: "KvLayer \<Rightarrow> KvLayer \<Rightarrow> bool" where
  "same_arena l l' \<longleftrightarrow> kl_k l = kl_k l' \<and> kl_v l = kl_v l' \<and> kl_elems l = kl_elems l' \<and>
     kl_n_ctx l = kl_n_ctx l' \<and> kl_n_embd l = kl_n_embd l' \<and> kl_packed l = kl_packed l'"

definition layer_session :: "nat \<times> KvLayer \<Rightarrow> KvLayerSession" where
  "layer_session = (\<lambda>(layer, l). \<lparr>ls_layer = layer, ls_n_used = kl_n_used l, ls_owner = kl_owner l\<rparr>)"

lemma restore_layers_prefix:
  assumes "bt_wf (done' @ xs)" "list_all2 (\<lambda>(k, l) (k', l'). k = k' \<and> same_arena l l') xs ys"
  shows "fold restore_layer (map layer_session xs) (done' @ ys) = done' @ xs"
  using assms
proof (induction xs arbitrary: done' ys)
  case (Cons x xs)
  obtain k l where x: "x = (k, l)" by (cases x)
  from Cons.prems(2) obtain l' ys' where ys: "ys = (k, l') # ys'" "same_arena l l'"
    "list_all2 (\<lambda>(k, l) (k', l'). k = k' \<and> same_arena l l') xs ys'"
    by (auto simp: x list_all2_Cons1)
  have lt: "\<And>y. y \<in> set (map fst done') \<Longrightarrow> y < k"
    using Cons.prems(1) by (auto simp: bt_wf_def sorted_wrt_append x)
  then have "map_of done' k = None" by (fastforce simp: map_of_eq_None_iff)
  then have "map_of (done' @ ys) k = Some l'" by (simp add: ys(1) map_add_def)
  moreover have "l'\<lparr>kl_owner := kl_owner l, kl_n_used := kl_n_used l\<rparr> = l"
    using ys(2) by (simp add: same_arena_def)
  moreover have "bt_insert k l (done' @ (k, l') # ys') = done' @ (k, l) # ys'"
    using lt by (induction done') auto
  ultimately have "restore_layer (layer_session x) (done' @ ys) = (done' @ [x]) @ ys'"
    by (simp add: restore_layer_def layer_session_def x ys(1))
  then show ?case using Cons.IH [of "done' @ [x]" ys'] Cons.prems(1) ys(3) by simp
qed simp

text \<open>Restoring the state a well-formed store exported gives that store back.\<close>

lemma restore_session_state:
  assumes "kv_wf c" "kv_n_ctx d = kv_n_ctx c"
    "list_all2 (\<lambda>(k, l) (k', l'). k = k' \<and> same_arena l l') (kv_layers c) (kv_layers d)"
  shows "restore_session d (session_state c) = (c, Ok ())"
proof -
  have keys: "map fst (kv_layers d) = map fst (kv_layers c)"
    using assms(3) by (induction rule: list_all2_induct) auto
  have "check_session_layers d (ks_layers (session_state c)) = Ok ()"
  proof (rule check_session_layers_ok)
    fix ls assume "ls \<in> set (ks_layers (session_state c))"
    then obtain k l where kl: "(k, l) \<in> set (kv_layers c)" "ls = layer_session (k, l)"
      by (auto simp: session_state_def layer_session_def)
    moreover have "k \<in> fst ` set (kv_layers d)" using kl(1) keys by (metis fst_conv image_eqI image_set)
    ultimately show "map_of (kv_layers d) (ls_layer ls) \<noteq> None \<and> length (ls_owner ls) = kv_n_ctx d \<and>
        ls_n_used ls \<le> kv_n_ctx d"
      using assms(1,2) by (auto simp: kv_wf_def bt_mem_iff layer_ok_def layer_session_def map_of_eq_None_iff)
  qed
  moreover have "check_session_seqs (kv_n_ctx d) (ks_spans (session_state c)) (ks_seqs (session_state c)) = Ok ()"
  proof (rule check_session_seqs_ok)
    fix s a assume "(s, a) \<in> set (ks_seqs (session_state c))"
    then have a: "map_of (kv_seqs c) s = Some a"
      using assms(1) by (simp add: session_state_def kv_wf_def bt_mem_iff)
    note ok = kv_wfD(7) [OF assms(1) a]
    moreover have "map_of (kv_spans c) s = Some (slot_spans a)"
      using a kv_wfD(4) [OF assms(1)] by (simp add: spans_derived_def)
    ultimately show "sl_start a + sl_cap a \<le> kv_n_ctx d \<and> sl_written a \<le> shared_rows a + sl_cap a \<and>
        (\<exists>sp. map_of (ks_spans (session_state c)) s = Some sp \<and> check_session_spans (kv_n_ctx d) s a sp = Ok ())"
      using check_session_spans_slot [OF ok] assms(2) by (simp add: session_state_def slot_ok_def)
  qed
  moreover have "fold restore_layer (ks_layers (session_state c)) (kv_layers d) = kv_layers c"
    using restore_layers_prefix [of "[]" "kv_layers c" "kv_layers d"] assms(1,3)
    by (simp add: kv_wf_def session_state_def layer_session_def)
  ultimately show ?thesis
    using assms(1,2) by (simp add: restore_session_def session_state_def bt_collect_self kv_wf_def)
qed


section \<open>Histories of the store\<close>

text \<open>
  The operations the allocator performs on the store, in the order they may come. A layer is
  inserted while nothing is reserved yet, or at the capacity the store has; a sequence is
  released while no other one reads its rows; relocations are those the store planned.
\<close>

definition no_reader :: "KvCache \<Rightarrow> SeqId \<Rightarrow> bool" where
  "no_reader c s = (case map_of (kv_seqs c) s of None \<Rightarrow> True
     | Some a \<Rightarrow> list_all (\<lambda>(t, b). t = s \<or> prefix_of b \<inter> run_of a = {}) (kv_seqs c))"

inductive kv_step :: "KvCache \<Rightarrow> KvCache \<Rightarrow> bool" where
  step_insert: "n = kv_n_ctx c \<or> kv_layers c = [] \<and> kv_seqs c = [] \<and> kv_n_ctx c \<le> n \<Longrightarrow>
     kv_step c (kv_insert c layer k v d e n pk)"
| step_reserve: "kv_step c (fst (reserve_seq c s cap))"
| step_release: "no_reader c s \<Longrightarrow> kv_step c (fst (release_seq c s))"
| step_own: "kv_step c (fst (own_positions c s ps))"
| step_share: "plain_share c src rows \<Longrightarrow> kv_step c (fst (share_prefix c src dst rows))"
| step_compact: "kv_step c (fst (apply_moves c (compaction_plan c need)))"
| step_resize: "0 < cap \<Longrightarrow> set_cap c s cap = (c1, Ok ms) \<Longrightarrow> kv_step c (fst (apply_moves c1 ms))"
| step_cow: "private_row_for c s t = Ok (Some sh) \<Longrightarrow> kv_step c (fst (apply_private_row c sh))"

inductive kv_reachable :: "KvCache \<Rightarrow> bool" where
  reach_new: "kv_reachable kv_new"
| reach_step: "kv_reachable c \<Longrightarrow> kv_step c c' \<Longrightarrow> kv_reachable c'"

definition kv_inv :: "KvCache \<Rightarrow> bool" where
  "kv_inv c \<longleftrightarrow> kv_wf c \<and> anchored (map_of (kv_seqs c))"

lemma kv_inv_release:
  assumes "kv_inv c" "no_reader c s"
  shows "kv_inv (fst (release_seq c s))"
proof (cases "map_of (kv_seqs c) s")
  case None
  then show ?thesis using assms(1) by (simp add: release_seq_def)
next
  case (Some a)
  have wf: "kv_wf c" and an: "anchored (map_of (kv_seqs c))" using assms(1) by (auto simp: kv_inv_def)
  have "prefix_of b \<inter> run_of a = {}" if "map_of (kv_seqs c) t = Some b" "t \<noteq> s" for t b
    using assms(2) that Some kv_wfD(2) [OF wf] by (auto simp: no_reader_def list_all_iff simp flip: bt_mem_iff)
  moreover have "private_written a \<le> sl_cap a"
    using kv_wf_fields [OF wf Some] unfolding private_written_def by linarith
  ultimately have "anchored ((map_of (kv_seqs c))(s := None))"
    using anchored_remove [OF an _ Some] by blast
  then show ?thesis using kv_wf_release_seq [OF wf, of s] by (simp add: kv_inv_def release_seq_some [OF Some])
qed

lemma kv_inv_resize:
  assumes "kv_inv c" "0 < cap" "set_cap c s cap = (c1, Ok ms)"
  shows "kv_inv (fst (apply_moves c1 ms))"
proof -
  obtain slot where "map_of (kv_seqs c) s = Some slot"
    using assms(3) by (auto simp: set_cap_def split: option.splits)
  from set_cap_applies [OF _ _ this assms(2,3)] assms(1) show ?thesis by (auto simp: kv_inv_def)
qed

lemma kv_inv_step: "kv_step c c' \<Longrightarrow> kv_inv c \<Longrightarrow> kv_inv c'"
proof (induction rule: kv_step.induct)
  case (step_insert n c layer k v d e pk)
  then show ?case using kv_wf_insert [of c n layer k v d e pk] by (auto simp: kv_inv_def kv_insert_def)
next
  case (step_reserve c s cap)
  then show ?case using kv_wf_reserve_seq anchored_reserve by (auto simp: kv_inv_def)
next
  case (step_release c s)
  then show ?case using kv_inv_release by blast
next
  case (step_own c s ps)
  then show ?case using own_positions_wf anchored_own_positions by (auto simp: kv_inv_def)
next
  case (step_share c src rows dst)
  then show ?case using kv_wf_share_prefix anchored_share by (auto simp: kv_inv_def)
next
  case (step_compact c need)
  then show ?case using compaction_applies [of c need] by (auto simp: kv_inv_def)
next
  case (step_resize cap c s c1 ms)
  then show ?case using kv_inv_resize by blast
next
  case (step_cow c s t sh)
  then have wf: "kv_wf c" and an: "anchored (map_of (kv_seqs c))" by (auto simp: kv_inv_def)
  from cow_applies [OF wf step_cow.hyps] have "kv_wf (fst (apply_private_row c sh))" by (metis fst_conv)
  then show ?case using anchored_cow [OF wf an step_cow.hyps] by (simp add: kv_inv_def)
qed

lemma kv_inv_reachable: "kv_reachable c \<Longrightarrow> kv_inv c"
proof (induction rule: kv_reachable.induct)
  case reach_new
  then show ?case using kv_wf_new by (simp add: kv_inv_def kv_new_def)
next
  case (reach_step c c')
  then show ?case using kv_inv_step by blast
qed

end
