(* ===== verification/Kv_Props.thy ===== *)
theory Kv_Props
  imports Kv_Window Kv_Share
begin

text \<open>
  The properties of the KV cell store, and the stores their witnesses use.
\<close>

section \<open>A small history\<close>

text \<open>
  One layer of 12 cells; sequence 0 takes 4 cells, 1 takes 2, 2 takes 4; sequence 0 writes
  its rows, sequence 2 shares two of them and writes two of its own; then 1 is released, so
  that the arena has a hole.
\<close>

definition demo0 :: KvCache where
  "demo0 = kv_insert kv_new 0 (bufref_own 0 1 96) (bufref_own 0 2 96) 8 8 12 False"

definition demo1 :: KvCache where
  "demo1 = fst (reserve_seq (fst (reserve_seq (fst (reserve_seq demo0 0 4)) 1 2)) 2 4)"

definition demo2 :: KvCache where
  "demo2 = fst (own_positions demo1 0 [0, 1, 2])"

definition demo3 :: KvCache where
  "demo3 = fst (own_positions (fst (share_prefix demo2 0 2 2)) 2 [2, 3])"

definition demo4 :: KvCache where
  "demo4 = fst (release_seq demo3 1)"

lemma demo1_reachable: "kv_reachable demo1"
  unfolding demo1_def demo0_def
  by (intro reach_step [OF _ step_reserve] reach_step [OF _ step_insert] reach_new)
     (simp add: kv_new_def)

lemma demo2_reachable: "kv_reachable demo2"
  unfolding demo2_def by (intro reach_step [OF _ step_own] demo1_reachable)

lemma demo3_reachable: "kv_reachable demo3"
proof -
  have "plain_share demo2 0 2" by code_simp
  then show ?thesis
    unfolding demo3_def by (intro reach_step [OF _ step_own] reach_step [OF _ step_share] demo2_reachable)
qed

lemma demo4_reachable: "kv_reachable demo4"
proof -
  have "no_reader demo3 1" by code_simp
  then show ?thesis unfolding demo4_def by (intro reach_step [OF _ step_release] demo3_reachable)
qed

lemma kv_reachable_wf: "kv_reachable c \<Longrightarrow> kv_wf c"
  using kv_inv_reachable by (simp add: kv_inv_def)



lemma slot_cell_private:
  assumes "shared_rows a \<le> p" "p < shared_rows a + sl_cap a"
  shows "slot_cell a p = Some (sl_start a + (p - shared_rows a)) \<and> sl_start a + (p - shared_rows a) \<in> run_of a"
proof -
  have "p - shared_rows a < sl_cap a" using assms by linarith
  then show ?thesis using assms by (simp add: slot_cell_def run_of_def del: Nat.add_diff_assoc)
qed

section \<open>Properties\<close>



text \<open>
  C2: isolation. In a reachable store two addresses that lie in the runs of their sequences,
  of one sequence or of two, name different cells.
\<close>

theorem kv_cells_isolated:
  assumes "kv_reachable c" "seq_slot c s = Some a" "seq_slot c t = Some b" "(s, p) \<noteq> (t, q)"
    "shared_rows a \<le> p" "p < shared_rows a + sl_cap a" "shared_rows b \<le> q" "q < shared_rows b + sl_cap b"
  shows "\<exists>x y. cell_of c s p = Some x \<and> cell_of c t q = Some y \<and> x \<noteq> y"
proof -
  note wf = kv_reachable_wf [OF assms(1)]
  have M: "map_of (kv_seqs c) s = Some a" "map_of (kv_seqs c) t = Some b"
    using assms(2,3) by (simp_all add: seq_slot_def)
  obtain x y where xy: "slot_cell a p = Some x" "slot_cell b q = Some y" "x \<in> run_of a" "y \<in> run_of b"
    using slot_cell_private [OF assms(5,6)] slot_cell_private [OF assms(7,8)] by blast
  have "x \<noteq> y"
  proof
    assume "x = y"
    then have "s = t" using seqs_okD(2) [OF kv_wfD(5) [OF wf] M] xy by blast
    then have "p = q" using xy \<open>x = y\<close> M slot_cell_inj [OF kv_wfD(7) [OF wf M(1)]] by simp
    then show False using assms(4) \<open>s = t\<close> by simp
  qed
  then show ?thesis using xy M by (simp add: cell_of_slot [OF kv_wfD(4) [OF wf]])
qed

theorem kv_cells_isolated_witness:
  "\<exists>x y. cell_of demo3 0 3 = Some x \<and> cell_of demo3 2 3 = Some y \<and> x \<noteq> y"
proof (rule kv_cells_isolated [OF demo3_reachable])
  show "seq_slot demo3 0 = Some \<lparr>sl_start = 0, sl_cap = 4, sl_shared = no_share, sl_written = 3\<rparr>" by code_simp
  show "seq_slot demo3 2 = Some \<lparr>sl_start = 6, sl_cap = 4, sl_shared = \<lparr>sp_cell = 0, sp_rows = 2\<rparr>, sl_written = 4\<rparr>"
    by code_simp
qed (simp_all add: no_share_def)

text \<open>
  C3: a reservation for a new sequence succeeds exactly when the arena has a free window of
  that many cells; the run it gets is the lowest such window, and every other sequence keeps
  the cells it had.
\<close>

theorem reserve_first_fit:
  assumes "kv_reachable c" "seq_slot c s = None" "0 < cap"
  shows "case reserve_seq c s cap of
      (c', Inl e) \<Rightarrow> c' = c \<and> (\<forall>p. \<not> all_free (occupied c) p cap)
    | (c', Inr slot) \<Rightarrow> all_free (occupied c) (sl_start slot) cap \<and> sl_cap slot = cap \<and> sl_written slot = 0 \<and>
        (\<forall>q < sl_start slot. \<not> all_free (occupied c) q cap) \<and> seq_slot c' s = Some slot \<and>
        (\<forall>t p. t \<noteq> s \<longrightarrow> cell_of c' t p = cell_of c t p)"
proof (cases "reserve_seq c s cap")
  case (Pair c' r)
  note wf = kv_reachable_wf [OF assms(1)]
  have new: "map_of (kv_seqs c) s = None" using assms(2) by (simp add: seq_slot_def)
  show ?thesis
  proof (cases r)
    case (Inl e)
    then have "c' = c" using Pair by (auto simp: reserve_seq_def Let_def split: if_splits option.splits)
    then show ?thesis using Pair Inl reserve_seq_room [OF wf new assms(3)] by fastforce
  next
    case (Inr slot)
    note R = reserve_seq_new [OF wf new Pair [unfolded Inr]]
    have "kv_wf c'" using kv_wf_reserve_seq [OF wf, of s cap] Pair by simp
    then have "cell_of c' t p = cell_of c t p" if "t \<noteq> s" for t p
      using that R(4) by (simp add: cell_of_slot kv_wfD(4) wf)
    then show ?thesis using Pair Inr R by (simp add: seq_slot_def slot_new_def) (metis SeqSlot.select_convs(2,4))
  qed
qed

theorem reserve_first_fit_witness:
  "case reserve_seq demo4 5 2 of
      (c', Inl e) \<Rightarrow> c' = demo4 \<and> (\<forall>p. \<not> all_free (occupied demo4) p 2)
    | (c', Inr slot) \<Rightarrow> all_free (occupied demo4) (sl_start slot) 2 \<and> sl_cap slot = 2 \<and> sl_written slot = 0 \<and>
        (\<forall>q < sl_start slot. \<not> all_free (occupied demo4) q 2) \<and> seq_slot c' 5 = Some slot \<and>
        (\<forall>t p. t \<noteq> 5 \<longrightarrow> cell_of c' t p = cell_of demo4 t p)"
proof (rule reserve_first_fit [OF demo4_reachable])
  show "seq_slot demo4 5 = None" by code_simp
qed simp

text \<open>
  C4: the gather map. For a batch whose positions have all been written, \<open>attn_map\<close> gives
  every token a block of \<open>KV_MAP_MAX_SPANS\<close> spans, and the cells a kernel reads from the block
  are the cells of positions \<open>0..=pos\<close> of the token's sequence, in order.
\<close>

theorem attn_map_gathers_history:
  assumes "kv_reachable c" "kv_n_ctx c < 2 ^ 32" "kv_layers c \<noteq> []" "length ps = length ids"
    and "\<forall>t < length ids. ps ! t < written_rows c (ids ! t)"
  shows "\<exists>out. attn_map c ids ps = Ok out \<and> length out = 2 * KV_MAP_MAX_SPANS * length ids \<and>
    (\<forall>t < length ids.
       entry_cells (take (2 * KV_MAP_MAX_SPANS) (drop (2 * KV_MAP_MAX_SPANS * t) out)) =
       map (\<lambda>p. the (cell_of c (ids ! t) p)) [0..<Suc (ps ! t)])"
  using attn_map_exact [OF kv_reachable_wf [OF assms(1)] assms(2-5)] .

theorem attn_map_gathers_history_witness:
  "\<exists>out. attn_map demo3 [2, 0] [3, 1] = Ok out \<and> length out = 2 * KV_MAP_MAX_SPANS * length [2, 0 :: nat] \<and>
    (\<forall>t < length [2, 0 :: nat].
       entry_cells (take (2 * KV_MAP_MAX_SPANS) (drop (2 * KV_MAP_MAX_SPANS * t) out)) =
       map (\<lambda>p. the (cell_of demo3 ([2, 0] ! t) p)) [0..<Suc ([3, 1] ! t)])"
proof (rule attn_map_gathers_history [OF demo3_reachable])
  show "kv_n_ctx demo3 < 2 ^ 32" by code_simp
  show "kv_layers demo3 \<noteq> []" by code_simp
  have "list_all (\<lambda>t. [3, 1] ! t < written_rows demo3 ([2, 0] ! t)) [0, 1]" by code_simp
  then show "\<forall>t < length [2, 0 :: nat]. [3, 1] ! t < written_rows demo3 ([2, 0] ! t)"
    by (auto simp: less_Suc_eq)
qed simp


text \<open>
  With no shared prefix in the store, \<open>attn_span\<close> gives every token one contiguous range,
  exactly the cells of positions \<open>0..=pos\<close> of its sequence.
\<close>

lemma attn_span_is_history:
  assumes "kv_reachable c" "kv_n_ctx c < 2 ^ 32" "kv_layers c \<noteq> []" "length ps = length ids"
    and "\<forall>t < length ids. ps ! t < written_rows c (ids ! t)"
    and "\<forall>s a. seq_slot c s = Some a \<longrightarrow> shared_rows a = 0"
  shows "\<exists>out. attn_span c ids ps = Ok out \<and> length out = 2 * length ids \<and>
    (\<forall>t < length ids. [out ! t ..< out ! (length ids + t)] =
       map (\<lambda>p. the (cell_of c (ids ! t) p)) [0..<Suc (ps ! t)])"
  using attn_span_exact [OF kv_reachable_wf [OF assms(1)] assms(2-5)] assms(6) by (simp add: seq_slot_def)

lemma demo2_unshared: "seq_slot demo2 s = Some a \<Longrightarrow> shared_rows a = 0"
proof -
  assume "seq_slot demo2 s = Some a"
  then have "(s, a) \<in> set (kv_seqs demo2)" by (simp add: seq_slot_def map_of_SomeD)
  moreover have "list_all (\<lambda>(s, a). shared_rows a = 0) (kv_seqs demo2)" by code_simp
  ultimately show ?thesis by (auto simp: list_all_iff)
qed

lemma attn_span_is_history_witness:
  "\<exists>out. attn_span demo2 [0] [2] = Ok out \<and> length out = 2 * length [0 :: nat] \<and>
    (\<forall>t < length [0 :: nat]. [out ! t ..< out ! (length [0 :: nat] + t)] =
       map (\<lambda>p. the (cell_of demo2 ([0] ! t) p)) [0..<Suc ([2] ! t)])"
proof (rule attn_span_is_history [OF demo2_reachable])
  show "kv_n_ctx demo2 < 2 ^ 32" by code_simp
  show "kv_layers demo2 \<noteq> []" by code_simp
  have "2 < written_rows demo2 0" by code_simp
  then show "\<forall>t < length [0 :: nat]. [2] ! t < written_rows demo2 ([0] ! t)" by simp
qed (simp_all add: demo2_unshared)










text \<open>
  Sharing. A successful \<open>share_prefix\<close> makes the first \<open>rows\<close> positions of the destination
  name the very cells the source's first positions name, moves the destination's own run to
  the positions after them, and changes no other sequence.
\<close>

lemma share_prefix_aliases:
  assumes "kv_reachable c" "share_prefix c src dst rows = (c', Ok ())"
  shows "(\<forall>p < rows. cell_of c' dst p = cell_of c src p \<and> cell_of c src p \<noteq> None) \<and>
    (\<forall>p. cell_of c' dst (rows + p) = cell_of c dst p) \<and> written_rows c' dst = rows \<and>
    (\<forall>t p. t \<noteq> dst \<longrightarrow> cell_of c' t p = cell_of c t p)"
proof -
  note wf = kv_reachable_wf [OF assms(1)]
  have wf': "kv_wf c'" using kv_wf_share_prefix [OF wf, of src dst rows] assms(2) by simp
  from share_prefix_ok [OF wf assms(2)] obtain a d cell where
    h: "map_of (kv_seqs c) src = Some a" "map_of (kv_seqs c) dst = Some d" "src \<noteq> dst"
    "0 < rows" "rows \<le> sl_written a" "shared_rows d = 0" "sl_written d = 0"
    "slot_cell a 0 = Some cell" "slot_cell a (rows - 1) = Some (cell + rows - 1)"
    "c' = refresh_spans (c\<lparr>kv_seqs := bt_insert dst
       (d\<lparr>sl_shared := \<lparr>sp_cell = cell, sp_rows = rows\<rparr>, sl_written := rows\<rparr>) (kv_seqs c)\<rparr>) dst" .
  have seqs: "map_of (kv_seqs c') = (map_of (kv_seqs c))
      (dst \<mapsto> d\<lparr>sl_shared := \<lparr>sp_cell = cell, sp_rows = rows\<rparr>, sl_written := rows\<rparr>)"
    by (simp add: h(10))
  note C = cell_of_slot [OF kv_wfD(4) [OF wf]] cell_of_slot [OF kv_wfD(4) [OF wf']]
  have "cell_of c src p = Some (cell + p)" if "p < rows" for p
    using shared_range(1) [OF kv_wfD(7) [OF wf h(1)] h(4,5,8,9) that] h(1) by (simp add: C)
  moreover have "cell_of c' dst p = Some (cell + p)" if "p < rows" for p
    using seqs that by (simp add: C(2) slot_cell_def)
  moreover have "cell_of c' dst (rows + p) = cell_of c dst p" for p
    using h(2,6) seqs by (simp add: C slot_cell_def)
  moreover have "cell_of c' t p = cell_of c t p" if "t \<noteq> dst" for t p
    using seqs that by (simp add: C)
  moreover have "written_rows c' dst = rows" using seqs by (simp add: written_rows_def)
  ultimately show ?thesis by simp
qed

lemma share_prefix_aliases_witness:
  "cell_of (fst (share_prefix demo2 0 2 2)) 2 1 = cell_of demo2 0 1 \<and>
    cell_of (fst (share_prefix demo2 0 2 2)) 2 (2 + 3) = cell_of demo2 2 3 \<and>
    written_rows (fst (share_prefix demo2 0 2 2)) 2 = 2 \<and>
    cell_of (fst (share_prefix demo2 0 2 2)) 0 2 = cell_of demo2 0 2"
proof -
  have "snd (share_prefix demo2 0 2 2) = Ok ()" by code_simp
  then have "share_prefix demo2 0 2 2 = (fst (share_prefix demo2 0 2 2), Ok ())" by (simp add: prod_eq_iff)
  from share_prefix_aliases [OF demo2_reachable this] show ?thesis
    by (metis one_less_numeral_iff semiring_norm(76) zero_neq_numeral)
qed

text \<open>
  C9: the session round trip. Restoring the state a reachable store exported, into a store
  with the same arenas and capacity whatever its bookkeeping, gives the exported store back.
\<close>

theorem session_round_trip:
  assumes "kv_reachable c" "kv_n_ctx d = kv_n_ctx c"
    "list_all2 (\<lambda>(k, l) (k', l'). k = k' \<and> same_arena l l') (kv_layers c) (kv_layers d)"
  shows "restore_session d (session_state c) = (c, Ok ())"
  by (rule restore_session_state [OF kv_reachable_wf [OF assms(1)] assms(2,3)])

theorem session_round_trip_witness: "restore_session demo0 (session_state demo4) = (demo4, Ok ())"
proof (rule session_round_trip [OF demo4_reachable])
  show "kv_n_ctx demo0 = kv_n_ctx demo4" by code_simp
  show "list_all2 (\<lambda>(k, l) (k', l'). k = k' \<and> same_arena l l') (kv_layers demo4) (kv_layers demo0)"
    by code_simp
qed

text \<open>
  Releasing a sequence nobody reads gives its cells back: every cell of its run can be
  reserved again, it resolves no position any more, and the others resolve what they did.
\<close>

lemma release_frees_run:
  assumes "kv_reachable c" "seq_slot c s = Some a" "no_reader c s" "release_seq c s = (c', n)"
  shows "n = sl_cap a \<and> all_free (occupied c') (sl_start a) (sl_cap a) \<and> (\<forall>p. cell_of c' s p = None) \<and>
    (\<forall>t p. t \<noteq> s \<longrightarrow> cell_of c' t p = cell_of c t p)"
proof -
  note wf = kv_reachable_wf [OF assms(1)]
  have M: "map_of (kv_seqs c) s = Some a" using assms(2) by (simp add: seq_slot_def)
  have wf': "kv_wf c'" using kv_wf_release_seq [OF wf, of s] assms(4) by simp
  have c': "n = sl_cap a" "map_of (kv_seqs c') = (map_of (kv_seqs c))(s := None)" "kv_n_ctx c' = kv_n_ctx c"
    using assms(4) by (auto simp: release_seq_some [OF M])
  have "i \<notin> run_of b \<union> prefix_of b" if "map_of (kv_seqs c) t = Some b" "t \<noteq> s" "i \<in> run_of a" for t b i
    using seqs_okD(2) [OF kv_wfD(5) [OF wf] M that(1)] that assms(3) M kv_wfD(2) [OF wf]
    by (auto simp: no_reader_def list_all_iff simp flip: bt_mem_iff)
  then have "\<not> occupied c' ! i" if "i < kv_n_ctx c'" "i \<in> run_of a" for i
    using occupied_iff [OF kv_wfD(3,4) [OF wf'] that(1)] c'(2) that(2) by (auto split: if_splits)
  then have "all_free (occupied c') (sl_start a) (sl_cap a)"
    using kv_wfD(7) [OF wf M] c'(3) by (simp add: all_free_def run_of_def slot_ok_def)
  then show ?thesis
    using c' by (simp add: cell_of_slot [OF kv_wfD(4) [OF wf]] cell_of_slot [OF kv_wfD(4) [OF wf']])
qed

lemma release_frees_run_witness:
  "all_free (occupied demo4) 4 2 \<and> cell_of demo4 1 0 = None \<and> cell_of demo4 2 3 = cell_of demo3 2 3"
proof -
  have "seq_slot demo3 1 = Some (slot_new 4 2)" "no_reader demo3 1" "snd (release_seq demo3 1) = 2" by code_simp+
  moreover from this(3) have "release_seq demo3 1 = (demo4, 2)" by (simp add: demo4_def prod_eq_iff)
  ultimately show ?thesis
    using release_frees_run [OF demo3_reachable, of 1 "slot_new 4 2" demo4 2] by (simp add: slot_new_def)
qed

text \<open>
  What the guard of a release is for. When the owner of a shared prefix is released while
  a sharer lives, the next compaction moves the sharer's own run onto the prefix it reads: two
  positions of one sequence then name one cell.
\<close>

lemma released_donor_clobbers_sharer:
  "(let c = fst (release_seq (fst (release_seq demo3 0)) 1);
        c' = fst (apply_moves c (compaction_plan c None))
    in cell_of c 2 0 \<noteq> cell_of c 2 2 \<and> snd (apply_moves c (compaction_plan c None)) = Ok 2 \<and>
       cell_of c' 2 0 = Some 0 \<and> cell_of c' 2 2 = Some 0)"
  by code_simp

end
