(* ===== verification/Batch.thy ===== *)
theory Batch
  imports Kv_Cache
begin

text \<open>
  The composition of one forward (\<open>src/graph/batch.rs\<close>): the tokens with their positions and
  sequences, the runs of one sequence, the rows whose logits are wanted, and the check that a
  sequence's tokens are contiguous.
\<close>

section \<open>Data and operations\<close>

record Batch =
  b_tokens :: "nat list"
  b_positions :: "nat list"
  b_seq_ids :: "SeqId list"

datatype batch_error =
    BatchLengths nat nat nat
  | BatchEmpty
  | BatchInterleaved "SeqId list"

definition batch_single :: "nat list \<Rightarrow> nat list \<Rightarrow> Batch" where
  "batch_single tokens positions =
     \<lparr>b_tokens = tokens, b_positions = positions, b_seq_ids = replicate (length tokens) SEQ_MAIN\<rparr>"

definition batch_new :: "nat list \<Rightarrow> nat list \<Rightarrow> SeqId list \<Rightarrow> Batch" where
  "batch_new tokens positions seq_ids =
     \<lparr>b_tokens = tokens, b_positions = positions, b_seq_ids = seq_ids\<rparr>"

definition batch_len :: "Batch \<Rightarrow> nat" where
  "batch_len b = length (b_tokens b)"

definition seqs_step :: "SeqId list \<Rightarrow> SeqId \<Rightarrow> SeqId list" where
  "seqs_step out s = (if s \<in> set out then out else out @ [s])"

definition batch_seqs :: "Batch \<Rightarrow> SeqId list" where
  "batch_seqs b = foldl seqs_step [] (b_seq_ids b)"

definition n_seqs :: "Batch \<Rightarrow> nat" where
  "n_seqs b = length (batch_seqs b)"

text \<open>\<open>last_mut\<close>: the last run grows by the token, or a new run starts at it.\<close>

definition groups_step ::
  "(SeqId \<times> nat \<times> nat) list \<Rightarrow> nat \<times> SeqId \<Rightarrow> (SeqId \<times> nat \<times> nat) list" where
  "groups_step out = (\<lambda>(t, s).
     if out \<noteq> [] \<and> fst (last out) = s
     then butlast out @ [(s, fst (snd (last out)), t + 1)]
     else out @ [(s, t, t + 1)])"

definition batch_groups :: "Batch \<Rightarrow> (SeqId \<times> nat \<times> nat) list" where
  "batch_groups b = foldl groups_step [] (zip [0..<length (b_seq_ids b)] (b_seq_ids b))"

definition out_rows :: "Batch \<Rightarrow> nat \<Rightarrow> nat list" where
  "out_rows b n_out =
     (if n_seqs b \<le> 1
      then map as_u32 [batch_len b - n_out ..< batch_len b]
      else map (\<lambda>(_, _, to). as_u32 (to - 1)) (batch_groups b))"

definition batch_check :: "Batch \<Rightarrow> (batch_error, unit) res" where
  "batch_check b =
     (if length (b_positions b) \<noteq> length (b_tokens b) \<or> length (b_seq_ids b) \<noteq> length (b_tokens b)
      then Err (BatchLengths (length (b_tokens b)) (length (b_positions b)) (length (b_seq_ids b)))
      else if length (b_tokens b) = 0 then Err BatchEmpty
      else if length (batch_groups b) \<noteq> n_seqs b then Err (BatchInterleaved (map fst (batch_groups b)))
      else Ok ())"

section \<open>Runs\<close>

definition runs_of :: "SeqId list \<Rightarrow> (SeqId \<times> nat \<times> nat) list" where
  "runs_of xs = foldl groups_step [] (zip [0..<length xs] xs)"

lemma runs_of_snoc: "runs_of (xs @ [s]) = groups_step (runs_of xs) (length xs, s)"
  by (simp add: runs_of_def zip_append)

lemma runs_of_Nil [simp]: "runs_of [] = []"
  by (simp add: runs_of_def)

lemma remdups_adj_snoc:
  "remdups_adj (xs @ [s]) = (if xs \<noteq> [] \<and> last xs = s then remdups_adj xs else remdups_adj xs @ [s])"
  by (induction xs rule: remdups_adj.induct) auto

lemma runs_of_fst: "map fst (runs_of xs) = remdups_adj xs"
proof (induction xs rule: rev_induct)
  case (snoc s xs)
  have ne: "runs_of xs \<noteq> [] \<longleftrightarrow> xs \<noteq> []"
    using snoc by (metis map_is_Nil_conv remdups_adj_Nil_iff)
  have "fst (last (runs_of xs)) = last xs" if "xs \<noteq> []"
    using snoc that ne by (metis last_map last_remdups_adj)
  moreover have "map fst (butlast (runs_of xs)) @ [last xs] = remdups_adj xs" if "xs \<noteq> []"
    using snoc that ne by (metis append_butlast_last_id last_remdups_adj map_butlast remdups_adj_Nil_iff)
  ultimately show ?case
    using snoc ne by (auto simp: runs_of_snoc groups_step_def remdups_adj_snoc)
qed simp

text \<open>The runs cover the tokens in order, each with one sequence.\<close>

definition run_in :: "SeqId list \<Rightarrow> SeqId \<times> nat \<times> nat \<Rightarrow> bool" where
  "run_in xs = (\<lambda>(s, f, t). f < t \<and> t \<le> length xs \<and> (\<forall>i. f \<le> i \<longrightarrow> i < t \<longrightarrow> xs ! i = s))"

definition run_rows :: "(SeqId \<times> nat \<times> nat) list \<Rightarrow> nat list" where
  "run_rows rs = concat (map (\<lambda>(s, f, t). [f..<t]) rs)"

lemma run_in_snoc: "run_in xs r \<Longrightarrow> run_in (xs @ [s]) r"
  by (auto simp: run_in_def nth_append split: prod.splits)

lemma runs_of_cover:
  "run_rows (runs_of xs) = [0..<length xs] \<and> (\<forall>r \<in> set (runs_of xs). run_in xs r) \<and>
   (xs \<noteq> [] \<longrightarrow> snd (snd (last (runs_of xs))) = length xs)"
proof (induction xs rule: rev_induct)
  case (snoc s xs)
  let ?R = "runs_of xs"
  show ?case
  proof (cases "?R \<noteq> [] \<and> fst (last ?R) = s")
    case True
    obtain l f t where l: "last ?R = (l, f, t)" by (cases "last ?R")
    have "xs \<noteq> []" using True by auto
    then have t: "t = length xs" and ls: "l = s" using snoc l True by auto
    have R: "?R = butlast ?R @ [(s, f, length xs)]" using True l t by (metis append_butlast_last_id fst_conv)
    have new: "runs_of (xs @ [s]) = butlast ?R @ [(s, f, length xs + 1)]"
      using True l by (simp add: runs_of_snoc groups_step_def)
    have "(s, f, length xs) \<in> set ?R" by (subst R) simp
    then have last: "run_in xs (s, f, length xs)" using snoc by blast
    then have "run_in (xs @ [s]) (s, f, length xs + 1)"
      by (auto simp: run_in_def nth_append less_Suc_eq)
    moreover have "run_rows (butlast ?R) @ [f..<length xs] = [0..<length xs]"
      using snoc by (subst (asm) R) (simp add: run_rows_def)
    then have "run_rows (runs_of (xs @ [s])) = [0..<length (xs @ [s])]"
      using last by (simp add: new run_rows_def run_in_def flip: append_assoc)
    moreover have "run_in (xs @ [s]) r" if "r \<in> set (butlast ?R)" for r
      using snoc run_in_snoc in_set_butlastD [OF that] by blast
    ultimately show ?thesis by (auto simp: new)
  next
    case False
    then have new: "runs_of (xs @ [s]) = ?R @ [(s, length xs, length xs + 1)]"
      by (auto simp: runs_of_snoc groups_step_def)
    have "run_in (xs @ [s]) (s, length xs, length xs + 1)" by (auto simp: run_in_def less_Suc_eq)
    then show ?thesis using snoc run_in_snoc by (auto simp: new run_rows_def)
  qed
qed (simp add: run_rows_def)

definition contiguous :: "SeqId list \<Rightarrow> bool" where
  "contiguous xs \<longleftrightarrow> (\<forall>i j k. i < j \<longrightarrow> j < k \<longrightarrow> k < length xs \<longrightarrow> xs ! i = xs ! k \<longrightarrow> xs ! j = xs ! i)"

lemma seqs_step_foldl:
  "distinct out \<Longrightarrow> distinct (foldl seqs_step out xs) \<and> set (foldl seqs_step out xs) = set out \<union> set xs"
  by (induction xs arbitrary: out) (auto simp: seqs_step_def)

lemma batch_seqs_distinct: "distinct (batch_seqs b)" "set (batch_seqs b) = set (b_seq_ids b)"
  using seqs_step_foldl [of "[]" "b_seq_ids b"] by (auto simp: batch_seqs_def)

lemma n_seqs_card: "n_seqs b = card (set (b_seq_ids b))"
  using batch_seqs_distinct [of b] by (metis distinct_card n_seqs_def)

lemma groups_eq_seqs: "length (batch_groups b) = n_seqs b \<longleftrightarrow> distinct (remdups_adj (b_seq_ids b))"
proof -
  have "length (batch_groups b) = length (remdups_adj (b_seq_ids b))"
    using runs_of_fst [of "b_seq_ids b"] by (metis batch_groups_def length_map runs_of_def)
  then show ?thesis
    by (metis card_distinct distinct_card n_seqs_card remdups_adj_set)
qed


lemma contiguous_Cons2:
  "contiguous (x # y # xs) \<longleftrightarrow> contiguous (y # xs) \<and> (x = y \<or> x \<notin> set (y # xs))"
proof
  assume c: "contiguous (x # y # xs)"
  have "contiguous (y # xs)"
    unfolding contiguous_def
  proof (intro allI impI)
    fix i j k assume "i < j" "j < k" "k < length (y # xs)" "(y # xs) ! i = (y # xs) ! k"
    then show "(y # xs) ! j = (y # xs) ! i"
      using c [unfolded contiguous_def, rule_format, of "Suc i" "Suc j" "Suc k"] by simp
  qed
  moreover have "x = y" if x: "x \<in> set (y # xs)"
  proof -
    obtain k where "k < length (y # xs)" "(y # xs) ! k = x" using x by (metis in_set_conv_nth)
    then show ?thesis
      using c [unfolded contiguous_def, rule_format, of 0 1 "Suc k"] by (cases k) auto
  qed
  ultimately show "contiguous (y # xs) \<and> (x = y \<or> x \<notin> set (y # xs))" by blast
next
  assume h: "contiguous (y # xs) \<and> (x = y \<or> x \<notin> set (y # xs))"
  show "contiguous (x # y # xs)"
    unfolding contiguous_def
  proof (intro allI impI)
    fix i j k assume a: "i < j" "j < k" "k < length (x # y # xs)" "(x # y # xs) ! i = (x # y # xs) ! k"
    then obtain j' k' where jk: "j = Suc j'" "k = Suc k'" "j' < k'" "k' < length (y # xs)"
      by (cases j; cases k) auto
    show "(x # y # xs) ! j = (x # y # xs) ! i"
    proof (cases i)
      case 0
      then have "x = (y # xs) ! k'" using a(4) jk by simp
      then have "x = y" using h jk(4) by (metis nth_mem)
      then show ?thesis
        using h [THEN conjunct1, unfolded contiguous_def, rule_format, of 0 j' k'] 0 jk \<open>x = (y # xs) ! k'\<close>
        by (cases j') auto
    next
      case (Suc i')
      then show ?thesis
        using h [THEN conjunct1, unfolded contiguous_def, rule_format, of i' j' k'] a jk by simp
    qed
  qed
qed

lemma distinct_remdups_adj: "distinct (remdups_adj xs) \<longleftrightarrow> contiguous xs"
proof (induction xs rule: remdups_adj.induct)
  case (3 x y xs)
  then show ?case by (auto simp: contiguous_Cons2)
qed (auto simp: contiguous_def)

lemma batch_check_ok:
  "batch_check b = Ok () \<longleftrightarrow> length (b_positions b) = length (b_tokens b) \<and>
     length (b_seq_ids b) = length (b_tokens b) \<and> b_tokens b \<noteq> [] \<and> contiguous (b_seq_ids b)"
  using groups_eq_seqs [of b] by (auto simp: batch_check_def distinct_remdups_adj)

lemma batch_groups_runs: "batch_groups b = runs_of (b_seq_ids b)"
  by (simp add: batch_groups_def runs_of_def)

text \<open>In a checked batch of several sequences the rows wanted are the last rows of the sequences.\<close>

lemma row_in_run:
  assumes "i < length xs"
  obtains s f t where "(s, f, t) \<in> set (runs_of xs)" "f \<le> i" "i < t" "xs ! i = s"
proof -
  have "i \<in> set (run_rows (runs_of xs))" using runs_of_cover [of xs] assms by simp
  then obtain s f t where r: "(s, f, t) \<in> set (runs_of xs)" "f \<le> i" "i < t"
    by (auto simp: run_rows_def)
  then have "xs ! i = s" using runs_of_cover [of xs] by (fastforce simp: run_in_def)
  then show ?thesis using r that by blast
qed

lemma last_row_of_run:
  assumes "contiguous xs" "(s, f, t) \<in> set (runs_of xs)"
  shows "t - 1 < length xs" "xs ! (t - 1) = s" "\<forall>i. t \<le> i \<longrightarrow> i < length xs \<longrightarrow> xs ! i \<noteq> s"
proof -
  have r: "run_in xs (s, f, t)" using assms(2) runs_of_cover [of xs] by blast
  then show "t - 1 < length xs" "xs ! (t - 1) = s" by (auto simp: run_in_def)
  have d: "distinct (map fst (runs_of xs))" using assms(1) by (simp add: runs_of_fst distinct_remdups_adj)
  show "\<forall>i. t \<le> i \<longrightarrow> i < length xs \<longrightarrow> xs ! i \<noteq> s"
  proof (intro allI impI notI)
    fix i assume i: "t \<le> i" "i < length xs" "xs ! i = s"
    from row_in_run [OF i(2)] obtain s' f' t' where
      r': "(s', f', t') \<in> set (runs_of xs)" "i < t'" "xs ! i = s'" .
    then have "(f', t') = (f, t)" using d assms(2) i(3) r' by (metis eq_key_imp_eq_value)
    then show False using i(1) r'(2) by simp
  qed
qed

lemma sorted_run_ends: "sorted_wrt (<) (map (\<lambda>(s, f, t). t - 1) (runs_of xs))"
proof -
  have "sorted_wrt (<) (map (\<lambda>(s, f, t). t - 1) rs)"
    if "run_rows rs = [a..<b]" "\<forall>(s, f, t) \<in> set rs. f < t" for a b rs
    using that
  proof (induction rs arbitrary: a)
    case (Cons r rs)
    obtain s f t where r: "r = (s, f, t)" by (cases r)
    have e: "[f..<t] @ run_rows rs = [a..<b]" using Cons.prems(1) by (simp add: run_rows_def r)
    have ft: "f < t" using Cons.prems(2) r by auto
    have "length ([f..<t] @ run_rows rs) = b - a" using e by simp
    then have "take (t - f) [a..<b] = [f..<t]" "drop (t - f) [a..<b] = run_rows rs"
      using e by (metis append_eq_conv_conj length_upt)+
    moreover have "[f..<t] @ run_rows rs \<noteq> []" "hd ([f..<t] @ run_rows rs) = f" using ft by (simp_all add: upt_conv_Cons)
    then have "f = a" unfolding e by simp
    ultimately have rr: "run_rows rs = [t..<b]" using ft by simp
    have "t - 1 < t' - 1" if "(s', f', t') \<in> set rs" for s' f' t'
    proof -
      have "f' < t'" using that Cons.prems(2) by auto
      then have "f' \<in> set (run_rows rs)" using that by (force simp: run_rows_def)
      then have "t \<le> f'" using rr by simp
      then show ?thesis using \<open>f' < t'\<close> ft by linarith
    qed
    moreover have "sorted_wrt (<) (map (\<lambda>(s, f, t). t - 1) rs)" using Cons rr by auto
    ultimately show ?case by (auto simp: r)
  qed simp
  moreover have "\<forall>(s, f, t) \<in> set (runs_of xs). f < t" using runs_of_cover [of xs] by (auto simp: run_in_def)
  ultimately show ?thesis using runs_of_cover [of xs] by blast
qed

section \<open>Properties\<close>

text \<open>
  \<open>Batch::check\<close> accepts a batch exactly when its three vectors have one length, which is
  not zero, and every token between two tokens of one sequence belongs to that sequence.
\<close>

lemma batch_check_contiguous:
  "batch_check b = Ok () \<longleftrightarrow> length (b_positions b) = length (b_tokens b) \<and>
     length (b_seq_ids b) = length (b_tokens b) \<and> b_tokens b \<noteq> [] \<and>
     (\<forall>i j k. i < j \<longrightarrow> j < k \<longrightarrow> k < length (b_seq_ids b) \<longrightarrow>
        b_seq_ids b ! i = b_seq_ids b ! k \<longrightarrow> b_seq_ids b ! j = b_seq_ids b ! i)"
  using batch_check_ok [of b] by (simp add: contiguous_def)

lemma batch_check_contiguous_witness:
  "batch_check (batch_new [9, 8, 7] [0, 4, 5] [1, 2, 2]) = Ok ()"
  by (subst batch_check_contiguous) (auto simp: batch_new_def less_Suc_eq)

text \<open>
  In a checked batch of several sequences \<open>out_rows\<close> gives ascending rows, one for each
  sequence, and each is the last row of its sequence.
\<close>

lemma out_rows_last_of_each:
  assumes "batch_check b = Ok ()" "1 < n_seqs b" "batch_len b \<le> 2 ^ 32"
  shows "sorted_wrt (<) (out_rows b n_out) \<and> length (out_rows b n_out) = n_seqs b \<and>
    set (out_rows b n_out) = {i. i < batch_len b \<and>
      (\<forall>j. i < j \<longrightarrow> j < batch_len b \<longrightarrow> b_seq_ids b ! j \<noteq> b_seq_ids b ! i)}"
proof -
  let ?xs = "b_seq_ids b"
  have ok: "length ?xs = batch_len b" "contiguous ?xs" and len: "length (runs_of ?xs) = n_seqs b"
    using assms(1) groups_eq_seqs [of b] by (auto simp: batch_check_ok batch_len_def distinct_remdups_adj batch_groups_runs)
  have "as_u32 (t - 1) = t - 1" if "(s, f, t) \<in> set (runs_of ?xs)" for s f t
    using last_row_of_run(1) [OF ok(2) that] ok(1) assms(3) by (intro as_u32_small) linarith
  then have "map (\<lambda>(_, _, t). as_u32 (t - 1)) (runs_of ?xs) = map (\<lambda>(s, f, t). t - 1) (runs_of ?xs)"
    by (auto simp: map_eq_conv)
  then have out: "out_rows b n_out = map (\<lambda>(s, f, t). t - 1) (runs_of ?xs)"
    using assms(2) by (simp add: out_rows_def batch_groups_runs)
  have "i \<in> set (out_rows b n_out) \<longleftrightarrow> i < batch_len b \<and>
      (\<forall>j. i < j \<longrightarrow> j < batch_len b \<longrightarrow> ?xs ! j \<noteq> ?xs ! i)" for i
  proof
    assume "i \<in> set (out_rows b n_out)"
    then obtain s f t where r: "(s, f, t) \<in> set (runs_of ?xs)" "i = t - 1" by (auto simp: out)
    note L = last_row_of_run [OF ok(2) r(1)]
    then show "i < batch_len b \<and> (\<forall>j. i < j \<longrightarrow> j < batch_len b \<longrightarrow> ?xs ! j \<noteq> ?xs ! i)"
      using r(2) ok(1) by (metis Suc_pred' bot_nat_0.not_eq_extremum diff_0_eq_0 less_Suc_eq_le not_less_eq)
  next
    assume i: "i < batch_len b \<and> (\<forall>j. i < j \<longrightarrow> j < batch_len b \<longrightarrow> ?xs ! j \<noteq> ?xs ! i)"
    then obtain s f t where r: "(s, f, t) \<in> set (runs_of ?xs)" "f \<le> i" "i < t" "?xs ! i = s"
      using row_in_run [of i ?xs] ok(1) by metis
    note L = last_row_of_run [OF ok(2) r(1)]
    have "i = t - 1"
    proof (rule ccontr)
      assume "i \<noteq> t - 1"
      then have "i < t - 1" using r(3) by linarith
      then show False using i L(1,2) ok(1) r(4) by simp
    qed
    then show "i \<in> set (out_rows b n_out)" using r(1) by (force simp: out)
  qed
  then have "set (out_rows b n_out) = {i. i < batch_len b \<and>
      (\<forall>j. i < j \<longrightarrow> j < batch_len b \<longrightarrow> ?xs ! j \<noteq> ?xs ! i)}" by blast
  moreover have "sorted_wrt (<) (out_rows b n_out)" "length (out_rows b n_out) = n_seqs b"
    using sorted_run_ends [of ?xs] len by (simp_all add: out)
  ultimately show ?thesis by blast
qed

lemma out_rows_last_of_each_witness:
  "1 < n_seqs (batch_new [9, 8, 7] [0, 4, 5] [1, 2, 2]) \<and>
   set (out_rows (batch_new [9, 8, 7] [0, 4, 5] [1, 2, 2]) 1) = {i. i < batch_len (batch_new [9, 8, 7] [0, 4, 5] [1, 2, 2]) \<and>
      (\<forall>j. i < j \<longrightarrow> j < batch_len (batch_new [9, 8, 7] [0, 4, 5] [1, 2, 2]) \<longrightarrow>
         b_seq_ids (batch_new [9, 8, 7] [0, 4, 5] [1, 2, 2]) ! j \<noteq> b_seq_ids (batch_new [9, 8, 7] [0, 4, 5] [1, 2, 2]) ! i)}"
proof -
  have "batch_check (batch_new [9, 8, 7] [0, 4, 5] [1, 2, 2]) = Ok ()" by code_simp
  moreover have "1 < n_seqs (batch_new [9, 8, 7] [0, 4, 5] [1, 2, 2])" by code_simp
  moreover have "batch_len (batch_new [9, 8, 7] [0, 4, 5] [1, 2, 2]) \<le> 2 ^ 32" by code_simp
  ultimately show ?thesis using out_rows_last_of_each by blast
qed

end
