(* ===== verification/Alloc_Plan.thy ===== *)
theory Alloc_Plan
  imports Prelude
begin

text \<open>
  Size classes and the memory budget of the graph allocator (\<open>src/graph/allocplan.rs\<close>), and
  the width of a cached row in each storage format (\<open>src/graph/kvformat.rs\<close>).
\<close>

section \<open>Size classes\<close>

definition CLASS_MIN :: nat where
  "CLASS_MIN = 256"

definition CLASS_GRAIN :: nat where
  "CLASS_GRAIN = 4096"

text \<open>\<open>usize::next_power_of_two\<close>: the first power of two from \<open>p\<close> on that is at least \<open>n\<close>.\<close>

function npot :: "nat \<Rightarrow> nat \<Rightarrow> nat" where
  "npot p n = (if n \<le> p \<or> p = 0 then p else npot (2 * p) n)"
  by auto
termination by (relation "measure (\<lambda>(p, n). n - p)") auto

declare npot.simps [simp del]

definition next_power_of_two :: "nat \<Rightarrow> nat" where
  "next_power_of_two n = npot 1 n"

definition div_ceil :: "nat \<Rightarrow> nat \<Rightarrow> nat" where
  "div_ceil a b = a div b + (if a mod b = 0 then 0 else 1)"

text \<open>Products are of 64-bit words.\<close>

definition class_size :: "nat \<Rightarrow> nat" where
  "class_size elems0 =
     (let elems = max elems0 1 in
      if elems \<le> CLASS_MIN then CLASS_MIN
      else if elems \<le> CLASS_GRAIN then next_power_of_two elems
      else (div_ceil elems CLASS_GRAIN * CLASS_GRAIN) mod 2 ^ 64)"

definition class_bytes :: "nat \<Rightarrow> nat" where
  "class_bytes elems = (elems * 4) mod 2 ^ 64"

lemma npot_spec: "0 < p \<Longrightarrow> p \<le> n \<Longrightarrow> n \<le> npot p n \<and> npot p n < 2 * n \<and> (\<exists>k. npot p n = p * 2 ^ k)"
proof (induction p n rule: npot.induct)
  case (1 p n)
  show ?case
  proof (cases "n \<le> p \<or> p = 0")
    case True
    then have "npot p n = p" by (simp add: npot.simps)
    then show ?thesis using 1 True by (auto intro: exI [of _ 0])
  next
    case False
    then have step: "npot p n = npot (2 * p) n" by (simp add: npot.simps)
    show ?thesis
    proof (cases "2 * p \<le> n")
      case True
      then obtain k where "n \<le> npot (2 * p) n" "npot (2 * p) n < 2 * n" "npot (2 * p) n = 2 * p * 2 ^ k"
        using 1 False by auto
      then show ?thesis using step by (auto intro: exI [of _ "Suc k"])
    next
      case big: False
      then have "npot (2 * p) n = 2 * p" by (subst npot.simps) simp
      then show ?thesis using step big False by (auto intro: exI [of _ 1])
    qed
  qed
qed

lemma npot_fix: "npot p (p * 2 ^ k) = p * 2 ^ k"
proof (induction k arbitrary: p)
  case 0
  then show ?case by (simp add: npot.simps)
next
  case (Suc k)
  show ?case
  proof (cases "p = 0")
    case True
    then show ?thesis by (simp add: npot.simps)
  next
    case False
    have "p < p * 2 ^ Suc k" using False one_less_power [of "2 :: nat" "Suc k"] by simp
    then have "npot p (p * 2 ^ Suc k) = npot (2 * p) (2 * p * 2 ^ k)"
      using False by (subst npot.simps) (simp add: mult.assoc mult.left_commute)
    then show ?thesis using Suc by simp
  qed
qed

lemma next_power_of_two_spec:
  assumes "0 < n"
  obtains k where "next_power_of_two n = 2 ^ k" "n \<le> 2 ^ k" "(2::nat) ^ k < 2 * n"
  using npot_spec [of 1 n] assms by (auto simp: next_power_of_two_def)

lemma div_ceil_bounds:
  assumes "0 < b"
  shows "a \<le> div_ceil a b * b" "div_ceil a b * b < a + b"
proof -
  have e: "a = a div b * b + a mod b" "a mod b < b" using assms by simp_all
  have "div_ceil a b * b = a div b * b + (if a mod b = 0 then 0 else b)"
    by (simp add: div_ceil_def)
  then have d: "a mod b = 0 \<and> div_ceil a b * b = a div b * b \<or> a mod b \<noteq> 0 \<and> div_ceil a b * b = a div b * b + b"
    by (simp split: if_splits)
  show "a \<le> div_ceil a b * b" using d e by linarith
  show "div_ceil a b * b < a + b" using d e assms by linarith
qed

lemma div_ceil_fix: "0 < b \<Longrightarrow> div_ceil (k * b) b = k"
  by (simp add: div_ceil_def)

lemma class_size_small: "e \<le> CLASS_MIN \<Longrightarrow> class_size e = CLASS_MIN"
  by (simp add: class_size_def CLASS_MIN_def max_def)

lemma class_size_mid:
  assumes "CLASS_MIN < e" "e \<le> CLASS_GRAIN"
  obtains k where "class_size e = 2 ^ k" "e \<le> 2 ^ k" "(2::nat) ^ k < 2 * e" "k \<le> 12"
proof -
  have "class_size e = next_power_of_two e"
    using assms by (simp add: class_size_def CLASS_MIN_def max_def)
  moreover obtain k where k: "next_power_of_two e = 2 ^ k" "e \<le> 2 ^ k" "(2::nat) ^ k < 2 * e"
    using next_power_of_two_spec [of e] assms by (auto simp: CLASS_MIN_def)
  moreover have "k \<le> 12"
  proof (rule ccontr)
    assume "\<not> k \<le> 12"
    then have "(2::nat) ^ 13 \<le> 2 ^ k" by (intro power_increasing) auto
    then show False using k(3) assms(2) by (simp add: CLASS_GRAIN_def)
  qed
  ultimately show ?thesis using that by simp
qed

lemma class_size_big:
  assumes "CLASS_GRAIN < e" "e \<le> 2 ^ 64 - CLASS_GRAIN"
  shows "class_size e = div_ceil e CLASS_GRAIN * CLASS_GRAIN" "class_size e < e + CLASS_GRAIN" "e \<le> class_size e"
proof -
  have b: "e \<le> div_ceil e CLASS_GRAIN * CLASS_GRAIN" "div_ceil e CLASS_GRAIN * CLASS_GRAIN < e + CLASS_GRAIN"
    using div_ceil_bounds [of CLASS_GRAIN e] by (auto simp: CLASS_GRAIN_def)
  have "max e 1 = e" "\<not> e \<le> CLASS_MIN" "\<not> e \<le> CLASS_GRAIN"
    using assms(1) by (auto simp: CLASS_MIN_def CLASS_GRAIN_def)
  moreover have "div_ceil e CLASS_GRAIN * CLASS_GRAIN < 2 ^ 64" using b(2) assms(2) by (simp add: CLASS_GRAIN_def)
  ultimately show "class_size e = div_ceil e CLASS_GRAIN * CLASS_GRAIN"
    unfolding class_size_def Let_def by simp
  then show "class_size e < e + CLASS_GRAIN" "e \<le> class_size e" using b by auto
qed


section \<open>The budget\<close>

datatype DeviceMemory =
    Reported nat nat
  | QueryFailed int string
  | NoDevice

record BudgetDecision =
  bd_budget :: "nat option"
  bd_note :: "string option"

definition failure_note :: "DeviceMemory \<Rightarrow> string \<Rightarrow> string option" where
  "failure_note m what =
     (case m of
        QueryFailed code name \<Rightarrow>
          Some (what @ '' failed with '' @ name @ '' (code '' @ int_to_string code @ '')'')
      | Reported _ _ \<Rightarrow> None
      | NoDevice \<Rightarrow> None)"

definition USIZE_MAX :: nat where
  "USIZE_MAX = 2 ^ 64 - 1"

definition budget_decision :: "nat option \<Rightarrow> DeviceMemory \<Rightarrow> BudgetDecision" where
  "budget_decision explicit mem =
     (case explicit of
        Some b \<Rightarrow> \<lparr>bd_budget = Some b, bd_note = None\<rparr>
      | None \<Rightarrow>
          (case mem of
             Reported free _ \<Rightarrow> \<lparr>bd_budget = Some (free div 4 * 3), bd_note = None\<rparr>
           | QueryFailed code name \<Rightarrow>
               \<lparr>bd_budget = Some USIZE_MAX,
                bd_note = Some (''the device free-memory query failed with '' @ name @ '' (code '' @
                  int_to_string code @ ''); the E4 activation gate has no measured budget for this backend, so it charges weights only. The backend'' @ [CHR 0x27] @ ''s own allocation is now the authority and will report the real error if the context is unusable'')\<rparr>
           | NoDevice \<Rightarrow> \<lparr>bd_budget = None, bd_note = None\<rparr>))"

section \<open>Row widths\<close>

definition Q8_0_BLOCK :: nat where
  "Q8_0_BLOCK = 32"

definition Q8_0_BLOCK_BYTES :: nat where
  "Q8_0_BLOCK_BYTES = 34"

definition WORD_BYTES :: nat where
  "WORD_BYTES = 4"

datatype KvFormat = F32 | F16 | Q8_0

datatype Device = Cpu | Metal | Cuda

definition format_name :: "KvFormat \<Rightarrow> string" where
  "format_name f = (case f of F32 \<Rightarrow> ''f32'' | F16 \<Rightarrow> ''f16'' | Q8_0 \<Rightarrow> ''q8_0'')"

definition is_packed :: "KvFormat \<Rightarrow> bool" where
  "is_packed f = (f = Q8_0)"

definition row_elems :: "KvFormat \<Rightarrow> nat \<Rightarrow> nat" where
  "row_elems f nkt =
     (case f of F32 \<Rightarrow> nkt | F16 \<Rightarrow> nkt
      | Q8_0 \<Rightarrow> div_ceil (nkt div Q8_0_BLOCK * Q8_0_BLOCK_BYTES) WORD_BYTES)"

definition row_bytes :: "KvFormat \<Rightarrow> nat \<Rightarrow> nat" where
  "row_bytes f nkt = row_elems f nkt * WORD_BYTES"

definition payload_bytes :: "KvFormat \<Rightarrow> nat \<Rightarrow> nat" where
  "payload_bytes f nkt =
     (case f of F32 \<Rightarrow> nkt * WORD_BYTES | F16 \<Rightarrow> nkt * 2
      | Q8_0 \<Rightarrow> nkt div Q8_0_BLOCK * Q8_0_BLOCK_BYTES)"

datatype format_error = FormatWidth KvFormat nat | FormatUnknown string | FormatUnsupported KvFormat Device

definition check_width :: "KvFormat \<Rightarrow> nat \<Rightarrow> (format_error, unit) res" where
  "check_width f nkt =
     (if is_packed f \<and> (nkt = 0 \<or> nkt mod Q8_0_BLOCK \<noteq> 0) then Err (FormatWidth f nkt) else Ok ())"

text \<open>\<open>reads_packed\<close> is the backend registry's capability of the device.\<close>

definition format_supports :: "(Device \<Rightarrow> bool) \<Rightarrow> KvFormat \<Rightarrow> Device \<Rightarrow> bool" where
  "format_supports reads_packed f d = (case f of Q8_0 \<Rightarrow> reads_packed d | F32 \<Rightarrow> True | F16 \<Rightarrow> True)"

definition AUTO_F16_MIN_KV_ELEMS :: nat where
  "AUTO_F16_MIN_KV_ELEMS = 8192"

definition auto_device_format :: "Device \<Rightarrow> nat \<Rightarrow> nat \<Rightarrow> KvFormat" where
  "auto_device_format d n_layers n_kv_embd =
     (if d \<noteq> Cpu \<and> AUTO_F16_MIN_KV_ELEMS \<le> n_layers * n_kv_embd then F16 else F32)"

definition resolve_format ::
  "(Device \<Rightarrow> bool) \<Rightarrow> Device \<Rightarrow> string option \<Rightarrow> nat \<Rightarrow> nat \<Rightarrow> (format_error, KvFormat) res" where
  "resolve_format reads_packed d cache_type n_layers n_kv_embd =
     and_then
       (case cache_type of
          None \<Rightarrow> Ok (auto_device_format d n_layers n_kv_embd)
        | Some s \<Rightarrow>
            if s = [] then Ok (auto_device_format d n_layers n_kv_embd)
            else if s = ''f32'' then Ok F32
            else if s = ''f16'' then Ok F16
            else if s = ''q8_0'' then Ok Q8_0
            else Err (FormatUnknown s))
       (\<lambda>f0. let f = (if f0 = F16 \<and> d = Cpu then F32 else f0) in
             if format_supports reads_packed f d then Ok f else Err (FormatUnsupported f d))"

section \<open>Properties\<close>

text \<open>
  A size class is large enough and not too large: at least the request, 256 elements for
  a small one, less than twice a middle one and less than one grain above a large one; a class
  is its own class, so that a recycled buffer is found again.
\<close>

lemma class_size_bounds:
  assumes "e \<le> 2 ^ 64 - CLASS_GRAIN"
  shows "e \<le> class_size e \<and> class_size (class_size e) = class_size e \<and>
    (e \<le> CLASS_MIN \<longrightarrow> class_size e = CLASS_MIN) \<and>
    (CLASS_MIN < e \<and> e \<le> CLASS_GRAIN \<longrightarrow> class_size e < 2 * e) \<and>
    (CLASS_GRAIN < e \<longrightarrow> class_size e < e + CLASS_GRAIN)"
proof -
  consider "e \<le> CLASS_MIN" | "CLASS_MIN < e" "e \<le> CLASS_GRAIN" | "CLASS_GRAIN < e" by linarith
  then show ?thesis
  proof cases
    case 1
    then show ?thesis using class_size_small [of CLASS_MIN] by (simp add: class_size_small CLASS_GRAIN_def CLASS_MIN_def)
  next
    case 2
    then obtain k where k: "class_size e = 2 ^ k" "e \<le> 2 ^ k" "(2::nat) ^ k < 2 * e" "k \<le> 12"
      using class_size_mid by blast
    have "(2::nat) ^ k \<le> 2 ^ 12" using k(4) by (intro power_increasing) auto
    then have "class_size (2 ^ k) = next_power_of_two (2 ^ k)"
      using 2 k(2) by (auto simp: class_size_def CLASS_MIN_def CLASS_GRAIN_def max_def)
    then have "class_size (2 ^ k) = 2 ^ k" using npot_fix [of 1 k] by (simp add: next_power_of_two_def)
    then show ?thesis using 2 k by (simp add: CLASS_MIN_def CLASS_GRAIN_def)
  next
    case 3
    note B = class_size_big [OF 3 assms]
    have up: "class_size e \<le> 2 ^ 64 - CLASS_GRAIN"
    proof -
      have "div_ceil e CLASS_GRAIN * CLASS_GRAIN < (2 ^ 52) * CLASS_GRAIN"
        using B(1,2) assms by (simp add: CLASS_GRAIN_def)
      then have "div_ceil e CLASS_GRAIN \<le> 2 ^ 52 - 1" by (simp add: CLASS_GRAIN_def)
      then have "div_ceil e CLASS_GRAIN * CLASS_GRAIN \<le> (2 ^ 52 - 1) * CLASS_GRAIN" by (rule mult_le_mono1)
      then show ?thesis unfolding B(1) by (simp add: CLASS_GRAIN_def)
    qed
    have "CLASS_GRAIN < class_size e" using 3 B(3) by linarith
    then have "class_size (class_size e) = div_ceil (class_size e) CLASS_GRAIN * CLASS_GRAIN"
      using class_size_big(1) up by blast
    then have "class_size (class_size e) = class_size e"
      using B(1) div_ceil_fix [of CLASS_GRAIN "div_ceil e CLASS_GRAIN"] by (simp add: CLASS_GRAIN_def)
    then show ?thesis using 3 B by (simp add: CLASS_MIN_def CLASS_GRAIN_def)
  qed
qed

lemma class_size_bounds_witness:
  "5000 \<le> class_size 5000 \<and> class_size (class_size 5000) = class_size 5000 \<and> class_size 5000 < 5000 + CLASS_GRAIN"
  using class_size_bounds [of 5000] by (simp add: CLASS_GRAIN_def)

text \<open>
  The words of a row hold its payload, a packed row with less than one word of padding;
  and a width \<open>check_width\<close> accepts for the packed format is a whole number of blocks, in
  fewer bytes than one word per element.
\<close>

lemma row_elems_hold_payload:
  "payload_bytes f nkt \<le> row_bytes f nkt \<and>
   (f = Q8_0 \<longrightarrow> row_bytes f nkt < payload_bytes f nkt + WORD_BYTES) \<and>
   (check_width Q8_0 nkt = Ok () \<longrightarrow>
      nkt div Q8_0_BLOCK * Q8_0_BLOCK = nkt \<and> row_bytes Q8_0 nkt < row_bytes F32 nkt)"
proof -
  have q: "nkt div Q8_0_BLOCK * Q8_0_BLOCK_BYTES \<le> row_bytes Q8_0 nkt"
    "row_bytes Q8_0 nkt < nkt div Q8_0_BLOCK * Q8_0_BLOCK_BYTES + WORD_BYTES"
    using div_ceil_bounds [of WORD_BYTES "nkt div Q8_0_BLOCK * Q8_0_BLOCK_BYTES"]
    by (simp_all add: row_bytes_def row_elems_def WORD_BYTES_def)
  have "nkt div Q8_0_BLOCK * Q8_0_BLOCK = nkt \<and> row_bytes Q8_0 nkt < row_bytes F32 nkt"
    if "check_width Q8_0 nkt = Ok ()"
  proof -
    from that have w: "0 < nkt" "nkt mod Q8_0_BLOCK = 0"
      by (auto simp: check_width_def is_packed_def split: if_splits)
    define k where "k = nkt div Q8_0_BLOCK"
    have k: "nkt = k * Q8_0_BLOCK" using w(2) by (auto simp: k_def)
    then have "0 < k" using w(1) by (cases k) auto
    have "row_bytes Q8_0 nkt < k * 34 + 4" using q(2) k by (simp add: Q8_0_BLOCK_def Q8_0_BLOCK_BYTES_def WORD_BYTES_def)
    moreover have "row_bytes F32 nkt = k * 128"
      using k by (simp add: row_bytes_def row_elems_def Q8_0_BLOCK_def WORD_BYTES_def)
    ultimately show ?thesis using k \<open>0 < k\<close> by (simp add: Q8_0_BLOCK_def)
  qed
  moreover have "payload_bytes f nkt \<le> row_bytes f nkt"
    using q(1) by (cases f) (simp_all add: payload_bytes_def row_bytes_def row_elems_def WORD_BYTES_def)
  moreover have "f = Q8_0 \<longrightarrow> row_bytes f nkt < payload_bytes f nkt + WORD_BYTES"
    using q(2) by (simp add: payload_bytes_def)
  ultimately show ?thesis by blast
qed

lemma row_elems_hold_payload_witness:
  "payload_bytes Q8_0 128 = 136 \<and> row_bytes Q8_0 128 = 136 \<and> row_bytes Q8_0 128 < row_bytes F32 128"
proof -
  have "check_width Q8_0 128 = Ok ()" by code_simp
  moreover have "payload_bytes Q8_0 128 = 136 \<and> row_bytes Q8_0 128 = 136" by code_simp
  ultimately show ?thesis using row_elems_hold_payload [of Q8_0 128] by simp
qed

end
