(* ===== verification/Graph_IR.thy ===== *)
theory Graph_IR
  imports Prelude
begin

text \<open>
  The compute graph (\<open>src/graph/mod.rs\<close>, \<open>src/graph/ops.rs\<close>): operators, nodes, graphs, and
  the topological order of \<open>topo_order\<close>, with the proof that it finds an order exactly for
  the graphs the builder makes.
\<close>

section \<open>Nodes\<close>

type_synonym Backend = nat
type_synonym NodeId = nat

definition CPU :: Backend where
  "CPU = 0"

definition METAL :: Backend where
  "METAL = 1"

definition CUDA :: Backend where
  "CUDA = 2"

datatype AttnMode = Mha | Gqa | Flash

datatype RopeStyle = NonInterleaved | Interleaved

text \<open>A float of an operator is its bit pattern.\<close>

datatype Op =
    Input
  | Add | Mul | Scale nat | Silu
  | Softmax nat
  | RmsNorm nat | QkNorm nat nat nat
  | MatMul bool
  | GetRows
  | RoPE RopeStyle
  | Attn AttnMode bool
  | KvcacheStore nat | KvcacheLoad nat
  | View nat "nat list" | Reshape "nat list" | Permute "nat list"
  | SwiGLU | BatchMatMul | FusedQKV nat | QkvBiasRopeStore nat | FusedFFN | FusedQkvNorm nat

text \<open>The parts of a node's meta data the allocator reads.\<close>

datatype NodeMeta =
    Kvcache nat nat
  | FusedQkv nat nat nat
  | FusedQkvNormM nat nat nat
  | QkvBiasRopeStoreM nat nat nat
  | OtherMeta

record ViewAlias =
  va_src :: NodeId
  va_offset :: nat

record CNode =
  cn_id :: NodeId
  cn_op :: Op
  cn_src :: "NodeId list"
  cn_shape :: "nat \<times> nat \<times> nat \<times> nat"
  cn_backend :: "Backend option"
  cn_meta :: NodeMeta
  cn_view :: "ViewAlias option"

record ComputeGraph =
  g_nodes :: "CNode list"
  g_inputs :: "NodeId list"
  g_outputs :: "NodeId list"

definition n_elements :: "CNode \<Rightarrow> nat" where
  "n_elements n = (case cn_shape n of (a, b, c, d) \<Rightarrow> a * b * c * d)"

definition is_input :: "CNode \<Rightarrow> bool" where
  "is_input n = (cn_op n = Input)"

definition n_nodes :: "ComputeGraph \<Rightarrow> nat" where
  "n_nodes g = length (g_nodes g)"

definition g_node :: "ComputeGraph \<Rightarrow> NodeId \<Rightarrow> CNode" where
  "g_node g i = g_nodes g ! i"

abbreviation srcs :: "ComputeGraph \<Rightarrow> NodeId \<Rightarrow> NodeId list" where
  "srcs g i \<equiv> cn_src (g_node g i)"

section \<open>Topological order\<close>

datatype topo_error = NodeIdRange nat | SrcRange nat nat | CycleDetected nat nat

text \<open>The in-degrees: one for every distinct source of a node, checked on the way.\<close>

fun count_srcs :: "nat \<Rightarrow> NodeId \<Rightarrow> NodeId list \<Rightarrow> NodeId list \<Rightarrow> nat list \<Rightarrow> (topo_error, nat list) res" where
  "count_srcs n i seen [] indeg = Ok indeg"
| "count_srcs n i seen (s # ss) indeg =
     (if n \<le> s then Err (SrcRange i s)
      else count_srcs n i (seen @ [s]) ss (if s \<in> set seen then indeg else indeg[i := indeg ! i + 1]))"

fun count_indeg :: "nat \<Rightarrow> CNode list \<Rightarrow> nat list \<Rightarrow> (topo_error, nat list) res" where
  "count_indeg n [] indeg = Ok indeg"
| "count_indeg n (c # cs) indeg =
     (if n \<le> cn_id c then Err (NodeIdRange (cn_id c))
      else and_then (count_srcs n (cn_id c) [] (cn_src c) indeg) (count_indeg n cs))"

text \<open>Releasing \<open>u\<close>: the decrement wraps as a 64-bit word does.\<close>

definition release_step :: "ComputeGraph \<Rightarrow> NodeId \<Rightarrow> NodeId \<Rightarrow> nat list \<times> NodeId list \<Rightarrow> nat list \<times> NodeId list" where
  "release_step g u v = (\<lambda>(indeg, queue).
     if u \<in> set (srcs g v)
     then (let d = (indeg ! v + (2 ^ 64 - 1)) mod 2 ^ 64 in
           (indeg[v := d], if d = 0 then queue @ [v] else queue))
     else (indeg, queue))"

text \<open>
  The loop over the queue; \<open>fuel\<close> bounds the number of nodes taken from it. A node enters the
  queue once, so \<open>n\<close> rounds and the last look at the empty queue are enough.
\<close>

fun kahn_loop :: "nat \<Rightarrow> ComputeGraph \<Rightarrow> nat list \<Rightarrow> NodeId list \<Rightarrow> nat \<Rightarrow> NodeId list option" where
  "kahn_loop 0 g indeg queue qi = None"
| "kahn_loop (Suc fuel) g indeg queue qi =
     (if qi < length queue
      then (let (indeg', queue') = fold (release_step g (queue ! qi)) [0..<n_nodes g] (indeg, queue)
            in kahn_loop fuel g indeg' queue' (qi + 1))
      else Some (take qi queue))"

definition topo_order :: "ComputeGraph \<Rightarrow> (topo_error, NodeId list) res option" where
  "topo_order g =
     (let n = n_nodes g in
      case count_indeg n (g_nodes g) (replicate n 0) of
        Inl e \<Rightarrow> Some (Err e)
      | Inr indeg \<Rightarrow>
          map_option
            (\<lambda>order. if length order \<noteq> n then Err (CycleDetected (length order) n) else Ok order)
            (kahn_loop (n + 1) g indeg (filter (\<lambda>i. indeg ! i = 0) [0..<n]) 0))"

section \<open>The order is right\<close>

definition numbered :: "ComputeGraph \<Rightarrow> bool" where
  "numbered g \<longleftrightarrow> (\<forall>i < n_nodes g. cn_id (g_node g i) = i) \<and> n_nodes g < 2 ^ 64"

definition preds :: "ComputeGraph \<Rightarrow> NodeId \<Rightarrow> NodeId set" where
  "preds g v = set (srcs g v)"

lemma count_srcs_ok:
  assumes "\<forall>s \<in> set ss. s < n" "i < length indeg"
  shows "count_srcs n i seen ss indeg = Ok (indeg[i := indeg ! i + card (set ss - set seen)])"
  using assms
proof (induction ss arbitrary: seen indeg)
  case (Cons s ss)
  show ?case
  proof (cases "s \<in> set seen")
    case True
    then have e: "set (s # ss) - set seen = set ss - set (seen @ [s])" by auto
    have "count_srcs n i seen (s # ss) indeg = count_srcs n i (seen @ [s]) ss indeg"
      using Cons.prems True by simp
    then show ?thesis unfolding e using Cons.IH [of indeg "seen @ [s]"] Cons.prems by simp
  next
    case False
    then have "set (s # ss) - set seen = insert s (set ss - set (seen @ [s]))" by auto
    then have e: "card (set (s # ss) - set seen) = Suc (card (set ss - set (seen @ [s])))" by simp
    have "count_srcs n i seen (s # ss) indeg = count_srcs n i (seen @ [s]) ss (indeg[i := indeg ! i + 1])"
      using Cons.prems False by simp
    then show ?thesis
      unfolding e using Cons.IH [of "indeg[i := indeg ! i + 1]" "seen @ [s]"] Cons.prems by simp
  qed
qed simp

lemma count_srcs_err: "s \<in> set ss \<Longrightarrow> n \<le> s \<Longrightarrow> \<not> is_ok (count_srcs n i seen ss indeg)"
  by (induction ss arbitrary: seen indeg) auto

lemma count_indeg_ok:
  assumes "\<And>j. j < length cs \<Longrightarrow> cn_id (cs ! j) = k + j \<and> (\<forall>s \<in> set (cn_src (cs ! j)). s < n)"
    "k + length cs \<le> n" "length indeg = n" "\<And>j. k \<le> j \<Longrightarrow> j < n \<Longrightarrow> indeg ! j = 0"
  shows "\<exists>indeg'. count_indeg n cs indeg = Ok indeg' \<and> length indeg' = n \<and>
    (\<forall>j < n. indeg' ! j = (if k \<le> j \<and> j < k + length cs then card (set (cn_src (cs ! (j - k)))) else indeg ! j))"
  using assms
proof (induction cs arbitrary: k indeg)
  case (Cons c cs)
  have c: "cn_id c = k" "\<forall>s \<in> set (cn_src c). s < n" "k < n" using Cons.prems(1) [of 0] Cons.prems(2) by auto
  let ?i = "indeg[k := card (set (cn_src c))]"
  have 1: "count_srcs n k [] (cn_src c) indeg = Ok ?i"
    using count_srcs_ok [OF c(2), of k indeg "[]"] Cons.prems(3,4) c(3) by simp
  have "\<exists>indeg'. count_indeg n cs ?i = Ok indeg' \<and> length indeg' = n \<and>
    (\<forall>j < n. indeg' ! j = (if Suc k \<le> j \<and> j < Suc k + length cs then card (set (cn_src (cs ! (j - Suc k)))) else ?i ! j))"
  proof (rule Cons.IH)
    show "cn_id (cs ! j) = Suc k + j \<and> (\<forall>s \<in> set (cn_src (cs ! j)). s < n)" if "j < length cs" for j
      using Cons.prems(1) [of "Suc j"] that by simp
  qed (use Cons.prems in auto)
  then obtain indeg' where i: "count_indeg n cs ?i = Ok indeg'" "length indeg' = n"
    "\<And>j. j < n \<Longrightarrow> indeg' ! j = (if Suc k \<le> j \<and> j < Suc k + length cs then card (set (cn_src (cs ! (j - Suc k)))) else ?i ! j)"
    by blast
  have "indeg' ! j = (if k \<le> j \<and> j < k + length (c # cs) then card (set (cn_src ((c # cs) ! (j - k)))) else indeg ! j)"
    if "j < n" for j
  proof (cases "k < j")
    case True
    then have "(c # cs) ! (j - k) = cs ! (j - Suc k)" by (simp add: nth_Cons')
    then show ?thesis using i(3) [OF that] True by auto
  next
    case False
    then show ?thesis using i(3) [OF that] Cons.prems(3) c(3) that by (cases "j = k") auto
  qed
  then show ?case using 1 c i by auto
qed auto

lemma wrap_pred: "0 < d \<Longrightarrow> d < 2 ^ 64 \<Longrightarrow> (d + (2 ^ 64 - 1)) mod 2 ^ 64 = d - (1::nat)"
proof -
  assume d: "0 < d" "d < 2 ^ 64"
  then have "d + (2 ^ 64 - 1) = (d - 1) + 2 ^ 64" by simp
  then show ?thesis using d by (metis diff_less less_trans mod_add_self2 mod_less zero_less_one)
qed

lemma release_fold:
  assumes "distinct vs" "\<And>v. v \<in> set vs \<Longrightarrow> v < length indeg"
    "\<And>v. v \<in> set vs \<Longrightarrow> u \<in> preds g v \<Longrightarrow> 0 < indeg ! v \<and> indeg ! v < 2 ^ 64"
  shows "\<exists>indeg'. fold (release_step g u) vs (indeg, queue) =
      (indeg', queue @ filter (\<lambda>v. u \<in> preds g v \<and> indeg ! v = 1) vs) \<and> length indeg' = length indeg \<and>
    (\<forall>w < length indeg. indeg' ! w = (if w \<in> set vs \<and> u \<in> preds g w then indeg ! w - 1 else indeg ! w))"
  using assms
proof (induction vs arbitrary: indeg queue)
  case (Cons v vs)
  let ?i = "if u \<in> preds g v then indeg[v := indeg ! v - 1] else indeg"
  let ?q = "queue @ filter (\<lambda>v. u \<in> preds g v \<and> indeg ! v = 1) [v]"
  have step: "release_step g u v (indeg, queue) = (?i, ?q)"
    using Cons.prems(3) [of v] wrap_pred [of "indeg ! v"] by (auto simp: release_step_def preds_def Let_def)
  have same: "?i ! w = indeg ! w" if "w \<noteq> v" for w using that by simp
  have notin: "v \<notin> set vs" using Cons.prems(1) by simp
  have "\<exists>indeg'. fold (release_step g u) vs (?i, ?q) =
      (indeg', ?q @ filter (\<lambda>v. u \<in> preds g v \<and> ?i ! v = 1) vs) \<and> length indeg' = length ?i \<and>
    (\<forall>w < length ?i. indeg' ! w = (if w \<in> set vs \<and> u \<in> preds g w then ?i ! w - 1 else ?i ! w))"
  proof (rule Cons.IH)
    show "distinct vs" using Cons.prems(1) by simp
    show "w < length ?i" if "w \<in> set vs" for w using Cons.prems(2) that by simp
    show "0 < ?i ! w \<and> ?i ! w < 2 ^ 64" if "w \<in> set vs" "u \<in> preds g w" for w
      using Cons.prems(3) [of w] that notin same [of w] by (metis list.set_intros(2))
  qed
  moreover have "filter (\<lambda>v. u \<in> preds g v \<and> ?i ! v = 1) vs = filter (\<lambda>v. u \<in> preds g v \<and> indeg ! v = 1) vs"
    using notin same by (intro filter_cong refl) metis
  ultimately obtain indeg' where i': "fold (release_step g u) vs (?i, ?q) =
      (indeg', ?q @ filter (\<lambda>v. u \<in> preds g v \<and> indeg ! v = 1) vs)" "length indeg' = length indeg"
    "\<And>w. w < length indeg \<Longrightarrow> indeg' ! w = (if w \<in> set vs \<and> u \<in> preds g w then ?i ! w - 1 else ?i ! w)"
    by auto
  have "indeg' ! w = (if w \<in> set (v # vs) \<and> u \<in> preds g w then indeg ! w - 1 else indeg ! w)"
    if "w < length indeg" for w
    using i'(3) [OF that] notin same [of w] that by (cases "w = v") auto
  then show ?case using step i' by (intro exI [of _ indeg']) auto
qed simp

definition kahn_inv :: "ComputeGraph \<Rightarrow> nat list \<Rightarrow> NodeId list \<Rightarrow> nat \<Rightarrow> bool" where
  "kahn_inv g indeg queue qi \<longleftrightarrow> qi \<le> length queue \<and> length indeg = n_nodes g \<and> distinct queue \<and>
     (\<forall>v \<in> set queue. v < n_nodes g) \<and>
     (\<forall>v < n_nodes g. indeg ! v = card (preds g v - set (take qi queue))) \<and>
     (\<forall>v < n_nodes g. v \<in> set queue \<longleftrightarrow> indeg ! v = 0) \<and>
     (\<forall>j < length queue. preds g (queue ! j) \<subseteq> set (take j queue))"

definition srcs_in_range :: "ComputeGraph \<Rightarrow> bool" where
  "srcs_in_range g \<longleftrightarrow> (\<forall>v < n_nodes g. preds g v \<subseteq> {0..<n_nodes g})"

lemma finite_preds [simp]: "finite (preds g v)"
  by (simp add: preds_def)

lemma card_preds: "srcs_in_range g \<Longrightarrow> v < n_nodes g \<Longrightarrow> card (preds g v - A) \<le> n_nodes g"
  using card_mono [of "{0..<n_nodes g}" "preds g v - A"] by (auto simp: srcs_in_range_def)

lemma kahn_step:
  assumes "numbered g" "srcs_in_range g" "kahn_inv g indeg queue qi" "qi < length queue"
    "fold (release_step g (queue ! qi)) [0..<n_nodes g] (indeg, queue) = (indeg', queue')"
  shows "kahn_inv g indeg' queue' (qi + 1)"
proof -
  let ?u = "queue ! qi" and ?n = "n_nodes g" and ?P = "set (take qi queue)"
  have inv: "length indeg = ?n" "distinct queue" "\<forall>v \<in> set queue. v < ?n"
    "\<And>v. v < ?n \<Longrightarrow> indeg ! v = card (preds g v - ?P)" "\<And>v. v < ?n \<Longrightarrow> v \<in> set queue \<longleftrightarrow> indeg ! v = 0"
    "\<And>j. j < length queue \<Longrightarrow> preds g (queue ! j) \<subseteq> set (take j queue)"
    using assms(3) by (auto simp: kahn_inv_def)
  have unew: "?u \<notin> ?P" using inv(2) assms(4) by (metis in_set_conv_nth length_take less_not_refl min_less_iff_conj nth_eq_iff_index_eq nth_take order_less_trans)
  have P': "set (take (qi + 1) queue) = insert ?u ?P" using assms(4) by (simp add: take_Suc_conv_app_nth)
  have pos: "0 < indeg ! v \<and> indeg ! v < 2 ^ 64" if "v < ?n" "?u \<in> preds g v" for v
  proof -
    have "?u \<in> preds g v - ?P" using that unew by simp
    then have "0 < card (preds g v - ?P)" by (metis card_gt_0_iff empty_iff finite_Diff finite_preds)
    then show ?thesis using inv(4) [OF that(1)] card_preds [OF assms(2) that(1), of ?P] assms(1) by (simp add: numbered_def)
  qed
  from release_fold [of "[0..<?n]" indeg ?u g queue] pos inv(1) assms(5) have
    q': "queue' = queue @ filter (\<lambda>v. ?u \<in> preds g v \<and> indeg ! v = 1) [0..<?n]" and len: "length indeg' = ?n"
    and i': "\<And>w. w < ?n \<Longrightarrow> indeg' ! w = (if ?u \<in> preds g w then indeg ! w - 1 else indeg ! w)"
    by auto
  have tk: "take (qi + 1) queue' = take (qi + 1) queue" using assms(4) by (simp add: q')
  have deg: "indeg' ! w = card (preds g w - insert ?u ?P)" if "w < ?n" for w
  proof (cases "?u \<in> preds g w")
    case True
    then have "preds g w - insert ?u ?P = preds g w - ?P - {?u}" by blast
    then show ?thesis using True i' [OF that] inv(4) [OF that] unew by (simp add: card_Diff_singleton)
  next
    case False
    then have "preds g w - insert ?u ?P = preds g w - ?P" by blast
    then show ?thesis using False i' [OF that] inv(4) [OF that] by simp
  qed
  have mem: "v \<in> set queue' \<longleftrightarrow> indeg' ! v = 0" if "v < ?n" for v
    using inv(5) [OF that] i' [OF that] pos [OF that] that by (auto simp: q')
  have dis: "distinct queue'"
    using inv(2) inv(5) by (auto simp: q')
  have pre: "preds g (queue' ! j) \<subseteq> set (take j queue')" if j: "j < length queue'" for j
  proof (cases "j < length queue")
    case True
    then show ?thesis using inv(6) by (simp add: q' nth_append)
  next
    case False
    let ?new = "filter (\<lambda>v. ?u \<in> preds g v \<and> indeg ! v = 1) [0..<?n]"
    have "queue' ! j = ?new ! (j - length queue)" "j - length queue < length ?new"
      using False j unfolding q' by (simp_all only: nth_append if_False length_append)
    then have "queue' ! j \<in> set ?new" by (metis nth_mem)
    then have v: "queue' ! j < ?n" "indeg' ! (queue' ! j) = 0" using i' by auto
    then have "preds g (queue' ! j) \<subseteq> insert ?u ?P" using deg [OF v(1)] by (simp add: Diff_eq_empty_iff)
    also have "\<dots> = set (take (qi + 1) queue')" using P' tk by simp
    also have "\<dots> \<subseteq> set (take j queue')" using False assms(4) by (intro set_take_subset_set_take) simp
    finally show ?thesis .
  qed
  show ?thesis
    unfolding kahn_inv_def
  proof (intro conjI)
    show "qi + 1 \<le> length queue'" using assms(4) by (simp add: q')
    show "\<forall>v \<in> set queue'. v < ?n" using inv(3) by (auto simp: q')
    show "\<forall>v < ?n. indeg' ! v = card (preds g v - set (take (qi + 1) queue'))" using deg P' tk by simp
  qed (use len dis mem pre in auto)
qed

lemma kahn_loop_inv:
  assumes "numbered g" "srcs_in_range g" "kahn_inv g indeg queue qi" "n_nodes g < fuel + qi"
  shows "\<exists>indeg' order. kahn_loop fuel g indeg queue qi = Some order \<and> kahn_inv g indeg' order (length order)"
  using assms(3,4)
proof (induction fuel arbitrary: indeg queue qi)
  case 0
  have "length queue \<le> n_nodes g"
  proof -
    have "card (set queue) \<le> card {0..<n_nodes g}" using 0 by (intro card_mono) (auto simp: kahn_inv_def)
    then show ?thesis using 0 by (simp add: kahn_inv_def distinct_card)
  qed
  then show ?case using 0 by (auto simp: kahn_inv_def)
next
  case (Suc fuel)
  show ?case
  proof (cases "qi < length queue")
    case True
    obtain i q where iq: "fold (release_step g (queue ! qi)) [0..<n_nodes g] (indeg, queue) = (i, q)" by (cases "fold (release_step g (queue ! qi)) [0..<n_nodes g] (indeg, queue)")
    from kahn_step [OF assms(1,2) Suc.prems(1) True iq] Suc.IH [of i q "qi + 1"] Suc.prems(2)
    show ?thesis using True iq by auto
  next
    case False
    then have "qi = length queue" using Suc.prems by (simp add: kahn_inv_def)
    then show ?thesis using Suc.prems by auto
  qed
qed

definition topological :: "ComputeGraph \<Rightarrow> NodeId list \<Rightarrow> bool" where
  "topological g order \<longleftrightarrow> distinct order \<and> set order = {0..<n_nodes g} \<and>
     (\<forall>j < length order. preds g (order ! j) \<subseteq> set (take j order))"

lemma kahn_complete:
  assumes "kahn_inv g indeg order (length order)" "topological g o'"
  shows "set order = {0..<n_nodes g}"
proof -
  have "o' ! j \<in> set order" if "j < length o'" for j
    using that
  proof (induction j rule: less_induct)
    case (less j)
    have "preds g (o' ! j) \<subseteq> set (take j o')" "o' ! j < n_nodes g"
      using assms(2) less.prems by (auto simp: topological_def dest: nth_mem)
    moreover have "set (take j o') \<subseteq> set order"
      using less by (auto simp: in_set_conv_nth)
    ultimately have "preds g (o' ! j) - set order = {}" "o' ! j < n_nodes g" by blast+
    then show ?case using assms(1) by (simp add: kahn_inv_def)
  qed
  then have "{0..<n_nodes g} \<subseteq> set order" using assms(2) by (metis in_set_conv_nth subsetI topological_def)
  moreover have "set order \<subseteq> {0..<n_nodes g}" using assms(1) by (auto simp: kahn_inv_def)
  ultimately show ?thesis by blast
qed

lemma kahn_init:
  assumes "length indeg = n_nodes g" "\<And>v. v < n_nodes g \<Longrightarrow> indeg ! v = card (preds g v)"
  shows "kahn_inv g indeg (filter (\<lambda>i. indeg ! i = 0) [0..<n_nodes g]) 0"
proof -
  have "preds g v = {}" if "v \<in> set (filter (\<lambda>i. indeg ! i = 0) [0..<n_nodes g])" for v
    using that assms(2) by auto
  then have "preds g (filter (\<lambda>i. indeg ! i = 0) [0..<n_nodes g] ! j) = {}"
    if "j < length (filter (\<lambda>i. indeg ! i = 0) [0..<n_nodes g])" for j
    using that nth_mem by blast
  then show ?thesis using assms by (auto simp: kahn_inv_def)
qed

lemma topological_length: "topological g order \<Longrightarrow> length order = n_nodes g"
  by (metis card_atLeastLessThan diff_zero distinct_card topological_def)

lemma topological_range: "topological g order \<Longrightarrow> srcs_in_range g"
proof -
  assume t: "topological g order"
  have "preds g v \<subseteq> {0..<n_nodes g}" if "v < n_nodes g" for v
  proof -
    have "v \<in> set order" using t that by (simp add: topological_def)
    then obtain j where "j < length order" "order ! j = v" by (auto simp: in_set_conv_nth)
    then show ?thesis using t set_take_subset [of j order] by (force simp: topological_def)
  qed
  then show ?thesis by (simp add: srcs_in_range_def)
qed

lemma count_indeg_numbered:
  assumes "numbered g" "srcs_in_range g"
  shows "\<exists>indeg. count_indeg (n_nodes g) (g_nodes g) (replicate (n_nodes g) 0) = Ok indeg \<and>
    length indeg = n_nodes g \<and> (\<forall>v < n_nodes g. indeg ! v = card (preds g v))"
  using count_indeg_ok [of "g_nodes g" 0 "n_nodes g" "replicate (n_nodes g) 0"] assms
  by (fastforce simp: numbered_def srcs_in_range_def preds_def n_nodes_def g_node_def)

section \<open>Properties\<close>

text \<open>
  C33: on a graph whose nodes are numbered by their place, \<open>topo_order\<close> returns; it gives an
  order exactly when one exists, and the order it gives lists every node once, each after all
  its sources.
\<close>

theorem topo_order_correct:
  assumes "numbered g"
  shows "\<exists>r. topo_order g = Some r \<and> (is_ok r \<longleftrightarrow> (\<exists>order. topological g order)) \<and>
    (\<forall>order. r = Ok order \<longrightarrow> topological g order)"
proof (cases "srcs_in_range g")
  case True
  from count_indeg_numbered [OF assms True] obtain indeg where
    i: "count_indeg (n_nodes g) (g_nodes g) (replicate (n_nodes g) 0) = Ok indeg" "length indeg = n_nodes g"
      "\<And>v. v < n_nodes g \<Longrightarrow> indeg ! v = card (preds g v)" by blast
  from kahn_loop_inv [OF assms True kahn_init [OF i(2,3)], of "n_nodes g + 1"] obtain indeg' order where
    k: "kahn_loop (n_nodes g + 1) g indeg (filter (\<lambda>i. indeg ! i = 0) [0..<n_nodes g]) 0 = Some order"
      "kahn_inv g indeg' order (length order)" by auto
  have top: "topological g order" if "length order = n_nodes g"
  proof -
    have "set order \<subseteq> {0..<n_nodes g}" "distinct order" using k(2) by (auto simp: kahn_inv_def)
    then have "set order = {0..<n_nodes g}" using that by (simp add: card_subset_eq distinct_card)
    then show ?thesis using k(2) by (simp add: topological_def kahn_inv_def)
  qed
  have "length order = n_nodes g" if "topological g o'" for o'
    using kahn_complete [OF k(2) that] k(2) by (simp add: kahn_inv_def flip: distinct_card)
  then show ?thesis using i(1) k(1) top by (auto simp: topo_order_def Let_def)
next
  case False
  have "\<not> is_ok (count_indeg n cs indeg)" if "c \<in> set cs" "s \<in> set (cn_src c)" "n \<le> s" for n cs c s indeg
    using that
  proof (induction cs arbitrary: indeg)
    case (Cons a cs)
    then show ?case
      using count_srcs_err [of s "cn_src a" n "cn_id a" "[]" indeg]
      by (cases "count_srcs n (cn_id a) [] (cn_src a) indeg") auto
  qed simp
  moreover obtain v s where "v < n_nodes g" "s \<in> set (srcs g v)" "n_nodes g \<le> s"
    using False by (auto simp: srcs_in_range_def preds_def) (meson not_le)
  ultimately have "\<not> is_ok (count_indeg (n_nodes g) (g_nodes g) (replicate (n_nodes g) 0))"
    by (metis g_node_def n_nodes_def nth_mem)
  then obtain e where "count_indeg (n_nodes g) (g_nodes g) (replicate (n_nodes g) 0) = Err e"
    by (cases "count_indeg (n_nodes g) (g_nodes g) (replicate (n_nodes g) 0)") auto
  then show ?thesis using False topological_range by (auto simp: topo_order_def Let_def)
qed

definition demo_node :: "NodeId \<Rightarrow> Op \<Rightarrow> NodeId list \<Rightarrow> CNode" where
  "demo_node i op src = \<lparr>cn_id = i, cn_op = op, cn_src = src, cn_shape = (4, 1, 1, 1),
     cn_backend = None, cn_meta = OtherMeta, cn_view = None\<rparr>"

definition demo_graph :: ComputeGraph where
  "demo_graph = \<lparr>g_nodes = [demo_node 0 Input [], demo_node 1 Silu [0], demo_node 2 Add [1, 1], demo_node 3 Mul [2, 0]],
     g_inputs = [0], g_outputs = [3]\<rparr>"

theorem topo_order_correct_witness:
  "\<exists>r. topo_order demo_graph = Some r \<and> (is_ok r \<longleftrightarrow> (\<exists>order. topological demo_graph order)) \<and>
    (\<forall>order. r = Ok order \<longrightarrow> topological demo_graph order)"
proof (rule topo_order_correct)
  show "numbered demo_graph"
    by (auto simp: numbered_def n_nodes_def g_node_def demo_graph_def demo_node_def less_Suc_eq nth_Cons')
qed

end
