(* ===== verification/Graph_Alloc.thy ===== *)
theory Graph_Alloc
  imports Kv_Cache Alloc_Plan Graph_IR
begin

text \<open>
  The liveness allocator of \<open>src/graph/alloc.rs\<close>: backend pools (\<open>CpuBackend\<close>'s buffers and
  free list), the reservation table of idle class-sized buffers, the budget gate, and
  \<open>alloc_graph\<close>, which walks a graph in build order and gives every node a buffer, a window
  of its parent's, or its input's own buffer. The device pools follow the same discipline as
  the CPU's and are modelled by it. The error-injection hook \<open>testfail::guard\<close> and the staging
  buffers of split boundaries are left out.
\<close>

section \<open>Pools\<close>

record Pool =
  p_lens :: "nat list"
  p_free :: "nat list"
  p_weights :: nat

fun position :: "('a \<Rightarrow> bool) \<Rightarrow> 'a list \<Rightarrow> nat option" where
  "position P [] = None"
| "position P (x # xs) = (if P x then Some 0 else map_option Suc (position P xs))"

text \<open>\<open>Vec::swap_remove\<close>: the last element takes the place of the removed one.\<close>

definition swap_remove :: "'a list \<Rightarrow> nat \<Rightarrow> 'a list" where
  "swap_remove xs i = butlast (xs[i := last xs])"

definition alloc_buffer :: "Pool \<Rightarrow> nat \<Rightarrow> Pool \<times> nat" where
  "alloc_buffer p sz =
     (case position (\<lambda>i. p_lens p ! i = sz) (p_free p) of
        Some idx \<Rightarrow> (p\<lparr>p_free := swap_remove (p_free p) idx\<rparr>, p_free p ! idx)
      | None \<Rightarrow> (p\<lparr>p_lens := p_lens p @ [sz]\<rparr>, length (p_lens p)))"

definition free_buffer :: "Pool \<Rightarrow> nat \<Rightarrow> Pool" where
  "free_buffer p i = (if i \<in> set (p_free p) then p else p\<lparr>p_free := p_free p @ [i]\<rparr>)"

definition pool_len :: "Pool \<Rightarrow> nat" where
  "pool_len p = length (p_lens p)"

definition alloc_fresh :: "Pool \<Rightarrow> nat \<Rightarrow> Pool \<times> nat" where
  "alloc_fresh p sz = (p\<lparr>p_lens := p_lens p @ [sz]\<rparr>, length (p_lens p))"

section \<open>The allocator\<close>

record GraphAllocator =
  ga_pools :: "(Backend, Pool) btree"
  ga_node_to_buf :: "(NodeId, BufRef) btree"
  ga_buf_alive :: "(Backend \<times> nat, nat) btree"
  ga_buf_bytes :: "(Backend \<times> nat, nat) btree"
  ga_slots :: "(Backend \<times> nat, nat list) btree"
  ga_buf_class :: "(Backend \<times> nat, nat) btree"
  ga_pool_bytes :: "(Backend, nat) btree"
  ga_live_bytes :: "(Backend, nat) btree"
  ga_peak_bytes :: "(Backend, nat) btree"
  ga_budget :: "(Backend, nat) btree"
  ga_kv :: KvCache
  ga_persistent :: "(string \<times> Backend \<times> nat) list"

datatype alloc_error =
    OutOfMemory Backend nat nat nat nat
  | ViewNoParent NodeId NodeId
  | ViewCrossBackend NodeId Backend NodeId Backend
  | ViewMetalPartial NodeId nat nat nat
  | ViewRange NodeId nat nat NodeId nat
  | InPlaceNoSrc NodeId
  | KvWidth format_error
  | KvNoPackedKernel nat Backend
  | KvRowElems nat nat nat nat
  | KvElemsChanged nat nat nat
  | KvBackendChanged nat Backend Backend
  | KvPackedChanged nat bool bool
  | AllocTopo topo_error
  | AllocPanic

definition lookup_or :: "'v \<Rightarrow> ('k, 'v) btree \<Rightarrow> 'k \<Rightarrow> 'v" where
  "lookup_or d m k = (case map_of m k of None \<Rightarrow> d | Some v \<Rightarrow> v)"

definition pool_len_of :: "GraphAllocator \<Rightarrow> Backend \<Rightarrow> nat" where
  "pool_len_of ga b = (case map_of (ga_pools ga) b of None \<Rightarrow> 0 | Some p \<Rightarrow> pool_len p)"

definition weights_bytes :: "GraphAllocator \<Rightarrow> Backend \<Rightarrow> nat" where
  "weights_bytes ga b = (case map_of (ga_pools ga) b of None \<Rightarrow> 0 | Some p \<Rightarrow> p_weights p)"

text \<open>\<open>mem\<close> is the answer of the device's memory query.\<close>

definition memory_budget :: "DeviceMemory \<Rightarrow> GraphAllocator \<Rightarrow> Backend \<Rightarrow> nat option" where
  "memory_budget mem ga b =
     bd_budget (budget_decision (map_of (ga_budget ga) b) (if b = CPU then NoDevice else mem))"

definition alloc_exact_in_pool :: "GraphAllocator \<Rightarrow> Backend \<Rightarrow> nat \<Rightarrow> GraphAllocator \<times> (alloc_error, nat) res" where
  "alloc_exact_in_pool ga b sz =
     (case map_of (ga_pools ga) b of
        None \<Rightarrow> (ga, Err AllocPanic)
      | Some p \<Rightarrow> (let (p', i) = alloc_buffer p sz in
                   (ga\<lparr>ga_pools := bt_insert b p' (ga_pools ga)\<rparr>, Ok i)))"

text \<open>Assign an idle buffer of the class, the smallest id first, or reserve a new one.\<close>

definition alloc_class_in_pool :: "GraphAllocator \<Rightarrow> Backend \<Rightarrow> nat \<Rightarrow> GraphAllocator \<times> (alloc_error, nat) res" where
  "alloc_class_in_pool ga b sz =
     (let class = class_size sz in
      case map_of (ga_slots ga) (b, class) of
        Some (i # idle) \<Rightarrow> (ga\<lparr>ga_slots := bt_insert (b, class) idle (ga_slots ga)\<rparr>, Ok i)
      | _ \<Rightarrow> alloc_exact_in_pool ga b class)"

text \<open>The part of \<open>alloc_in_pool\<close> after the budget gate.\<close>

definition alloc_charged ::
  "GraphAllocator \<Rightarrow> Backend \<Rightarrow> nat \<Rightarrow> nat \<Rightarrow> GraphAllocator \<times> (alloc_error, nat) res" where
  "alloc_charged ga b sz want =
     (let len0 = pool_len_of ga b in
      case alloc_class_in_pool ga b sz of
        (ga1, Inl e) \<Rightarrow> (ga1, Err e)
      | (ga1, Inr i) \<Rightarrow>
          (let live = lookup_or 0 (ga_live_bytes ga1) b + want;
               peak = max (lookup_or 0 (ga_peak_bytes ga1) b) live
           in (ga1\<lparr>ga_buf_bytes := bt_insert (b, i) want (ga_buf_bytes ga1),
                   ga_buf_class := bt_insert (b, i) (class_size sz) (ga_buf_class ga1),
                   ga_pool_bytes := (if len0 < pool_len_of ga1 b
                     then bt_insert b (lookup_or 0 (ga_pool_bytes ga1) b + want) (ga_pool_bytes ga1)
                     else ga_pool_bytes ga1),
                   ga_live_bytes := bt_insert b live (ga_live_bytes ga1),
                   ga_peak_bytes := bt_insert b peak (ga_peak_bytes ga1)\<rparr>, Ok i)))"

definition alloc_in_pool ::
  "DeviceMemory \<Rightarrow> GraphAllocator \<Rightarrow> Backend \<Rightarrow> nat \<Rightarrow> GraphAllocator \<times> (alloc_error, nat) res" where
  "alloc_in_pool mem ga b sz =
     (let want = class_bytes (class_size sz);
          pool = lookup_or 0 (ga_pool_bytes ga) b;
          weights = weights_bytes ga b
      in case memory_budget mem ga b of
           Some budget \<Rightarrow>
             if budget < pool + weights + want then (ga, Err (OutOfMemory b weights pool want budget))
             else alloc_charged ga b sz want
         | None \<Rightarrow> alloc_charged ga b sz want)"

text \<open>A classed buffer goes back to the reservation table, an exact one to its pool.\<close>

definition free_in_pool :: "GraphAllocator \<Rightarrow> Backend \<times> nat \<Rightarrow> GraphAllocator" where
  "free_in_pool ga key =
     (let ga1 = (case map_of (ga_buf_bytes ga) key of
                   None \<Rightarrow> ga
                 | Some bytes \<Rightarrow>
                     ga\<lparr>ga_buf_bytes := bt_remove key (ga_buf_bytes ga),
                        ga_live_bytes := bt_insert (fst key)
                          (lookup_or 0 (ga_live_bytes ga) (fst key) - bytes) (ga_live_bytes ga)\<rparr>)
      in case map_of (ga_buf_class ga1) key of
           Some class \<Rightarrow>
             ga1\<lparr>ga_buf_class := bt_remove key (ga_buf_class ga1),
                 ga_slots := bt_insert (fst key, class)
                   (insort_insert (snd key) (lookup_or [] (ga_slots ga1) (fst key, class))) (ga_slots ga1)\<rparr>
         | None \<Rightarrow>
             (case map_of (ga_pools ga1) (fst key) of
                None \<Rightarrow> ga1
              | Some p \<Rightarrow> ga1\<lparr>ga_pools := bt_insert (fst key) (free_buffer p (snd key)) (ga_pools ga1)\<rparr>))"

definition sweep :: "GraphAllocator \<Rightarrow> nat \<Rightarrow> GraphAllocator" where
  "sweep ga i =
     fold (\<lambda>key ga. free_in_pool (ga\<lparr>ga_buf_alive := bt_remove key (ga_buf_alive ga)\<rparr>) key)
       (map fst (filter (\<lambda>(_, al). al < i) (ga_buf_alive ga))) ga"

section \<open>Persistent regions\<close>

definition alloc_persistent ::
  "GraphAllocator \<Rightarrow> string \<Rightarrow> Backend \<Rightarrow> nat \<Rightarrow> GraphAllocator \<times> (alloc_error, BufRef) res" where
  "alloc_persistent ga name b sz =
     (case alloc_exact_in_pool ga b sz of
        (ga1, Inl e) \<Rightarrow> (ga1, Err e)
      | (ga1, Inr i) \<Rightarrow>
          (ga1\<lparr>ga_persistent := ga_persistent ga1 @ [(name, b, i)]\<rparr>, Ok (bufref_own b i sz)))"

text \<open>The two checks of a packed region; \<open>reads_packed\<close> is the registry's capability.\<close>

definition check_packed ::
  "(Backend \<Rightarrow> bool) \<Rightarrow> nat \<Rightarrow> Backend \<Rightarrow> nat \<Rightarrow> nat \<Rightarrow> (alloc_error, unit) res" where
  "check_packed reads_packed layer b n_embd row_elems0 =
     (if row_elems0 \<noteq> n_embd
      then (case check_width Q8_0 n_embd of
              Inl e \<Rightarrow> Err (KvWidth e)
            | Inr _ \<Rightarrow>
                if \<not> reads_packed b then Err (KvNoPackedKernel layer b)
                else if row_elems0 \<noteq> row_elems Q8_0 n_embd
                  then Err (KvRowElems layer row_elems0 n_embd (row_elems Q8_0 n_embd))
                else Ok ())
      else Ok ())"

definition kv_region_name :: "nat \<Rightarrow> string \<Rightarrow> string" where
  "kv_region_name layer part = ''kv.'' @ nat_to_string layer @ ''.'' @ part"

definition ensure_kv ::
  "(Backend \<Rightarrow> bool) \<Rightarrow> GraphAllocator \<Rightarrow> nat \<Rightarrow> Backend \<Rightarrow> nat \<Rightarrow> nat \<Rightarrow> nat \<Rightarrow>
   GraphAllocator \<times> (alloc_error, BufRef \<times> BufRef) res" where
  "ensure_kv reads_packed ga layer b n_embd row n_ctx =
     (case check_packed reads_packed layer b n_embd row of
        Inl e \<Rightarrow> (ga, Err e)
      | Inr _ \<Rightarrow>
          (let packed = (row \<noteq> n_embd); elems = row * n_ctx in
           case kv_get (ga_kv ga) layer of
             Some region \<Rightarrow>
               if kl_elems region \<noteq> elems then (ga, Err (KvElemsChanged layer (kl_elems region) elems))
               else if br_backend (kl_k region) \<noteq> b
                 then (ga, Err (KvBackendChanged layer (br_backend (kl_k region)) b))
               else if kl_packed region \<noteq> packed
                 then (ga, Err (KvPackedChanged layer (kl_packed region) packed))
               else (ga, Ok (kl_k region, kl_v region))
           | None \<Rightarrow>
               (case alloc_persistent ga (kv_region_name layer ''k'') b elems of
                  (ga1, Inl e) \<Rightarrow> (ga1, Err e)
                | (ga1, Inr k) \<Rightarrow>
                    (case alloc_persistent ga1 (kv_region_name layer ''v'') b elems of
                       (ga2, Inl e) \<Rightarrow> (ga2, Err e)
                     | (ga2, Inr v) \<Rightarrow>
                         (ga2\<lparr>ga_kv := kv_insert (ga_kv ga2) layer k v n_embd row n_ctx packed\<rparr>,
                          Ok (k, v))))))"

section \<open>Liveness\<close>

lemma filter_update_less:
  "i < length xs \<Longrightarrow> P (xs ! i) \<Longrightarrow> \<not> P v \<Longrightarrow> length (filter P (xs[i := v])) < length (filter P xs)"
proof (induction xs arbitrary: i)
  case (Cons x xs)
  then show ?case by (cases i) auto
qed simp

text \<open>
  The walk up the view chain: \<open>None\<close> is an index out of range, otherwise the deadlines and the
  nodes that grew. Every round raises one deadline to \<open>to\<close>, which ends the walk even on a
  circular chain.
\<close>

function extend_through_views ::
  "ComputeGraph \<Rightarrow> nat list \<Rightarrow> NodeId \<Rightarrow> nat \<Rightarrow> (nat list \<times> NodeId list) option" where
  "extend_through_views g last_use cur to =
     (if length last_use \<le> cur then None
      else if to \<le> last_use ! cur then Some (last_use, [])
      else (case cn_view (g_node g cur) of
              None \<Rightarrow> Some (last_use[cur := to], [cur])
            | Some v \<Rightarrow>
                map_option (\<lambda>(lu, grown). (lu, cur # grown))
                  (extend_through_views g (last_use[cur := to]) (va_src v) to)))"
  by auto
termination
  by (relation "measure (\<lambda>(g, lu, cur, to). length (filter (\<lambda>x. x < to) lu))")
     (auto intro!: filter_update_less)

declare extend_through_views.simps [simp del]

definition extend_buffer_alive :: "GraphAllocator \<Rightarrow> NodeId list \<Rightarrow> nat \<Rightarrow> GraphAllocator" where
  "extend_buffer_alive ga grown to =
     fold (\<lambda>n ga.
       case map_of (ga_node_to_buf ga) n of
         None \<Rightarrow> ga
       | Some br \<Rightarrow>
           (case map_of (ga_buf_alive ga) (br_backend br, br_id br) of
              None \<Rightarrow> ga
            | Some al \<Rightarrow> ga\<lparr>ga_buf_alive := bt_insert (br_backend br, br_id br) (max al to) (ga_buf_alive ga)\<rparr>))
     grown ga"

text \<open>The last use of every node: its sources' readers, the outputs and the inputs.\<close>

definition raise_use :: "nat \<Rightarrow> NodeId \<Rightarrow> nat list \<Rightarrow> nat list" where
  "raise_use i s last_use = (if last_use ! s < i then last_use[s := i] else last_use)"

definition last_uses :: "ComputeGraph \<Rightarrow> nat list" where
  "last_uses g =
     (let n = n_nodes g;
          reads = fold (\<lambda>i lu. fold (raise_use i) (srcs g i) lu) [0..<n] [0..<n];
          outs = fold (\<lambda>o' lu. lu[o' := n]) (g_outputs g) reads
      in fold (\<lambda>i lu. lu[i := n]) (g_inputs g) outs)"

definition n_consumers :: "ComputeGraph \<Rightarrow> NodeId \<Rightarrow> nat" where
  "n_consumers g s = sum_list (map (\<lambda>c. count_list (cn_src c) s) (g_nodes g))"

section \<open>Placing nodes\<close>

definition node_backend :: "CNode \<Rightarrow> Backend" where
  "node_backend n = (case cn_backend n of None \<Rightarrow> CPU | Some b \<Rightarrow> b)"

text \<open>A buffer of its own, alive until the node's last use.\<close>

definition place_own ::
  "DeviceMemory \<Rightarrow> GraphAllocator \<Rightarrow> nat list \<Rightarrow> CNode \<Rightarrow> NodeId \<Rightarrow> GraphAllocator \<times> (alloc_error, unit) res" where
  "place_own mem ga last_use node i =
     (case alloc_in_pool mem ga (node_backend node) (n_elements node) of
        (ga1, Inl e) \<Rightarrow> (ga1, Err e)
      | (ga1, Inr pid) \<Rightarrow>
          (ga1\<lparr>ga_buf_alive := bt_insert (node_backend node, pid) (last_use ! i) (ga_buf_alive ga1),
               ga_node_to_buf := bt_insert i (bufref_own (node_backend node) pid (n_elements node))
                 (ga_node_to_buf ga1)\<rparr>, Ok ()))"

definition place_live ::
  "DeviceMemory \<Rightarrow> GraphAllocator \<Rightarrow> nat list \<Rightarrow> CNode \<Rightarrow> NodeId \<Rightarrow> GraphAllocator \<times> (alloc_error, nat list) res" where
  "place_live mem ga last_use node i =
     (if i < last_use ! i
      then (case place_own mem ga last_use node i of
              (ga1, Inl e) \<Rightarrow> (ga1, Err e) | (ga1, Inr _) \<Rightarrow> (ga1, Ok last_use))
      else (ga, Ok last_use))"

text \<open>The node takes the buffer \<open>br\<close> of \<open>src\<close>, which stays alive as long as the node.\<close>

definition place_alias ::
  "ComputeGraph \<Rightarrow> GraphAllocator \<Rightarrow> nat list \<Rightarrow> NodeId \<Rightarrow> NodeId \<Rightarrow> BufRef \<Rightarrow>
   GraphAllocator \<times> (alloc_error, nat list) res" where
  "place_alias g ga last_use i src br =
     (let lu = last_use ! i;
          ga1 = ga\<lparr>ga_node_to_buf := bt_insert i br (ga_node_to_buf ga)\<rparr>
      in case extend_through_views g last_use src lu of
           None \<Rightarrow> (ga1, Err AllocPanic)
         | Some (last_use', grown) \<Rightarrow> (extend_buffer_alive ga1 grown lu, Ok last_use'))"

definition place_view ::
  "ComputeGraph \<Rightarrow> GraphAllocator \<Rightarrow> nat list \<Rightarrow> CNode \<Rightarrow> NodeId \<Rightarrow> ViewAlias \<Rightarrow>
   GraphAllocator \<times> (alloc_error, nat list) res" where
  "place_view g ga last_use node i v =
     (let backend = node_backend node; window = n_elements node in
      case map_of (ga_node_to_buf ga) (va_src v) of
        None \<Rightarrow> (ga, Err (ViewNoParent i (va_src v)))
      | Some parent \<Rightarrow>
          (let parent_elems = n_elements (g_node g (va_src v)) in
           if br_backend parent \<noteq> backend
             then (ga, Err (ViewCrossBackend i backend (va_src v) (br_backend parent)))
           else if br_backend parent = METAL \<and> (va_offset v \<noteq> 0 \<or> window \<noteq> parent_elems)
             then (ga, Err (ViewMetalPartial i window (va_offset v) parent_elems))
           else if parent_elems < va_offset v + window
             then (ga, Err (ViewRange i (va_offset v) (va_offset v + window) (va_src v) parent_elems))
           else place_alias g ga last_use i (va_src v) (bufref_window parent (va_offset v) window)))"

text \<open>The sizes of a fused node's KV region, from its meta data or its shape.\<close>

definition fused_dims :: "CNode \<Rightarrow> nat \<times> nat \<times> nat" where
  "fused_dims node =
     (case (cn_op node, cn_meta node) of
        (FusedQKV _, FusedQkv nkt row kv_elems) \<Rightarrow> (nkt, row, kv_elems div max nkt 1)
      | (FusedQkvNorm _, FusedQkvNormM nkt row kv_elems) \<Rightarrow> (nkt, row, kv_elems div max nkt 1)
      | (QkvBiasRopeStore _, QkvBiasRopeStoreM nkt row kv_elems) \<Rightarrow> (nkt, row, kv_elems div max nkt 1)
      | _ \<Rightarrow> (case cn_shape node of (a, b, _, _) \<Rightarrow> (a, a, b)))"

definition kv_dims :: "CNode \<Rightarrow> nat \<times> nat \<times> nat" where
  "kv_dims node =
     (case cn_shape node of (a, b, _, _) \<Rightarrow>
        (case cn_meta node of Kvcache n_embd row \<Rightarrow> (n_embd, row, b) | _ \<Rightarrow> (a, a, b)))"

text \<open>The in-place operators: they may take their first input's buffer.\<close>

definition place_in_place ::
  "DeviceMemory \<Rightarrow> ComputeGraph \<Rightarrow> GraphAllocator \<Rightarrow> nat list \<Rightarrow> CNode \<Rightarrow> NodeId \<Rightarrow>
   GraphAllocator \<times> (alloc_error, nat list) res" where
  "place_in_place mem g ga last_use node i =
     (if i < last_use ! i
      then (case cn_src node of
              [] \<Rightarrow> (ga, Err AllocPanic)
            | s # _ \<Rightarrow>
                (case map_of (ga_node_to_buf ga) s of
                   None \<Rightarrow> (ga, Err (InPlaceNoSrc i))
                 | Some in_ref \<Rightarrow>
                     (let in_place_ok = (cn_op node = SwiGLU \<longrightarrow> cn_view (g_node g s) \<noteq> None) in
                      if in_place_ok \<and> br_backend in_ref = node_backend node \<and> n_consumers g s = 1
                      then place_alias g ga last_use i s in_ref
                      else place_live mem ga last_use node i)))
      else (ga, Ok last_use))"

definition place_kv_then ::
  "(Backend \<Rightarrow> bool) \<Rightarrow> GraphAllocator \<Rightarrow> nat \<Rightarrow> CNode \<Rightarrow>
   (GraphAllocator \<Rightarrow> GraphAllocator \<times> (alloc_error, nat list) res) \<Rightarrow>
   GraphAllocator \<times> (alloc_error, nat list) res" where
  "place_kv_then reads_packed ga layer node k =
     (let (n_embd, row, n_ctx) = fused_dims node in
      case ensure_kv reads_packed ga layer (node_backend node) n_embd row n_ctx of
        (ga1, Inl e) \<Rightarrow> (ga1, Err e)
      | (ga1, Inr _) \<Rightarrow> k ga1)"

definition place_store ::
  "(Backend \<Rightarrow> bool) \<Rightarrow> GraphAllocator \<Rightarrow> nat list \<Rightarrow> nat \<Rightarrow> CNode \<Rightarrow> NodeId \<Rightarrow>
   GraphAllocator \<times> (alloc_error, nat list) res" where
  "place_store reads_packed ga last_use layer node i =
     (let (n_embd, row, n_ctx) = kv_dims node in
      case ensure_kv reads_packed ga layer (node_backend node) n_embd row n_ctx of
        (ga1, Inl e) \<Rightarrow> (ga1, Err e)
      | (ga1, Inr (k, v)) \<Rightarrow>
          (ga1\<lparr>ga_node_to_buf := bt_insert i k (ga_node_to_buf ga1)\<rparr>, Ok last_use))"

text \<open>One round of the walk, after the sweep.\<close>

definition place_node ::
  "(Backend \<Rightarrow> bool) \<Rightarrow> DeviceMemory \<Rightarrow> ComputeGraph \<Rightarrow> GraphAllocator \<Rightarrow> nat list \<Rightarrow> NodeId \<Rightarrow>
   GraphAllocator \<times> (alloc_error, nat list) res" where
  "place_node reads_packed mem g ga last_use i =
     (let node = g_node g i in
      if is_input node then (ga, Ok last_use)
      else case cn_view node of
        Some v \<Rightarrow> place_view g ga last_use node i v
      | None \<Rightarrow>
          (case cn_op node of
             KvcacheStore layer \<Rightarrow> place_store reads_packed ga last_use layer node i
           | KvcacheLoad layer \<Rightarrow> place_store reads_packed ga last_use layer node i
           | FusedQKV layer \<Rightarrow>
               place_kv_then reads_packed ga layer node (\<lambda>ga1. place_live mem ga1 last_use node i)
           | FusedQkvNorm layer \<Rightarrow>
               place_kv_then reads_packed ga layer node (\<lambda>ga1. place_live mem ga1 last_use node i)
           | QkvBiasRopeStore layer \<Rightarrow>
               place_kv_then reads_packed ga layer node (\<lambda>ga1. place_in_place mem g ga1 last_use node i)
           | Silu \<Rightarrow> place_in_place mem g ga last_use node i
           | RoPE _ \<Rightarrow> place_in_place mem g ga last_use node i
           | SwiGLU \<Rightarrow> place_in_place mem g ga last_use node i
           | _ \<Rightarrow> place_live mem ga last_use node i))"

fun place_nodes ::
  "(Backend \<Rightarrow> bool) \<Rightarrow> DeviceMemory \<Rightarrow> ComputeGraph \<Rightarrow> NodeId list \<Rightarrow> GraphAllocator \<Rightarrow> nat list \<Rightarrow>
   GraphAllocator \<times> (alloc_error, nat list) res" where
  "place_nodes rp mem g [] ga last_use = (ga, Ok last_use)"
| "place_nodes rp mem g (i # is) ga last_use =
     (case place_node rp mem g (sweep ga i) last_use i of
        (ga1, Inl e) \<Rightarrow> (ga1, Err e)
      | (ga1, Inr last_use') \<Rightarrow> place_nodes rp mem g is ga1 last_use')"

fun place_inputs ::
  "DeviceMemory \<Rightarrow> CNode list \<Rightarrow> nat list \<Rightarrow> GraphAllocator \<Rightarrow> GraphAllocator \<times> (alloc_error, unit) res" where
  "place_inputs mem [] last_use ga = (ga, Ok ())"
| "place_inputs mem (node # nodes) last_use ga =
     (if is_input node
      then (case place_own mem ga last_use node (cn_id node) of
              (ga1, Inl e) \<Rightarrow> (ga1, Err e)
            | (ga1, Inr _) \<Rightarrow> place_inputs mem nodes last_use ga1)
      else place_inputs mem nodes last_use ga)"

text \<open>Releasing the previous graph's buffers.\<close>

definition release_all :: "GraphAllocator \<Rightarrow> GraphAllocator" where
  "release_all ga =
     (fold (\<lambda>key ga. free_in_pool ga key) (map fst (ga_buf_alive ga)) ga)\<lparr>ga_buf_alive := [], ga_node_to_buf := []\<rparr>"

definition alloc_graph ::
  "(Backend \<Rightarrow> bool) \<Rightarrow> DeviceMemory \<Rightarrow> GraphAllocator \<Rightarrow> ComputeGraph \<Rightarrow>
   GraphAllocator \<times> (alloc_error, unit) res" where
  "alloc_graph rp mem ga g =
     (let ga0 = release_all ga in
      case topo_order g of
        None \<Rightarrow> (ga0, Err AllocPanic)
      | Some (Inl e) \<Rightarrow> (ga0, Err (AllocTopo e))
      | Some (Inr _) \<Rightarrow>
          if list_ex (\<lambda>o'. n_nodes g \<le> o') (g_outputs g @ g_inputs g) then (ga0, Err AllocPanic)
          else
            (let last_use = last_uses g in
             case place_inputs mem (g_nodes g) last_use ga0 of
               (ga1, Inl e) \<Rightarrow> (ga1, Err e)
             | (ga1, Inr _) \<Rightarrow>
                 (case place_nodes rp mem g [0..<n_nodes g] ga1 last_use of
                    (ga2, Inl e) \<Rightarrow> (ga2, Err e)
                  | (ga2, Inr _) \<Rightarrow> (ga2, Ok ()))))"

end
