(* ===== verification/Graph_Pool.thy ===== *)
theory Graph_Pool
  imports Graph_Alloc
begin

text \<open>
  The discipline of the pools: what a pool promises its client, as the locale \<open>buffer_pool\<close>
  with its interpretation on the CPU pool, and the invariant that keeps live buffers,
  persistent regions and idle buffers apart through every operation of the allocator.
\<close>

section \<open>The contract of a pool\<close>

locale buffer_pool =
  fixes acquire :: "'p \<Rightarrow> nat \<Rightarrow> 'p \<times> nat"
    and give_back :: "'p \<Rightarrow> nat \<Rightarrow> 'p"
    and idle :: "'p \<Rightarrow> nat set"
    and room :: "'p \<Rightarrow> nat"
    and ok :: "'p \<Rightarrow> bool"
  assumes acquire_ok: "ok p \<Longrightarrow> acquire p n = (p', i) \<Longrightarrow> ok p'"
    and acquire_room: "ok p \<Longrightarrow> acquire p n = (p', i) \<Longrightarrow> i < room p' \<and> room p \<le> room p'"
    and acquire_idle: "ok p \<Longrightarrow> acquire p n = (p', i) \<Longrightarrow> idle p' = idle p - {i}"
    and acquire_from: "ok p \<Longrightarrow> acquire p n = (p', i) \<Longrightarrow> i \<in> idle p \<or> room p \<le> i"
    and give_back_ok: "ok p \<Longrightarrow> i < room p \<Longrightarrow> ok (give_back p i)"
    and give_back_idle: "ok p \<Longrightarrow> i < room p \<Longrightarrow> idle (give_back p i) = insert i (idle p)"
    and give_back_room: "room (give_back p i) = room p"
    and idle_room: "ok p \<Longrightarrow> i \<in> idle p \<Longrightarrow> i < room p"
begin

text \<open>A buffer in use is not handed out again.\<close>

lemma acquire_fresh:
  assumes "ok p" "acquire p n = (p', i)" "T \<inter> idle p = {}" "\<forall>j \<in> T. j < room p"
  shows "i \<notin> T"
  using acquire_from [OF assms(1,2)] assms(3,4) by auto

lemma acquire_twice:
  assumes "ok p" "acquire p n = (p1, i)" "acquire p1 m = (p2, j)"
  shows "i \<noteq> j"
proof -
  have "{i} \<inter> idle p1 = {}" "\<forall>k \<in> {i}. k < room p1"
    using acquire_idle [OF assms(1,2)] acquire_room [OF assms(1,2)] by auto
  then show ?thesis using acquire_fresh [OF acquire_ok [OF assms(1,2)] assms(3)] by blast
qed

lemma acquire_again:
  assumes "ok p" "acquire p n = (p1, i)" "i < room p"
  shows "idle (give_back p1 i) = insert i (idle p)"
  using acquire_ok [OF assms(1,2)] acquire_room [OF assms(1,2)] acquire_idle [OF assms(1,2)]
    give_back_idle by auto

end

definition pool_wf :: "Pool \<Rightarrow> bool" where
  "pool_wf p \<longleftrightarrow> distinct (p_free p) \<and> (\<forall>i \<in> set (p_free p). i < length (p_lens p))"

lemma position_Some: "position P xs = Some i \<Longrightarrow> i < length xs \<and> P (xs ! i)"
proof (induction xs arbitrary: i)
  case (Cons x xs)
  then show ?case by (cases i) (auto split: if_splits)
qed simp

lemma swap_remove_distinct:
  assumes "distinct xs" "i < length xs"
  shows "distinct (swap_remove xs i)" "set (swap_remove xs i) = set xs - {xs ! i}"
proof -
  obtain ys z where xs: "xs = ys @ [z]" using assms(2) by (cases xs rule: rev_cases) auto
  have z: "z \<notin> set ys" "distinct ys" using assms(1) xs by auto
  have e: "swap_remove xs i = (if i = length ys then ys else ys[i := z])"
    using assms(2) by (simp add: swap_remove_def xs list_update_append butlast_append)
  show "distinct (swap_remove xs i)"
    using z e assms(2) by (auto simp: xs intro!: distinct_list_update)
  show "set (swap_remove xs i) = set xs - {xs ! i}"
    using z e assms(2) by (auto simp: xs set_update_distinct nth_append)
qed

interpretation cpu_pool: buffer_pool alloc_buffer free_buffer "\<lambda>p. set (p_free p)" "\<lambda>p. length (p_lens p)" pool_wf
proof
  fix p p' n i assume ok: "pool_wf p" and a: "alloc_buffer p n = (p', i)"
  have "pool_wf p' \<and> i < length (p_lens p') \<and> length (p_lens p) \<le> length (p_lens p') \<and>
      set (p_free p') = set (p_free p) - {i} \<and> (i \<in> set (p_free p) \<or> length (p_lens p) \<le> i)"
  proof (cases "position (\<lambda>i. p_lens p ! i = n) (p_free p)")
    case None
    then show ?thesis using ok a by (fastforce simp: alloc_buffer_def pool_wf_def)
  next
    case (Some idx)
    then have idx: "idx < length (p_free p)" using position_Some by blast
    have p': "p' = p\<lparr>p_free := swap_remove (p_free p) idx\<rparr>" "i = p_free p ! idx"
      using a Some by (auto simp: alloc_buffer_def)
    show ?thesis
      using ok swap_remove_distinct [OF _ idx] idx by (auto simp: p' pool_wf_def)
  qed
  then show "pool_wf p'" "i < length (p_lens p') \<and> length (p_lens p) \<le> length (p_lens p')"
    "set (p_free p') = set (p_free p) - {i}" "i \<in> set (p_free p) \<or> length (p_lens p) \<le> i" by auto
qed (auto simp: pool_wf_def free_buffer_def)

section \<open>The invariant of the allocator's buffers\<close>

definition alive :: "GraphAllocator \<Rightarrow> (Backend \<times> nat) set" where
  "alive ga = dom (map_of (ga_buf_alive ga))"

definition pers :: "GraphAllocator \<Rightarrow> (Backend \<times> nat) set" where
  "pers ga = snd ` set (ga_persistent ga)"

definition shelf :: "GraphAllocator \<Rightarrow> Backend \<times> nat \<Rightarrow> nat list" where
  "shelf ga key = lookup_or [] (ga_slots ga) key"

definition idle_slot :: "GraphAllocator \<Rightarrow> (Backend \<times> nat) set" where
  "idle_slot ga = {(b, i). \<exists>c. i \<in> set (shelf ga (b, c))}"

definition idle_free :: "GraphAllocator \<Rightarrow> (Backend \<times> nat) set" where
  "idle_free ga = {(b, i). \<exists>p. map_of (ga_pools ga) b = Some p \<and> i \<in> set (p_free p)}"

definition in_pool :: "GraphAllocator \<Rightarrow> (Backend \<times> nat) set" where
  "in_pool ga = {(b, i). \<exists>p. map_of (ga_pools ga) b = Some p \<and> i < length (p_lens p)}"

definition idle_ok :: "GraphAllocator \<Rightarrow> bool" where
  "idle_ok ga \<longleftrightarrow> (\<forall>b p. map_of (ga_pools ga) b = Some p \<longrightarrow> pool_wf p) \<and>
     (\<forall>b c. distinct (shelf ga (b, c))) \<and>
     (\<forall>b c d i. i \<in> set (shelf ga (b, c)) \<longrightarrow> i \<in> set (shelf ga (b, d)) \<longrightarrow> c = d) \<and>
     idle_slot ga \<inter> idle_free ga = {} \<and> idle_slot ga \<subseteq> in_pool ga"

text \<open>\<open>T\<close> is the set of buffers in use.\<close>

definition in_use_ok :: "GraphAllocator \<Rightarrow> (Backend \<times> nat) set \<Rightarrow> bool" where
  "in_use_ok ga T \<longleftrightarrow> idle_ok ga \<and> T \<subseteq> in_pool ga \<and> T \<inter> (idle_slot ga \<union> idle_free ga) = {}"

definition pool_ok :: "GraphAllocator \<Rightarrow> bool" where
  "pool_ok ga \<longleftrightarrow> in_use_ok ga (alive ga \<union> pers ga) \<and> alive ga \<inter> pers ga = {} \<and>
     bt_wf (ga_buf_alive ga) \<and> dom (map_of (ga_buf_class ga)) = alive ga"

lemma in_use_ok_subset: "in_use_ok ga T \<Longrightarrow> S \<subseteq> T \<Longrightarrow> in_use_ok ga S"
  by (auto simp: in_use_ok_def)

text \<open>Fields the idle buffers do not depend on.\<close>

lemma in_use_ok_cong:
  assumes "ga_pools ga' = ga_pools ga" "ga_slots ga' = ga_slots ga"
  shows "in_use_ok ga' T = in_use_ok ga T"
  using assms by (simp add: in_use_ok_def idle_ok_def idle_slot_def idle_free_def in_pool_def shelf_def)

lemma alloc_exact_ok:
  assumes "in_use_ok ga T" "alloc_exact_in_pool ga b n = (ga', Ok i)"
  shows "(b, i) \<notin> T" "in_use_ok ga' (insert (b, i) T)"
    "\<exists>p'. ga' = ga\<lparr>ga_pools := bt_insert b p' (ga_pools ga)\<rparr>"
proof -
  obtain p p' where p: "map_of (ga_pools ga) b = Some p" "alloc_buffer p n = (p', i)"
    "ga' = ga\<lparr>ga_pools := bt_insert b p' (ga_pools ga)\<rparr>"
    using assms(2) by (auto simp: alloc_exact_in_pool_def split: option.splits prod.splits)
  then show "\<exists>p'. ga' = ga\<lparr>ga_pools := bt_insert b p' (ga_pools ga)\<rparr>" by blast
  have ok: "pool_wf p" using assms(1) p(1) by (auto simp: in_use_ok_def idle_ok_def)
  note A = cpu_pool.acquire_ok [OF ok p(2)] cpu_pool.acquire_room [OF ok p(2)]
    cpu_pool.acquire_idle [OF ok p(2)] cpu_pool.acquire_from [OF ok p(2)]
  have T: "(b, j) \<in> T \<Longrightarrow> j < length (p_lens p) \<and> j \<notin> set (p_free p)" for j
    using assms(1) p(1) by (auto simp: in_use_ok_def in_pool_def idle_free_def)
  have S: "(b, j) \<in> idle_slot ga \<Longrightarrow> j < length (p_lens p) \<and> j \<notin> set (p_free p)" for j
    using assms(1) p(1) by (auto simp: in_use_ok_def idle_ok_def in_pool_def idle_free_def)
  show fresh: "(b, i) \<notin> T" using T [of i] A(4) by auto
  have sl: "idle_slot ga' = idle_slot ga" "shelf ga' = shelf ga"
    by (simp_all add: p(3) idle_slot_def shelf_def fun_eq_iff)
  have fr: "idle_free ga' = idle_free ga - {(b, i)}"
  proof -
    have "(a, j) \<in> idle_free ga' \<longleftrightarrow> (a, j) \<in> idle_free ga - {(b, i)}" for a j
      using A(3) p(1) by (cases "a = b") (simp_all add: p(3) idle_free_def)
    then show ?thesis by auto
  qed
  have ip: "in_pool ga \<subseteq> in_pool ga'" "(b, i) \<in> in_pool ga'"
  proof -
    have "(a, j) \<in> in_pool ga \<Longrightarrow> (a, j) \<in> in_pool ga'" for a j
      using A(2) p(1) by (cases "a = b") (simp_all add: p(3) in_pool_def)
    then show "in_pool ga \<subseteq> in_pool ga'" by auto
    show "(b, i) \<in> in_pool ga'" using A(2) by (simp add: p(3) in_pool_def)
  qed
  have nslot: "(b, i) \<notin> idle_slot ga" using S [of i] A(4) by auto
  have pw: "map_of (ga_pools ga') a = Some q \<Longrightarrow> pool_wf q" for a q
    using assms(1) A(1) by (auto simp: p(3) in_use_ok_def idle_ok_def split: if_splits)
  have "idle_ok ga'"
    using assms(1) pw fr ip(1) unfolding in_use_ok_def idle_ok_def sl by blast
  then show "in_use_ok ga' (insert (b, i) T)"
    using assms(1) fr ip nslot unfolding in_use_ok_def sl by blast
qed

lemma shelf_update:
  "shelf (ga\<lparr>ga_slots := bt_insert key ids (ga_slots ga)\<rparr>) k = (if k = key then ids else shelf ga k)"
  by (simp add: shelf_def lookup_or_def)

lemma alloc_class_ok:
  assumes "in_use_ok ga T" "alloc_class_in_pool ga b n = (ga', Ok i)"
  shows "(b, i) \<notin> T" "in_use_ok ga' (insert (b, i) T)"
    "\<exists>ps sl. ga' = ga\<lparr>ga_pools := ps, ga_slots := sl\<rparr>"
proof -
  have "(b, i) \<notin> T \<and> in_use_ok ga' (insert (b, i) T) \<and> (\<exists>ps sl. ga' = ga\<lparr>ga_pools := ps, ga_slots := sl\<rparr>)"
  proof (cases "shelf ga (b, class_size n)")
    case Nil
    then have "alloc_exact_in_pool ga b (class_size n) = (ga', Ok i)"
      using assms(2) by (auto simp: alloc_class_in_pool_def shelf_def lookup_or_def Let_def split: option.splits)
    then show ?thesis
      using alloc_exact_ok [OF assms(1)] by (metis GraphAllocator.surjective GraphAllocator.update_convs(1,5))
  next
    case (Cons j idle)
    then have i: "j = i" and ga': "ga' = ga\<lparr>ga_slots := bt_insert (b, class_size n) idle (ga_slots ga)\<rparr>"
      using assms(2) by (auto simp: alloc_class_in_pool_def shelf_def lookup_or_def Let_def split: option.splits)
    note sh = Cons [unfolded i]
    have here: "(b, i) \<in> idle_slot ga" using sh by (auto simp: idle_slot_def intro: exI [of _ "class_size n"])
    have uniq: "\<And>c. i \<in> set (shelf ga (b, c)) \<Longrightarrow> c = class_size n"
      using assms(1) sh unfolding in_use_ok_def idle_ok_def by (metis list.set_intros(1))
    have dist: "i \<notin> set idle" "distinct idle"
      using assms(1) sh unfolding in_use_ok_def idle_ok_def by (metis distinct.simps(2))+
    have S: "shelf ga' k = (if k = (b, class_size n) then idle else shelf ga k)" for k
      by (simp only: ga' shelf_update)
    have "(a, j) \<in> idle_slot ga' \<longleftrightarrow> (a, j) \<in> idle_slot ga \<and> (a, j) \<noteq> (b, i)" for a j
    proof
      assume "(a, j) \<in> idle_slot ga'"
      then obtain c where c: "j \<in> set (shelf ga' (a, c))" by (auto simp: idle_slot_def)
      then have "j \<in> set (shelf ga (a, c))" using sh by (auto simp: S split: if_splits)
      moreover have "(a, j) \<noteq> (b, i)"
        using c uniq dist(1) by (cases "(a, c) = (b, class_size n)") (auto simp: S)
      ultimately show "(a, j) \<in> idle_slot ga \<and> (a, j) \<noteq> (b, i)" by (auto simp: idle_slot_def)
    next
      assume h: "(a, j) \<in> idle_slot ga \<and> (a, j) \<noteq> (b, i)"
      then obtain c where "j \<in> set (shelf ga (a, c))" by (auto simp: idle_slot_def)
      then have "j \<in> set (shelf ga' (a, c))" using h sh by (auto simp: S)
      then show "(a, j) \<in> idle_slot ga'" by (auto simp: idle_slot_def)
    qed
    then have sl: "idle_slot ga' = idle_slot ga - {(b, i)}" by auto
    have oth: "idle_free ga' = idle_free ga" "in_pool ga' = in_pool ga" "ga_pools ga' = ga_pools ga"
      by (simp_all add: ga' idle_free_def in_pool_def)
    have sub: "set (shelf ga' k) \<subseteq> set (shelf ga k)" for k using sh by (auto simp: S)
    have dd: "distinct (shelf ga' k)" for k
      using assms(1) dist(2) by (cases k) (auto simp: S in_use_ok_def idle_ok_def)
    have "idle_ok ga'"
      unfolding idle_ok_def oth
    proof (intro conjI allI impI)
      fix c d k i' assume "i' \<in> set (shelf ga' (k, c))" "i' \<in> set (shelf ga' (k, d))"
      then show "c = d" using sub assms(1) unfolding in_use_ok_def idle_ok_def by blast
    qed (use assms(1) dd sl in \<open>auto simp: in_use_ok_def idle_ok_def\<close>)
    moreover have "\<exists>ps sl. ga' = ga\<lparr>ga_pools := ps, ga_slots := sl\<rparr>"
      by (rule exI [of _ "ga_pools ga"], rule exI [of _ "bt_insert (b, class_size n) idle (ga_slots ga)"]) (simp add: ga')
    moreover have "(b, i) \<notin> T" "(b, i) \<in> in_pool ga" "(b, i) \<notin> idle_free ga"
      using assms(1) here by (auto simp: in_use_ok_def idle_ok_def)
    ultimately show ?thesis
      using assms(1) sl oth(1,2) unfolding in_use_ok_def by blast
  qed
  then show "(b, i) \<notin> T" "in_use_ok ga' (insert (b, i) T)"
    "\<exists>ps sl. ga' = ga\<lparr>ga_pools := ps, ga_slots := sl\<rparr>" by blast+
qed

lemma pool_ok_in_use: "pool_ok ga \<Longrightarrow> in_use_ok ga (alive ga \<union> pers ga)"
  by (simp add: pool_ok_def)

lemma alloc_in_pool_ok:
  assumes "in_use_ok ga T" "alloc_in_pool mem ga b n = (ga', Ok i)"
  shows "(b, i) \<notin> T" "in_use_ok ga' (insert (b, i) T)" "ga_buf_alive ga' = ga_buf_alive ga"
    "ga_node_to_buf ga' = ga_node_to_buf ga" "ga_persistent ga' = ga_persistent ga" "ga_kv ga' = ga_kv ga"
    "map_of (ga_buf_class ga') = (map_of (ga_buf_class ga))((b, i) \<mapsto> class_size n)"
proof -
  have "alloc_charged ga b n (class_bytes (class_size n)) = (ga', Ok i)"
    using assms(2) by (auto simp: alloc_in_pool_def Let_def split: option.splits if_splits)
  then obtain ga1 where g1: "alloc_class_in_pool ga b n = (ga1, Ok i)"
    and g': "ga_pools ga' = ga_pools ga1" "ga_slots ga' = ga_slots ga1" "ga_buf_alive ga' = ga_buf_alive ga1"
      "ga_node_to_buf ga' = ga_node_to_buf ga1" "ga_persistent ga' = ga_persistent ga1" "ga_kv ga' = ga_kv ga1"
      "ga_buf_class ga' = bt_insert (b, i) (class_size n) (ga_buf_class ga1)"
    by (auto simp: alloc_charged_def Let_def split: prod.splits sum.splits)
  note A = alloc_class_ok [OF assms(1) g1]
  show "(b, i) \<notin> T" by (rule A(1))
  show "in_use_ok ga' (insert (b, i) T)" using A(2) in_use_ok_cong [OF g'(1,2)] by simp
  show "ga_buf_alive ga' = ga_buf_alive ga" "ga_node_to_buf ga' = ga_node_to_buf ga"
    "ga_persistent ga' = ga_persistent ga" "ga_kv ga' = ga_kv ga"
    "map_of (ga_buf_class ga') = (map_of (ga_buf_class ga))((b, i) \<mapsto> class_size n)"
    using A(3) g' by auto
qed

lemma place_own_ok:
  assumes "pool_ok ga" "place_own mem ga lu node i = (ga', Ok ())"
  obtains pid where "(node_backend node, pid) \<notin> alive ga \<union> pers ga" "pool_ok ga'"
    "map_of (ga_buf_alive ga') = (map_of (ga_buf_alive ga))((node_backend node, pid) \<mapsto> lu ! i)"
    "map_of (ga_node_to_buf ga') = (map_of (ga_node_to_buf ga))(i \<mapsto> bufref_own (node_backend node) pid (n_elements node))"
    "ga_persistent ga' = ga_persistent ga" "ga_kv ga' = ga_kv ga"
proof -
  let ?b = "node_backend node"
  obtain ga1 pid where g1: "alloc_in_pool mem ga ?b (n_elements node) = (ga1, Ok pid)"
    and g': "ga' = ga1\<lparr>ga_buf_alive := bt_insert (?b, pid) (lu ! i) (ga_buf_alive ga1),
      ga_node_to_buf := bt_insert i (bufref_own ?b pid (n_elements node)) (ga_node_to_buf ga1)\<rparr>"
    using assms(2) by (auto simp: place_own_def split: prod.splits sum.splits)
  note A = alloc_in_pool_ok [OF pool_ok_in_use [OF assms(1)] g1]
  have al: "alive ga' = insert (?b, pid) (alive ga)" "pers ga' = pers ga"
    using A(3,5) by (auto simp: g' alive_def pers_def)
  have "in_use_ok ga' (insert (?b, pid) (alive ga \<union> pers ga))"
    using A(2) in_use_ok_cong [of ga' ga1] by (simp add: g')
  then have "pool_ok ga'"
    using assms(1) A(1,3,7) al by (auto simp: pool_ok_def g')
  then show ?thesis using that [of pid] A by (simp add: g')
qed

text \<open>Releasing a live buffer puts it on its class's shelf.\<close>

lemma free_in_pool_ok:
  assumes "in_use_ok ga T" "key \<in> T" "map_of (ga_buf_class ga) key = Some c"
  shows "in_use_ok (free_in_pool ga key) (T - {key})" "ga_buf_alive (free_in_pool ga key) = ga_buf_alive ga"
    "ga_node_to_buf (free_in_pool ga key) = ga_node_to_buf ga" "ga_persistent (free_in_pool ga key) = ga_persistent ga"
    "ga_kv (free_in_pool ga key) = ga_kv ga"
    "map_of (ga_buf_class (free_in_pool ga key)) = (map_of (ga_buf_class ga))(key := None)"
proof -
  obtain b i where key: "key = (b, i)" by (cases key)
  let ?ga = "free_in_pool ga key"
  have f: "ga_pools ?ga = ga_pools ga" "ga_buf_alive ?ga = ga_buf_alive ga" "ga_node_to_buf ?ga = ga_node_to_buf ga"
    "ga_persistent ?ga = ga_persistent ga" "ga_kv ?ga = ga_kv ga"
    "map_of (ga_buf_class ?ga) = (map_of (ga_buf_class ga))(key := None)"
    "ga_slots ?ga = bt_insert (b, c) (insort_insert i (shelf ga (b, c))) (ga_slots ga)"
    using assms(3) by (auto simp: free_in_pool_def Let_def key shelf_def lookup_or_def split: option.split)
  then show "ga_buf_alive ?ga = ga_buf_alive ga" "ga_node_to_buf ?ga = ga_node_to_buf ga"
    "ga_persistent ?ga = ga_persistent ga" "ga_kv ?ga = ga_kv ga"
    "map_of (ga_buf_class ?ga) = (map_of (ga_buf_class ga))(key := None)" by auto
  have S: "shelf ?ga k = (if k = (b, c) then insort_insert i (shelf ga (b, c)) else shelf ga k)" for k
    by (simp add: shelf_def f(7) lookup_or_def)
  have use: "(b, i) \<in> in_pool ga" "(b, i) \<notin> idle_slot ga" "(b, i) \<notin> idle_free ga"
    using assms(1,2) by (auto simp: in_use_ok_def key)
  have setS: "j \<in> set (shelf ?ga (a, d)) \<longleftrightarrow> j \<in> set (shelf ga (a, d)) \<or> (a, d, j) = (b, c, i)" for a d j
    by (auto simp: S set_insort_insert)
  have sl: "idle_slot ?ga = insert (b, i) (idle_slot ga)"
    by (auto simp: idle_slot_def setS)
  have oth: "idle_free ?ga = idle_free ga" "in_pool ?ga = in_pool ga"
    by (simp_all add: idle_free_def in_pool_def f(1))
  have nin: "i \<notin> set (shelf ga (b, d))" for d using use(2) by (auto simp: idle_slot_def)
  have "distinct (shelf ?ga (a, d))" for a d
    using assms(1) by (auto simp: S in_use_ok_def idle_ok_def distinct_insort_insert)
  moreover have "d = e" if "j \<in> set (shelf ?ga (a, d))" "j \<in> set (shelf ?ga (a, e))" for a d e j
    using that nin assms(1) unfolding setS in_use_ok_def idle_ok_def by blast
  ultimately have "idle_ok ?ga"
    using assms(1) use sl oth by (auto simp: in_use_ok_def idle_ok_def f(1))
  then show "in_use_ok ?ga (T - {key})"
    using assms(1) sl oth by (auto simp: in_use_ok_def key)
qed

definition key_of :: "BufRef \<Rightarrow> Backend \<times> nat" where
  "key_of br = (br_backend br, br_id br)"

lemma sweep_step:
  assumes "pool_ok ga" "key \<in> alive ga"
  defines "ga' \<equiv> free_in_pool (ga\<lparr>ga_buf_alive := bt_remove key (ga_buf_alive ga)\<rparr>) key"
  shows "pool_ok ga'" "map_of (ga_buf_alive ga') = (map_of (ga_buf_alive ga))(key := None)"
    "ga_node_to_buf ga' = ga_node_to_buf ga" "ga_persistent ga' = ga_persistent ga" "ga_kv ga' = ga_kv ga"
proof -
  let ?g = "ga\<lparr>ga_buf_alive := bt_remove key (ga_buf_alive ga)\<rparr>"
  obtain c where c: "map_of (ga_buf_class ga) key = Some c"
    using assms(1,2) by (auto simp: pool_ok_def)
  have use: "in_use_ok ?g (alive ga \<union> pers ga)"
    using pool_ok_in_use [OF assms(1)] in_use_ok_cong [of ?g ga] by simp
  have F: "in_use_ok ga' (alive ga \<union> pers ga - {key})" "ga_buf_alive ga' = bt_remove key (ga_buf_alive ga)"
    "ga_node_to_buf ga' = ga_node_to_buf ga" "ga_persistent ga' = ga_persistent ga" "ga_kv ga' = ga_kv ga"
    "map_of (ga_buf_class ga') = (map_of (ga_buf_class ga))(key := None)"
    using free_in_pool_ok [OF use, of key c] c assms(2) by (auto simp: ga'_def)
  then show "map_of (ga_buf_alive ga') = (map_of (ga_buf_alive ga))(key := None)"
    "ga_node_to_buf ga' = ga_node_to_buf ga" "ga_persistent ga' = ga_persistent ga" "ga_kv ga' = ga_kv ga" by auto
  have al: "alive ga' = alive ga - {key}" "pers ga' = pers ga" using F(2,4) by (auto simp: alive_def pers_def)
  have "alive ga \<union> pers ga - {key} = alive ga' \<union> pers ga'"
    using assms(1,2) al by (auto simp: pool_ok_def)
  then show "pool_ok ga'" using F assms(1) al by (auto simp: pool_ok_def)
qed

lemma sweep_fold:
  assumes "pool_ok ga" "distinct ks" "set ks \<subseteq> alive ga"
  defines "ga' \<equiv> fold (\<lambda>key ga. free_in_pool (ga\<lparr>ga_buf_alive := bt_remove key (ga_buf_alive ga)\<rparr>) key) ks ga"
  shows "pool_ok ga' \<and> map_of (ga_buf_alive ga') = (\<lambda>k. if k \<in> set ks then None else map_of (ga_buf_alive ga) k) \<and>
    ga_node_to_buf ga' = ga_node_to_buf ga \<and> ga_persistent ga' = ga_persistent ga \<and> ga_kv ga' = ga_kv ga"
  using assms(1-3) unfolding ga'_def
proof (induction ks arbitrary: ga)
  case (Cons k ks)
  let ?g = "free_in_pool (ga\<lparr>ga_buf_alive := bt_remove k (ga_buf_alive ga)\<rparr>) k"
  note S = sweep_step [OF Cons.prems(1), of k]
  have k: "k \<in> alive ga" using Cons.prems by simp
  have "set ks \<subseteq> alive ?g" using Cons.prems S(2) [OF k] by (auto simp: alive_def)
  from Cons.IH [OF S(1) [OF k] _ this] Cons.prems(2) show ?case
    using S(2-5) [OF k] by (auto simp: fun_eq_iff)
qed simp

lemma sweep_ok:
  assumes "pool_ok ga"
  shows "pool_ok (sweep ga i)" "ga_node_to_buf (sweep ga i) = ga_node_to_buf ga"
    "ga_persistent (sweep ga i) = ga_persistent ga" "ga_kv (sweep ga i) = ga_kv ga"
    "map_of (ga_buf_alive (sweep ga i)) k =
      (case map_of (ga_buf_alive ga) k of None \<Rightarrow> None | Some al \<Rightarrow> if al < i then None else Some al)"
proof -
  let ?ks = "map fst (filter (\<lambda>(_, al). al < i) (ga_buf_alive ga))"
  have wf: "bt_wf (ga_buf_alive ga)" using assms by (simp add: pool_ok_def)
  have d: "distinct ?ks" using bt_wf_distinct [OF wf] by (simp add: distinct_map_filter)
  have mem: "k \<in> set ?ks \<longleftrightarrow> (\<exists>al. map_of (ga_buf_alive ga) k = Some al \<and> al < i)" for k
    by (cases k) (auto simp: image_iff Bex_def simp flip: bt_mem_iff [OF wf])
  then have "set ?ks \<subseteq> alive ga" by (auto simp: alive_def)
  note F = sweep_fold [OF assms d this]
  show "pool_ok (sweep ga i)" "ga_node_to_buf (sweep ga i) = ga_node_to_buf ga"
    "ga_persistent (sweep ga i) = ga_persistent ga" "ga_kv (sweep ga i) = ga_kv ga"
    using F by (simp_all add: sweep_def)
  have "map_of (ga_buf_alive (sweep ga i)) k = (if k \<in> set ?ks then None else map_of (ga_buf_alive ga) k)"
    using F by (simp add: sweep_def)
  then show "map_of (ga_buf_alive (sweep ga i)) k =
      (case map_of (ga_buf_alive ga) k of None \<Rightarrow> None | Some al \<Rightarrow> if al < i then None else Some al)"
    unfolding mem by (auto split: option.split)
qed

lemma release_fold_ok:
  assumes "in_use_ok ga T" "distinct ks" "set ks \<subseteq> T" "set ks \<subseteq> dom (map_of (ga_buf_class ga))"
  defines "ga' \<equiv> fold (\<lambda>key ga. free_in_pool ga key) ks ga"
  shows "in_use_ok ga' (T - set ks) \<and> ga_persistent ga' = ga_persistent ga \<and> ga_kv ga' = ga_kv ga \<and>
    dom (map_of (ga_buf_class ga')) = dom (map_of (ga_buf_class ga)) - set ks"
  using assms(1-4) unfolding ga'_def
proof (induction ks arbitrary: ga T)
  case (Cons k ks)
  then obtain c where c: "map_of (ga_buf_class ga) k = Some c" by auto
  have kT: "k \<in> T" using Cons.prems(3) by simp
  note F = free_in_pool_ok [OF Cons.prems(1) kT c]
  have sub: "set ks \<subseteq> T - {k}" "set ks \<subseteq> dom (map_of (ga_buf_class (free_in_pool ga k)))"
    using Cons.prems by (auto simp: F(6))
  have d: "distinct ks" using Cons.prems(2) by simp
  define g' where "g' = fold (\<lambda>key ga. free_in_pool ga key) ks (free_in_pool ga k)"
  have I: "in_use_ok g' (T - {k} - set ks)" "ga_persistent g' = ga_persistent (free_in_pool ga k)"
    "ga_kv g' = ga_kv (free_in_pool ga k)"
    "dom (map_of (ga_buf_class g')) = dom (map_of (ga_buf_class (free_in_pool ga k))) - set ks"
    using Cons.IH [OF F(1) d sub] unfolding g'_def by blast+
  have "dom (map_of (ga_buf_class (free_in_pool ga k))) = dom (map_of (ga_buf_class ga)) - {k}"
    unfolding F(6) by (simp only: dom_fun_upd simp_thms if_True)
  then have "dom (map_of (ga_buf_class g')) = dom (map_of (ga_buf_class ga)) - set (k # ks)"
    unfolding I(4) by auto
  moreover have "T - {k} - set ks = T - set (k # ks)" by auto
  moreover have "ga_persistent g' = ga_persistent ga" "ga_kv g' = ga_kv ga"
    using I(2,3) F(4,5) by (simp_all only:)
  moreover have "fold (\<lambda>key ga. free_in_pool ga key) (k # ks) ga = g'"
    unfolding g'_def by (simp only: fold.simps comp_apply)
  ultimately show ?case using I(1) by (simp only:)
qed simp

lemma release_all_ok:
  assumes "pool_ok ga"
  shows "pool_ok (release_all ga)" "ga_buf_alive (release_all ga) = []" "ga_node_to_buf (release_all ga) = []"
    "ga_persistent (release_all ga) = ga_persistent ga" "ga_kv (release_all ga) = ga_kv ga"
proof -
  let ?ks = "map fst (ga_buf_alive ga)"
  have wf: "bt_wf (ga_buf_alive ga)" using assms by (simp add: pool_ok_def)
  have ks: "set ?ks = alive ga" by (simp add: alive_def dom_map_of_conv_image_fst)
  let ?g = "fold (\<lambda>key ga. free_in_pool ga key) ?ks ga"
  have F: "in_use_ok ?g (alive ga \<union> pers ga - set ?ks)" "ga_persistent ?g = ga_persistent ga" "ga_kv ?g = ga_kv ga"
    "dom (map_of (ga_buf_class ?g)) = dom (map_of (ga_buf_class ga)) - set ?ks"
    using release_fold_ok [OF pool_ok_in_use [OF assms] bt_wf_distinct [OF wf]] ks assms by (auto simp: pool_ok_def)
  show "ga_buf_alive (release_all ga) = []" "ga_node_to_buf (release_all ga) = []"
    "ga_persistent (release_all ga) = ga_persistent ga" "ga_kv (release_all ga) = ga_kv ga"
    using F by (simp_all add: release_all_def)
  have "alive ga \<union> pers ga - set ?ks = pers ga" using assms ks by (auto simp: pool_ok_def)
  moreover have "in_use_ok (release_all ga) (pers ga) = in_use_ok ?g (pers ga)"
    by (rule in_use_ok_cong) (simp_all add: release_all_def)
  ultimately show "pool_ok (release_all ga)"
    using F ks assms by (auto simp: pool_ok_def alive_def pers_def release_all_def)
qed

section \<open>Persistent regions and deadlines\<close>

definition kv_pers :: "GraphAllocator \<Rightarrow> bool" where
  "kv_pers ga \<longleftrightarrow> (\<forall>l r. kv_get (ga_kv ga) l = Some r \<longrightarrow> key_of (kl_k r) \<in> pers ga \<and> key_of (kl_v r) \<in> pers ga)"

lemma alloc_persistent_ok:
  assumes "pool_ok ga" "alloc_persistent ga nm b n = (ga', Ok br)"
  shows "pool_ok ga'" "pers ga' = insert (key_of br) (pers ga)" "ga_buf_alive ga' = ga_buf_alive ga"
    "ga_node_to_buf ga' = ga_node_to_buf ga" "ga_kv ga' = ga_kv ga"
proof -
  obtain ga1 i where g1: "alloc_exact_in_pool ga b n = (ga1, Ok i)"
    and g': "ga' = ga1\<lparr>ga_persistent := ga_persistent ga1 @ [(nm, b, i)]\<rparr>" "br = bufref_own b i n"
    using assms(2) by (auto simp: alloc_persistent_def split: prod.splits sum.splits)
  note A = alloc_exact_ok [OF pool_ok_in_use [OF assms(1)] g1]
  from A(3) obtain p' where p': "ga1 = ga\<lparr>ga_pools := bt_insert b p' (ga_pools ga)\<rparr>" by blast
  show pe: "pers ga' = insert (key_of br) (pers ga)"
    by (auto simp: g' p' pers_def key_of_def bufref_own_def)
  show f: "ga_buf_alive ga' = ga_buf_alive ga" "ga_node_to_buf ga' = ga_node_to_buf ga" "ga_kv ga' = ga_kv ga"
    by (simp_all add: g' p')
  have "in_use_ok ga' (insert (b, i) (alive ga \<union> pers ga))"
    using A(2) in_use_ok_cong [of ga' ga1] by (simp add: g')
  moreover have "key_of br = (b, i)" by (simp add: g' key_of_def bufref_own_def)
  moreover have "alive ga' = alive ga" "ga_buf_class ga' = ga_buf_class ga" by (simp_all add: alive_def f g' p')
  ultimately show "pool_ok ga'" using assms(1) A(1) pe f by (auto simp: pool_ok_def)
qed

lemma ensure_kv_ok:
  assumes "pool_ok ga" "kv_pers ga" "ensure_kv rp ga layer b e r n = (ga', Ok (k, v))"
  shows "pool_ok ga' \<and> kv_pers ga' \<and> pers ga \<subseteq> pers ga' \<and> key_of k \<in> pers ga' \<and>
    ga_buf_alive ga' = ga_buf_alive ga \<and> ga_node_to_buf ga' = ga_node_to_buf ga"
proof (cases "kv_get (ga_kv ga) layer")
  case (Some region)
  then have "ga' = ga" "k = kl_k region"
    using assms(3) by (auto simp: ensure_kv_def Let_def split: sum.splits if_splits)
  then show ?thesis using assms(1,2) Some by (auto simp: kv_pers_def)
next
  case None
  then obtain ga1 ga2 where g1: "alloc_persistent ga (kv_region_name layer ''k'') b (r * n) = (ga1, Ok k)"
    and g2: "alloc_persistent ga1 (kv_region_name layer ''v'') b (r * n) = (ga2, Ok v)"
    and g': "ga' = ga2\<lparr>ga_kv := kv_insert (ga_kv ga2) layer k v e r n (r \<noteq> e)\<rparr>"
    using assms(3) by (auto simp: ensure_kv_def Let_def split: sum.splits prod.splits)
  note A = alloc_persistent_ok [OF assms(1) g1]
  note B = alloc_persistent_ok [OF A(1) g2]
  have pe: "pers ga' = insert (key_of v) (insert (key_of k) (pers ga))" using A(2) B(2) by (simp add: g' pers_def)
  have "pool_ok ga'"
  proof -
    have "in_use_ok ga' T = in_use_ok ga2 T" for T by (rule in_use_ok_cong) (simp_all add: g')
    then show ?thesis using B(1) by (simp add: pool_ok_def g' alive_def pers_def)
  qed
  moreover have "kv_pers ga'"
    using assms(2) A(5) B(5) unfolding kv_pers_def pe by (auto simp: g' kv_get_def kv_insert_def)
  ultimately show ?thesis using A B pe by (auto simp: g')
qed

definition grown_keys :: "GraphAllocator \<Rightarrow> NodeId list \<Rightarrow> (Backend \<times> nat) set" where
  "grown_keys ga ns = {k. \<exists>n br. n \<in> set ns \<and> map_of (ga_node_to_buf ga) n = Some br \<and> k = key_of br}"

lemma extend_buffer_alive_ok:
  assumes "pool_ok ga"
  shows "pool_ok (extend_buffer_alive ga ns to)" "ga_node_to_buf (extend_buffer_alive ga ns to) = ga_node_to_buf ga"
    "ga_persistent (extend_buffer_alive ga ns to) = ga_persistent ga" "ga_kv (extend_buffer_alive ga ns to) = ga_kv ga"
    "map_of (ga_buf_alive (extend_buffer_alive ga ns to)) k =
      map_option (\<lambda>al. if k \<in> grown_keys ga ns then max al to else al) (map_of (ga_buf_alive ga) k)"
proof -
  have "pool_ok (extend_buffer_alive ga ns to) \<and> ga_node_to_buf (extend_buffer_alive ga ns to) = ga_node_to_buf ga \<and>
    ga_persistent (extend_buffer_alive ga ns to) = ga_persistent ga \<and> ga_kv (extend_buffer_alive ga ns to) = ga_kv ga \<and>
    (\<forall>k. map_of (ga_buf_alive (extend_buffer_alive ga ns to)) k =
      map_option (\<lambda>al. if k \<in> grown_keys ga ns then max al to else al) (map_of (ga_buf_alive ga) k))"
    using assms
  proof (induction ns arbitrary: ga)
    case Nil
    then show ?case by (simp add: extend_buffer_alive_def grown_keys_def option.map_ident)
  next
    case (Cons n ns)
    define g1 where "g1 = extend_buffer_alive ga [n] to"
    have step: "extend_buffer_alive ga (n # ns) to = extend_buffer_alive g1 ns to"
      by (simp add: extend_buffer_alive_def g1_def)
    have g1: "ga_node_to_buf g1 = ga_node_to_buf ga" "ga_persistent g1 = ga_persistent ga" "ga_kv g1 = ga_kv ga"
      "ga_pools g1 = ga_pools ga" "ga_slots g1 = ga_slots ga" "ga_buf_class g1 = ga_buf_class ga"
      "bt_wf (ga_buf_alive ga) \<Longrightarrow> bt_wf (ga_buf_alive g1)"
      by (auto simp: g1_def extend_buffer_alive_def split: option.splits)
    have g1m: "map_of (ga_buf_alive g1) k =
        map_option (\<lambda>al. if k \<in> grown_keys ga [n] then max al to else al) (map_of (ga_buf_alive ga) k)" for k
      by (cases "map_of (ga_buf_alive ga) k")
        (auto simp: g1_def extend_buffer_alive_def grown_keys_def key_of_def split: option.splits)
    have al: "alive g1 = alive ga" "pers g1 = pers ga" using g1(2) g1m by (auto simp: alive_def pers_def)
    have "pool_ok g1"
      using Cons.prems in_use_ok_cong [OF g1(4,5)] g1(6,7) by (auto simp: pool_ok_def al)
    note IH = Cons.IH [OF this]
    have "grown_keys ga (n # ns) = grown_keys ga [n] \<union> grown_keys g1 ns"
      using g1(1) by (auto simp: grown_keys_def)
    then show ?case
      unfolding step using IH g1 g1m by (auto simp: option.map_comp comp_def intro!: option.map_cong0)
  qed
  then show "pool_ok (extend_buffer_alive ga ns to)" "ga_node_to_buf (extend_buffer_alive ga ns to) = ga_node_to_buf ga"
    "ga_persistent (extend_buffer_alive ga ns to) = ga_persistent ga" "ga_kv (extend_buffer_alive ga ns to) = ga_kv ga"
    "map_of (ga_buf_alive (extend_buffer_alive ga ns to)) k =
      map_option (\<lambda>al. if k \<in> grown_keys ga ns then max al to else al) (map_of (ga_buf_alive ga) k)" by blast+
qed

end
