(* ===== verification/Graph_Live.thy ===== *)
theory Graph_Live
  imports Graph_Pool
begin

text \<open>
  Liveness: what the walk of \<open>alloc_graph\<close> keeps true after every node, and the properties it
  gives a finished plan. A node has a buffer as long as something reads it, and a buffer is
  handed to another node only after the last read, except for the in-place operators.
\<close>

section \<open>The last uses\<close>

lemma raise_use_fold:
  assumes "\<forall>s \<in> set ss. s < length lu"
  shows "length (fold (raise_use i) ss lu) = length lu \<and>
    (\<forall>m < length lu. fold (raise_use i) ss lu ! m = (if m \<in> set ss then max (lu ! m) i else lu ! m))"
  using assms
proof (induction ss arbitrary: lu)
  case (Cons s ss)
  have "length (raise_use i s lu) = length lu" by (simp add: raise_use_def)
  moreover have "\<forall>m < length lu. raise_use i s lu ! m = (if m = s then max (lu ! m) i else lu ! m)"
    by (auto simp: raise_use_def nth_list_update)
  ultimately show ?case using Cons.IH [of "raise_use i s lu"] Cons.prems by auto
qed simp

lemma reads_fold:
  assumes "\<forall>i \<in> set is. \<forall>s \<in> set (srcs g i). s < length lu" "\<forall>i \<in> set is. i \<le> N" "\<forall>m < length lu. lu ! m \<le> N"
  defines "lu' \<equiv> fold (\<lambda>i lu. fold (raise_use i) (srcs g i) lu) is lu"
  shows "length lu' = length lu \<and> (\<forall>m < length lu. lu ! m \<le> lu' ! m \<and> lu' ! m \<le> N) \<and>
    (\<forall>i \<in> set is. \<forall>s \<in> set (srcs g i). i \<le> lu' ! s)"
  using assms(1-3) unfolding lu'_def
proof (induction "is" arbitrary: lu)
  case (Cons i "is")
  let ?l = "fold (raise_use i) (srcs g i) lu"
  have R: "length ?l = length lu" "\<And>m. m < length lu \<Longrightarrow> ?l ! m = (if m \<in> set (srcs g i) then max (lu ! m) i else lu ! m)"
    using raise_use_fold [of "srcs g i" lu i] Cons.prems(1) by auto
  have le: "\<forall>m < length ?l. ?l ! m \<le> N" using R Cons.prems(2,3) by simp
  note I = Cons.IH [of ?l, unfolded R(1), OF _ _ le [unfolded R(1)]]
  have I1: "length (fold (\<lambda>i lu. fold (raise_use i) (srcs g i) lu) is ?l) = length lu"
    "\<And>m. m < length lu \<Longrightarrow> ?l ! m \<le> fold (\<lambda>i lu. fold (raise_use i) (srcs g i) lu) is ?l ! m \<and>
       fold (\<lambda>i lu. fold (raise_use i) (srcs g i) lu) is ?l ! m \<le> N"
    "\<forall>j \<in> set is. \<forall>s \<in> set (srcs g j). j \<le> fold (\<lambda>i lu. fold (raise_use i) (srcs g i) lu) is ?l ! s"
    using I Cons.prems(1,2) by auto
  have "i \<le> fold (\<lambda>i lu. fold (raise_use i) (srcs g i) lu) is ?l ! s" if "s \<in> set (srcs g i)" for s
    using I1(2) [of s] R(2) [of s] Cons.prems(1) that by force
  moreover have "lu ! m \<le> ?l ! m" if "m < length lu" for m using R(2) [OF that] by simp
  ultimately show ?case using I1 by (auto intro: order_trans)
qed simp

lemma set_fold:
  "length (fold (\<lambda>o' lu. lu[o' := n]) os lu) = length lu \<and>
   (\<forall>m < length lu. fold (\<lambda>o' lu. lu[o' := n]) os lu ! m = (if m \<in> set os then n else lu ! m))"
proof (induction os arbitrary: lu)
  case (Cons o' os)
  then show ?case using Cons.IH [of "lu[o' := n]"] by (auto simp: nth_list_update)
qed simp

text \<open>What the builder guarantees of a graph, beyond the range checks of the allocator.\<close>

definition built :: "ComputeGraph \<Rightarrow> bool" where
  "built g \<longleftrightarrow> numbered g \<and> (\<forall>i < n_nodes g. \<forall>s \<in> set (srcs g i). s < i) \<and>
     (\<forall>i < n_nodes g. \<forall>v. cn_view (g_node g i) = Some v \<longrightarrow> va_src v \<in> set (srcs g i)) \<and>
     (\<forall>i < n_nodes g. is_input (g_node g i) \<longrightarrow> i \<in> set (g_inputs g))"

lemma built_view: "built g \<Longrightarrow> m < n_nodes g \<Longrightarrow> cn_view (g_node g m) = Some v \<Longrightarrow> va_src v < m"
  by (auto simp: built_def)

lemma last_uses_ok:
  assumes "built g"
  shows "length (last_uses g) = n_nodes g"
    "m < n_nodes g \<Longrightarrow> m \<le> last_uses g ! m \<and> last_uses g ! m \<le> n_nodes g"
    "i < n_nodes g \<Longrightarrow> s \<in> set (srcs g i) \<Longrightarrow> i \<le> last_uses g ! s"
    "m < n_nodes g \<Longrightarrow> m \<in> set (g_inputs g) \<union> set (g_outputs g) \<Longrightarrow> last_uses g ! m = n_nodes g"
proof -
  let ?n = "n_nodes g"
  define r where "r = fold (\<lambda>i lu. fold (raise_use i) (srcs g i) lu) [0..<?n] [0..<?n]"
  define os where "os = fold (\<lambda>o' lu. lu[o' := ?n]) (g_outputs g) r"
  have L: "last_uses g = fold (\<lambda>o' lu. lu[o' := ?n]) (g_inputs g) os"
    by (simp add: last_uses_def Let_def r_def os_def)
  have "\<forall>i \<in> set [0..<?n]. \<forall>s \<in> set (srcs g i). s < length [0..<?n]"
    using assms by (fastforce simp: built_def)
  from reads_fold [OF this, of ?n] have R: "length r = ?n" "\<And>m. m < ?n \<Longrightarrow> m \<le> r ! m \<and> r ! m \<le> ?n"
    "\<And>i s. i < ?n \<Longrightarrow> s \<in> set (srcs g i) \<Longrightarrow> i \<le> r ! s" by (auto simp: r_def)
  have O: "length os = ?n" "\<And>m. m < ?n \<Longrightarrow> os ! m = (if m \<in> set (g_outputs g) then ?n else r ! m)"
    using set_fold [of ?n "g_outputs g" r] R(1) by (auto simp: os_def)
  have F: "length (last_uses g) = ?n"
    "\<And>m. m < ?n \<Longrightarrow> last_uses g ! m = (if m \<in> set (g_inputs g) then ?n else os ! m)"
    using set_fold [of ?n "g_inputs g" os] O(1) by (auto simp: L)
  show "length (last_uses g) = ?n" by (rule F)
  show "m \<le> last_uses g ! m \<and> last_uses g ! m \<le> ?n" if "m < ?n"
    using that F(2) O(2) R(2) by auto
  show "last_uses g ! m = ?n" if "m < ?n" "m \<in> set (g_inputs g) \<union> set (g_outputs g)"
    using that F(2) O(2) by auto
  show "i \<le> last_uses g ! s" if "i < ?n" "s \<in> set (srcs g i)"
  proof -
    have "s < ?n" using that assms by (fastforce simp: built_def)
    then show ?thesis using that F(2) O(2) R(3) by auto
  qed
qed

section \<open>The walk up the view chain\<close>

lemma extend_through_views_ok:
  assumes "extend_through_views g lu cur to = Some (lu', grown)"
    and "P cur" and "\<And>m v. P m \<Longrightarrow> lu ! m < to \<Longrightarrow> cn_view (g_node g m) = Some v \<Longrightarrow> P (va_src v)"
  shows "length lu' = length lu \<and> (\<forall>m < length lu. lu' ! m = (if m \<in> set grown then to else lu ! m)) \<and>
    (\<forall>m \<in> set grown. lu ! m < to \<and> P m \<and> m < length lu) \<and> cur < length lu \<and> to \<le> lu' ! cur \<and>
    (\<forall>m \<in> set grown. \<forall>v. cn_view (g_node g m) = Some v \<longrightarrow> va_src v < length lu \<and> to \<le> lu' ! va_src v)"
  using assms
proof (induction g lu cur to arbitrary: lu' grown rule: extend_through_views.induct)
  case (1 g lu cur to)
  note IH = "1.IH" and A = "1.prems"
  show ?case
  proof (cases "to \<le> lu ! cur")
    case True
    then show ?thesis using A(1) by (auto simp: extend_through_views.simps [of g lu] split: if_splits)
  next
    case False
    have cur: "cur < length lu" using A(1) by (auto simp: extend_through_views.simps [of g lu] split: if_splits)
    show ?thesis
    proof (cases "cn_view (g_node g cur)")
      case None
      then have "lu' = lu[cur := to]" "grown = [cur]"
        using A(1) False cur by (auto simp: extend_through_views.simps [of g lu])
      then show ?thesis using cur False A(2) None by (simp add: nth_list_update)
    next
      case (Some v)
      let ?lu = "lu[cur := to]"
      from A(1) False cur Some obtain gr where
        w: "extend_through_views g ?lu (va_src v) to = Some (lu', gr)" "grown = cur # gr"
        by (auto simp: extend_through_views.simps [of g lu])
      have leD': "\<not> length lu \<le> cur" using cur by simp
      have P: "P (va_src v)" using A(2,3) False Some by simp
      have Q: "P (va_src v)" if "P m" "?lu ! m < to" "cn_view (g_node g m) = Some v" for m v
        using A(3) that cur by (cases "m = cur") (auto simp: nth_list_update)
      have I: "length lu' = length lu \<and> (\<forall>m < length lu. lu' ! m = (if m \<in> set gr then to else ?lu ! m)) \<and>
        (\<forall>m \<in> set gr. ?lu ! m < to \<and> P m \<and> m < length lu) \<and> va_src v < length lu \<and> to \<le> lu' ! va_src v \<and>
        (\<forall>m \<in> set gr. \<forall>v. cn_view (g_node g m) = Some v \<longrightarrow> va_src v < length lu \<and> to \<le> lu' ! va_src v)"
        by (rule IH [OF leD' False Some w(1) P Q, unfolded length_list_update])
      then have I': "length lu' = length lu" "\<And>m. m < length lu \<Longrightarrow> lu' ! m = (if m \<in> set gr then to else ?lu ! m)"
        "\<And>m. m \<in> set gr \<Longrightarrow> ?lu ! m < to \<and> P m \<and> m < length lu" "va_src v < length lu \<and> to \<le> lu' ! va_src v"
        "\<And>m v. m \<in> set gr \<Longrightarrow> cn_view (g_node g m) = Some v \<Longrightarrow> va_src v < length lu \<and> to \<le> lu' ! va_src v"
        by blast+
      have ne: "cur \<notin> set gr" using I'(3) [of cur] cur by auto
      have old: "lu ! m < to" if "m \<in> set gr" for m using I'(3) [OF that] ne that by (metis nth_list_update_neq)
      show ?thesis
      proof (intro conjI allI impI ballI)
        show "lu' ! m = (if m \<in> set grown then to else lu ! m)" if "m < length lu" for m
          using I'(2) [OF that] w(2) that by (auto simp: nth_list_update)
        show "to \<le> lu' ! cur" using I'(2) [OF cur] cur ne by simp
        show "lu ! m < to" "P m" "m < length lu" if "m \<in> set grown" for m
          using that w(2) old I'(3) [of m] cur False A(2) by auto
        show "va_src v' < length lu" "to \<le> lu' ! va_src v'" if "m \<in> set grown" "cn_view (g_node g m) = Some v'" for m v'
          using that w(2) I'(4) I'(5) [of m v'] Some by auto
      qed (use I'(1) cur in auto)
    qed
  qed
qed

section \<open>The invariant of the walk\<close>

abbreviation buf :: "GraphAllocator \<Rightarrow> NodeId \<Rightarrow> BufRef option" where
  "buf ga \<equiv> map_of (ga_node_to_buf ga)"

definition known :: "ComputeGraph \<Rightarrow> nat \<Rightarrow> NodeId set" where
  "known g i = {m. m < n_nodes g \<and> (m < i \<or> is_input (g_node g m))}"

definition held :: "GraphAllocator \<Rightarrow> Backend \<times> nat \<Rightarrow> nat \<Rightarrow> bool" where
  "held ga key to \<longleftrightarrow> key \<in> pers ga \<or> (\<exists>al. map_of (ga_buf_alive ga) key = Some al \<and> to \<le> al)"

definition in_place_op :: "Op \<Rightarrow> bool" where
  "in_place_op op \<longleftrightarrow> (case op of Silu \<Rightarrow> True | RoPE _ \<Rightarrow> True | SwiGLU \<Rightarrow> True | QkvBiasRopeStore _ \<Rightarrow> True | _ \<Rightarrow> False)"

text \<open>The node writes over the buffer of its first source, which nothing else lists as a source.\<close>

definition in_place_at :: "ComputeGraph \<Rightarrow> GraphAllocator \<Rightarrow> NodeId \<Rightarrow> bool" where
  "in_place_at g ga m \<longleftrightarrow> in_place_op (cn_op (g_node g m)) \<and>
     (\<exists>s ss. cn_src (g_node g m) = s # ss \<and> n_consumers g s = 1 \<and> buf ga s = buf ga m)"

definition writes :: "ComputeGraph \<Rightarrow> NodeId \<Rightarrow> bool" where
  "writes g m \<longleftrightarrow> \<not> is_input (g_node g m) \<and> cn_view (g_node g m) = None"

definition written_ok :: "ComputeGraph \<Rightarrow> GraphAllocator \<Rightarrow> nat list \<Rightarrow> NodeId \<Rightarrow> BufRef \<Rightarrow> bool" where
  "written_ok g ga lu m br \<longleftrightarrow> key_of br \<in> pers ga \<or> in_place_at g ga m \<or>
     (\<forall>m' br'. m' \<in> known g m \<longrightarrow> buf ga m' = Some br' \<longrightarrow> key_of br' = key_of br \<longrightarrow> lu ! m' < m)"

definition view_ok :: "ComputeGraph \<Rightarrow> GraphAllocator \<Rightarrow> NodeId \<Rightarrow> bool" where
  "view_ok g ga m \<longleftrightarrow> (\<forall>v. cn_view (g_node g m) = Some v \<longrightarrow>
     (\<exists>p. buf ga (va_src v) = Some p \<and> buf ga m = Some (bufref_window p (va_offset v) (n_elements (g_node g m))) \<and>
       va_offset v + n_elements (g_node g m) \<le> n_elements (g_node g (va_src v))))"

definition live_inv :: "ComputeGraph \<Rightarrow> nat \<Rightarrow> GraphAllocator \<Rightarrow> nat list \<Rightarrow> bool" where
  "live_inv g i ga lu \<longleftrightarrow> pool_ok ga \<and> kv_pers ga \<and> length lu = n_nodes g \<and>
     (\<forall>m < n_nodes g. last_uses g ! m \<le> lu ! m \<and> lu ! m \<le> n_nodes g) \<and>
     dom (buf ga) \<subseteq> known g i \<and>
     (\<forall>m \<in> known g i. m < last_uses g ! m \<longrightarrow> buf ga m \<noteq> None) \<and>
     (\<forall>m br. buf ga m = Some br \<longrightarrow> i \<le> lu ! m \<longrightarrow> held ga (key_of br) (lu ! m)) \<and>
     (\<forall>m v. m < i \<longrightarrow> m < n_nodes g \<longrightarrow> \<not> is_input (g_node g m) \<longrightarrow> cn_view (g_node g m) = Some v \<longrightarrow> lu ! m \<le> lu ! va_src v) \<and>
     (\<forall>m. m < i \<longrightarrow> m < n_nodes g \<longrightarrow> \<not> is_input (g_node g m) \<longrightarrow> view_ok g ga m) \<and>
     (\<forall>m br. m < i \<longrightarrow> writes g m \<longrightarrow> buf ga m = Some br \<longrightarrow> written_ok g ga lu m br)"

lemma live_invD:
  assumes "live_inv g i ga lu"
  shows "pool_ok ga" "kv_pers ga" "length lu = n_nodes g"
    "m < n_nodes g \<Longrightarrow> last_uses g ! m \<le> lu ! m" "m < n_nodes g \<Longrightarrow> lu ! m \<le> n_nodes g"
    "buf ga m = Some br \<Longrightarrow> m \<in> known g i"
    "m \<in> known g i \<Longrightarrow> m < last_uses g ! m \<Longrightarrow> buf ga m \<noteq> None"
    "buf ga m = Some br \<Longrightarrow> i \<le> lu ! m \<Longrightarrow> held ga (key_of br) (lu ! m)"
    "m < i \<Longrightarrow> m < n_nodes g \<Longrightarrow> \<not> is_input (g_node g m) \<Longrightarrow> cn_view (g_node g m) = Some v \<Longrightarrow> lu ! m \<le> lu ! va_src v"
    "m < i \<Longrightarrow> m < n_nodes g \<Longrightarrow> \<not> is_input (g_node g m) \<Longrightarrow> view_ok g ga m"
    "m < i \<Longrightarrow> writes g m \<Longrightarrow> buf ga m = Some br \<Longrightarrow> written_ok g ga lu m br"
  using assms unfolding live_inv_def by blast+

lemma known_Suc: "i < n_nodes g \<Longrightarrow> known g (Suc i) = insert i (known g i)"
  by (auto simp: known_def)

lemma known_mono: "m \<le> i \<Longrightarrow> known g m \<subseteq> known g i"
  by (auto simp: known_def)

lemma held_mono: "held ga k a \<Longrightarrow> b \<le> a \<Longrightarrow> held ga k b"
  by (auto simp: held_def)

lemma in_place_at_cong:
  assumes "built g" "m < i" "i < n_nodes g" "buf ga' = (buf ga)(i := b)" "in_place_at g ga m"
  shows "in_place_at g ga' m"
proof -
  from assms(5) obtain s ss where s: "cn_src (g_node g m) = s # ss" "n_consumers g s = 1" "buf ga s = buf ga m"
    by (auto simp: in_place_at_def)
  then have "s < m" using assms(1-3) by (auto simp: built_def)
  then show ?thesis using s assms(2,4,5) by (auto simp: in_place_at_def)
qed

text \<open>
  One step of the walk: node \<open>i\<close> gets the buffer \<open>b\<close> or none. Deadlines may grow, but only of
  nodes that are still to be read.
\<close>

lemma live_step:
  assumes inv: "live_inv g i ga lu" and g: "built g" "i < n_nodes g" "\<not> is_input (g_node g i)"
    and ok: "pool_ok ga'" "kv_pers ga'" "pers ga \<subseteq> pers ga'" "buf ga' = (buf ga)(i := b)"
    and lu: "length lu' = n_nodes g" "\<And>m. m < n_nodes g \<Longrightarrow> lu ! m \<le> lu' ! m \<and> lu' ! m \<le> n_nodes g"
      "\<And>m. m < n_nodes g \<Longrightarrow> lu ! m < i \<Longrightarrow> lu' ! m = lu ! m"
    and hold: "\<And>m br. m \<noteq> i \<Longrightarrow> buf ga m = Some br \<Longrightarrow> i \<le> lu ! m \<Longrightarrow> held ga' (key_of br) (lu' ! m)"
      "\<And>br. b = Some br \<Longrightarrow> held ga' (key_of br) (lu' ! i)"
    and has: "i < last_uses g ! i \<Longrightarrow> b \<noteq> None"
    and par: "\<And>m v. m \<le> i \<Longrightarrow> \<not> is_input (g_node g m) \<Longrightarrow> cn_view (g_node g m) = Some v \<Longrightarrow> lu' ! m \<le> lu' ! va_src v"
    and new: "view_ok g ga' i" "\<And>br. writes g i \<Longrightarrow> b = Some br \<Longrightarrow> written_ok g ga' lu' i br"
  shows "live_inv g (Suc i) ga' lu'"
  unfolding live_inv_def
proof (intro conjI allI impI ballI)
  note D = live_invD [OF inv]
  have ni: "i \<notin> known g i" using g(3) by (simp add: known_def)
  have bi: "buf ga i = None" using D(6) [of i] ni by (cases "buf ga i") auto
  show "pool_ok ga'" "kv_pers ga'" "length lu' = n_nodes g" by (fact ok lu)+
  show "last_uses g ! m \<le> lu' ! m" "lu' ! m \<le> n_nodes g" if "m < n_nodes g" for m
    using that D(4) [OF that] lu(2) [OF that] by auto
  show "dom (buf ga') \<subseteq> known g (Suc i)"
    using D(6) ok(4) by (auto simp: known_Suc [OF g(2)] split: if_splits)
  show "buf ga' m \<noteq> None" if "m \<in> known g (Suc i)" "m < last_uses g ! m" for m
    using that D(7) [of m] has ok(4) by (auto simp: known_Suc [OF g(2)])
  show "held ga' (key_of br) (lu' ! m)" if "buf ga' m = Some br" "Suc i \<le> lu' ! m" for m br
  proof (cases "m = i")
    case False
    then have m: "buf ga m = Some br" using that ok(4) by simp
    then have "m < n_nodes g" using D(6) by (fastforce simp: known_def)
    then have "i \<le> lu ! m" using that(2) lu(3) [of m] by fastforce
    then show ?thesis using hold(1) [OF False m] by simp
  qed (use that ok(4) hold(2) in auto)
  show "lu' ! m \<le> lu' ! va_src v"
    if "m < Suc i" "\<not> is_input (g_node g m)" "cn_view (g_node g m) = Some v" for m v
    using par that by simp
  show "view_ok g ga' m" if m: "m < Suc i" "m < n_nodes g" "\<not> is_input (g_node g m)" for m
  proof (cases "m = i")
    case False
    then have "view_ok g ga m" using D(10) m by simp
    moreover have "va_src v \<noteq> i" if "cn_view (g_node g m) = Some v" for v
      using g(1) m(1,2) False that by (fastforce simp: built_def)
    ultimately show ?thesis using ok(4) False by (auto simp: view_ok_def)
  qed (use new in simp)
  show "written_ok g ga' lu' m br" if m: "m < Suc i" "writes g m" "buf ga' m = Some br" for m br
  proof (cases "m = i")
    case False
    then have old: "written_ok g ga lu m br" using D(11) m ok(4) by simp
    have "lu' ! m' < m" if "\<forall>m' br'. m' \<in> known g m \<longrightarrow> buf ga m' = Some br' \<longrightarrow> key_of br' = key_of br \<longrightarrow> lu ! m' < m"
      "m' \<in> known g m" "buf ga' m' = Some br'" "key_of br' = key_of br" for m' br'
    proof -
      have "m' \<noteq> i" "m' < n_nodes g" using that(2) m(1) ni known_mono [of m i g] by (auto simp: known_def)
      then have "lu ! m' < m" using that ok(4) by simp
      then show ?thesis using lu(3) [of m'] \<open>m' < n_nodes g\<close> m(1) by simp
    qed
    then show ?thesis
      using old ok(3) in_place_at_cong [OF g(1) _ g(2) ok(4), of m] False m(1) unfolding written_ok_def by auto
  qed (use new m ok(4) in auto)
qed

section \<open>Each step of the walk keeps it\<close>

lemma kv_pers_cong: "ga_kv ga' = ga_kv ga \<Longrightarrow> pers ga \<subseteq> pers ga' \<Longrightarrow> kv_pers ga \<Longrightarrow> kv_pers ga'"
  by (auto simp: kv_pers_def)

lemma pers_cong: "ga_persistent ga' = ga_persistent ga \<Longrightarrow> pers ga' = pers ga"
  by (simp add: pers_def)

text \<open>Operations that leave the node buffers alone.\<close>

lemma live_inv_frame:
  assumes inv: "live_inv g i ga lu" and ok: "pool_ok ga'" "kv_pers ga'" "pers ga \<subseteq> pers ga'"
    "ga_node_to_buf ga' = ga_node_to_buf ga"
    and hold: "\<And>k to. i \<le> to \<Longrightarrow> held ga k to \<Longrightarrow> held ga' k to"
  shows "live_inv g i ga' lu"
proof -
  have "written_ok g ga' lu m br" if "written_ok g ga lu m br" for m br
    using that ok(3,4) by (auto simp: written_ok_def in_place_at_def)
  moreover have "view_ok g ga' m" if "view_ok g ga m" for m using that ok(4) by (simp add: view_ok_def)
  moreover note D = live_invD [OF inv]
  ultimately show ?thesis
    unfolding live_inv_def ok(4)
  proof (intro conjI allI impI ballI)
    show "held ga' (key_of br) (lu ! m)" if "buf ga m = Some br" "i \<le> lu ! m" for m br
      using hold that D(8) by blast
  qed (use ok(1,2) D(3-7,9-11) in blast)+
qed

lemma sweep_live:
  assumes inv: "live_inv g i ga lu"
  shows "live_inv g i (sweep ga i) lu"
proof (rule live_inv_frame [OF inv])
  note S = sweep_ok [OF live_invD(1) [OF inv], of i]
  show "pool_ok (sweep ga i)" "ga_node_to_buf (sweep ga i) = ga_node_to_buf ga" by (fact S)+
  show "pers ga \<subseteq> pers (sweep ga i)" using pers_cong [OF S(3)] by simp
  then show "kv_pers (sweep ga i)" using kv_pers_cong [OF S(4)] live_invD(2) [OF inv] by simp
  show "held (sweep ga i) k to" if "i \<le> to" "held ga k to" for k to
    using that S(5) [of k] pers_cong [OF S(3)] by (auto simp: held_def)
qed

lemma ensure_kv_live:
  assumes inv: "live_inv g i ga lu" and k: "ensure_kv rp ga layer b e r n = (ga', Ok kv)"
  shows "live_inv g i ga' lu" "key_of (fst kv) \<in> pers ga'"
proof -
  obtain k v where kv: "kv = (k, v)" by (cases kv)
  note E = ensure_kv_ok [OF live_invD(1,2) [OF inv] k [unfolded kv]]
  then have "held ga' key to" if "held ga key to" for key to using that by (auto simp: held_def)
  then show "live_inv g i ga' lu" "key_of (fst kv) \<in> pers ga'"
    using live_inv_frame [OF inv] E kv by auto
qed

lemma par_old:
  assumes "live_inv g i ga lu" "i < n_nodes g" "m \<le> i" "\<not> is_input (g_node g m)" "cn_view (g_node g i) = None"
    "cn_view (g_node g m) = Some v"
  shows "lu ! m \<le> lu ! va_src v"
  using live_invD(9) [OF assms(1), of m v] assms(2-6) by (cases "m = i") auto

text \<open>A node that writes its own buffer.\<close>

lemma place_live_live:
  assumes inv: "live_inv g i ga lu" and g: "built g" "i < n_nodes g" "writes g i"
    and p: "place_live mem ga lu (g_node g i) i = (ga', Ok lu')"
  shows "live_inv g (Suc i) ga' lu'"
proof -
  note D = live_invD [OF inv]
  have ni: "\<not> is_input (g_node g i)" "cn_view (g_node g i) = None" using g(3) by (auto simp: writes_def)
  have lu': "lu' = lu" using p by (auto simp: place_live_def split: if_splits prod.splits sum.splits)
  note step = live_step [OF inv g(1,2) ni(1)]
  have bi: "buf ga i = None" using D(6) [of i] ni(1) by (cases "buf ga i") (auto simp: known_def)
  show ?thesis
  proof (cases "i < lu ! i")
    case False
    then have ga': "ga' = ga" using p by (simp add: place_live_def)
    show ?thesis unfolding lu' ga'
      by (rule step [where b = None])
        (use D D(4) [OF g(2)] bi False ni par_old [OF inv g(2)] in \<open>auto simp: view_ok_def fun_upd_idem\<close>)
  next
    case True
    then have p': "place_own mem ga lu (g_node g i) i = (ga', Ok ())"
      using p by (auto simp: place_live_def split: prod.splits sum.splits)
    from place_own_ok [OF D(1) p'] obtain pid where P:
      "(node_backend (g_node g i), pid) \<notin> alive ga \<union> pers ga" "pool_ok ga'"
      "map_of (ga_buf_alive ga') = (map_of (ga_buf_alive ga))((node_backend (g_node g i), pid) \<mapsto> lu ! i)"
      "buf ga' = (buf ga)(i \<mapsto> bufref_own (node_backend (g_node g i)) pid (n_elements (g_node g i)))"
      "ga_persistent ga' = ga_persistent ga" "ga_kv ga' = ga_kv ga" .
    let ?br = "bufref_own (node_backend (g_node g i)) pid (n_elements (g_node g i))"
    have key: "key_of ?br = (node_backend (g_node g i), pid)" by (simp add: key_of_def bufref_own_def)
    have pe: "pers ga' = pers ga" by (rule pers_cong [OF P(5)])
    have hold: "held ga' k to" if "held ga k to" for k to
      using that P(1,3) pe by (auto simp: held_def alive_def)
    have "written_ok g ga' lu i ?br"
    proof -
      have "lu ! m < i" if m: "m \<in> known g i" "buf ga' m = Some br'" "key_of br' = key_of ?br" for m br'
      proof (rule ccontr)
        assume "\<not> lu ! m < i"
        moreover have "m \<noteq> i" using m(1) ni by (auto simp: known_def)
        ultimately have "held ga (key_of br') (lu ! m)" using D(8) m(2) P(4) by simp
        then show False using m(3) key P(1) by (auto simp: held_def alive_def)
      qed
      then show ?thesis by (simp add: written_ok_def)
    qed
    then show ?thesis unfolding lu'
      by (intro step [where b = "Some ?br"])
        (use D P(2,4) pe hold ni kv_pers_cong [OF P(6)] par_old [OF inv g(2)] in
          \<open>auto simp: view_ok_def held_def key P(3)\<close>)
  qed
qed

lemma input_last_use:
  assumes "live_inv g i ga lu" "built g" "m < n_nodes g" "is_input (g_node g m)"
  shows "lu ! m = n_nodes g"
  using live_invD(4,5) [OF assms(1,3)] last_uses_ok(4) [OF assms(2,3)] assms by (auto simp: built_def)

lemma alias_walk:
  assumes inv: "live_inv g i ga lu" and g: "built g" "i < n_nodes g" "src \<in> set (srcs g i)"
    and e: "extend_through_views g lu src (lu ! i) = Some (lu', grown)"
  shows "length lu' = n_nodes g"
    "\<And>m. m < n_nodes g \<Longrightarrow> lu' ! m = (if m \<in> set grown then lu ! i else lu ! m)"
    "\<And>m. m \<in> set grown \<Longrightarrow> lu ! m < lu ! i \<and> m < i \<and> i \<le> lu ! m"
    "src < i" "lu ! i \<le> lu' ! src"
    "\<And>m v. m \<in> set grown \<Longrightarrow> cn_view (g_node g m) = Some v \<Longrightarrow> lu ! i \<le> lu' ! va_src v"
proof -
  note D = live_invD [OF inv]
  show src: "src < i" using g by (auto simp: built_def)
  have 1: "src < i \<and> i \<le> lu ! src"
    using src D(4) [of src] last_uses_ok(3) [OF g(1,2,3)] g(2) by auto
  have 2: "va_src v < i \<and> i \<le> lu ! va_src v"
    if m: "m < i \<and> i \<le> lu ! m" "lu ! m < lu ! i" "cn_view (g_node g m) = Some v" for m v
  proof -
    have "\<not> is_input (g_node g m)"
      using input_last_use [OF inv g(1), of m] D(5) [OF g(2)] m(1,2) g(2) by auto
    then have "lu ! m \<le> lu ! va_src v" using D(9) m g(2) by simp
    moreover have "va_src v < m" using g(1,2) m(1,3) by (fastforce simp: built_def)
    ultimately show ?thesis using m(1) by simp
  qed
  have E: "length lu' = length lu \<and> (\<forall>m < length lu. lu' ! m = (if m \<in> set grown then lu ! i else lu ! m)) \<and>
    (\<forall>m \<in> set grown. lu ! m < lu ! i \<and> (m < i \<and> i \<le> lu ! m) \<and> m < length lu) \<and> src < length lu \<and> lu ! i \<le> lu' ! src \<and>
    (\<forall>m \<in> set grown. \<forall>v. cn_view (g_node g m) = Some v \<longrightarrow> va_src v < length lu \<and> lu ! i \<le> lu' ! va_src v)"
    by (rule extend_through_views_ok [of g lu src "lu ! i" lu' grown "\<lambda>m. m < i \<and> i \<le> lu ! m", OF e 1]) (rule 2)
  have len: "length lu' = length lu" using E by (rule conjunct1)
  have val: "\<forall>m < length lu. lu' ! m = (if m \<in> set grown then lu ! i else lu ! m)"
    using E by (rule conjunct2 [THEN conjunct1])
  show "length lu' = n_nodes g" using len D(3) by (rule trans)
  show "lu ! i \<le> lu' ! src" using E by blast
  show "lu' ! m = (if m \<in> set grown then lu ! i else lu ! m)" if "m < n_nodes g" for m
    using val that unfolding D(3) by blast
  show "lu ! m < lu ! i \<and> m < i \<and> i \<le> lu ! m" if "m \<in> set grown" for m using E that by blast
  show "lu ! i \<le> lu' ! va_src v" if "m \<in> set grown" "cn_view (g_node g m) = Some v" for m v
    using E that by blast
qed

text \<open>A node that takes the buffer of a source, as a window or to write over it.\<close>

lemma place_alias_live:
  assumes inv: "live_inv g i ga lu" and g: "built g" "i < n_nodes g" "\<not> is_input (g_node g i)" "src \<in> set (srcs g i)"
    and b: "buf ga src = Some p" "key_of br = key_of p"
    and a: "place_alias g ga lu i src br = (ga', Ok lu')"
    and view: "\<And>v. cn_view (g_node g i) = Some v \<Longrightarrow> va_src v = src \<and>
      br = bufref_window p (va_offset v) (n_elements (g_node g i)) \<and>
      va_offset v + n_elements (g_node g i) \<le> n_elements (g_node g src)"
    and wr: "cn_view (g_node g i) = None \<Longrightarrow> in_place_op (cn_op (g_node g i)) \<and> n_consumers g src = 1 \<and>
      br = p \<and> (\<exists>ss. cn_src (g_node g i) = src # ss)"
  shows "live_inv g (Suc i) ga' lu'"
proof -
  note D = live_invD [OF inv]
  define ga1 where "ga1 = ga\<lparr>ga_node_to_buf := bt_insert i br (ga_node_to_buf ga)\<rparr>"
  from a obtain grown where e: "extend_through_views g lu src (lu ! i) = Some (lu', grown)"
    and ga': "ga' = extend_buffer_alive ga1 grown (lu ! i)"
    by (auto simp: place_alias_def Let_def ga1_def split: option.splits)
  note W = alias_walk [OF inv g(1,2,4) e]
  have "pool_ok ga1"
    using D(1) in_use_ok_cong [of ga1 ga] by (simp add: pool_ok_def ga1_def alive_def pers_def)
  note X = extend_buffer_alive_ok [OF this, of grown "lu ! i"]
  have buf': "buf ga' = (buf ga)(i \<mapsto> br)" using X(2) by (simp add: ga' ga1_def)
  have pe: "pers ga' = pers ga" using X(3) by (simp add: ga' ga1_def pers_def)
  have al: "map_of (ga_buf_alive ga') k =
      map_option (\<lambda>al. if k \<in> grown_keys ga1 grown then max al (lu ! i) else al) (map_of (ga_buf_alive ga) k)" for k
    using X(5) by (simp add: ga' ga1_def)
  have mono: "held ga' k to" if h: "held ga k to" for k to
  proof (cases "k \<in> pers ga")
    case False
    then obtain a where "map_of (ga_buf_alive ga) k = Some a" "to \<le> a" using h by (auto simp: held_def)
    then show ?thesis by (cases "k \<in> grown_keys ga1 grown") (simp_all add: held_def al le_max_iff_disj)
  qed (simp add: held_def pe)
  have raised: "held ga' (key_of q) (lu ! i)" if "m \<in> set grown" "buf ga m = Some q" for m q
  proof -
    have "m < i \<and> i \<le> lu ! m" using W(3) that by blast
    then have "held ga (key_of q) (lu ! m)" "buf ga1 m = Some q" using D(8) that by (simp_all add: ga1_def)
    moreover from this have "key_of q \<in> grown_keys ga1 grown" using that(1) unfolding grown_keys_def by blast
    ultimately show ?thesis by (auto simp: held_def al pe)
  qed
  have hold: "held ga' (key_of q) (lu' ! m)" if "m \<noteq> i" "buf ga m = Some q" "i \<le> lu ! m" for m q
  proof -
    have "m < n_nodes g" using D(6) [OF that(2)] by (simp add: known_def)
    then show ?thesis using W(2) [of m] raised [of m] mono D(8) that by auto
  qed
  have i: "lu' ! i = lu ! i" using W(2) [OF g(2)] W(3) [of i] by auto
  have src: "src < n_nodes g" "src \<noteq> i" "i \<le> lu ! src"
    using W(4) g(2) D(4) [of src] last_uses_ok(3) [OF g(1,2,4)] by auto
  have "held ga' (key_of br) (lu' ! i)"
    using hold [OF src(2) b(1) src(3)] b(2) W(5) i by (auto intro: held_mono)
  moreover have "lu' ! m \<le> lu' ! va_src v" if m: "m \<le> i" "\<not> is_input (g_node g m)" "cn_view (g_node g m) = Some v" for m v
  proof (cases "m = i")
    case True
    then show ?thesis using view m W(5) i by auto
  next
    case False
    then have "lu ! m \<le> lu ! va_src v" "va_src v < n_nodes g"
      using D(9) [of m v] m g(2) False built_view [OF g(1) _ m(3)] by auto
    then show ?thesis
      using W(2) [of m] W(2) [of "va_src v"] W(3) [of "va_src v"] W(6) [of m v] m g(2) by auto
  qed
  moreover have "view_ok g ga' i" using view b(1) src(2) by (auto simp: view_ok_def buf')
  moreover have "written_ok g ga' lu' i br" if "writes g i"
  proof -
    have "cn_view (g_node g i) = None" using that by (simp add: writes_def)
    then have "in_place_at g ga' i" using wr b(1) src(2) by (auto simp: in_place_at_def buf')
    then show ?thesis by (simp add: written_ok_def)
  qed
  moreover have "kv_pers ga'" using kv_pers_cong [of ga' ga] X(4) pe D(2) by (simp add: ga' ga1_def)
  moreover have "lu ! m \<le> lu' ! m \<and> lu' ! m \<le> n_nodes g" if "m < n_nodes g" for m
    using W(2) [OF that] W(3) [of m] D(5) [OF that] D(5) [OF g(2)] by auto
  moreover have "lu' ! m = lu ! m" if "m < n_nodes g" "lu ! m < i" for m
    using W(2) [OF that(1)] W(3) [of m] that by auto
  ultimately show ?thesis
    by (intro live_step [OF inv g(1-3), where b = "Some br"]) (use X(1) ga' pe buf' W(1) hold in auto)
qed

lemma place_view_live:
  assumes inv: "live_inv g i ga lu" and g: "built g" "i < n_nodes g" "\<not> is_input (g_node g i)" "cn_view (g_node g i) = Some v"
    and p: "place_view g ga lu (g_node g i) i v = (ga', Ok lu')"
  shows "live_inv g (Suc i) ga' lu'"
proof -
  from p obtain parent where P: "buf ga (va_src v) = Some parent"
    "place_alias g ga lu i (va_src v) (bufref_window parent (va_offset v) (n_elements (g_node g i))) = (ga', Ok lu')"
    "va_offset v + n_elements (g_node g i) \<le> n_elements (g_node g (va_src v))"
    by (auto simp: place_view_def Let_def split: option.splits if_splits)
  have "va_src v \<in> set (srcs g i)" using g by (auto simp: built_def)
  moreover have "key_of (bufref_window parent (va_offset v) (n_elements (g_node g i))) = key_of parent"
    by (simp add: key_of_def bufref_window_def)
  ultimately show ?thesis by (rule place_alias_live [OF inv g(1-3) _ P(1) _ P(2)]) (use g(4) P(3) in auto)
qed

lemma place_in_place_live:
  assumes inv: "live_inv g i ga lu" and g: "built g" "i < n_nodes g" "writes g i" "in_place_op (cn_op (g_node g i))"
    and p: "place_in_place mem g ga lu (g_node g i) i = (ga', Ok lu')"
  shows "live_inv g (Suc i) ga' lu'"
proof -
  have w: "\<not> is_input (g_node g i)" "cn_view (g_node g i) = None" using g(3) by (auto simp: writes_def)
  consider (shared) s ss in_ref where "cn_src (g_node g i) = s # ss" "buf ga s = Some in_ref" "n_consumers g s = 1"
      "place_alias g ga lu i s in_ref = (ga', Ok lu')"
    | (own) "place_live mem ga lu (g_node g i) i = (ga', Ok lu')"
    using p by (auto simp: place_in_place_def place_live_def Let_def split: if_splits list.splits option.splits)
  then show ?thesis
  proof cases
    case shared
    then have "s \<in> set (srcs g i)" by simp
    then show ?thesis
      by (rule place_alias_live [OF inv g(1,2) w(1) _ shared(2) refl shared(4)]) (use shared w(2) g(4) in auto)
  qed (rule place_live_live [OF inv g(1-3)])
qed

lemma place_store_live:
  assumes inv: "live_inv g i ga lu" and g: "built g" "i < n_nodes g" "writes g i"
    and p: "place_store rp ga lu layer (g_node g i) i = (ga', Ok lu')"
  shows "live_inv g (Suc i) ga' lu'"
proof -
  have w: "\<not> is_input (g_node g i)" "cn_view (g_node g i) = None" using g(3) by (auto simp: writes_def)
  obtain e r n where kd: "kv_dims (g_node g i) = (e, r, n)" by (metis prod_cases3)
  from p obtain ga1 k v where E: "ensure_kv rp ga layer (node_backend (g_node g i)) e r n = (ga1, Ok (k, v))"
    and ga': "ga' = ga1\<lparr>ga_node_to_buf := bt_insert i k (ga_node_to_buf ga1)\<rparr>" and lu': "lu' = lu"
    by (auto simp: place_store_def kd split: prod.splits sum.splits)
  note I = ensure_kv_live [OF inv E]
  note D = live_invD [OF I(1)]
  have pe: "pers ga' = pers ga1" by (simp add: ga' pers_def)
  have hold: "held ga' key to = held ga1 key to" for key to by (simp add: held_def pe) (simp add: ga')
  have k: "key_of k \<in> pers ga'" using I(2) pe by simp
  show ?thesis
    unfolding lu'
  proof (rule live_step [OF I(1) g(1,2) w(1), where b = "Some k"])
    show "pool_ok ga'" using D(1) in_use_ok_cong [of ga' ga1] by (simp add: pool_ok_def ga' alive_def pers_def)
    show "kv_pers ga'" using kv_pers_cong [of ga' ga1] D(2) pe by (simp add: ga')
    show "buf ga' = (buf ga1)(i := Some k)" by (simp add: ga')
    show "view_ok g ga' i" using w(2) by (simp add: view_ok_def)
  qed (use D k pe hold par_old [OF I(1) g(2)] w in \<open>auto simp: held_def written_ok_def\<close>)
qed

lemma place_kv_then_live:
  assumes inv: "live_inv g i ga lu" and p: "place_kv_then rp ga layer node cont = (ga', Ok lu')"
    and cont: "\<And>ga1. live_inv g i ga1 lu \<Longrightarrow> cont ga1 = (ga', Ok lu') \<Longrightarrow> live_inv g (Suc i) ga' lu'"
  shows "live_inv g (Suc i) ga' lu'"
proof -
  obtain e r n where kd: "fused_dims node = (e, r, n)" by (metis prod_cases3)
  from p obtain ga1 kv where E: "ensure_kv rp ga layer (node_backend node) e r n = (ga1, Ok kv)" "cont ga1 = (ga', Ok lu')"
    by (auto simp: place_kv_then_def kd split: prod.splits sum.splits)
  show ?thesis by (rule cont [OF ensure_kv_live(1) [OF inv E(1)] E(2)])
qed

lemma live_skip_input:
  assumes inv: "live_inv g i ga lu" and "is_input (g_node g i)" "i < n_nodes g"
  shows "live_inv g (Suc i) ga lu"
proof -
  have k: "known g (Suc i) = known g i" using assms(2) by (auto simp: known_def less_Suc_eq)
  note D = live_invD [OF inv]
  show ?thesis
    unfolding live_inv_def k
  proof (intro conjI allI impI ballI)
    fix m
    show "view_ok g ga m" if "m < Suc i" "m < n_nodes g" "\<not> is_input (g_node g m)"
      using that D(10) assms(2) by (cases "m = i") auto
    show "written_ok g ga lu m br" if "m < Suc i" "writes g m" "buf ga m = Some br" for br
      using that D(11) assms(2) by (cases "m = i") (auto simp: writes_def)
    show "lu ! m \<le> lu ! va_src v" if "m < Suc i" "m < n_nodes g" "\<not> is_input (g_node g m)" "cn_view (g_node g m) = Some v" for v
      using that D(9) assms(2) by (cases "m = i") auto
  qed (use D in auto)
qed

lemma place_node_live:
  assumes inv: "live_inv g i ga lu" and g: "built g" "i < n_nodes g"
    and p: "place_node rp mem g ga lu i = (ga', Ok lu')"
  shows "live_inv g (Suc i) ga' lu'"
proof (cases "is_input (g_node g i)")
  case True
  then show ?thesis using p live_skip_input [OF inv True g(2)] by (simp add: place_node_def)
next
  case False
  note F = False
  show ?thesis
  proof (cases "cn_view (g_node g i)")
    case (Some v)
    then show ?thesis using p F place_view_live [OF inv g F Some] by (simp add: place_node_def)
  next
    case None
    then have w: "writes g i" using F by (simp add: writes_def)
    have kv_own: "live_inv g (Suc i) ga' lu'"
      if "place_kv_then rp ga l (g_node g i) (\<lambda>ga1. place_live mem ga1 lu (g_node g i) i) = (ga', Ok lu')" for l
      by (rule place_kv_then_live [OF inv that]) (rule place_live_live [OF _ g w])
    have kv_in: "live_inv g (Suc i) ga' lu'"
      if "place_kv_then rp ga l (g_node g i) (\<lambda>ga1. place_in_place mem g ga1 lu (g_node g i) i) = (ga', Ok lu')"
        "in_place_op (cn_op (g_node g i))" for l
      by (rule place_kv_then_live [OF inv that(1)]) (rule place_in_place_live [OF _ g w that(2)])
    have ip: "live_inv g (Suc i) ga' lu'"
      if "place_in_place mem g ga lu (g_node g i) i = (ga', Ok lu')" "in_place_op (cn_op (g_node g i))"
      by (rule place_in_place_live [OF inv g w that(2,1)])
    note rules = place_live_live [OF inv g w] place_store_live [OF inv g w] ip kv_own kv_in
    show ?thesis
      using p F None unfolding place_node_def Let_def
      by (cases "cn_op (g_node g i)") (auto simp: in_place_op_def dest: rules)
  qed
qed

lemma place_nodes_live:
  assumes "built g" "live_inv g i ga lu" "i \<le> n_nodes g" "place_nodes rp mem g [i..<n_nodes g] ga lu = (ga', Ok lu')"
  shows "live_inv g (n_nodes g) ga' lu'"
  using assms(2-4)
proof (induction "n_nodes g - i" arbitrary: i ga lu)
  case (Suc d)
  then have i: "i < n_nodes g" by simp
  then obtain ga1 lu1 where P: "place_node rp mem g (sweep ga i) lu i = (ga1, Ok lu1)"
    "place_nodes rp mem g [Suc i..<n_nodes g] ga1 lu1 = (ga', Ok lu')"
    using Suc.prems(3) by (auto simp: upt_conv_Cons split: prod.splits sum.splits)
  from place_node_live [OF sweep_live [OF Suc.prems(1)] assms(1) i P(1)] show ?case
    using Suc.hyps(1) [of "Suc i"] Suc.hyps(2) P(2) i by simp
qed simp

section \<open>The inputs and the whole plan\<close>

text \<open>While the inputs are placed, every placed one stays alive to the end of the graph.\<close>

definition inputs_inv :: "ComputeGraph \<Rightarrow> nat \<Rightarrow> GraphAllocator \<Rightarrow> bool" where
  "inputs_inv g j ga \<longleftrightarrow> pool_ok ga \<and> kv_pers ga \<and>
     dom (buf ga) = {m. m < j \<and> is_input (g_node g m)} \<and>
     (\<forall>m br. buf ga m = Some br \<longrightarrow> map_of (ga_buf_alive ga) (key_of br) = Some (n_nodes g))"

lemma place_inputs_inv:
  assumes "built g" "inputs_inv g j ga" "j \<le> n_nodes g"
    "place_inputs mem (drop j (g_nodes g)) (last_uses g) ga = (ga', Ok ())"
  shows "inputs_inv g (n_nodes g) ga'"
  using assms(2-4)
proof (induction "n_nodes g - j" arbitrary: j ga)
  case 0
  then show ?case by (simp add: n_nodes_def)
next
  case (Suc d)
  then have j: "j < n_nodes g" by simp
  then have dr: "drop j (g_nodes g) = g_node g j # drop (Suc j) (g_nodes g)"
    by (simp add: Cons_nth_drop_Suc g_node_def n_nodes_def)
  note IH = Suc.hyps(1) [of "Suc j", OF _ _ Suc_leI [OF j]]
  show ?case
  proof (cases "is_input (g_node g j)")
    case False
    then have "inputs_inv g (Suc j) ga" using Suc.prems(1) by (auto simp: inputs_inv_def less_Suc_eq)
    then show ?thesis using IH Suc.hyps(2) Suc.prems(3) False dr by simp
  next
    case True
    have "cn_id (g_node g j) = j" using assms(1) j by (simp add: built_def numbered_def)
    then obtain ga1 where P: "place_own mem ga (last_uses g) (g_node g j) j = (ga1, Ok ())"
      "place_inputs mem (drop (Suc j) (g_nodes g)) (last_uses g) ga1 = (ga', Ok ())"
      using Suc.prems(3) True by (auto simp: dr split: prod.splits sum.splits)
    have I: "pool_ok ga" "kv_pers ga" "dom (buf ga) = {m. m < j \<and> is_input (g_node g m)}"
      "\<And>m br. buf ga m = Some br \<Longrightarrow> map_of (ga_buf_alive ga) (key_of br) = Some (n_nodes g)"
      using Suc.prems(1) by (auto simp: inputs_inv_def)
    from place_own_ok [OF I(1) P(1)] obtain pid where O: "(node_backend (g_node g j), pid) \<notin> alive ga \<union> pers ga" "pool_ok ga1"
      "map_of (ga_buf_alive ga1) = (map_of (ga_buf_alive ga))((node_backend (g_node g j), pid) \<mapsto> last_uses g ! j)"
      "buf ga1 = (buf ga)(j \<mapsto> bufref_own (node_backend (g_node g j)) pid (n_elements (g_node g j)))"
      "ga_persistent ga1 = ga_persistent ga" "ga_kv ga1 = ga_kv ga" .
    have lu: "last_uses g ! j = n_nodes g" using last_uses_ok(4) [OF assms(1) j] assms(1) True j by (auto simp: built_def)
    have "inputs_inv g (Suc j) ga1"
      unfolding inputs_inv_def
    proof (intro conjI allI impI)
      show "kv_pers ga1" using kv_pers_cong [OF O(6)] pers_cong [OF O(5)] I(2) by simp
      show "dom (buf ga1) = {m. m < Suc j \<and> is_input (g_node g m)}" using I(3) True by (auto simp: O(4) less_Suc_eq)
      show "map_of (ga_buf_alive ga1) (key_of br) = Some (n_nodes g)" if "buf ga1 m = Some br" for m br
        using that I(4) O(1) lu by (auto simp: O(3,4) key_of_def bufref_own_def alive_def split: if_splits)
    qed (rule O(2))
    then show ?thesis using IH Suc.hyps(2) P(2) by simp
  qed
qed

lemma inputs_live:
  assumes "built g" "inputs_inv g (n_nodes g) ga"
  shows "live_inv g 0 ga (last_uses g)"
proof -
  have I: "pool_ok ga" "kv_pers ga" "dom (buf ga) = known g 0"
    "\<And>m br. buf ga m = Some br \<Longrightarrow> map_of (ga_buf_alive ga) (key_of br) = Some (n_nodes g)"
    using assms(2) by (auto simp: inputs_inv_def known_def)
  have "held ga (key_of br) (last_uses g ! m)" if "buf ga m = Some br" for m br
  proof -
    have "m < n_nodes g" using I(3) that by (auto simp: known_def)
    then show ?thesis using I(4) [OF that] last_uses_ok(2) [OF assms(1)] by (simp add: held_def)
  qed
  then show ?thesis using I(1-3) last_uses_ok(1,2) [OF assms(1)] by (auto simp: live_inv_def)
qed

lemma alloc_graph_live:
  assumes "built g" "pool_ok ga" "kv_pers ga" "alloc_graph rp mem ga g = (ga', Ok ())"
  shows "\<exists>lu. live_inv g (n_nodes g) ga' lu"
proof -
  note R = release_all_ok [OF assms(2)]
  obtain ga1 lu where P: "place_inputs mem (g_nodes g) (last_uses g) (release_all ga) = (ga1, Ok ())"
    "place_nodes rp mem g [0..<n_nodes g] ga1 (last_uses g) = (ga', Ok lu)"
    using assms(4) by (auto simp: alloc_graph_def Let_def split: prod.splits sum.splits option.splits if_splits)
  have "inputs_inv g 0 (release_all ga)"
    using R assms(3) kv_pers_cong [OF R(5)] pers_cong [OF R(4)] by (simp add: inputs_inv_def)
  from place_inputs_inv [OF assms(1) this, of mem ga1] P(1) have "inputs_inv g (n_nodes g) ga1" by simp
  from place_nodes_live [OF assms(1) inputs_live [OF assms(1) this] _ P(2)] show ?thesis by auto
qed

end
