(* ===== verification/Graph_Props.thy ===== *)
theory Graph_Props
  imports Graph_Live
begin

text \<open>The properties of a finished plan of the allocator, and the graphs their witnesses use.\<close>

section \<open>Regions survive\<close>

definition kv_kept :: "GraphAllocator \<Rightarrow> GraphAllocator \<Rightarrow> bool" where
  "kv_kept ga ga' \<longleftrightarrow> (\<forall>l r. kv_get (ga_kv ga) l = Some r \<longrightarrow> kv_get (ga_kv ga') l = Some r)"

lemma kv_kept_same: "ga_kv ga' = ga_kv ga \<Longrightarrow> kv_kept ga ga'"
  by (simp add: kv_kept_def)

lemma kv_kept_trans: "kv_kept a b \<Longrightarrow> kv_kept b c \<Longrightarrow> kv_kept a c"
  by (simp add: kv_kept_def)

lemma ga_kv_alloc_exact [simp]: "ga_kv (fst (alloc_exact_in_pool ga b n)) = ga_kv ga"
  by (auto simp: alloc_exact_in_pool_def split: option.split prod.split)

lemma ga_kv_alloc_class [simp]: "ga_kv (fst (alloc_class_in_pool ga b n)) = ga_kv ga"
  by (auto simp: alloc_class_in_pool_def Let_def split: option.split list.split)

lemma ga_kv_alloc_charged [simp]: "ga_kv (fst (alloc_charged ga b n w)) = ga_kv ga"
  using ga_kv_alloc_class [of ga b n]
  by (auto simp del: ga_kv_alloc_class simp: alloc_charged_def Let_def split: prod.split sum.split)

lemma ga_kv_alloc_in_pool [simp]: "ga_kv (fst (alloc_in_pool mem ga b n)) = ga_kv ga"
  by (auto simp: alloc_in_pool_def Let_def split: option.split)

lemma ga_kv_place_own [simp]: "ga_kv (fst (place_own mem ga lu node i)) = ga_kv ga"
  using ga_kv_alloc_in_pool [of mem ga "node_backend node" "n_elements node"]
  by (auto simp del: ga_kv_alloc_in_pool simp: place_own_def split: prod.split sum.split)

lemma ga_kv_place_live [simp]: "ga_kv (fst (place_live mem ga lu node i)) = ga_kv ga"
  using ga_kv_place_own [of mem ga lu node i]
  by (auto simp del: ga_kv_place_own simp: place_live_def split: prod.split sum.split)

lemma ga_kv_free_in_pool [simp]: "ga_kv (free_in_pool ga key) = ga_kv ga"
  by (auto simp: free_in_pool_def Let_def split: option.split)

lemma ga_kv_fold_free: "ga_kv (fold (\<lambda>key ga. free_in_pool ga key) ks ga) = ga_kv ga"
  by (induction ks arbitrary: ga) auto

lemma ga_kv_release_all [simp]: "ga_kv (release_all ga) = ga_kv ga"
  by (simp add: release_all_def ga_kv_fold_free)

lemma ga_kv_sweep [simp]: "ga_kv (sweep ga i) = ga_kv ga"
proof -
  have "ga_kv (fold (\<lambda>key ga. free_in_pool (ga\<lparr>ga_buf_alive := bt_remove key (ga_buf_alive ga)\<rparr>) key) ks ga) = ga_kv ga" for ks
    by (induction ks arbitrary: ga) auto
  then show ?thesis by (simp add: sweep_def)
qed

lemma ga_kv_extend_buffer_alive [simp]: "ga_kv (extend_buffer_alive ga ns to) = ga_kv ga"
proof (induction ns arbitrary: ga)
  case (Cons n ns)
  then show ?case by (auto simp: extend_buffer_alive_def split: option.split)
qed (simp add: extend_buffer_alive_def)

lemma ga_kv_place_alias [simp]: "ga_kv (fst (place_alias g ga lu i s br)) = ga_kv ga"
  by (auto simp: place_alias_def Let_def split: option.split)

lemma ga_kv_place_view [simp]: "ga_kv (fst (place_view g ga lu node i v)) = ga_kv ga"
  by (auto simp: place_view_def Let_def split: option.split)

lemma ga_kv_place_in_place [simp]: "ga_kv (fst (place_in_place mem g ga lu node i)) = ga_kv ga"
  by (auto simp: place_in_place_def Let_def split: option.split list.split)

lemma ga_kv_alloc_persistent [simp]: "ga_kv (fst (alloc_persistent ga nm b n)) = ga_kv ga"
  using ga_kv_alloc_exact [of ga b n]
  by (auto simp del: ga_kv_alloc_exact simp: alloc_persistent_def split: prod.split sum.split)

lemma ensure_kv_kept: "kv_kept ga (fst (ensure_kv rp ga layer b e r n))"
proof -
  obtain ga1 r1 where 1: "alloc_persistent ga (kv_region_name layer ''k'') b (r * n) = (ga1, r1)" by fastforce
  obtain ga2 r2 where 2: "alloc_persistent ga1 (kv_region_name layer ''v'') b (r * n) = (ga2, r2)" by fastforce
  have "ga_kv ga1 = ga_kv ga" "ga_kv ga2 = ga_kv ga"
    using ga_kv_alloc_persistent [of ga "kv_region_name layer ''k''" b "r * n"]
      ga_kv_alloc_persistent [of ga1 "kv_region_name layer ''v''" b "r * n"] 1 2 by simp_all
  then show ?thesis
    using 1 2 by (auto simp: ensure_kv_def Let_def kv_kept_def kv_get_def kv_insert_def split: sum.split option.split)
qed

lemma place_store_kept: "kv_kept ga (fst (place_store rp ga lu layer node i))"
proof -
  obtain e r n where d: "kv_dims node = (e, r, n)" by (metis prod_cases3)
  show ?thesis
    using ensure_kv_kept [of ga rp layer "node_backend node" e r n]
    by (auto simp: place_store_def d kv_kept_def split: prod.split sum.split)
qed

lemma place_kv_then_kept:
  assumes "\<And>ga1. ga_kv (fst (cont ga1)) = ga_kv ga1"
  shows "kv_kept ga (fst (place_kv_then rp ga layer node cont))"
proof -
  obtain e r n where d: "fused_dims node = (e, r, n)" by (metis prod_cases3)
  show ?thesis
    using ensure_kv_kept [of ga rp layer "node_backend node" e r n] assms
    by (auto simp: place_kv_then_def d kv_kept_def split: prod.split sum.split)
qed

lemma place_node_kept: "kv_kept ga (fst (place_node rp mem g ga lu i))"
  unfolding place_node_def Let_def
  by (cases "cn_op (g_node g i)")
    (auto split: option.split intro: kv_kept_same place_store_kept place_kv_then_kept)

lemma place_nodes_kept: "kv_kept ga (fst (place_nodes rp mem g is ga lu))"
proof (induction "is" arbitrary: ga lu)
  case (Cons i "is")
  have "kv_kept ga (fst (place_node rp mem g (sweep ga i) lu i))"
    using place_node_kept [of "sweep ga i" rp mem g lu i] by (simp add: kv_kept_def)
  then show ?case
    using Cons.IH by (auto split: prod.split sum.split intro: kv_kept_trans)
qed (simp add: kv_kept_def)

lemma place_inputs_kept: "ga_kv (fst (place_inputs mem nodes lu ga)) = ga_kv ga"
proof (induction nodes arbitrary: ga)
  case (Cons node nodes)
  then show ?case
    using ga_kv_place_own [of mem ga lu node "cn_id node"]
    by (auto simp del: ga_kv_place_own split: prod.split sum.split)
qed simp

lemma alloc_graph_kept: "kv_kept ga (fst (alloc_graph rp mem ga g))"
proof -
  obtain ga1 r1 where 1: "place_inputs mem (g_nodes g) (last_uses g) (release_all ga) = (ga1, r1)" by fastforce
  have k: "ga_kv ga1 = ga_kv ga" using place_inputs_kept [of mem "g_nodes g" "last_uses g" "release_all ga"] 1 by simp
  obtain ga2 r2 where 2: "place_nodes rp mem g [0..<n_nodes g] ga1 (last_uses g) = (ga2, r2)" by fastforce
  have "kv_kept ga ga2"
    using place_nodes_kept [of ga1 rp mem g "[0..<n_nodes g]" "last_uses g"] 2 k by (simp add: kv_kept_def)
  then show ?thesis
    using 1 2 k by (auto simp: alloc_graph_def Let_def kv_kept_def split: option.split sum.split)
qed

lemma alloc_class_frame:
  assumes "alloc_class_in_pool ga b sz = (ga', r)"
  shows "ga_pool_bytes ga' = ga_pool_bytes ga" "weights_bytes ga' c = weights_bytes ga c" "\<not> is_ok r \<Longrightarrow> ga' = ga"
  using assms
  by (auto simp: alloc_class_in_pool_def alloc_exact_in_pool_def alloc_buffer_def Let_def weights_bytes_def
      split: option.splits list.splits prod.splits if_splits)

lemma lookup_or_insert [simp]: "lookup_or d (bt_insert k v m) k = v"
  by (simp add: lookup_or_def)

section \<open>Graphs and allocators for the witnesses\<close>

definition demo_ga :: GraphAllocator where
  "demo_ga = \<lparr>ga_pools = [(CPU, \<lparr>p_lens = [], p_free = [], p_weights = 10\<rparr>)], ga_node_to_buf = [],
     ga_buf_alive = [], ga_buf_bytes = [], ga_slots = [], ga_buf_class = [], ga_pool_bytes = [],
     ga_live_bytes = [], ga_peak_bytes = [], ga_budget = [(CPU, 10000)], ga_kv = kv_new, ga_persistent = []\<rparr>"

definition demo_view :: "NodeId \<Rightarrow> NodeId \<Rightarrow> CNode" where
  "demo_view i s = (demo_node i (View 0 [2]) [s])\<lparr>cn_shape := (2, 1, 1, 1), cn_view := Some \<lparr>va_src = s, va_offset = 2\<rparr>\<rparr>"

text \<open>A product read through a window, a KV store, and a chain that reuses buffers.\<close>

definition demo_plan :: ComputeGraph where
  "demo_plan = \<lparr>g_nodes = [demo_node 0 Input [], demo_node 1 Add [0, 0], demo_view 2 1, (demo_node 3 Silu [2])\<lparr>cn_shape := (2, 1, 1, 1)\<rparr>,
       demo_node 4 (KvcacheStore 0) [3], demo_node 5 Mul [3, 3], demo_node 6 Add [5, 0], demo_node 7 Mul [6, 0]],
     g_inputs = [0], g_outputs = [7]\<rparr>"

definition demo_res :: GraphAllocator where
  "demo_res = fst (alloc_graph (\<lambda>_. False) NoDevice demo_ga demo_plan)"

lemma demo_ga_ok: "pool_ok demo_ga" "kv_pers demo_ga"
  by (auto simp: demo_ga_def pool_ok_def in_use_ok_def idle_ok_def alive_def pers_def shelf_def lookup_or_def
      idle_slot_def idle_free_def in_pool_def pool_wf_def kv_pers_def kv_get_def kv_new_def)

lemma less_8: "(i::nat) < 8 \<longleftrightarrow> i \<in> {0, 1, 2, 3, 4, 5, 6, 7}"
  by auto

lemma demo_plan_built: "built demo_plan"
proof -
  have n: "n_nodes demo_plan = 8" by (simp add: demo_plan_def n_nodes_def)
  show ?thesis
    unfolding built_def numbered_def n less_8
    by (auto simp: demo_plan_def g_node_def demo_node_def demo_view_def is_input_def n_nodes_def)
qed

lemma demo_alloc: "alloc_graph (\<lambda>_. False) NoDevice demo_ga demo_plan = (demo_res, Ok ())"
proof -
  have "snd (alloc_graph (\<lambda>_. False) NoDevice demo_ga demo_plan) = Ok ()" by code_simp
  then show ?thesis unfolding demo_res_def by (metis prod.collapse)
qed

section \<open>Properties\<close>

text \<open>When the value of node \<open>s\<close> is read: by a consumer, or by the caller at the end.\<close>

definition read_at :: "ComputeGraph \<Rightarrow> NodeId \<Rightarrow> nat \<Rightarrow> bool" where
  "read_at g s k \<longleftrightarrow> (k < n_nodes g \<and> s \<in> set (srcs g k)) \<or>
     (k = n_nodes g \<and> s < n_nodes g \<and> (s \<in> set (g_inputs g) \<or> s \<in> set (g_outputs g)))"

lemma read_at_last_use:
  assumes "built g" "read_at g s k"
  shows "s < n_nodes g" "k \<le> last_uses g ! s"
  using assms last_uses_ok(3) [OF assms(1)] last_uses_ok(4) [OF assms(1), of s]
  by (auto simp: read_at_def built_def) (meson less_trans)

text \<open>
  C30: in a finished plan no node writes over a value that is still to be read. If the value of
  \<open>s\<close>, placed before node \<open>m\<close> runs, is read at a step after \<open>m\<close> (by a consumer, or at the end
  for inputs and outputs), then \<open>m\<close> writes another buffer, unless \<open>m\<close> writes a persistent KV
  region or is an operator that the allocator runs in place over its first source.
\<close>

theorem no_clobber:
  assumes "built g" "pool_ok ga" "kv_pers ga" "alloc_graph rp mem ga g = (ga', Ok ())"
    and "read_at g s k" "s \<in> known g m" "m < k" "m < n_nodes g" "writes g m"
    and "buf ga' s = Some p" "buf ga' m = Some q" "key_of q \<notin> pers ga'" "\<not> in_place_at g ga' m"
  shows "key_of p \<noteq> key_of q"
proof
  assume same: "key_of p = key_of q"
  from alloc_graph_live [OF assms(1-4)] obtain lu where inv: "live_inv g (n_nodes g) ga' lu" ..
  have "written_ok g ga' lu m q" using live_invD(11) [OF inv] assms(8,9,11) by blast
  then have "lu ! s < m" using assms(6,10,12,13) same by (auto simp: written_ok_def)
  moreover have "k \<le> lu ! s"
    using read_at_last_use [OF assms(1,5)] live_invD(4) [OF inv, of s] by simp
  ultimately show False using assms(7) by simp
qed

lemma demo_bufs:
  "buf demo_res 0 = Some (bufref_own CPU 0 4)" "buf demo_res 1 = Some (bufref_own CPU 1 4)"
  "buf demo_res 2 = Some (bufref_window (bufref_own CPU 1 4) 2 2)" "buf demo_res 5 = Some (bufref_own CPU 4 4)"
  by code_simp+

theorem no_clobber_witness:
  "buf demo_res 0 = Some (bufref_own CPU 0 4) \<and> buf demo_res 5 = Some (bufref_own CPU 4 4) \<and>
   key_of (bufref_own CPU 0 4) \<noteq> key_of (bufref_own CPU 4 4)"
proof -
  have "read_at demo_plan 0 6" "0 \<in> known demo_plan 5" "writes demo_plan 5" "5 < n_nodes demo_plan"
    "key_of (bufref_own CPU 4 4) \<notin> pers demo_res" "\<not> in_place_op (cn_op (g_node demo_plan 5))"
    by (simp_all add: read_at_def known_def) code_simp+
  then show ?thesis
    using no_clobber [OF demo_plan_built demo_ga_ok demo_alloc, of 0 6 5] demo_bufs by (simp add: in_place_at_def)
qed

text \<open>
  In a finished plan every operand of every node, every graph input and every graph output has
  a buffer.
\<close>

lemma operands_placed:
  assumes "built g" "pool_ok ga" "kv_pers ga" "alloc_graph rp mem ga g = (ga', Ok ())" "read_at g s k"
  shows "\<exists>br. buf ga' s = Some br"
proof -
  from alloc_graph_live [OF assms(1-4)] obtain lu where inv: "live_inv g (n_nodes g) ga' lu" ..
  have s: "s < n_nodes g" "k \<le> last_uses g ! s" using read_at_last_use [OF assms(1,5)] by auto
  have "s < k" using assms(1,5) by (auto simp: read_at_def built_def)
  then have "s \<in> known g (n_nodes g)" "s < last_uses g ! s" using s by (auto simp: known_def)
  then show ?thesis using live_invD(7) [OF inv] by blast
qed

lemma operands_placed_witness: "\<exists>br. buf demo_res 2 = Some br"
proof -
  have "read_at demo_plan 2 3" by (simp add: read_at_def) code_simp
  from operands_placed [OF demo_plan_built demo_ga_ok demo_alloc this] show ?thesis .
qed

text \<open>
  In a finished plan a view is a window of its parent's buffer: the same pool buffer, the
  view's offset further on, and inside the parent's extent.
\<close>

lemma views_inside_parent:
  assumes "built g" "pool_ok ga" "kv_pers ga" "alloc_graph rp mem ga g = (ga', Ok ())"
    and "m < n_nodes g" "\<not> is_input (g_node g m)" "cn_view (g_node g m) = Some v"
  shows "\<exists>p. buf ga' (va_src v) = Some p \<and>
    buf ga' m = Some (bufref_window p (va_offset v) (n_elements (g_node g m))) \<and>
    va_offset v + n_elements (g_node g m) \<le> n_elements (g_node g (va_src v))"
proof -
  from alloc_graph_live [OF assms(1-4)] obtain lu where "live_inv g (n_nodes g) ga' lu" ..
  from live_invD(10) [OF this assms(5,5,6)] show ?thesis using assms(7) by (simp add: view_ok_def)
qed

lemma views_inside_parent_witness:
  "buf demo_res 2 = Some (bufref_window (bufref_own CPU 1 4) 2 2)"
proof -
  have v: "2 < n_nodes demo_plan" "\<not> is_input (g_node demo_plan 2)"
    "cn_view (g_node demo_plan 2) = Some \<lparr>va_src = 1, va_offset = 2\<rparr>" "n_elements (g_node demo_plan 2) = 2"
    by code_simp+
  from views_inside_parent [OF demo_plan_built demo_ga_ok demo_alloc v(1-3)] show ?thesis
    using demo_bufs(2) v(4) by simp
qed

text \<open>
  C31: building a plan keeps the discipline of the pools: afterwards the live buffers, the
  persistent regions and the idle buffers are three disjoint sets of buffers that the pools hold,
  and the invariant that the next build starts from is kept.
\<close>

theorem alloc_graph_pools:
  assumes "built g" "pool_ok ga" "kv_pers ga" "alloc_graph rp mem ga g = (ga', Ok ())"
  shows "alive ga' \<inter> pers ga' = {} \<and> (alive ga' \<union> pers ga') \<inter> (idle_slot ga' \<union> idle_free ga') = {} \<and>
    idle_slot ga' \<inter> idle_free ga' = {} \<and> alive ga' \<union> pers ga' \<subseteq> in_pool ga' \<and> pool_ok ga' \<and> kv_pers ga'"
proof -
  from alloc_graph_live [OF assms(1-4)] obtain lu where inv: "live_inv g (n_nodes g) ga' lu" ..
  note D = live_invD(1,2) [OF inv]
  have "alive ga' \<inter> pers ga' = {}" "in_use_ok ga' (alive ga' \<union> pers ga')" using D(1) by (simp_all add: pool_ok_def)
  then show ?thesis using D by (simp add: in_use_ok_def idle_ok_def)
qed

theorem alloc_graph_pools_witness:
  "alive demo_res \<inter> pers demo_res = {} \<and> pool_ok demo_res \<and> kv_pers demo_res"
  using alloc_graph_pools [OF demo_plan_built demo_ga_ok demo_alloc] by (simp del: Int_Un_distrib2)

text \<open>
  A rebuild never loses a KV region: whatever the allocator returns, also when it refuses the
  graph, every layer that had a region still has the same one.
\<close>

lemma kv_regions_survive:
  "kv_get (ga_kv ga) l = Some r \<Longrightarrow> kv_get (ga_kv (fst (alloc_graph rp mem ga g))) l = Some r"
  using alloc_graph_kept [of ga rp mem g] by (simp add: kv_kept_def)

lemma kv_regions_survive_witness:
  "kv_get (ga_kv (fst (alloc_graph (\<lambda>_. False) NoDevice demo_res demo_plan))) 0 =
   Some (the (kv_get (ga_kv demo_res) 0))"
proof -
  have "kv_get (ga_kv demo_res) 0 = Some (the (kv_get (ga_kv demo_res) 0))" by code_simp
  from kv_regions_survive [OF this] show ?thesis .
qed

text \<open>
  C32: an allocation that succeeds under a budget leaves weights and pooled bytes within it, and
  one that fails leaves the allocator as it was.
\<close>

theorem alloc_in_pool_budget:
  assumes "memory_budget mem ga b = Some budget" "alloc_in_pool mem ga b sz = (ga', r)"
  shows "if is_ok r then lookup_or 0 (ga_pool_bytes ga') b + weights_bytes ga' b \<le> budget else ga' = ga"
proof (cases "budget < lookup_or 0 (ga_pool_bytes ga) b + weights_bytes ga b + class_bytes (class_size sz)")
  case True
  then have "ga' = ga" "\<not> is_ok r" using assms by (auto simp: alloc_in_pool_def Let_def)
  then show ?thesis by simp
next
  case False
  let ?want = "class_bytes (class_size sz)"
  have c: "alloc_charged ga b sz ?want = (ga', r)" using assms False by (simp add: alloc_in_pool_def Let_def)
  show ?thesis
  proof (cases "alloc_class_in_pool ga b sz")
    case (Pair ga1 r1)
    note F = alloc_class_frame [OF Pair]
    show ?thesis
    proof (cases r1)
      case (Inl e)
      then have "ga' = ga1" "r = Inl e" using c Pair by (simp_all add: alloc_charged_def)
      then show ?thesis using F(3) Inl by simp
    next
      case (Inr i)
      then have r: "r = Inr i" "ga_pools ga' = ga_pools ga1"
        "lookup_or 0 (ga_pool_bytes ga') b \<le> lookup_or 0 (ga_pool_bytes ga1) b + ?want"
        using c Pair by (auto simp: alloc_charged_def Let_def)
      have "weights_bytes ga' b = weights_bytes ga b" using F(2) r(2) by (simp add: weights_bytes_def)
      then show ?thesis using r False F(1) by simp
    qed
  qed
qed

theorem alloc_in_pool_budget_witness:
  "lookup_or 0 (ga_pool_bytes (fst (alloc_in_pool NoDevice demo_ga CPU 100))) CPU +
     weights_bytes (fst (alloc_in_pool NoDevice demo_ga CPU 100)) CPU \<le> 10000"
proof -
  have "memory_budget NoDevice demo_ga CPU = Some 10000" by code_simp
  from alloc_in_pool_budget [OF this, of 100 "fst (alloc_in_pool NoDevice demo_ga CPU 100)"
    "snd (alloc_in_pool NoDevice demo_ga CPU 100)"]
  have "if is_ok (snd (alloc_in_pool NoDevice demo_ga CPU 100))
    then lookup_or 0 (ga_pool_bytes (fst (alloc_in_pool NoDevice demo_ga CPU 100))) CPU +
      weights_bytes (fst (alloc_in_pool NoDevice demo_ga CPU 100)) CPU \<le> 10000
    else fst (alloc_in_pool NoDevice demo_ga CPU 100) = demo_ga" by simp
  moreover have "is_ok (snd (alloc_in_pool NoDevice demo_ga CPU 100))" by code_simp
  ultimately show ?thesis by (simp only: if_True)
qed

text \<open>
  The budget gate also counts a request that an idle buffer would serve. Here the pool holds
  one idle buffer of the wanted class, pool and weights are within the budget, and the request is
  refused although serving it would add no byte.
\<close>

definition full_ga :: GraphAllocator where
  "full_ga = (let ga = fst (alloc_in_pool NoDevice demo_ga CPU 100) in
     (free_in_pool ga (CPU, 0))\<lparr>ga_budget := [(CPU, 1500)]\<rparr>)"

theorem gate_counts_recycled:
  "map_of (ga_slots full_ga) (CPU, class_size 100) = Some [0] \<and>
   lookup_or 0 (ga_pool_bytes full_ga) CPU + weights_bytes full_ga CPU \<le> 1500 \<and>
   snd (alloc_in_pool NoDevice full_ga CPU 100) = Err (OutOfMemory CPU 10 1024 1024 1500) \<and>
   ga_pools (fst (alloc_class_in_pool full_ga CPU 100)) = ga_pools full_ga"
  by code_simp

text \<open>
  The in-place rule looks at the consumers of the first source only. A view with one consumer
  is overwritten in place although its parent is read later (node 4 reads node 1, whose buffer
  node 3 wrote), and an output with one consumer is overwritten before the caller reads it.
\<close>

definition view_plan :: ComputeGraph where
  "view_plan = \<lparr>g_nodes = [demo_node 0 Input [], demo_node 1 Add [0, 0], demo_view 2 1,
       (demo_node 3 Silu [2])\<lparr>cn_shape := (2, 1, 1, 1)\<rparr>, demo_node 4 Mul [3, 1]],
     g_inputs = [0], g_outputs = [4]\<rparr>"

definition output_plan :: ComputeGraph where
  "output_plan = \<lparr>g_nodes = [demo_node 0 Input [], demo_node 1 Add [0, 0], demo_node 2 Silu [1]],
     g_inputs = [0], g_outputs = [1, 2]\<rparr>"

theorem in_place_overwrites_pending:
  "snd (alloc_graph (\<lambda>_. False) NoDevice demo_ga view_plan) = Ok () \<and> 1 \<in> set (srcs view_plan 4) \<and>
   map_option key_of (buf (fst (alloc_graph (\<lambda>_. False) NoDevice demo_ga view_plan)) 3) =
   map_option key_of (buf (fst (alloc_graph (\<lambda>_. False) NoDevice demo_ga view_plan)) 1) \<and>
   snd (alloc_graph (\<lambda>_. False) NoDevice demo_ga output_plan) = Ok () \<and>
   buf (fst (alloc_graph (\<lambda>_. False) NoDevice demo_ga output_plan)) 2 =
   buf (fst (alloc_graph (\<lambda>_. False) NoDevice demo_ga output_plan)) 1"
  by code_simp

end
