(* ===== verification/Bytes.thy ===== *)
theory Bytes
  imports Prelude
begin

text \<open>
  Bytes: the little-endian codecs of the integer types, UTF-8 as the Rust standard library
  checks and repairs it, and the three outcomes of a parser that may refuse its input or panic.
\<close>

type_synonym byte = "8 word"

section \<open>Little-endian integers\<close>

text \<open>\<open>to_le_bytes\<close> of an \<open>n\<close>-byte integer, given by its bit pattern.\<close>

primrec le_bytes :: "nat \<Rightarrow> nat \<Rightarrow> byte list" where
  "le_bytes 0 v = []"
| "le_bytes (Suc n) v = word_of_nat (v mod 256) # le_bytes n (v div 256)"

primrec le_nat :: "byte list \<Rightarrow> nat" where
  "le_nat [] = 0"
| "le_nat (b # bs) = unat b + 256 * le_nat bs"

text \<open>The signed reading of a bit pattern of \<open>w\<close> bits.\<close>

definition signed :: "nat \<Rightarrow> nat \<Rightarrow> int" where
  "signed w n = (if n < 2 ^ (w - 1) then int n else int n - 2 ^ w)"

definition unsigned_of :: "nat \<Rightarrow> int \<Rightarrow> nat" where
  "unsigned_of w i = nat (i mod 2 ^ w)"

lemma length_le_bytes [simp]: "length (le_bytes n v) = n"
  by (induction n arbitrary: v) auto

lemma unat_byte_bound: "unat (b::byte) < 256"
  using unsigned_less [of b] by simp

lemma le_nat_bound: "le_nat bs < 256 ^ length bs"
proof (induction bs)
  case (Cons b bs)
  have "unat b + 256 * le_nat bs < 256 * (le_nat bs + 1)" using unat_byte_bound [of b] by simp
  also have "\<dots> \<le> 256 * 256 ^ length bs" using Cons by (intro mult_left_mono) auto
  finally show ?case by simp
qed simp

lemma le_bytes_le_nat [simp]: "le_bytes (length bs) (le_nat bs) = bs"
proof (induction bs)
  case (Cons b bs)
  have "(unat b + 256 * le_nat bs) mod 256 = unat b" "(unat b + 256 * le_nat bs) div 256 = le_nat bs"
    using unat_byte_bound [of b] by auto
  then show ?case using Cons by simp
qed simp

lemma unat_byte_of_nat: "v < 256 \<Longrightarrow> unat (word_of_nat v :: byte) = v"
  by (simp add: unsigned_of_nat take_bit_nat_eq_self)

lemma le_nat_le_bytes: "v < 256 ^ n \<Longrightarrow> le_nat (le_bytes n v) = v"
proof (induction n arbitrary: v)
  case (Suc n)
  then have "v div 256 < 256 ^ n" by (simp add: less_mult_imp_div_less mult.commute)
  then show ?case using Suc.IH by (simp add: unat_byte_of_nat)
qed simp

lemma signed_unsigned: "0 < w \<Longrightarrow> - (2 ^ (w - 1)) \<le> i \<Longrightarrow> i < 2 ^ (w - 1) \<Longrightarrow> signed w (unsigned_of w i) = i"
proof -
  assume w: "0 < w" "- (2 ^ (w - 1)) \<le> i" "i < 2 ^ (w - 1)"
  have p: "(2::int) ^ w = 2 * 2 ^ (w - 1)" using w(1) by (metis Suc_diff_1 power_Suc)
  show ?thesis
  proof (cases "0 \<le> i")
    case True
    then have "i mod 2 ^ w = i" using w(3) p by (intro mod_pos_pos_trivial) auto
    moreover have "nat i < 2 ^ (w - 1)" using True w(3) by (simp add: nat_less_iff)
    ultimately show ?thesis using True by (simp add: signed_def unsigned_of_def)
  next
    case False
    have "i mod 2 ^ w = (i + 2 ^ w) mod 2 ^ w" by simp
    also have "\<dots> = i + 2 ^ w" using False w(2) p by (intro mod_pos_pos_trivial) auto
    finally have "i mod 2 ^ w = i + 2 ^ w" .
    moreover have "\<not> nat (i + 2 ^ w) < 2 ^ (w - 1)" using w(2) p by (simp add: nat_less_iff)
    ultimately show ?thesis using False w(2) p by (simp add: signed_def unsigned_of_def)
  qed
qed

lemma unsigned_of_bound: "unsigned_of w i < 2 ^ w"
  by (simp add: unsigned_of_def nat_less_iff)

section \<open>UTF-8\<close>

definition is_cont :: "nat \<Rightarrow> bool" where
  "is_cont x \<longleftrightarrow> 0x80 \<le> x \<and> x \<le> 0xBF"

text \<open>
  The second bytes that may follow a first byte of three or four; the ranges keep out
  surrogates, overlong forms and code points above 0x10FFFF.
\<close>

definition second_of_3 :: "nat \<Rightarrow> nat \<Rightarrow> bool" where
  "second_of_3 x y \<longleftrightarrow>
     (if x = 0xE0 then 0xA0 \<le> y \<and> y \<le> 0xBF else if x = 0xED then 0x80 \<le> y \<and> y \<le> 0x9F else is_cont y)"

definition second_of_4 :: "nat \<Rightarrow> nat \<Rightarrow> bool" where
  "second_of_4 x y \<longleftrightarrow>
     (if x = 0xF0 then 0x90 \<le> y \<and> y \<le> 0xBF else if x = 0xF4 then 0x80 \<le> y \<and> y \<le> 0x8F else is_cont y)"

definition byte_at :: "byte list \<Rightarrow> nat \<Rightarrow> nat" where
  "byte_at bs i = (if i < length bs then unat (bs ! i) else 0)"

text \<open>
  The next chunk of a non-empty input: the length of its first character if that is well
  formed, otherwise the length of the part that one replacement character stands for.
\<close>

definition utf8_head :: "byte list \<Rightarrow> nat \<times> bool" where
  "utf8_head bs =
     (let x = byte_at bs 0 in
      if x < 0x80 then (1, True)
      else if 0xC2 \<le> x \<and> x \<le> 0xDF then (if is_cont (byte_at bs 1) then (2, True) else (1, False))
      else if 0xE0 \<le> x \<and> x \<le> 0xEF then
        (if \<not> second_of_3 x (byte_at bs 1) then (1, False)
         else if is_cont (byte_at bs 2) then (3, True) else (2, False))
      else if 0xF0 \<le> x \<and> x \<le> 0xF4 then
        (if \<not> second_of_4 x (byte_at bs 1) then (1, False)
         else if \<not> is_cont (byte_at bs 2) then (2, False)
         else if is_cont (byte_at bs 3) then (4, True) else (3, False))
      else (1, False))"

lemma utf8_head_pos: "0 < fst (utf8_head bs)"
  by (simp add: utf8_head_def Let_def)

function utf8_valid :: "byte list \<Rightarrow> bool" where
  "utf8_valid bs =
     (if bs = [] then True
      else if snd (utf8_head bs) then utf8_valid (drop (fst (utf8_head bs)) bs) else False)"
  by auto
termination
  using utf8_head_pos by (relation "measure length") auto

text \<open>\<open>String::from_utf8_lossy\<close>: every ill-formed part becomes U+FFFD.\<close>

function utf8_lossy :: "byte list \<Rightarrow> byte list" where
  "utf8_lossy bs =
     (if bs = [] then []
      else (if snd (utf8_head bs) then take (fst (utf8_head bs)) bs else [0xEF, 0xBF, 0xBD])
           @ utf8_lossy (drop (fst (utf8_head bs)) bs))"
  by auto
termination
  using utf8_head_pos by (relation "measure length") auto

declare utf8_valid.simps [simp del] utf8_lossy.simps [simp del]

lemma utf8_lossy_valid: "utf8_valid bs \<Longrightarrow> utf8_lossy bs = bs"
proof (induction bs rule: utf8_lossy.induct)
  case (1 bs)
  then show ?case using utf8_valid.simps [of bs] utf8_lossy.simps [of bs] by (auto split: if_splits)
qed

lemma is_cont_byte_at: "is_cont (byte_at bs i) \<Longrightarrow> i < length bs"
  by (rule ccontr) (simp add: is_cont_def byte_at_def)

lemma utf8_head_length:
  assumes "utf8_head bs = (n, True)" "bs \<noteq> []"
  shows "n \<le> length bs"
proof -
  have "Suc 0 \<le> length bs" using assms(2) by (simp add: Suc_le_eq)
  then show ?thesis
    using assms(1) is_cont_byte_at [of bs 1] is_cont_byte_at [of bs 2] is_cont_byte_at [of bs 3]
    by (auto simp: utf8_head_def Let_def split: if_splits)
qed

lemma utf8_head_cong:
  assumes "utf8_head bs = (n, True)" "\<And>i. i < n \<Longrightarrow> byte_at cs i = byte_at bs i"
  shows "utf8_head cs = (n, True)"
proof -
  have 0: "byte_at cs 0 = byte_at bs 0" using assms utf8_head_pos [of bs] by simp
  let ?x = "byte_at bs 0"
  consider "?x < 0x80" | "0xC2 \<le> ?x" "?x \<le> 0xDF" | "0xE0 \<le> ?x" "?x \<le> 0xEF" | "0xF0 \<le> ?x" "?x \<le> 0xF4"
    using assms(1) by (simp add: utf8_head_def Let_def split: if_splits)
  then show ?thesis
  proof cases
    case 1
    then show ?thesis using assms(1) 0 by (simp add: utf8_head_def)
  next
    case 2
    then have "n = 2" "is_cont (byte_at bs 1)" using assms(1) by (simp_all add: utf8_head_def split: if_splits)
    then show ?thesis using 0 2 assms(2) [of 1] by (simp add: utf8_head_def)
  next
    case 3
    then have "n = 3" "second_of_3 ?x (byte_at bs 1)" "is_cont (byte_at bs 2)"
      using assms(1) by (simp_all add: utf8_head_def split: if_splits)
    then show ?thesis using 0 3 assms(2) [of 1] assms(2) [of 2] by (simp add: utf8_head_def)
  next
    case 4
    then have "n = 4" "second_of_4 ?x (byte_at bs 1)" "is_cont (byte_at bs 2)" "is_cont (byte_at bs 3)"
      using assms(1) by (simp_all add: utf8_head_def split: if_splits)
    then show ?thesis using 0 4 assms(2) [of 1] assms(2) [of 2] assms(2) [of 3] by (simp add: utf8_head_def)
  qed
qed

lemma utf8_head_append:
  assumes "utf8_head bs = (n, True)" "bs \<noteq> []"
  shows "utf8_head (take n bs @ cs) = (n, True)"
proof (rule utf8_head_cong [OF assms(1)])
  show "byte_at (take n bs @ cs) i = byte_at bs i" if "i < n" for i
    using that utf8_head_length [OF assms] by (simp add: byte_at_def nth_append)
qed

text \<open>A repaired string is a well-formed one.\<close>

lemma utf8_valid_step:
  assumes "utf8_head (cs @ rest) = (length cs, True)" "cs \<noteq> []" "utf8_valid rest"
  shows "utf8_valid (cs @ rest)"
  using assms by (subst utf8_valid.simps) simp

lemma utf8_replacement: "utf8_head ([0xEF, 0xBF, 0xBD] @ rest) = (3, True)"
  by (simp add: utf8_head_def byte_at_def is_cont_def second_of_3_def)

lemma utf8_lossy_is_valid: "utf8_valid (utf8_lossy bs)"
proof (induction bs rule: utf8_lossy.induct)
  case (1 bs)
  show ?case
  proof (cases "bs = []")
    case True
    then show ?thesis using utf8_lossy.simps [of "[]"] utf8_valid.simps [of "[]"] by simp
  next
    case False
    obtain n ok where n: "utf8_head bs = (n, ok)" by (cases "utf8_head bs")
    have eq: "utf8_lossy bs = (if ok then take n bs else [0xEF, 0xBF, 0xBD]) @ utf8_lossy (drop n bs)"
      by (subst utf8_lossy.simps) (simp add: n False)
    have IH: "utf8_valid (utf8_lossy (drop n bs))" using "1.IH" [OF False] n by simp
    show ?thesis
    proof (cases ok)
      case True
      have len: "length (take n bs) = n" using utf8_head_length n True False by simp
      moreover have "take n bs \<noteq> []" using False utf8_head_pos [of bs] n by simp
      ultimately show ?thesis
        unfolding eq using True IH utf8_head_append [of bs n "utf8_lossy (drop n bs)"] n False
        by (simp add: utf8_valid_step)
    next
      case False
      have h: "utf8_head ([0xEF, 0xBF, 0xBD] @ utf8_lossy (drop n bs)) = (length [0xEF, 0xBF, 0xBD::byte], True)"
        unfolding utf8_replacement by simp
      have "utf8_valid ([0xEF, 0xBF, 0xBD] @ utf8_lossy (drop n bs))"
        by (rule utf8_valid_step [OF h _ IH]) simp
      then show ?thesis unfolding eq using False by (simp only: if_False)
    qed
  qed
qed

section \<open>Outcomes\<close>

text \<open>A parser gives a value, returns \<open>None\<close>, or panics.\<close>

datatype 'a outcome = Done 'a | Refused | Panicked

definition obind :: "'a outcome \<Rightarrow> ('a \<Rightarrow> 'b outcome) \<Rightarrow> 'b outcome" where
  "obind x f = (case x of Done a \<Rightarrow> f a | Refused \<Rightarrow> Refused | Panicked \<Rightarrow> Panicked)"

definition guarded :: "bool \<Rightarrow> 'a outcome \<Rightarrow> 'a outcome" where
  "guarded b x = (if b then x else Refused)"

definition asserted :: "bool \<Rightarrow> 'a outcome \<Rightarrow> 'a outcome" where
  "asserted b x = (if b then x else Panicked)"

lemma obind_simps [simp]:
  "obind (Done a) f = f a" "obind Refused f = Refused" "obind Panicked f = Panicked"
  by (simp_all add: obind_def)

lemma obind_Done: "obind x f = Done b \<longleftrightarrow> (\<exists>a. x = Done a \<and> f a = Done b)"
  by (cases x) auto

lemma guarded_Done: "guarded b x = Done y \<longleftrightarrow> b \<and> x = Done y"
  by (simp add: guarded_def)

lemma asserted_Done: "asserted b x = Done y \<longleftrightarrow> b \<and> x = Done y"
  by (simp add: asserted_def)

lemma guarded_True [simp]: "guarded True x = x" "asserted True x = x"
  by (simp_all add: guarded_def asserted_def)

lemmas outcome_Done = obind_Done guarded_Done asserted_Done

end
