(* ===== verification/Gguf.thy ===== *)
theory Gguf
  imports Bytes
begin

text \<open>
  The GGUF parser (\<open>src/gguf.rs\<close>): the element types, the reader over the mapped bytes, the
  metadata pairs and the tensor index, up to the size of the data section. A parse gives a
  context, is refused (\<open>None\<close>) or panics; the text of a refusal is left out. A string is its
  UTF-8 bytes, an integer or float its bit pattern in \<open>read_val\<close>; the host is little-endian
  and has 64-bit \<open>usize\<close>.
\<close>

section \<open>Constants and types\<close>

definition GGUF_MAGIC :: "byte list" where
  "GGUF_MAGIC = [0x47, 0x47, 0x55, 0x46]"

definition GGUF_VERSION :: nat where
  "GGUF_VERSION = 3"

definition GGUF_DEFAULT_ALIGNMENT :: nat where
  "GGUF_DEFAULT_ALIGNMENT = 32"

definition ascii :: "string \<Rightarrow> byte list" where
  "ascii s = map (\<lambda>c. word_of_nat (of_char c)) s"

definition GGUF_KEY_GENERAL_ALIGNMENT :: "byte list" where
  "GGUF_KEY_GENERAL_ALIGNMENT = ascii ''general.alignment''"

definition GGUF_MAX_STRING_LENGTH :: nat where
  "GGUF_MAX_STRING_LENGTH = 1024 * 1024 * 1024"

definition GGUF_MAX_ARRAY_ELEMENTS :: nat where
  "GGUF_MAX_ARRAY_ELEMENTS = 1024 * 1024 * 1024"

definition GGML_MAX_DIMS :: nat where
  "GGML_MAX_DIMS = 4"

definition GGML_MAX_NAME :: nat where
  "GGML_MAX_NAME = 64"

definition U64_MAX :: nat where
  "U64_MAX = 2 ^ 64 - 1"

definition I64_MAX :: int where
  "I64_MAX = 2 ^ 63 - 1"

text \<open>\<open>size_of\<close> of the two index structs on a 64-bit target.\<close>

definition KV_STRUCT_BYTES :: nat where
  "KV_STRUCT_BYTES = 80"

definition INFO_STRUCT_BYTES :: nat where
  "INFO_STRUCT_BYTES = 104"

datatype GgufType =
    Uint8 | Int8 | Uint16 | Int16 | Uint32 | Int32 | Float32 | BoolT | StringT | ArrayT
  | Uint64 | Int64 | Float64

definition gguf_of_i32 :: "int \<Rightarrow> GgufType outcome" where
  "gguf_of_i32 v =
     (if v = 0 then Done Uint8
      else if v = 1 then Done Int8
      else if v = 2 then Done Uint16
      else if v = 3 then Done Int16
      else if v = 4 then Done Uint32
      else if v = 5 then Done Int32
      else if v = 6 then Done Float32
      else if v = 7 then Done BoolT
      else if v = 8 then Done StringT
      else if v = 9 then Done ArrayT
      else if v = 10 then Done Uint64
      else if v = 11 then Done Int64
      else if v = 12 then Done Float64
      else Panicked)"

primrec gguf_code :: "GgufType \<Rightarrow> nat" where
  "gguf_code Uint8 = 0"
| "gguf_code Int8 = 1"
| "gguf_code Uint16 = 2"
| "gguf_code Int16 = 3"
| "gguf_code Uint32 = 4"
| "gguf_code Int32 = 5"
| "gguf_code Float32 = 6"
| "gguf_code BoolT = 7"
| "gguf_code StringT = 8"
| "gguf_code ArrayT = 9"
| "gguf_code Uint64 = 10"
| "gguf_code Int64 = 11"
| "gguf_code Float64 = 12"

primrec type_size :: "GgufType \<Rightarrow> nat" where
  "type_size Uint8 = 1"
| "type_size Int8 = 1"
| "type_size Uint16 = 2"
| "type_size Int16 = 2"
| "type_size Uint32 = 4"
| "type_size Int32 = 4"
| "type_size Float32 = 4"
| "type_size BoolT = 1"
| "type_size StringT = 0"
| "type_size ArrayT = 0"
| "type_size Uint64 = 8"
| "type_size Int64 = 8"
| "type_size Float64 = 8"

datatype GgmlType =
    F32 | F16 | Q4_0 | Q4_1 | Q5_0 | Q5_1 | Q8_0 | Q8_1
  | Q2_K | Q3_K | Q4_K | Q5_K | Q6_K | Q8_K | IQ2_XXS | IQ2_XS
  | IQ3_XXS | IQ1_S | IQ4_NL | IQ3_S | IQ2_S | IQ4_XS | I8 | I16
  | I32 | I64 | F64 | IQ1_M | BF16 | TQ1_0 | TQ2_0 | MXFP4
  | NVFP4 | Q1_0

definition ggml_of_i32 :: "int \<Rightarrow> GgmlType outcome" where
  "ggml_of_i32 v =
     (if v = 0 then Done F32
      else if v = 1 then Done F16
      else if v = 2 then Done Q4_0
      else if v = 3 then Done Q4_1
      else if v = 6 then Done Q5_0
      else if v = 7 then Done Q5_1
      else if v = 8 then Done Q8_0
      else if v = 9 then Done Q8_1
      else if v = 10 then Done Q2_K
      else if v = 11 then Done Q3_K
      else if v = 12 then Done Q4_K
      else if v = 13 then Done Q5_K
      else if v = 14 then Done Q6_K
      else if v = 15 then Done Q8_K
      else if v = 16 then Done IQ2_XXS
      else if v = 17 then Done IQ2_XS
      else if v = 18 then Done IQ3_XXS
      else if v = 19 then Done IQ1_S
      else if v = 20 then Done IQ4_NL
      else if v = 21 then Done IQ3_S
      else if v = 22 then Done IQ2_S
      else if v = 23 then Done IQ4_XS
      else if v = 24 then Done I8
      else if v = 25 then Done I16
      else if v = 26 then Done I32
      else if v = 27 then Done I64
      else if v = 28 then Done F64
      else if v = 29 then Done IQ1_M
      else if v = 30 then Done BF16
      else if v = 34 then Done TQ1_0
      else if v = 35 then Done TQ2_0
      else if v = 39 then Done MXFP4
      else if v = 40 then Done NVFP4
      else if v = 41 then Done Q1_0
      else Panicked)"

primrec ggml_code :: "GgmlType \<Rightarrow> nat" where
  "ggml_code F32 = 0"
| "ggml_code F16 = 1"
| "ggml_code Q4_0 = 2"
| "ggml_code Q4_1 = 3"
| "ggml_code Q5_0 = 6"
| "ggml_code Q5_1 = 7"
| "ggml_code Q8_0 = 8"
| "ggml_code Q8_1 = 9"
| "ggml_code Q2_K = 10"
| "ggml_code Q3_K = 11"
| "ggml_code Q4_K = 12"
| "ggml_code Q5_K = 13"
| "ggml_code Q6_K = 14"
| "ggml_code Q8_K = 15"
| "ggml_code IQ2_XXS = 16"
| "ggml_code IQ2_XS = 17"
| "ggml_code IQ3_XXS = 18"
| "ggml_code IQ1_S = 19"
| "ggml_code IQ4_NL = 20"
| "ggml_code IQ3_S = 21"
| "ggml_code IQ2_S = 22"
| "ggml_code IQ4_XS = 23"
| "ggml_code I8 = 24"
| "ggml_code I16 = 25"
| "ggml_code I32 = 26"
| "ggml_code I64 = 27"
| "ggml_code F64 = 28"
| "ggml_code IQ1_M = 29"
| "ggml_code BF16 = 30"
| "ggml_code TQ1_0 = 34"
| "ggml_code TQ2_0 = 35"
| "ggml_code MXFP4 = 39"
| "ggml_code NVFP4 = 40"
| "ggml_code Q1_0 = 41"

primrec ggml_type_size :: "GgmlType \<Rightarrow> nat" where
  "ggml_type_size F32 = 4"
| "ggml_type_size F16 = 2"
| "ggml_type_size Q4_0 = 18"
| "ggml_type_size Q4_1 = 20"
| "ggml_type_size Q5_0 = 22"
| "ggml_type_size Q5_1 = 24"
| "ggml_type_size Q8_0 = 34"
| "ggml_type_size Q8_1 = 36"
| "ggml_type_size Q2_K = 70"
| "ggml_type_size Q3_K = 110"
| "ggml_type_size Q4_K = 144"
| "ggml_type_size Q5_K = 176"
| "ggml_type_size Q6_K = 210"
| "ggml_type_size Q8_K = 290"
| "ggml_type_size IQ2_XXS = 42"
| "ggml_type_size IQ2_XS = 36"
| "ggml_type_size IQ3_XXS = 58"
| "ggml_type_size IQ1_S = 36"
| "ggml_type_size IQ4_NL = 18"
| "ggml_type_size IQ3_S = 64"
| "ggml_type_size IQ2_S = 48"
| "ggml_type_size IQ4_XS = 28"
| "ggml_type_size I8 = 1"
| "ggml_type_size I16 = 2"
| "ggml_type_size I32 = 4"
| "ggml_type_size I64 = 8"
| "ggml_type_size F64 = 8"
| "ggml_type_size IQ1_M = 54"
| "ggml_type_size BF16 = 2"
| "ggml_type_size TQ1_0 = 68"
| "ggml_type_size TQ2_0 = 100"
| "ggml_type_size MXFP4 = 72"
| "ggml_type_size NVFP4 = 80"
| "ggml_type_size Q1_0 = 6"

primrec blck_size :: "GgmlType \<Rightarrow> nat" where
  "blck_size F32 = 1"
| "blck_size F16 = 1"
| "blck_size Q4_0 = 32"
| "blck_size Q4_1 = 32"
| "blck_size Q5_0 = 32"
| "blck_size Q5_1 = 32"
| "blck_size Q8_0 = 32"
| "blck_size Q8_1 = 32"
| "blck_size Q2_K = 256"
| "blck_size Q3_K = 256"
| "blck_size Q4_K = 256"
| "blck_size Q5_K = 256"
| "blck_size Q6_K = 256"
| "blck_size Q8_K = 256"
| "blck_size IQ2_XXS = 256"
| "blck_size IQ2_XS = 256"
| "blck_size IQ3_XXS = 256"
| "blck_size IQ1_S = 256"
| "blck_size IQ4_NL = 32"
| "blck_size IQ3_S = 256"
| "blck_size IQ2_S = 256"
| "blck_size IQ4_XS = 32"
| "blck_size I8 = 1"
| "blck_size I16 = 1"
| "blck_size I32 = 1"
| "blck_size I64 = 1"
| "blck_size F64 = 1"
| "blck_size IQ1_M = 256"
| "blck_size BF16 = 1"
| "blck_size TQ1_0 = 256"
| "blck_size TQ2_0 = 256"
| "blck_size MXFP4 = 32"
| "blck_size NVFP4 = 32"
| "blck_size Q1_0 = 32"

primrec ggml_type_name :: "GgmlType \<Rightarrow> string" where
  "ggml_type_name F32 = ''f32''"
| "ggml_type_name F16 = ''f16''"
| "ggml_type_name Q4_0 = ''q4_0''"
| "ggml_type_name Q4_1 = ''q4_1''"
| "ggml_type_name Q5_0 = ''q5_0''"
| "ggml_type_name Q5_1 = ''q5_1''"
| "ggml_type_name Q8_0 = ''q8_0''"
| "ggml_type_name Q8_1 = ''q8_1''"
| "ggml_type_name Q2_K = ''q2_K''"
| "ggml_type_name Q3_K = ''q3_K''"
| "ggml_type_name Q4_K = ''q4_K''"
| "ggml_type_name Q5_K = ''q5_K''"
| "ggml_type_name Q6_K = ''q6_K''"
| "ggml_type_name Q8_K = ''q8_K''"
| "ggml_type_name IQ2_XXS = ''iq2_xxs''"
| "ggml_type_name IQ2_XS = ''iq2_xs''"
| "ggml_type_name IQ3_XXS = ''iq3_xxs''"
| "ggml_type_name IQ1_S = ''iq1_s''"
| "ggml_type_name IQ4_NL = ''iq4_nl''"
| "ggml_type_name IQ3_S = ''iq3_s''"
| "ggml_type_name IQ2_S = ''iq2_s''"
| "ggml_type_name IQ4_XS = ''iq4_xs''"
| "ggml_type_name I8 = ''i8''"
| "ggml_type_name I16 = ''i16''"
| "ggml_type_name I32 = ''i32''"
| "ggml_type_name I64 = ''i64''"
| "ggml_type_name F64 = ''f64''"
| "ggml_type_name IQ1_M = ''iq1_m''"
| "ggml_type_name BF16 = ''bf16''"
| "ggml_type_name TQ1_0 = ''tq1_0''"
| "ggml_type_name TQ2_0 = ''tq2_0''"
| "ggml_type_name MXFP4 = ''mxfp4''"
| "ggml_type_name NVFP4 = ''nvfp4''"
| "ggml_type_name Q1_0 = ''q1_0''"

text \<open>\<open>ggml_pad\<close>, on 64-bit words.\<close>

definition ggml_pad :: "nat \<Rightarrow> nat \<Rightarrow> nat" where
  "ggml_pad x n = unat (and (word_of_nat (x + n - 1) :: 64 word) (not (word_of_nat (n - 1))))"

definition is_pow2 :: "nat \<Rightarrow> bool" where
  "is_pow2 a \<longleftrightarrow> \<not> (a = 0 \<or> and a (a - 1) \<noteq> 0)"

section \<open>Metadata pairs\<close>

record GgufKv =
  kv_key :: "byte list"
  kv_is_array :: bool
  kv_type :: GgufType
  kv_data :: "byte list"
  kv_strings :: "byte list list"

text \<open>The constructors of scalars take the bit pattern of their value.\<close>

definition new_u8 :: "byte list \<Rightarrow> nat \<Rightarrow> GgufKv" where
  "new_u8 key value = \<lparr>kv_key = key, kv_is_array = False, kv_type = Uint8, kv_data = le_bytes 1 value, kv_strings = []\<rparr>"

definition new_i8 :: "byte list \<Rightarrow> nat \<Rightarrow> GgufKv" where
  "new_i8 key value = \<lparr>kv_key = key, kv_is_array = False, kv_type = Int8, kv_data = le_bytes 1 value, kv_strings = []\<rparr>"

definition new_u16 :: "byte list \<Rightarrow> nat \<Rightarrow> GgufKv" where
  "new_u16 key value = \<lparr>kv_key = key, kv_is_array = False, kv_type = Uint16, kv_data = le_bytes 2 value, kv_strings = []\<rparr>"

definition new_i16 :: "byte list \<Rightarrow> nat \<Rightarrow> GgufKv" where
  "new_i16 key value = \<lparr>kv_key = key, kv_is_array = False, kv_type = Int16, kv_data = le_bytes 2 value, kv_strings = []\<rparr>"

definition new_u32 :: "byte list \<Rightarrow> nat \<Rightarrow> GgufKv" where
  "new_u32 key value = \<lparr>kv_key = key, kv_is_array = False, kv_type = Uint32, kv_data = le_bytes 4 value, kv_strings = []\<rparr>"

definition new_i32 :: "byte list \<Rightarrow> nat \<Rightarrow> GgufKv" where
  "new_i32 key value = \<lparr>kv_key = key, kv_is_array = False, kv_type = Int32, kv_data = le_bytes 4 value, kv_strings = []\<rparr>"

definition new_f32 :: "byte list \<Rightarrow> nat \<Rightarrow> GgufKv" where
  "new_f32 key value = \<lparr>kv_key = key, kv_is_array = False, kv_type = Float32, kv_data = le_bytes 4 value, kv_strings = []\<rparr>"

definition new_f64 :: "byte list \<Rightarrow> nat \<Rightarrow> GgufKv" where
  "new_f64 key value = \<lparr>kv_key = key, kv_is_array = False, kv_type = Float64, kv_data = le_bytes 8 value, kv_strings = []\<rparr>"

definition new_u64 :: "byte list \<Rightarrow> nat \<Rightarrow> GgufKv" where
  "new_u64 key value = \<lparr>kv_key = key, kv_is_array = False, kv_type = Uint64, kv_data = le_bytes 8 value, kv_strings = []\<rparr>"

definition new_i64 :: "byte list \<Rightarrow> nat \<Rightarrow> GgufKv" where
  "new_i64 key value = \<lparr>kv_key = key, kv_is_array = False, kv_type = Int64, kv_data = le_bytes 8 value, kv_strings = []\<rparr>"

definition new_bool :: "byte list \<Rightarrow> bool \<Rightarrow> GgufKv" where
  "new_bool key value = \<lparr>kv_key = key, kv_is_array = False, kv_type = BoolT,
     kv_data = [if value then 1 else 0], kv_strings = []\<rparr>"

definition new_string :: "byte list \<Rightarrow> byte list \<Rightarrow> GgufKv" where
  "new_string key value = \<lparr>kv_key = key, kv_is_array = False, kv_type = StringT, kv_data = [], kv_strings = [value]\<rparr>"

definition new_string_array :: "byte list \<Rightarrow> byte list list \<Rightarrow> GgufKv" where
  "new_string_array key value = \<lparr>kv_key = key, kv_is_array = True, kv_type = StringT, kv_data = [], kv_strings = value\<rparr>"

definition new_array :: "byte list \<Rightarrow> GgufType \<Rightarrow> byte list \<Rightarrow> GgufKv" where
  "new_array key ty raw_data = \<lparr>kv_key = key, kv_is_array = True, kv_type = ty, kv_data = raw_data, kv_strings = []\<rparr>"

text \<open>The number of elements; the asserts and the division by the size of an array type panic.\<close>

definition get_ne :: "GgufKv \<Rightarrow> nat outcome" where
  "get_ne kv =
     (if kv_type kv = StringT
      then asserted (kv_is_array kv \<or> length (kv_strings kv) = 1) (Done (length (kv_strings kv)))
      else (let sz = type_size (kv_type kv); ne = length (kv_data kv) div sz in
            asserted (sz \<noteq> 0 \<and> length (kv_data kv) mod sz = 0)
              (asserted (kv_is_array kv \<or> ne = 1) (Done ne))))"

text \<open>The bytes of element \<open>i\<close>; a range outside the data panics.\<close>

definition value_bytes :: "GgufKv \<Rightarrow> nat \<Rightarrow> nat \<Rightarrow> byte list outcome" where
  "value_bytes kv sz i = asserted ((i + 1) * sz \<le> length (kv_data kv)) (Done (take sz (drop (i * sz) (kv_data kv))))"

definition get_val_u8 :: "GgufKv \<Rightarrow> nat \<Rightarrow> nat outcome" where
  "get_val_u8 kv i = asserted (kv_type kv = Uint8) (obind (value_bytes kv 1 i) (\<lambda>bs. Done (le_nat bs)))"

definition get_val_i8 :: "GgufKv \<Rightarrow> nat \<Rightarrow> int outcome" where
  "get_val_i8 kv i = asserted (kv_type kv = Int8) (obind (value_bytes kv 1 i) (\<lambda>bs. Done (signed 8 (le_nat bs))))"

definition get_val_u16 :: "GgufKv \<Rightarrow> nat \<Rightarrow> nat outcome" where
  "get_val_u16 kv i = asserted (kv_type kv = Uint16) (obind (value_bytes kv 2 i) (\<lambda>bs. Done (le_nat bs)))"

definition get_val_i16 :: "GgufKv \<Rightarrow> nat \<Rightarrow> int outcome" where
  "get_val_i16 kv i = asserted (kv_type kv = Int16) (obind (value_bytes kv 2 i) (\<lambda>bs. Done (signed 16 (le_nat bs))))"

definition get_val_u32 :: "GgufKv \<Rightarrow> nat \<Rightarrow> nat outcome" where
  "get_val_u32 kv i = asserted (kv_type kv = Uint32) (obind (value_bytes kv 4 i) (\<lambda>bs. Done (le_nat bs)))"

definition get_val_i32 :: "GgufKv \<Rightarrow> nat \<Rightarrow> int outcome" where
  "get_val_i32 kv i = asserted (kv_type kv = Int32) (obind (value_bytes kv 4 i) (\<lambda>bs. Done (signed 32 (le_nat bs))))"

definition get_val_f32 :: "GgufKv \<Rightarrow> nat \<Rightarrow> nat outcome" where
  "get_val_f32 kv i = asserted (kv_type kv = Float32) (obind (value_bytes kv 4 i) (\<lambda>bs. Done (le_nat bs)))"

definition get_val_u64 :: "GgufKv \<Rightarrow> nat \<Rightarrow> nat outcome" where
  "get_val_u64 kv i = asserted (kv_type kv = Uint64) (obind (value_bytes kv 8 i) (\<lambda>bs. Done (le_nat bs)))"

definition get_val_i64 :: "GgufKv \<Rightarrow> nat \<Rightarrow> int outcome" where
  "get_val_i64 kv i = asserted (kv_type kv = Int64) (obind (value_bytes kv 8 i) (\<lambda>bs. Done (signed 64 (le_nat bs))))"

definition get_val_f64 :: "GgufKv \<Rightarrow> nat \<Rightarrow> nat outcome" where
  "get_val_f64 kv i = asserted (kv_type kv = Float64) (obind (value_bytes kv 8 i) (\<lambda>bs. Done (le_nat bs)))"

definition get_val_bool :: "GgufKv \<Rightarrow> nat \<Rightarrow> bool outcome" where
  "get_val_bool kv i = asserted (kv_type kv = BoolT) (obind (value_bytes kv 1 i) (\<lambda>bs. Done (le_nat bs \<noteq> 0)))"

definition get_val_str :: "GgufKv \<Rightarrow> nat \<Rightarrow> byte list outcome" where
  "get_val_str kv i = asserted (kv_type kv = StringT) (asserted (i < length (kv_strings kv)) (Done (kv_strings kv ! i)))"

section \<open>The tensor index and the context\<close>

record GgufTensorInfo =
  ti_name :: "byte list"
  ti_ne :: "int list"
  ti_nb :: "nat list"
  ti_type :: GgmlType
  ti_offset :: nat

definition ti_nbytes :: "GgufTensorInfo \<Rightarrow> nat" where
  "ti_nbytes ti = nat (prod_list (ti_ne ti) div int (blck_size (ti_type ti))) * ggml_type_size (ti_type ti)"

record GgufContext =
  gc_version :: nat
  gc_kv :: "GgufKv list"
  gc_info :: "GgufTensorInfo list"
  gc_alignment :: nat
  gc_offset :: nat
  gc_size :: nat

fun find_key_from :: "nat \<Rightarrow> GgufKv list \<Rightarrow> byte list \<Rightarrow> int" where
  "find_key_from i [] key = - 1"
| "find_key_from i (kv # kvs) key = (if key = kv_key kv then int i else find_key_from (i + 1) kvs key)"

definition find_key :: "GgufKv list \<Rightarrow> byte list \<Rightarrow> int" where
  "find_key kvs key = find_key_from 0 kvs key"

definition ctx_val_u32 :: "GgufKv list \<Rightarrow> int \<Rightarrow> nat outcome" where
  "ctx_val_u32 kvs key_id =
     asserted (0 \<le> key_id \<and> key_id < int (length kvs))
       (obind (get_ne (kvs ! nat key_id)) (\<lambda>ne. asserted (ne = 1) (get_val_u32 (kvs ! nat key_id) 0)))"

definition ggml_nelements :: "int list \<Rightarrow> int" where
  "ggml_nelements ne = ne ! 0 * ne ! 1 * ne ! 2 * ne ! 3"

definition ggml_nbytes :: "GgufTensorInfo \<Rightarrow> nat" where
  "ggml_nbytes info =
     (let ne = ti_ne info; nb = ti_nb info; blck = blck_size (ti_type info) in
      if list_ex (\<lambda>x. x \<le> 0) ne then 0
      else if blck = 1
      then ggml_type_size (ti_type info) + sum_list (map (\<lambda>i. nat (ne ! i - 1) * nb ! i) [0..<GGML_MAX_DIMS])
      else nat (ne ! 0) * nb ! 0 div blck + sum_list (map (\<lambda>i. nat (ne ! i - 1) * nb ! i) [1..<GGML_MAX_DIMS]))"

section \<open>The reader\<close>

record GgufReader =
  rd_data :: "byte list"
  rd_offset :: nat
  rd_remain :: nat

definition reader_new :: "byte list \<Rightarrow> GgufReader" where
  "reader_new d = \<lparr>rd_data = d, rd_offset = 0, rd_remain = length d\<rparr>"

text \<open>The copy loop of \<open>read_raw\<close> ends after one chunk: the whole rest, or all that was asked for.\<close>

definition read_raw :: "GgufReader \<Rightarrow> nat \<Rightarrow> (byte list \<times> GgufReader) outcome" where
  "read_raw r sz =
     (if sz = 0 then Done ([], r)
      else (let got = take sz (drop (rd_offset r) (rd_data r)) in
            asserted (length got \<le> rd_remain r)
              (Done (got, r\<lparr>rd_offset := rd_offset r + length got, rd_remain := rd_remain r - length got\<rparr>))))"

definition read_val :: "nat \<Rightarrow> GgufReader \<Rightarrow> (nat \<times> GgufReader) outcome" where
  "read_val sz r =
     guarded (sz \<le> rd_remain r)
       (obind (read_raw r sz) (\<lambda>(bs, r'). guarded (length bs = sz) (Done (le_nat bs, r'))))"

definition read_bool :: "GgufReader \<Rightarrow> (bool \<times> GgufReader) outcome" where
  "read_bool r = obind (read_val 1 r) (\<lambda>(v, r'). Done (v \<noteq> 0, r'))"

definition read_i32 :: "GgufReader \<Rightarrow> (int \<times> GgufReader) outcome" where
  "read_i32 r = obind (read_val 4 r) (\<lambda>(v, r'). Done (signed 32 v, r'))"

definition read_i64 :: "GgufReader \<Rightarrow> (int \<times> GgufReader) outcome" where
  "read_i64 r = obind (read_val 8 r) (\<lambda>(v, r'). Done (signed 64 v, r'))"

definition read_ggml_type :: "GgufReader \<Rightarrow> (GgmlType \<times> GgufReader) outcome" where
  "read_ggml_type r = obind (read_i32 r) (\<lambda>(v, r'). obind (ggml_of_i32 v) (\<lambda>t. Done (t, r')))"

definition read_gguf_type :: "GgufReader \<Rightarrow> (GgufType \<times> GgufReader) outcome" where
  "read_gguf_type r = obind (read_i32 r) (\<lambda>(v, r'). obind (gguf_of_i32 v) (\<lambda>t. Done (t, r')))"

definition read_string :: "GgufReader \<Rightarrow> (byte list \<times> GgufReader) outcome" where
  "read_string r =
     obind (read_val 8 r) (\<lambda>(sz, r').
       guarded (sz \<le> GGUF_MAX_STRING_LENGTH) (guarded (sz \<le> rd_remain r')
         (obind (read_raw r' sz) (\<lambda>(bs, r'').
           guarded (length bs = sz) (Done (utf8_lossy bs, r''))))))"

text \<open>\<open>for _ in 0..n\<close>, pushing what \<open>rd\<close> reads.\<close>

primrec read_times :: "nat \<Rightarrow> (GgufReader \<Rightarrow> ('a \<times> GgufReader) outcome) \<Rightarrow> GgufReader \<Rightarrow> ('a list \<times> GgufReader) outcome" where
  "read_times 0 rd r = Done ([], r)"
| "read_times (Suc n) rd r =
     obind (rd r) (\<lambda>(x, r'). obind (read_times n rd r') (\<lambda>(xs, r''). Done (x # xs, r'')))"

definition read_vec :: "nat \<Rightarrow> nat \<Rightarrow> GgufReader \<Rightarrow> (nat list \<times> GgufReader) outcome" where
  "read_vec sz n r =
     guarded (n \<le> GGUF_MAX_ARRAY_ELEMENTS) (guarded (n \<le> rd_remain r div sz) (read_times n (read_val sz) r))"

definition read_string_vec :: "nat \<Rightarrow> GgufReader \<Rightarrow> (byte list list \<times> GgufReader) outcome" where
  "read_string_vec n r =
     guarded (n \<le> GGUF_MAX_ARRAY_ELEMENTS) (guarded (n * 8 \<le> rd_remain r) (read_times n read_string r))"

definition seek :: "GgufReader \<Rightarrow> nat \<Rightarrow> GgufReader outcome" where
  "seek r off =
     guarded (off \<le> length (rd_data r)) (Done (r\<lparr>rd_offset := off, rd_remain := length (rd_data r) - off\<rparr>))"

section \<open>Metadata\<close>

text \<open>
  The value of a pair. An array of booleans reserves its announced length first, which panics
  beyond \<open>isize::MAX\<close>.
\<close>

definition read_value :: "byte list \<Rightarrow> GgufType \<Rightarrow> bool \<Rightarrow> nat \<Rightarrow> GgufReader \<Rightarrow> (GgufKv \<times> GgufReader) outcome" where
  "read_value key ty is_array n r =
     (case ty of
       Uint8 \<Rightarrow>
       (if is_array then obind (read_vec 1 n r) (\<lambda>(vs, r'). Done (new_array key Uint8 (concat (map (le_bytes 1) vs)), r'))
        else obind (read_val 1 r) (\<lambda>(v, r'). Done (new_u8 key v, r')))
     | Int8 \<Rightarrow>
       (if is_array then obind (read_vec 1 n r) (\<lambda>(vs, r'). Done (new_array key Int8 (concat (map (le_bytes 1) vs)), r'))
        else obind (read_val 1 r) (\<lambda>(v, r'). Done (new_i8 key v, r')))
     | Uint16 \<Rightarrow>
       (if is_array then obind (read_vec 2 n r) (\<lambda>(vs, r'). Done (new_array key Uint16 (concat (map (le_bytes 2) vs)), r'))
        else obind (read_val 2 r) (\<lambda>(v, r'). Done (new_u16 key v, r')))
     | Int16 \<Rightarrow>
       (if is_array then obind (read_vec 2 n r) (\<lambda>(vs, r'). Done (new_array key Int16 (concat (map (le_bytes 2) vs)), r'))
        else obind (read_val 2 r) (\<lambda>(v, r'). Done (new_i16 key v, r')))
     | Uint32 \<Rightarrow>
       (if is_array then obind (read_vec 4 n r) (\<lambda>(vs, r'). Done (new_array key Uint32 (concat (map (le_bytes 4) vs)), r'))
        else obind (read_val 4 r) (\<lambda>(v, r'). Done (new_u32 key v, r')))
     | Int32 \<Rightarrow>
       (if is_array then obind (read_vec 4 n r) (\<lambda>(vs, r'). Done (new_array key Int32 (concat (map (le_bytes 4) vs)), r'))
        else obind (read_val 4 r) (\<lambda>(v, r'). Done (new_i32 key v, r')))
     | Float32 \<Rightarrow>
       (if is_array then obind (read_vec 4 n r) (\<lambda>(vs, r'). Done (new_array key Float32 (concat (map (le_bytes 4) vs)), r'))
        else obind (read_val 4 r) (\<lambda>(v, r'). Done (new_f32 key v, r')))
     | BoolT \<Rightarrow>
       (if is_array
        then asserted (n < 2 ^ 63) (obind (read_times n read_bool r) (\<lambda>(vs, r').
               Done (new_array key BoolT (map (\<lambda>v. if v then 1 else 0) vs), r')))
        else obind (read_bool r) (\<lambda>(v, r'). Done (new_bool key v, r')))
     | StringT \<Rightarrow>
       (if is_array then obind (read_string_vec n r) (\<lambda>(vs, r'). Done (new_string_array key vs, r'))
        else obind (read_string r) (\<lambda>(v, r'). Done (new_string key v, r')))
     | ArrayT \<Rightarrow> Refused
     | Uint64 \<Rightarrow>
       (if is_array then obind (read_vec 8 n r) (\<lambda>(vs, r'). Done (new_array key Uint64 (concat (map (le_bytes 8) vs)), r'))
        else obind (read_val 8 r) (\<lambda>(v, r'). Done (new_u64 key v, r')))
     | Int64 \<Rightarrow>
       (if is_array then obind (read_vec 8 n r) (\<lambda>(vs, r'). Done (new_array key Int64 (concat (map (le_bytes 8) vs)), r'))
        else obind (read_val 8 r) (\<lambda>(v, r'). Done (new_i64 key v, r')))
     | Float64 \<Rightarrow>
       (if is_array then obind (read_vec 8 n r) (\<lambda>(vs, r'). Done (new_array key Float64 (concat (map (le_bytes 8) vs)), r'))
        else obind (read_val 8 r) (\<lambda>(v, r'). Done (new_f64 key v, r'))))"

definition read_kv :: "GgufKv list \<Rightarrow> GgufReader \<Rightarrow> (GgufKv \<times> GgufReader) outcome" where
  "read_kv kvs r =
     obind (read_string r) (\<lambda>(key, r1).
       guarded (\<not> list_ex (\<lambda>kv. key = kv_key kv) kvs)
         (obind (read_gguf_type r1) (\<lambda>(ty, r2).
            if ty = ArrayT
            then obind (read_gguf_type r2) (\<lambda>(ty', r3).
                   obind (read_val 8 r3) (\<lambda>(n, r4). read_value key ty' True n r4))
            else read_value key ty False 1 r2)))"

primrec read_kvs :: "nat \<Rightarrow> GgufKv list \<Rightarrow> GgufReader \<Rightarrow> (GgufKv list \<times> GgufReader) outcome" where
  "read_kvs 0 kvs r = Done (kvs, r)"
| "read_kvs (Suc n) kvs r = obind (read_kv kvs r) (\<lambda>(kv, r'). read_kvs n (kvs @ [kv]) r')"

definition read_alignment :: "GgufKv list \<Rightarrow> nat outcome" where
  "read_alignment kvs =
     obind (if find_key kvs GGUF_KEY_GENERAL_ALIGNMENT = - 1 then Done GGUF_DEFAULT_ALIGNMENT
            else ctx_val_u32 kvs (find_key kvs GGUF_KEY_GENERAL_ALIGNMENT))
       (\<lambda>a. guarded (is_pow2 a) (Done a))"

section \<open>The tensor index\<close>

text \<open>The four extents: \<open>n_dims\<close> are read, the others are 1.\<close>

primrec read_dims :: "nat \<Rightarrow> nat \<Rightarrow> GgufReader \<Rightarrow> (int list \<times> GgufReader) outcome" where
  "read_dims 0 n_dims r = Done ([], r)"
| "read_dims (Suc k) n_dims r =
     (if n_dims = 0 then obind (read_dims k 0 r) (\<lambda>(ne, r'). Done (1 # ne, r'))
      else obind (read_i64 r) (\<lambda>(x, r').
             guarded (0 \<le> x) (obind (read_dims k (n_dims - 1) r') (\<lambda>(ne, r''). Done (x # ne, r'')))))"

text \<open>\<open>i64::MAX / n <= m\<close>: a zero \<open>n\<close> panics; the three tests are tried in order.\<close>

definition too_many :: "int \<Rightarrow> int \<Rightarrow> bool outcome" where
  "too_many n m = asserted (n \<noteq> 0) (Done (I64_MAX div n \<le> m))"

definition check_elements :: "int list \<Rightarrow> unit outcome" where
  "check_elements ne =
     obind (too_many (ne ! 1) (ne ! 0)) (\<lambda>a.
       guarded (\<not> a) (obind (too_many (ne ! 2) (ne ! 0 * ne ! 1)) (\<lambda>b.
         guarded (\<not> b) (obind (too_many (ne ! 3) (ne ! 0 * ne ! 1 * ne ! 2)) (\<lambda>c.
           guarded (\<not> c) (Done ()))))))"

definition strides :: "GgmlType \<Rightarrow> int list \<Rightarrow> nat list" where
  "strides t ne =
     (let nb0 = ggml_type_size t;
          nb1 = nb0 * nat (ne ! 0 div int (blck_size t));
          nb2 = nb1 * nat (ne ! 1);
          nb3 = nb2 * nat (ne ! 2)
      in [nb0, nb1, nb2, nb3])"

definition read_shape :: "GgufReader \<Rightarrow> (int list \<times> GgufReader) outcome" where
  "read_shape r =
     obind (read_val 4 r) (\<lambda>(n_dims, r1).
       guarded (n_dims \<le> GGML_MAX_DIMS)
         (obind (read_dims GGML_MAX_DIMS n_dims r1) (\<lambda>(ne, r2).
            obind (check_elements ne) (\<lambda>_. Done (ne, r2)))))"

definition row_fits :: "GgmlType \<Rightarrow> int list \<Rightarrow> bool" where
  "row_fits t ne \<longleftrightarrow> blck_size t \<noteq> 0 \<and> ne ! 0 mod int (blck_size t) = 0"

definition bytes_fit :: "GgmlType \<Rightarrow> int list \<Rightarrow> bool" where
  "bytes_fit t ne \<longleftrightarrow> nat (ggml_nelements ne div int (blck_size t)) \<le> U64_MAX div ggml_type_size t"

definition read_info :: "GgufTensorInfo list \<Rightarrow> GgufReader \<Rightarrow> (GgufTensorInfo \<times> GgufReader) outcome" where
  "read_info infos r =
     obind (read_string r) (\<lambda>(name, r1).
       guarded (length name < GGML_MAX_NAME)
         (guarded (\<not> list_ex (\<lambda>ti. name = ti_name ti) infos)
           (obind (read_shape r1) (\<lambda>(ne, r2).
             obind (read_ggml_type r2) (\<lambda>(t, r3).
               guarded (row_fits t ne) (guarded (bytes_fit t ne)
                 (obind (read_val 8 r3) (\<lambda>(off, r4).
                   Done (\<lparr>ti_name = name, ti_ne = ne, ti_nb = strides t ne, ti_type = t, ti_offset = off\<rparr>, r4)))))))))"

primrec read_infos :: "nat \<Rightarrow> GgufTensorInfo list \<Rightarrow> GgufReader \<Rightarrow> (GgufTensorInfo list \<times> GgufReader) outcome" where
  "read_infos 0 infos r = Done (infos, r)"
| "read_infos (Suc n) infos r = obind (read_info infos r) (\<lambda>(ti, r'). read_infos n (infos @ [ti]) r')"

text \<open>The end of the furthest tensor; every tensor has to end before \<open>limit\<close>.\<close>

definition size_step :: "nat \<Rightarrow> GgufTensorInfo \<Rightarrow> nat outcome \<Rightarrow> nat outcome" where
  "size_step limit ti acc =
     obind acc (\<lambda>sz.
       let stop = ti_offset ti + ggml_nbytes ti in
       guarded (stop \<le> U64_MAX) (guarded (stop \<le> limit) (Done (max sz stop))))"

definition data_section_size :: "GgufTensorInfo list \<Rightarrow> nat \<Rightarrow> nat outcome" where
  "data_section_size infos limit = fold (size_step limit) infos (Done 0)"

section \<open>The whole file\<close>

definition version_ok :: "nat \<Rightarrow> bool" where
  "version_ok v \<longleftrightarrow> v \<noteq> 0 \<and> and v 0x0000FFFF \<noteq> 0 \<and> v \<noteq> 1 \<and> v \<le> GGUF_VERSION"

definition read_header :: "GgufReader \<Rightarrow> ((nat \<times> nat \<times> nat) \<times> GgufReader) outcome" where
  "read_header r =
     obind (read_val 4 r) (\<lambda>(v, r1).
       guarded (version_ok v) (obind (read_i64 r1) (\<lambda>(n_tensors, r2).
         guarded (0 \<le> n_tensors \<and> n_tensors \<le> int (U64_MAX div INFO_STRUCT_BYTES))
           (obind (read_i64 r2) (\<lambda>(n_kv, r3).
             guarded (0 \<le> n_kv \<and> n_kv \<le> int (U64_MAX div KV_STRUCT_BYTES))
               (Done ((v, nat n_tensors, nat n_kv), r3)))))))"

definition init_from_reader :: "GgufReader \<Rightarrow> GgufContext outcome" where
  "init_from_reader r =
     obind (read_vec 1 4 r) (\<lambda>(magic, r1).
       guarded (concat (map (le_bytes 1) magic) = GGUF_MAGIC)
         (obind (read_header r1) (\<lambda>((v, n_tensors, n_kv), r2).
           obind (read_kvs n_kv [] r2) (\<lambda>(kvs, r3).
             obind (read_alignment kvs) (\<lambda>a.
               obind (read_infos n_tensors [] r3) (\<lambda>(infos, r4).
                 obind (if 0 < n_tensors then seek r4 (ggml_pad (rd_offset r4) a) else Done r4) (\<lambda>r5.
                   obind (data_section_size infos (length (rd_data r5) - rd_offset r5)) (\<lambda>sz.
                     Done \<lparr>gc_version = v, gc_kv = kvs, gc_info = infos, gc_alignment = a,
                           gc_offset = rd_offset r5, gc_size = sz\<rparr>))))))))"

definition init_from_data :: "byte list \<Rightarrow> GgufContext outcome" where
  "init_from_data d = init_from_reader (reader_new d)"

section \<open>Lookups by key\<close>

definition kv_string :: "GgufKv \<Rightarrow> byte list option" where
  "kv_string kv = (if kv_type kv = StringT \<and> kv_strings kv \<noteq> [] then Some (kv_strings kv ! 0) else None)"

definition map_outcome :: "('a \<Rightarrow> 'b) \<Rightarrow> 'a outcome \<Rightarrow> 'b option outcome" where
  "map_outcome f x = obind x (\<lambda>a. Done (Some (f a)))"

text \<open>\<open>get_i64\<close>: the integer types and booleans; a 64-bit unsigned value is reread as signed.\<close>

definition kv_i64 :: "GgufKv \<Rightarrow> int option outcome" where
  "kv_i64 kv =
     (case kv_type kv of
        Int64 \<Rightarrow> map_outcome id (get_val_i64 kv 0)
      | Uint32 \<Rightarrow> map_outcome int (get_val_u32 kv 0)
      | Int32 \<Rightarrow> map_outcome id (get_val_i32 kv 0)
      | Uint64 \<Rightarrow> map_outcome (signed 64) (get_val_u64 kv 0)
      | Uint16 \<Rightarrow> map_outcome int (get_val_u16 kv 0)
      | Int16 \<Rightarrow> map_outcome id (get_val_i16 kv 0)
      | Uint8 \<Rightarrow> map_outcome int (get_val_u8 kv 0)
      | Int8 \<Rightarrow> map_outcome id (get_val_i8 kv 0)
      | BoolT \<Rightarrow> map_outcome (\<lambda>b. if b then 1 else 0) (get_val_bool kv 0)
      | _ \<Rightarrow> Done None)"

fun find_kv :: "GgufKv list \<Rightarrow> byte list \<Rightarrow> GgufKv option" where
  "find_kv [] key = None"
| "find_kv (kv # kvs) key = (if kv_key kv = key then Some kv else find_kv kvs key)"

definition get_key_val_str :: "GgufContext \<Rightarrow> byte list \<Rightarrow> byte list option" where
  "get_key_val_str ctx key = (case find_kv (gc_kv ctx) key of None \<Rightarrow> None | Some kv \<Rightarrow> kv_string kv)"

definition get_key_val_i64 :: "GgufContext \<Rightarrow> byte list \<Rightarrow> int option outcome" where
  "get_key_val_i64 ctx key = (case find_kv (gc_kv ctx) key of None \<Rightarrow> Done None | Some kv \<Rightarrow> kv_i64 kv)"

end
