(* ===== verification/Gguf_Write.thy ===== *)
theory Gguf_Write
  imports Gguf
begin

text \<open>
  The GGUF writer (\<open>src/gguf_write.rs\<close>): metadata pairs, the header with the tensor index, the
  payloads with their padding, the assignment of tensors to parts, and the names of the parts
  with the function of \<open>src/gguf.rs\<close> that reads them back. A file is the list of its bytes; the
  failures of the operating system are left out. The provider of payloads is a parameter: the
  buffers it writes for a tensor, and whether it reports success.
\<close>

section \<open>Tensors and pairs\<close>

definition KEY_SPLIT_NO :: "byte list" where
  "KEY_SPLIT_NO = ascii ''split.no''"

definition KEY_SPLIT_COUNT :: "byte list" where
  "KEY_SPLIT_COUNT = ascii ''split.count''"

definition KEY_SPLIT_TENSORS_COUNT :: "byte list" where
  "KEY_SPLIT_TENSORS_COUNT = ascii ''split.tensors.count''"

record TensorSpec =
  ts_name :: "byte list"
  ts_ne :: "int list"
  ts_type :: GgmlType

definition ts_nbytes :: "TensorSpec \<Rightarrow> nat" where
  "ts_nbytes ts = nat (prod_list (ts_ne ts) div int (blck_size (ts_type ts))) * ggml_type_size (ts_type ts)"

definition ggml_n_dims :: "int list \<Rightarrow> nat" where
  "ggml_n_dims ne = fold (\<lambda>j n. if ne ! j \<noteq> 1 then j + 1 else n) [1..<4] 1"

definition write_string :: "byte list \<Rightarrow> byte list" where
  "write_string s = le_bytes 8 (length s) @ s"

definition encode_kv :: "GgufKv \<Rightarrow> byte list outcome" where
  "encode_kv kv =
     (if kv_is_array kv
      then obind (get_ne kv) (\<lambda>ne.
             Done (write_string (kv_key kv) @ le_bytes 4 (gguf_code ArrayT) @ le_bytes 4 (gguf_code (kv_type kv))
                   @ le_bytes 8 ne
                   @ (if kv_type kv = StringT then concat (map write_string (kv_strings kv)) else kv_data kv)))
      else if kv_type kv = StringT
      then asserted (kv_strings kv \<noteq> [])
             (Done (write_string (kv_key kv) @ le_bytes 4 (gguf_code StringT) @ write_string (kv_strings kv ! 0)))
      else Done (write_string (kv_key kv) @ le_bytes 4 (gguf_code (kv_type kv)) @ kv_data kv))"

fun kv_upsert :: "GgufKv list \<Rightarrow> GgufKv \<Rightarrow> GgufKv list" where
  "kv_upsert [] new = [new]"
| "kv_upsert (kv # kvs) new = (if kv_key kv = kv_key new then new # kvs else kv # kv_upsert kvs new)"

definition kv_remove :: "GgufKv list \<Rightarrow> byte list \<Rightarrow> GgufKv list" where
  "kv_remove kvs key = filter (\<lambda>kv. kv_key kv \<noteq> key) kvs"

section \<open>The header\<close>

datatype write_error =
    NameTooLong "byte list" nat
  | RowNotBlocks "byte list" GgmlType int nat
  | DimTooSmall "byte list" nat int
  | DuplicateName "byte list"
  | NotPowerOfTwo nat
  | TensorsMissing nat nat
  | ProviderFailed "byte list"
  | PayloadSize "byte list" nat nat
  | SplitEmpty
  | SplitTooLarge "byte list" nat nat
  | SplitCapZero
  | WritePanic

definition validate_spec :: "TensorSpec list \<Rightarrow> TensorSpec \<Rightarrow> (write_error, unit) res" where
  "validate_spec seen s =
     (let bs = blck_size (ts_type s) in
      if 64 \<le> length (ts_name s) then Err (NameTooLong (ts_name s) (length (ts_name s)))
      else if bs = 0 \<or> ts_ne s ! 0 mod int bs \<noteq> 0 then Err (RowNotBlocks (ts_name s) (ts_type s) (ts_ne s ! 0) bs)
      else case filter (\<lambda>j. ts_ne s ! j < 1) [1..<4] of
             j # _ \<Rightarrow> Err (DimTooSmall (ts_name s) j (ts_ne s ! j))
           | [] \<Rightarrow> if list_ex (\<lambda>p. ts_name p = ts_name s) seen then Err (DuplicateName (ts_name s)) else Ok ())"

fun validate_from :: "TensorSpec list \<Rightarrow> TensorSpec list \<Rightarrow> (write_error, unit) res" where
  "validate_from seen [] = Ok ()"
| "validate_from seen (s # specs) =
     (case validate_spec seen s of Inl e \<Rightarrow> Err e | Inr _ \<Rightarrow> validate_from (seen @ [s]) specs)"

definition validate_specs :: "TensorSpec list \<Rightarrow> (write_error, unit) res" where
  "validate_specs specs = validate_from [] specs"

text \<open>Where the payload of every tensor starts in the data section.\<close>

fun payload_offsets :: "nat \<Rightarrow> nat \<Rightarrow> TensorSpec list \<Rightarrow> nat list" where
  "payload_offsets a cursor [] = []"
| "payload_offsets a cursor (s # specs) = cursor # payload_offsets a (cursor + ggml_pad (ts_nbytes s) a) specs"

definition encode_info :: "TensorSpec \<Rightarrow> nat \<Rightarrow> byte list" where
  "encode_info s off =
     write_string (ts_name s) @ le_bytes 4 (ggml_n_dims (ts_ne s))
     @ concat (map (\<lambda>j. le_bytes 8 (unsigned_of 64 (ts_ne s ! j))) [0..<ggml_n_dims (ts_ne s)])
     @ le_bytes 4 (ggml_code (ts_type s)) @ le_bytes 8 off"

fun encode_kvs :: "GgufKv list \<Rightarrow> byte list outcome" where
  "encode_kvs [] = Done []"
| "encode_kvs (kv # kvs) = obind (encode_kv kv) (\<lambda>a. obind (encode_kvs kvs) (\<lambda>b. Done (a @ b)))"

definition vec_resize :: "byte list \<Rightarrow> nat \<Rightarrow> byte list" where
  "vec_resize bs n = take n bs @ replicate (n - length bs) 0"

definition index_bytes :: "TensorSpec list \<Rightarrow> nat \<Rightarrow> byte list" where
  "index_bytes specs a = concat (map (\<lambda>(s, off). encode_info s off) (zip specs (payload_offsets a 0 specs)))"

text \<open>The bytes \<open>GgufWriter::create\<close> writes; a vector of \<open>isize::MAX\<close> bytes cannot grow.\<close>

definition create :: "GgufKv list \<Rightarrow> TensorSpec list \<Rightarrow> nat \<Rightarrow> (write_error, byte list) res" where
  "create kvs specs a =
     (case validate_specs specs of
        Inl e \<Rightarrow> Err e
      | Inr _ \<Rightarrow>
          if \<not> is_pow2 a then Err (NotPowerOfTwo a)
          else (case encode_kvs kvs of
                  Done kvb \<Rightarrow>
                    (let header = GGUF_MAGIC @ le_bytes 4 GGUF_VERSION @ le_bytes 8 (length specs)
                           @ le_bytes 8 (length kvs) @ kvb @ index_bytes specs a
                     in if 2 ^ 63 \<le> length header then Err WritePanic
                        else Ok (vec_resize header (ggml_pad (length header) a)))
                | _ \<Rightarrow> Err WritePanic))"

section \<open>Payloads\<close>

record Staging =
  st_out :: "byte list"
  st_remaining :: nat
  st_overflow :: nat

definition staging_write :: "byte list \<Rightarrow> Staging \<Rightarrow> Staging" where
  "staging_write b st =
     (let n = min (length b) (st_remaining st) in
      st\<lparr>st_out := st_out st @ take n b, st_remaining := st_remaining st - n,
         st_overflow := st_overflow st + (length b - n)\<rparr>)"

type_synonym provider = "nat \<Rightarrow> byte list list \<times> bool"

definition write_tensor_data :: "provider \<Rightarrow> nat \<Rightarrow> nat \<Rightarrow> TensorSpec \<Rightarrow> (write_error, byte list) res" where
  "write_tensor_data data a i spec =
     (let st = fold staging_write (fst (data i)) \<lparr>st_out = [], st_remaining = ts_nbytes spec, st_overflow = 0\<rparr> in
      if \<not> snd (data i) then Err (ProviderFailed (ts_name spec))
      else if st_remaining st \<noteq> 0 \<or> st_overflow st \<noteq> 0
      then Err (PayloadSize (ts_name spec) (ts_nbytes spec + st_overflow st - st_remaining st) (ts_nbytes spec))
      else Ok (st_out st @ replicate (ggml_pad (ts_nbytes spec) a - ts_nbytes spec) 0))"

text \<open>The loop over the tensors of a part; \<open>ids\<close> are their numbers for the provider.\<close>

fun write_tensors :: "provider \<Rightarrow> nat \<Rightarrow> (nat \<times> TensorSpec) list \<Rightarrow> (write_error, byte list) res" where
  "write_tensors data a [] = Ok []"
| "write_tensors data a ((i, s) # rest) =
     (case write_tensor_data data a i s of
        Inl e \<Rightarrow> Err e
      | Inr b \<Rightarrow> (case write_tensors data a rest of Inl e \<Rightarrow> Err e | Inr bs \<Rightarrow> Ok (b @ bs)))"

definition write_part ::
  "GgufKv list \<Rightarrow> (nat \<times> TensorSpec) list \<Rightarrow> nat \<Rightarrow> provider \<Rightarrow> (write_error, byte list) res" where
  "write_part kvs tensors a data =
     (case create kvs (map snd tensors) a of
        Inl e \<Rightarrow> Err e
      | Inr header \<Rightarrow>
          (case write_tensors data a tensors of Inl e \<Rightarrow> Err e | Inr payload \<Rightarrow> Ok (header @ payload)))"

definition without_split :: "GgufKv list \<Rightarrow> GgufKv list" where
  "without_split kvs = kv_remove (kv_remove (kv_remove kvs KEY_SPLIT_NO) KEY_SPLIT_COUNT) KEY_SPLIT_TENSORS_COUNT"

definition write_single ::
  "GgufKv list \<Rightarrow> TensorSpec list \<Rightarrow> nat \<Rightarrow> provider \<Rightarrow> (write_error, byte list) res" where
  "write_single kvs specs a data = write_part (without_split kvs) (zip [0..<length specs] specs) a data"

section \<open>Parts\<close>

text \<open>The loop of \<open>split_assignment\<close>: the finished parts, the current one and its bytes.\<close>

fun split_loop ::
  "nat \<Rightarrow> nat \<Rightarrow> nat \<Rightarrow> TensorSpec list \<Rightarrow> nat list list \<Rightarrow> nat list \<Rightarrow> nat \<Rightarrow> (write_error, nat list list) res" where
  "split_loop a cap i [] parts cur cur_bytes = Ok (if cur \<noteq> [] then parts @ [cur] else parts)"
| "split_loop a cap i (s # specs) parts cur cur_bytes =
     (let padded = ggml_pad (ts_nbytes s) a in
      if cap < padded then Err (SplitTooLarge (ts_name s) padded cap)
      else if cur \<noteq> [] \<and> cap < cur_bytes + padded
      then split_loop a cap (i + 1) specs (parts @ [cur]) [i] padded
      else split_loop a cap (i + 1) specs parts (cur @ [i]) (cur_bytes + padded))"

definition split_assignment :: "TensorSpec list \<Rightarrow> nat \<Rightarrow> nat \<Rightarrow> (write_error, nat list list) res" where
  "split_assignment specs a cap = (if specs = [] then Err SplitEmpty else split_loop a cap 0 specs [] [] 0)"

text \<open>\<open>format!("{:05}", n)\<close>\<close>

definition pad5 :: "nat \<Rightarrow> byte list" where
  "pad5 n = (let d = ascii (nat_to_string n) in replicate (5 - length d) (0x30) @ d)"

definition part_name :: "byte list \<Rightarrow> nat \<Rightarrow> nat \<Rightarrow> byte list" where
  "part_name stem p n_parts = stem @ ascii ''-'' @ pad5 (p + 1) @ ascii ''-of-'' @ pad5 n_parts @ ascii ''.gguf''"

definition part_kvs :: "GgufKv list \<Rightarrow> nat \<Rightarrow> nat \<Rightarrow> nat \<Rightarrow> GgufKv list" where
  "part_kvs kvs p n_parts n =
     kv_upsert (kv_upsert (kv_upsert (without_split kvs) (new_u32 KEY_SPLIT_NO p)) (new_u32 KEY_SPLIT_COUNT n_parts))
       (new_u32 KEY_SPLIT_TENSORS_COUNT n)"

fun write_parts ::
  "byte list \<Rightarrow> GgufKv list \<Rightarrow> TensorSpec list \<Rightarrow> nat \<Rightarrow> provider \<Rightarrow> nat \<Rightarrow> nat \<Rightarrow> nat list list \<Rightarrow>
   (write_error, (byte list \<times> byte list) list) res" where
  "write_parts stem kvs specs a data p n_parts [] = Ok []"
| "write_parts stem kvs specs a data p n_parts (ids # rest) =
     (case write_part (part_kvs kvs p n_parts (length specs)) (map (\<lambda>i. (i, specs ! i)) ids) a data of
        Inl e \<Rightarrow> Err e
      | Inr file \<Rightarrow>
          (case write_parts stem kvs specs a data (p + 1) n_parts rest of
             Inl e \<Rightarrow> Err e
           | Inr files \<Rightarrow> Ok ((part_name stem p n_parts, file) # files)))"

definition write_split ::
  "byte list \<Rightarrow> GgufKv list \<Rightarrow> TensorSpec list \<Rightarrow> nat \<Rightarrow> nat \<Rightarrow> provider \<Rightarrow>
   (write_error, (byte list \<times> byte list) list) res" where
  "write_split stem kvs specs a cap data =
     (if cap = 0 then Err SplitCapZero
      else case split_assignment specs a cap of
             Inl e \<Rightarrow> Err e
           | Inr parts \<Rightarrow>
               if length parts = 1
               then (case write_single kvs specs a data of
                       Inl e \<Rightarrow> Err e | Inr file \<Rightarrow> Ok [(stem @ ascii ''.gguf'', file)])
               else write_parts stem kvs specs a data 0 (length parts) parts)"

section \<open>Reading part names\<close>

definition strip_suffix :: "byte list \<Rightarrow> byte list \<Rightarrow> byte list option" where
  "strip_suffix s suf =
     (if length suf \<le> length s \<and> drop (length s - length suf) s = suf then Some (take (length s - length suf) s) else None)"

definition rfind :: "byte list \<Rightarrow> byte list \<Rightarrow> nat option" where
  "rfind s pat =
     (case filter (\<lambda>i. take (length pat) (drop i s) = pat) (rev [0..<length s + 1 - length pat]) of
        [] \<Rightarrow> None | i # _ \<Rightarrow> Some i)"

definition is_digit :: "byte \<Rightarrow> bool" where
  "is_digit b \<longleftrightarrow> 0x30 \<le> unat b \<and> unat b \<le> 0x39"

definition digits_value :: "byte list \<Rightarrow> nat" where
  "digits_value ds = fold (\<lambda>d v. 10 * v + (unat d - 0x30)) ds 0"

text \<open>\<open>str::parse::<usize>()\<close>: an optional plus sign and digits, at most \<open>usize::MAX\<close>.\<close>

definition parse_usize :: "byte list \<Rightarrow> nat option" where
  "parse_usize s =
     (let ds = (case s of b # rest \<Rightarrow> if b = 0x2B then rest else s | [] \<Rightarrow> s) in
      if ds \<noteq> [] \<and> list_all is_digit ds \<and> digits_value ds \<le> U64_MAX then Some (digits_value ds) else None)"

definition split_file_info :: "byte list \<Rightarrow> (byte list \<times> nat \<times> nat) option" where
  "split_file_info name =
     (case strip_suffix name (ascii ''.gguf'') of
        None \<Rightarrow> None
      | Some stem \<Rightarrow>
          (case rfind stem (ascii ''-of-'') of
             None \<Rightarrow> None
           | Some dash \<Rightarrow>
               (let idx_part = take dash stem; count_str = drop (dash + 4) stem in
                case rfind idx_part (ascii ''-'') of
                  None \<Rightarrow> None
                | Some idx_dash \<Rightarrow>
                    (let prefix = take idx_dash idx_part; idx_num = drop (idx_dash + 1) idx_part in
                     if length idx_num \<noteq> 5 \<or> length count_str \<noteq> 5 then None
                     else case (parse_usize idx_num, parse_usize count_str) of
                            (Some idx, Some count) \<Rightarrow>
                              if idx = 0 \<or> count = 0 \<or> count < idx then None else Some (prefix, idx - 1, count)
                          | _ \<Rightarrow> None))))"

text \<open>The file names \<open>resolve_splits\<close> puts into the directory of the given one.\<close>

definition resolve_splits :: "byte list \<Rightarrow> byte list list option" where
  "resolve_splits name =
     (case split_file_info name of
        None \<Rightarrow> None
      | Some (prefix, idx, count) \<Rightarrow>
          if idx \<noteq> 0 then None else Some (map (\<lambda>i. part_name prefix i count) [0..<count]))"

end
