(* ===== verification/Gguf_Codec.thy ===== *)
theory Gguf_Codec
  imports Gguf_Write
begin

text \<open>
  The writer and the reader agree on every field. The contract of an encoder and its decoder is
  the locale \<open>codec\<close>, interpreted for the integers and the strings of the format; sequencing
  and repetition of codecs then give the metadata pairs and the tensor index.
\<close>

section \<open>Reading what was written\<close>

definition rd_at :: "byte list \<Rightarrow> byte list \<Rightarrow> GgufReader" where
  "rd_at before post = \<lparr>rd_data = before @ post, rd_offset = length before, rd_remain = length post\<rparr>"

text \<open>At any place of a file, \<open>p\<close> takes exactly the bytes \<open>bs\<close> and gives \<open>x\<close>.\<close>

definition reads :: "(GgufReader \<Rightarrow> ('a \<times> GgufReader) outcome) \<Rightarrow> byte list \<Rightarrow> 'a \<Rightarrow> bool" where
  "reads p bs x \<longleftrightarrow> (\<forall>before post. p (rd_at before (bs @ post)) = Done (x, rd_at (before @ bs) post))"

lemma readsD: "reads p bs x \<Longrightarrow> p (rd_at before (bs @ post)) = Done (x, rd_at (before @ bs) post)"
  by (simp add: reads_def)

lemma reads_bind:
  "reads p b1 x \<Longrightarrow> reads (f x) b2 y \<Longrightarrow> reads (\<lambda>r. obind (p r) (\<lambda>(a, r'). f a r')) (b1 @ b2) y"
  by (simp add: reads_def)

lemma reads_done: "reads (\<lambda>r. Done (x, r)) [] x"
  by (simp add: reads_def)

lemma reads_map: "reads p bs x \<Longrightarrow> reads (\<lambda>r. obind (p r) (\<lambda>(a, r'). Done (f a, r'))) bs (f x)"
  by (simp add: reads_def)

lemma reads_guard: "c \<Longrightarrow> reads p bs x \<Longrightarrow> reads (\<lambda>r. guarded c (p r)) bs x"
  by simp

lemma read_raw_at: "read_raw (rd_at before (bs @ post)) (length bs) = Done (bs, rd_at (before @ bs) post)"
  by (simp add: read_raw_def rd_at_def)

lemma reads_val: "v < 256 ^ n \<Longrightarrow> reads (read_val n) (le_bytes n v) v"
  unfolding reads_def
proof (intro allI)
  fix before post
  assume v: "v < 256 ^ n"
  have "read_raw (rd_at before (le_bytes n v @ post)) n = Done (le_bytes n v, rd_at (before @ le_bytes n v) post)"
    using read_raw_at [of before "le_bytes n v" post] by simp
  moreover have "n \<le> rd_remain (rd_at before (le_bytes n v @ post))" by (simp add: rd_at_def)
  ultimately show "read_val n (rd_at before (le_bytes n v @ post)) = Done (v, rd_at (before @ le_bytes n v) post)"
    using v by (simp add: read_val_def le_nat_le_bytes)
qed

section \<open>The contract of a field\<close>

locale codec =
  fixes enc :: "'a \<Rightarrow> byte list"
    and dec :: "GgufReader \<Rightarrow> ('a \<times> GgufReader) outcome"
    and valid :: "'a \<Rightarrow> bool"
  assumes reads_enc: "valid x \<Longrightarrow> reads dec (enc x) x"
begin

lemma reads_times: "list_all valid xs \<Longrightarrow> reads (read_times (length xs) dec) (concat (map enc xs)) xs"
proof (induction xs)
  case Nil
  then show ?case by (simp add: reads_def)
next
  case (Cons x xs)
  then have "reads dec (enc x) x" "reads (read_times (length xs) dec) (concat (map enc xs)) xs"
    by (auto intro: reads_enc)
  then show ?case by (simp add: reads_def)
qed

lemma enc_inj: "valid x \<Longrightarrow> valid y \<Longrightarrow> enc x = enc y \<Longrightarrow> x = y"
  using readsD [OF reads_enc, of x "[]" "[]"] readsD [OF reads_enc, of y "[]" "[]"] by simp

text \<open>No encoding is the beginning of another.\<close>

lemma enc_prefix_free: "valid x \<Longrightarrow> valid y \<Longrightarrow> enc x @ xs = enc y @ ys \<Longrightarrow> x = y \<and> xs = ys"
proof -
  assume v: "valid x" "valid y" "enc x @ xs = enc y @ ys"
  have "Done (x, rd_at (enc x) xs) = Done (y, rd_at (enc y) ys)"
    using readsD [OF reads_enc [OF v(1)], of "[]" xs] readsD [OF reads_enc [OF v(2)], of "[]" ys] v(3) by simp
  then show ?thesis using v(3) by simp
qed

end

definition str_ok :: "byte list \<Rightarrow> bool" where
  "str_ok s \<longleftrightarrow> utf8_valid s \<and> length s \<le> GGUF_MAX_STRING_LENGTH"

definition i64_ok :: "int \<Rightarrow> bool" where
  "i64_ok i \<longleftrightarrow> - (2 ^ 63) \<le> i \<and> i < 2 ^ 63"

lemma reads_i64: "i64_ok i \<Longrightarrow> reads read_i64 (le_bytes 8 (unsigned_of 64 i)) i"
proof -
  assume "i64_ok i"
  then have "signed 64 (unsigned_of 64 i) = i" using signed_unsigned [of 64 i] by (simp add: i64_ok_def)
  moreover have "unsigned_of 64 i < 256 ^ 8" using unsigned_of_bound [of 64 i] by simp
  ultimately show ?thesis
    using reads_map [OF reads_val, of "unsigned_of 64 i" 8 "signed 64"] by (simp add: read_i64_def [abs_def])
qed

lemma reads_i32: "v < 2 ^ 31 \<Longrightarrow> reads read_i32 (le_bytes 4 v) (int v)"
  using reads_map [OF reads_val, of v 4 "signed 32"] by (simp add: read_i32_def [abs_def] signed_def)

lemma gguf_of_code: "gguf_of_i32 (int (gguf_code t)) = Done t" "gguf_code t < 2 ^ 31"
  by (cases t; simp add: gguf_of_i32_def)+

lemma ggml_of_code: "ggml_of_i32 (int (ggml_code t)) = Done t" "ggml_code t < 2 ^ 31"
  by (cases t; simp add: ggml_of_i32_def)+

lemma reads_gguf_type: "reads read_gguf_type (le_bytes 4 (gguf_code t)) t"
  using readsD [OF reads_i32 [OF gguf_of_code(2)]]
  by (simp add: reads_def read_gguf_type_def gguf_of_code)

lemma reads_ggml_type: "reads read_ggml_type (le_bytes 4 (ggml_code t)) t"
  using readsD [OF reads_i32 [OF ggml_of_code(2)]]
  by (simp add: reads_def read_ggml_type_def ggml_of_code)

lemma reads_string: "str_ok s \<Longrightarrow> reads read_string (write_string s) s"
proof -
  assume s: "str_ok s"
  have len: "length s < 256 ^ 8" using s by (simp add: str_ok_def GGUF_MAX_STRING_LENGTH_def)
  have "read_string (rd_at before (write_string s @ post)) = Done (s, rd_at (before @ write_string s) post)" for before post
  proof -
    let ?b = "before @ le_bytes 8 (length s)"
    have "read_val 8 (rd_at before (le_bytes 8 (length s) @ s @ post)) = Done (length s, rd_at ?b (s @ post))"
      by (rule readsD [OF reads_val [OF len]])
    moreover have "length s \<le> rd_remain (rd_at ?b (s @ post))" by (simp add: rd_at_def)
    ultimately show ?thesis
      using s read_raw_at [of ?b s post] by (simp add: read_string_def write_string_def str_ok_def utf8_lossy_valid)
  qed
  then show ?thesis by (simp add: reads_def)
qed

interpretation u32: codec "le_bytes 4" "read_val 4" "\<lambda>v. v < 256 ^ 4"
  by unfold_locales (rule reads_val)

interpretation u64: codec "le_bytes 8" "read_val 8" "\<lambda>v. v < 256 ^ 8"
  by unfold_locales (rule reads_val)

interpretation i64: codec "\<lambda>i. le_bytes 8 (unsigned_of 64 i)" read_i64 i64_ok
  by unfold_locales (rule reads_i64)

interpretation strings: codec write_string read_string str_ok
  by unfold_locales (rule reads_string)

section \<open>Metadata pairs\<close>

lemma reads_times_val:
  "list_all (\<lambda>v. v < 256 ^ sz) vs \<Longrightarrow> reads (read_times (length vs) (read_val sz)) (concat (map (le_bytes sz) vs)) vs"
  by (rule codec.reads_times [OF codec.intro [OF reads_val]]) auto

lemma length_concat_le [simp]: "length (concat (map (le_bytes sz) vs)) = length vs * sz"
  by (induction vs) auto

lemma reads_vec:
  assumes "0 < sz" "length vs \<le> GGUF_MAX_ARRAY_ELEMENTS" "list_all (\<lambda>v. v < 256 ^ sz) vs"
  shows "reads (read_vec sz (length vs)) (concat (map (le_bytes sz) vs)) vs"
  unfolding reads_def
proof (intro allI)
  fix before post
  have "length vs \<le> rd_remain (rd_at before (concat (map (le_bytes sz) vs) @ post)) div sz"
    using assms(1) by (simp add: rd_at_def less_eq_div_iff_mult_less_eq)
  then show "read_vec sz (length vs) (rd_at before (concat (map (le_bytes sz) vs) @ post)) =
      Done (vs, rd_at (before @ concat (map (le_bytes sz) vs)) post)"
    using readsD [OF reads_times_val [OF assms(3)]] assms(2) by (simp add: read_vec_def)
qed

lemma reads_string_vec:
  assumes "length ss \<le> GGUF_MAX_ARRAY_ELEMENTS" "list_all str_ok ss"
  shows "reads (read_string_vec (length ss)) (concat (map write_string ss)) ss"
  unfolding reads_def
proof (intro allI)
  fix before post
  have "length ss * 8 \<le> length (concat (map write_string ss))"
    by (induction ss) (auto simp: write_string_def)
  then have "length ss * 8 \<le> rd_remain (rd_at before (concat (map write_string ss) @ post))"
    by (simp add: rd_at_def)
  then show "read_string_vec (length ss) (rd_at before (concat (map write_string ss) @ post)) =
      Done (ss, rd_at (before @ concat (map write_string ss)) post)"
    using readsD [OF strings.reads_times [OF assms(2)]] assms(1) by (simp add: read_string_vec_def)
qed

lemma reads_bool: "reads read_bool [b] (b \<noteq> 0)"
proof -
  have "reads (read_val 1) [b] (unat b)"
    using reads_val [of "unat b" 1] unat_byte_bound [of b] by simp
  moreover have "unat b \<noteq> 0 \<longleftrightarrow> b \<noteq> 0" by (simp add: unat_eq_0)
  ultimately show ?thesis
    using reads_map [of "read_val 1" "[b]" "unat b" "\<lambda>v. v \<noteq> 0"] by (simp add: read_bool_def [abs_def])
qed

lemma reads_bools: "reads (read_times (length bs) read_bool) bs (map (\<lambda>b. b \<noteq> 0) bs)"
proof (induction bs)
  case Nil
  then show ?case by (simp add: reads_def)
next
  case (Cons b bs)
  then show ?case using reads_bool [of b] by (simp add: reads_def)
qed

text \<open>Raw data of whole elements is the encoding of its elements.\<close>

lemma split_elements:
  assumes "0 < sz" "length d = n * sz"
  shows "\<exists>vs. length vs = n \<and> d = concat (map (le_bytes sz) vs) \<and> list_all (\<lambda>v. v < 256 ^ sz) vs"
  using assms(2)
proof (induction n arbitrary: d)
  case (Suc n)
  have "length (drop sz d) = n * sz" using Suc.prems by simp
  from Suc.IH [OF this] obtain vs where
    vs: "length vs = n" "drop sz d = concat (map (le_bytes sz) vs)" "list_all (\<lambda>v. v < 256 ^ sz) vs" by blast
  have l: "length (take sz d) = sz" using Suc.prems by simp
  have "take sz d = le_bytes sz (le_nat (take sz d))" using le_bytes_le_nat [of "take sz d"] l by simp
  then have "d = concat (map (le_bytes sz) (le_nat (take sz d) # vs))"
    using vs(2) append_take_drop_id [of sz d] by simp
  moreover have "le_nat (take sz d) < 256 ^ sz" using le_nat_bound [of "take sz d"] l by simp
  ultimately show ?case using vs by (intro exI [of _ "le_nat (take sz d) # vs"]) simp
qed simp

definition is_numeric :: "GgufType \<Rightarrow> bool" where
  "is_numeric t \<longleftrightarrow> t \<noteq> StringT \<and> t \<noteq> ArrayT \<and> t \<noteq> BoolT"

text \<open>The pairs a writer can be given: what the constructors of \<open>GgufKv\<close> build.\<close>

definition kv_ok :: "GgufKv \<Rightarrow> bool" where
  "kv_ok kv \<longleftrightarrow> str_ok (kv_key kv) \<and> kv_type kv \<noteq> ArrayT \<and>
     (if kv_type kv = StringT
      then kv_data kv = [] \<and> list_all str_ok (kv_strings kv) \<and>
           (if kv_is_array kv then length (kv_strings kv) \<le> GGUF_MAX_ARRAY_ELEMENTS else length (kv_strings kv) = 1)
      else kv_strings kv = [] \<and> (kv_type kv = BoolT \<longrightarrow> set (kv_data kv) \<subseteq> {0, 1}) \<and>
           (if kv_is_array kv
            then type_size (kv_type kv) dvd length (kv_data kv) \<and>
                 length (kv_data kv) div type_size (kv_type kv) \<le> GGUF_MAX_ARRAY_ELEMENTS
            else length (kv_data kv) = type_size (kv_type kv)))"

lemma numeric_size: "is_numeric t \<Longrightarrow> 0 < type_size t"
  by (cases t) (auto simp: is_numeric_def)

lemma read_value_scalar:
  assumes "is_numeric t" "reads (read_val (type_size t)) bs v"
  shows "reads (read_value key t False n) bs
    \<lparr>kv_key = key, kv_is_array = False, kv_type = t, kv_data = le_bytes (type_size t) v, kv_strings = []\<rparr>"
  using assms
  by (cases t)
    (simp_all add: reads_def read_value_def is_numeric_def new_u8_def new_i8_def new_u16_def new_i16_def new_u32_def
      new_i32_def new_f32_def new_f64_def new_u64_def new_i64_def)

lemma read_value_array:
  assumes "is_numeric t" "reads (read_vec (type_size t) n) bs vs"
  shows "reads (read_value key t True n) bs
    \<lparr>kv_key = key, kv_is_array = True, kv_type = t, kv_data = concat (map (le_bytes (type_size t)) vs), kv_strings = []\<rparr>"
  using assms
  by (cases t) (simp_all add: reads_def read_value_def is_numeric_def new_array_def)

text \<open>The payload of a pair, and how many elements its header announces.\<close>

definition payload :: "GgufKv \<Rightarrow> byte list" where
  "payload kv = (if kv_type kv = StringT then concat (map write_string (kv_strings kv)) else kv_data kv)"

definition announced :: "GgufKv \<Rightarrow> nat" where
  "announced kv = (if kv_type kv = StringT then length (kv_strings kv) else length (kv_data kv) div type_size (kv_type kv))"

lemma reads_payload:
  assumes "kv_ok kv" "kv_is_array kv \<Longrightarrow> n = announced kv"
  shows "reads (read_value (kv_key kv) (kv_type kv) (kv_is_array kv) n) (payload kv) kv"
proof -
  have kv: "kv = \<lparr>kv_key = kv_key kv, kv_is_array = kv_is_array kv, kv_type = kv_type kv, kv_data = kv_data kv,
      kv_strings = kv_strings kv\<rparr>" by simp
  consider (num) "is_numeric (kv_type kv)" | (str) "kv_type kv = StringT" | (bool) "kv_type kv = BoolT"
    using assms(1) by (auto simp: kv_ok_def is_numeric_def)
  then show ?thesis
  proof cases
    case num
    let ?sz = "type_size (kv_type kv)"
    have p: "payload kv = kv_data kv" "kv_strings kv = []"
      using num assms(1) by (auto simp: payload_def is_numeric_def kv_ok_def)
    have div: "length (kv_data kv) = (length (kv_data kv) div ?sz) * ?sz" if "kv_is_array kv"
      using num assms(1) that by (auto simp: kv_ok_def is_numeric_def)
    show ?thesis
    proof (cases "kv_is_array kv")
      case True
      from split_elements [OF numeric_size [OF num] div [OF True]] obtain vs where
        vs: "length vs = length (kv_data kv) div ?sz" "kv_data kv = concat (map (le_bytes ?sz) vs)"
          "list_all (\<lambda>v. v < 256 ^ ?sz) vs" by blast
      have n: "n = length vs" using assms(2) [OF True] num vs(1) by (auto simp: announced_def is_numeric_def)
      have "length vs \<le> GGUF_MAX_ARRAY_ELEMENTS" using assms(1) num True vs(1) by (auto simp: kv_ok_def is_numeric_def)
      from read_value_array [OF num reads_vec [OF numeric_size [OF num] this vs(3)], of "kv_key kv"]
      show ?thesis using True n vs(2) p kv by metis
    next
      case False
      have l: "length (kv_data kv) = ?sz" using assms(1) num False by (auto simp: kv_ok_def is_numeric_def)
      have "le_nat (kv_data kv) < 256 ^ ?sz" using le_nat_bound [of "kv_data kv"] l by simp
      from read_value_scalar [OF num reads_val [OF this], of "kv_key kv" n]
      show ?thesis using False p l le_bytes_le_nat [of "kv_data kv"] kv by metis
    qed
  next
    case str
    have s: "list_all str_ok (kv_strings kv)" "kv_data kv = []" using str assms(1) by (auto simp: kv_ok_def)
    show ?thesis
    proof (cases "kv_is_array kv")
      case True
      then have "length (kv_strings kv) \<le> GGUF_MAX_ARRAY_ELEMENTS" "n = length (kv_strings kv)"
        using str assms by (auto simp: kv_ok_def announced_def)
      then show ?thesis
        using reads_string_vec [OF _ s(1)] True str s(2) kv
        by (simp add: reads_def read_value_def payload_def new_string_array_def)
    next
      case False
      then obtain x where x: "kv_strings kv = [x]" using str assms(1) by (auto simp: kv_ok_def length_Suc_conv)
      then show ?thesis
        using reads_string [of x] False str s kv
        by (simp add: reads_def read_value_def payload_def new_string_def)
    qed
  next
    case bool
    have b: "kv_strings kv = []" "set (kv_data kv) \<subseteq> {0, 1}" using bool assms(1) by (auto simp: kv_ok_def)
    have id: "map ((\<lambda>v. if v then 1 else 0) \<circ> (\<lambda>x. x \<noteq> 0)) (kv_data kv) = kv_data kv"
      using b(2) by (intro map_idI) auto
    show ?thesis
    proof (cases "kv_is_array kv")
      case True
      then have "n = length (kv_data kv)" "n < 2 ^ 63"
        using bool assms by (auto simp: kv_ok_def announced_def GGUF_MAX_ARRAY_ELEMENTS_def)
      then show ?thesis
        using reads_bools [of "kv_data kv"] True bool b(1) id kv
        by (simp add: reads_def read_value_def payload_def new_array_def comp_def)
    next
      case False
      then obtain x where x: "kv_data kv = [x]" using bool assms(1) by (auto simp: kv_ok_def length_Suc_conv)
      then show ?thesis
        using reads_bool [of x] False bool b kv
        by (auto simp: reads_def read_value_def payload_def new_bool_def)
    qed
  qed
qed

lemma encode_kv_ok:
  assumes "kv_ok kv"
  shows "encode_kv kv = Done (write_string (kv_key kv) @
    (if kv_is_array kv then le_bytes 4 (gguf_code ArrayT) @ le_bytes 4 (gguf_code (kv_type kv)) @ le_bytes 8 (announced kv)
     else le_bytes 4 (gguf_code (kv_type kv))) @ payload kv)"
proof (cases "kv_is_array kv")
  case True
  have "get_ne kv = Done (announced kv)"
    using assms True
    by (cases "kv_type kv") (auto simp: kv_ok_def get_ne_def announced_def Let_def dvd_eq_mod_eq_0 split: if_splits)
  then show ?thesis using True by (simp add: encode_kv_def payload_def)
next
  case False
  show ?thesis
  proof (cases "kv_type kv = StringT")
    case True
    then obtain x where "kv_strings kv = [x]" using False assms by (auto simp: kv_ok_def length_Suc_conv)
    then show ?thesis using True False by (simp add: encode_kv_def payload_def)
  next
    case nostr: False
    then show ?thesis using False by (simp add: encode_kv_def payload_def)
  qed
qed

lemma announced_bound: "kv_ok kv \<Longrightarrow> kv_is_array kv \<Longrightarrow> announced kv < 256 ^ 8"
  by (auto simp: kv_ok_def announced_def GGUF_MAX_ARRAY_ELEMENTS_def split: if_splits)

lemma reads_kv:
  assumes "kv_ok kv" "encode_kv kv = Done bs" "kv_key kv \<notin> kv_key ` set kvs"
  shows "reads (read_kv kvs) bs kv"
proof -
  have fresh: "\<not> list_ex (\<lambda>k. kv_key kv = kv_key k) kvs" using assms(3) by (auto simp: list_ex_iff)
  have key: "reads read_string (write_string (kv_key kv)) (kv_key kv)"
    using assms(1) by (intro reads_string) (simp add: kv_ok_def)
  have ty: "kv_type kv \<noteq> ArrayT" using assms(1) by (simp add: kv_ok_def)
  show ?thesis
  proof (cases "kv_is_array kv")
    case True
    have "reads (read_val 8) (le_bytes 8 (announced kv)) (announced kv)"
      using announced_bound [OF assms(1) True] by (rule reads_val)
    moreover have "bs = write_string (kv_key kv) @ le_bytes 4 (gguf_code ArrayT) @ le_bytes 4 (gguf_code (kv_type kv)) @
        le_bytes 8 (announced kv) @ payload kv"
      using encode_kv_ok [OF assms(1)] assms(2) True by simp
    ultimately show ?thesis
      using key reads_gguf_type [of ArrayT] reads_gguf_type [of "kv_type kv"]
        reads_payload [OF assms(1), of "announced kv"] fresh True
      unfolding reads_def by (simp add: read_kv_def)
  next
    case False
    moreover have "bs = write_string (kv_key kv) @ le_bytes 4 (gguf_code (kv_type kv)) @ payload kv"
      using encode_kv_ok [OF assms(1)] assms(2) False by simp
    ultimately show ?thesis
      using key reads_gguf_type [of "kv_type kv"] reads_payload [OF assms(1), of 1] fresh ty
      unfolding reads_def by (simp add: read_kv_def)
  qed
qed

lemma reads_kvs:
  assumes "list_all kv_ok kvs" "distinct (map kv_key (seen @ kvs))" "encode_kvs kvs = Done bs"
  shows "reads (read_kvs (length kvs) seen) bs (seen @ kvs)"
  using assms
proof (induction kvs arbitrary: seen bs)
  case Nil
  then show ?case by (simp add: reads_def)
next
  case (Cons kv kvs)
  then obtain b1 b2 where b: "encode_kv kv = Done b1" "encode_kvs kvs = Done b2" "bs = b1 @ b2"
    by (auto simp: obind_Done)
  have "reads (read_kv seen) b1 kv" using Cons.prems b(1) by (intro reads_kv) auto
  moreover have "reads (read_kvs (length kvs) (seen @ [kv])) b2 ((seen @ [kv]) @ kvs)"
    using Cons.prems b(2) by (intro Cons.IH) auto
  ultimately show ?case using b(3) by (simp add: reads_def)
qed

section \<open>The tensor index\<close>

definition dim_ok :: "int \<Rightarrow> bool" where
  "dim_ok x \<longleftrightarrow> 0 \<le> x \<and> x < 2 ^ 63"

text \<open>The tensors a reader accepts: see the checks of \<open>init_from_reader\<close>.\<close>

definition spec_ok :: "TensorSpec \<Rightarrow> bool" where
  "spec_ok s \<longleftrightarrow> utf8_valid (ts_name s) \<and> length (ts_name s) < GGML_MAX_NAME \<and> length (ts_ne s) = 4 \<and>
     list_all dim_ok (ts_ne s) \<and> check_elements (ts_ne s) = Done () \<and> row_fits (ts_type s) (ts_ne s) \<and>
     bytes_fit (ts_type s) (ts_ne s)"

definition info_of :: "TensorSpec \<Rightarrow> nat \<Rightarrow> GgufTensorInfo" where
  "info_of s off = \<lparr>ti_name = ts_name s, ti_ne = ts_ne s, ti_nb = strides (ts_type s) (ts_ne s),
     ti_type = ts_type s, ti_offset = off\<rparr>"

lemma reads_dims:
  assumes "list_all dim_ok ne" "n \<le> length ne" "\<forall>j. n \<le> j \<longrightarrow> j < length ne \<longrightarrow> ne ! j = 1"
  shows "reads (read_dims (length ne) n) (concat (map (\<lambda>i. le_bytes 8 (unsigned_of 64 i)) (take n ne))) ne"
  using assms
proof (induction ne arbitrary: n)
  case Nil
  then show ?case by (simp add: reads_def)
next
  case (Cons x ne)
  show ?case
  proof (cases n)
    case 0
    have "x = 1" using Cons.prems(3) 0 by (metis length_greater_0_conv list.discI nth_Cons_0 zero_le)
    moreover have "\<forall>j. 0 \<le> j \<longrightarrow> j < length ne \<longrightarrow> ne ! j = 1"
      using Cons.prems(3) 0 by (metis Suc_less_eq length_Cons nth_Cons_Suc zero_le)
    then have "reads (read_dims (length ne) 0) [] ne" using Cons.IH [of 0] Cons.prems(1) by simp
    ultimately show ?thesis using 0 by (simp add: reads_def)
  next
    case (Suc m)
    have x: "0 \<le> x" "i64_ok x" using Cons.prems(1) by (auto simp: dim_ok_def i64_ok_def)
    have "\<forall>j. m \<le> j \<longrightarrow> j < length ne \<longrightarrow> ne ! j = 1"
    proof (intro allI impI)
      fix j
      assume "m \<le> j" "j < length ne"
      then show "ne ! j = 1" using Cons.prems(3) [rule_format, of "Suc j"] Suc by simp
    qed
    then have "reads (read_dims (length ne) m) (concat (map (\<lambda>i. le_bytes 8 (unsigned_of 64 i)) (take m ne))) ne"
      using Cons.IH [of m] Cons.prems(1,2) Suc by simp
    then show ?thesis using Suc reads_i64 [OF x(2)] x(1) by (simp add: reads_def)
  qed
qed

lemma n_dims_ok:
  assumes "length ne = 4"
  shows "ggml_n_dims ne \<le> 4" "\<forall>j. ggml_n_dims ne \<le> j \<longrightarrow> j < 4 \<longrightarrow> ne ! j = 1"
proof -
  have u: "[Suc 0..<4] = [1, 2, 3]" by (simp add: upt_rec)
  have l: "j < 4 \<longleftrightarrow> j = 0 \<or> j = 1 \<or> j = 2 \<or> j = (3::nat)" for j by auto
  show "ggml_n_dims ne \<le> 4" by (simp add: ggml_n_dims_def u)
  show "\<forall>j. ggml_n_dims ne \<le> j \<longrightarrow> j < 4 \<longrightarrow> ne ! j = 1"
    unfolding l by (auto simp: ggml_n_dims_def u split: if_splits)
qed

lemma reads_shape:
  assumes "spec_ok s"
  shows "reads read_shape (le_bytes 4 (ggml_n_dims (ts_ne s)) @
    concat (map (\<lambda>j. le_bytes 8 (unsigned_of 64 (ts_ne s ! j))) [0..<ggml_n_dims (ts_ne s)])) (ts_ne s)"
proof -
  let ?n = "ggml_n_dims (ts_ne s)"
  have ne: "length (ts_ne s) = 4" "list_all dim_ok (ts_ne s)" "check_elements (ts_ne s) = Done ()"
    using assms by (auto simp: spec_ok_def)
  note n = n_dims_ok [OF ne(1)]
  have "map (\<lambda>j. le_bytes 8 (unsigned_of 64 (ts_ne s ! j))) [0..<?n] =
      map (\<lambda>i. le_bytes 8 (unsigned_of 64 i)) (take ?n (ts_ne s))"
    using n(1) ne(1) by (intro nth_equalityI) auto
  moreover have "reads (read_dims 4 ?n) (concat (map (\<lambda>i. le_bytes 8 (unsigned_of 64 i)) (take ?n (ts_ne s)))) (ts_ne s)"
    using reads_dims [OF ne(2), of ?n] n ne(1) by simp
  moreover have "reads (read_val 4) (le_bytes 4 ?n) ?n" using n(1) by (intro reads_val) simp
  ultimately show ?thesis using n(1) ne(3) by (simp add: reads_def read_shape_def GGML_MAX_DIMS_def)
qed

lemma reads_info:
  assumes "spec_ok s" "off < 2 ^ 64" "ts_name s \<notin> ti_name ` set infos"
  shows "reads (read_info infos) (encode_info s off) (info_of s off)"
proof -
  have name: "reads read_string (write_string (ts_name s)) (ts_name s)"
    using assms(1) by (intro reads_string) (auto simp: spec_ok_def str_ok_def GGML_MAX_NAME_def GGUF_MAX_STRING_LENGTH_def)
  have fresh: "\<not> list_ex (\<lambda>ti. ts_name s = ti_name ti) infos" using assms(3) by (auto simp: list_ex_iff)
  have off: "reads (read_val 8) (le_bytes 8 off) off" using assms(2) by (intro reads_val) simp
  have c: "length (ts_name s) < GGML_MAX_NAME" "row_fits (ts_type s) (ts_ne s)" "bytes_fit (ts_type s) (ts_ne s)"
    using assms(1) by (auto simp: spec_ok_def)
  show ?thesis
    using name fresh off c reads_shape [OF assms(1)] reads_ggml_type [of "ts_type s"]
    unfolding reads_def by (simp add: read_info_def encode_info_def info_of_def)
qed

lemma reads_infos:
  assumes "list_all spec_ok specs" "distinct (map ti_name seen @ map ts_name specs)"
    "length offs = length specs" "list_all (\<lambda>off. off < 2 ^ 64) offs"
  shows "reads (read_infos (length specs) seen) (concat (map (\<lambda>(s, off). encode_info s off) (zip specs offs)))
    (seen @ map (\<lambda>(s, off). info_of s off) (zip specs offs))"
  using assms
proof (induction specs arbitrary: seen offs)
  case Nil
  then show ?case by (simp add: reads_def)
next
  case (Cons s specs)
  then obtain off offs' where o: "offs = off # offs'" by (cases offs) auto
  have "reads (read_info seen) (encode_info s off) (info_of s off)"
    using Cons.prems o by (intro reads_info) auto
  moreover have "reads (read_infos (length specs) (seen @ [info_of s off]))
      (concat (map (\<lambda>(s, off). encode_info s off) (zip specs offs')))
      ((seen @ [info_of s off]) @ map (\<lambda>(s, off). info_of s off) (zip specs offs'))"
    using Cons.prems o by (intro Cons.IH) (auto simp: info_of_def)
  ultimately show ?case using o by (simp add: reads_def)
qed

end
