(* ===== verification/Gguf_File.thy ===== *)
theory Gguf_File
  imports Gguf_Codec
begin

text \<open>
  Whole files: padding, the size of a tensor computed in three ways, and the theorem that the
  parser reads back what the writer wrote.
\<close>

section \<open>Padding\<close>

lemma pow2_exp: "is_pow2 a \<Longrightarrow> \<exists>k. a = 2 ^ k"
proof (induction a rule: less_induct)
  case (less a)
  have a: "a \<noteq> 0" "and a (a - 1) = 0" using less.prems by (auto simp: is_pow2_def)
  show ?case
  proof (cases "a = 1")
    case True
    then show ?thesis by (intro exI [of _ 0]) simp
  next
    case False
    have u: "and a (a - 1) = (a mod 2) * ((a - 1) mod 2) + 2 * (and (a div 2) ((a - 1) div 2))"
      using a(1) False by (subst and_nat_unfold) auto
    have even: "even a"
    proof (rule ccontr)
      assume "odd a"
      then have "(a - 1) div 2 = a div 2" by (auto elim!: oddE)
      then have "a div 2 = 0" using u a(2) by simp
      then show False using False a(1) \<open>odd a\<close> by (auto elim!: oddE)
    qed
    then obtain b where b: "a = 2 * b" by blast
    have "(a - 1) div 2 = b - 1" using b a(1) by simp
    then have "is_pow2 b" using u a b by (auto simp: is_pow2_def)
    then obtain k where "b = 2 ^ k" using less.IH [of b] a(1) b by auto
    then show ?thesis using b by (intro exI [of _ "Suc k"]) simp
  qed
qed

lemma and_not_mask_word: "and w (not (mask k)) = w - take_bit k (w :: 64 word)"
proof -
  have "and w (not (mask k)) + and w (mask k) = or (and w (not (mask k))) (and w (mask k))"
    by (rule disjunctive_add) (auto simp: bit_simps)
  also have "\<dots> = w" by (rule bit_word_eqI) (auto simp: bit_simps)
  finally show ?thesis by (simp add: take_bit_eq_mask eq_diff_eq)
qed

lemma ggml_pad_div:
  assumes "k < 64" "x + 2 ^ k \<le> 2 ^ 64"
  shows "ggml_pad x (2 ^ k) = (x + 2 ^ k - 1) div 2 ^ k * 2 ^ k"
proof -
  let ?y = "x + 2 ^ k - 1"
  let ?w = "word_of_nat ?y :: 64 word"
  have "0 < x + 2 ^ k" by simp
  then have y: "?y < 2 ^ 64" using assms(2) by linarith
  have m: "(word_of_nat (2 ^ k - 1) :: 64 word) = mask k" by (simp add: mask_eq_exp_minus_1 of_nat_diff)
  have w: "unat ?w = ?y" using y by (simp add: unsigned_of_nat take_bit_nat_eq_self)
  have "unat (take_bit k ?w) = take_bit k (unat ?w)" by (rule unsigned_take_bit_eq)
  then have t: "unat (take_bit k ?w) = ?y mod 2 ^ k" unfolding w take_bit_eq_mod .
  have "take_bit k ?w \<le> ?w" unfolding word_le_nat_alt t w by simp
  then have "unat (?w - take_bit k ?w) = unat ?w - unat (take_bit k ?w)" by (rule unat_sub)
  then have "ggml_pad x (2 ^ k) = ?y - ?y mod 2 ^ k"
    unfolding ggml_pad_def m and_not_mask_word w t .
  then show ?thesis by (simp add: minus_mod_eq_div_mult)
qed

lemma ggml_pad_bounds:
  assumes "is_pow2 a" "a < 2 ^ 64" "x + a \<le> 2 ^ 64"
  shows "x \<le> ggml_pad x a" "ggml_pad x a < x + a" "a dvd ggml_pad x a"
proof -
  obtain k where k: "a = 2 ^ k" using pow2_exp [OF assms(1)] by blast
  have "k < 64"
  proof (rule ccontr)
    assume "\<not> k < 64"
    then have "(2::nat) ^ 64 \<le> 2 ^ k" by (intro power_increasing) auto
    then show False using assms(2) k by simp
  qed
  then have p: "ggml_pad x a = (x + a - 1) div a * a" using ggml_pad_div assms(3) k by simp
  have a: "0 < a" using k by simp
  have e: "(x + a - 1) div a * a + (x + a - 1) mod a = x + a - 1" by simp
  have "(x + a - 1) mod a < a" using a by simp
  then show "x \<le> ggml_pad x a" "ggml_pad x a < x + a" "a dvd ggml_pad x a"
    unfolding p using e a by linarith+ (simp add: p)
qed

section \<open>The size of a tensor\<close>

lemma blck_pos: "0 < blck_size t" and type_size_pos: "0 < ggml_type_size t"
  by (cases t; simp)+

lemma too_many_Done: "too_many n m = Done b \<Longrightarrow> n \<noteq> 0"
  by (auto simp: too_many_def asserted_def split: if_splits)

lemma spec_dims:
  assumes "spec_ok s"
  obtains q m1 m2 m3 where "ts_ne s = [int (blck_size (ts_type s) * q), int m1, int m2, int m3]"
    "0 < m1" "0 < m2" "0 < m3"
proof -
  obtain n0 n1 n2 n3 where ne: "ts_ne s = [n0, n1, n2, n3]"
    using assms by (auto simp: spec_ok_def length_Suc_conv numeral_eq_Suc)
  have pos: "0 \<le> n0" "0 \<le> n1" "0 \<le> n2" "0 \<le> n3" using assms by (auto simp: spec_ok_def ne dim_ok_def)
  have nz: "n1 \<noteq> 0" "n2 \<noteq> 0" "n3 \<noteq> 0"
    using assms by (auto simp: spec_ok_def ne check_elements_def obind_Done guarded_Done dest: too_many_Done)
  have "int (blck_size (ts_type s)) dvd n0" using assms by (auto simp: spec_ok_def ne row_fits_def dvd_eq_mod_eq_0)
  then obtain z where z: "n0 = int (blck_size (ts_type s)) * z" by blast
  then have "0 \<le> z" using pos(1) blck_pos [of "ts_type s"] by (simp add: zero_le_mult_iff)
  then have "n0 = int (blck_size (ts_type s) * nat z)" using z by simp
  moreover have "n1 = int (nat n1)" "n2 = int (nat n2)" "n3 = int (nat n3)" using pos by simp_all
  ultimately show ?thesis
    using that [of "nat z" "nat n1" "nat n2" "nat n3"] ne nz pos by auto
qed

lemma ts_nbytes_eq:
  "ts_ne s = [int (blck_size (ts_type s) * q), int m1, int m2, int m3] \<Longrightarrow>
   ts_nbytes s = q * m1 * m2 * m3 * ggml_type_size (ts_type s)"
proof -
  assume ne: "ts_ne s = [int (blck_size (ts_type s) * q), int m1, int m2, int m3]"
  let ?B = "blck_size (ts_type s)"
  have "prod_list (ts_ne s) = int ?B * int (q * m1 * m2 * m3)" by (simp add: ne algebra_simps)
  then have "prod_list (ts_ne s) div int ?B = int (q * m1 * m2 * m3)"
    using blck_pos [of "ts_type s"] by simp
  then show ?thesis unfolding ts_nbytes_def by (simp only: nat_int)
qed

lemma stride_sum:
  fixes x :: nat
  assumes "0 < m1" "0 < m2" "0 < m3"
  shows "x + ((m1 - 1) * x + ((m2 - 1) * (x * m1) + (m3 - 1) * (x * m1 * m2))) = x * m1 * m2 * m3"
proof -
  obtain a b c where "m1 = Suc a" "m2 = Suc b" "m3 = Suc c" using assms by (metis gr0_implies_Suc)
  then show ?thesis by (simp add: algebra_simps)
qed

lemma nbytes_agree:
  assumes "spec_ok s"
  shows "ggml_nbytes (info_of s off) = ts_nbytes s" "ti_nbytes (info_of s off) = ts_nbytes s"
proof -
  show "ti_nbytes (info_of s off) = ts_nbytes s" by (simp add: ti_nbytes_def ts_nbytes_def info_of_def)
  from spec_dims [OF assms] obtain q m1 m2 m3 where
    ne: "ts_ne s = [int (blck_size (ts_type s) * q), int m1, int m2, int m3]" and m: "0 < m1" "0 < m2" "0 < m3" .
  let ?B = "blck_size (ts_type s)" and ?T = "ggml_type_size (ts_type s)"
  have B: "0 < ?B" by (rule blck_pos)
  note ts = ts_nbytes_eq [OF ne]
  have u: "[Suc 0..<4] = [1, 2, 3]" "[0..<4] = [0, 1, 2, 3]" by (simp_all add: upt_rec)
  show "ggml_nbytes (info_of s off) = ts_nbytes s"
  proof (cases "q = 0")
    case True
    then show ?thesis by (simp add: ggml_nbytes_def info_of_def ne ts)
  next
    case False
    have nb: "ti_nb (info_of s off) = [?T, ?T * q, ?T * q * m1, ?T * q * m1 * m2]"
      using B by (simp add: info_of_def strides_def Let_def ne)
    have pos: "\<not> list_ex (\<lambda>x. x \<le> 0) (ts_ne s)" using False B m by (simp add: ne mult_le_0_iff)
    have S: "?T * q + ((m1 - 1) * (?T * q) + ((m2 - 1) * (?T * q * m1) + (m3 - 1) * (?T * q * m1 * m2))) = ts_nbytes s"
      unfolding stride_sum [OF m] ts by (simp add: algebra_simps)
    have f: "ti_ne (info_of s off) = ts_ne s" "ti_type (info_of s off) = ts_type s" by (simp_all add: info_of_def)
    have m': "nat (int m1 - 1) = m1 - 1" "nat (int m2 - 1) = m2 - 1" "nat (int m3 - 1) = m3 - 1" "nat (int q - 1) = q - 1"
      using m False by simp_all
    show ?thesis
    proof (cases "?B = 1")
      case True
      have "ggml_nbytes (info_of s off) = ?T + ((q - 1) * ?T +
          ((m1 - 1) * (?T * q) + ((m2 - 1) * (?T * q * m1) + (m3 - 1) * (?T * q * m1 * m2))))"
        unfolding ggml_nbytes_def Let_def f nb GGML_MAX_DIMS_def u using True pos m' by (simp add: ne)
      moreover have "?T + (q - 1) * ?T = ?T * q" using False by (cases q) (auto simp: algebra_simps)
      ultimately show ?thesis using S by simp
    next
      case no: False
      have "nat (int (?B * q)) * ?T div ?B = ?T * q" using B by (simp add: nat_mult_distrib algebra_simps)
      then have "ggml_nbytes (info_of s off) =
          ?T * q + ((m1 - 1) * (?T * q) + ((m2 - 1) * (?T * q * m1) + (m3 - 1) * (?T * q * m1 * m2)))"
        unfolding ggml_nbytes_def Let_def f nb GGML_MAX_DIMS_def using no pos m' by (simp add: ne u)
      then show ?thesis using S by simp
    qed
  qed
qed

section \<open>Payloads\<close>

lemma staging_write_fields [simp]:
  "st_out (staging_write b st) = st_out st @ take (st_remaining st) b"
  "st_remaining (staging_write b st) = st_remaining st - length b"
  "st_overflow (staging_write b st) = st_overflow st + (length b - st_remaining st)"
  by (auto simp: staging_write_def Let_def min_def)

lemma staging_fold:
  "st_out (fold staging_write bs st) = st_out st @ take (st_remaining st) (concat bs)"
  "st_remaining (fold staging_write bs st) = st_remaining st - length (concat bs)"
  "st_overflow (fold staging_write bs st) = st_overflow st + (length (concat bs) - st_remaining st)"
  by (induction bs arbitrary: st) simp_all

lemma write_tensor_data_ok:
  assumes "write_tensor_data data a i s = Ok b"
  shows "length (concat (fst (data i))) = ts_nbytes s"
    "b = concat (fst (data i)) @ replicate (ggml_pad (ts_nbytes s) a - ts_nbytes s) 0"
proof -
  let ?st = "fold staging_write (fst (data i)) \<lparr>st_out = [], st_remaining = ts_nbytes s, st_overflow = 0\<rparr>"
  have st: "st_remaining ?st = 0" "st_overflow ?st = 0"
    and b: "b = st_out ?st @ replicate (ggml_pad (ts_nbytes s) a - ts_nbytes s) 0"
    using assms by (auto simp: write_tensor_data_def Let_def split: if_splits)
  then show l: "length (concat (fst (data i))) = ts_nbytes s" by (simp add: staging_fold)
  then have "st_out ?st = concat (fst (data i))" unfolding staging_fold by simp
  then show "b = concat (fst (data i)) @ replicate (ggml_pad (ts_nbytes s) a - ts_nbytes s) 0" using b by simp
qed

lemma write_tensors_length:
  assumes "write_tensors data a ts = Ok pl" "(i, s) \<in> set ts"
  shows "ts_nbytes s \<le> length pl"
  using assms
proof (induction ts arbitrary: pl)
  case (Cons t ts)
  obtain j u where t: "t = (j, u)" by (cases t)
  from Cons.prems(1) obtain b bs where b: "write_tensor_data data a j u = Ok b" "write_tensors data a ts = Ok bs" "pl = b @ bs"
    by (auto simp: t split: sum.splits)
  show ?case
  proof (cases "(i, s) = t")
    case True
    then show ?thesis using write_tensor_data_ok [OF b(1)] b(3) t by simp
  next
    case False
    then show ?thesis using Cons.IH [OF b(2)] Cons.prems(2) b(3) by simp
  qed
qed simp

text \<open>Every payload lies where the index says, after the cursor \<open>c\<close>.\<close>

lemma write_tensors_layout:
  fixes c :: nat
  assumes "write_tensors data a ts = Ok pl" "\<And>i s. (i, s) \<in> set ts \<Longrightarrow> ts_nbytes s \<le> ggml_pad (ts_nbytes s) a"
    "k < length ts"
  defines "off \<equiv> payload_offsets a c (map snd ts) ! k" and "n \<equiv> ts_nbytes (snd (ts ! k))"
  shows "c \<le> off \<and> off + n \<le> c + length pl \<and> take n (drop (off - c) pl) = concat (fst (data (fst (ts ! k))))"
  using assms(1-3) unfolding off_def n_def
proof (induction ts arbitrary: pl c k)
  case (Cons t ts)
  obtain j u where t: "t = (j, u)" by (cases t)
  from Cons.prems(1) obtain b bs where b: "write_tensor_data data a j u = Ok b" "write_tensors data a ts = Ok bs" "pl = b @ bs"
    by (auto simp: t split: sum.splits)
  note B = write_tensor_data_ok [OF b(1)]
  have pad: "ts_nbytes u \<le> ggml_pad (ts_nbytes u) a" using Cons.prems(2) [of j u] t by simp
  then have lb: "length b = ggml_pad (ts_nbytes u) a" using B by simp
  show ?case
  proof (cases k)
    case 0
    then show ?thesis using B b(3) t by simp
  next
    case (Suc k')
    let ?c = "c + ggml_pad (ts_nbytes u) a"
    have I: "?c \<le> payload_offsets a ?c (map snd ts) ! k' \<and>
        payload_offsets a ?c (map snd ts) ! k' + ts_nbytes (snd (ts ! k')) \<le> ?c + length bs \<and>
        take (ts_nbytes (snd (ts ! k'))) (drop (payload_offsets a ?c (map snd ts) ! k' - ?c) bs) =
          concat (fst (data (fst (ts ! k'))))"
    proof (rule Cons.IH [OF b(2)])
      show "ts_nbytes s \<le> ggml_pad (ts_nbytes s) a" if "(i, s) \<in> set ts" for i s
        using Cons.prems(2) [of i s] that by simp
      show "k' < length ts" using Cons.prems(3) Suc by simp
    qed
    then have "payload_offsets a ?c (map snd ts) ! k' - c =
        length b + (payload_offsets a ?c (map snd ts) ! k' - ?c)" using lb by simp
    then have "drop (payload_offsets a ?c (map snd ts) ! k' - c) pl =
        drop (payload_offsets a ?c (map snd ts) ! k' - ?c) bs" by (simp add: b(3))
    then show ?thesis using I Suc t lb b(3) by simp
  qed
qed simp

lemma length_payload_offsets [simp]: "length (payload_offsets a c specs) = length specs"
  by (induction specs arbitrary: c) auto

section \<open>The data section\<close>

lemma section_size_ok:
  assumes "list_all (\<lambda>ti. ti_offset ti + ggml_nbytes ti \<le> limit) infos" "limit \<le> U64_MAX"
  shows "\<exists>sz'. fold (size_step limit) infos (Done sz) = Done sz'"
  using assms(1)
proof (induction infos arbitrary: sz)
  case (Cons ti infos)
  then have "size_step limit ti (Done sz) = Done (max sz (ti_offset ti + ggml_nbytes ti))"
    using assms(2) by (simp add: size_step_def Let_def)
  then show ?case using Cons by simp
qed simp

lemma size_step_fail: "fold (size_step limit) infos Refused = Refused" "fold (size_step limit) infos Panicked = Panicked"
  by (induction infos) (auto simp: size_step_def)

lemma section_size_fits:
  assumes "fold (size_step limit) infos (Done sz) = Done sz'" "sz \<le> limit"
  shows "sz \<le> sz' \<and> sz' \<le> limit \<and> (\<forall>ti \<in> set infos. ti_offset ti + ggml_nbytes ti \<le> sz')"
  using assms
proof (induction infos arbitrary: sz)
  case (Cons ti infos)
  let ?e = "ti_offset ti + ggml_nbytes ti"
  have e: "?e \<le> U64_MAX" "?e \<le> limit"
    using Cons.prems(1) size_step_fail [of limit infos]
    by (auto simp: size_step_def [of limit ti] Let_def guarded_def split: if_splits)
  then have "size_step limit ti (Done sz) = Done (max sz ?e)" by (simp add: size_step_def Let_def)
  then show ?case using Cons.IH [of "max sz ?e"] Cons.prems e by auto
qed simp

section \<open>The whole file\<close>

lemma magic_ok: "concat (map (le_bytes 1) [0x47, 0x47, 0x55, 0x46]) = GGUF_MAGIC"
  by (simp add: GGUF_MAGIC_def)

lemma reads_magic: "reads (read_vec 1 4) GGUF_MAGIC [0x47, 0x47, 0x55, 0x46]"
proof -
  have l: "(4::nat) = length [0x47, 0x47, 0x55, 0x46::nat]" by simp
  show ?thesis
    unfolding l magic_ok [symmetric] by (rule reads_vec) (simp_all add: GGUF_MAX_ARRAY_ELEMENTS_def)
qed

lemma signed_small: "n < 2 ^ 63 \<Longrightarrow> signed 64 n = int n"
  by (simp add: signed_def)

lemma reads_count: "n < 2 ^ 63 \<Longrightarrow> reads read_i64 (le_bytes 8 n) (int n)"
  using reads_map [OF reads_val, of n 8 "signed 64"] by (simp add: read_i64_def [abs_def] signed_small)

lemma reads_header:
  assumes "n \<le> U64_MAX div INFO_STRUCT_BYTES" "m \<le> U64_MAX div KV_STRUCT_BYTES"
  shows "reads read_header (le_bytes 4 GGUF_VERSION @ le_bytes 8 n @ le_bytes 8 m) (GGUF_VERSION, n, m)"
proof -
  have nm: "n < 2 ^ 63" "m < 2 ^ 63"
    using assms by (auto simp: U64_MAX_def INFO_STRUCT_BYTES_def KV_STRUCT_BYTES_def)
  have v: "reads (read_val 4) (le_bytes 4 GGUF_VERSION) GGUF_VERSION"
    by (rule reads_val) (simp add: GGUF_VERSION_def)
  have "version_ok GGUF_VERSION" by code_simp
  then show ?thesis
    using v reads_count [OF nm(1)] reads_count [OF nm(2)] assms
    unfolding reads_def by (simp add: read_header_def)
qed

definition header_bytes :: "GgufKv list \<Rightarrow> TensorSpec list \<Rightarrow> nat \<Rightarrow> byte list \<Rightarrow> byte list" where
  "header_bytes kvs specs a kvb = GGUF_MAGIC @ (le_bytes 4 GGUF_VERSION @ le_bytes 8 (length specs)
     @ le_bytes 8 (length kvs)) @ kvb @ index_bytes specs a"

lemma create_ok:
  assumes "create kvs specs a = Ok hdr"
  obtains kvb where "validate_specs specs = Ok ()" "is_pow2 a" "encode_kvs kvs = Done kvb"
    "hdr = vec_resize (header_bytes kvs specs a kvb) (ggml_pad (length (header_bytes kvs specs a kvb)) a)"
    "length (header_bytes kvs specs a kvb) < 2 ^ 63"
  using assms by (auto simp: create_def header_bytes_def Let_def split: sum.splits if_splits outcome.splits)

lemma validate_distinct:
  "validate_from seen specs = Ok () \<Longrightarrow> distinct (map ts_name seen) \<Longrightarrow> distinct (map ts_name (seen @ specs))"
proof (induction specs arbitrary: seen)
  case (Cons s specs)
  have v: "validate_spec seen s = Ok ()" "validate_from (seen @ [s]) specs = Ok ()"
    using Cons.prems(1) by (auto split: sum.splits)
  have "ts_name s \<notin> set (map ts_name seen)"
    using v(1) by (auto simp: validate_spec_def Let_def list_ex_iff split: if_splits list.splits)
  then show ?case using Cons.IH [OF v(2)] Cons.prems(2) by simp
qed simp

text \<open>What the theorem asks of the input: pairs and tensors the format can hold, and the alignment the metadata says.\<close>

definition writable :: "GgufKv list \<Rightarrow> TensorSpec list \<Rightarrow> nat \<Rightarrow> bool" where
  "writable kvs specs a \<longleftrightarrow> list_all kv_ok kvs \<and> distinct (map kv_key kvs) \<and> list_all spec_ok specs \<and>
     read_alignment kvs = Done a \<and> length specs \<le> U64_MAX div INFO_STRUCT_BYTES \<and>
     length kvs \<le> U64_MAX div KV_STRUCT_BYTES"

lemma seek_at: "seek (rd_at pre (zs @ post)) (length (pre @ zs)) = Done (rd_at (pre @ zs) post)"
  by (simp add: seek_def rd_at_def)

lemma alignment_bound: "read_alignment kvs = Done a \<Longrightarrow> is_pow2 a \<and> a < 2 ^ 32"
proof -
  assume r: "read_alignment kvs = Done a"
  have "a < 2 ^ 32" if "get_val_u32 kv 0 = Done a" for kv
  proof -
    from that have "a = le_nat (take 4 (kv_data kv))" "4 \<le> length (kv_data kv)"
      by (auto simp: get_val_u32_def outcome_Done value_bytes_def)
    then show ?thesis using le_nat_bound [of "take 4 (kv_data kv)"] by simp
  qed
  then show ?thesis
    using r by (auto simp: read_alignment_def outcome_Done ctx_val_u32_def GGUF_DEFAULT_ALIGNMENT_def split: if_splits)
qed

lemma write_part_parses:
  assumes "write_part kvs ts a data = Ok file" "writable kvs (map snd ts) a" "length file < 2 ^ 63"
  shows "\<exists>ctx. init_from_data file = Done ctx \<and> gc_version ctx = GGUF_VERSION \<and> gc_kv ctx = kvs \<and> gc_alignment ctx = a \<and>
    gc_info ctx = map (\<lambda>(s, off). info_of s off) (zip (map snd ts) (payload_offsets a 0 (map snd ts))) \<and>
    (\<forall>k < length ts. take (ts_nbytes (snd (ts ! k))) (drop (gc_offset ctx + ti_offset (gc_info ctx ! k)) file) =
      concat (fst (data (fst (ts ! k)))))"
proof -
  let ?specs = "map snd ts"
  from assms(1) obtain hdr pl where W: "create kvs ?specs a = Ok hdr" "write_tensors data a ts = Ok pl" "file = hdr @ pl"
    by (auto simp: write_part_def split: sum.splits)
  from create_ok [OF W(1)] obtain kvb where C: "validate_specs ?specs = Ok ()" "is_pow2 a" "encode_kvs kvs = Done kvb"
    "hdr = vec_resize (header_bytes kvs ?specs a kvb) (ggml_pad (length (header_bytes kvs ?specs a kvb)) a)"
    "length (header_bytes kvs ?specs a kvb) < 2 ^ 63" .
  let ?h = "header_bytes kvs ?specs a kvb" and ?offs = "payload_offsets a 0 ?specs"
  let ?infos = "map (\<lambda>(s, off). info_of s off) (zip ?specs ?offs)"
  have wr: "list_all kv_ok kvs" "distinct (map kv_key kvs)" "list_all spec_ok ?specs" "read_alignment kvs = Done a"
    "length ?specs \<le> U64_MAX div INFO_STRUCT_BYTES" "length kvs \<le> U64_MAX div KV_STRUCT_BYTES"
    using assms(2) by (auto simp: writable_def)
  have a: "a < 2 ^ 32" using alignment_bound [OF wr(4)] by simp
  define zs :: "byte list" where "zs = replicate (ggml_pad (length ?h) a - length ?h) 0"
  have "length ?h \<le> ggml_pad (length ?h) a" using ggml_pad_bounds(1) [OF C(2), of "length ?h"] C(5) a by simp
  then have hdr: "hdr = ?h @ zs" and hz: "length (?h @ zs) = ggml_pad (length ?h) a"
    by (simp_all add: C(4) vec_resize_def zs_def)
  have pads: "ts_nbytes s \<le> ggml_pad (ts_nbytes s) a" if "(i, s) \<in> set ts" for i s
  proof -
    have "ts_nbytes s < 2 ^ 63" using write_tensors_length [OF W(2) that] W(3) assms(3) by simp
    then show ?thesis using ggml_pad_bounds(1) [OF C(2), of "ts_nbytes s"] a by simp
  qed
  have L: "?offs ! k + ts_nbytes (snd (ts ! k)) \<le> length pl \<and>
      take (ts_nbytes (snd (ts ! k))) (drop (?offs ! k) pl) = concat (fst (data (fst (ts ! k))))" if "k < length ts" for k
    using write_tensors_layout [OF W(2) _ that, of 0] pads by simp
  have offs: "list_all (\<lambda>off. off < 2 ^ 64) ?offs"
    unfolding list_all_length using L W(3) assms(3) by force
  have fit: "list_all (\<lambda>ti. ti_offset ti + ggml_nbytes ti \<le> length pl) ?infos"
    unfolding list_all_length
  proof (intro allI impI)
    fix k
    assume k: "k < length ?infos"
    then have "spec_ok (snd (ts ! k))" using wr(3) by (simp add: list_all_length)
    then show "ti_offset (?infos ! k) + ggml_nbytes (?infos ! k) \<le> length pl"
      using L [of k] k nbytes_agree(1) by (simp add: info_of_def)
  qed
  have dist: "distinct (map ts_name ?specs)"
    using validate_distinct [of "[]" ?specs] C(1) by (simp add: validate_specs_def)
  have R1: "reads (read_vec 1 4) GGUF_MAGIC [0x47, 0x47, 0x55, 0x46]" by (rule reads_magic)
  have R2: "reads read_header (le_bytes 4 GGUF_VERSION @ le_bytes 8 (length ?specs) @ le_bytes 8 (length kvs))
    (GGUF_VERSION, length ?specs, length kvs)" by (rule reads_header [OF wr(5,6)])
  have R3: "reads (read_kvs (length kvs) []) kvb kvs" using reads_kvs [of kvs "[]" kvb] wr(1,2) C(3) by simp
  have R4: "reads (read_infos (length ?specs) []) (index_bytes ?specs a) ?infos"
    using reads_infos [OF wr(3), of "[]" ?offs] dist offs by (simp add: index_bytes_def)
  define r4 where "r4 = rd_at ?h (zs @ pl)"
  have "\<exists>sz. data_section_size ?infos (length pl + n) = Done sz" if "length pl + n \<le> U64_MAX" for n
    unfolding data_section_size_def
    by (rule section_size_ok) (use fit that in \<open>auto simp: list_all_iff trans_le_add1\<close>)
  moreover have "length pl + length zs \<le> U64_MAX" using assms(3) W(3) hdr by (simp add: U64_MAX_def)
  ultimately obtain sz1 sz2 where sz: "data_section_size ?infos (length pl) = Done sz1"
    "data_section_size ?infos (length zs + length pl) = Done sz2" by (metis add.commute add.right_neutral add_leD1)
  have whole: "reader_new file = rd_at [] (GGUF_MAGIC @ (le_bytes 4 GGUF_VERSION @ le_bytes 8 (length ?specs) @
      le_bytes 8 (length kvs)) @ kvb @ index_bytes ?specs a @ zs @ pl)"
    by (simp add: reader_new_def rd_at_def W(3) hdr header_bytes_def)
  have run: "init_from_data file = obind (if 0 < length ?specs then seek r4 (ggml_pad (rd_offset r4) a) else Done r4) (\<lambda>r5.
      obind (data_section_size ?infos (length (rd_data r5) - rd_offset r5)) (\<lambda>sz.
        Done \<lparr>gc_version = GGUF_VERSION, gc_kv = kvs, gc_info = ?infos, gc_alignment = a,
              gc_offset = rd_offset r5, gc_size = sz\<rparr>))"
    unfolding init_from_data_def whole init_from_reader_def readsD [OF R1] obind_simps prod.case magic_ok guarded_True
      readsD [OF R2] readsD [OF R3] wr(4) readsD [OF R4]
    by (simp add: r4_def header_bytes_def)
  show ?thesis
  proof (cases "ts = []")
    case True
    then have "init_from_data file = Done \<lparr>gc_version = GGUF_VERSION, gc_kv = kvs, gc_info = ?infos, gc_alignment = a,
              gc_offset = length ?h, gc_size = sz2\<rparr>"
      unfolding run using sz(2) by (simp add: r4_def rd_at_def)
    then show ?thesis using True by auto
  next
    case False
    have "seek r4 (ggml_pad (rd_offset r4) a) = Done (rd_at (?h @ zs) pl)"
      using seek_at [of ?h zs pl] unfolding hz by (simp add: r4_def rd_at_def)
    then have I: "init_from_data file = Done \<lparr>gc_version = GGUF_VERSION, gc_kv = kvs, gc_info = ?infos, gc_alignment = a,
              gc_offset = length (?h @ zs), gc_size = sz1\<rparr>"
      unfolding run using False sz(1) by (simp add: rd_at_def)
    have "take (ts_nbytes (snd (ts ! k))) (drop (length (?h @ zs) + ti_offset (?infos ! k)) file) =
      concat (fst (data (fst (ts ! k))))" if k: "k < length ts" for k
    proof -
      have "ti_offset (?infos ! k) = ?offs ! k" using k by (simp add: info_of_def)
      then have "drop (length (?h @ zs) + ti_offset (?infos ! k)) file = drop (?offs ! k) pl"
        unfolding W(3) hdr by (simp add: add.commute flip: drop_drop)
      then show ?thesis using L [OF k] by simp
    qed
    then show ?thesis unfolding I by (simp del: length_append)
  qed
qed

end
