(* ===== verification/Gguf_Read.thy ===== *)
theory Gguf_Read
  imports Gguf_File
begin

text \<open>
  What a successful parse guarantees, whatever the file holds: the reader never leaves the
  file, and the index only has tensors that the format allows.
\<close>

section \<open>The reader stays in the file\<close>

definition rd_wf :: "GgufReader \<Rightarrow> bool" where
  "rd_wf r \<longleftrightarrow> rd_offset r + rd_remain r = length (rd_data r)"

definition keeps :: "(GgufReader \<Rightarrow> ('a \<times> GgufReader) outcome) \<Rightarrow> bool" where
  "keeps p \<longleftrightarrow> (\<forall>r x r'. rd_wf r \<longrightarrow> p r = Done (x, r') \<longrightarrow> rd_wf r' \<and> rd_data r' = rd_data r)"

named_theorems keeps_intros

lemma keepsD: "keeps p \<Longrightarrow> rd_wf r \<Longrightarrow> p r = Done (x, r') \<Longrightarrow> rd_wf r' \<and> rd_data r' = rd_data r"
  unfolding keeps_def by blast

lemma keeps_bind [keeps_intros]:
  assumes "keeps p" "\<And>x. keeps (f x)"
  shows "keeps (\<lambda>r. obind (p r) (\<lambda>(x, r'). f x r'))"
  unfolding keeps_def
proof (intro allI impI)
  fix r y r'
  assume r: "rd_wf r" "obind (p r) (\<lambda>(x, r'). f x r') = Done (y, r')"
  then obtain x r1 where 1: "p r = Done (x, r1)" "f x r1 = Done (y, r')" by (auto simp: obind_Done)
  from keepsD [OF assms(1) r(1) 1(1)] have "rd_wf r1" "rd_data r1 = rd_data r" by auto
  then show "rd_wf r' \<and> rd_data r' = rd_data r" using keepsD [OF assms(2) _ 1(2)] by simp
qed

lemma keeps_done [keeps_intros]: "keeps (\<lambda>r. Done (x, r))"
  by (simp add: keeps_def)

lemma keeps_refused [keeps_intros]: "keeps (\<lambda>r. Refused)"
  by (simp add: keeps_def)

lemma keeps_panicked [keeps_intros]: "keeps (\<lambda>r. Panicked)"
  by (simp add: keeps_def)

lemma keeps_guard_r: "keeps p \<Longrightarrow> keeps (\<lambda>r. guarded (c r) (p r))"
  unfolding keeps_def guarded_Done by blast

lemma keeps_guard [keeps_intros]: "keeps p \<Longrightarrow> keeps (\<lambda>r. guarded c (p r))"
  by (rule keeps_guard_r)

lemma keeps_assert [keeps_intros]: "keeps p \<Longrightarrow> keeps (\<lambda>r. asserted c (p r))"
  unfolding keeps_def asserted_Done by blast

lemma keeps_pure [keeps_intros]: "(\<And>x. keeps (f x)) \<Longrightarrow> keeps (\<lambda>r. obind m (\<lambda>x. f x r))"
  by (cases m) (simp_all add: keeps_refused keeps_panicked)

lemma keeps_if [keeps_intros]: "keeps p \<Longrightarrow> keeps q \<Longrightarrow> keeps (\<lambda>r. if c then p r else q r)"
  by (cases c) auto

lemma keeps_raw: "keeps (\<lambda>r. read_raw r n)"
  by (auto simp: keeps_def read_raw_def rd_wf_def asserted_Done Let_def split: if_splits)

lemma keeps_val [keeps_intros]: "keeps (read_val n)"
  unfolding read_val_def [abs_def] by (intro keeps_guard_r keeps_bind keeps_raw keeps_guard keeps_done)

lemma keeps_i32 [keeps_intros]: "keeps read_i32"
  unfolding read_i32_def [abs_def] by (intro keeps_intros)

lemma keeps_i64 [keeps_intros]: "keeps read_i64"
  unfolding read_i64_def [abs_def] by (intro keeps_intros)

lemma keeps_bool [keeps_intros]: "keeps read_bool"
  unfolding read_bool_def [abs_def] by (intro keeps_intros)

lemma keeps_gguf_type [keeps_intros]: "keeps read_gguf_type"
  unfolding read_gguf_type_def [abs_def] by (intro keeps_intros)

lemma keeps_ggml_type [keeps_intros]: "keeps read_ggml_type"
  unfolding read_ggml_type_def [abs_def] by (intro keeps_intros)

lemma keeps_string [keeps_intros]: "keeps read_string"
  unfolding read_string_def [abs_def]
  by (intro keeps_bind keeps_val keeps_guard keeps_guard_r keeps_raw keeps_done)

lemma keeps_times [keeps_intros]: "keeps p \<Longrightarrow> keeps (read_times n p)"
proof (induction n)
  case 0
  then show ?case by (simp add: keeps_def)
next
  case (Suc n)
  then show ?case by (simp add: keeps_intros)
qed

lemma keeps_vec [keeps_intros]: "keeps (read_vec sz n)"
  unfolding read_vec_def [abs_def] by (intro keeps_guard keeps_guard_r keeps_intros)

lemma keeps_string_vec [keeps_intros]: "keeps (read_string_vec n)"
  unfolding read_string_vec_def [abs_def] by (intro keeps_guard keeps_guard_r keeps_intros)

lemma keeps_value [keeps_intros]: "keeps (read_value key ty arr n)"
  unfolding read_value_def [abs_def] by (cases ty) (simp_all add: keeps_intros)

lemma keeps_kv [keeps_intros]: "keeps (read_kv kvs)"
  unfolding read_kv_def [abs_def] by (intro keeps_intros)

lemma keeps_kvs [keeps_intros]: "keeps (read_kvs n kvs)"
proof (induction n arbitrary: kvs)
  case 0
  then show ?case by (simp add: keeps_def)
next
  case (Suc n)
  then show ?case by (simp add: keeps_intros)
qed

lemma keeps_dims [keeps_intros]: "keeps (read_dims k n)"
proof (induction k arbitrary: n)
  case 0
  then show ?case by (simp add: keeps_def)
next
  case (Suc k)
  then show ?case by (simp add: keeps_intros)
qed

lemma keeps_shape [keeps_intros]: "keeps read_shape"
  unfolding read_shape_def [abs_def] by (intro keeps_intros)

lemma keeps_info [keeps_intros]: "keeps (read_info infos)"
  unfolding read_info_def [abs_def] by (intro keeps_intros)

lemma keeps_infos [keeps_intros]: "keeps (read_infos n infos)"
proof (induction n arbitrary: infos)
  case 0
  then show ?case by (simp add: keeps_def)
next
  case (Suc n)
  then show ?case by (simp add: keeps_intros)
qed

lemma keeps_header [keeps_intros]: "keeps read_header"
  unfolding read_header_def [abs_def] by (intro keeps_intros)

section \<open>The index\<close>

lemma read_i64_range: "read_i64 r = Done (x, r') \<Longrightarrow> x < 2 ^ 63"
proof -
  assume "read_i64 r = Done (x, r')"
  then obtain bs where "x = signed 64 (le_nat bs)" "length bs = 8"
    by (auto simp: read_i64_def read_val_def obind_Done guarded_Done)
  then show ?thesis using le_nat_bound [of bs] by (auto simp: signed_def)
qed

lemma read_dims_ok:
  "read_dims k n r = Done (ne, r') \<Longrightarrow> length ne = k \<and> list_all dim_ok ne"
proof (induction k arbitrary: n r ne r')
  case (Suc k)
  show ?case
  proof (cases "n = 0")
    case True
    then obtain ne' r1 where "read_dims k 0 r = Done (ne', r1)" "ne = 1 # ne'"
      using Suc.prems by (auto simp: obind_Done)
    then show ?thesis using Suc.IH by (simp add: dim_ok_def)
  next
    case False
    then obtain x r1 ne' r2 where "read_i64 r = Done (x, r1)" "0 \<le> x" "read_dims k (n - 1) r1 = Done (ne', r2)" "ne = x # ne'"
      using Suc.prems by (auto simp: outcome_Done)
    then show ?thesis using Suc.IH read_i64_range by (simp add: dim_ok_def)
  qed
qed simp

lemma read_string_valid: "read_string r = Done (s, r') \<Longrightarrow> utf8_valid s"
  by (auto simp: read_string_def outcome_Done utf8_lossy_is_valid)

text \<open>Every entry the parser accepts is one that the writer could have written.\<close>

lemma read_info_spec:
  assumes "read_info infos r = Done (ti, r')"
  shows "\<exists>s. spec_ok s \<and> ti = info_of s (ti_offset ti)" "ti_name ti \<notin> ti_name ` set infos"
proof -
  from assms obtain name r1 ne r2 t r3 off where R: "read_string r = Done (name, r1)" "length name < GGML_MAX_NAME"
    "\<not> list_ex (\<lambda>ti. name = ti_name ti) infos" "read_shape r1 = Done (ne, r2)" "row_fits t ne" "bytes_fit t ne"
    "ti = \<lparr>ti_name = name, ti_ne = ne, ti_nb = strides t ne, ti_type = t, ti_offset = off\<rparr>"
    by (auto simp: read_info_def outcome_Done)
  have "length ne = 4" "list_all dim_ok ne" "check_elements ne = Done ()"
    using R(4) read_dims_ok by (auto simp: read_shape_def outcome_Done GGML_MAX_DIMS_def)
  then have "spec_ok \<lparr>ts_name = name, ts_ne = ne, ts_type = t\<rparr>"
    using R(2,5,6) read_string_valid [OF R(1)] by (simp add: spec_ok_def)
  then show "\<exists>s. spec_ok s \<and> ti = info_of s (ti_offset ti)"
    by (intro exI [of _ "\<lparr>ts_name = name, ts_ne = ne, ts_type = t\<rparr>"]) (simp add: R(7) info_of_def)
  show "ti_name ti \<notin> ti_name ` set infos" using R(3,7) by (auto simp: list_ex_iff)
qed

definition index_ok :: "GgufTensorInfo list \<Rightarrow> bool" where
  "index_ok infos \<longleftrightarrow> distinct (map ti_name infos) \<and> (\<forall>ti \<in> set infos. \<exists>s. spec_ok s \<and> ti = info_of s (ti_offset ti))"

lemma read_infos_ok: "read_infos n seen r = Done (infos, r') \<Longrightarrow> index_ok seen \<Longrightarrow> index_ok infos"
proof (induction n arbitrary: seen r)
  case (Suc n)
  then obtain ti r1 where R: "read_info seen r = Done (ti, r1)" "read_infos n (seen @ [ti]) r1 = Done (infos, r')"
    by (auto simp: obind_Done)
  have "index_ok (seen @ [ti])" using Suc.prems(2) read_info_spec [OF R(1)] by (auto simp: index_ok_def)
  then show ?case using Suc.IH R(2) by blast
qed simp

lemma read_value_key: "read_value key ty arr n r = Done (kv, r') \<Longrightarrow> kv_key kv = key"
  by (cases ty)
    (auto simp: read_value_def outcome_Done new_array_def new_u8_def new_i8_def new_u16_def new_i16_def new_u32_def
      new_i32_def new_f32_def new_f64_def new_u64_def new_i64_def new_bool_def new_string_def new_string_array_def
      split: if_splits)

lemma read_kv_fresh: "read_kv kvs r = Done (kv, r') \<Longrightarrow> kv_key kv \<notin> kv_key ` set kvs"
  by (auto simp: read_kv_def outcome_Done list_ex_iff dest!: read_value_key split: if_splits)

lemma read_kvs_distinct:
  "read_kvs n seen r = Done (kvs, r') \<Longrightarrow> distinct (map kv_key seen) \<Longrightarrow> distinct (map kv_key kvs)"
proof (induction n arbitrary: seen r)
  case (Suc n)
  then obtain kv r1 where R: "read_kv seen r = Done (kv, r1)" "read_kvs n (seen @ [kv]) r1 = Done (kvs, r')"
    by (auto simp: obind_Done)
  have "distinct (map kv_key (seen @ [kv]))" using Suc.prems(2) read_kv_fresh [OF R(1)] by auto
  then show ?case using Suc.IH R(2) by blast
qed simp

lemma init_ok:
  assumes "init_from_data d = Done ctx"
  shows "distinct (map kv_key (gc_kv ctx)) \<and> index_ok (gc_info ctx) \<and> is_pow2 (gc_alignment ctx) \<and>
    gc_offset ctx + gc_size ctx \<le> length d \<and>
    (\<forall>ti \<in> set (gc_info ctx). ti_offset ti + ggml_nbytes ti \<le> gc_size ctx)"
proof -
  let ?seek = "\<lambda>n r a. if 0 < n then seek r (ggml_pad (rd_offset r) a) else Done r"
  from assms obtain magic r1 v n m r2 kvs r3 a infos r4 r5 sz where
    R: "read_vec 1 4 (reader_new d) = Done (magic, r1)" "read_header r1 = Done ((v, n, m), r2)"
      "read_kvs m [] r2 = Done (kvs, r3)" "read_alignment kvs = Done a" "read_infos n [] r3 = Done (infos, r4)"
      "?seek n r4 a = Done r5" "data_section_size infos (length (rd_data r5) - rd_offset r5) = Done sz"
      "ctx = \<lparr>gc_version = v, gc_kv = kvs, gc_info = infos, gc_alignment = a, gc_offset = rd_offset r5, gc_size = sz\<rparr>"
    by (auto simp: init_from_data_def init_from_reader_def outcome_Done split del: if_split)
  have w0: "rd_wf (reader_new d)" "rd_data (reader_new d) = d" by (simp_all add: rd_wf_def reader_new_def)
  have w1: "rd_wf r1" "rd_data r1 = d" using keepsD [OF keeps_vec w0(1) R(1)] w0(2) by auto
  have w2: "rd_wf r2" "rd_data r2 = d" using keepsD [OF keeps_header w1(1) R(2)] w1(2) by auto
  have w3: "rd_wf r3" "rd_data r3 = d" using keepsD [OF keeps_kvs w2(1) R(3)] w2(2) by auto
  have w4: "rd_wf r4" "rd_data r4 = d" using keepsD [OF keeps_infos w3(1) R(5)] w3(2) by auto
  have w5: "rd_offset r5 \<le> length d" "rd_data r5 = d"
    using R(6) w4 by (auto simp: seek_def guarded_Done rd_wf_def split: if_splits)
  have "sz \<le> length d - rd_offset r5 \<and> (\<forall>ti \<in> set infos. ti_offset ti + ggml_nbytes ti \<le> sz)"
    using R(7) section_size_fits [of "length d - rd_offset r5" infos 0 sz] w5(2) by (simp add: data_section_size_def)
  moreover have "index_ok infos" using read_infos_ok [OF R(5)] by (simp add: index_ok_def)
  moreover have "distinct (map kv_key kvs)" using read_kvs_distinct [OF R(3)] by simp
  ultimately show ?thesis using alignment_bound [OF R(4)] w5(1) R(8) by auto
qed

end
