(* ===== verification/Gguf_Parts.thy ===== *)
theory Gguf_Parts
  imports Gguf_Read
begin

text \<open>Split files: which tensors go into which part, and the names of the parts.\<close>

section \<open>The assignment of tensors to parts\<close>

definition part_bytes :: "TensorSpec list \<Rightarrow> nat \<Rightarrow> nat list \<Rightarrow> nat" where
  "part_bytes specs a p = sum_list (map (\<lambda>j. ggml_pad (ts_nbytes (specs ! j)) a) p)"

definition part_ok :: "TensorSpec list \<Rightarrow> nat \<Rightarrow> nat \<Rightarrow> nat list \<Rightarrow> bool" where
  "part_ok specs a cap p \<longleftrightarrow> p \<noteq> [] \<and> part_bytes specs a p \<le> cap"

lemma split_loop_ok:
  assumes "split_loop a cap i rest parts cur cb = Ok parts'" "rest = drop i specs" "i \<le> length specs"
    "concat parts @ cur = [0..<i]" "list_all (part_ok specs a cap) parts" "cb = part_bytes specs a cur" "cb \<le> cap"
  shows "concat parts' = [0..<length specs] \<and> list_all (part_ok specs a cap) parts'"
  using assms
proof (induction rest arbitrary: i parts cur cb)
  case Nil
  then have "i = length specs" by simp
  then show ?case using Nil by (auto simp: part_ok_def split: if_splits)
next
  case (Cons s rest)
  let ?pad = "ggml_pad (ts_nbytes s) a"
  have "i < length specs" using Cons.prems(2) by (metis drop_eq_Nil leI list.discI)
  then have i: "Suc i \<le> length specs" "specs ! i = s" "rest = drop (Suc i) specs"
    using Cons.prems(2) Cons_nth_drop_Suc [of i specs] by (simp_all flip: Cons.prems(2))
  have cap: "?pad \<le> cap" using Cons.prems(1) by (auto simp: Let_def split: if_splits)
  have pi: "part_bytes specs a [i] = ?pad" by (simp add: part_bytes_def i)
  show ?case
  proof (cases "cur \<noteq> [] \<and> cap < cb + ?pad")
    case True
    then have l: "split_loop a cap (Suc i) rest (parts @ [cur]) [i] ?pad = Ok parts'"
      using Cons.prems(1) cap by (simp add: Let_def)
    have "concat (parts @ [cur]) @ [i] = [0..<Suc i]" using Cons.prems(4) by simp
    moreover have "list_all (part_ok specs a cap) (parts @ [cur])"
      using True Cons.prems(5-7) part_ok_def [of specs a cap cur] by simp
    ultimately show ?thesis by (rule Cons.IH [OF l i(3,1) _ _ pi [symmetric] cap])
  next
    case False
    then have l: "split_loop a cap (Suc i) rest parts (cur @ [i]) (cb + ?pad) = Ok parts'"
      using Cons.prems(1) cap by (auto simp: Let_def)
    have "cb + ?pad \<le> cap" using False cap Cons.prems(6) by (cases "cur = []") (auto simp: part_bytes_def)
    moreover have "cb + ?pad = part_bytes specs a (cur @ [i])" using Cons.prems(6) pi by (simp add: part_bytes_def)
    moreover have "concat parts @ cur @ [i] = [0..<Suc i]" using Cons.prems(4) by (simp flip: append_assoc)
    ultimately show ?thesis by (intro Cons.IH [OF l i(3,1) _ Cons.prems(5)])
  qed
qed

lemma split_loop_is_ok:
  "is_ok (split_loop a cap i rest parts cur cb) \<longleftrightarrow> (\<forall>s \<in> set rest. ggml_pad (ts_nbytes s) a \<le> cap)"
  by (induction a cap i rest parts cur cb rule: split_loop.induct) (auto simp: Let_def)

section \<open>Part names\<close>

lemma digits_value_snoc: "digits_value (ds @ [d]) = 10 * digits_value ds + (unat d - 0x30)"
  by (simp add: digits_value_def)

lemma ascii_append [simp]: "ascii (s @ t) = ascii s @ ascii t"
  by (simp add: ascii_def)

lemma length_ascii [simp]: "length (ascii s) = length s"
  by (simp add: ascii_def)

lemma ascii_digit: "m < 10 \<Longrightarrow> ascii [char_of (48 + m)] = [word_of_nat (48 + m)]"
  by (simp add: ascii_def)

lemma unat_digit: "m < 10 \<Longrightarrow> unat (48 + word_of_nat m :: byte) = 48 + m"
  using unat_byte_of_nat [of "48 + m"] by simp

lemma nat_to_string_digits:
  "list_all is_digit (ascii (nat_to_string n)) \<and> digits_value (ascii (nat_to_string n)) = n \<and> nat_to_string n \<noteq> []"
proof (induction n rule: nat_to_string.induct)
  case (1 n)
  show ?case
  proof (cases "n < 10")
    case True
    then show ?thesis
      using nat_to_string.simps [of n] by (simp add: ascii_digit is_digit_def unat_digit digits_value_def)
  next
    case False
    then have s: "nat_to_string n = nat_to_string (n div 10) @ [char_of (48 + n mod 10)]"
      using nat_to_string.simps [of n] by simp
    have "is_digit (48 + word_of_nat (n mod 10))" by (simp add: is_digit_def unat_digit)
    then have "list_all is_digit (ascii (nat_to_string n))"
      unfolding s using 1 [OF False] by (simp add: ascii_digit)
    moreover have "digits_value (ascii (nat_to_string n)) = 10 * (n div 10) + n mod 10"
      unfolding s using 1 [OF False] by (simp add: ascii_digit digits_value_snoc unat_digit)
    ultimately show ?thesis using s by simp
  qed
qed

lemma nat_to_string_length: "n < 10 ^ k \<Longrightarrow> 0 < k \<Longrightarrow> length (nat_to_string n) \<le> k"
proof (induction n arbitrary: k rule: nat_to_string.induct)
  case (1 n)
  show ?case
  proof (cases "n < 10")
    case True
    then show ?thesis using nat_to_string.simps [of n] "1.prems" by simp
  next
    case False
    then obtain k' where k: "k = Suc k'" "0 < k'" using "1.prems" by (cases k; cases "k - 1") auto
    have "n div 10 < 10 ^ k'" using "1.prems"(1) k(1) by (simp add: less_mult_imp_div_less mult.commute)
    from "1.IH" [OF False this k(2)] show ?thesis using nat_to_string.simps [of n] False k(1) by simp
  qed
qed

lemma digits_value_zeros: "digits_value (replicate k 0x30 @ ds) = digits_value ds"
proof -
  have "fold (\<lambda>d v. 10 * v + (unat d - 0x30)) (replicate k (0x30::byte)) 0 = 0" by (induction k) auto
  then show ?thesis by (simp add: digits_value_def)
qed

lemma pad5_ok:
  assumes "n \<le> 99999"
  shows "length (pad5 n) = 5" "list_all is_digit (pad5 n)" "parse_usize (pad5 n) = Some n"
proof -
  have l: "length (nat_to_string n) \<le> 5" using nat_to_string_length [of n 5] assms by simp
  then show len: "length (pad5 n) = 5" by (simp add: pad5_def Let_def)
  show dig: "list_all is_digit (pad5 n)"
    using nat_to_string_digits [of n] by (auto simp: pad5_def Let_def list_all_iff is_digit_def)
  have val: "digits_value (pad5 n) = n" using nat_to_string_digits [of n] by (simp add: pad5_def Let_def digits_value_zeros)
  obtain b bs where b: "pad5 n = b # bs" using len by (cases "pad5 n") auto
  have "b \<noteq> 0x2B" using dig b by (auto simp: is_digit_def)
  then show "parse_usize (pad5 n) = Some n"
    using dig val b assms by (simp add: parse_usize_def U64_MAX_def)
qed

text \<open>The last place of a pattern that does not occur again after it.\<close>

lemma rfind_last:
  assumes "\<And>k. 0 < k \<Longrightarrow> take (length pat) (drop k (pat @ y)) \<noteq> pat"
  shows "rfind (x @ pat @ y) pat = Some (length x)"
proof -
  let ?s = "x @ pat @ y"
  have e: "[0..<length ?s + 1 - length pat] = [0..<length x] @ length x # [Suc (length x)..<length ?s + 1 - length pat]"
    using upt_add_eq_append [of 0 "length x" "Suc (length y)"] by (simp add: upt_conv_Cons del: upt_Suc)
  have later: "take (length pat) (drop i ?s) \<noteq> pat" if "Suc (length x) \<le> i" for i
  proof -
    have "drop i ?s = drop (i - length x) (pat @ y)" using that by simp
    moreover have "0 < i - length x" using that by simp
    ultimately show ?thesis using assms [of "i - length x"] by simp
  qed
  have n: "filter (\<lambda>i. take (length pat) (drop i ?s) = pat) (rev [Suc (length x)..<length ?s + 1 - length pat]) = []"
    unfolding filter_empty_conv using later by (metis atLeastLessThan_iff set_rev set_upt)
  show ?thesis unfolding rfind_def e rev_append rev.simps filter_append n by simp
qed

lemma digit_not: "list_all is_digit y \<Longrightarrow> 0x2D \<notin> set y" "list_all is_digit y \<Longrightarrow> 0x6F \<notin> set y"
  by (auto simp: list_all_iff is_digit_def)

lemma ascii_marks: "ascii ''-'' = [0x2D]" "ascii ''-of-'' = [0x2D, 0x6F, 0x66, 0x2D]"
  by code_simp+

lemma digit_drop: "list_all is_digit y \<Longrightarrow> drop j y \<noteq> 0x2D # z"
  using digit_not(1) [of y] by (metis in_set_dropD list.set_intros(1))

lemma rfind_dash: "list_all is_digit y \<Longrightarrow> rfind (x @ ascii ''-'' @ y) (ascii ''-'') = Some (length x)"
proof (rule rfind_last)
  fix k :: nat
  assume y: "list_all is_digit y" and k: "0 < k"
  then obtain j where "k = Suc j" by (cases k) auto
  then show "take (length (ascii ''-'')) (drop k (ascii ''-'' @ y)) \<noteq> ascii ''-''"
    using digit_drop [OF y, of j] by (cases "drop j y") (auto simp: ascii_marks)
qed

lemma rfind_of: "list_all is_digit y \<Longrightarrow> rfind (x @ ascii ''-of-'' @ y) (ascii ''-of-'') = Some (length x)"
proof (rule rfind_last)
  fix k :: nat
  assume y: "list_all is_digit y" and k: "0 < k"
  have "k = 1 \<or> k = 2 \<or> k = 3 \<or> k = (k - 4) + 4" using k by arith
  then consider "k = 1" | "k = 2" | "k = 3" | j where "k = j + 4" by blast
  then show "take (length (ascii ''-of-'')) (drop k (ascii ''-of-'' @ y)) \<noteq> ascii ''-of-''"
  proof cases
    case 3
    then show ?thesis using digit_not(2) [OF y] by (cases y) (auto simp: ascii_marks)
  next
    case (4 j)
    then have "drop k (ascii ''-of-'' @ y) = drop j y" by (simp add: ascii_marks flip: drop_drop)
    then show ?thesis
      using digit_drop [OF y, of j] by (cases "drop j y") (auto simp: ascii_marks)
  qed (auto simp: ascii_marks)
qed

lemma strip_suffix_append: "strip_suffix (s @ t) t = Some s"
  by (simp add: strip_suffix_def)

lemma split_file_info_name:
  assumes "p < n" "n \<le> 99999"
  shows "split_file_info (part_name stem p n) = Some (stem, p, n)"
proof -
  let ?s = "(stem @ ascii ''-'' @ pad5 (p + 1)) @ ascii ''-of-'' @ pad5 n"
  have pads: "p + 1 \<le> 99999" using assms by simp
  note P = pad5_ok [OF pads] pad5_ok [OF assms(2)]
  have "strip_suffix (part_name stem p n) (ascii ''.gguf'') = Some ?s"
    using strip_suffix_append [of ?s "ascii ''.gguf''"] by (simp add: part_name_def)
  moreover have "rfind ?s (ascii ''-of-'') = Some (length (stem @ ascii ''-'' @ pad5 (p + 1)))"
    by (rule rfind_of [OF P(5)])
  moreover have "take (length (stem @ ascii ''-'' @ pad5 (p + 1))) ?s = stem @ ascii ''-'' @ pad5 (p + 1)" by simp
  moreover have "drop (length (stem @ ascii ''-'' @ pad5 (p + 1)) + 4) ?s = pad5 n" using P(1) by (simp add: ascii_marks numeral_eq_Suc)
  moreover have "rfind (stem @ ascii ''-'' @ pad5 (p + 1)) (ascii ''-'') = Some (length stem)"
    by (rule rfind_dash [OF P(2)])
  ultimately show ?thesis using P assms by (simp add: split_file_info_def ascii_marks)
qed

section \<open>The files of a split\<close>

lemma write_parts_files:
  assumes "write_parts stem kvs specs a data p n parts = Ok files"
  shows "map fst files = map (\<lambda>k. part_name stem (p + k) n) [0..<length parts] \<and>
    (\<forall>k < length parts. write_part (part_kvs kvs (p + k) n (length specs))
       (map (\<lambda>i. (i, specs ! i)) (parts ! k)) a data = Ok (snd (files ! k)))"
  using assms
proof (induction parts arbitrary: p files)
  case (Cons ids rest)
  then obtain f fs where F: "write_part (part_kvs kvs p n (length specs)) (map (\<lambda>i. (i, specs ! i)) ids) a data = Ok f"
    "write_parts stem kvs specs a data (p + 1) n rest = Ok fs" "files = (part_name stem p n, f) # fs"
    by (auto split: sum.splits)
  note IH = Cons.IH [OF F(2)]
  have "map fst files = map (\<lambda>k. part_name stem (p + k) n) [0..<length (ids # rest)]"
    using IH F(3) by (simp add: map_upt_Suc del: upt_Suc)
  moreover have "write_part (part_kvs kvs (p + k) n (length specs)) (map (\<lambda>i. (i, specs ! i)) ((ids # rest) ! k)) a data
      = Ok (snd (files ! k))" if "k < length (ids # rest)" for k
    using IH F that by (cases k) auto
  ultimately show ?case by blast
qed simp

lemma split_assignment_ok:
  assumes "split_assignment specs a cap = Ok parts"
  shows "concat parts = [0..<length specs]" "list_all (part_ok specs a cap) parts" "parts \<noteq> []"
proof -
  have s: "specs \<noteq> []" "split_loop a cap 0 specs [] [] 0 = Ok parts"
    using assms by (auto simp: split_assignment_def split: if_splits)
  have "concat parts = [0..<length specs] \<and> list_all (part_ok specs a cap) parts"
    by (rule split_loop_ok [OF s(2)]) (auto simp: part_bytes_def)
  then show "concat parts = [0..<length specs]" "list_all (part_ok specs a cap) parts" by auto
  then show "parts \<noteq> []" using s(1) by (auto dest: arg_cong [of _ _ length])
qed

lemma write_split_files:
  assumes "write_split stem kvs specs a cap data = Ok files" "1 < length files"
  obtains parts where "split_assignment specs a cap = Ok parts" "length parts = length files"
    "map fst files = map (\<lambda>k. part_name stem k (length files)) [0..<length files]"
    "\<And>k. k < length files \<Longrightarrow> write_part (part_kvs kvs k (length files) (length specs))
       (map (\<lambda>i. (i, specs ! i)) (parts ! k)) a data = Ok (snd (files ! k))"
proof -
  from assms obtain parts where P: "split_assignment specs a cap = Ok parts"
    "write_parts stem kvs specs a data 0 (length parts) parts = Ok files"
    by (auto simp: write_split_def split: if_splits sum.splits)
  note F = write_parts_files [OF P(2)]
  have l: "length parts = length files" using F by (metis length_map length_upt minus_nat.diff_0)
  show thesis using that [OF P(1) l] F l by simp
qed

lemma resolve_splits_name:
  assumes "0 < n" "n \<le> 99999"
  shows "resolve_splits (part_name stem 0 n) = Some (map (\<lambda>i. part_name stem i n) [0..<n])"
  by (simp add: resolve_splits_def split_file_info_name [OF assms])

section \<open>The metadata of a part\<close>

lemma kv_upsert_fresh: "kv_key new \<notin> kv_key ` set kvs \<Longrightarrow> kv_upsert kvs new = kvs @ [new]"
  by (induction kvs) auto

lemma split_keys_distinct:
  "distinct [KEY_SPLIT_NO, KEY_SPLIT_COUNT, KEY_SPLIT_TENSORS_COUNT, GGUF_KEY_GENERAL_ALIGNMENT]"
  by code_simp

lemma part_kvs_eq:
  "part_kvs kvs p n N = without_split kvs @ [new_u32 KEY_SPLIT_NO p, new_u32 KEY_SPLIT_COUNT n, new_u32 KEY_SPLIT_TENSORS_COUNT N]"
proof -
  let ?k = "without_split kvs"
  have k: "KEY_SPLIT_NO \<notin> kv_key ` set ?k" "KEY_SPLIT_COUNT \<notin> kv_key ` set ?k" "KEY_SPLIT_TENSORS_COUNT \<notin> kv_key ` set ?k"
    by (auto simp: without_split_def kv_remove_def)
  have "kv_upsert ?k (new_u32 KEY_SPLIT_NO p) = ?k @ [new_u32 KEY_SPLIT_NO p]"
    by (rule kv_upsert_fresh) (use k in \<open>simp add: new_u32_def\<close>)
  moreover have "kv_upsert (?k @ [new_u32 KEY_SPLIT_NO p]) (new_u32 KEY_SPLIT_COUNT n)
      = ?k @ [new_u32 KEY_SPLIT_NO p, new_u32 KEY_SPLIT_COUNT n]"
    by (subst kv_upsert_fresh) (use k split_keys_distinct in \<open>auto simp: new_u32_def\<close>)
  moreover have "kv_upsert (?k @ [new_u32 KEY_SPLIT_NO p, new_u32 KEY_SPLIT_COUNT n]) (new_u32 KEY_SPLIT_TENSORS_COUNT N)
      = ?k @ [new_u32 KEY_SPLIT_NO p, new_u32 KEY_SPLIT_COUNT n, new_u32 KEY_SPLIT_TENSORS_COUNT N]"
    by (subst kv_upsert_fresh) (use k split_keys_distinct in \<open>auto simp: new_u32_def\<close>)
  ultimately show ?thesis by (simp add: part_kvs_def)
qed

lemma find_key_from_range: "find_key_from i kvs key = - 1 \<or> (int i \<le> find_key_from i kvs key \<and> find_key_from i kvs key < int (i + length kvs))"
proof (induction kvs arbitrary: i)
  case (Cons kv kvs)
  from Cons [of "i + 1"] show ?case by auto
qed simp

lemma find_key_from_append:
  "key \<notin> kv_key ` set extra \<Longrightarrow> find_key_from i (kvs @ extra) key = find_key_from i kvs key"
  by (induction kvs arbitrary: i; induction extra arbitrary: i) auto

lemma read_alignment_append:
  assumes "GGUF_KEY_GENERAL_ALIGNMENT \<notin> kv_key ` set extra"
  shows "read_alignment (kvs @ extra) = read_alignment kvs"
proof -
  let ?i = "find_key kvs GGUF_KEY_GENERAL_ALIGNMENT"
  have i: "find_key (kvs @ extra) GGUF_KEY_GENERAL_ALIGNMENT = ?i"
    using find_key_from_append [OF assms] by (simp add: find_key_def)
  have "?i = - 1 \<or> (0 \<le> ?i \<and> ?i < int (length kvs))"
    using find_key_from_range [of 0 kvs] by (simp add: find_key_def)
  then show ?thesis
    by (auto simp: read_alignment_def i ctx_val_u32_def nth_append nat_less_iff)
qed

lemma new_u32_ok: "str_ok key \<Longrightarrow> kv_ok (new_u32 key v)"
  by (simp add: kv_ok_def new_u32_def)

lemma split_keys_ok: "str_ok KEY_SPLIT_NO" "str_ok KEY_SPLIT_COUNT" "str_ok KEY_SPLIT_TENSORS_COUNT"
  by code_simp+

lemma writable_part:
  assumes "writable (without_split kvs) specs a" "set ids \<subseteq> {..<length specs}" "length ids \<le> length specs"
    "length kvs + 3 \<le> U64_MAX div KV_STRUCT_BYTES"
  shows "writable (part_kvs kvs p n N) (map (\<lambda>i. specs ! i) ids) a"
proof -
  let ?k = "without_split kvs"
  have k: "KEY_SPLIT_NO \<notin> kv_key ` set ?k" "KEY_SPLIT_COUNT \<notin> kv_key ` set ?k" "KEY_SPLIT_TENSORS_COUNT \<notin> kv_key ` set ?k"
    by (auto simp: without_split_def kv_remove_def)
  have "length ?k \<le> length kvs"
    by (simp add: without_split_def kv_remove_def filter_filter length_filter_le)
  moreover have "list_all kv_ok (part_kvs kvs p n N)"
    using assms(1) new_u32_ok [OF split_keys_ok(1)] new_u32_ok [OF split_keys_ok(2)] new_u32_ok [OF split_keys_ok(3)]
    by (simp add: part_kvs_eq writable_def)
  moreover have "distinct (map kv_key (part_kvs kvs p n N))"
    using assms(1) k split_keys_distinct by (auto simp: part_kvs_eq writable_def new_u32_def)
  moreover have "read_alignment (part_kvs kvs p n N) = Done a"
    using assms(1) split_keys_distinct read_alignment_append
    by (auto simp: part_kvs_eq writable_def new_u32_def)
  moreover have "list_all spec_ok (map (\<lambda>i. specs ! i) ids)"
    using assms(1,2) by (auto simp: writable_def list_all_iff subset_iff)
  ultimately show ?thesis using assms by (simp add: writable_def part_kvs_eq)
qed

end
