(* ===== verification/Gguf_Props.thy ===== *)
theory Gguf_Props
  imports Gguf_Parts
begin

text \<open>
  The properties of the GGUF reader and writer: what is written is read back, alone and in
  parts; what the reader accepts stays inside the file; how tensors are assigned to parts; where
  the reader panics on a malformed file; and how its table of block sizes agrees with the block
  structures of \<open>src/block.rs\<close>.
\<close>

section \<open>Block structures\<close>

text \<open>The fields of the \<open>repr(C)\<close> structures of \<open>src/block.rs\<close>: how many elements of how many bytes.\<close>

definition block_fields :: "GgmlType \<Rightarrow> (nat \<times> nat) list option" where
  "block_fields t =
     (case t of
        Q4_0 \<Rightarrow> Some [(1, 2), (16, 1)]
      | Q4_1 \<Rightarrow> Some [(1, 2), (1, 2), (16, 1)]
      | Q5_0 \<Rightarrow> Some [(1, 2), (4, 1), (16, 1)]
      | Q5_1 \<Rightarrow> Some [(1, 2), (1, 2), (4, 1), (16, 1)]
      | Q8_0 \<Rightarrow> Some [(1, 2), (32, 1)]
      | Q8_1 \<Rightarrow> Some [(1, 2), (1, 2), (32, 1)]
      | Q2_K \<Rightarrow> Some [(16, 1), (64, 1), (1, 2), (1, 2)]
      | Q3_K \<Rightarrow> Some [(32, 1), (64, 1), (12, 1), (1, 2)]
      | Q4_K \<Rightarrow> Some [(1, 2), (1, 2), (12, 1), (128, 1)]
      | Q5_K \<Rightarrow> Some [(1, 2), (1, 2), (12, 1), (32, 1), (128, 1)]
      | Q6_K \<Rightarrow> Some [(128, 1), (64, 1), (16, 1), (1, 2)]
      | Q8_K \<Rightarrow> Some [(1, 4), (256, 1), (16, 2)]
      | Q1_0 \<Rightarrow> Some [(1, 2), (16, 1)]
      | _ \<Rightarrow> None)"

text \<open>The size of a \<open>repr(C)\<close> structure: every field at a multiple of its element's size.\<close>

definition size_of_fields :: "(nat \<times> nat) list \<Rightarrow> nat" where
  "size_of_fields fs =
     (let up = (\<lambda>n a. (n + a - 1) div a * a) in
      up (fold (\<lambda>(n, sz) off. up off sz + n * sz) fs 0) (fold (\<lambda>(_, sz) m. max sz m) fs 1))"

section \<open>A part\<close>


section \<open>Reading and writing\<close>

text \<open>
  C34: a file \<open>write_single\<close> writes is parsed by \<open>init_from_data\<close> to the version, the metadata
  without the split keys, the alignment, and one index entry per tensor at its offset; the bytes
  there are those the provider delivered.
\<close>

theorem gguf_round_trip:
  assumes "write_single kvs specs a data = Ok bs" "writable (without_split kvs) specs a" "length bs < 2 ^ 63"
  shows "\<exists>ctx. init_from_data bs = Done ctx \<and> gc_version ctx = GGUF_VERSION \<and>
    gc_kv ctx = without_split kvs \<and> gc_alignment ctx = a \<and>
    gc_info ctx = map (\<lambda>(s, off). info_of s off) (zip specs (payload_offsets a 0 specs)) \<and>
    (\<forall>k < length specs. take (ts_nbytes (specs ! k)) (drop (gc_offset ctx + ti_offset (gc_info ctx ! k)) bs) =
      concat (fst (data k)))"
proof -
  let ?ts = "zip [0..<length specs] specs"
  have "map snd ?ts = specs" by simp
  with write_part_parses [of "without_split kvs" ?ts a data bs] assms show ?thesis
    by (simp add: write_single_def)
qed

theorem gguf_round_trip_witness:
  "\<exists>bs ctx. write_single [new_string (ascii ''general.name'') (ascii ''tiny'')]
       [\<lparr>ts_name = ascii ''w'', ts_ne = [2, 1, 1, 1], ts_type = F32\<rparr>, \<lparr>ts_name = ascii ''b'', ts_ne = [1, 1, 1, 1], ts_type = F16\<rparr>]
       32 (\<lambda>i. (if i = 0 then [[1, 2, 3], [4, 5, 6, 7, 8]] else [[9, 10]], True)) = Ok bs \<and>
     init_from_data bs = Done ctx \<and> length (gc_info ctx) = 2 \<and>
     take 2 (drop (gc_offset ctx + ti_offset (gc_info ctx ! 1)) bs) = [9, 10]"
proof -
  let ?kvs = "[new_string (ascii ''general.name'') (ascii ''tiny'')]"
  let ?specs = "[\<lparr>ts_name = ascii ''w'', ts_ne = [2, 1, 1, 1], ts_type = F32\<rparr>, \<lparr>ts_name = ascii ''b'', ts_ne = [1, 1, 1, 1], ts_type = F16\<rparr>]"
  let ?data = "\<lambda>i::nat. (if i = 0 then [[1, 2, 3], [4, 5, 6, 7, 8]] else [[9, 10 :: byte]], True)"
  have "case write_single ?kvs ?specs 32 ?data of Inr f \<Rightarrow> length f < 2 ^ 63 | Inl _ \<Rightarrow> False" by code_simp
  then obtain bs where f: "write_single ?kvs ?specs 32 ?data = Ok bs" "length bs < 2 ^ 63" by (auto split: sum.splits)
  have w: "writable (without_split ?kvs) ?specs 32" by code_simp
  from gguf_round_trip [OF f(1) w f(2)] obtain ctx where C: "init_from_data bs = Done ctx"
    "gc_info ctx = map (\<lambda>(s, off). info_of s off) (zip ?specs (payload_offsets 32 0 ?specs))"
    "\<forall>k < length ?specs. take (ts_nbytes (?specs ! k)) (drop (gc_offset ctx + ti_offset (gc_info ctx ! k)) bs) = concat (fst (?data k))"
    by blast
  have "ts_nbytes (?specs ! 1) = 2" by code_simp
  with C(3) [rule_format, of 1] have "take 2 (drop (gc_offset ctx + ti_offset (gc_info ctx ! 1)) bs) = [9, 10]" by simp
  moreover have "length (gc_info ctx) = 2" unfolding C(2) by simp
  ultimately show ?thesis using f(1) C(1) by blast
qed


text \<open>A file with one tensor of three bytes.\<close>

definition sample_file :: "byte list" where
  "sample_file =
     GGUF_MAGIC @ le_bytes 4 3 @ le_bytes 8 1 @ le_bytes 8 1
     @ le_bytes 8 1 @ ascii ''k'' @ le_bytes 4 7 @ [1]
     @ le_bytes 8 1 @ ascii ''t'' @ le_bytes 4 1 @ le_bytes 8 3 @ le_bytes 4 24 @ le_bytes 8 0
     @ replicate 25 0 @ [7, 8, 9]"

lemma sample_file_parses:
  "case init_from_data sample_file of Done ctx \<Rightarrow> length (gc_info ctx) = 1 \<and> gc_offset ctx = 96 | _ \<Rightarrow> False"
  by code_simp


text \<open>
  For every tensor of a parsed file the byte count from the strides (\<open>ggml_nbytes\<close>), the one
  from the element count (\<open>GgufTensorInfo::nbytes\<close>) and the one the writer reserves
  (\<open>TensorSpec::nbytes\<close>) are the same.
\<close>

lemma gguf_sizes_agree:
  assumes "init_from_data d = Done ctx" "ti \<in> set (gc_info ctx)"
  shows "ggml_nbytes ti = ti_nbytes ti \<and>
    ti_nbytes ti = ts_nbytes \<lparr>ts_name = ti_name ti, ts_ne = ti_ne ti, ts_type = ti_type ti\<rparr>"
proof -
  from init_ok [OF assms(1)] assms(2) obtain s where s: "spec_ok s" "ti = info_of s (ti_offset ti)"
    unfolding index_ok_def by blast
  have "\<lparr>ts_name = ti_name ti, ts_ne = ti_ne ti, ts_type = ti_type ti\<rparr> = s"
    using arg_cong [OF s(2), of ti_name] arg_cong [OF s(2), of ti_ne] arg_cong [OF s(2), of ti_type]
    by (simp add: info_of_def)
  with nbytes_agree [OF s(1), of "ti_offset ti"] s(2) show ?thesis by simp
qed

lemma gguf_sizes_agree_witness:
  "\<exists>ctx ti. init_from_data sample_file = Done ctx \<and> gc_info ctx = [ti] \<and> ggml_nbytes ti = ti_nbytes ti"
proof -
  obtain ctx where c: "init_from_data sample_file = Done ctx" "length (gc_info ctx) = 1"
    using sample_file_parses by (auto split: outcome.splits)
  then obtain ti where t: "gc_info ctx = [ti]" by (auto simp: length_Suc_conv)
  then show ?thesis using gguf_sizes_agree [OF c(1), of ti] c(1) by simp
qed

section \<open>Parts\<close>

text \<open>
  \<open>split_assignment\<close> succeeds exactly when there is a tensor and every padded tensor fits the
  cap; its parts hold every tensor once, in order, none is empty and none exceeds the cap.
\<close>

lemma split_assignment_correct:
  "is_ok (split_assignment specs a cap) = (specs \<noteq> [] \<and> list_all (\<lambda>s. ggml_pad (ts_nbytes s) a \<le> cap) specs) \<and>
   (case split_assignment specs a cap of
      Inl _ \<Rightarrow> True
    | Inr parts \<Rightarrow> concat parts = [0..<length specs] \<and> list_all (part_ok specs a cap) parts)"
proof -
  have "is_ok (split_assignment specs a cap) = (specs \<noteq> [] \<and> list_all (\<lambda>s. ggml_pad (ts_nbytes s) a \<le> cap) specs)"
    by (simp add: split_assignment_def split_loop_is_ok list_all_iff)
  then show ?thesis using split_assignment_ok [of specs a cap] by (auto split: sum.splits)
qed



section \<open>Malformed files\<close>

text \<open>
  A tensor whose second extent is zero, a tensor of an unknown type, a metadata pair of an
  unknown type and an alignment of another type than \<open>u32\<close> make the reader panic; a truncated
  file and a wrong magic are refused.
\<close>

lemma gguf_malformed_panics:
  "init_from_data (GGUF_MAGIC @ le_bytes 4 3 @ le_bytes 8 1 @ le_bytes 8 0
     @ le_bytes 8 1 @ ascii ''t'' @ le_bytes 4 2 @ le_bytes 8 3 @ le_bytes 8 0 @ le_bytes 4 24 @ le_bytes 8 0) = Panicked \<and>
   init_from_data (GGUF_MAGIC @ le_bytes 4 3 @ le_bytes 8 1 @ le_bytes 8 0
     @ le_bytes 8 1 @ ascii ''t'' @ le_bytes 4 1 @ le_bytes 8 3 @ le_bytes 4 99 @ le_bytes 8 0) = Panicked \<and>
   init_from_data (GGUF_MAGIC @ le_bytes 4 3 @ le_bytes 8 0 @ le_bytes 8 1
     @ le_bytes 8 1 @ ascii ''k'' @ le_bytes 4 13) = Panicked \<and>
   init_from_data (GGUF_MAGIC @ le_bytes 4 3 @ le_bytes 8 0 @ le_bytes 8 1
     @ le_bytes 8 17 @ GGUF_KEY_GENERAL_ALIGNMENT @ le_bytes 4 0 @ [32]) = Panicked \<and>
   init_from_data (take 40 sample_file) = Refused \<and>
   init_from_data (ascii ''GGUX'' @ drop 4 sample_file) = Refused"
  by code_simp

section \<open>Block sizes\<close>

text \<open>
  Of the types with a block structure, \<open>GgmlType::type_size\<close> is the size of the structure
  for all but \<open>Q2_K\<close>, \<open>Q8_K\<close> and \<open>Q1_0\<close>, where it is smaller.
\<close>

lemma type_size_vs_blocks:
  "(case block_fields t of
      None \<Rightarrow> True
    | Some fs \<Rightarrow> (if t \<in> {Q2_K, Q8_K, Q1_0} then ggml_type_size t < size_of_fields fs
                 else ggml_type_size t = size_of_fields fs))"
  by (induction t) code_simp+

end
