(* ===== verification/Sampler.thy ===== *)
theory Sampler
  imports Prelude
begin

text \<open>
  The sampler (\<open>src/sampler.rs\<close>): the penalties, the DRY repetition filter, the filters that mask
  candidates, the two mirostat variants and the pipeline that composes them. The arithmetic of
  \<open>f32\<close> and \<open>f64\<close> and the random number generator are parameters: \<open>flt\<close> names the operations of
  one floating-point type the source uses, \<open>fp\<close> the two types and the casts between them, and
  \<open>gen\<close> is \<open>rng.gen::<f32>()\<close>. The compiled grammar of a request is a parameter too (\<open>Gr\<close>).
  Token ids and counts are natural numbers, the DRY tables integers as in the source.
\<close>

section \<open>Floating-point numbers\<close>

record 'n flt =
  n_add :: "'n \<Rightarrow> 'n \<Rightarrow> 'n"
  n_sub :: "'n \<Rightarrow> 'n \<Rightarrow> 'n"
  n_mul :: "'n \<Rightarrow> 'n \<Rightarrow> 'n"
  n_div :: "'n \<Rightarrow> 'n \<Rightarrow> 'n"
  n_lt :: "'n \<Rightarrow> 'n \<Rightarrow> bool"
  n_le :: "'n \<Rightarrow> 'n \<Rightarrow> bool"
  n_eq :: "'n \<Rightarrow> 'n \<Rightarrow> bool"
  n_max :: "'n \<Rightarrow> 'n \<Rightarrow> 'n"
  n_min :: "'n \<Rightarrow> 'n \<Rightarrow> 'n"
  n_neg :: "'n \<Rightarrow> 'n"
  n_abs :: "'n \<Rightarrow> 'n"
  n_exp :: "'n \<Rightarrow> 'n"
  n_ln :: "'n \<Rightarrow> 'n"
  n_log2 :: "'n \<Rightarrow> 'n"
  n_powi :: "'n \<Rightarrow> int \<Rightarrow> 'n"
  n_powf :: "'n \<Rightarrow> 'n \<Rightarrow> 'n"
  n_ninf :: 'n
  n_inf :: 'n
  n_finite :: "'n \<Rightarrow> bool"
  n_of_nat :: "nat \<Rightarrow> 'n"
  n_trunc :: "'n \<Rightarrow> int"
  n_total :: "'n \<Rightarrow> int"
  n_lit :: "int \<Rightarrow> nat \<Rightarrow> 'n"

text \<open>
  \<open>n_lit a e\<close> is the literal \<open>a / 10 ^ e\<close>, \<open>n_trunc\<close> the cast to an integer, and \<open>n_total\<close> a rank
  in the order of \<open>total_cmp\<close>.
\<close>

record ('f, 'd) fp =
  fp32 :: "'f flt"
  fp64 :: "'d flt"
  fp_up :: "'f \<Rightarrow> 'd"
  fp_down :: "'d \<Rightarrow> 'f"

definition n_nat :: "'n flt \<Rightarrow> nat \<Rightarrow> 'n" where
  "n_nat N k = n_lit N (int k) 0"

definition n_sum :: "'n flt \<Rightarrow> 'n list \<Rightarrow> 'n" where
  "n_sum N xs = foldl (n_add N) (n_nat N 0) xs"

text \<open>\<open>a < 1e-6\<close>, the test for a switched-off term.\<close>

definition n_tiny :: "'n flt \<Rightarrow> 'n \<Rightarrow> bool" where
  "n_tiny N x \<longleftrightarrow> n_lt N x (n_lit N 1 6)"

section \<open>Greedy choice, penalties, windows and stop strings\<close>

text \<open>The loops of \<open>sample_greedy\<close> and of \<open>argmax\<close>: the first of the largest values.\<close>

fun argmax_loop :: "'n flt \<Rightarrow> nat \<Rightarrow> 'n \<Rightarrow> nat \<Rightarrow> 'n list \<Rightarrow> nat" where
  "argmax_loop N best bv i [] = best"
| "argmax_loop N best bv i (v # vs) =
     (if n_lt N bv v then argmax_loop N i v (i + 1) vs else argmax_loop N best bv (i + 1) vs)"

definition sample_greedy :: "'n flt \<Rightarrow> 'n list \<Rightarrow> nat option" where
  "sample_greedy N logits =
     (case logits of [] \<Rightarrow> None | v # _ \<Rightarrow> Some (argmax_loop N 0 v 0 logits))"

definition penalise :: "'n flt \<Rightarrow> 'n \<Rightarrow> 'n \<Rightarrow> 'n \<Rightarrow> nat \<Rightarrow> 'n \<Rightarrow> 'n" where
  "penalise N rpt frequency presence c v =
     (let nv = (if \<not> n_tiny N (n_abs N frequency) \<or> \<not> n_tiny N (n_abs N presence)
                then (let a = n_sub N v (n_mul N (n_of_nat N c) frequency) in
                      if 0 < c then n_sub N a presence else a)
                else v)
      in if \<not> n_tiny N (n_abs N (n_sub N rpt (n_nat N 1))) \<and> n_le N (n_nat N 1) rpt
         then if n_le N nv (n_nat N 0) then n_mul N nv rpt else n_div N nv rpt
         else nv)"

text \<open>Every distinct token of the window once, with its count; the order of the map is immaterial.\<close>

definition apply_penalties :: "'n flt \<Rightarrow> 'n list \<Rightarrow> nat list \<Rightarrow> 'n \<Rightarrow> 'n \<Rightarrow> 'n \<Rightarrow> 'n list" where
  "apply_penalties N logits prev_tokens rpt frequency presence =
     (if n_tiny N (n_abs N (n_sub N rpt (n_nat N 1))) \<and> n_tiny N (n_abs N frequency) \<and> n_tiny N (n_abs N presence)
      then logits
      else fold (\<lambda>t l. if length l \<le> t then l
                       else l[t := penalise N rpt frequency presence (count_list prev_tokens t) (l ! t)])
             (remdups prev_tokens) logits)"

definition recent_window :: "'a list \<Rightarrow> nat \<Rightarrow> 'a list" where
  "recent_window tokens last_n = drop (length tokens - last_n) tokens"

definition stop_step :: "8 word list \<Rightarrow> 8 word list \<Rightarrow> nat option \<Rightarrow> nat option" where
  "stop_step buf s best =
     (if s = [] \<or> length buf < length s then best
      else if drop (length buf - length s) buf = s
      then Some (case best of None \<Rightarrow> length buf - length s | Some b \<Rightarrow> min b (length buf - length s))
      else best)"

definition match_stop_suffix :: "8 word list \<Rightarrow> 8 word list list \<Rightarrow> nat option" where
  "match_stop_suffix buf stops = fold (stop_step buf) stops None"

definition REPEAT_LAST_N :: nat where
  "REPEAT_LAST_N = 64"

section \<open>Filters\<close>

text \<open>\<open>sort_by\<close> with a descending comparison of the values: stable.\<close>

fun insort_desc :: "'n flt \<Rightarrow> ('a \<times> 'n) \<Rightarrow> ('a \<times> 'n) list \<Rightarrow> ('a \<times> 'n) list" where
  "insort_desc N x [] = [x]"
| "insort_desc N x (y # ys) = (if n_lt N (snd x) (snd y) then y # insort_desc N x ys else x # y # ys)"

definition sort_desc :: "'n flt \<Rightarrow> ('a \<times> 'n) list \<Rightarrow> ('a \<times> 'n) list" where
  "sort_desc N xs = foldr (insort_desc N) xs []"

fun insort_asc :: "'n flt \<Rightarrow> ('a \<times> 'n) \<Rightarrow> ('a \<times> 'n) list \<Rightarrow> ('a \<times> 'n) list" where
  "insort_asc N x [] = [x]"
| "insort_asc N x (y # ys) = (if n_lt N (snd y) (snd x) then y # insort_asc N x ys else x # y # ys)"

definition sort_asc :: "'n flt \<Rightarrow> ('a \<times> 'n) list \<Rightarrow> ('a \<times> 'n) list" where
  "sort_asc N xs = foldr (insort_asc N) xs []"

definition mask_ids :: "'n flt \<Rightarrow> nat list \<Rightarrow> 'n list \<Rightarrow> 'n list" where
  "mask_ids N ids logits = fold (\<lambda>i l. l[i := n_ninf N]) ids logits"

definition apply_top_k :: "'n flt \<Rightarrow> 'n list \<Rightarrow> nat \<Rightarrow> 'n list" where
  "apply_top_k N logits k =
     (if k = 0 \<or> length logits \<le> k then logits
      else (let threshold = rev (sort_key (n_total N) logits) ! (k - 1) in
            map (\<lambda>v. if n_lt N v threshold then n_ninf N else v) logits))"

definition survivors_of :: "'n flt \<Rightarrow> 'n list \<Rightarrow> (nat \<times> 'n) list" where
  "survivors_of N logits = filter (\<lambda>(_, v). n_lt N (n_ninf N) v) (zip [0..<length logits] logits)"

definition max_of :: "'n flt \<Rightarrow> 'n list \<Rightarrow> 'n" where
  "max_of N vs = foldl (n_max N) (n_ninf N) vs"

definition exp_sum :: "('f, 'd) fp \<Rightarrow> 'f \<Rightarrow> 'f list \<Rightarrow> 'd" where
  "exp_sum F m vs = n_sum (fp64 F) (map (\<lambda>v. n_exp (fp64 F) (fp_up F (n_sub (fp32 F) v m))) vs)"

text \<open>The number of leading candidates whose running sum first exceeds \<open>p\<close>; all of them otherwise.\<close>

fun keep_until :: "'n flt \<Rightarrow> 'n \<Rightarrow> nat \<Rightarrow> 'n \<Rightarrow> 'n list \<Rightarrow> nat" where
  "keep_until N p i acc [] = i"
| "keep_until N p i acc (x # xs) =
     (let c = n_add N acc x in if n_lt N p c then i + 1 else keep_until N p (i + 1) c xs)"

definition nucleus :: "('f, 'd) fp \<Rightarrow> 'f \<Rightarrow> (nat \<times> 'f) list \<Rightarrow> 'f list \<Rightarrow> 'f list" where
  "nucleus F p live logits =
     (let N = fp32 F; m = max_of N (map snd live); sm = exp_sum F m (map snd live);
          cand = sort_desc N (map (\<lambda>(i, v). (i, n_div N (n_exp N (n_sub N v m)) (fp_down F sm))) live);
          keep = keep_until N p 0 (n_nat N 0) (map snd cand)
      in mask_ids N (map fst (drop keep cand)) logits)"

definition apply_top_p_full :: "('f, 'd) fp \<Rightarrow> 'f list \<Rightarrow> 'f \<Rightarrow> 'f list" where
  "apply_top_p_full F logits p = nucleus F p (zip [0..<length logits] logits) logits"

definition apply_top_p :: "('f, 'd) fp \<Rightarrow> 'f list \<Rightarrow> 'f \<Rightarrow> 'f list" where
  "apply_top_p F logits p =
     (let N = fp32 F; live = survivors_of N logits in
      if n_le N p (n_nat N 0) \<or> n_le N (n_nat N 1) p then logits
      else if live = [] then logits
      else if 1024 < length live then apply_top_p_full F logits p
      else nucleus F p live logits)"

definition softmax_desc :: "('f, 'd) fp \<Rightarrow> 'f list \<Rightarrow> (nat \<times> 'f) list" where
  "softmax_desc F logits =
     (let N = fp32 F; live = survivors_of N logits; m = max_of N (map snd live); sm = exp_sum F m (map snd live) in
      if live = [] then []
      else sort_desc N
        (map (\<lambda>(i, v). (i, fp_down F (n_div (fp64 F) (n_exp (fp64 F) (fp_up F (n_sub N v m))) sm))) live))"

text \<open>The largest finite logit and its index, the first one of equals.\<close>

fun best_finite :: "'n flt \<Rightarrow> nat \<Rightarrow> 'n list \<Rightarrow> (nat \<times> 'n) option \<Rightarrow> (nat \<times> 'n) option" where
  "best_finite N i [] best = best"
| "best_finite N i (v # vs) best =
     best_finite N (i + 1) vs
       (if n_finite N v \<and> (case best of None \<Rightarrow> True | Some (_, b) \<Rightarrow> n_lt N b v) then Some (i, v) else best)"

definition apply_min_p :: "'n flt \<Rightarrow> 'n list \<Rightarrow> 'n \<Rightarrow> 'n list" where
  "apply_min_p N logits p =
     (if n_le N p (n_nat N 0) then logits
      else case best_finite N 0 logits None of
             None \<Rightarrow> logits
           | Some (best_id, max_logit) \<Rightarrow>
               (let min_logit = n_add N max_logit (n_ln N p);
                    l = map (\<lambda>v. if n_le N min_logit v then v else n_ninf N) logits
                in if \<not> list_ex (n_le N min_logit) logits then l[best_id := max_logit] else l))"

definition apply_typical :: "('f, 'd) fp \<Rightarrow> 'f list \<Rightarrow> 'f \<Rightarrow> 'f list" where
  "apply_typical F logits p =
     (let N = fp32 F; D = fp64 F; cand = softmax_desc F logits in
      if n_le N (n_nat N 1) p \<or> length cand \<le> 1 then logits
      else (let entropy = n_sum D (map (\<lambda>(_, pr). let q = fp_up F pr in
                  if n_lt D (n_nat D 0) q then n_mul D (n_neg D q) (n_ln D q) else n_nat D 0) cand);
                order = map fst (sort_asc D (map (\<lambda>c. (c, n_abs D (n_sub D (n_neg D (n_ln D (fp_up F (snd c)))) entropy))) cand));
                keep = keep_until D (fp_up F p) 0 (n_nat D 0) (map (\<lambda>c. fp_up F (snd c)) order);
                kept = map fst (take keep order)
            in map (\<lambda>(i, v). if i \<in> set kept then v else n_ninf N) (zip [0..<length logits] logits)))"

text \<open>\<open>pos_last\<close>: the last of the leading candidates at or above the threshold, 0 if there is none.\<close>

fun xtc_last :: "'n flt \<Rightarrow> 'n \<Rightarrow> nat \<Rightarrow> nat \<Rightarrow> 'n list \<Rightarrow> nat" where
  "xtc_last N threshold pos_last i [] = pos_last"
| "xtc_last N threshold pos_last i (p # ps) =
     (if n_le N threshold p then xtc_last N threshold i (i + 1) ps else pos_last)"

definition apply_xtc ::
  "('f, 'd) fp \<Rightarrow> ('r \<Rightarrow> 'f \<times> 'r) \<Rightarrow> 'f list \<Rightarrow> 'f \<Rightarrow> 'f \<Rightarrow> 'r \<Rightarrow> 'f list \<times> 'r" where
  "apply_xtc F gen logits probability threshold rng =
     (let N = fp32 F; cand = softmax_desc F logits in
      if n_le N probability (n_nat N 0) \<or> n_lt N (n_lit N 5 1) threshold then (logits, rng)
      else if length cand < 2 then (logits, rng)
      else (case gen rng of
              (chance, rng') \<Rightarrow>
                if n_lt N probability chance then (logits, rng')
                else (mask_ids N (map fst (take (xtc_last N threshold 0 0 (map snd cand)) cand)) logits, rng')))"

section \<open>DRY\<close>

text \<open>\<open>rat i\<close>: the token \<open>i\<close> places before the end.\<close>

definition rat :: "nat list \<Rightarrow> nat \<Rightarrow> nat" where
  "rat tokens i = tokens ! (length tokens - 1 - i)"

definition breaker_at :: "nat list \<Rightarrow> nat \<Rightarrow> nat list \<Rightarrow> bool" where
  "breaker_at tokens i b =
     (case b of
        [] \<Rightarrow> False
      | h # tail \<Rightarrow> h = rat tokens i \<and> length tail \<le> i \<and>
          list_all (\<lambda>j. tail ! j = rat tokens (i - j - 1)) [0..<length tail])"

text \<open>Step 1: the first breaker, scanning backwards, limits how far a repetition may reach.\<close>

fun restart_limit :: "nat list \<Rightarrow> nat list list \<Rightarrow> nat \<Rightarrow> nat list \<Rightarrow> nat" where
  "restart_limit tokens breakers last_n [] = last_n"
| "restart_limit tokens breakers last_n (i # is) =
     (case find (breaker_at tokens i) breakers of
        Some b \<Rightarrow> i - (length b - 1)
      | None \<Rightarrow> restart_limit tokens breakers last_n is)"

text \<open>Step 2: the two loops of the reverse Z-algorithm that compare tokens.\<close>

function count_matches :: "nat list \<Rightarrow> nat \<Rightarrow> nat \<Rightarrow> nat \<Rightarrow> nat" where
  "count_matches tokens last_n k n =
     (if n + k < last_n \<and> rat tokens n = rat tokens (n + k) then count_matches tokens last_n k (n + 1) else n)"
  by pat_completeness auto
termination
  by (relation "measure (\<lambda>(_, last_n, k, n). last_n - (n + k))") auto

function match_end :: "nat list \<Rightarrow> nat \<Rightarrow> nat \<Rightarrow> nat \<Rightarrow> nat" where
  "match_end tokens last_n k i =
     (if i < last_n \<and> rat tokens i = rat tokens (i - k) then match_end tokens last_n k (i + 1) else i)"
  by pat_completeness auto
termination
  by (relation "measure (\<lambda>(_, last_n, _, i). last_n - i)") auto

declare count_matches.simps [simp del] match_end.simps [simp del]

text \<open>The state of the loop: the counts, the right and the left end of the window.\<close>

definition z_step :: "nat list \<Rightarrow> nat \<Rightarrow> nat \<Rightarrow> nat \<Rightarrow> int list \<times> int \<times> int \<Rightarrow> int list \<times> int \<times> int" where
  "z_step tokens last_n rep_limit k st =
     (case st of
        (repeat_count, rt, lt) \<Rightarrow>
          (let last = last_n - 1 in
           if rt < int k
           then (let n = count_matches tokens last_n k 0;
                     rc = repeat_count[last - k := min (int n) (int rep_limit)]
                 in if 0 < n then (rc, int (k + n - 1), int k) else (rc, rt, lt))
           else (let p = int k - lt; right_part_len = rt - int k + 1; c = repeat_count ! (last - nat p) in
                 if c < right_part_len then (repeat_count[last - k := min c (int rep_limit)], rt, lt)
                 else (let i = match_end tokens last_n k (nat (rt + 1)) in
                       (repeat_count[last - k := min (int (i - k)) (int rep_limit)], int (i - 1), int k)))))"

definition repeat_counts :: "nat list \<Rightarrow> nat \<Rightarrow> nat \<Rightarrow> int list" where
  "repeat_counts tokens last_n rep_limit =
     fst (fold (z_step tokens last_n rep_limit) [1..<last_n] (replicate last_n 0, 0, 0))"

text \<open>Step 3: the longest repeat each token would extend.\<close>

definition repeat_step ::
  "nat list \<Rightarrow> nat \<Rightarrow> nat \<Rightarrow> int list \<Rightarrow> nat \<Rightarrow> (nat \<rightharpoonup> int) \<Rightarrow> (nat \<rightharpoonup> int)" where
  "repeat_step tokens last_n allowed_length repeat_count i m =
     (let repeat_len = repeat_count ! i in
      if int allowed_length \<le> repeat_len
      then (let token = rat tokens (last_n - 2 - i); e = (case m token of None \<Rightarrow> 0 | Some e \<Rightarrow> e) in
            m(token \<mapsto> (if e < repeat_len then repeat_len else e)))
      else m)"

definition max_token_repeat :: "nat list \<Rightarrow> nat \<Rightarrow> nat \<Rightarrow> int list \<Rightarrow> (nat \<rightharpoonup> int)" where
  "max_token_repeat tokens last_n allowed_length repeat_count =
     fold (repeat_step tokens last_n allowed_length repeat_count) [0..<last_n - 1] Map.empty"

definition dry_exponent :: "'n flt \<Rightarrow> 'n \<Rightarrow> nat \<Rightarrow> int \<Rightarrow> int" where
  "dry_exponent N base allowed_length repeat_len =
     (let max_exponent = (if n_lt N (n_lit N 1000001 6) base
                          then n_trunc N (n_div N (n_lit N 8872284 5) (n_ln N base)) else 0);
          repeat_exp = repeat_len - int allowed_length
      in if 0 < max_exponent \<and> max_exponent < repeat_exp then max_exponent else repeat_exp)"

text \<open>Step 4: the penalty; a breaker of one token is exempt.\<close>

definition dry_penalise ::
  "'n flt \<Rightarrow> 'n \<Rightarrow> 'n \<Rightarrow> nat \<Rightarrow> nat list list \<Rightarrow> (nat \<rightharpoonup> int) \<Rightarrow> nat \<Rightarrow> 'n \<Rightarrow> 'n" where
  "dry_penalise N multiplier base allowed_length breakers m token v =
     (if \<not> n_finite N v then v
      else case m token of
             None \<Rightarrow> v
           | Some repeat_len \<Rightarrow>
               if [token] \<in> set breakers then v
               else n_sub N v (n_mul N multiplier (n_powi N base (dry_exponent N base allowed_length repeat_len))))"

definition apply_dry ::
  "'n flt \<Rightarrow> 'n list \<Rightarrow> nat list \<Rightarrow> 'n \<Rightarrow> 'n \<Rightarrow> nat \<Rightarrow> nat \<Rightarrow> nat list list \<Rightarrow> 'n list" where
  "apply_dry N logits tokens multiplier base allowed_length penalty_last_n breakers =
     (if n_eq N multiplier (n_nat N 0) \<or> n_lt N base (n_nat N 1) \<or> penalty_last_n = 0 then logits
      else (let last_n = min (length tokens) penalty_last_n in
            if last_n \<le> allowed_length then logits
            else (let rep_limit = restart_limit tokens breakers last_n [0..<last_n] in
                  if rep_limit < allowed_length then logits
                  else (let m = max_token_repeat tokens last_n allowed_length (repeat_counts tokens last_n rep_limit) in
                        map (\<lambda>(i, v). dry_penalise N multiplier base allowed_length breakers m i v)
                          (zip [0..<length logits] logits)))))"

section \<open>Drawing a token\<close>

text \<open>The first candidate whose running sum reaches \<open>r\<close>; non-positive probabilities are skipped.\<close>

fun draw_loop :: "'n flt \<Rightarrow> 'n \<Rightarrow> 'n \<Rightarrow> ('a \<times> 'n) list \<Rightarrow> ('a \<times> 'n) option" where
  "draw_loop N r acc [] = None"
| "draw_loop N r acc ((i, p) # rest) =
     (if n_le N p (n_nat N 0) then draw_loop N r acc rest
      else (let c = n_add N acc p in if n_le N r c then Some (i, p) else draw_loop N r c rest))"

definition temperature_probs :: "('f, 'd) fp \<Rightarrow> 'f \<Rightarrow> 'f list \<Rightarrow> 'f list" where
  "temperature_probs F temp logits =
     (let N = fp32 F; D = fp64 F;
          scaled = map (\<lambda>v. n_mul N v (n_div N (n_nat N 1) temp)) logits;
          m = max_of N scaled;
          es = map (\<lambda>v. if n_lt N (n_ninf N) v then n_exp N (n_sub N v m) else n_nat N 0) scaled;
          inv_sum = fp_down F (n_div D (n_nat D 1) (n_sum D (map (fp_up F) es)))
      in map (\<lambda>v. n_mul N v inv_sum) es)"

definition sample_temperature ::
  "('f, 'd) fp \<Rightarrow> ('r \<Rightarrow> 'f \<times> 'r) \<Rightarrow> 'f list \<Rightarrow> 'f \<Rightarrow> 'r \<Rightarrow> nat option \<times> 'r" where
  "sample_temperature F gen logits temp rng =
     (if n_tiny (fp32 F) temp then (sample_greedy (fp32 F) logits, rng)
      else (case gen rng of
              (r, rng') \<Rightarrow>
                (case draw_loop (fp32 F) r (n_nat (fp32 F) 0)
                        (zip [0..<length logits] (temperature_probs F temp logits)) of
                   Some (i, _) \<Rightarrow> Some i
                 | None \<Rightarrow> if logits = [] then None else Some (length logits - 1), rng')))"

definition sample_categorical ::
  "'f flt \<Rightarrow> ('r \<Rightarrow> 'f \<times> 'r) \<Rightarrow> (nat \<times> 'f) list \<Rightarrow> 'r \<Rightarrow> (nat \<times> 'f) option \<times> 'r" where
  "sample_categorical N gen cand rng =
     (case gen rng of
        (r, rng') \<Rightarrow>
          (case draw_loop N r (n_nat N 0) cand of
             Some c \<Rightarrow> Some c
           | None \<Rightarrow> if cand = [] then None else Some (last cand), rng'))"

definition update_mu :: "('f, 'd) fp \<Rightarrow> 'f \<Rightarrow> 'f \<Rightarrow> 'f \<Rightarrow> 'f \<Rightarrow> 'f" where
  "update_mu F mu tau eta p =
     (let D = fp64 F; observed = n_neg D (n_log2 D (fp_up F p)) in
      fp_down F (n_sub D (fp_up F mu) (n_mul D (fp_up F eta) (n_sub D observed (fp_up F tau)))))"

text \<open>How many candidates mirostat v2 keeps before the surprise exceeds \<open>mu\<close>.\<close>

fun surprise_keep :: "('f, 'd) fp \<Rightarrow> 'f \<Rightarrow> nat \<Rightarrow> 'f list \<Rightarrow> nat" where
  "surprise_keep F mu i [] = i"
| "surprise_keep F mu i (p # ps) =
     (if n_le (fp32 F) p (n_nat (fp32 F) 0) \<or>
         n_lt (fp64 F) (fp_up F mu) (n_neg (fp64 F) (n_log2 (fp64 F) (fp_up F p)))
      then i else surprise_keep F mu (i + 1) ps)"

definition sample_mirostat_v2 ::
  "('f, 'd) fp \<Rightarrow> ('r \<Rightarrow> 'f \<times> 'r) \<Rightarrow> 'f list \<Rightarrow> 'f \<Rightarrow> 'f \<Rightarrow> 'f \<Rightarrow> 'r \<Rightarrow> nat option \<times> 'f \<times> 'r" where
  "sample_mirostat_v2 F gen logits mu tau eta rng =
     (let cand = softmax_desc F logits; D = fp64 F in
      if cand = [] then (Some 0, mu, rng)
      else (let live = take (max (surprise_keep F mu 0 (map snd cand)) 1) cand;
                sm = n_sum D (map (fp_up F \<circ> snd) live);
                norm = map (\<lambda>(i, p). (i, fp_down F (n_div D (fp_up F p) sm))) live
            in case sample_categorical (fp32 F) gen norm rng of
                 (None, rng') \<Rightarrow> (None, mu, rng')
               | (Some (i, p), rng') \<Rightarrow> (Some i, update_mu F mu tau eta p, rng')))"

text \<open>The sums of the estimator of mirostat v1, over \<open>lim\<close> neighbouring pairs.\<close>

fun zipf_sums :: "('f, 'd) fp \<Rightarrow> nat \<Rightarrow> nat \<Rightarrow> 'f list \<Rightarrow> 'd \<times> 'd \<Rightarrow> 'd \<times> 'd" where
  "zipf_sums F 0 i ps acc = acc"
| "zipf_sums F (Suc lim) i ps acc =
     (case ps of
        a # b # rest \<Rightarrow>
          (let D = fp64 F; p0 = fp_up F a; p1 = fp_up F b in
           if n_le D p0 (n_nat D 0) \<or> n_le D p1 (n_nat D 0) then acc
           else (let t = n_ln D (n_div D (n_of_nat D (i + 2)) (n_of_nat D (i + 1))) in
                 zipf_sums F lim (i + 1) (b # rest)
                   (n_add D (fst acc) (n_mul D t (n_ln D (n_div D p0 p1))), n_add D (snd acc) (n_mul D t t))))
      | _ \<Rightarrow> acc)"

definition mirostat_k :: "('f, 'd) fp \<Rightarrow> nat \<Rightarrow> 'f \<Rightarrow> 'd \<times> 'd \<Rightarrow> nat" where
  "mirostat_k F n_vocab mu sums =
     (let D = fp64 F; one = n_nat D 1;
          s0 = (if n_lt D (n_nat D 0) (snd sums) then n_div D (fst sums) (snd sums) else one);
          s_hat = (if \<not> n_finite D s0 \<or> n_le D s0 (n_nat D 0) then one else s0);
          epsilon_hat = n_sub D s_hat one;
          denom = n_sub D one (n_powf D (n_of_nat D n_vocab) (n_neg D epsilon_hat));
          k = (if n_lt D (n_abs D denom) (n_lit D 1 12) then one
               else n_powf D (n_div D (n_mul D epsilon_hat (n_powf D (n_nat D 2) (fp_up F mu))) denom)
                      (n_div D one s_hat))
      in if n_finite D k \<and> n_le D one k then nat (n_trunc D k) else 1)"

definition sample_mirostat_v1 ::
  "('f, 'd) fp \<Rightarrow> ('r \<Rightarrow> 'f \<times> 'r) \<Rightarrow> 'f list \<Rightarrow> 'f \<Rightarrow> 'f \<Rightarrow> 'f \<Rightarrow> nat \<Rightarrow> 'r \<Rightarrow> nat option \<times> 'f \<times> 'r" where
  "sample_mirostat_v1 F gen logits mu tau eta m rng =
     (let D = fp64 F; cand = softmax_desc F logits in
      if cand = [] then (Some 0, mu, rng)
      else (let lim = min (m - 1) (length cand - 1);
                sums = zipf_sums F lim 0 (map snd cand) (n_nat D 0, n_nat D 0);
                k = mirostat_k F (length logits) mu sums;
                cand' = softmax_desc F (apply_top_k (fp32 F) logits k)
            in case sample_categorical (fp32 F) gen cand' rng of
                 (None, rng') \<Rightarrow> (None, mu, rng')
               | (Some (i, p), rng') \<Rightarrow> (Some i, update_mu F mu tau eta p, rng')))"

section \<open>Configuration\<close>

datatype MirostatMode = MirostatOff | MirostatV1 | MirostatV2

definition mirostat_parse :: "int \<Rightarrow> (int, MirostatMode) res" where
  "mirostat_parse v =
     (if v = 0 then Ok MirostatOff else if v = 1 then Ok MirostatV1 else if v = 2 then Ok MirostatV2 else Err v)"

text \<open>What the pipeline calls of a compiled grammar; \<open>'g\<close> is the state of its automaton.\<close>

record 'g Grammar =
  gr_n_vocab :: nat
  gr_mask :: "'g \<Rightarrow> 'g \<times> (string, 64 word list) res"
  gr_accept :: "'g \<Rightarrow> nat \<Rightarrow> 'g \<times> (string, unit) res"
  gr_describe :: "'g \<Rightarrow> string"

record ('f, 'g) SamplerConfig =
  sc_temp :: 'f
  sc_top_k :: nat
  sc_top_p :: 'f
  sc_repeat_penalty :: 'f
  sc_frequency_penalty :: 'f
  sc_presence_penalty :: 'f
  sc_min_p :: 'f
  sc_typical_p :: 'f
  sc_dry_multiplier :: 'f
  sc_dry_base :: 'f
  sc_dry_allowed_length :: nat
  sc_dry_penalty_last_n :: nat
  sc_dry_breakers :: "nat list list"
  sc_xtc_probability :: 'f
  sc_xtc_threshold :: 'f
  sc_mirostat :: MirostatMode
  sc_mirostat_tau :: 'f
  sc_mirostat_eta :: 'f
  sc_mirostat_m :: nat
  sc_logit_bias :: "(nat \<times> 'f) list"
  sc_grammar :: "'g Grammar option"

definition default_config :: "'f flt \<Rightarrow> ('f, 'g) SamplerConfig" where
  "default_config N =
     \<lparr>sc_temp = n_lit N 8 1, sc_top_k = 40, sc_top_p = n_lit N 95 2, sc_repeat_penalty = n_lit N 11 1,
      sc_frequency_penalty = n_lit N 0 1, sc_presence_penalty = n_lit N 0 1, sc_min_p = n_lit N 0 1, sc_typical_p = n_lit N 10 1,
      sc_dry_multiplier = n_lit N 0 1, sc_dry_base = n_lit N 175 2, sc_dry_allowed_length = 2, sc_dry_penalty_last_n = 64,
      sc_dry_breakers = [], sc_xtc_probability = n_lit N 0 1, sc_xtc_threshold = n_lit N 5 1, sc_mirostat = MirostatOff,
      sc_mirostat_tau = n_lit N 50 1, sc_mirostat_eta = n_lit N 1 1, sc_mirostat_m = 100, sc_logit_bias = [], sc_grammar = None\<rparr>"

datatype config_error =
    NotFinite string
  | OutOfRange string
  | DryWindowZero
  | BiasRange nat
  | BiasOutsideVocab nat nat

definition check :: "bool \<Rightarrow> 'e \<Rightarrow> ('e, unit) res" where
  "check ok e = (if ok then Ok () else Err e)"

fun first_error :: "('e, unit) res list \<Rightarrow> ('e, unit) res" where
  "first_error [] = Ok ()"
| "first_error (r # rs) = (case r of Inl e \<Rightarrow> Err e | Inr _ \<Rightarrow> first_error rs)"

definition in_range :: "'n flt \<Rightarrow> 'n \<Rightarrow> 'n \<Rightarrow> 'n \<Rightarrow> bool" where
  "in_range N a b v \<longleftrightarrow> n_le N a v \<and> n_le N v b"

definition check_unit :: "'n flt \<Rightarrow> string \<Rightarrow> 'n \<Rightarrow> (config_error, unit) res list" where
  "check_unit N name v = [check (n_finite N v) (NotFinite name), check (in_range N (n_nat N 0) (n_nat N 1) v) (OutOfRange name)]"

definition validate :: "'f flt \<Rightarrow> ('f, 'g) SamplerConfig \<Rightarrow> (config_error, unit) res" where
  "validate N cfg =
     (let zero = n_nat N 0; fin = (\<lambda>name v. check (n_finite N v) (NotFinite name)) in
      first_error
        ([fin ''temperature'' (sc_temp cfg), check (\<not> n_lt N (sc_temp cfg) zero) (OutOfRange ''temperature'')]
         @ check_unit N ''min_p'' (sc_min_p cfg) @ check_unit N ''typical_p'' (sc_typical_p cfg)
         @ check_unit N ''top_p'' (sc_top_p cfg) @ check_unit N ''xtc_probability'' (sc_xtc_probability cfg)
         @ [fin ''xtc_threshold'' (sc_xtc_threshold cfg),
            check (in_range N zero (n_lit N 5 1) (sc_xtc_threshold cfg)) (OutOfRange ''xtc_threshold''),
            fin ''repeat_penalty'' (sc_repeat_penalty cfg),
            check (\<not> n_lt N (sc_repeat_penalty cfg) zero) (OutOfRange ''repeat_penalty''),
            fin ''frequency_penalty'' (sc_frequency_penalty cfg), fin ''presence_penalty'' (sc_presence_penalty cfg),
            fin ''dry_multiplier'' (sc_dry_multiplier cfg), fin ''dry_base'' (sc_dry_base cfg),
            check (\<not> n_lt N (sc_dry_multiplier cfg) zero) (OutOfRange ''dry_multiplier'')]
         @ (if n_lt N zero (sc_dry_multiplier cfg)
            then [check (\<not> n_lt N (sc_dry_base cfg) (n_nat N 1)) (OutOfRange ''dry_base''),
                  check (1 \<le> sc_dry_allowed_length cfg) (OutOfRange ''dry_allowed_length''),
                  check (sc_dry_penalty_last_n cfg \<noteq> 0) DryWindowZero]
            else [])
         @ concat (map (\<lambda>(i, b). [fin ''logit_bias value'' b,
             check (in_range N (n_lit N (- 100) 0) (n_nat N 100) b) (BiasRange i)]) (sc_logit_bias cfg))
         @ (if sc_mirostat cfg \<noteq> MirostatOff
            then [fin ''mirostat_tau'' (sc_mirostat_tau cfg), fin ''mirostat_eta'' (sc_mirostat_eta cfg),
                  check (\<not> n_le N (sc_mirostat_tau cfg) zero) (OutOfRange ''mirostat_tau''),
                  check (\<not> n_le N (sc_mirostat_eta cfg) zero) (OutOfRange ''mirostat_eta''),
                  check (1 \<le> sc_mirostat_m cfg) (OutOfRange ''mirostat_m'')]
            else [])))"

definition validate_logit_bias :: "('f, 'g) SamplerConfig \<Rightarrow> nat \<Rightarrow> (config_error, unit) res" where
  "validate_logit_bias cfg n_vocab =
     first_error (map (\<lambda>(i, _). check (i < n_vocab) (BiasOutsideVocab i n_vocab)) (sc_logit_bias cfg))"

section \<open>The pipeline\<close>

definition apply_logit_bias :: "'n flt \<Rightarrow> 'n list \<Rightarrow> (nat \<times> 'n) list \<Rightarrow> 'n list" where
  "apply_logit_bias N logits bias =
     fold (\<lambda>(i, b) l. if i < length l then l[i := n_add N (l ! i) b] else l) bias logits"

definition apply_deterministic_filters :: "'n flt \<Rightarrow> 'n list \<Rightarrow> ('n, 'g) SamplerConfig \<Rightarrow> nat list \<Rightarrow> 'n list" where
  "apply_deterministic_filters N logits cfg prev_tokens =
     (let l1 = apply_logit_bias N logits (sc_logit_bias cfg);
          l2 = apply_penalties N l1 prev_tokens (sc_repeat_penalty cfg) (sc_frequency_penalty cfg) (sc_presence_penalty cfg)
      in if n_lt N (n_nat N 0) (sc_dry_multiplier cfg)
         then apply_dry N l2 prev_tokens (sc_dry_multiplier cfg) (sc_dry_base cfg) (sc_dry_allowed_length cfg)
                (sc_dry_penalty_last_n cfg) (sc_dry_breakers cfg)
         else l2)"

text \<open>Bit \<open>i\<close> of a mask of 64-bit words; beyond the mask every token is forbidden.\<close>

definition mask_allows :: "64 word list \<Rightarrow> nat \<Rightarrow> bool" where
  "mask_allows bits i \<longleftrightarrow> i div 64 < length bits \<and> bit (bits ! (i div 64)) (i mod 64)"

definition apply_token_mask :: "'n flt \<Rightarrow> 'n list \<Rightarrow> 64 word list \<Rightarrow> 'n list \<times> nat" where
  "apply_token_mask N logits bits =
     (map (\<lambda>(i, v). if mask_allows bits i then v else n_ninf N) (zip [0..<length logits] logits),
      length (filter (\<lambda>(i, v). mask_allows bits i \<and> n_lt N (n_ninf N) v) (zip [0..<length logits] logits)))"

datatype sample_error = NoAllowedToken string | GrammarRefused string | NoGrammarState | LogitsLength nat nat | SamplePanic

text \<open>The stochastic half: the filters in their order, then temperature or mirostat.\<close>

definition draw ::
  "('f, 'd) fp \<Rightarrow> ('r \<Rightarrow> 'f \<times> 'r) \<Rightarrow> ('f, 'g) SamplerConfig \<Rightarrow> 'f list \<Rightarrow> 'f \<Rightarrow> 'r \<Rightarrow> nat option \<times> 'f \<times> 'r" where
  "draw F gen cfg logits mu rng =
     (let N = fp32 F;
          l1 = apply_top_k N logits (sc_top_k cfg);
          l2 = apply_typical F l1 (sc_typical_p cfg);
          l3 = apply_top_p F l2 (sc_top_p cfg);
          l4 = apply_min_p N l3 (sc_min_p cfg)
      in case apply_xtc F gen l4 (sc_xtc_probability cfg) (sc_xtc_threshold cfg) rng of
           (l5, rng1) \<Rightarrow>
             (case sc_mirostat cfg of
                MirostatOff \<Rightarrow> (case sample_temperature F gen l5 (sc_temp cfg) rng1 of (t, rng2) \<Rightarrow> (t, mu, rng2))
              | MirostatV2 \<Rightarrow> sample_mirostat_v2 F gen l5 mu (sc_mirostat_tau cfg) (sc_mirostat_eta cfg) rng1
              | MirostatV1 \<Rightarrow>
                  sample_mirostat_v1 F gen l5 mu (sc_mirostat_tau cfg) (sc_mirostat_eta cfg) (sc_mirostat_m cfg) rng1))"

definition constrain ::
  "'n flt \<Rightarrow> 'n list \<Rightarrow> 'g Grammar option \<Rightarrow> 'g option \<Rightarrow> (sample_error, 'n list) res \<times> 'g option" where
  "constrain N logits gr gst =
     (case (gr, gst) of
        (Some g, Some st) \<Rightarrow>
          if length logits \<noteq> gr_n_vocab g then (Err (LogitsLength (length logits) (gr_n_vocab g)), gst)
          else (case gr_mask g st of
                  (st', Inl e) \<Rightarrow> (Err (GrammarRefused e), Some st')
                | (st', Inr bits) \<Rightarrow>
                    (case apply_token_mask N logits bits of
                       (l, allowed) \<Rightarrow>
                         (if allowed = 0 then Err (NoAllowedToken (gr_describe g st')) else Ok l, Some st')))
      | (Some _, None) \<Rightarrow> (Err NoGrammarState, gst)
      | (None, _) \<Rightarrow> (Ok logits, gst))"

definition sample_with_config_grammar ::
  "('f, 'd) fp \<Rightarrow> ('r \<Rightarrow> 'f \<times> 'r) \<Rightarrow> 'f list \<Rightarrow> ('f, 'g) SamplerConfig \<Rightarrow> nat list \<Rightarrow> 'f \<Rightarrow> 'g option \<Rightarrow> 'r \<Rightarrow>
   (sample_error, nat) res \<times> 'f \<times> 'g option \<times> 'r" where
  "sample_with_config_grammar F gen logits cfg prev_tokens mu gst rng =
     (case constrain (fp32 F) (apply_deterministic_filters (fp32 F) logits cfg prev_tokens) (sc_grammar cfg) gst of
        (Inl e, gst1) \<Rightarrow> (Err e, mu, gst1, rng)
      | (Inr l, gst1) \<Rightarrow>
          (case (if n_tiny (fp32 F) (sc_temp cfg) then (sample_greedy (fp32 F) l, mu, rng) else draw F gen cfg l mu rng) of
             (None, mu', rng') \<Rightarrow> (Err SamplePanic, mu', gst1, rng')
           | (Some t, mu', rng') \<Rightarrow>
               (case (sc_grammar cfg, gst1) of
                  (Some g, Some st) \<Rightarrow>
                    (case gr_accept g st t of
                       (st', Inl e) \<Rightarrow> (Err (GrammarRefused e), mu', Some st', rng')
                     | (st', Inr _) \<Rightarrow> (Ok t, mu', Some st', rng'))
                | _ \<Rightarrow> (Ok t, mu', gst1, rng'))))"

text \<open>The unconstrained entry point; an error is unreachable there and panics.\<close>

definition sample_with_config ::
  "('f, 'd) fp \<Rightarrow> ('r \<Rightarrow> 'f \<times> 'r) \<Rightarrow> 'f list \<Rightarrow> ('f, 'g) SamplerConfig \<Rightarrow> nat list \<Rightarrow> 'f \<Rightarrow> 'r \<Rightarrow>
   nat option \<times> 'f \<times> 'r" where
  "sample_with_config F gen logits cfg prev_tokens mu rng =
     (case sample_with_config_grammar F gen logits cfg prev_tokens mu None rng of
        (Inl _, mu', _, rng') \<Rightarrow> (None, mu', rng')
      | (Inr t, mu', _, rng') \<Rightarrow> (Some t, mu', rng'))"

definition mirostat_new :: "'f flt \<Rightarrow> 'f \<Rightarrow> 'f" where
  "mirostat_new N tau = n_mul N (n_nat N 2) tau"

end
