(* ===== verification/Sampler_Dry.thy ===== *)
theory Sampler_Dry
  imports Sampler
begin

text \<open>
  The repeat counts of DRY: the reverse Z-algorithm of \<open>apply_dry\<close> finds, for every distance, how
  far the end of the history repeats there, up to the limit of a restart sequence. The reference
  compares the reversed window with each of its suffixes.
\<close>

section \<open>Reference\<close>

fun lcp_len :: "'a list \<Rightarrow> 'a list \<Rightarrow> nat" where
  "lcp_len (x # xs) (y # ys) = (if x = y then lcp_len xs ys + 1 else 0)"
| "lcp_len xs ys = 0"

text \<open>\<open>w\<close> is the window, the latest token first; emitting \<open>t\<close> extends a repeat at distance \<open>k\<close> when
  \<open>t\<close> followed there.\<close>

definition dry_reference :: "nat list \<Rightarrow> nat \<Rightarrow> nat \<Rightarrow> nat \<Rightarrow> int option" where
  "dry_reference w limit allowed t =
     (let lens = filter (\<lambda>m. allowed \<le> m)
            (map (\<lambda>k. min (lcp_len w (drop k w)) limit) (filter (\<lambda>k. w ! (k - 1) = t) [1..<length w]))
      in if lens = [] then None else Some (int (Max (set lens))))"

section \<open>Matches\<close>

definition agree :: "nat list \<Rightarrow> nat \<Rightarrow> nat \<Rightarrow> nat \<Rightarrow> bool" where
  "agree tokens n k m \<longleftrightarrow> m + k \<le> n \<and> (\<forall>j < m. rat tokens j = rat tokens (j + k))"

definition is_z :: "nat list \<Rightarrow> nat \<Rightarrow> nat \<Rightarrow> nat \<Rightarrow> bool" where
  "is_z tokens n k m \<longleftrightarrow> agree tokens n k m \<and> (m + k < n \<longrightarrow> rat tokens m \<noteq> rat tokens (m + k))"

lemma agree_mono: "agree tokens n k m \<Longrightarrow> m' \<le> m \<Longrightarrow> agree tokens n k m'"
  by (simp add: agree_def)

lemma is_z_ge: "is_z tokens n k m \<Longrightarrow> agree tokens n k m' \<Longrightarrow> m' \<le> m"
  unfolding is_z_def agree_def by (metis add_less_cancel_right leI less_le_trans)

lemma is_z_unique: "is_z tokens n k m \<Longrightarrow> is_z tokens n k m' \<Longrightarrow> m = m'"
  by (meson is_z_def is_z_ge le_antisym)

lemma count_matches_is_z: "agree tokens n k a \<Longrightarrow> is_z tokens n k (count_matches tokens n k a)"
proof (induction tokens n k a rule: count_matches.induct)
  case (1 tokens n k a)
  show ?case
  proof (cases "a + k < n \<and> rat tokens a = rat tokens (a + k)")
    case True
    then have "agree tokens n k (a + 1)" using "1.prems" by (auto simp: agree_def less_Suc_eq)
    from "1.IH" [OF True this] show ?thesis using True by (simp add: count_matches.simps [of _ _ _ a])
  next
    case False
    then show ?thesis using "1.prems" by (auto simp: count_matches.simps [of _ _ _ a] is_z_def)
  qed
qed

lemma match_end_is_z:
  assumes "agree tokens n k (i - k)" "k \<le> i"
  shows "is_z tokens n k (match_end tokens n k i - k) \<and> i \<le> match_end tokens n k i"
  using assms
proof (induction tokens n k i rule: match_end.induct)
  case (1 tokens n k i)
  show ?case
  proof (cases "i < n \<and> rat tokens i = rat tokens (i - k)")
    case True
    have "agree tokens n k (i + 1 - k)"
      using True "1.prems" unfolding agree_def by (auto simp: Suc_diff_le less_Suc_eq)
    from "1.IH" [OF True this] "1.prems"(2) show ?thesis using True by (simp add: match_end.simps [of _ _ _ i])
  next
    case False
    then show ?thesis using "1.prems" by (auto simp: match_end.simps [of _ _ _ i] is_z_def)
  qed
qed

lemma lcp_len_spec: "lcp_len xs ys \<le> length xs \<and> lcp_len xs ys \<le> length ys \<and> (\<forall>j < lcp_len xs ys. xs ! j = ys ! j) \<and>
  (lcp_len xs ys < length xs \<longrightarrow> lcp_len xs ys < length ys \<longrightarrow> xs ! lcp_len xs ys \<noteq> ys ! lcp_len xs ys)"
  by (induction xs ys rule: lcp_len.induct) (auto simp: nth_Cons split: nat.splits)

lemma window_nth: "n \<le> length tokens \<Longrightarrow> i < n \<Longrightarrow> take n (rev tokens) ! i = rat tokens i"
  by (simp add: rat_def rev_nth)

lemma lcp_len_is_z:
  assumes "n \<le> length tokens" "k \<le> n"
  shows "is_z tokens n k (lcp_len (take n (rev tokens)) (drop k (take n (rev tokens))))"
proof -
  let ?w = "take n (rev tokens)"
  let ?m = "lcp_len ?w (drop k ?w)"
  have len: "length ?w = n" using assms(1) by simp
  note S = lcp_len_spec [of ?w "drop k ?w"]
  have b: "?m + k \<le> n" using S len assms(2) by auto
  have v: "?w ! j = rat tokens j" if "j < n" for j using window_nth assms(1) that by blast
  have "rat tokens j = rat tokens (j + k)" if "j < ?m" for j
  proof -
    have "?w ! j = ?w ! (k + j)" using S that b by (auto simp: nth_drop simp del: nth_take)
    then show ?thesis using v [of j] v [of "k + j"] that b by (simp add: add.commute)
  qed
  moreover have "rat tokens ?m \<noteq> rat tokens (?m + k)" if "?m + k < n"
  proof -
    have "?w ! ?m \<noteq> ?w ! (k + ?m)" using S that len by (auto simp: nth_drop simp del: nth_take)
    then show ?thesis using v [of ?m] v [of "k + ?m"] that by (simp add: add.commute)
  qed
  ultimately show ?thesis using b by (simp add: is_z_def agree_def)
qed

section \<open>The loop\<close>

definition zlen :: "nat list \<Rightarrow> nat \<Rightarrow> nat \<Rightarrow> nat" where
  "zlen tokens n k = count_matches tokens n k 0"

lemma zlen_is_z: "k \<le> n \<Longrightarrow> is_z tokens n k (zlen tokens n k)"
  unfolding zlen_def by (rule count_matches_is_z) (simp add: agree_def)

definition box_ok :: "nat list \<Rightarrow> nat \<Rightarrow> nat \<Rightarrow> int \<Rightarrow> int \<Rightarrow> bool" where
  "box_ok tokens n k rt lt \<longleftrightarrow> rt = 0 \<or>
     (\<exists>l r. lt = int l \<and> rt = int r \<and> 1 \<le> l \<and> l < k \<and> l \<le> r \<and> agree tokens n l (r + 1 - l))"

definition z_inv :: "nat list \<Rightarrow> nat \<Rightarrow> nat \<Rightarrow> nat \<Rightarrow> int list \<times> int \<times> int \<Rightarrow> bool" where
  "z_inv tokens n limit k st = (case st of (rc, rt, lt) \<Rightarrow>
     length rc = n \<and> (\<forall>j. 1 \<le> j \<longrightarrow> j < k \<longrightarrow> rc ! (n - 1 - j) = int (min (zlen tokens n j) limit)) \<and>
     box_ok tokens n k rt lt)"

text \<open>Inside the window the text repeats the text at distance \<open>l\<close>.\<close>

lemma box_shift:
  assumes "agree tokens n l (r + 1 - l)" "l \<le> k" "k + j \<le> r"
  shows "rat tokens (j + k) = rat tokens (j + (k - l))"
proof -
  have "j + (k - l) < r + 1 - l" using assms(2,3) by linarith
  then have "rat tokens (j + (k - l)) = rat tokens (j + (k - l) + l)" using assms(1) unfolding agree_def by blast
  moreover have "j + (k - l) + l = j + k" using assms(2) by simp
  ultimately show ?thesis by simp
qed

lemma box_zlen:
  assumes "agree tokens n l (r + 1 - l)" "1 \<le> l" "l < k" "k \<le> r" "k < n"
  shows "zlen tokens n (k - l) < r + 1 - k \<Longrightarrow> zlen tokens n k = zlen tokens n (k - l)"
    and "r + 1 - k \<le> zlen tokens n (k - l) \<Longrightarrow> agree tokens n k (r + 1 - k)"
proof -
  let ?p = "k - l"
  let ?m = "zlen tokens n ?p"
  have rn: "r < n" using assms unfolding agree_def by linarith
  have z: "is_z tokens n ?p ?m" by (rule zlen_is_z) (use assms in simp)
  have sh: "rat tokens (j + k) = rat tokens (j + ?p)" if "k + j \<le> r" for j
    using box_shift [OF assms(1) _ that] assms(3) by simp
  have eq: "rat tokens j = rat tokens (j + k)" if "j < ?m" "k + j \<le> r" for j
    using sh [OF that(2)] z that(1) unfolding is_z_def agree_def by simp
  {
    assume m: "?m < r + 1 - k"
    have "agree tokens n k ?m" unfolding agree_def using eq m rn by auto
    moreover have "rat tokens ?m \<noteq> rat tokens (?m + k)"
      using sh [of ?m] z m rn assms(2,3) unfolding is_z_def by auto
    ultimately have "is_z tokens n k ?m" by (simp add: is_z_def)
    with zlen_is_z [of k n tokens] assms(5) show "zlen tokens n k = ?m" using is_z_unique by simp
  next
    assume "r + 1 - k \<le> ?m"
    then show "agree tokens n k (r + 1 - k)" unfolding agree_def using eq rn assms(4) by auto
  }
qed

lemma set_count:
  assumes "length rc = n" "k < n" "v = int (min (zlen tokens n k) limit)"
    "\<forall>j. 1 \<le> j \<longrightarrow> j < k \<longrightarrow> rc ! (n - 1 - j) = int (min (zlen tokens n j) limit)"
  shows "\<forall>j. 1 \<le> j \<longrightarrow> j < Suc k \<longrightarrow> rc[n - 1 - k := v] ! (n - 1 - j) = int (min (zlen tokens n j) limit)"
proof (intro allI impI)
  fix j assume j: "1 \<le> j" "j < Suc k"
  show "rc[n - 1 - k := v] ! (n - 1 - j) = int (min (zlen tokens n j) limit)"
  proof (cases "j = k")
    case True
    then show ?thesis using assms(1-3) by simp
  next
    case False
    then have "n - 1 - k \<noteq> n - 1 - j" using j assms(2) by linarith
    then show ?thesis using assms(4) j False by simp
  qed
qed

lemma box_keep: "box_ok tokens n k rt lt \<Longrightarrow> box_ok tokens n (Suc k) rt lt"
  unfolding box_ok_def by force

lemma z_step_inv:
  assumes "z_inv tokens n limit k st" "1 \<le> k" "k < n"
  shows "z_inv tokens n limit (Suc k) (z_step tokens n limit k st)"
proof -
  obtain rc rt lt where st: "st = (rc, rt, lt)" by (cases st)
  have inv: "length rc = n" "\<forall>j. 1 \<le> j \<longrightarrow> j < k \<longrightarrow> rc ! (n - 1 - j) = int (min (zlen tokens n j) limit)"
    "box_ok tokens n k rt lt" using assms(1) by (simp_all add: z_inv_def st)
  have close: "z_inv tokens n limit (Suc k) (rc[n - 1 - k := v], rt', lt')"
    if "v = int (min (zlen tokens n k) limit)" "box_ok tokens n (Suc k) rt' lt'" for v rt' lt'
    using set_count [OF inv(1) assms(3) that(1) inv(2)] inv(1) that(2) by (simp add: z_inv_def)
  show ?thesis
  proof (cases "rt < int k")
    case True
    let ?m = "zlen tokens n k"
    have "box_ok tokens n (Suc k) (int (k + ?m - 1)) (int k)" if "0 < ?m"
      using zlen_is_z [of k n tokens] assms(2,3) that unfolding box_ok_def is_z_def
      by (intro disjI2 exI [of _ k] exI [of _ "k + ?m - 1"]) auto
    then have "z_inv tokens n limit (Suc k)
        (rc[n - 1 - k := min (int ?m) (int limit)], if 0 < ?m then int (k + ?m - 1) else rt, if 0 < ?m then int k else lt)"
      using box_keep [OF inv(3)] by (intro close) auto
    then show ?thesis using True by (simp add: z_step_def st Let_def zlen_def split: if_splits)
  next
    case False
    then obtain l r where b: "lt = int l" "rt = int r" "1 \<le> l" "l < k" "k \<le> r" "agree tokens n l (r + 1 - l)"
      using inv(3) assms(2) unfolding box_ok_def by auto
    let ?c = "rc ! (n - 1 - (k - l))"
    have c: "?c = int (min (zlen tokens n (k - l)) limit)" using inv(2) [rule_format, of "k - l"] b(3,4) by linarith
    have idx: "nat (int k - lt) = k - l" "rt - int k + 1 = int (r + 1 - k)" "nat (rt + 1) = r + 1" using b by auto
    note Z = box_zlen [OF b(6,3,4,5) assms(3)]
    show ?thesis
    proof (cases "?c < int (r + 1 - k)")
      case True
      have "min ?c (int limit) = int (min (zlen tokens n k) limit)"
      proof (cases "zlen tokens n (k - l) < r + 1 - k")
        case zl: True
        then show ?thesis using Z(1) c by simp
      next
        case zl: False
        then have "agree tokens n k (r + 1 - k)" using Z(2) by simp
        then have "r + 1 - k \<le> zlen tokens n k" using is_z_ge zlen_is_z assms(3) by (metis less_imp_le)
        then show ?thesis using c True zl by simp
      qed
      then show ?thesis
        using close [OF _ box_keep [OF inv(3)]] True False idx by (simp add: z_step_def st Let_def)
    next
      case big: False
      then have ag: "agree tokens n k (r + 1 - k)" using Z(2) c by linarith
      let ?i = "match_end tokens n k (r + 1)"
      have zi: "is_z tokens n k (?i - k)" "r + 1 \<le> ?i" using match_end_is_z [OF ag] b(5) by auto
      have zk: "zlen tokens n k = ?i - k" using is_z_unique zi(1) zlen_is_z assms(3) by (metis less_imp_le)
      have "box_ok tokens n (Suc k) (int (?i - 1)) (int k)"
        using zi b(5) assms(2) unfolding box_ok_def is_z_def
        by (intro disjI2 exI [of _ k] exI [of _ "?i - 1"]) auto
      with zk have "z_inv tokens n limit (Suc k) (rc[n - 1 - k := min (int (?i - k)) (int limit)], int (?i - 1), int k)"
        by (intro close) auto
      then show ?thesis using big False idx by (simp add: z_step_def st Let_def)
    qed
  qed
qed

lemma repeat_counts_spec:
  assumes "1 \<le> j" "j < n"
  shows "repeat_counts tokens n limit ! (n - 1 - j) = int (min (zlen tokens n j) limit)"
proof -
  have "z_inv tokens n limit (Suc m) (fold (z_step tokens n limit) [1..<Suc m] (replicate n 0, 0, 0))" if "Suc m \<le> n" for m
    using that
  proof (induction m)
    case 0
    then show ?case by (simp add: z_inv_def box_ok_def)
  next
    case (Suc m)
    then show ?case using z_step_inv [of tokens n limit "Suc m"] by simp
  qed
  from this [of "n - 1"] show ?thesis
    using assms by (auto simp: z_inv_def repeat_counts_def split: prod.splits)
qed

section \<open>The longest repeat of a token\<close>

definition repeats_of :: "(nat \<Rightarrow> int) \<Rightarrow> (nat \<Rightarrow> nat) \<Rightarrow> nat \<Rightarrow> nat \<Rightarrow> nat list \<Rightarrow> int list" where
  "repeats_of len tok allowed t is = filter (\<lambda>m. int allowed \<le> m) (map len (filter (\<lambda>i. tok i = t) is))"

lemma max_repeat_fold:
  assumes "len = (!) rc" "tok = (\<lambda>i. rat tokens (n - 2 - i))"
  shows "fold (repeat_step tokens n allowed rc) is Map.empty t =
    (let ls = repeats_of len tok allowed t is in if ls = [] then None else Some (Max (set ls)))"
proof (induction "is" rule: rev_induct)
  case Nil
  then show ?case by (simp add: repeats_of_def)
next
  case (snoc i "is")
  let ?m = "fold (repeat_step tokens n allowed rc) is Map.empty"
  let ?ls = "repeats_of len tok allowed t is"
  show ?case
  proof (cases "tok i = t \<and> int allowed \<le> len i")
    case True
    then have ls: "repeats_of len tok allowed t (is @ [i]) = ?ls @ [len i]" by (simp add: repeats_of_def)
    have pos: "0 \<le> len i" using True by linarith
    have "fold (repeat_step tokens n allowed rc) (is @ [i]) Map.empty t =
        Some (max (case ?m t of None \<Rightarrow> 0 | Some e \<Rightarrow> e) (len i))"
      using True by (simp add: repeat_step_def Let_def assms max_def)
    also have "\<dots> = Some (Max (set (?ls @ [len i])))"
    proof (cases "?ls = []")
      case True
      then show ?thesis using snoc pos by simp
    next
      case False
      then have "Max (set (?ls @ [len i])) = max (len i) (Max (set ?ls))" by simp
      then show ?thesis using snoc False by (simp add: max.commute)
    qed
    finally show ?thesis using ls by simp
  next
    case False
    then have "repeats_of len tok allowed t (is @ [i]) = ?ls" by (auto simp: repeats_of_def)
    moreover have "fold (repeat_step tokens n allowed rc) (is @ [i]) Map.empty t = ?m t"
      using False by (auto simp: repeat_step_def Let_def assms)
    ultimately show ?thesis using snoc by simp
  qed
qed

lemma repeats_rev:
  assumes "\<And>k. k \<in> {1..<n} \<Longrightarrow> len (n - 1 - k) = int (lens k) \<and> tok (n - 1 - k) = follow k"
  shows "set (repeats_of len tok allowed t [0..<n - 1]) =
    int ` set (filter (\<lambda>m. allowed \<le> m) (map lens (filter (\<lambda>k. follow k = t) [1..<n])))"
    (is "?L = ?R")
proof (intro set_eqI iffI)
  fix x assume "x \<in> ?L"
  then obtain i where i: "i < n - 1" "x = len i" "tok i = t" "int allowed \<le> x" by (auto simp: repeats_of_def)
  let ?k = "n - 1 - i"
  have "?k \<in> {1..<n}" "n - 1 - ?k = i" using i(1) by auto
  with assms [of ?k] i show "x \<in> ?R" by force
next
  fix x assume "x \<in> ?R"
  then obtain k where k: "k \<in> {1..<n}" "x = int (lens k)" "follow k = t" "allowed \<le> lens k" by auto
  have "n - 1 - k < n - 1" using k(1) by auto
  with assms [OF k(1)] k show "x \<in> ?L" by (force simp: repeats_of_def)
qed

lemma int_Max: "finite A \<Longrightarrow> A \<noteq> {} \<Longrightarrow> Max (int ` A) = int (Max A)"
  by (rule mono_Max_commute [symmetric]) (simp_all add: monoI)

lemma max_token_repeat_reference:
  assumes "n \<le> length tokens"
  shows "max_token_repeat tokens n allowed (repeat_counts tokens n limit) t =
    dry_reference (take n (rev tokens)) limit allowed t"
proof -
  let ?w = "take n (rev tokens)" and ?rc = "repeat_counts tokens n limit"
  let ?tok = "\<lambda>i. rat tokens (n - 2 - i)" and ?lens = "\<lambda>k. min (lcp_len ?w (drop k ?w)) limit"
  have len: "length ?w = n" using assms by simp
  have "?rc ! (n - 1 - k) = int (?lens k) \<and> ?tok (n - 1 - k) = ?w ! (k - 1)" if k: "k \<in> {1..<n}" for k
  proof -
    have "zlen tokens n k = lcp_len ?w (drop k ?w)"
      using k is_z_unique zlen_is_z lcp_len_is_z [OF assms] by (metis atLeastLessThan_iff less_imp_le)
    moreover have "n - 2 - (n - 1 - k) = k - 1" using k by auto
    moreover have "?w ! (k - 1) = rat tokens (k - 1)" using window_nth [OF assms, of "k - 1"] k by auto
    ultimately show ?thesis using repeat_counts_spec [of k n tokens limit] k by auto
  qed
  from repeats_rev [where len = "(!) ?rc" and tok = ?tok and lens = ?lens and follow = "\<lambda>k. ?w ! (k - 1)", OF this]
  have s: "set (repeats_of ((!) ?rc) ?tok allowed t [0..<n - 1]) =
    int ` set (filter (\<lambda>m. allowed \<le> m) (map ?lens (filter (\<lambda>k. ?w ! (k - 1) = t) [1..<n])))" by simp
  show ?thesis
    unfolding max_token_repeat_def dry_reference_def Let_def len
      max_repeat_fold [OF refl refl, of tokens n allowed ?rc "[0..<n - 1]" t] s
    using s int_Max by (auto simp del: set_filter set_map simp flip: set_empty)
qed

end
