(* ===== verification/Sampler_Mask.thy ===== *)
theory Sampler_Mask
  imports Sampler
begin

text \<open>
  Masked candidates: every filter of the sampler leaves a logit alone or sets it to minus infinity,
  and a draw takes a candidate that is not masked, up to the fallbacks of the source. The facts about
  floating-point numbers the argument needs are the hypothesis \<open>ieee\<close>.
\<close>

named_theorems mask_intros \<open>operations that only mask\<close>

section \<open>Floating-point facts\<close>

text \<open>
  IEEE 754: nothing is below minus infinity; minus infinity times the inverse of a temperature is
  minus infinity or not a number; and zero times anything is zero or not a number, in which case it
  is not positive or makes every comparison fail.
\<close>

definition ieee :: "'n flt \<Rightarrow> bool" where
  "ieee N \<longleftrightarrow>
     (\<forall>x. \<not> n_lt N x (n_ninf N)) \<and>
     (\<forall>t. \<not> n_tiny N t \<longrightarrow> \<not> n_lt N (n_ninf N) (n_mul N (n_ninf N) (n_div N (n_nat N 1) t))) \<and>
     (\<forall>x. n_le N (n_mul N (n_nat N 0) x) (n_nat N 0) \<or>
          (\<forall>r a. \<not> n_le N r (n_add N a (n_mul N (n_nat N 0) x))))"

lemma ieee_ninf: "ieee N \<Longrightarrow> \<not> n_lt N x (n_ninf N)"
  by (simp add: ieee_def)

section \<open>Lengths\<close>

lemma fold_update_length: "(\<And>x l. length (f x l) = length l) \<Longrightarrow> length (fold f xs l) = length l"
  by (induction xs arbitrary: l) auto

lemma deterministic_length: "length (apply_deterministic_filters N logits cfg prev_tokens) = length logits"
  by (auto simp: apply_deterministic_filters_def apply_logit_bias_def apply_penalties_def apply_dry_def Let_def
      fold_update_length split: prod.splits)

section \<open>Filters only mask\<close>

definition masks :: "'n flt \<Rightarrow> 'n list \<Rightarrow> 'n list \<Rightarrow> bool" where
  "masks N l l' \<longleftrightarrow> length l' = length l \<and> (\<forall>i < length l. l' ! i = l ! i \<or> l' ! i = n_ninf N)"

lemma masks_refl [mask_intros]: "masks N l l"
  by (simp add: masks_def)

lemma masks_trans: "masks N a b \<Longrightarrow> masks N b c \<Longrightarrow> masks N a c"
  unfolding masks_def by metis

lemma masks_update: "masks N l l' \<Longrightarrow> masks N l (l'[i := n_ninf N])"
  unfolding masks_def by (metis length_list_update nth_list_update_eq nth_list_update_neq)

lemma mask_ids_masks [mask_intros]: "masks N l (mask_ids N ids l)"
proof -
  have "masks N l l' \<Longrightarrow> masks N l (mask_ids N ids l')" for l'
    by (induction ids arbitrary: l') (auto simp: mask_ids_def intro: masks_update)
  then show ?thesis using masks_refl by blast
qed

lemma apply_top_k_masks [mask_intros]: "masks N l (apply_top_k N l k)"
  by (auto simp: apply_top_k_def masks_def Let_def)

lemma apply_top_p_masks [mask_intros]: "masks (fp32 F) l (apply_top_p F l p)"
  by (auto simp: apply_top_p_def apply_top_p_full_def nucleus_def Let_def intro: mask_intros)

lemma best_finite_nth:
  "best_finite N i vs best = Some (j, v) \<Longrightarrow>
     best = Some (j, v) \<or> (i \<le> j \<and> j < i + length vs \<and> vs ! (j - i) = v)"
proof (induction vs arbitrary: i best)
  case (Cons x vs)
  from Cons.IH [OF Cons.prems [simplified]] show ?case
    by (auto simp: nth_Cons' split: if_splits)
qed simp

lemma apply_min_p_masks [mask_intros]: "masks N l (apply_min_p N l p)"
proof -
  have "masks N l ((map (\<lambda>v. if n_le N m v then v else n_ninf N) l)[j := v])"
    if "best_finite N 0 l None = Some (j, v)" for j v m
    using best_finite_nth [OF that] by (auto simp: masks_def nth_list_update)
  then show ?thesis by (auto simp: apply_min_p_def masks_def Let_def split: option.splits)
qed

lemma apply_typical_masks [mask_intros]: "masks (fp32 F) l (apply_typical F l p)"
  by (auto simp: apply_typical_def masks_def Let_def)

lemma apply_xtc_masks: "masks (fp32 F) l (fst (apply_xtc F gen l p t rng))"
  by (auto simp: apply_xtc_def Let_def intro: mask_intros split: prod.splits)

section \<open>Draws\<close>

lemma insort_desc_set [simp]: "set (insort_desc N x xs) = insert x (set xs)"
  by (induction xs) auto

lemma sort_desc_set [simp]: "set (sort_desc N xs) = set xs"
  by (induction xs) (simp_all add: sort_desc_def)

lemma sort_desc_Nil [simp]: "sort_desc N xs = [] \<longleftrightarrow> xs = []"
  by (metis set_empty sort_desc_set)

lemma survivors_unmasked:
  assumes "ieee N" "i \<in> fst ` set (survivors_of N l)"
  shows "i < length l \<and> l ! i \<noteq> n_ninf N"
  using assms ieee_ninf [OF assms(1), of "n_ninf N"] by (auto simp: survivors_of_def set_zip)

lemma softmax_fst: "fst ` set (softmax_desc F l) \<subseteq> fst ` set (survivors_of (fp32 F) l)"
  by (auto simp: softmax_desc_def Let_def image_iff Bex_def split: if_splits prod.splits)

lemma softmax_unmasked:
  "ieee (fp32 F) \<Longrightarrow> i \<in> fst ` set (softmax_desc F l) \<Longrightarrow> i < length l \<and> l ! i \<noteq> n_ninf (fp32 F)"
  using softmax_fst [of F l] survivors_unmasked by blast

lemma draw_loop_in: "draw_loop N r acc cand = Some (i, p) \<Longrightarrow> (i, p) \<in> set cand"
  by (induction N r acc cand rule: draw_loop.induct) (auto simp: Let_def split: if_splits)

lemma sample_categorical_in: "sample_categorical N gen cand rng = (Some (i, p), rng') \<Longrightarrow> (i, p) \<in> set cand"
  by (auto simp: sample_categorical_def split: prod.splits option.splits if_splits dest: draw_loop_in last_in_set)

lemma draw_loop_positive:
  assumes "draw_loop N r acc cand = Some (i, p)"
  shows "(i, p) \<in> set cand \<and> \<not> n_le N p (n_nat N 0) \<and> (\<exists>a. n_le N r (n_add N a p))"
  using assms by (induction N r acc cand rule: draw_loop.induct) (auto simp: Let_def split: if_splits)

lemma temperature_probs_masked:
  assumes "ieee (fp32 F)" "\<not> n_tiny (fp32 F) t" "i < length l" "l ! i = n_ninf (fp32 F)"
  shows "\<exists>x. temperature_probs F t l ! i = n_mul (fp32 F) (n_nat (fp32 F) 0) x"
  using assms by (auto simp: temperature_probs_def Let_def ieee_def)

lemma sample_temperature_unmasked:
  assumes "ieee (fp32 F)" "\<not> n_tiny (fp32 F) t" "sample_temperature F gen l t rng = (Some i, rng')"
  shows "(i < length l \<and> l ! i \<noteq> n_ninf (fp32 F)) \<or> i = length l - 1"
proof -
  let ?N = "fp32 F" and ?c = "zip [0..<length l] (temperature_probs F t l)"
  obtain r where r: "gen rng = (r, rng')"
    "(case draw_loop ?N r (n_nat ?N 0) ?c of Some (i, _) \<Rightarrow> Some i
      | None \<Rightarrow> if l = [] then None else Some (length l - 1)) = Some i"
    using assms(2,3) by (auto simp: sample_temperature_def split: prod.splits)
  show ?thesis
  proof (cases "draw_loop ?N r (n_nat ?N 0) ?c")
    case None
    then show ?thesis using r(2) by (auto split: if_splits)
  next
    case (Some ip)
    then obtain p where d: "draw_loop ?N r (n_nat ?N 0) ?c = Some (i, p)" using r(2) by (cases ip) auto
    note D = draw_loop_positive [OF d]
    then have p: "i < length l" "p = temperature_probs F t l ! i"
      by (auto simp: set_zip temperature_probs_def Let_def)
    have "l ! i \<noteq> n_ninf ?N"
      using temperature_probs_masked [OF assms(1,2) p(1)] D p(2) assms(1) unfolding ieee_def by metis
    then show ?thesis using p(1) by simp
  qed
qed

lemma mirostat_v2_unmasked:
  assumes "ieee (fp32 F)" "sample_mirostat_v2 F gen l mu tau eta rng = (Some i, mu', rng')"
  shows "(i < length l \<and> l ! i \<noteq> n_ninf (fp32 F)) \<or> i = 0"
proof (cases "softmax_desc F l = []")
  case True
  then show ?thesis using assms(2) by (simp add: sample_mirostat_v2_def)
next
  case False
  then obtain n p where "(i, p) \<in> set (take n (softmax_desc F l))"
    using assms(2)
    by (auto simp: sample_mirostat_v2_def Let_def split: prod.splits option.splits dest!: sample_categorical_in)
  then have "i \<in> fst ` set (softmax_desc F l)" by (force dest: in_set_takeD)
  then show ?thesis using softmax_unmasked [OF assms(1)] by blast
qed

lemma mirostat_v1_unmasked:
  assumes "ieee (fp32 F)" "sample_mirostat_v1 F gen l mu tau eta m rng = (Some i, mu', rng')"
  shows "(i < length l \<and> l ! i \<noteq> n_ninf (fp32 F)) \<or> i = 0"
proof (cases "softmax_desc F l = []")
  case True
  then show ?thesis using assms(2) by (simp add: sample_mirostat_v1_def)
next
  case False
  then obtain k p where "(i, p) \<in> set (softmax_desc F (apply_top_k (fp32 F) l k))"
    using assms(2)
    by (auto simp: sample_mirostat_v1_def Let_def split: prod.splits option.splits dest!: sample_categorical_in)
  then have "i \<in> fst ` set (softmax_desc F (apply_top_k (fp32 F) l k))" by force
  from softmax_unmasked [OF assms(1) this] have "i < length l" "apply_top_k (fp32 F) l k ! i \<noteq> n_ninf (fp32 F)"
    using apply_top_k_masks [of "fp32 F" l k] by (simp_all add: masks_def)
  then show ?thesis using apply_top_k_masks [of "fp32 F" l k] by (auto simp: masks_def)
qed

text \<open>The pipeline after the grammar mask: an unmasked token, or a fallback of the source.\<close>

lemma draw_unmasked:
  assumes "ieee (fp32 F)" "\<not> n_tiny (fp32 F) (sc_temp cfg)" "draw F gen cfg l mu rng = (Some t, mu', rng')"
  shows "(t < length l \<and> l ! t \<noteq> n_ninf (fp32 F)) \<or> t = (if sc_mirostat cfg = MirostatOff then length l - 1 else 0)"
proof -
  let ?N = "fp32 F"
  define l4 where "l4 = apply_min_p ?N (apply_top_p F (apply_typical F (apply_top_k ?N l (sc_top_k cfg)) (sc_typical_p cfg))
    (sc_top_p cfg)) (sc_min_p cfg)"
  obtain l5 r1 where x: "apply_xtc F gen l4 (sc_xtc_probability cfg) (sc_xtc_threshold cfg) rng = (l5, r1)" by fastforce
  have "masks ?N l l4" unfolding l4_def by (meson mask_intros masks_trans)
  moreover have "masks ?N l4 l5" using apply_xtc_masks [of F l4] x by (metis fst_conv)
  ultimately have m: "masks ?N l l5" by (rule masks_trans)
  have "(t < length l5 \<and> l5 ! t \<noteq> n_ninf ?N) \<or> t = (if sc_mirostat cfg = MirostatOff then length l5 - 1 else 0)"
    using assms(2,3) x
      sample_temperature_unmasked [OF assms(1,2), of gen l5 r1 t]
      mirostat_v1_unmasked [OF assms(1), of gen l5] mirostat_v2_unmasked [OF assms(1), of gen l5]
    by (cases "sc_mirostat cfg") (auto simp: draw_def Let_def l4_def split: prod.splits)
  then show ?thesis using m by (auto simp: masks_def)
qed

lemma argmax_loop_moves:
  assumes "\<And>x. \<not> n_lt N x (n_ninf N)"
  shows "argmax_loop N best bv i vs = best \<and> (\<forall>v \<in> set vs. \<not> n_lt N bv v) \<or>
    i \<le> argmax_loop N best bv i vs \<and> argmax_loop N best bv i vs < i + length vs \<and>
    vs ! (argmax_loop N best bv i vs - i) \<noteq> n_ninf N"
proof (induction vs arbitrary: best bv i)
  case (Cons v vs)
  show ?case
  proof (cases "n_lt N bv v")
    case True
    with assms have "v \<noteq> n_ninf N" by metis
    then show ?thesis using Cons [of i v "i + 1"] True by (auto simp: nth_Cons' Suc_diff_le)
  next
    case False
    then show ?thesis using Cons [of best bv "i + 1"] by (auto simp: nth_Cons' Suc_diff_le)
  qed
qed simp

lemma sample_greedy_unmasked:
  assumes "ieee N" "sample_greedy N l = Some t" "\<exists>v \<in> set l. n_lt N (n_ninf N) v"
  shows "t < length l \<and> l ! t \<noteq> n_ninf N"
proof -
  obtain v vs where l: "l = v # vs" using assms(3) by (cases l) auto
  have t: "t = argmax_loop N 0 v 0 l" using assms(2) l by (simp add: sample_greedy_def)
  from argmax_loop_moves [where N = N, OF ieee_ninf [OF assms(1)], of 0 v 0 l] show ?thesis
    unfolding t [symmetric] using assms(3) l by auto
qed

end
