(* ===== verification/Sampler_Props.thy ===== *)
theory Sampler_Props
  imports Sampler_Dry Sampler_Mask
begin

text \<open>
  The properties of the sampler: the repeat counts of DRY against the reference, and the grammar
  mask. The examples run on \<open>fixed\<close>, integers that count millionths.
\<close>

section \<open>An arithmetic for examples\<close>

definition fixed_ninf :: int where
  "fixed_ninf = - 1000000000000000000000"

definition fixed :: "int flt" where
  "fixed = \<lparr>
     n_add = (\<lambda>a b. if a = fixed_ninf \<or> b = fixed_ninf then fixed_ninf else a + b),
     n_sub = (\<lambda>a b. if a = fixed_ninf then fixed_ninf else a - b),
     n_mul = (\<lambda>a b. if a = fixed_ninf \<or> b = fixed_ninf then fixed_ninf else a * b div 1000000),
     n_div = (\<lambda>a b. if a = fixed_ninf then fixed_ninf else a * 1000000 div b),
     n_lt = (\<lambda>a b. b \<noteq> fixed_ninf \<and> a < b), n_le = (\<le>), n_eq = (=), n_max = max, n_min = min, n_neg = uminus, n_abs = abs,
     n_exp = (\<lambda>a. max 1 (1000000 + a)), n_ln = (\<lambda>a. a - 1000000), n_log2 = (\<lambda>a. a - 1000000),
     n_powi = (\<lambda>a n. a), n_powf = (\<lambda>a b. a), n_ninf = fixed_ninf, n_inf = - fixed_ninf, n_finite = (\<lambda>a. a \<noteq> fixed_ninf),
     n_of_nat = (\<lambda>k. int k * 1000000), n_trunc = (\<lambda>a. a div 1000000), n_total = id,
     n_lit = (\<lambda>a e. a * 1000000 div 10 ^ e)\<rparr>"

definition fixed_fp :: "(int, int) fp" where
  "fixed_fp = \<lparr>fp32 = fixed, fp64 = fixed, fp_up = id, fp_down = id\<rparr>"

lemma fixed_ieee: "ieee (fp32 fixed_fp)"
  by (auto simp: ieee_def fixed_def fixed_fp_def n_nat_def fixed_ninf_def)

section \<open>Live candidates\<close>

lemma token_mask_live:
  assumes "snd (apply_token_mask N l bits) \<noteq> 0"
  shows "\<exists>v \<in> set (fst (apply_token_mask N l bits)). n_lt N (n_ninf N) v"
proof -
  from assms obtain i where i: "i < length l" "mask_allows bits i" "n_lt N (n_ninf N) (l ! i)"
    by (auto simp: apply_token_mask_def filter_empty_conv set_zip)
  then have "fst (apply_token_mask N l bits) ! i = l ! i" "i < length (fst (apply_token_mask N l bits))"
    by (auto simp: apply_token_mask_def)
  then show ?thesis using i(3) nth_mem by metis
qed

section \<open>DRY\<close>

text \<open>
  C39: the reverse Z-algorithm of \<open>apply_dry\<close> gives every token the length of the longest repeat of
  the end of the history that the token would extend, capped by the restart limit, as the
  reference finds by comparing the window with each of its suffixes.
\<close>

theorem dry_repeats_correct:
  "max_token_repeat tokens (min (length tokens) last_n) allowed
     (repeat_counts tokens (min (length tokens) last_n) limit) =
   dry_reference (take last_n (rev tokens)) limit allowed"
proof
  fix t
  have "take (min (length tokens) last_n) (rev tokens) = take last_n (rev tokens)" by (simp add: min_def)
  then show "max_token_repeat tokens (min (length tokens) last_n) allowed
      (repeat_counts tokens (min (length tokens) last_n) limit) t = dry_reference (take last_n (rev tokens)) limit allowed t"
    using max_token_repeat_reference [of "min (length tokens) last_n" tokens allowed limit t] by simp
qed

section \<open>The grammar mask\<close>

text \<open>
  C40: a token the constrained pipeline returns has been accepted by the grammar, and it is a token
  of the vocabulary that the grammar's mask allows, always under the greedy shortcut and otherwise
  unless it is the fallback of the draw, the last token (temperature) or the first one (mirostat).
\<close>

theorem grammar_mask_respected:
  assumes "ieee (fp32 F)" "sc_grammar cfg = Some g" "gr_mask g st = (st1, Ok bits)"
    "sample_with_config_grammar F gen logits cfg prev_tokens mu (Some st) rng = (Ok t, mu', gst, rng')"
  shows "(\<exists>st'. gr_accept g st1 t = (st', Ok ()) \<and> gst = Some st') \<and>
    (t < length logits \<and> mask_allows bits t \<or>
     \<not> n_tiny (fp32 F) (sc_temp cfg) \<and> t = (if sc_mirostat cfg = MirostatOff then length logits - 1 else 0))"
proof -
  let ?N = "fp32 F" and ?d = "apply_deterministic_filters (fp32 F) logits cfg prev_tokens"
  have ld: "length ?d = length logits" by (rule deterministic_length)
  let ?l = "fst (apply_token_mask ?N ?d bits)"
  let ?pick = "if n_tiny ?N (sc_temp cfg) then (sample_greedy ?N ?l, mu, rng) else draw F gen cfg ?l mu rng"
  have con: "constrain ?N ?d (Some g) (Some st) = (Ok ?l, Some st1)" and al: "snd (apply_token_mask ?N ?d bits) \<noteq> 0"
    using assms by (auto simp: sample_with_config_grammar_def constrain_def split: sum.splits if_splits prod.splits)
  have pick: "?pick = (Some t, mu', rng')" and acc: "\<exists>st'. gr_accept g st1 t = (st', Ok ()) \<and> gst = Some st'"
    using assms con by (auto simp: sample_with_config_grammar_def split: option.splits prod.splits sum.splits)
  have ll: "length ?l = length logits" by (simp add: apply_token_mask_def ld)
  have allowed: "mask_allows bits t" if "t < length ?l" "?l ! t \<noteq> n_ninf ?N"
    using that by (auto simp: apply_token_mask_def split: if_splits)
  have live: "\<exists>v \<in> set ?l. n_lt ?N (n_ninf ?N) v" using al by (rule token_mask_live)
  show ?thesis
  proof (cases "n_tiny ?N (sc_temp cfg)")
    case True
    then have "sample_greedy ?N ?l = Some t" using pick by simp
    then show ?thesis using sample_greedy_unmasked [OF assms(1) _ live] allowed ll acc by metis
  next
    case False
    then have "draw F gen cfg ?l mu rng = (Some t, mu', rng')" using pick by simp
    from draw_unmasked [OF assms(1) False this] show ?thesis using allowed ll acc False by metis
  qed
qed

text \<open>A grammar over seven tokens that forbids the last one.\<close>

definition six_of_seven :: "unit Grammar" where
  "six_of_seven = \<lparr>gr_n_vocab = 7, gr_mask = (\<lambda>st. (st, Ok [63])), gr_accept = (\<lambda>st t. (st, Ok ())), gr_describe = (\<lambda>_. [])\<rparr>"

definition plain_config :: "int \<Rightarrow> (int, unit) SamplerConfig" where
  "plain_config t = (default_config fixed)\<lparr>sc_temp := t, sc_top_k := 0, sc_top_p := 1000000, sc_repeat_penalty := 1000000,
     sc_grammar := Some six_of_seven\<rparr>"

theorem grammar_mask_respected_witness:
  "\<exists>t. fst (sample_with_config_grammar fixed_fp (\<lambda>r. (r, r)) [1, 2, 3, 4, 9, 5, 10] (plain_config 0) [] 0 (Some ()) 0) = Ok t \<and>
     mask_allows [63] t"
proof -
  let ?s = "sample_with_config_grammar fixed_fp (\<lambda>r. (r, r)) [1, 2, 3, 4, 9, 5, 10] (plain_config 0) [] 0 (Some ()) (0 :: int)"
  have s: "?s = (Ok 4, 0, Some (), 0)" by code_simp
  have t: "n_tiny (fp32 fixed_fp) (sc_temp (plain_config 0))" by code_simp
  have g: "sc_grammar (plain_config 0) = Some six_of_seven" "gr_mask six_of_seven () = ((), Ok [63])"
    by (simp_all add: plain_config_def six_of_seven_def)
  from grammar_mask_respected [OF fixed_ieee g s] t show ?thesis unfolding s by simp
qed

text \<open>
  The exception is real: six equal candidates of 0.166666 sum to 0.999996, a draw of 0.999999
  runs past them and the forbidden seventh token is returned.
\<close>

lemma fallback_draws_forbidden:
  "fst (sample_with_config_grammar fixed_fp (\<lambda>r. (999999, r)) [0, 0, 0, 0, 0, 0, 0] (plain_config 1000000) [] 0 (Some ()) ()) = Ok 6 \<and>
   \<not> mask_allows [63] 6"
  by code_simp

end
