(* ===== verification/Spec_Decode.thy ===== *)
theory Spec_Decode
  imports Sampler
begin

text \<open>
  Speculative decoding (\<open>src/spec.rs\<close>) and the two generation loops of \<open>src/main.rs\<close>: the adaptive
  depth controller, the gates on the draft model, the round (draft, verify, accept, repair), the
  round loop and the plain decode loop with their stop machinery. A model is a parameter: what
  \<open>forward_graph_cached\<close> returns and how it changes the cache (\<open>'c\<close>). The wall-clock readings of a
  round are arguments. A panic is \<open>None\<close>.
\<close>

record ('c, 'f) ModelDef =
  forward :: "nat list \<Rightarrow> nat list \<Rightarrow> nat \<Rightarrow> nat \<Rightarrow> 'c \<Rightarrow> 'f list \<times> 'c"

section \<open>The adaptive depth controller\<close>

record SpecConfig =
  draft_path :: string
  cfg_draft_n :: nat
  cfg_adaptive :: bool

record SpecStats =
  ss_rounds :: nat
  ss_drafted :: nat
  ss_accepted :: nat
  ss_repairs :: nat
  ss_d_sum :: nat

record 'd AdaptiveD =
  d_max :: nat
  ad_succ :: "nat list"
  ad_n :: "nat list"
  ad_v :: "'d list"
  ad_v_win :: "'d list list"
  t_draft :: 'd
  t_draft_win :: "'d list"
  ad_rounds :: nat
  last_pick :: nat
  last_score :: 'd
  d_counts :: "nat list"

definition AD_COST_WINDOW :: nat where
  "AD_COST_WINDOW = 4"

definition AD_MIN_TRIALS :: nat where
  "AD_MIN_TRIALS = 8"

definition min_window_update :: "'d flt \<Rightarrow> 'd \<Rightarrow> 'd list \<Rightarrow> 'd list \<times> 'd" where
  "min_window_update D sample win =
     (let w = win @ [sample]; w' = (if AD_COST_WINDOW < length w then drop 1 w else w) in
      (w', foldl (n_min D) (n_inf D) w'))"

text \<open>The prior of the verify cost: linear between the measured points, extended past the last one.\<close>

fun prior_cost :: "'d flt \<Rightarrow> nat \<Rightarrow> (nat \<times> 'd) list \<Rightarrow> 'd" where
  "prior_cost D nt ((a, x) # (b, y) # rest) =
     (if nt \<le> b \<or> rest = []
      then if nt \<le> b
           then n_add D x (n_mul D (n_div D (n_of_nat D (nt - a)) (n_of_nat D (b - a))) (n_sub D y x))
           else n_add D y (n_mul D (n_div D (n_sub D y x) (n_of_nat D (b - a))) (n_of_nat D (nt - b)))
      else prior_cost D nt ((b, y) # rest))"
| "prior_cost D nt pts = n_nat D 0"

definition cost_points :: "'d flt \<Rightarrow> (nat \<times> 'd) list" where
  "cost_points D = [(1, n_lit D 397 1), (3, n_lit D 486 1), (5, n_lit D 562 1), (9, n_lit D 730 1)]"

definition prior :: "'d flt \<Rightarrow> nat \<Rightarrow> 'd" where
  "prior D nt = (if nt \<le> 1 then n_lit D 397 1 else prior_cost D nt (cost_points D))"

definition adaptive_new :: "'d flt \<Rightarrow> nat \<Rightarrow> 'd AdaptiveD" where
  "adaptive_new D m =
     (let dm = max m 1 in
      \<lparr>d_max = dm, ad_succ = replicate dm 0, ad_n = replicate dm 0, ad_v = map (prior D) [2..<dm + 2],
       ad_v_win = map (\<lambda>_. []) [2..<dm + 2], t_draft = n_lit D 17 1, t_draft_win = [], ad_rounds = 0,
       last_pick = 0, last_score = n_nat D 0, d_counts = replicate dm 0\<rparr>)"

definition observe_draft :: "'d flt \<Rightarrow> 'd \<Rightarrow> nat \<Rightarrow> 'd AdaptiveD \<Rightarrow> 'd AdaptiveD" where
  "observe_draft D total_ms n ad =
     (if n = 0 then ad
      else case min_window_update D (n_div D total_ms (n_of_nat D n)) (t_draft_win ad) of
             (win, t) \<Rightarrow> ad\<lparr>t_draft_win := win, t_draft := t\<rparr>)"

definition observe_verify :: "'d flt \<Rightarrow> nat \<Rightarrow> 'd \<Rightarrow> 'd AdaptiveD \<Rightarrow> 'd AdaptiveD" where
  "observe_verify D nt ms ad =
     (if 2 \<le> nt \<and> nt - 2 < length (ad_v ad)
      then case min_window_update D ms (ad_v_win ad ! (nt - 2)) of
             (win, t) \<Rightarrow> ad\<lparr>ad_v_win := (ad_v_win ad)[nt - 2 := win], ad_v := (ad_v ad)[nt - 2 := t]\<rparr>
      else ad)"

text \<open>Both counters have 32 bits: the successes wrap around, the trials saturate.\<close>

definition observe_at :: "nat \<Rightarrow> nat \<Rightarrow> 'd AdaptiveD \<Rightarrow> 'd AdaptiveD" where
  "observe_at accepted j ad =
     ad\<lparr>ad_succ := (if j < accepted then (ad_succ ad)[j := (ad_succ ad ! j + 1) mod 2 ^ 32] else ad_succ ad),
        ad_n := (ad_n ad)[j := min (ad_n ad ! j + 1) (2 ^ 32 - 1)]\<rparr>"

definition observe_round :: "nat \<Rightarrow> nat \<Rightarrow> 'd AdaptiveD \<Rightarrow> 'd AdaptiveD" where
  "observe_round d_r accepted ad = fold (observe_at accepted) [0..<min d_r (length (ad_succ ad))] ad"

definition laplace :: "'d flt \<Rightarrow> 'd AdaptiveD \<Rightarrow> nat \<Rightarrow> 'd" where
  "laplace D ad j =
     n_div D (n_add D (n_of_nat D (ad_succ ad ! j)) (n_lit D 5 1)) (n_add D (n_of_nat D (ad_n ad ! j)) (n_lit D 15 1))"

definition first_rate :: "'d flt \<Rightarrow> 'd AdaptiveD \<Rightarrow> 'd" where
  "first_rate D ad = (if 0 < ad_n ad ! 0 then laplace D ad 0 else n_lit D 75 2)"

definition pick_rate :: "'d flt \<Rightarrow> 'd AdaptiveD \<Rightarrow> nat \<Rightarrow> 'd" where
  "pick_rate D ad j =
     (if ad_n ad ! j = 0 then first_rate D ad
      else n_max D (laplace D ad j) (if ad_n ad ! j < AD_MIN_TRIALS then first_rate D ad else laplace D ad j))"

definition plain_rate :: "'d flt \<Rightarrow> 'd AdaptiveD \<Rightarrow> nat \<Rightarrow> 'd" where
  "plain_rate D ad j = (if ad_n ad ! j = 0 then first_rate D ad else laplace D ad j)"

text \<open>The projected throughput of a depth under given acceptance rates.\<close>

definition score :: "'d flt \<Rightarrow> (nat \<Rightarrow> 'd) \<Rightarrow> 'd AdaptiveD \<Rightarrow> nat \<Rightarrow> 'd" where
  "score D rate ad cand =
     (let e = snd (fold (\<lambda>j (run_p, e). let p = n_mul D run_p (rate j) in (p, n_add D e p)) [0..<cand]
                (n_nat D 1, n_nat D 1))
      in n_div D e (n_add D (ad_v ad ! (cand - 1)) (n_mul D (n_of_nat D cand) (t_draft ad))))"

definition depth_step :: "'d flt \<Rightarrow> 'd AdaptiveD \<Rightarrow> nat \<Rightarrow> nat \<times> 'd \<Rightarrow> nat \<times> 'd" where
  "depth_step D ad cand best =
     (let s = score D (pick_rate D ad) ad cand in if n_lt D (snd best) s then (cand, s) else best)"

definition best_depth :: "'d flt \<Rightarrow> 'd AdaptiveD \<Rightarrow> nat \<Rightarrow> nat \<times> 'd" where
  "best_depth D ad d_cap = fold (depth_step D ad) [1..<d_cap + 1] (1, n_ninf D)"

definition pick :: "'d flt \<Rightarrow> nat \<Rightarrow> 'd AdaptiveD \<Rightarrow> nat \<times> 'd AdaptiveD" where
  "pick D horizon ad =
     (let d_cap = min (d_max ad) horizon in
      if d_cap = 0 then (0, ad)
      else (case best_depth D ad d_cap of
              (best_d, best_score) \<Rightarrow>
                (let d = (if 1 \<le> last_pick ad \<and> last_pick ad \<le> d_cap \<and> best_d \<noteq> last_pick ad \<and>
                             n_lt D best_score (n_mul D (last_score ad) (n_add D (n_nat D 1) (n_lit D 10 2)))
                          then last_pick ad else best_d);
                     s = (if d = best_d then best_score else score D (plain_rate D ad) ad d)
                 in (d, ad\<lparr>ad_rounds := ad_rounds ad + 1, last_score := s,
                          d_counts := (d_counts ad)[d - 1 := d_counts ad ! (d - 1) + 1]\<rparr>))))"

section \<open>The engine and its gates\<close>

record TokenizerInfo =
  id_to_token :: "string list"
  bos_token :: nat
  eos_token :: nat

datatype spec_error =
    PackedCache
  | DraftLoad string
  | VocabMismatch nat nat
  | SpecialMismatch
  | TextMismatch nat
  | SpecPanic

record ('c, 'f, 'd) SpecEngine =
  draft :: "('c, 'f) ModelDef"
  draft_cache :: 'c
  draft_n :: nat
  adaptive :: "'d AdaptiveD option"
  stats :: SpecStats

definition stats_new :: SpecStats where
  "stats_new = \<lparr>ss_rounds = 0, ss_drafted = 0, ss_accepted = 0, ss_repairs = 0, ss_d_sum = 0\<rparr>"

text \<open>The first id up to \<open>eos_bound\<close> whose texts differ; an id outside a table panics.\<close>

fun text_gate :: "TokenizerInfo \<Rightarrow> TokenizerInfo \<Rightarrow> nat \<Rightarrow> nat list \<Rightarrow> (spec_error, unit) res" where
  "text_gate dtok ttok eos_bound [] = Ok ()"
| "text_gate dtok ttok eos_bound (i # is) =
     (if length (id_to_token dtok) \<le> i \<or> length (id_to_token ttok) \<le> i then Err SpecPanic
      else if id_to_token dtok ! i \<noteq> id_to_token ttok ! i \<and> i \<le> eos_bound then Err (TextMismatch i)
      else text_gate dtok ttok eos_bound is)"

definition spec_new ::
  "'d flt \<Rightarrow> (string \<Rightarrow> (string, ('c, 'f) ModelDef \<times> TokenizerInfo) res) \<Rightarrow> 'c \<Rightarrow>
   SpecConfig \<Rightarrow> TokenizerInfo \<Rightarrow> nat \<Rightarrow> bool \<Rightarrow> (spec_error, ('c, 'f, 'd) SpecEngine) res" where
  "spec_new D load cache_new cfg ttok target_vocab packed =
     (if packed then Err PackedCache
      else case load (draft_path cfg) of
             Inl e \<Rightarrow> Err (DraftLoad e)
           | Inr (model, dtok) \<Rightarrow>
               (let tv = target_vocab; dv = length (id_to_token dtok) in
                if 128 < (if tv \<le> dv then dv - tv else tv - dv) then Err (VocabMismatch tv dv)
                else if bos_token dtok \<noteq> bos_token ttok \<or> eos_token dtok \<noteq> eos_token ttok then Err SpecialMismatch
                else case text_gate dtok ttok (max (eos_token ttok) (eos_token dtok)) [0..<min tv dv] of
                       Inl e \<Rightarrow> Err e
                     | Inr _ \<Rightarrow>
                         (let cap = (if cfg_adaptive cfg then min (cfg_draft_n cfg) 7 else cfg_draft_n cfg) in
                          Ok \<lparr>draft = model, draft_cache = cache_new, draft_n = cap,
                              adaptive = (if cfg_adaptive cfg then Some (adaptive_new D cap) else None),
                              stats = stats_new\<rparr>)))"

definition reset_draft :: "'c \<Rightarrow> ('c, 'f, 'd) SpecEngine \<Rightarrow> ('c, 'f, 'd) SpecEngine" where
  "reset_draft cache_new en = en\<lparr>draft_cache := cache_new\<rparr>"

definition prefill :: "nat list \<Rightarrow> nat \<Rightarrow> ('c, 'f, 'd) SpecEngine \<Rightarrow> ('c, 'f, 'd) SpecEngine" where
  "prefill tokens n_ctx en =
     en\<lparr>draft_cache := snd (forward (draft en) tokens [0..<length tokens] 1 n_ctx (draft_cache en))\<rparr>"

section \<open>A round\<close>

definition push_capped :: "nat list \<Rightarrow> nat \<Rightarrow> nat list" where
  "push_capped prev_tokens t =
     (let w = prev_tokens @ [t] in if REPEAT_LAST_N < length w then drop (length w - REPEAT_LAST_N) w else w)"

definition argmax :: "'n flt \<Rightarrow> 'n list \<Rightarrow> nat" where
  "argmax N logits = argmax_loop N 0 (n_ninf N) 0 logits"

definition draft_proposal :: "'n flt \<Rightarrow> 'n list \<Rightarrow> ('n, 'g) SamplerConfig \<Rightarrow> nat list \<Rightarrow> nat" where
  "draft_proposal N logits cfg window = argmax N (apply_deterministic_filters N logits cfg window)"

text \<open>The draft phase: the proposals and the cache of the draft model.\<close>

fun draft_loop ::
  "'f flt \<Rightarrow> ('c, 'f) ModelDef \<Rightarrow> ('f, 'g) SamplerConfig \<Rightarrow> nat \<Rightarrow> nat \<Rightarrow> nat \<Rightarrow> nat \<Rightarrow> nat list \<Rightarrow> 'c \<Rightarrow> nat list \<times> 'c" where
  "draft_loop N M cfg n_ctx 0 pos tok window c = ([], c)"
| "draft_loop N M cfg n_ctx (Suc d) pos tok window c =
     (case forward M [tok] [pos] 1 n_ctx c of
        (logits, c1) \<Rightarrow>
          (let t = draft_proposal N logits cfg window in
           case draft_loop N M cfg n_ctx d (pos + 1) t (push_capped window t) c1 of (ts, c2) \<Rightarrow> (t # ts, c2)))"

text \<open>
  The accept loop from row \<open>i\<close> with the proposals that are left: the emitted tokens, how many of
  them were proposed, the window and the generator. The mirostat state is local to the round.
\<close>

fun accept_rows ::
  "('f, 'd) fp \<Rightarrow> ('r \<Rightarrow> 'f \<times> 'r) \<Rightarrow> ('f, 'g) SamplerConfig \<Rightarrow> 'f list \<Rightarrow> nat \<Rightarrow> nat \<Rightarrow> nat list \<Rightarrow> nat list \<Rightarrow> 'f \<Rightarrow> 'r \<Rightarrow>
   (nat list \<times> nat \<times> nat list \<times> 'r) option" where
  "accept_rows F gen cfg logits nv i [] prev_tokens mu rng =
     (case sample_with_config F gen (take nv (drop (i * nv) logits)) cfg prev_tokens mu rng of
        (None, _, _) \<Rightarrow> None
      | (Some t, _, rng') \<Rightarrow> Some ([t], 0, push_capped prev_tokens t, rng'))"
| "accept_rows F gen cfg logits nv i (p # ps) prev_tokens mu rng =
     (case sample_with_config F gen (take nv (drop (i * nv) logits)) cfg prev_tokens mu rng of
        (None, _, _) \<Rightarrow> None
      | (Some t, mu', rng') \<Rightarrow>
          if t = p
          then (case accept_rows F gen cfg logits nv (i + 1) ps (push_capped prev_tokens p) mu' rng' of
                  None \<Rightarrow> None
                | Some (ts, k, prev', rng'') \<Rightarrow> Some (p # ts, k + 1, prev', rng''))
          else Some ([t], 0, push_capped prev_tokens t, rng'))"

definition accept_loop ::
  "('f, 'd) fp \<Rightarrow> ('r \<Rightarrow> 'f \<times> 'r) \<Rightarrow> ('f, 'g) SamplerConfig \<Rightarrow> 'f list \<Rightarrow> nat list \<Rightarrow> nat list \<Rightarrow> 'r \<Rightarrow>
   (nat list \<times> nat \<times> nat list \<times> 'r) option" where
  "accept_loop F gen cfg logits proposals prev_tokens rng =
     accept_rows F gen cfg logits (length logits div (length proposals + 1)) 0 proposals prev_tokens
       (mirostat_new (fp32 F) (sc_mirostat_tau cfg)) rng"

text \<open>A plain step: one forward of the target, one sample.\<close>

definition plain_step ::
  "('f, 'd) fp \<Rightarrow> ('r \<Rightarrow> 'f \<times> 'r) \<Rightarrow> ('f, 'g) SamplerConfig \<Rightarrow> ('c, 'f) ModelDef \<Rightarrow> nat \<Rightarrow> nat \<Rightarrow> nat \<Rightarrow> nat list \<Rightarrow> 'c \<Rightarrow> 'r \<Rightarrow>
   (nat \<times> nat list \<times> 'c \<times> 'r) option" where
  "plain_step F gen cfg M n_ctx tok pos prev_tokens c rng =
     (case forward M [tok] [pos] 1 n_ctx c of
        (row, c') \<Rightarrow>
          (case sample_with_config F gen row cfg prev_tokens (mirostat_new (fp32 F) (sc_mirostat_tau cfg)) rng of
             (None, _, _) \<Rightarrow> None
           | (Some t, _, rng') \<Rightarrow> Some (t, push_capped prev_tokens t, c', rng')))"

definition choose_depth :: "'d flt \<Rightarrow> nat \<Rightarrow> ('c, 'f, 'd) SpecEngine \<Rightarrow> nat \<times> ('c, 'f, 'd) SpecEngine" where
  "choose_depth D horizon en =
     (case adaptive en of
        Some ad \<Rightarrow> (case pick D horizon ad of (d, ad') \<Rightarrow> (d, en\<lparr>adaptive := Some ad'\<rparr>))
      | None \<Rightarrow> (min (draft_n en) horizon, en))"

definition observe :: "'d flt \<Rightarrow> nat \<Rightarrow> 'd \<Rightarrow> 'd \<Rightarrow> nat \<Rightarrow> ('c, 'f, 'd) SpecEngine \<Rightarrow> ('c, 'f, 'd) SpecEngine" where
  "observe D d draft_ms verify_ms accepted en =
     en\<lparr>adaptive := map_option (\<lambda>ad. observe_round d accepted (observe_verify D (d + 1) verify_ms (observe_draft D draft_ms d ad)))
          (adaptive en),
        stats := (stats en)\<lparr>ss_rounds := ss_rounds (stats en) + 1, ss_drafted := ss_drafted (stats en) + d,
          ss_accepted := ss_accepted (stats en) + accepted, ss_d_sum := ss_d_sum (stats en) + d\<rparr>\<rparr>"

text \<open>A full acceptance leaves the last proposal unforwarded: the draft model catches up.\<close>

definition repair :: "nat \<Rightarrow> nat list \<Rightarrow> nat list \<Rightarrow> nat \<Rightarrow> ('c, 'f, 'd) SpecEngine \<Rightarrow> ('c, 'f, 'd) SpecEngine" where
  "repair n_ctx proposals emitted pos en =
     (let d = length proposals in
      if length emitted = d + 1
      then en\<lparr>draft_cache := snd (forward (draft en) [proposals ! (d - 1)] [pos + d] 1 n_ctx (draft_cache en)),
              stats := (stats en)\<lparr>ss_repairs := ss_repairs (stats en) + 1\<rparr>\<rparr>
      else en)"

definition spec_round ::
  "('f, 'd) fp \<Rightarrow> ('r \<Rightarrow> 'f \<times> 'r) \<Rightarrow> ('f, 'g) SamplerConfig \<Rightarrow> ('c, 'f) ModelDef \<Rightarrow> nat \<Rightarrow> 'd \<Rightarrow> 'd \<Rightarrow>
   ('c, 'f, 'd) SpecEngine \<Rightarrow> 'c \<Rightarrow> nat \<Rightarrow> nat \<Rightarrow> nat list \<Rightarrow> 'r \<Rightarrow>
   (nat list \<times> ('c, 'f, 'd) SpecEngine \<times> 'c \<times> nat list \<times> 'r) option" where
  "spec_round F gen cfg target n_ctx draft_ms verify_ms en target_cache next_token pos prev_tokens rng =
     (case choose_depth (fp64 F) (n_ctx - (pos + 1)) en of
        (d, en1) \<Rightarrow>
          if d = 0
          then (case plain_step F gen cfg target n_ctx next_token pos prev_tokens target_cache rng of
                  None \<Rightarrow> None
                | Some (t, prev', c', rng') \<Rightarrow>
                    Some ([t], en1\<lparr>stats := (stats en1)\<lparr>ss_rounds := ss_rounds (stats en1) + 1\<rparr>\<rparr>, c', prev', rng'))
          else (case draft_loop (fp32 F) (draft en1) cfg n_ctx d pos next_token prev_tokens (draft_cache en1) of
                  (proposals, dc) \<Rightarrow>
                    (case forward target (next_token # proposals) [pos..<pos + d + 1] (d + 1) n_ctx target_cache of
                       (logits, c') \<Rightarrow>
                         (case accept_loop F gen cfg logits proposals prev_tokens rng of
                            None \<Rightarrow> None
                          | Some (emitted, accepted, prev', rng') \<Rightarrow>
                              Some (emitted,
                                repair n_ctx proposals emitted pos
                                  (observe (fp64 F) d draft_ms verify_ms accepted (en1\<lparr>draft_cache := dc\<rparr>)),
                                c', prev', rng')))))"

section \<open>Generation\<close>

text \<open>What a generation loop has produced: the tokens, the bytes, how many of them were written out.\<close>

record Output =
  generated :: "nat list"
  o_full :: "8 word list"
  o_emitted :: nat
  o_written :: "8 word list"

record Stops =
  is_stop :: "nat \<Rightarrow> bool"
  decode_token :: "nat \<Rightarrow> 8 word list"
  stop_strings :: "8 word list list"
  n_predict :: nat

definition flush :: "Output \<Rightarrow> Output" where
  "flush out =
     (if o_emitted out < length (o_full out)
      then out\<lparr>o_written := o_written out @ drop (o_emitted out) (o_full out), o_emitted := length (o_full out)\<rparr> else out)"

text \<open>The per-token machinery of both loops: stop tokens, stop strings, output. True means stop.\<close>

definition feed_token :: "Stops \<Rightarrow> nat \<Rightarrow> Output \<Rightarrow> Output \<times> bool" where
  "feed_token P tok out =
     (if is_stop P tok then (out, True)
      else (let out1 = out\<lparr>generated := generated out @ [tok], o_full := o_full out @ decode_token P tok\<rparr> in
            case match_stop_suffix (o_full out1) (stop_strings P) of
              Some at \<Rightarrow> (flush (out1\<lparr>o_full := take at (o_full out1)\<rparr>), True)
            | None \<Rightarrow> (flush out1, False)))"

text \<open>The tokens of a round: how many were consumed, and whether to stop.\<close>

fun feed_round :: "Stops \<Rightarrow> nat list \<Rightarrow> Output \<Rightarrow> nat \<Rightarrow> Output \<times> nat \<times> bool" where
  "feed_round P [] out consumed = (out, consumed, False)"
| "feed_round P (t # ts) out consumed =
     (if n_predict P \<le> length (generated out) then (out, consumed, False)
      else case feed_token P t out of
             (out', True) \<Rightarrow> (out', consumed, True)
           | (out', False) \<Rightarrow> feed_round P ts out' (consumed + 1))"

text \<open>The round loop; \<open>fuel\<close> bounds the number of rounds, \<open>ms\<close> gives their clock readings.\<close>

fun spec_loop ::
  "nat \<Rightarrow> ('f, 'd) fp \<Rightarrow> ('r \<Rightarrow> 'f \<times> 'r) \<Rightarrow> ('f, 'g) SamplerConfig \<Rightarrow> ('c, 'f) ModelDef \<Rightarrow> nat \<Rightarrow> (nat \<Rightarrow> 'd \<times> 'd) \<Rightarrow> Stops \<Rightarrow>
   ('c, 'f, 'd) SpecEngine \<Rightarrow> 'c \<Rightarrow> nat \<Rightarrow> nat \<Rightarrow> nat list \<Rightarrow> 'r \<Rightarrow> Output \<Rightarrow> Output option" where
  "spec_loop 0 F gen cfg M n_ctx ms P en c tok pos prev rng out =
     (if n_predict P \<le> length (generated out) then Some out else None)"
| "spec_loop (Suc fuel) F gen cfg M n_ctx ms P en c tok pos prev rng out =
     (if n_predict P \<le> length (generated out) then Some out
      else case spec_round F gen cfg M n_ctx (fst (ms fuel)) (snd (ms fuel)) en c tok pos prev rng of
             None \<Rightarrow> None
           | Some (ts, en', c', prev', rng') \<Rightarrow>
               (case feed_round P ts out 0 of
                  (out', consumed, stop) \<Rightarrow>
                    if stop then Some out'
                    else if consumed = 0 then None
                    else spec_loop fuel F gen cfg M n_ctx ms P en' c' (ts ! (consumed - 1)) (pos + consumed) prev' rng' out'))"

definition out_new :: Output where
  "out_new = \<lparr>generated = [], o_full = [], o_emitted = 0, o_written = []\<rparr>"

text \<open>The first token of the round loop comes from the prefill; its window is not trimmed there.\<close>

definition generate_spec ::
  "nat \<Rightarrow> ('f, 'd) fp \<Rightarrow> ('r \<Rightarrow> 'f \<times> 'r) \<Rightarrow> ('f, 'g) SamplerConfig \<Rightarrow> ('c, 'f) ModelDef \<Rightarrow> nat \<Rightarrow> (nat \<Rightarrow> 'd \<times> 'd) \<Rightarrow> Stops \<Rightarrow>
   ('c, 'f, 'd) SpecEngine \<Rightarrow> nat list \<Rightarrow> 'c \<Rightarrow> 'r \<Rightarrow> Output option" where
  "generate_spec fuel F gen cfg M n_ctx ms P en input_ids c rng =
     (case forward M input_ids [0..<length input_ids] 1 n_ctx c of
        (logits, c1) \<Rightarrow>
          (let prev = recent_window input_ids REPEAT_LAST_N in
           case sample_with_config F gen logits cfg prev (mirostat_new (fp32 F) (sc_mirostat_tau cfg)) rng of
             (None, _, _) \<Rightarrow> None
           | (Some t, _, rng1) \<Rightarrow>
               (case feed_token P t out_new of
                  (out, True) \<Rightarrow> Some (flush out)
                | (out, False) \<Rightarrow>
                    map_option flush (spec_loop fuel F gen cfg M n_ctx ms P (prefill input_ids n_ctx en) c1 t
                      (length input_ids) (prev @ [t]) rng1 out))))"

text \<open>The plain loop, without a grammar; the mirostat state is carried from token to token.\<close>

fun plain_loop ::
  "nat \<Rightarrow> ('f, 'd) fp \<Rightarrow> ('r \<Rightarrow> 'f \<times> 'r) \<Rightarrow> ('f, 'g) SamplerConfig \<Rightarrow> ('c, 'f) ModelDef \<Rightarrow> nat \<Rightarrow> Stops \<Rightarrow>
   'f list \<Rightarrow> 'c \<Rightarrow> nat \<Rightarrow> nat list \<Rightarrow> 'f \<Rightarrow> 'g option \<Rightarrow> 'r \<Rightarrow> Output \<Rightarrow> Output option" where
  "plain_loop 0 F gen cfg M n_ctx P logits c pos prev mu gst rng out =
     (if n_predict P \<le> length (generated out) then Some out else None)"
| "plain_loop (Suc fuel) F gen cfg M n_ctx P logits c pos prev mu gst rng out =
     (if n_predict P \<le> length (generated out) then Some out
      else case sample_with_config_grammar F gen logits cfg prev mu gst rng of
             (Inl SamplePanic, _, _, _) \<Rightarrow> None
           | (Inl _, _, _, _) \<Rightarrow> Some out
           | (Inr t, mu', gst', rng') \<Rightarrow>
               (case feed_token P t out of
                  (out', True) \<Rightarrow> Some out'
                | (out', False) \<Rightarrow>
                    (case forward M [t] [pos] 1 n_ctx c of
                       (logits', c') \<Rightarrow>
                         plain_loop fuel F gen cfg M n_ctx P logits' c' (pos + 1) (push_capped prev t) mu' gst' rng' out')))"

definition generate_plain ::
  "nat \<Rightarrow> ('f, 'd) fp \<Rightarrow> ('r \<Rightarrow> 'f \<times> 'r) \<Rightarrow> ('f, 'g) SamplerConfig \<Rightarrow> ('c, 'f) ModelDef \<Rightarrow> nat \<Rightarrow> Stops \<Rightarrow>
   nat list \<Rightarrow> 'c \<Rightarrow> 'g option \<Rightarrow> 'r \<Rightarrow> Output option" where
  "generate_plain fuel F gen cfg M n_ctx P input_ids c gst rng =
     (case forward M input_ids [0..<length input_ids] 1 n_ctx c of
        (logits, c1) \<Rightarrow>
          map_option flush (plain_loop fuel F gen cfg M n_ctx P logits c1 (length input_ids)
            (recent_window input_ids REPEAT_LAST_N) (mirostat_new (fp32 F) (sc_mirostat_tau cfg)) gst rng out_new))"

end
