(* ===== verification/Spec_Sequential.thy ===== *)
theory Spec_Sequential
  imports Spec_Decode Sampler_Mask
begin

text \<open>
  The speculative loop and the plain loop against one reference, a stream of tokens over histories.
  What the argument needs of the target model is \<open>causal\<close>: a forward writes the rows of its tokens,
  and the logits of a row depend on the tokens up to it only, however many rows are computed at once.
\<close>

section \<open>Causal models\<close>

text \<open>\<open>hist c p\<close> is the token whose row is at position \<open>p\<close>; \<open>lg h\<close> are the logits after history \<open>h\<close>.\<close>

definition causal :: "('c, 'f) ModelDef \<Rightarrow> (nat list \<Rightarrow> 'f list) \<Rightarrow> nat \<Rightarrow> ('c \<Rightarrow> nat \<Rightarrow> nat) \<Rightarrow> bool" where
  "causal M lg nv hist \<longleftrightarrow> (\<forall>h. length (lg h) = nv) \<and>
     (\<forall>toks pos n_out n_ctx c. 0 < n_out \<longrightarrow> n_out \<le> length toks \<longrightarrow> pos + length toks \<le> n_ctx \<longrightarrow>
        (\<forall>p. hist (snd (forward M toks [pos..<pos + length toks] n_out n_ctx c)) p =
           (if pos \<le> p \<and> p < pos + length toks then toks ! (p - pos) else hist c p)) \<and>
        fst (forward M toks [pos..<pos + length toks] n_out n_ctx c) =
          concat (map (\<lambda>i. lg (map (hist c) [0..<pos] @ take (i + 1) toks)) [length toks - n_out..<length toks]))"

lemma causal_row: "causal M lg nv hist \<Longrightarrow> length (lg h) = nv"
  by (simp add: causal_def)

lemma causal_forward:
  assumes "causal M lg nv hist" "0 < n_out" "n_out \<le> length toks" "pos + length toks \<le> n_ctx"
    "forward M toks [pos..<pos + length toks] n_out n_ctx c = (l, c')"
  shows "map (hist c') [0..<pos + length toks] = map (hist c) [0..<pos] @ toks"
    and "l = concat (map (\<lambda>i. lg (map (hist c) [0..<pos] @ take (i + 1) toks)) [length toks - n_out..<length toks])"
proof -
  have C: "(\<forall>p. hist (snd (forward M toks [pos..<pos + length toks] n_out n_ctx c)) p =
      (if pos \<le> p \<and> p < pos + length toks then toks ! (p - pos) else hist c p)) \<and>
    fst (forward M toks [pos..<pos + length toks] n_out n_ctx c) =
      concat (map (\<lambda>i. lg (map (hist c) [0..<pos] @ take (i + 1) toks)) [length toks - n_out..<length toks])"
    using assms(1-4) unfolding causal_def by blast
  then show "l = concat (map (\<lambda>i. lg (map (hist c) [0..<pos] @ take (i + 1) toks)) [length toks - n_out..<length toks])"
    using assms(5) by simp
  have h: "hist c' p = (if pos \<le> p \<and> p < pos + length toks then toks ! (p - pos) else hist c p)" for p
    using C assms(5) by simp
  show "map (hist c') [0..<pos + length toks] = map (hist c) [0..<pos] @ toks"
    by (rule nth_equalityI) (auto simp: h nth_append)
qed

lemma causal_step:
  assumes "causal M lg nv hist" "pos < n_ctx" "forward M [tok] [pos] 1 n_ctx c = (l, c')"
  shows "map (hist c') [0..<Suc pos] = map (hist c) [0..<pos] @ [tok]"
    and "l = lg (map (hist c) [0..<pos] @ [tok])"
  using causal_forward [OF assms(1), of 1 "[tok]" pos n_ctx c l c'] assms(2,3) by auto

lemma causal_prefill:
  assumes "causal M lg nv hist" "input_ids \<noteq> []" "length input_ids \<le> n_ctx"
    "forward M input_ids [0..<length input_ids] 1 n_ctx c = (l, c')"
  shows "map (hist c') [0..<length input_ids] = input_ids" and "l = lg input_ids"
proof -
  obtain m where m: "length input_ids = Suc m" using assms(2) by (cases input_ids) auto
  have "[length input_ids - 1..<length input_ids] = [m]" unfolding m by simp
  then show "map (hist c') [0..<length input_ids] = input_ids" "l = lg input_ids"
    using causal_forward [OF assms(1), of 1 input_ids 0 n_ctx c l c'] assms(2-4) m by simp_all
qed

section \<open>The stream\<close>

definition unconstrained :: "('f, 'g) SamplerConfig \<Rightarrow> bool" where
  "unconstrained cfg \<longleftrightarrow> sc_grammar cfg = None \<and> sc_mirostat cfg = MirostatOff"

definition sampled :: "('f, 'd) fp \<Rightarrow> ('r \<Rightarrow> 'f \<times> 'r) \<Rightarrow> ('f, 'g) SamplerConfig \<Rightarrow> 'f list \<Rightarrow> nat list \<Rightarrow> 'r \<Rightarrow> nat \<times> 'r" where
  "sampled F gen cfg row prev rng =
     (case sample_with_config F gen row cfg prev (n_nat (fp32 F) 0) rng of (t, _, rng') \<Rightarrow> (the t, rng'))"

lemma masks_Nil: "masks N l l' \<Longrightarrow> l' = [] \<longleftrightarrow> l = []"
  unfolding masks_def by (metis length_0_conv)

lemmas filters_Nil [simp] =
  masks_Nil [OF apply_top_k_masks] masks_Nil [OF apply_typical_masks] masks_Nil [OF apply_top_p_masks]
  masks_Nil [OF apply_min_p_masks] masks_Nil [OF apply_xtc_masks]

lemma sample_temperature_Some: "l \<noteq> [] \<Longrightarrow> \<exists>t rng'. sample_temperature F gen l t' rng = (Some t, rng')"
  by (cases l) (auto simp: sample_temperature_def sample_greedy_def split: prod.splits option.splits)

lemma draw_Some:
  assumes "sc_mirostat cfg = MirostatOff" "l \<noteq> []"
  shows "\<exists>t rng'. \<forall>mu. draw F gen cfg l mu rng = (Some t, mu, rng')"
proof -
  let ?N = "fp32 F"
  define l4 where "l4 = apply_min_p ?N (apply_top_p F (apply_typical F (apply_top_k ?N l (sc_top_k cfg)) (sc_typical_p cfg))
    (sc_top_p cfg)) (sc_min_p cfg)"
  obtain l5 r1 where x: "apply_xtc F gen l4 (sc_xtc_probability cfg) (sc_xtc_threshold cfg) rng = (l5, r1)" by fastforce
  have "l4 \<noteq> []" using assms(2) by (simp add: l4_def)
  then have "l5 \<noteq> []"
    using x filters_Nil(5) [of F gen l4 "sc_xtc_probability cfg" "sc_xtc_threshold cfg" rng] by simp
  then obtain t r2 where "sample_temperature F gen l5 (sc_temp cfg) r1 = (Some t, r2)"
    using sample_temperature_Some [of l5 F gen "sc_temp cfg" r1] by blast
  then show ?thesis using assms(1) x by (auto simp: draw_def Let_def l4_def)
qed

lemma pipeline_Some:
  assumes "unconstrained cfg" "row \<noteq> []"
  shows "\<exists>t rng'. \<forall>mu gst. sample_with_config_grammar F gen row cfg prev mu gst rng = (Ok t, mu, gst, rng')"
proof -
  let ?l = "apply_deterministic_filters (fp32 F) row cfg prev"
  have l: "?l \<noteq> []" using assms(2) deterministic_length by (metis length_0_conv)
  obtain t r where d: "\<forall>mu. draw F gen cfg ?l mu rng = (Some t, mu, r)"
    using draw_Some [OF _ l, where F = F and gen = gen and cfg = cfg and rng = rng] assms(1)
    unfolding unconstrained_def by blast
  obtain g where g: "sample_greedy (fp32 F) ?l = Some g" using l by (cases ?l) (auto simp: sample_greedy_def)
  have gr: "sc_grammar cfg = None" using assms(1) by (simp add: unconstrained_def)
  show ?thesis
  proof (cases "n_tiny (fp32 F) (sc_temp cfg)")
    case True
    then show ?thesis using g
      by (intro exI [of _ g] exI [of _ rng]) (simp add: sample_with_config_grammar_def gr constrain_def)
  next
    case False
    then show ?thesis using d
      by (intro exI [of _ t] exI [of _ r]) (simp add: sample_with_config_grammar_def gr constrain_def)
  qed
qed

lemma sampled_eq:
  assumes "unconstrained cfg" "row \<noteq> []" "sampled F gen cfg row prev rng = (t, rng')"
  shows "sample_with_config_grammar F gen row cfg prev mu gst rng = (Ok t, mu, gst, rng')"
    and "sample_with_config F gen row cfg prev mu rng = (Some t, mu, rng')"
proof -
  obtain t' r' where "\<forall>mu gst. sample_with_config_grammar F gen row cfg prev mu gst rng = (Ok t', mu, gst, r')"
    using pipeline_Some [OF assms(1,2), where F = F and gen = gen and prev = prev and rng = rng] by blast
  then show "sample_with_config_grammar F gen row cfg prev mu gst rng = (Ok t, mu, gst, rng')"
    "sample_with_config F gen row cfg prev mu rng = (Some t, mu, rng')"
    using assms(3) by (auto simp: sampled_def sample_with_config_def)
qed

text \<open>A state of the stream is the history, the penalty window and the generator.\<close>

definition seq_step ::
  "('f, 'd) fp \<Rightarrow> ('r \<Rightarrow> 'f \<times> 'r) \<Rightarrow> ('f, 'g) SamplerConfig \<Rightarrow> (nat list \<Rightarrow> 'f list) \<Rightarrow> nat list \<times> nat list \<times> 'r \<Rightarrow>
   nat \<times> nat list \<times> nat list \<times> 'r" where
  "seq_step F gen cfg lg st =
     (case st of (h, prev, rng) \<Rightarrow>
        (case sampled F gen cfg (lg h) prev rng of (t, rng') \<Rightarrow> (t, h @ [t], push_capped prev t, rng')))"

fun seq_n ::
  "nat \<Rightarrow> ('f, 'd) fp \<Rightarrow> ('r \<Rightarrow> 'f \<times> 'r) \<Rightarrow> ('f, 'g) SamplerConfig \<Rightarrow> (nat list \<Rightarrow> 'f list) \<Rightarrow> nat list \<times> nat list \<times> 'r \<Rightarrow>
   nat list \<times> nat list \<times> nat list \<times> 'r" where
  "seq_n 0 F gen cfg lg st = ([], st)"
| "seq_n (Suc k) F gen cfg lg st =
     (case seq_step F gen cfg lg st of (t, st') \<Rightarrow> (case seq_n k F gen cfg lg st' of (ts, st'') \<Rightarrow> (t # ts, st'')))"

fun ref_loop ::
  "nat \<Rightarrow> ('f, 'd) fp \<Rightarrow> ('r \<Rightarrow> 'f \<times> 'r) \<Rightarrow> ('f, 'g) SamplerConfig \<Rightarrow> (nat list \<Rightarrow> 'f list) \<Rightarrow> Stops \<Rightarrow>
   nat list \<times> nat list \<times> 'r \<Rightarrow> Output \<Rightarrow> Output" where
  "ref_loop 0 F gen cfg lg P st out = out"
| "ref_loop (Suc k) F gen cfg lg P st out =
     (case seq_step F gen cfg lg st of
        (t, st') \<Rightarrow> (case feed_token P t out of (out', True) \<Rightarrow> out' | (out', False) \<Rightarrow> ref_loop k F gen cfg lg P st' out'))"

lemma seq_n_history: "seq_n k F gen cfg lg (h, prev, rng) = (ts, h', prev', rng') \<Longrightarrow> h' = h @ ts \<and> length ts = k"
proof (induction k arbitrary: h prev rng ts)
  case (Suc k)
  then obtain t r ts' where t: "sampled F gen cfg (lg h) prev rng = (t, r)" "ts = t # ts'"
    "seq_n k F gen cfg lg (h @ [t], push_capped prev t, r) = (ts', h', prev', rng')"
    by (auto simp: seq_step_def split: prod.splits)
  from Suc.IH [OF t(3)] t(2) show ?case by simp
qed simp

lemma feed_token_generated: "feed_token P t out = (out', False) \<Longrightarrow> length (generated out') = length (generated out) + 1"
  by (auto simp: feed_token_def flush_def Let_def split: if_splits option.splits)

section \<open>The plain loop\<close>

lemma plain_loop_ref:
  assumes "causal M lg nv hist" "0 < nv" "unconstrained cfg"
  shows "logits = lg h \<Longrightarrow> map (hist c) [0..<pos] = h \<Longrightarrow> k = n_predict P - length (generated out) \<Longrightarrow> pos + k \<le> n_ctx \<Longrightarrow>
    k \<le> fuel \<Longrightarrow> plain_loop fuel F gen cfg M n_ctx P logits c pos prev mu gst rng out =
      Some (ref_loop k F gen cfg lg P (h, prev, rng) out)"
proof (induction fuel arbitrary: logits h c pos k prev rng out)
  case 0
  then show ?case by simp
next
  case (Suc fuel)
  show ?case
  proof (cases k)
    case 0
    then show ?thesis using Suc.prems(3) by simp
  next
    case k: (Suc k')
    obtain t r where t: "sampled F gen cfg (lg h) prev rng = (t, r)" by fastforce
    have row: "lg h \<noteq> []" using causal_row [OF assms(1), of h] assms(2) by auto
    note s = sampled_eq(1) [OF assms(3) row t]
    have step: "seq_step F gen cfg lg (h, prev, rng) = (t, h @ [t], push_capped prev t, r)" by (simp add: seq_step_def t)
    obtain out' stop where f: "feed_token P t out = (out', stop)" by fastforce
    have more: "\<not> n_predict P \<le> length (generated out)" using k Suc.prems(3) by linarith
    show ?thesis
    proof (cases stop)
      case True
      then show ?thesis using k step f s more Suc.prems(1) by simp
    next
      case False
      obtain l c' where fw: "forward M [t] [pos] 1 n_ctx c = (l, c')" by fastforce
      have pos: "pos < n_ctx" using Suc.prems(4) k by linarith
      note cs = causal_step [OF assms(1) pos fw]
      have "plain_loop fuel F gen cfg M n_ctx P l c' (pos + 1) (push_capped prev t) mu gst r out' =
          Some (ref_loop k' F gen cfg lg P (h @ [t], push_capped prev t, r) out')"
      proof (rule Suc.IH)
        show "l = lg (h @ [t])" "map (hist c') [0..<pos + 1] = h @ [t]" using cs Suc.prems(2) by simp_all
        show "k' = n_predict P - length (generated out')" "pos + 1 + k' \<le> n_ctx" "k' \<le> fuel"
          using feed_token_generated [of P t out out'] f False k Suc.prems(3,4,5) by simp_all
      qed
      then show ?thesis using k step f s more False fw Suc.prems(1) by simp
    qed
  qed
qed

section \<open>The round\<close>

lemma rows_of_verify:
  assumes "\<And>i. i < n \<Longrightarrow> length (f i) = nv" "i < n"
  shows "take nv (drop (i * nv) (concat (map f [0..<n]))) = f i" and "length (concat (map f [0..<n])) = n * nv"
proof -
  have l: "length (concat (map f [0..<m])) = m * nv" if "m \<le> n" for m
    using that assms(1) by (induction m) auto
  then show "length (concat (map f [0..<n])) = n * nv" by simp
  have "[0..<n] = [0..<i] @ i # [Suc i..<n]" using assms(2) by (metis le0 le_add_same_cancel1 less_imp_add_positive upt_add_eq_append upt_conv_Cons add_0)
  then have "concat (map f [0..<n]) = concat (map f [0..<i]) @ f i @ concat (map f [Suc i..<n])"
    by (metis concat.simps(2) concat_append list.simps(9) map_append)
  then show "take nv (drop (i * nv) (concat (map f [0..<n]))) = f i"
    using l [of i] assms by simp
qed

lemma accept_rows_seq:
  assumes "unconstrained cfg" "\<And>h. length (lg h) = nv" "0 < nv"
    "\<And>i. i \<le> length proposals \<Longrightarrow> take nv (drop (i * nv) logits) = lg (h @ take i proposals)"
  shows "ps = drop i proposals \<Longrightarrow> i \<le> length proposals \<Longrightarrow>
    \<exists>ts k st. accept_rows F gen cfg logits nv i ps prev mu rng = Some (ts, k, snd st) \<and>
      seq_n (length ts) F gen cfg lg (h @ take i proposals, prev, rng) = (ts, h @ take i proposals @ ts, snd st) \<and>
      ts \<noteq> [] \<and> butlast ts = take (length ts - 1) ps \<and> length ts \<le> length ps + 1 \<and> k = length ts - 1"
proof (induction ps arbitrary: i prev mu rng)
  let ?lg = "\<lambda>i. lg (h @ take i proposals)"
  case Nil
  obtain t r where t: "sampled F gen cfg (?lg i) prev rng = (t, r)" by fastforce
  have row: "?lg i \<noteq> []" using assms(2) [of "h @ take i proposals"] assms(3) by auto
  note s = sampled_eq(2) [OF assms(1) row t]
  show ?case
    by (intro exI [of _ "[t]"] exI [of _ 0] exI [of _ "([] :: nat list, push_capped prev t, r)"])
      (simp add: assms(4) [OF Nil(2)] s seq_step_def t)
next
  let ?lg = "\<lambda>i. lg (h @ take i proposals)"
  case (Cons p ps)
  obtain t r where t: "sampled F gen cfg (?lg i) prev rng = (t, r)" by fastforce
  have row: "?lg i \<noteq> []" using assms(2) [of "h @ take i proposals"] assms(3) by auto
  note s = sampled_eq(2) [OF assms(1) row t]
  have i: "i < length proposals" using Cons.prems(1) by (metis drop_eq_Nil leI list.discI)
  then have p: "proposals ! i = p" "ps = drop (i + 1) proposals"
    using Cons.prems(1) Cons_nth_drop_Suc [of i proposals] by (simp_all flip: Cons.prems(1))
  have tk: "take (i + 1) proposals = take i proposals @ [p]" using p(1) i by (simp add: take_Suc_conv_app_nth)
  show ?case
  proof (cases "t = p")
    case False
    then show ?thesis
      by (intro exI [of _ "[t]"] exI [of _ 0] exI [of _ "([] :: nat list, push_capped prev t, r)"])
        (simp add: assms(4) [OF Cons.prems(2)] s seq_step_def t)
  next
    case True
    from Cons.IH [OF p(2), of "push_capped prev p" mu r] i obtain ts k st where IH:
      "accept_rows F gen cfg logits nv (i + 1) ps (push_capped prev p) mu r = Some (ts, k, snd st)"
      "seq_n (length ts) F gen cfg lg (h @ take (i + 1) proposals, push_capped prev p, r)
         = (ts, h @ take (i + 1) proposals @ ts, snd st)"
      "ts \<noteq> []" "butlast ts = take (length ts - 1) ps" "length ts \<le> length ps + 1" "k = length ts - 1" by auto
    obtain pv rg where sd: "snd st = (pv, rg)" by fastforce
    have "accept_rows F gen cfg logits nv i (p # ps) prev mu rng = Some (p # ts, k + 1, pv, rg)"
      using IH(1) True by (simp add: assms(4) [OF Cons.prems(2)] s sd)
    moreover have "seq_n (length (p # ts)) F gen cfg lg (h @ take i proposals, prev, rng) =
        (p # ts, h @ take i proposals @ p # ts, pv, rg)"
      using IH(2) True tk by (simp add: seq_step_def t sd)
    moreover have "butlast (p # ts) = take (length (p # ts) - 1) (p # ps)"
      using IH(3,4) by (cases ts) auto
    ultimately show ?thesis using IH(3,5,6)
      by (intro exI [of _ "p # ts"] exI [of _ "k + 1"] exI [of _ "([] :: nat list, pv, rg)"]) (cases ts, auto)
  qed
qed

lemma accept_loop_seq:
  assumes "unconstrained cfg" "causal M lg nv hist" "0 < nv" "map (hist c) [0..<pos] @ [tok] = h"
    "pos + length proposals + 1 \<le> n_ctx"
    "forward M (tok # proposals) [pos..<pos + length proposals + 1] (length proposals + 1) n_ctx c = (logits, c')"
  shows "\<exists>ts k prev' rng'. accept_loop F gen cfg logits proposals prev rng = Some (ts, k, prev', rng') \<and>
    seq_n (length ts) F gen cfg lg (h, prev, rng) = (ts, h @ ts, prev', rng') \<and> ts \<noteq> [] \<and>
    length ts \<le> length proposals + 1 \<and> butlast ts = take (length ts - 1) proposals \<and> k = length ts - 1 \<and>
    map (hist c') [0..<pos + length ts] @ [last ts] = h @ ts"
proof -
  let ?d = "length proposals"
  let ?f = "\<lambda>i. lg (map (hist c) [0..<pos] @ take (i + 1) (tok # proposals))"
  have f: "?f i = lg (h @ take i proposals)" for i using assms(4) by auto
  have cf: "map (hist c') [0..<pos + length (tok # proposals)] = map (hist c) [0..<pos] @ (tok # proposals)"
    "logits = concat (map ?f [length (tok # proposals) - (?d + 1)..<length (tok # proposals)])"
    using causal_forward [OF assms(2), of "?d + 1" "tok # proposals" pos n_ctx c logits c'] assms(5,6) by simp_all
  have lo: "logits = concat (map ?f [0..<?d + 1])" using cf(2) by simp
  have lf: "length (?f i) = nv" for i by (rule causal_row [OF assms(2)])
  have "length logits = (?d + 1) * nv" unfolding lo
    by (rule rows_of_verify(2) [where f = ?f and n = "?d + 1" and i = 0, OF lf]) simp
  then have nv: "length logits div (?d + 1) = nv"
    using nonzero_mult_div_cancel_left [of "?d + 1" nv] by (simp only:)
  have rows: "take nv (drop (i * nv) logits) = lg (h @ take i proposals)" if "i \<le> ?d" for i
    unfolding lo f [symmetric] by (rule rows_of_verify(1) [OF lf]) (use that in simp)
  from accept_rows_seq [OF assms(1) causal_row [OF assms(2)] assms(3) rows, of proposals 0 F gen prev
      "mirostat_new (fp32 F) (sc_mirostat_tau cfg)" rng]
  obtain ts k st where A: "accept_loop F gen cfg logits proposals prev rng = Some (ts, k, snd st)"
    "seq_n (length ts) F gen cfg lg (h, prev, rng) = (ts, h @ ts, snd st)" "ts \<noteq> []"
    "butlast ts = take (length ts - 1) proposals" "length ts \<le> ?d + 1" "k = length ts - 1"
    unfolding accept_loop_def nv by auto
  have "map (hist c') [0..<pos + length ts] = take (pos + length ts) (map (hist c') [0..<pos + ?d + 1])"
    using A(5) take_upt [of 0 "pos + length ts" "pos + ?d + 1"] by (simp add: take_map del: upt_Suc)
  also have "map (hist c') [0..<pos + ?d + 1] = h @ proposals" using cf(1) unfolding assms(4) [symmetric] by simp
  also have "take (pos + length ts) (h @ proposals) = h @ butlast ts"
  proof -
    have "length h = pos + 1" using arg_cong [OF assms(4), of length] by simp
    then show ?thesis using A(3,4) by (cases ts) auto
  qed
  finally have "map (hist c') [0..<pos + length ts] @ [last ts] = h @ ts" using A(3) by simp
  then show ?thesis using A by (cases "snd st") auto
qed

lemma draft_loop_length: "length (fst (draft_loop N M cfg n_ctx d pos tok window c)) = d"
  by (induction d arbitrary: pos tok window c) (simp_all add: case_prod_beta Let_def)

lemma best_depth_range: "1 \<le> d_cap \<Longrightarrow> 1 \<le> fst (best_depth D ad d_cap) \<and> fst (best_depth D ad d_cap) \<le> d_cap"
proof -
  assume c: "1 \<le> d_cap"
  have "1 \<le> fst (fold (depth_step D ad) xs acc) \<and> fst (fold (depth_step D ad) xs acc) \<le> d_cap"
    if "set xs \<subseteq> {1..d_cap}" "1 \<le> fst acc" "fst acc \<le> d_cap" for xs acc
    using that by (induction xs arbitrary: acc) (auto simp: depth_step_def Let_def)
  note range = this
  show ?thesis unfolding best_depth_def by (rule range) (use c in \<open>auto simp del: upt_Suc\<close>)
qed

lemma pick_range: "fst (pick D horizon ad) \<le> min (d_max ad) horizon \<and>
    (0 < min (d_max ad) horizon \<longrightarrow> 0 < fst (pick D horizon ad))"
  using best_depth_range [of "min (d_max ad) horizon" D ad]
  by (auto simp: pick_def Let_def split: prod.splits)

lemma choose_depth_range: "fst (choose_depth D horizon en) \<le> horizon"
proof (cases "adaptive en")
  case None
  then show ?thesis by (simp add: choose_depth_def)
next
  case (Some ad)
  then show ?thesis using pick_range [of D horizon ad] by (simp add: choose_depth_def case_prod_beta)
qed

lemma spec_round_seq:
  assumes "unconstrained cfg" "causal M lg nv hist" "0 < nv" "map (hist c) [0..<pos] @ [tok] = h" "pos < n_ctx"
  shows "\<exists>ts en' c' prev' rng'.
    spec_round F gen cfg M n_ctx dms vms en c tok pos prev rng = Some (ts, en', c', prev', rng') \<and>
    seq_n (length ts) F gen cfg lg (h, prev, rng) = (ts, h @ ts, prev', rng') \<and> ts \<noteq> [] \<and>
    pos + length ts \<le> n_ctx \<and> map (hist c') [0..<pos + length ts] @ [last ts] = h @ ts"
proof -
  obtain d en1 where d: "choose_depth (fp64 F) (n_ctx - (pos + 1)) en = (d, en1)" by fastforce
  have dh: "d \<le> n_ctx - (pos + 1)" using choose_depth_range [of "fp64 F" "n_ctx - (pos + 1)" en] d by simp
  show ?thesis
  proof (cases "d = 0")
    case True
    obtain row c' where fw: "forward M [tok] [pos] 1 n_ctx c = (row, c')" by fastforce
    note cs = causal_step [OF assms(2,5) fw]
    have row: "row = lg h" "row \<noteq> []" using cs(2) assms(4) causal_row [OF assms(2), of h] assms(3) by auto
    obtain t r where t: "sampled F gen cfg row prev rng = (t, r)" by fastforce
    note s = sampled_eq(2) [OF assms(1) row(2) t]
    have "map (hist c') [0..<pos + 1] @ [t] = h @ [t]" using cs(1) assms(4) by simp
    then show ?thesis using True d fw s t row(1) assms(5)
      by (intro exI [of _ "[t]"]) (auto simp: spec_round_def plain_step_def seq_step_def)
  next
    case False
    obtain props dc where dl: "draft_loop (fp32 F) (draft en1) cfg n_ctx d pos tok prev (draft_cache en1) = (props, dc)" by fastforce
    have len: "length props = d" using draft_loop_length dl by (metis fst_conv)
    obtain logits c' where fw: "forward M (tok # props) [pos..<pos + d + 1] (d + 1) n_ctx c = (logits, c')" by fastforce
    have ctx: "pos + length props + 1 \<le> n_ctx" using dh False len by simp
    from accept_loop_seq [OF assms(1-4) ctx, where F = F and gen = gen and prev = prev and rng = rng] fw len
    obtain ts k prev' rng' where A: "accept_loop F gen cfg logits props prev rng = Some (ts, k, prev', rng')"
      "seq_n (length ts) F gen cfg lg (h, prev, rng) = (ts, h @ ts, prev', rng')" "ts \<noteq> []" "length ts \<le> d + 1"
      "map (hist c') [0..<pos + length ts] @ [last ts] = h @ ts" by auto
    then show ?thesis using False d dl fw ctx len by (intro exI [of _ ts]) (auto simp: spec_round_def)
  qed
qed

section \<open>The round loop\<close>

lemma feed_round_ref:
  assumes "seq_n (length ts) F gen cfg lg st = (ts, st')" "k = n_predict P - length (generated out)"
    "feed_round P ts out consumed = (out', consumed', stop)"
  shows "if stop then ref_loop k F gen cfg lg P st out = out'
    else consumed' = consumed + min (length ts) k \<and> length (generated out') = length (generated out) + min (length ts) k \<and>
      ref_loop k F gen cfg lg P st out = ref_loop (k - min (length ts) k) F gen cfg lg P (snd (seq_n (min (length ts) k) F gen cfg lg st)) out'"
  using assms
proof (induction ts arbitrary: st k out consumed)
  case Nil
  then show ?case by simp
next
  case (Cons t ts)
  show ?case
  proof (cases k)
    case 0
    then show ?thesis using Cons.prems by simp
  next
    case k: (Suc k')
    obtain st1 where s1: "seq_step F gen cfg lg st = (t, st1)" "seq_n (length ts) F gen cfg lg st1 = (ts, st')"
      using Cons.prems(1) by (auto split: prod.splits)
    obtain out1 b where f: "feed_token P t out = (out1, b)" by fastforce
    have more: "\<not> n_predict P \<le> length (generated out)" using k Cons.prems(2) by linarith
    show ?thesis
    proof (cases b)
      case True
      then show ?thesis using f more Cons.prems(3) s1 k by simp
    next
      case False
      have g: "length (generated out1) = length (generated out) + 1" using feed_token_generated [of P t out out1] f False by simp
      then have k': "k' = n_predict P - length (generated out1)" using k Cons.prems(2) by linarith
      have fr: "feed_round P ts out1 (consumed + 1) = (out', consumed', stop)" using Cons.prems(3) more f False by simp
      have one: "min (length (t # ts)) k = Suc (min (length ts) k')" using k by simp
      have st: "snd (seq_n (Suc j) F gen cfg lg st) = snd (seq_n j F gen cfg lg st1)" for j
        by (simp add: s1(1) case_prod_beta)
      have rl: "ref_loop k F gen cfg lg P st out = ref_loop k' F gen cfg lg P st1 out1" using k s1(1) f False by simp
      note IH = Cons.IH [OF s1(2) k' fr]
      show ?thesis
      proof (cases stop)
        case True
        then show ?thesis using IH rl by simp
      next
        case False
        then show ?thesis using IH g unfolding one by (simp only: st rl) (simp add: k)
      qed
    qed
  qed
qed

lemma spec_loop_ref:
  assumes "unconstrained cfg" "causal M lg nv hist" "0 < nv"
  shows "map (hist c) [0..<pos] @ [tok] = h \<Longrightarrow> k = n_predict P - length (generated out) \<Longrightarrow> pos + k \<le> n_ctx \<Longrightarrow> k \<le> fuel \<Longrightarrow>
    spec_loop fuel F gen cfg M n_ctx ms P en c tok pos prev rng out = Some (ref_loop k F gen cfg lg P (h, prev, rng) out)"
proof (induction fuel arbitrary: h c pos tok k prev rng out en)
  case 0
  then show ?case by simp
next
  case (Suc fuel)
  show ?case
  proof (cases "k = 0")
    case True
    then show ?thesis using Suc.prems(2) by simp
  next
    case k: False
    have pos: "pos < n_ctx" using Suc.prems(3) k by simp
    from spec_round_seq [OF assms Suc.prems(1) pos, where F = F and gen = gen and dms = "fst (ms fuel)" and vms = "snd (ms fuel)"
        and en = en and prev = prev and rng = rng]
    obtain ts en' c' prev' rng' where R:
      "spec_round F gen cfg M n_ctx (fst (ms fuel)) (snd (ms fuel)) en c tok pos prev rng = Some (ts, en', c', prev', rng')"
      "seq_n (length ts) F gen cfg lg (h, prev, rng) = (ts, h @ ts, prev', rng')" "ts \<noteq> []"
      "pos + length ts \<le> n_ctx" "map (hist c') [0..<pos + length ts] @ [last ts] = h @ ts" by blast
    obtain out' m stop where f: "feed_round P ts out 0 = (out', m, stop)" by (metis prod_cases3)
    note FR = feed_round_ref [OF R(2) Suc.prems(2) f]
    have more: "\<not> n_predict P \<le> length (generated out)" using k Suc.prems(2) by linarith
    show ?thesis
    proof (cases stop)
      case True
      then show ?thesis using FR R(1) f more by simp
    next
      case False
      then have F: "m = min (length ts) k" "length (generated out') = length (generated out) + m"
        "ref_loop k F gen cfg lg P (h, prev, rng) out =
           ref_loop (k - m) F gen cfg lg P (snd (seq_n m F gen cfg lg (h, prev, rng))) out'" using FR by simp_all
      have m: "0 < m" using F(1) R(3) k by simp
      have eq: "spec_loop (Suc fuel) F gen cfg M n_ctx ms P en c tok pos prev rng out =
          spec_loop fuel F gen cfg M n_ctx ms P en' c' (ts ! (m - 1)) (pos + m) prev' rng' out'"
        using R(1) f more False m by simp
      show ?thesis
      proof (cases "k \<le> length ts")
        case True
        then have "n_predict P \<le> length (generated out')" "k - m = 0" using F Suc.prems(2) by auto
        then show ?thesis unfolding eq F(3) by (cases fuel) simp_all
      next
        case all: False
        then have mt: "m = length ts" using F(1) by simp
        then have lst: "ts ! (m - 1) = last ts" using R(3) by (simp add: last_conv_nth)
        have "spec_loop fuel F gen cfg M n_ctx ms P en' c' (ts ! (m - 1)) (pos + m) prev' rng' out' =
            Some (ref_loop (k - m) F gen cfg lg P (h @ ts, prev', rng') out')"
        proof (rule Suc.IH)
          show "map (hist c') [0..<pos + m] @ [ts ! (m - 1)] = h @ ts" using R(5) lst mt by simp
          show "k - m = n_predict P - length (generated out')" "pos + m + (k - m) \<le> n_ctx" "k - m \<le> fuel"
            using F(2) Suc.prems(2,3,4) m mt all by linarith+
        qed
        then show ?thesis unfolding eq F(3) using R(2) mt by simp
      qed
    qed
  qed
qed

section \<open>Both generation loops\<close>

lemma generate_plain_ref:
  assumes "unconstrained cfg" "causal M lg nv hist" "0 < nv" "input_ids \<noteq> []" "length input_ids + n_predict P \<le> n_ctx"
    "n_predict P \<le> fuel"
  shows "generate_plain fuel F gen cfg M n_ctx P input_ids c gst rng =
    Some (flush (ref_loop (n_predict P) F gen cfg lg P (input_ids, recent_window input_ids REPEAT_LAST_N, rng) out_new))"
proof -
  obtain l c1 where fw: "forward M input_ids [0..<length input_ids] 1 n_ctx c = (l, c1)" by fastforce
  have "map (hist c1) [0..<length input_ids] = input_ids" "l = lg input_ids"
    using causal_prefill [OF assms(2,4) _ fw] assms(5) by simp_all
  from plain_loop_ref [OF assms(2,3,1) this(2,1), of "n_predict P" P out_new n_ctx fuel F gen
      "recent_window input_ids REPEAT_LAST_N" "mirostat_new (fp32 F) (sc_mirostat_tau cfg)" gst rng] assms(5,6)
  show ?thesis unfolding generate_plain_def fw by (simp add: out_new_def)
qed

lemma push_capped_short: "length prev < REPEAT_LAST_N \<Longrightarrow> push_capped prev t = prev @ [t]"
  by (simp add: push_capped_def Let_def)

lemma generate_spec_ref:
  assumes "unconstrained cfg" "causal M lg nv hist" "0 < nv" "input_ids \<noteq> []" "length input_ids + n_predict P \<le> n_ctx"
    "n_predict P \<le> fuel" "0 < n_predict P" "length input_ids < REPEAT_LAST_N"
  shows "generate_spec fuel F gen cfg M n_ctx ms P en input_ids c rng =
    Some (flush (ref_loop (n_predict P) F gen cfg lg P (input_ids, recent_window input_ids REPEAT_LAST_N, rng) out_new))"
proof -
  let ?prev = "recent_window input_ids REPEAT_LAST_N"
  obtain l c1 where fw: "forward M input_ids [0..<length input_ids] 1 n_ctx c = (l, c1)" by fastforce
  have c1: "map (hist c1) [0..<length input_ids] = input_ids" "l = lg input_ids"
    using causal_prefill [OF assms(2,4) _ fw] assms(5) by simp_all
  have row: "l \<noteq> []" using c1(2) causal_row [OF assms(2), of input_ids] assms(3) by auto
  obtain t r where t: "sampled F gen cfg l ?prev rng = (t, r)" by fastforce
  note s = sampled_eq(2) [OF assms(1) row t]
  obtain k where k: "n_predict P = Suc k" using assms(7) by (cases "n_predict P") auto
  have step: "seq_step F gen cfg lg (input_ids, ?prev, rng) = (t, input_ids @ [t], ?prev @ [t], r)"
    using t c1(2) assms(8) by (simp add: seq_step_def push_capped_short recent_window_def)
  obtain out stop where f: "feed_token P t out_new = (out, stop)" by fastforce
  show ?thesis
  proof (cases stop)
    case True
    then show ?thesis using fw s f k step by (simp add: generate_spec_def)
  next
    case False
    have "spec_loop fuel F gen cfg M n_ctx ms P (prefill input_ids n_ctx en) c1 t (length input_ids) (?prev @ [t]) r out =
        Some (ref_loop k F gen cfg lg P (input_ids @ [t], ?prev @ [t], r) out)"
    proof (rule spec_loop_ref [OF assms(1-3)])
      show "map (hist c1) [0..<length input_ids] @ [t] = input_ids @ [t]" using c1(1) by simp
      show "k = n_predict P - length (generated out)"
        using feed_token_generated [of P t out_new out] f False k by (simp add: out_new_def)
    qed (use k assms(5,6) in auto)
    then show ?thesis using fw s f k step False by (simp add: generate_spec_def)
  qed
qed

end
