(* ===== verification/Utf8.thy ===== *)
theory Utf8
  imports Bytes "HOL-Library.Sublist"
begin

text \<open>
  UTF-8 as the grammar engine uses it: \<open>str::from_utf8\<close> with the position and the kind of its
  error, the decoding step \<open>decode_at\<close> over it, \<open>completion_range\<close>, and the encoding
  of a scalar value (\<open>char::encode_utf8\<close>) that the facts here are about.
\<close>

unbundle bit_operations_syntax

section \<open>Validation\<close>

text \<open>The number of bytes a first byte announces; 0 for a byte that begins no character.\<close>

definition utf8_width :: "nat \<Rightarrow> nat" where
  "utf8_width x = (if x < 0x80 then 1 else if 0xC2 \<le> x \<and> x \<le> 0xDF then 2
                   else if 0xE0 \<le> x \<and> x \<le> 0xEF then 3 else if 0xF0 \<le> x \<and> x \<le> 0xF4 then 4 else 0)"

text \<open>\<open>error_len\<close> is \<open>None\<close>: the first character is ill formed only because the input ends.\<close>

definition utf8_cut :: "byte list \<Rightarrow> bool" where
  "utf8_cut bs \<longleftrightarrow> \<not> snd (utf8_head bs) \<and> utf8_width (byte_at bs 0) \<noteq> 0 \<and> fst (utf8_head bs) = length bs"

text \<open>The error of \<open>from_utf8\<close>: \<open>valid_up_to\<close>, and whether \<open>error_len\<close> is \<open>None\<close>.\<close>

function utf8_error :: "byte list \<Rightarrow> (nat \<times> bool) option" where
  "utf8_error bs =
     (if bs = [] then None
      else if snd (utf8_head bs)
           then map_option (\<lambda>(v, c). (fst (utf8_head bs) + v, c)) (utf8_error (drop (fst (utf8_head bs)) bs))
           else Some (0, utf8_cut bs))"
  by auto
termination
  using utf8_head_pos by (relation "measure length") auto

declare utf8_error.simps [simp del]

text \<open>The code point of a well-formed first character.\<close>

definition utf8_cp :: "byte list \<Rightarrow> nat" where
  "utf8_cp bs =
     (let x = byte_at bs 0; c = (\<lambda>i. byte_at bs i - 0x80) in
      if x < 0x80 then x
      else if x < 0xE0 then (x - 0xC0) * 64 + c 1
      else if x < 0xF0 then (x - 0xE0) * 4096 + c 1 * 64 + c 2
      else (x - 0xF0) * 262144 + c 1 * 4096 + c 2 * 64 + c 3)"

datatype Utf8Step = CpStep nat nat | Incomplete | Invalid

definition decode_at :: "byte list \<Rightarrow> nat \<Rightarrow> Utf8Step" where
  "decode_at buf i =
     (let rest = drop i buf in
      case utf8_error rest of
        None \<Rightarrow> CpStep (utf8_cp rest) (fst (utf8_head rest))
      | Some (valid, short) \<Rightarrow>
          if valid > 0 then CpStep (utf8_cp rest) (fst (utf8_head rest))
          else if short then Incomplete else Invalid)"

section \<open>Completion of a partial character\<close>

text \<open>The length of the sequence, the payload of its first byte and the range of its first continuation.\<close>

definition completion_lead :: "nat \<Rightarrow> (nat \<times> nat \<times> nat \<times> nat) option" where
  "completion_lead b0 =
     (if 0xC2 \<le> b0 \<and> b0 \<le> 0xDF then Some (2, b0 AND 0x1F, 0x80, 0xBF)
      else if b0 = 0xE0 then Some (3, b0 AND 0x0F, 0xA0, 0xBF)
      else if 0xE1 \<le> b0 \<and> b0 \<le> 0xEC \<or> 0xEE \<le> b0 \<and> b0 \<le> 0xEF then Some (3, b0 AND 0x0F, 0x80, 0xBF)
      else if b0 = 0xED then Some (3, b0 AND 0x0F, 0x80, 0x9F)
      else if b0 = 0xF0 then Some (4, b0 AND 0x07, 0x90, 0xBF)
      else if 0xF1 \<le> b0 \<and> b0 \<le> 0xF3 then Some (4, b0 AND 0x07, 0x80, 0xBF)
      else if b0 = 0xF4 then Some (4, b0 AND 0x07, 0x80, 0x8F)
      else None)"

text \<open>The loop over the continuation bytes.\<close>

fun completion_value :: "nat \<Rightarrow> nat \<Rightarrow> nat \<Rightarrow> nat \<Rightarrow> nat list \<Rightarrow> nat option" where
  "completion_value c_lo c_hi idx v [] = Some v"
| "completion_value c_lo c_hi idx v (b # bs) =
     (if b AND 0xC0 \<noteq> 0x80 then None
      else if idx = 0 \<and> \<not> (c_lo \<le> b \<and> b \<le> c_hi) then None
      else completion_value c_lo c_hi (Suc idx) (push_bit 6 v OR (b AND 0x3F)) bs)"

definition completion_range :: "byte list \<Rightarrow> (nat \<times> nat) option" where
  "completion_range partial =
     (case map unat partial of
        [] \<Rightarrow> None
      | b0 # bs \<Rightarrow>
          (case completion_lead b0 of
             None \<Rightarrow> None
           | Some (len, value0, c_lo, c_hi) \<Rightarrow>
               if length partial \<ge> len then None
               else (case completion_value c_lo c_hi 0 value0 bs of
                       None \<Rightarrow> None
                     | Some value \<Rightarrow>
                         if length partial = 1
                         then (let tail = 6 * (len - 2) in
                               Some (push_bit tail (push_bit 6 value OR (c_lo - 0x80)),
                                     push_bit tail (push_bit 6 value OR (c_hi - 0x80)) OR (push_bit tail 1 - 1)))
                         else (let free = 6 * (len - length partial) in
                               let lo = push_bit free value in
                               Some (lo, lo OR (push_bit free 1 - 1))))))"

section \<open>Encoding\<close>

text \<open>Unicode scalar values, the values of \<open>char\<close>.\<close>

definition scalar :: "nat \<Rightarrow> bool" where
  "scalar c \<longleftrightarrow> c < 0xD800 \<or> 0xE000 \<le> c \<and> c < 0x110000"

definition utf8_units :: "nat \<Rightarrow> nat list" where
  "utf8_units c =
     (if c < 0x80 then [c]
      else if c < 0x800 then [0xC0 + c div 64, 0x80 + c mod 64]
      else if c < 0x10000 then [0xE0 + c div 4096, 0x80 + c div 64 mod 64, 0x80 + c mod 64]
      else [0xF0 + c div 262144, 0x80 + c div 4096 mod 64, 0x80 + c div 64 mod 64, 0x80 + c mod 64])"

definition encode_utf8 :: "nat \<Rightarrow> byte list" where
  "encode_utf8 c = map word_of_nat (utf8_units c)"

definition utf8_of :: "nat list \<Rightarrow> byte list" where
  "utf8_of w = concat (map encode_utf8 w)"

section \<open>Bit operations as arithmetic\<close>

lemma or_push_bit:
  fixes v k :: nat
  assumes "k < 2 ^ n"
  shows "push_bit n v OR k = v * 2 ^ n + k"
proof -
  have "push_bit n v AND take_bit n k = 0"
    by (rule bit_eqI) (auto simp: bit_simps)
  moreover have "take_bit n k = k" using assms by (simp add: take_bit_nat_eq_self)
  ultimately show ?thesis by (simp add: disjunctive_add_eq_or [symmetric] push_bit_eq_mult)
qed

lemma and_low_nat: "(x::nat) AND 0x1F = x mod 32" "x AND 0x0F = x mod 16" "x AND 0x07 = x mod 8" "x AND 0x3F = x mod 64"
  using take_bit_eq_mask [of 5 x] take_bit_eq_mask [of 4 x] take_bit_eq_mask [of 3 x] take_bit_eq_mask [of 6 x]
  by (simp_all add: take_bit_eq_mod mask_eq_exp_minus_1)

lemma and_C0: "(x::nat) < 256 \<Longrightarrow> x AND 0xC0 = 0x80 \<longleftrightarrow> 0x80 \<le> x \<and> x \<le> 0xBF"
proof -
  assume x: "x < 256"
  have "x AND 0xC0 = push_bit 6 (drop_bit 6 x AND 3)"
  proof -
    have "x AND push_bit 6 m = push_bit 6 (drop_bit 6 x AND m)" for m
      by (rule bit_eqI) (auto simp: bit_simps)
    from this [of 3] show ?thesis by (simp add: push_bit_eq_mult)
  qed
  also have "drop_bit 6 x AND 3 = x div 64 mod 4"
    using take_bit_eq_mask [of 2 "drop_bit 6 x"] by (simp add: take_bit_eq_mod mask_eq_exp_minus_1 drop_bit_eq_div)
  also have "push_bit 6 \<dots> = 64 * (x div 64)" using x by (simp add: push_bit_eq_mult)
  finally have "x AND 0xC0 = 64 * (x div 64)" .
  moreover have "x = 64 * (x div 64) + x mod 64" "x mod 64 < 64" by simp_all
  ultimately show ?thesis by auto
qed

lemma digits_3:
  assumes "(y::nat) < 64" "z < 64"
  shows "(x * 4096 + y * 64 + z) div 4096 = x" "(x * 4096 + y * 64 + z) div 64 mod 64 = y"
    "(x * 4096 + y * 64 + z) mod 64 = z"
proof -
  have q: "x * 4096 + y * 64 + z = (x * 64 + y) * 64 + z" by simp
  have 1: "((x * 64 + y) * 64 + z) div 64 = x * 64 + y" "((x * 64 + y) * 64 + z) mod 64 = z"
    using assms by (simp_all only: mod_mult_self3 div_mult_self3 mod_less div_less)
  show "(x * 4096 + y * 64 + z) mod 64 = z" unfolding q by (rule 1)
  show "(x * 4096 + y * 64 + z) div 64 mod 64 = y" unfolding q 1 using assms by simp
  have "((x * 64 + y) * 64 + z) div 64 div 64 = x" unfolding 1 using assms by simp
  then show "(x * 4096 + y * 64 + z) div 4096 = x" unfolding q by (simp add: div_mult2_eq [symmetric])
qed

lemma digits_4:
  assumes "(y::nat) < 64" "z < 64" "t < 64"
  shows "(x * 262144 + y * 4096 + z * 64 + t) div 262144 = x"
    "(x * 262144 + y * 4096 + z * 64 + t) div 4096 mod 64 = y"
    "(x * 262144 + y * 4096 + z * 64 + t) div 64 mod 64 = z"
    "(x * 262144 + y * 4096 + z * 64 + t) mod 64 = t"
proof -
  have q: "x * 262144 + y * 4096 + z * 64 + t = (x * 64 + y) * 4096 + z * 64 + t" by simp
  note d = digits_3 [OF assms(2,3), of "x * 64 + y"]
  show "(x * 262144 + y * 4096 + z * 64 + t) div 4096 mod 64 = y"
    "(x * 262144 + y * 4096 + z * 64 + t) div 64 mod 64 = z"
    "(x * 262144 + y * 4096 + z * 64 + t) mod 64 = t"
    unfolding q d using assms by simp_all
  have "((x * 64 + y) * 4096 + z * 64 + t) div 4096 div 64 = x" unfolding d using assms by simp
  then show "(x * 262144 + y * 4096 + z * 64 + t) div 262144 = x" unfolding q by (simp add: div_mult2_eq [symmetric])
qed

lemma base64_3: "(c::nat) div 4096 * 4096 + c div 64 mod 64 * 64 + c mod 64 = c"
proof -
  have "c div 4096 = c div 64 div 64" by (simp add: div_mult2_eq [symmetric])
  then show ?thesis using div_mult_mod_eq [of c 64] div_mult_mod_eq [of "c div 64" 64] by linarith
qed

lemma base64_4: "(c::nat) div 262144 * 262144 + c div 4096 mod 64 * 4096 + c div 64 mod 64 * 64 + c mod 64 = c"
proof -
  have "c div 262144 = c div 4096 div 64" by (simp add: div_mult2_eq [symmetric])
  then show ?thesis using base64_3 [of c] div_mult_mod_eq [of "c div 4096" 64] by linarith
qed

section \<open>Decoding a well-formed character\<close>

lemma unat_byte_at_units:
  "scalar c \<Longrightarrow> \<forall>u \<in> set (utf8_units c). u < 256"
  by (auto simp: scalar_def utf8_units_def)

lemma length_encode_utf8 [simp]: "length (encode_utf8 c) = length (utf8_units c)"
  by (simp add: encode_utf8_def)

lemma map_unat_encode: "scalar c \<Longrightarrow> map unat (encode_utf8 c) = utf8_units c"
  using unat_byte_at_units [of c] by (auto simp: encode_utf8_def unat_byte_of_nat map_idI)

lemma byte_at_encode:
  assumes "scalar c" "i < length (utf8_units c)"
  shows "byte_at (encode_utf8 c @ rest) i = utf8_units c ! i"
  using assms unat_byte_at_units [OF assms(1)] by (simp add: byte_at_def nth_append encode_utf8_def unat_byte_of_nat)

lemma scalar_digits:
  assumes "scalar c"
  obtains (1) "utf8_units c = [c]"
  | (2) x y where "utf8_units c = [0xC0 + x, 0x80 + y]" "c = x * 64 + y" "2 \<le> x" "x < 32" "y < 64"
  | (3) x y z where "utf8_units c = [0xE0 + x, 0x80 + y, 0x80 + z]" "c = x * 4096 + y * 64 + z"
      "x < 16" "y < 64" "z < 64" "x = 0 \<longrightarrow> 32 \<le> y" "x = 13 \<longrightarrow> y < 32"
  | (4) x y z t where "utf8_units c = [0xF0 + x, 0x80 + y, 0x80 + z, 0x80 + t]"
      "c = x * 262144 + y * 4096 + z * 64 + t" "x < 5" "y < 64" "z < 64" "t < 64" "x = 0 \<longrightarrow> 16 \<le> y" "x = 4 \<longrightarrow> y < 16"
proof -
  consider "c < 0x80" | "0x80 \<le> c" "c < 0x800" | "0x800 \<le> c" "c < 0x10000" | "0x10000 \<le> c" "c < 0x110000"
    using assms unfolding scalar_def by linarith
  then show ?thesis
  proof cases
    case a: 1
    show ?thesis by (rule 1) (simp add: utf8_units_def a)
  next
    case a: 2
    show ?thesis by (rule 2 [of "c div 64" "c mod 64"]) (use a in \<open>auto simp: utf8_units_def\<close>)
  next
    case a: 3
    obtain x y z where d: "c div 4096 = x" "c div 64 mod 64 = y" "c mod 64 = z" by blast
    have lt: "y < 64" "z < 64" unfolding d [symmetric] by simp_all
    have c: "c = x * 4096 + y * 64 + z" using base64_3 [of c] unfolding d by simp
    have r: "x < 16" "x = 0 \<longrightarrow> 32 \<le> y" "x = 13 \<longrightarrow> y < 32"
      using a assms lt unfolding scalar_def c by linarith+
    have u: "utf8_units c = [0xE0 + x, 0x80 + y, 0x80 + z]" using a by (simp add: utf8_units_def d)
    show ?thesis by (rule 3 [OF u c r(1) lt r(2,3)])
  next
    case a: 4
    obtain x y z t where d: "c div 262144 = x" "c div 4096 mod 64 = y" "c div 64 mod 64 = z" "c mod 64 = t" by blast
    have lt: "y < 64" "z < 64" "t < 64" unfolding d [symmetric] by simp_all
    have c: "c = x * 262144 + y * 4096 + z * 64 + t" using base64_4 [of c] unfolding d by simp
    have r: "x < 5" "x = 0 \<longrightarrow> 16 \<le> y" "x = 4 \<longrightarrow> y < 16" using a lt unfolding c by linarith+
    have u: "utf8_units c = [0xF0 + x, 0x80 + y, 0x80 + z, 0x80 + t]" using a by (simp add: utf8_units_def d)
    show ?thesis by (rule 4 [OF u c r(1) lt r(2,3)])
  qed
qed

lemma utf8_head_encode:
  assumes "scalar c"
  shows "utf8_head (encode_utf8 c @ rest) = (length (utf8_units c), True)"
    and "utf8_cp (encode_utf8 c @ rest) = c"
proof -
  note b = byte_at_encode [OF assms, of _ rest]
  note d = utf8_head_def utf8_cp_def is_cont_def second_of_3_def second_of_4_def Let_def
  from assms have "utf8_head (encode_utf8 c @ rest) = (length (utf8_units c), True) \<and> utf8_cp (encode_utf8 c @ rest) = c"
  proof (cases rule: scalar_digits)
    case 1
    then have "c < 0x80" by (simp add: utf8_units_def split: if_splits)
    then show ?thesis using b [of 0] 1 by (simp add: d)
  next
    case (2 x y)
    show ?thesis using b [of 0] b [of 1] 2(3-5) by (simp add: d 2(1) 2(2) [symmetric])
  next
    case (3 x y z)
    show ?thesis using b [of 0] b [of 1] b [of 2] 3(3-7) by (auto simp: d 3(1) 3(2) [symmetric])
  next
    case (4 x y z t)
    show ?thesis using b [of 0] b [of 1] b [of 2] b [of 3] 4(3-8) by (auto simp: d 4(1) 4(2) [symmetric])
  qed
  then show "utf8_head (encode_utf8 c @ rest) = (length (utf8_units c), True)"
    and "utf8_cp (encode_utf8 c @ rest) = c" by simp_all
qed

lemma utf8_head_units:
  assumes "utf8_head bs = (n, True)" "bs \<noteq> []"
  shows "scalar (utf8_cp bs)" and "map (byte_at bs) [0..<n] = utf8_units (utf8_cp bs)"
proof -
  let ?x = "byte_at bs 0" and ?y = "byte_at bs 1" and ?z = "byte_at bs 2" and ?t = "byte_at bs 3"
  consider "?x < 0x80" | "0xC2 \<le> ?x" "?x \<le> 0xDF" | "0xE0 \<le> ?x" "?x \<le> 0xEF" | "0xF0 \<le> ?x" "?x \<le> 0xF4"
    using assms(1) by (simp add: utf8_head_def Let_def split: if_splits)
  then have "scalar (utf8_cp bs) \<and> map (byte_at bs) [0..<n] = utf8_units (utf8_cp bs)"
  proof cases
    case 1
    then show ?thesis using assms(1) by (auto simp: utf8_head_def utf8_cp_def utf8_units_def scalar_def Let_def)
  next
    case 2
    obtain y where y: "?y = 0x80 + y" "y < 64"
      using assms(1) 2 that [of "?y - 0x80"] by (simp add: utf8_head_def is_cont_def Let_def split: if_splits)
    obtain x where x: "?x = 0xC0 + x" "2 \<le> x" "x < 32" using 2 that [of "?x - 0xC0"] by simp
    have "n = 2" using assms(1) 2 by (simp add: utf8_head_def split: if_splits)
    moreover have "utf8_cp bs = x * 64 + y" using 2 x y by (simp add: utf8_cp_def Let_def)
    ultimately show ?thesis using x y by (simp add: utf8_units_def scalar_def upt_rec)
  next
    case 3
    have s: "n = 3" "second_of_3 ?x ?y" "is_cont ?z" using assms(1) 3 by (simp_all add: utf8_head_def split: if_splits)
    then obtain y z where y: "?y = 0x80 + y" "y < 64" and z: "?z = 0x80 + z" "z < 64"
      using that [of "?y - 0x80" "?z - 0x80"] by (auto simp: second_of_3_def is_cont_def split: if_splits)
    obtain x where x: "?x = 0xE0 + x" "x < 16" using 3 that [of "?x - 0xE0"] by simp
    have c: "utf8_cp bs = x * 4096 + y * 64 + z" using 3 x y z by (simp add: utf8_cp_def Let_def)
    have r: "x = 0 \<longrightarrow> 32 \<le> y" "x = 13 \<longrightarrow> y < 32" using s(2) x y by (auto simp: second_of_3_def)
    consider "x = 0" | "0 < x" "x < 13" | "x = 13" | "13 < x" by linarith
    then have "scalar (utf8_cp bs) \<and> 0x800 \<le> utf8_cp bs \<and> utf8_cp bs < 0x10000"
      unfolding c scalar_def using x y z r by cases auto
    moreover note digits_3 [OF y(2) z(2), of x, folded c]
    moreover have "[0..<n] = [0, 1, 2]" using s by (simp add: upt_rec numeral_2_eq_2)
    ultimately show ?thesis using x y z by (simp add: utf8_units_def)
  next
    case 4
    have s: "n = 4" "second_of_4 ?x ?y" "is_cont ?z" "is_cont ?t"
      using assms(1) 4 by (simp_all add: utf8_head_def split: if_splits)
    then obtain y z t where y: "?y = 0x80 + y" "y < 64" and z: "?z = 0x80 + z" "z < 64" and t: "?t = 0x80 + t" "t < 64"
      using that [of "?y - 0x80" "?z - 0x80" "?t - 0x80"] by (auto simp: second_of_4_def is_cont_def split: if_splits)
    obtain x where x: "?x = 0xF0 + x" "x \<le> 4" using 4 that [of "?x - 0xF0"] by simp
    have c: "utf8_cp bs = x * 262144 + y * 4096 + z * 64 + t" using 4 x y z t by (simp add: utf8_cp_def Let_def)
    have r: "x = 0 \<longrightarrow> 16 \<le> y" "x = 4 \<longrightarrow> y < 16" using s(2) x y by (auto simp: second_of_4_def)
    consider "x = 0" | "0 < x" "x < 4" | "x = 4" using x(2) by linarith
    then have "scalar (utf8_cp bs) \<and> 0x10000 \<le> utf8_cp bs"
      unfolding c scalar_def using x y z t r by cases auto
    moreover note digits_4 [OF y(2) z(2) t(2), of x, folded c]
    moreover have "[0..<n] = [0, 1, 2, 3]" using s by (simp add: upt_rec numeral_2_eq_2 numeral_3_eq_3)
    ultimately show ?thesis using x y z t by (simp add: utf8_units_def)
  qed
  then show "scalar (utf8_cp bs)" and "map (byte_at bs) [0..<n] = utf8_units (utf8_cp bs)" by simp_all
qed

lemma utf8_head_take:
  assumes "utf8_head bs = (n, True)" "bs \<noteq> []"
  shows "take n bs = encode_utf8 (utf8_cp bs)"
proof -
  have "n \<le> length bs" using utf8_head_length [OF assms] .
  then have "map (byte_at bs) [0..<n] = map unat (take n bs)"
    by (intro nth_equalityI) (simp_all add: byte_at_def)
  then have "map unat (take n bs) = map unat (encode_utf8 (utf8_cp bs))"
    using utf8_head_units [OF assms] map_unat_encode by metis
  then show ?thesis by (rule map_injective) (rule inj_unsigned)
qed

section \<open>The decoding step\<close>

lemma decode_at_head:
  assumes "i < length buf"
  shows "decode_at buf i =
    (let rest = drop i buf in
     if snd (utf8_head rest) then CpStep (utf8_cp rest) (fst (utf8_head rest))
     else if utf8_cut rest then Incomplete else Invalid)"
  using assms utf8_head_pos [of "drop i buf"]
  by (subst decode_at_def, subst utf8_error.simps) (auto simp: Let_def split: option.splits)

text \<open>A successful step reads the encoding of one scalar value.\<close>

lemma decode_at_CpD:
  assumes "decode_at buf i = CpStep c n" "i < length buf"
  shows "scalar c" "drop i buf = encode_utf8 c @ drop (i + n) buf" "n = length (encode_utf8 c)" "0 < n" "i + n \<le> length buf"
proof -
  let ?r = "drop i buf"
  have ne: "?r \<noteq> []" using assms(2) by simp
  have h: "utf8_head ?r = (n, True)" and c: "c = utf8_cp ?r"
    using assms by (auto simp: decode_at_head Let_def split: if_splits intro: prod_eqI)
  show "scalar c" using utf8_head_units [OF h ne] c by simp
  have t: "take n ?r = encode_utf8 c" using utf8_head_take [OF h ne] c by simp
  show "drop i buf = encode_utf8 c @ drop (i + n) buf"
    using append_take_drop_id [of n ?r] t by (simp add: add.commute)
  have "n \<le> length ?r" using utf8_head_length [OF h ne] .
  then show "i + n \<le> length buf" using assms(2) by simp
  then have "length (take n ?r) = n" by simp
  then show "n = length (encode_utf8 c)" using t by simp
  show "0 < n" using utf8_head_pos [of ?r] h by simp
qed

lemma units_nonempty [simp]: "utf8_units c \<noteq> []" "0 < length (utf8_units c)"
  by (simp_all add: utf8_units_def)

lemma decode_at_encode:
  assumes "scalar c" "drop i buf = encode_utf8 c @ rest"
  shows "decode_at buf i = CpStep c (length (encode_utf8 c))"
proof -
  have "i < length buf" using assms(2) by (metis append_is_Nil_conv drop_all length_encode_utf8 length_greater_0_conv not_less units_nonempty(2))
  then show ?thesis using assms utf8_head_encode [OF assms(1), of rest] by (simp add: decode_at_head Let_def)
qed

section \<open>Completion is exact\<close>

definition completes :: "byte list \<Rightarrow> nat \<Rightarrow> bool" where
  "completes p c \<longleftrightarrow> scalar c \<and> strict_prefix p (encode_utf8 c)"

lemma completes_units:
  "completes p c \<longleftrightarrow> scalar c \<and> (\<exists>j < length (utf8_units c). map unat p = take j (utf8_units c))"
proof (cases "scalar c")
  case True
  have "p = take j (encode_utf8 c) \<longleftrightarrow> map unat p = take j (utf8_units c)" for j
    unfolding map_unat_encode [OF True, symmetric] take_map
    by (simp add: inj_map_eq_map [OF inj_unsigned])
  moreover have "strict_prefix p q \<longleftrightarrow> (\<exists>j < length q. p = take j q)" for q :: "byte list"
    by (metis append_take_drop_id drop_eq_Nil2 length_take less_imp_le_nat min.absorb2 nat_less_le
        not_less prefix_length_less strict_prefix_def prefix_def same_prefix_nil append_eq_conv_conj)
  ultimately show ?thesis using True by (simp add: completes_def)
qed (simp add: completes_def)

lemma div_eq_range: "0 < (k::nat) \<Longrightarrow> c div k = x \<longleftrightarrow> x * k \<le> c \<and> c < x * k + k"
proof
  assume "0 < k" "c div k = x"
  then show "x * k \<le> c \<and> c < x * k + k" 
    using div_mult_mod_eq [of c k] mod_less_divisor [of k c] by (metis add_less_cancel_left le_add1)
next
  assume "0 < k" "x * k \<le> c \<and> c < x * k + k"
  then show "c div k = x" by (intro div_nat_eqI) (simp_all add: algebra_simps)
qed

lemma offset_mod:
  "(x::nat) < 32 \<Longrightarrow> (0xC0 + x) mod 32 = x" "x < 16 \<Longrightarrow> (0xE0 + x) mod 16 = x"
  "x < 5 \<Longrightarrow> (0xF0 + x) mod 8 = x" "x < 64 \<Longrightarrow> (0x80 + x) mod 64 = x"
  using mod_mult_self3 [of 6 32 x] mod_mult_self3 [of 14 16 x] mod_mult_self3 [of 30 8 x] mod_mult_self3 [of 2 64 x]
  by simp_all

lemma lead_2: "2 \<le> x \<Longrightarrow> x < 32 \<Longrightarrow> completion_lead (0xC0 + x) = Some (2, x, 0x80, 0xBF)"
  by (simp add: completion_lead_def and_low_nat offset_mod)

lemma lead_3:
  "x < 16 \<Longrightarrow> completion_lead (0xE0 + x) =
     Some (3, x, if x = 0 then 0xA0 else 0x80, if x = 13 then 0x9F else 0xBF)"
  by (auto simp: completion_lead_def and_low_nat offset_mod)

lemma lead_4:
  "x < 5 \<Longrightarrow> completion_lead (0xF0 + x) =
     Some (4, x, if x = 0 then 0x90 else 0x80, if x = 4 then 0x8F else 0xBF)"
  by (auto simp: completion_lead_def and_low_nat offset_mod)

lemma leadE:
  assumes "completion_lead b0 = Some r"
  obtains x where "b0 = 0xC0 + x" "2 \<le> x" "x < 32" | x where "b0 = 0xE0 + x" "x < 16" | x where "b0 = 0xF0 + x" "x < 5"
proof -
  have "0xC2 \<le> b0 \<and> b0 \<le> 0xDF \<or> 0xE0 \<le> b0 \<and> b0 \<le> 0xEF \<or> 0xF0 \<le> b0 \<and> b0 \<le> 0xF4"
    using assms by (auto simp: completion_lead_def split: if_splits)
  then show ?thesis using that(1) [of "b0 - 0xC0"] that(2) [of "b0 - 0xE0"] that(3) [of "b0 - 0xF0"] by fastforce
qed

lemma or_6: "(k::nat) < 64 \<Longrightarrow> push_bit 6 v OR k = v * 64 + k" "k < 4096 \<Longrightarrow> push_bit 12 v OR k = v * 4096 + k"
  "k < 262144 \<Longrightarrow> push_bit 18 v OR k = v * 262144 + k"
  "k < 64 \<Longrightarrow> v * 64 OR k = v * 64 + k" "k < 4096 \<Longrightarrow> v * 4096 OR k = v * 4096 + k"
  "k < 262144 \<Longrightarrow> v * 262144 OR k = v * 262144 + k"
  using or_push_bit [of k 6 v] or_push_bit [of k 12 v] or_push_bit [of k 18 v] by (simp_all add: push_bit_eq_mult)

lemma value_cont:
  "y < 64 \<Longrightarrow> completion_value c_lo c_hi idx v ((0x80 + y) # bs) =
     (if idx = 0 \<and> \<not> (c_lo \<le> 0x80 + y \<and> 0x80 + y \<le> c_hi) then None
      else completion_value c_lo c_hi (Suc idx) (v * 64 + y) bs)"
  using and_C0 [of "0x80 + y"] by (simp add: and_low_nat or_6 offset_mod)

declare completion_value.simps(2) [simp del]

text \<open>The range of each of the six shapes of a partial character.\<close>

lemma completion_range_shapes:
  assumes "map unat p = b0 # bs"
  shows
    "2 \<le> x \<Longrightarrow> x < 32 \<Longrightarrow> b0 = 0xC0 + x \<Longrightarrow> bs = [] \<Longrightarrow> completion_range p = Some (x * 64, x * 64 + 63)"
    "x < 16 \<Longrightarrow> b0 = 0xE0 + x \<Longrightarrow> bs = [] \<Longrightarrow>
       completion_range p = Some (x * 4096 + (if x = 0 then 2048 else 0), x * 4096 + (if x = 13 then 2047 else 4095))"
    "x < 16 \<Longrightarrow> y < 64 \<Longrightarrow> (x = 0 \<longrightarrow> 32 \<le> y) \<Longrightarrow> (x = 13 \<longrightarrow> y < 32) \<Longrightarrow> b0 = 0xE0 + x \<Longrightarrow> bs = [0x80 + y] \<Longrightarrow>
       completion_range p = Some (x * 4096 + y * 64, x * 4096 + y * 64 + 63)"
    "x < 5 \<Longrightarrow> b0 = 0xF0 + x \<Longrightarrow> bs = [] \<Longrightarrow>
       completion_range p = Some (x * 262144 + (if x = 0 then 65536 else 0), x * 262144 + (if x = 4 then 65535 else 262143))"
    "x < 5 \<Longrightarrow> y < 64 \<Longrightarrow> (x = 0 \<longrightarrow> 16 \<le> y) \<Longrightarrow> (x = 4 \<longrightarrow> y < 16) \<Longrightarrow> b0 = 0xF0 + x \<Longrightarrow> bs = [0x80 + y] \<Longrightarrow>
       completion_range p = Some (x * 262144 + y * 4096, x * 262144 + y * 4096 + 4095)"
    "x < 5 \<Longrightarrow> y < 64 \<Longrightarrow> z < 64 \<Longrightarrow> (x = 0 \<longrightarrow> 16 \<le> y) \<Longrightarrow> (x = 4 \<longrightarrow> y < 16) \<Longrightarrow>
       b0 = 0xF0 + x \<Longrightarrow> bs = [0x80 + y, 0x80 + z] \<Longrightarrow>
       completion_range p = Some (x * 262144 + y * 4096 + z * 64, x * 262144 + y * 4096 + z * 64 + 63)"
proof -
  have l: "length p = Suc (length bs)" using arg_cong [OF assms, of length] by simp
  note d = completion_range_def assms l lead_2 lead_3 lead_4 value_cont Let_def
  show "2 \<le> x \<Longrightarrow> x < 32 \<Longrightarrow> b0 = 0xC0 + x \<Longrightarrow> bs = [] \<Longrightarrow> completion_range p = Some (x * 64, x * 64 + 63)"
    by (simp add: d or_6 push_bit_of_1) (simp add: push_bit_eq_mult)
  show "x < 16 \<Longrightarrow> b0 = 0xE0 + x \<Longrightarrow> bs = [] \<Longrightarrow>
       completion_range p = Some (x * 4096 + (if x = 0 then 2048 else 0), x * 4096 + (if x = 13 then 2047 else 4095))"
    by (simp add: d or_6 push_bit_of_1) (auto simp: push_bit_eq_mult)
  show "x < 16 \<Longrightarrow> y < 64 \<Longrightarrow> (x = 0 \<longrightarrow> 32 \<le> y) \<Longrightarrow> (x = 13 \<longrightarrow> y < 32) \<Longrightarrow> b0 = 0xE0 + x \<Longrightarrow> bs = [0x80 + y] \<Longrightarrow>
       completion_range p = Some (x * 4096 + y * 64, x * 4096 + y * 64 + 63)"
    by (simp add: d or_6 push_bit_of_1) (auto simp: push_bit_eq_mult)
  show "x < 5 \<Longrightarrow> b0 = 0xF0 + x \<Longrightarrow> bs = [] \<Longrightarrow>
       completion_range p = Some (x * 262144 + (if x = 0 then 65536 else 0), x * 262144 + (if x = 4 then 65535 else 262143))"
    by (simp add: d or_6 push_bit_of_1) (auto simp: push_bit_eq_mult)
  show "x < 5 \<Longrightarrow> y < 64 \<Longrightarrow> (x = 0 \<longrightarrow> 16 \<le> y) \<Longrightarrow> (x = 4 \<longrightarrow> y < 16) \<Longrightarrow> b0 = 0xF0 + x \<Longrightarrow> bs = [0x80 + y] \<Longrightarrow>
       completion_range p = Some (x * 262144 + y * 4096, x * 262144 + y * 4096 + 4095)"
    by (simp add: d or_6 push_bit_of_1) (auto simp: push_bit_eq_mult)
  show "x < 5 \<Longrightarrow> y < 64 \<Longrightarrow> z < 64 \<Longrightarrow> (x = 0 \<longrightarrow> 16 \<le> y) \<Longrightarrow> (x = 4 \<longrightarrow> y < 16) \<Longrightarrow>
       b0 = 0xF0 + x \<Longrightarrow> bs = [0x80 + y, 0x80 + z] \<Longrightarrow>
       completion_range p = Some (x * 262144 + y * 4096 + z * 64, x * 262144 + y * 4096 + z * 64 + 63)"
    by (simp add: d or_6 push_bit_of_1) (auto simp: push_bit_eq_mult)
qed

lemma take_lt_cases:
  "j < Suc 0 \<Longrightarrow> take j [a] = []"
  "j < 2 \<Longrightarrow> take j [a, b] = [] \<or> take j [a, b] = [a]"
  "j < 3 \<Longrightarrow> take j [a, b, c] = [] \<or> take j [a, b, c] = [a] \<or> take j [a, b, c] = [a, b]"
  "j < 4 \<Longrightarrow> take j [a, b, c, d] = [] \<or> take j [a, b, c, d] = [a] \<or> take j [a, b, c, d] = [a, b] \<or> take j [a, b, c, d] = [a, b, c]"
  by (auto simp: take_Cons' less_Suc_eq numeral_2_eq_2 numeral_3_eq_3 numeral_eq_Suc)

lemma completes_in_range:
  assumes "completes p c" "p \<noteq> []"
  shows "\<exists>lo hi. completion_range p = Some (lo, hi) \<and> lo \<le> c \<and> c \<le> hi"
proof -
  obtain j where c: "scalar c" and j: "j < length (utf8_units c)" "map unat p = take j (utf8_units c)"
    using assms(1) by (auto simp: completes_units)
  have ne: "take j (utf8_units c) \<noteq> []" using assms(2) unfolding j(2) [symmetric] by simp
  from c show ?thesis
  proof (cases rule: scalar_digits)
    case 1
    then show ?thesis using j ne by simp
  next
    case (2 x y)
    then have "map unat p = [0xC0 + x]" using j ne take_lt_cases(2) [of j "0xC0 + x" "0x80 + y"] by auto
    from completion_range_shapes(1) [OF this, of x] 2 show ?thesis by auto
  next
    case (3 x y z)
    then consider "map unat p = [0xE0 + x]" | "map unat p = [0xE0 + x, 0x80 + y]"
      using j ne take_lt_cases(3) [of j "0xE0 + x" "0x80 + y" "0x80 + z"] by auto
    then show ?thesis
    proof cases
      case s: 1
      from completion_range_shapes(2) [OF s, of x] 3 show ?thesis by auto
    next
      case s: 2
      from completion_range_shapes(3) [OF s, of x y] 3 show ?thesis by auto
    qed
  next
    case (4 x y z t)
    then consider "map unat p = [0xF0 + x]" | "map unat p = [0xF0 + x, 0x80 + y]" | "map unat p = [0xF0 + x, 0x80 + y, 0x80 + z]"
      using j ne take_lt_cases(4) [of j "0xF0 + x" "0x80 + y" "0x80 + z" "0x80 + t"] by auto
    then show ?thesis
    proof cases
      case s: 1
      from completion_range_shapes(4) [OF s, of x] 4 show ?thesis by auto
    next
      case s: 2
      from completion_range_shapes(5) [OF s, of x y] 4 show ?thesis by auto
    next
      case s: 3
      from completion_range_shapes(6) [OF s, of x y z] 4 show ?thesis by auto
    qed
  qed
qed

lemma value_contE:
  assumes "completion_value c_lo c_hi idx v (b # bs) = Some r" "b < 256"
  obtains y where "b = 0x80 + y" "y < 64" "idx = 0 \<longrightarrow> c_lo \<le> b \<and> b \<le> c_hi"
    "completion_value c_lo c_hi (Suc idx) (v * 64 + y) bs = Some r"
proof -
  have "b AND 0xC0 = 0x80" using assms(1) by (simp add: completion_value.simps split: if_splits)
  then have "0x80 \<le> b" "b \<le> 0xBF" using and_C0 [OF assms(2)] by simp_all
  then have b: "b = 0x80 + (b - 0x80)" "b - 0x80 < 64" by simp_all
  show ?thesis
    using assms(1) that [OF b] value_cont [OF b(2), of c_lo c_hi idx v bs] b(1) by (auto split: if_splits)
qed

lemma shapesE:
  assumes "completion_range p = Some r"
  obtains (21) x where "map unat p = [0xC0 + x]" "2 \<le> x" "x < 32"
  | (31) x where "map unat p = [0xE0 + x]" "x < 16"
  | (32) x y where "map unat p = [0xE0 + x, 0x80 + y]" "x < 16" "y < 64" "x = 0 \<longrightarrow> 32 \<le> y" "x = 13 \<longrightarrow> y < 32"
  | (41) x where "map unat p = [0xF0 + x]" "x < 5"
  | (42) x y where "map unat p = [0xF0 + x, 0x80 + y]" "x < 5" "y < 64" "x = 0 \<longrightarrow> 16 \<le> y" "x = 4 \<longrightarrow> y < 16"
  | (43) x y z where "map unat p = [0xF0 + x, 0x80 + y, 0x80 + z]" "x < 5" "y < 64" "z < 64"
      "x = 0 \<longrightarrow> 16 \<le> y" "x = 4 \<longrightarrow> y < 16"
proof -
  obtain b0 bs where p: "map unat p = b0 # bs" using assms by (auto simp: completion_range_def split: list.splits)
  have l: "length p = Suc (length bs)" using arg_cong [OF p, of length] by simp
  have bnd: "\<forall>b \<in> set bs. b < 256" 
  proof -
    have "set bs \<subseteq> unat ` set p" using arg_cong [OF p, of set] by auto
    then show ?thesis using unat_byte_bound by fastforce
  qed
  obtain len v lo hi where lead: "completion_lead b0 = Some (len, v, lo, hi)"
    using assms p by (auto simp: completion_range_def split: option.splits)
  have len: "length bs < len - 1" and val: "\<exists>r. completion_value lo hi 0 v bs = Some r"
    using assms p l lead by (auto simp: completion_range_def split: option.splits if_splits)
  from lead show ?thesis
  proof (cases rule: leadE)
    case (1 x)
    then show ?thesis using 21 [of x] p len lead by (simp add: lead_2)
  next
    case (2 x)
    show ?thesis
    proof (cases bs)
      case Nil
      then show ?thesis using 31 [of x] p 2 by simp
    next
      case (Cons b bs')
      then have nil: "bs' = []" using len lead 2 by (simp add: lead_3)
      from val Cons bnd obtain y where "b = 0x80 + y" "y < 64" "lo \<le> b \<and> b \<le> hi" by (auto elim: value_contE)
      then show ?thesis using 32 [of x y] p 2 lead Cons nil by (auto simp: lead_3 split: if_splits)
    qed
  next
    case (3 x)
    show ?thesis
    proof (cases bs)
      case Nil
      then show ?thesis using 41 [of x] p 3 by simp
    next
      case (Cons b bs')
      from val Cons bnd obtain y r' where y: "b = 0x80 + y" "y < 64" "lo \<le> b \<and> b \<le> hi"
        "completion_value lo hi (Suc 0) (v * 64 + y) bs' = Some r'" by (auto elim: value_contE)
      have r: "x = 0 \<longrightarrow> 16 \<le> y" "x = 4 \<longrightarrow> y < 16" using y 3 lead by (auto simp: lead_4 split: if_splits)
      show ?thesis
      proof (cases bs')
        case Nil
        then show ?thesis using 42 [of x y] p 3 y r Cons by simp
      next
        case c: (Cons b' bs'')
        then have nil: "bs'' = []" using len lead 3 Cons by (simp add: lead_4)
        from y(4) c bnd Cons obtain z where "b' = 0x80 + z" "z < 64" by (auto elim: value_contE)
        then show ?thesis using 43 [of x y z] p 3 y r Cons c nil by simp
      qed
    qed
  qed
qed

lemma completesI:
  assumes "scalar c" "utf8_units c = map unat p @ q" "q \<noteq> []"
  shows "completes p c"
  unfolding completes_units using assms by (intro conjI exI [of _ "length p"]) auto

lemma units_3: "x < 16 \<Longrightarrow> y < 64 \<Longrightarrow> z < 64 \<Longrightarrow> x = 0 \<longrightarrow> 32 \<le> y \<Longrightarrow> x = 13 \<longrightarrow> y < 32 \<Longrightarrow>
    scalar (x * 4096 + y * 64 + z) \<and> utf8_units (x * 4096 + y * 64 + z) = [0xE0 + x, 0x80 + y, 0x80 + z]"
  using digits_3 [of y z x] unfolding utf8_units_def scalar_def by (cases "x = 0"; cases "x < 13"; cases "x = 13") auto

lemma units_4: "x < 5 \<Longrightarrow> y < 64 \<Longrightarrow> z < 64 \<Longrightarrow> t < 64 \<Longrightarrow> x = 0 \<longrightarrow> 16 \<le> y \<Longrightarrow> x = 4 \<longrightarrow> y < 16 \<Longrightarrow>
    scalar (x * 262144 + y * 4096 + z * 64 + t) \<and>
    utf8_units (x * 262144 + y * 4096 + z * 64 + t) = [0xF0 + x, 0x80 + y, 0x80 + z, 0x80 + t]"
  using digits_4 [of y z t x] unfolding utf8_units_def scalar_def by (cases "x = 0"; cases "x = 4") auto

lemma split_low_2:
  assumes "b \<le> c" "c < b + (4096::nat)"
  obtains y z where "c = b + y * 64 + z" "y < 64" "z < 64"
proof
  have "(c - b) div 64 * 64 + (c - b) mod 64 = c - b" by simp
  then show "c = b + (c - b) div 64 * 64 + (c - b) mod 64" using assms by linarith
  show "(c - b) div 64 < 64" "(c - b) mod 64 < 64" using assms by auto
qed

lemma split_low_3:
  assumes "b \<le> c" "c < b + (262144::nat)"
  obtains x y z where "c = b + x * 4096 + y * 64 + z" "x < 64" "y < 64" "z < 64"
proof -
  let ?x = "(c - b) div 4096"
  have x: "?x * 4096 + (c - b) mod 4096 = c - b" "(c - b) mod 4096 < 4096" by simp_all
  have "?x < 64" using assms by auto
  moreover have "b + ?x * 4096 \<le> c" "c < b + ?x * 4096 + 4096" using x assms by linarith+
  then obtain y z where "c = b + ?x * 4096 + y * 64 + z" "y < 64" "z < 64" by (rule split_low_2)
  ultimately show ?thesis using that by blast
qed

lemma range_completes:
  assumes "completion_range p = Some (lo, hi)" "lo \<le> c" "c \<le> hi"
  shows "completes p c"
  using assms(1)
proof (cases rule: shapesE)
  case (21 x)
  have "c div 64 = x" using completion_range_shapes(1) [OF 21(1), of x] 21 assms by (simp add: div_eq_range)
  then show ?thesis using 21 by (intro completesI [where q = "[0x80 + c mod 64]"]) (auto simp: scalar_def utf8_units_def)
next
  case (31 x)
  have r: "lo = x * 4096 + (if x = 0 then 2048 else 0)" "hi = x * 4096 + (if x = 13 then 2047 else 4095)"
    using completion_range_shapes(2) [OF 31(1), of x] 31(2) assms(1) by simp_all
  have "x * 4096 \<le> c" "c < x * 4096 + 4096" using assms(2,3) unfolding r by (simp_all split: if_splits)
  then obtain y z where c: "c = x * 4096 + y * 64 + z" "y < 64" "z < 64" by (rule split_low_2)
  have "x = 0 \<longrightarrow> 32 \<le> y" "x = 13 \<longrightarrow> y < 32" using c assms(2,3) unfolding r by auto
  from units_3 [OF 31(2) c(2,3) this] show ?thesis
    unfolding c(1) using 31(1) by (intro completesI [where q = "[0x80 + y, 0x80 + z]"]) simp_all
next
  case (32 x y)
  have r: "lo = x * 4096 + y * 64" "hi = x * 4096 + y * 64 + 63"
    using completion_range_shapes(3) [OF 32(1), of x y] 32(2-5) assms(1) by simp_all
  obtain z where c: "c = x * 4096 + y * 64 + z" "z < 64" using assms r that [of "c - lo"] by simp
  from units_3 [OF 32(2,3) c(2) 32(4,5)] show ?thesis
    unfolding c(1) using 32(1) by (intro completesI [where q = "[0x80 + z]"]) simp_all
next
  case (41 x)
  have r: "lo = x * 262144 + (if x = 0 then 65536 else 0)" "hi = x * 262144 + (if x = 4 then 65535 else 262143)"
    using completion_range_shapes(4) [OF 41(1), of x] 41(2) assms(1) by simp_all
  have "x * 262144 \<le> c" "c < x * 262144 + 262144" using assms(2,3) unfolding r by (simp_all split: if_splits)
  then obtain y z t where c: "c = x * 262144 + y * 4096 + z * 64 + t" "y < 64" "z < 64" "t < 64" by (rule split_low_3)
  have "x = 0 \<longrightarrow> 16 \<le> y" "x = 4 \<longrightarrow> y < 16" using c assms(2,3) unfolding r by auto
  from units_4 [OF 41(2) c(2,3,4) this] show ?thesis
    unfolding c(1) using 41(1) by (intro completesI [where q = "[0x80 + y, 0x80 + z, 0x80 + t]"]) simp_all
next
  case (42 x y)
  have r: "lo = x * 262144 + y * 4096" "hi = x * 262144 + y * 4096 + 4095"
    using completion_range_shapes(5) [OF 42(1), of x y] 42(2-5) assms(1) by simp_all
  have "x * 262144 + y * 4096 \<le> c" "c < x * 262144 + y * 4096 + 4096" using assms(2,3) unfolding r by simp_all
  then obtain z t where c: "c = x * 262144 + y * 4096 + z * 64 + t" "z < 64" "t < 64" by (rule split_low_2)
  from units_4 [OF 42(2,3) c(2,3) 42(4,5)] show ?thesis
    unfolding c(1) using 42(1) by (intro completesI [where q = "[0x80 + z, 0x80 + t]"]) simp_all
next
  case (43 x y z)
  have r: "lo = x * 262144 + y * 4096 + z * 64" "hi = x * 262144 + y * 4096 + z * 64 + 63"
    using completion_range_shapes(6) [OF 43(1), of x y z] 43(2-6) assms(1) by simp_all
  obtain t where c: "c = x * 262144 + y * 4096 + z * 64 + t" "t < 64" using assms r that [of "c - lo"] by simp
  from units_4 [OF 43(2,3,4) c(2) 43(5,6)] show ?thesis
    unfolding c(1) using 43(1) by (intro completesI [where q = "[0x80 + t]"]) simp_all
qed

lemma completion_range_None: "completion_range p = None \<Longrightarrow> p \<noteq> [] \<Longrightarrow> \<not> completes p c"
  using completes_in_range by force

text \<open>An input that \<open>decode_at\<close> calls incomplete is a proper prefix of a character.\<close>

lemma length_1_2_3:
  "length p = 1 \<Longrightarrow> p = [p ! 0]" "length p = 2 \<Longrightarrow> p = [p ! 0, p ! 1]" "length p = 3 \<Longrightarrow> p = [p ! 0, p ! 1, p ! 2]"
  by (auto simp: numeral_eq_Suc length_Suc_conv)

lemma utf8_cut_completes:
  assumes "utf8_cut p" "p \<noteq> []"
  shows "\<exists>c. completes p c"
proof -
  let ?x = "byte_at p 0" and ?y = "byte_at p 1" and ?z = "byte_at p 2"
  have no: "\<not> snd (utf8_head p)" and w: "utf8_width ?x \<noteq> 0" and n: "fst (utf8_head p) = length p"
    using assms(1) by (simp_all add: utf8_cut_def)
  have "\<exists>lo hi. completion_range p = Some (lo, hi) \<and> lo \<le> hi"
  proof -
    consider "?x < 0x80" | x where "?x = 0xC0 + x" "2 \<le> x" "x < 32" | x where "?x = 0xE0 + x" "x < 16" | x where "?x = 0xF0 + x" "x < 5"
    proof -
      have "?x < 0x80 \<or> 0xC2 \<le> ?x \<and> ?x \<le> 0xDF \<or> 0xE0 \<le> ?x \<and> ?x \<le> 0xEF \<or> 0xF0 \<le> ?x \<and> ?x \<le> 0xF4"
        using w by (auto simp: utf8_width_def split: if_splits)
      then show ?thesis using that(1) that(2) [of "?x - 0xC0"] that(3) [of "?x - 0xE0"] that(4) [of "?x - 0xF0"] by fastforce
    qed
    then show ?thesis
    proof cases
      case 1
      then show ?thesis using no by (simp add: utf8_head_def)
    next
      case (2 x)
      then have "length p = 1" using no n by (simp add: utf8_head_def split: if_splits)
      then have "map unat p = [0xC0 + x]" using length_1_2_3(1) [of p] 2 by (metis byte_at_def list.simps(8,9) zero_less_one)
      from completion_range_shapes(1) [OF this, of x] 2 show ?thesis by simp
    next
      case (3 x)
      show ?thesis
      proof (cases "length p = 1")
        case True
        then have "map unat p = [0xE0 + x]" using length_1_2_3(1) [of p] 3 by (metis byte_at_def list.simps(8,9) zero_less_one)
        from completion_range_shapes(2) [OF this, of x] 3 show ?thesis by simp
      next
        case False
        then have l: "length p = 2" "second_of_3 ?x ?y" using no n 3 by (simp_all add: utf8_head_def split: if_splits)
        have "0x80 \<le> ?y" "?y \<le> 0xBF" using l(2) by (auto simp: second_of_3_def is_cont_def split: if_splits)
        then obtain y where y: "?y = 0x80 + y" "y < 64" using that [of "?y - 0x80"] by simp
        have r: "x = 0 \<longrightarrow> 32 \<le> y" "x = 13 \<longrightarrow> y < 32" using l(2) 3 y by (auto simp: second_of_3_def)
        have "map unat p = [?x, ?y]" using length_1_2_3(2) [OF l(1)] l(1) by (simp add: byte_at_def) (metis list.simps(8,9))
        then have "map unat p = [0xE0 + x, 0x80 + y]" using 3 y by simp
        from completion_range_shapes(3) [OF this, of x y] 3 y r show ?thesis by simp
      qed
    next
      case (4 x)
      show ?thesis
      proof (cases "length p = 1")
        case True
        then have "map unat p = [0xF0 + x]" using length_1_2_3(1) [of p] 4 by (metis byte_at_def list.simps(8,9) zero_less_one)
        from completion_range_shapes(4) [OF this, of x] 4 show ?thesis by simp
      next
        case False
        then have l: "second_of_4 ?x ?y" "length p = 2 \<or> length p = 3 \<and> is_cont ?z"
          using no n 4 by (auto simp: utf8_head_def split: if_splits)
        have "0x80 \<le> ?y" "?y \<le> 0xBF" using l(1) by (auto simp: second_of_4_def is_cont_def split: if_splits)
        then obtain y where y: "?y = 0x80 + y" "y < 64" using that [of "?y - 0x80"] by simp
        have r: "x = 0 \<longrightarrow> 16 \<le> y" "x = 4 \<longrightarrow> y < 16" using l(1) 4 y by (auto simp: second_of_4_def)
        from l(2) show ?thesis
        proof
          assume l2: "length p = 2"
          have "map unat p = [?x, ?y]" using length_1_2_3(2) [OF l2] l2 by (simp add: byte_at_def) (metis list.simps(8,9))
          then have "map unat p = [0xF0 + x, 0x80 + y]" using 4 y by simp
          from completion_range_shapes(5) [OF this, of x y] 4 y r show ?thesis by simp
        next
          assume l3: "length p = 3 \<and> is_cont ?z"
          then obtain z where z: "?z = 0x80 + z" "z < 64" using that [of "?z - 0x80"] by (auto simp: is_cont_def)
          have "map unat p = [?x, ?y, ?z]" using length_1_2_3(3) [of p] l3 by (simp add: byte_at_def) (metis list.simps(8,9))
          then have "map unat p = [0xF0 + x, 0x80 + y, 0x80 + z]" using 4 y z by simp
          from completion_range_shapes(6) [OF this, of x y z] 4 y z r show ?thesis by simp
        qed
      qed
    qed
  qed
  then show ?thesis using range_completes by blast
qed

lemma completes_cut:
  assumes "completes p c" "p \<noteq> []"
  shows "\<not> snd (utf8_head p)" "utf8_cut p"
proof -
  obtain j where c: "scalar c" and j: "j < length (utf8_units c)" "map unat p = take j (utf8_units c)"
    using assms(1) by (auto simp: completes_units)
  have b: "byte_at p i = (if i < j then utf8_units c ! i else 0)" for i
  proof -
    have "length p = j" using j by (metis length_map length_take min.absorb4 less_imp_le_nat min.absorb2)
    then show ?thesis using j by (auto simp: byte_at_def) (metis nth_map nth_take)
  qed
  have l: "length p = j" using j by (metis length_map length_take less_imp_le_nat min.absorb2)
  have "0 < j" using assms(2) l by auto
  from c have "\<not> snd (utf8_head p) \<and> utf8_cut p"
  proof (cases rule: scalar_digits)
    case 1
    then show ?thesis using j \<open>0 < j\<close> by simp
  next
    case (2 x y)
    then have "j = 1" using j \<open>0 < j\<close> by simp
    then show ?thesis using b [of 0] b [of 1] 2 l by (simp add: utf8_cut_def utf8_head_def utf8_width_def is_cont_def)
  next
    case (3 x y z)
    then have "j = 1 \<or> j = 2" using j \<open>0 < j\<close> by auto
    then show ?thesis using b [of 0] b [of 1] b [of 2] 3 l
      by (auto simp: utf8_cut_def utf8_head_def utf8_width_def is_cont_def second_of_3_def)
  next
    case (4 x y z t)
    then have "j = 1 \<or> j = 2 \<or> j = 3" using j \<open>0 < j\<close> by auto
    then show ?thesis using b [of 0] b [of 1] b [of 2] b [of 3] 4 l
      by (auto simp: utf8_cut_def utf8_head_def utf8_width_def is_cont_def second_of_4_def)
  qed
  then show "\<not> snd (utf8_head p)" "utf8_cut p" by simp_all
qed

end
