(* ===== verification/Grammar_Vm.thy ===== *)
theory Grammar_Vm
  imports Utf8 "HOL-Library.List_Lexorder"
begin

text \<open>
  The pushdown automaton of the grammar engine (\<open>src/grammar.rs\<close>): the instructions of a compiled
  rule, the epsilon closure with its three limits, the consumption of code points and of bytes with
  a carried partial character, and the acceptance of a state. A program is a list of rules, each a
  list of instructions; a frame \<open>[rule, pc]\<close> is a pair and the last frame of a stack is
  the current one. The source indexes \<open>rules[rule][pc]\<close> and panics out of range; that no state of a
  compiled grammar leaves the range is proved where the compiler is modelled.
\<close>

section \<open>Instructions and states\<close>

datatype Inst = ICp nat | IClass bool "(nat \<times> nat) list" | IAny | Split nat nat | Jump nat | Call nat | Ret

type_synonym frame = "nat \<times> nat"
type_synonym stack = "frame list"
type_synonym program = "Inst list list"

definition MAX_STACK_DEPTH :: nat where "MAX_STACK_DEPTH = 256"
definition MAX_STACKS :: nat where "MAX_STACKS = 64"
definition MAX_CLOSURE_STEPS :: nat where "MAX_CLOSURE_STEPS = 65536"

record StateKey =
  sk_stacks :: "stack list"
  sk_partial :: "byte list"
  sk_done :: bool

text \<open>Why the engine refuses.\<close>

datatype grammar_error =
    ClosureSteps | StackDepth | TooManyStacks nat
  | NoLiveStack nat | SurrogateCp nat | NoCompletion "byte list" | InvalidByte byte

definition inst_at :: "program \<Rightarrow> frame \<Rightarrow> Inst" where
  "inst_at rs f = rs ! fst f ! snd f"

definition set_pc :: "stack \<Rightarrow> nat \<Rightarrow> stack" where
  "set_pc st a = butlast st @ [(fst (last st), a)]"

section \<open>Epsilon closure\<close>

datatype Flow = FSplit nat nat | FJump nat | FCall nat | FRet | FConsume

definition flow :: "program \<Rightarrow> frame \<Rightarrow> Flow" where
  "flow rs f = (case inst_at rs f of
                  Split a b \<Rightarrow> FSplit a b
                | Jump a \<Rightarrow> FJump a
                | Call r \<Rightarrow> FCall r
                | Ret \<Rightarrow> FRet
                | ICp _ \<Rightarrow> FConsume | IClass _ _ \<Rightarrow> FConsume | IAny \<Rightarrow> FConsume)"

text \<open>
  The loop of \<open>close\<close>. The head of \<open>work\<close> is the end of the source's vector, which \<open>pop\<close> takes;
  \<open>seen\<close> is the set of visited stacks.
\<close>

function close_loop :: "program \<Rightarrow> nat \<Rightarrow> stack list \<Rightarrow> stack list \<Rightarrow> stack list \<Rightarrow> (grammar_error, stack list) res" where
  "close_loop rs steps seen out [] = Ok out"
| "close_loop rs steps seen out (st # work) =
     (if Suc steps > MAX_CLOSURE_STEPS then Err ClosureSteps
      else if st \<in> set seen then close_loop rs (Suc steps) seen out work
      else if length st > MAX_STACK_DEPTH then Err StackDepth
      else (case flow rs (last st) of
              FSplit a b \<Rightarrow> close_loop rs (Suc steps) (st # seen) out (set_pc st b # set_pc st a # work)
            | FJump a \<Rightarrow> close_loop rs (Suc steps) (st # seen) out (set_pc st a # work)
            | FCall r \<Rightarrow> close_loop rs (Suc steps) (st # seen) out ((set_pc st (snd (last st) + 1) @ [(r, 0)]) # work)
            | FRet \<Rightarrow> if length st = 1 then close_loop rs (Suc steps) (st # seen) (out @ [st]) work
                      else close_loop rs (Suc steps) (st # seen) out (butlast st # work)
            | FConsume \<Rightarrow> close_loop rs (Suc steps) (st # seen) (out @ [st]) work))"
  by pat_completeness auto
termination
  by (relation "measure (\<lambda>(rs, steps, seen, out, work). Suc MAX_CLOSURE_STEPS - steps)") auto

definition close :: "program \<Rightarrow> stack list \<Rightarrow> (grammar_error, stack list) res" where
  "close rs input =
     and_then (close_loop rs 0 [] [] (rev input)) (\<lambda>out.
       let out' = remdups_adj (sort out) in
       if length out' > MAX_STACKS then Err (TooManyStacks (length out')) else Ok out')"

section \<open>Consumption of a code point\<close>

definition in_ranges :: "(nat \<times> nat) list \<Rightarrow> nat \<Rightarrow> bool" where
  "in_ranges ranges cp \<longleftrightarrow> (\<exists>(a, b) \<in> set ranges. a \<le> cp \<and> cp \<le> b)"

definition inst_matches :: "Inst \<Rightarrow> nat \<Rightarrow> bool" where
  "inst_matches i cp = (case i of
     ICp c \<Rightarrow> c = cp
   | IAny \<Rightarrow> True
   | IClass negated ranges \<Rightarrow> in_ranges ranges cp \<noteq> negated
   | Ret \<Rightarrow> False | Split _ _ \<Rightarrow> False | Jump _ \<Rightarrow> False | Call _ \<Rightarrow> False)"

definition advance :: "stack \<Rightarrow> stack" where
  "advance st = set_pc st (snd (last st) + 1)"

definition vm_step :: "program \<Rightarrow> stack list \<Rightarrow> nat \<Rightarrow> (grammar_error, stack list) res" where
  "vm_step rs stacks cp =
     (let next = map advance (filter (\<lambda>st. inst_matches (inst_at rs (last st)) cp) stacks) in
      if next = [] then Err (NoLiveStack cp) else close rs next)"

section \<open>Partial characters\<close>

definition non_surrogate_parts :: "nat \<Rightarrow> nat \<Rightarrow> (nat \<times> nat) list" where
  "non_surrogate_parts lo hi =
     (if hi < 0xD800 \<or> lo > 0xDFFF then [(lo, hi)]
      else (if lo < 0xD800 then [(lo, 0xD800 - 1)] else []) @ (if hi > 0xDFFF then [(0xDFFF + 1, hi)] else []))"

fun covers_from :: "nat \<Rightarrow> nat \<Rightarrow> (nat \<times> nat) list \<Rightarrow> bool" where
  "covers_from nxt hi [] = False"
| "covers_from nxt hi ((a, b) # ranges) =
     (if b < nxt then covers_from nxt hi ranges
      else if a > nxt then False
      else if b \<ge> hi then True
      else covers_from (b + 1) hi ranges)"

definition covers :: "(nat \<times> nat) list \<Rightarrow> nat \<Rightarrow> nat \<Rightarrow> bool" where
  "covers ranges lo hi = covers_from lo hi ranges"

definition inst_accepts_range :: "Inst \<Rightarrow> nat \<Rightarrow> nat \<Rightarrow> bool" where
  "inst_accepts_range i lo hi = (case i of
     IAny \<Rightarrow> True
   | ICp c \<Rightarrow> c \<ge> lo \<and> c \<le> hi
   | IClass negated ranges \<Rightarrow>
       if negated then \<not> covers ranges lo hi else (\<exists>(a, b) \<in> set ranges. a \<le> hi \<and> b \<ge> lo)
   | Ret \<Rightarrow> False | Split _ _ \<Rightarrow> False | Jump _ \<Rightarrow> False | Call _ \<Rightarrow> False)"

definition any_stack_accepts_plain_range :: "program \<Rightarrow> stack list \<Rightarrow> nat \<Rightarrow> nat \<Rightarrow> bool" where
  "any_stack_accepts_plain_range rs stacks lo hi =
     (\<exists>st \<in> set stacks. inst_accepts_range (inst_at rs (last st)) lo hi)"

definition any_stack_accepts_range :: "program \<Rightarrow> stack list \<Rightarrow> nat \<Rightarrow> nat \<Rightarrow> bool" where
  "any_stack_accepts_range rs stacks lo hi =
     (\<exists>(a, b) \<in> set (non_surrogate_parts lo hi). any_stack_accepts_plain_range rs stacks a b)"

definition partial_can_complete :: "program \<Rightarrow> stack list \<Rightarrow> byte list \<Rightarrow> bool" where
  "partial_can_complete rs stacks partial =
     (case completion_range partial of
        Some (lo, hi) \<Rightarrow> any_stack_accepts_range rs stacks lo hi
      | None \<Rightarrow> False)"

section \<open>Consumption of bytes\<close>

definition surrogate :: "nat \<Rightarrow> bool" where
  "surrogate cp \<longleftrightarrow> 0xD800 \<le> cp \<and> cp \<le> 0xDFFF"

lemma decode_at_width: "decode_at buf i = CpStep c n \<Longrightarrow> 0 < n"
  using utf8_head_pos [of "drop i buf"] by (auto simp: decode_at_def Let_def split: option.splits if_splits)

text \<open>The loop of \<open>consume\<close> returns the stacks and the offset it stopped at.\<close>

function consume_loop ::
    "program \<Rightarrow> nat \<Rightarrow> byte list \<Rightarrow> nat \<Rightarrow> stack list \<Rightarrow> (nat \<times> grammar_error, stack list \<times> nat) res" where
  "consume_loop rs carried buf i stacks =
     (if i < length buf then
        (case decode_at buf i of
           CpStep cp n \<Rightarrow>
             if surrogate cp then Err (i - carried, SurrogateCp cp)
             else (case vm_step rs stacks cp of
                     Inl e \<Rightarrow> Err (i - carried, e)
                   | Inr stacks' \<Rightarrow> consume_loop rs carried buf (i + n) stacks')
         | Incomplete \<Rightarrow>
             if \<not> partial_can_complete rs stacks (drop i buf) then Err (i - carried, NoCompletion (drop i buf))
             else Ok (stacks, i)
         | Invalid \<Rightarrow> Err (i - carried, InvalidByte (buf ! i)))
      else Ok (stacks, i))"
  by auto
termination
  by (relation "measure (\<lambda>(rs, carried, buf, i, stacks). length buf - i)") (auto dest: decode_at_width)

declare consume_loop.simps [simp del]

definition consume :: "program \<Rightarrow> StateKey \<Rightarrow> byte list \<Rightarrow> (nat \<times> grammar_error, StateKey) res" where
  "consume rs key bytes =
     (let buf = sk_partial key @ bytes in
      and_then (consume_loop rs (length (sk_partial key)) buf 0 (sk_stacks key)) (\<lambda>(stacks, i).
        Ok \<lparr>sk_stacks = stacks, sk_partial = drop i buf, sk_done = sk_done key\<rparr>))"

definition state_key_accepting :: "program \<Rightarrow> StateKey \<Rightarrow> bool" where
  "state_key_accepting rs key \<longleftrightarrow>
     \<not> sk_done key \<and> sk_partial key = [] \<and>
     (\<exists>s \<in> set (sk_stacks key). length s = 1 \<and> inst_at rs (s ! 0) = Ret)"

end
