(* ===== verification/Grammar_Run.thy ===== *)
theory Grammar_Run
  imports Grammar_Vm
begin

text \<open>
  The automaton as a transition system on single stacks, and the engine as its subset construction:
  an epsilon closure that does not refuse returns exactly the halted stacks reachable from
  its input, a step exactly those reachable over the code point, and a byte string is consumed exactly
  when it decodes to code points the transition system can read.
\<close>

section \<open>Runs of a single stack\<close>

definition esuccs :: "program \<Rightarrow> stack \<Rightarrow> stack list" where
  "esuccs rs st = (case flow rs (last st) of
     FSplit a b \<Rightarrow> [set_pc st b, set_pc st a]
   | FJump a \<Rightarrow> [set_pc st a]
   | FCall r \<Rightarrow> [set_pc st (snd (last st) + 1) @ [(r, 0)]]
   | FRet \<Rightarrow> if length st = 1 then [] else [butlast st]
   | FConsume \<Rightarrow> [])"

text \<open>A stack that waits for input, or at the end of the root rule.\<close>

definition halted :: "program \<Rightarrow> stack \<Rightarrow> bool" where
  "halted rs st \<longleftrightarrow> flow rs (last st) = FConsume \<or> flow rs (last st) = FRet \<and> length st = 1"

inductive run :: "program \<Rightarrow> nat \<Rightarrow> stack \<Rightarrow> nat list \<Rightarrow> stack \<Rightarrow> bool" for rs where
  run_refl: "run rs 0 st [] st"
| run_eps: "st' \<in> set (esuccs rs st) \<Longrightarrow> run rs n st' w st'' \<Longrightarrow> run rs (Suc n) st w st''"
| run_eat: "inst_matches (inst_at rs (last st)) c \<Longrightarrow> run rs n (advance st) w st'' \<Longrightarrow> run rs (Suc n) st (c # w) st''"

inductive_cases run_0E: "run rs 0 st w st'"
inductive_cases run_SucE: "run rs (Suc n) st w st'"
inductive_cases run_NilE: "run rs n st [] st'"

definition runs :: "program \<Rightarrow> stack \<Rightarrow> nat list \<Rightarrow> stack \<Rightarrow> bool" where
  "runs rs st w st' \<longleftrightarrow> (\<exists>n. run rs n st w st')"

lemma runs_refl [simp, intro]: "runs rs st [] st"
  unfolding runs_def using run_refl by blast

lemma runs_eps: "st' \<in> set (esuccs rs st) \<Longrightarrow> runs rs st' w st'' \<Longrightarrow> runs rs st w st''"
  unfolding runs_def using run_eps by blast

lemma runs_eat: "inst_matches (inst_at rs (last st)) c \<Longrightarrow> runs rs (advance st) w st'' \<Longrightarrow> runs rs st (c # w) st''"
  unfolding runs_def using run_eat by blast

lemma run_trans: "run rs n st u st' \<Longrightarrow> run rs m st' v st'' \<Longrightarrow> run rs (n + m) st (u @ v) st''"
  by (induction rule: run.induct) (auto intro: run.intros)

lemma runs_trans: "runs rs st u st' \<Longrightarrow> runs rs st' v st'' \<Longrightarrow> runs rs st (u @ v) st''"
  unfolding runs_def using run_trans by blast

lemma run_append:
  "run rs n st (u @ v) st'' \<Longrightarrow> \<exists>st' k m. run rs k st u st' \<and> run rs m st' v st'' \<and> n = k + m"
proof (induction n st "u @ v" st'' arbitrary: u rule: run.induct)
  case (run_refl st)
  then show ?case using run.run_refl by fastforce
next
  case (run_eps st' st n st'')
  then obtain s k m where "run rs k st' u s" "run rs m s v st''" "n = k + m" by blast
  then show ?case using run.run_eps [OF run_eps(1)] by (metis add_Suc)
next
  case (run_eat st c n w st'')
  show ?case
  proof (cases u)
    case Nil
    then show ?thesis using run.run_eat [OF run_eat(1,2)] run_eat.hyps(4) run.run_refl by (metis add_0 append_Nil)
  next
    case (Cons a u')
    then have "c = a" "w = u' @ v" using run_eat.hyps by simp_all
    then obtain s k m where "run rs k (advance st) u' s" "run rs m s v st''" "n = k + m" using run_eat.hyps(3) by blast
    then show ?thesis using run.run_eat [of rs st a k u' s] run_eat(1) Cons \<open>c = a\<close> by (metis add_Suc)
  qed
qed

lemma matches_halted: "inst_matches (inst_at rs (last st)) c \<Longrightarrow> halted rs st"
  by (auto simp: inst_matches_def halted_def flow_def split: Inst.splits)

lemma halted_esuccs [simp]: "halted rs st \<Longrightarrow> esuccs rs st = []"
  by (auto simp: halted_def esuccs_def)

section \<open>Stacks reachable over a word\<close>

definition reach :: "program \<Rightarrow> stack set \<Rightarrow> nat list \<Rightarrow> stack set" where
  "reach rs S w = {st'. halted rs st' \<and> (\<exists>st \<in> S. runs rs st w st')}"

lemma reach_empty [simp]: "reach rs {} w = {}"
  by (simp add: reach_def)

lemma run_consE: "run rs n st (c # w) st'' \<Longrightarrow>
    \<exists>st' k. run rs k st [] st' \<and> inst_matches (inst_at rs (last st')) c \<and> (\<exists>m. run rs m (advance st') w st'')"
proof (induction n st "c # w" st'' rule: run.induct)
  case (run_eps st' st n st'')
  then show ?case using run.run_eps by blast
next
  case (run_eat st n st'')
  then show ?case using run.run_refl by blast
qed

lemma runs_Cons:
  "runs rs st (c # w) st'' \<longleftrightarrow> (\<exists>st'. runs rs st [] st' \<and> inst_matches (inst_at rs (last st')) c \<and> runs rs (advance st') w st'')"
proof
  show "runs rs st (c # w) st'' \<Longrightarrow>
    \<exists>st'. runs rs st [] st' \<and> inst_matches (inst_at rs (last st')) c \<and> runs rs (advance st') w st''"
    unfolding runs_def using run_consE by blast
next
  assume "\<exists>st'. runs rs st [] st' \<and> inst_matches (inst_at rs (last st')) c \<and> runs rs (advance st') w st''"
  then obtain st' where 1: "runs rs st [] st'" and 2: "runs rs st' (c # w) st''" using runs_eat by blast
  from runs_trans [OF 1 2] show "runs rs st (c # w) st''" by simp
qed

text \<open>Over a code point: only the halted stacks matter, and only those whose instruction matches.\<close>

definition eaten :: "program \<Rightarrow> stack set \<Rightarrow> nat \<Rightarrow> stack set" where
  "eaten rs S c = advance ` {st \<in> S. inst_matches (inst_at rs (last st)) c}"

lemma reach_Cons: "reach rs S (c # w) = reach rs (eaten rs (reach rs S []) c) w"
  by (auto simp: reach_def runs_Cons eaten_def dest: matches_halted)

lemma runs_Nil_halted: "halted rs st \<Longrightarrow> runs rs st [] st' \<Longrightarrow> st' = st"
  unfolding runs_def by (auto elim: run_NilE)

lemma reach_halted [simp]: "\<forall>st \<in> S. halted rs st \<Longrightarrow> reach rs S [] = S"
  by (auto simp: reach_def dest: runs_Nil_halted)

lemma reach_reach_Nil [simp]: "reach rs (reach rs S []) [] = reach rs S []"
  by (rule reach_halted) (auto simp: reach_def)

lemma reach_append: "reach rs S (u @ v) = reach rs (reach rs S u) v"
proof (induction u arbitrary: S)
  case Nil
  then show ?case by (cases v) (simp_all add: reach_Cons)
next
  case (Cons c u)
  then show ?case by (simp add: reach_Cons)
qed

section \<open>The closure is the reachable halted stacks\<close>

lemma close_loop_nonhalted:
  "st \<notin> set seen \<Longrightarrow> \<not> halted rs st \<Longrightarrow> Suc steps \<le> MAX_CLOSURE_STEPS \<Longrightarrow> length st \<le> MAX_STACK_DEPTH \<Longrightarrow>
   close_loop rs steps seen out (st # work) = close_loop rs (Suc steps) (st # seen) out (esuccs rs st @ work)"
  by (auto simp: halted_def esuccs_def split: Flow.split)

lemma close_loop_halted:
  "st \<notin> set seen \<Longrightarrow> halted rs st \<Longrightarrow> Suc steps \<le> MAX_CLOSURE_STEPS \<Longrightarrow> length st \<le> MAX_STACK_DEPTH \<Longrightarrow>
   close_loop rs steps seen out (st # work) = close_loop rs (Suc steps) (st # seen) (out @ [st]) work"
  by (auto simp: halted_def)

lemma close_loop_cases:
  assumes "close_loop rs steps seen out (st # work) = Ok r"
  obtains (seen) "st \<in> set seen" "close_loop rs (Suc steps) seen out work = Ok r"
  | (halted) "st \<notin> set seen" "halted rs st" "close_loop rs (Suc steps) (st # seen) (out @ [st]) work = Ok r"
  | (moves) "st \<notin> set seen" "\<not> halted rs st" "close_loop rs (Suc steps) (st # seen) out (esuccs rs st @ work) = Ok r"
proof -
  have lim: "Suc steps \<le> MAX_CLOSURE_STEPS" "st \<notin> set seen \<longrightarrow> length st \<le> MAX_STACK_DEPTH"
    using assms by (auto simp del: close_loop.simps(2) simp: close_loop.simps(2) [of rs steps] split: if_splits)
  show ?thesis
  proof (cases "st \<in> set seen")
    case True
    then show ?thesis using assms lim by (intro seen) (auto split: if_splits)
  next
    case False
    then show ?thesis
      using assms lim close_loop_halted [of st seen rs steps out work] close_loop_nonhalted [of st seen rs steps out work]
        halted moves by (cases "halted rs st") simp_all
  qed
qed

declare close_loop.simps(2) [simp del]

lemma close_loop_inv:
  assumes "close_loop rs steps seen out work = Ok r"
    and "\<forall>st \<in> set seen. set (esuccs rs st) \<subseteq> set seen \<union> set work"
    and "set out = {st \<in> set seen. halted rs st}"
  shows "\<exists>V. set seen \<union> set work \<subseteq> V \<and> (\<forall>st \<in> V. set (esuccs rs st) \<subseteq> V) \<and> set r = {st \<in> V. halted rs st} \<and>
             V \<subseteq> {st'. \<exists>st \<in> set seen \<union> set work. runs rs st [] st'}"
  using assms
proof (induction "Suc MAX_CLOSURE_STEPS - steps" arbitrary: steps seen out work rule: less_induct)
  case less
  show ?case
  proof (cases work)
    case Nil
    then show ?thesis using less.prems by (intro exI [of _ "set seen"]) auto
  next
    case (Cons st work')
    have lt: "Suc MAX_CLOSURE_STEPS - Suc steps < Suc MAX_CLOSURE_STEPS - steps"
      using less.prems(1) Cons by (auto simp: close_loop.simps split: if_splits)
    have go: ?thesis
      if c: "close_loop rs (Suc steps) seen2 out2 work2 = Ok r"
        and p: "\<forall>st \<in> set seen2. set (esuccs rs st) \<subseteq> set seen2 \<union> set work2"
        and o: "set out2 = {st \<in> set seen2. halted rs st}"
        and sub: "set seen \<union> set work \<subseteq> set seen2 \<union> set work2"
        and new: "\<forall>s \<in> set seen2 \<union> set work2. \<exists>s0 \<in> set seen \<union> set work. runs rs s0 [] s"
      for seen2 out2 work2
    proof -
      from less.hyps [OF lt c p o] obtain V where V: "set seen2 \<union> set work2 \<subseteq> V" "\<forall>s \<in> V. set (esuccs rs s) \<subseteq> V"
          "set r = {s \<in> V. halted rs s}" "V \<subseteq> {st'. \<exists>s \<in> set seen2 \<union> set work2. runs rs s [] st'}" by blast
      have "\<exists>s \<in> set seen \<union> set work. runs rs s [] st'" if mem: "st' \<in> V" for st'
      proof -
        obtain s where "s \<in> set seen2 \<union> set work2" and r2: "runs rs s [] st'" using V(4) mem by blast
        then obtain s0 where "s0 \<in> set seen \<union> set work" and r1: "runs rs s0 [] s" using new by blast
        then show ?thesis using runs_trans [OF r1 r2] by auto
      qed
      then show ?thesis using V(1-3) sub by (intro exI [of _ V]) blast
    qed
    from less.prems(1) [unfolded Cons] show ?thesis
    proof (cases rule: close_loop_cases)
      case seen
      show ?thesis by (rule go [OF seen(2)]) (use less.prems(2,3) seen(1) Cons in auto)
    next
      case halted
      show ?thesis by (rule go [OF halted(3)]) (use less.prems(2,3) halted(2) Cons in auto)
    next
      case moves
      have e: "\<forall>s \<in> set (esuccs rs st). runs rs st [] s" using runs_eps by blast
      show ?thesis by (rule go [OF moves(3)]) (use less.prems(2,3) moves(2) Cons e in auto)
    qed
  qed
qed

lemma closed_runs:
  assumes "\<forall>st \<in> V. set (esuccs rs st) \<subseteq> V" "runs rs st [] st'" "st \<in> V"
  shows "st' \<in> V"
proof -
  have "run rs n st w st' \<Longrightarrow> w = [] \<Longrightarrow> st \<in> V \<Longrightarrow> st' \<in> V" for n w
    by (induction rule: run.induct) (use assms(1) in auto)
  then show ?thesis using assms(2,3) unfolding runs_def by blast
qed

lemma close_set:
  assumes "close rs input = Ok out"
  shows "set out = reach rs (set input) []"
proof -
  obtain r where r: "close_loop rs 0 [] [] (rev input) = Ok r" "out = remdups_adj (sort r)"
    using assms by (auto simp: close_def and_then_eq_Inr Let_def split: if_splits)
  obtain V where V: "set input \<subseteq> V" "\<forall>st \<in> V. set (esuccs rs st) \<subseteq> V" "set r = {st \<in> V. halted rs st}"
      "V \<subseteq> {st'. \<exists>st \<in> set input. runs rs st [] st'}"
    using close_loop_inv [OF r(1)] by auto
  have "V = {st'. \<exists>st \<in> set input. runs rs st [] st'}"
    using V(4) closed_runs [OF V(2)] V(1) by blast
  then show ?thesis using V(3) r(2) by (auto simp: reach_def)
qed

lemma sorted_distinct_adj: "sorted xs \<Longrightarrow> distinct_adj xs \<Longrightarrow> sorted_wrt (<) (xs :: 'a::linorder list)"
proof (induction xs rule: induct_list012)
  case (3 x y zs)
  then have "x < y" "\<forall>z \<in> set zs. y \<le> z" by (auto simp: distinct_adj_Cons)
  then show ?case using 3 by (auto simp: distinct_adj_Cons)
qed auto

lemma close_sorted: "close rs input = Ok out \<Longrightarrow> sorted_wrt (<) out \<and> length out \<le> MAX_STACKS"
  by (auto simp: close_def and_then_eq_Inr Let_def sorted_distinct_adj split: if_splits)

section \<open>A step reads one code point\<close>

lemma vm_step_set:
  assumes "vm_step rs stacks c = Ok out" "\<forall>st \<in> set stacks. halted rs st"
  shows "set out = reach rs (set stacks) [c]"
proof -
  let ?next = "map advance (filter (\<lambda>st. inst_matches (inst_at rs (last st)) c) stacks)"
  have "close rs ?next = Ok out" using assms(1) by (simp add: vm_step_def Let_def split: if_splits)
  then have "set out = reach rs (set ?next) []" by (rule close_set)
  also have "set ?next = eaten rs (set stacks) c" by (auto simp: eaten_def)
  finally show ?thesis using assms(2) by (simp add: reach_Cons)
qed

lemma vm_step_dead:
  assumes "vm_step rs stacks c = Err (NoLiveStack c')" "\<forall>st \<in> set stacks. halted rs st"
  shows "reach rs (set stacks) (c # w) = {}"
proof -
  have "close_loop rs k seen out work \<noteq> Err (NoLiveStack c')" for k seen out work
  proof (induction rs k seen out work rule: close_loop.induct)
    case (2 rs steps seen out st work)
    then show ?case by (auto simp: close_loop.simps(2) [of rs steps] split: Flow.splits)
  qed simp
  then have "close rs input \<noteq> Err (NoLiveStack c')" for input
    by (auto simp: close_def and_then_def Let_def split: sum.splits)
  then have "filter (\<lambda>st. inst_matches (inst_at rs (last st)) c) stacks = []"
    using assms(1) by (auto simp: vm_step_def Let_def split: if_splits)
  then have "eaten rs (set stacks) c = {}" by (auto simp: eaten_def filter_empty_conv)
  then show ?thesis using assms(2) by (simp add: reach_Cons)
qed

definition limit_error :: "grammar_error \<Rightarrow> bool" where
  "limit_error e \<longleftrightarrow> e = ClosureSteps \<or> e = StackDepth \<or> (\<exists>n. e = TooManyStacks n)"

lemma vm_step_error:
  assumes "vm_step rs stacks c = Err e"
  shows "limit_error e \<or> e = NoLiveStack c"
proof -
  have "close_loop rs k seen out work = Err e \<Longrightarrow> limit_error e" for k seen out work
  proof (induction rs k seen out work rule: close_loop.induct)
    case (2 rs steps seen out st work)
    then show ?case by (auto simp: close_loop.simps(2) [of rs steps] limit_error_def split: Flow.splits if_splits)
  qed simp
  then have "close rs input = Err e \<Longrightarrow> limit_error e" for input
    by (auto simp: close_def and_then_def Let_def limit_error_def split: sum.splits if_splits)
  then show ?thesis using assms by (auto simp: vm_step_def Let_def split: if_splits)
qed

lemma vm_step_halted:
  "vm_step rs stacks c = Ok out \<Longrightarrow> \<forall>st \<in> set out. halted rs st"
  using close_set by (auto simp: vm_step_def Let_def reach_def split: if_splits)

end
