(* ===== verification/Grammar_Text.thy ===== *)
theory Grammar_Text
  imports Grammar_Run
begin

text \<open>
  The engine on bytes: a state stands for a byte history, the characters it completed and the bytes
  of an unfinished one; consumption keeps that, and refuses a byte string, but for the three limits,
  only if no word the automaton can read begins with it.
\<close>

abbreviation scalars :: "nat list \<Rightarrow> bool" where
  "scalars w \<equiv> \<forall>c \<in> set w. scalar c"

section \<open>Unique decoding\<close>

lemma utf8_of_simps [simp]:
  "utf8_of [] = []" "utf8_of (c # w) = encode_utf8 c @ utf8_of w" "utf8_of (u @ v) = utf8_of u @ utf8_of v"
  by (simp_all add: utf8_of_def)

lemma encode_utf8_ne [simp]: "encode_utf8 c \<noteq> []"
  using units_nonempty(2) [of c] by (metis length_encode_utf8 length_greater_0_conv)

lemma encode_inj: "scalar c \<Longrightarrow> scalar d \<Longrightarrow> encode_utf8 c @ r = encode_utf8 d @ s \<Longrightarrow> c = d \<and> r = s"
  by (metis append_eq_append_conv utf8_head_encode(2))

text \<open>Bytes that begin the encoding of a word begin with its first character, or inside it.\<close>

lemma prefix_utf8_cases:
  assumes "prefix p (utf8_of w)" "p \<noteq> []" "scalars w"
  obtains (whole) c v q where "w = c # v" "scalar c" "p = encode_utf8 c @ q" "prefix q (utf8_of v)"
  | (part) c v where "w = c # v" "completes p c"
proof -
  from assms obtain c v where w: "w = c # v" by (cases w) auto
  then have c: "scalar c" using assms(3) by simp
  have "prefix p (encode_utf8 c @ utf8_of v)" using assms(1) w by simp
  then consider "strict_prefix p (encode_utf8 c)" | q where "p = encode_utf8 c @ q" "prefix q (utf8_of v)"
    unfolding prefix_append strict_prefix_def by force
  then show ?thesis
  proof cases
    case 1
    then show ?thesis using part [OF w] c by (simp add: completes_def)
  next
    case (2 q)
    then show ?thesis using whole [OF w c] by blast
  qed
qed

lemma utf8_of_prefix:
  "scalars u \<Longrightarrow> scalars w \<Longrightarrow> prefix (utf8_of u @ p) (utf8_of w) \<Longrightarrow> \<exists>v. w = u @ v \<and> prefix p (utf8_of v)"
proof (induction u arbitrary: w)
  case (Cons c u)
  have ne: "utf8_of (c # u) @ p \<noteq> []" by simp
  from Cons.prems(3) ne Cons.prems(2) show ?case
  proof (cases rule: prefix_utf8_cases)
    case (whole d v q)
    have "encode_utf8 c @ utf8_of u @ p = encode_utf8 d @ q" using whole(3) by simp
    then have e: "c = d" "q = utf8_of u @ p" 
      using encode_inj [of c d "utf8_of u @ p" q] whole(2) Cons.prems(1) by (simp_all del: append_assoc)
    have "scalars u" "scalars v" using Cons.prems(1,2) whole(1) by simp_all
    then obtain v' where "v = u @ v'" "prefix p (utf8_of v')" using Cons.IH [of v] whole(4) e(2) by blast
    then show ?thesis using whole(1) e by auto
  next
    case (part d v)
    have d: "scalar d" "strict_prefix (encode_utf8 c @ (utf8_of u @ p)) (encode_utf8 d)"
      using part(2) by (simp_all add: completes_def)
    then obtain r where r: "encode_utf8 d = (encode_utf8 c @ (utf8_of u @ p)) @ r" "r \<noteq> []"
      unfolding strict_prefix_def prefix_def by (metis append_Nil2)
    have "encode_utf8 c @ ((utf8_of u @ p) @ r) = encode_utf8 d @ []" using r(1) by simp
    then have "(utf8_of u @ p) @ r = []" using encode_inj [of c d "(utf8_of u @ p) @ r" "[]"] Cons.prems(1) d(1) by simp
    then show ?thesis using r(2) by simp
  qed
qed auto

lemma decode_prefix:
  assumes "prefix (drop i buf) (utf8_of w)" "i < length buf" "scalars w"
  obtains (whole) c v where "w = c # v" "scalar c" "decode_at buf i = CpStep c (length (encode_utf8 c))"
      "prefix (drop (i + length (encode_utf8 c)) buf) (utf8_of v)"
  | (part) c v where "w = c # v" "completes (drop i buf) c" "decode_at buf i = Incomplete"
proof -
  have ne: "drop i buf \<noteq> []" using assms(2) by simp
  from assms(1) ne assms(3) show ?thesis
  proof (cases rule: prefix_utf8_cases)
    case c: (whole c v q)
    have "q = drop (i + length (encode_utf8 c)) buf"
      using arg_cong [OF c(3), of "drop (length (encode_utf8 c))"] by (simp add: add.commute)
    then show ?thesis using whole [OF c(1,2) decode_at_encode [OF c(2,3)]] c(4) by simp
  next
    case c: (part c v)
    then show ?thesis using part [OF c] completes_cut [OF c(2) ne] assms(2) by (simp add: decode_at_head Let_def)
  qed
qed

section \<open>Ranges and classes\<close>

lemma covers_from_sound: "covers_from nxt hi rs \<Longrightarrow> nxt \<le> c \<Longrightarrow> c \<le> hi \<Longrightarrow> in_ranges rs c"
proof (induction nxt hi rs rule: covers_from.induct)
  case (2 nxt hi a b ranges)
  then show ?case by (cases "c \<le> b") (auto simp: in_ranges_def split: if_splits)
qed simp

lemma covers_from_complete:
  "sorted (map fst rs) \<Longrightarrow> nxt \<le> hi \<Longrightarrow> \<forall>c. nxt \<le> c \<and> c \<le> hi \<longrightarrow> in_ranges rs c \<Longrightarrow> covers_from nxt hi rs"
proof (induction nxt hi rs rule: covers_from.induct)
  case (1 nxt hi)
  then show ?case by (auto simp: in_ranges_def)
next
  case (2 nxt hi a b ranges)
  have "in_ranges ((a, b) # ranges) nxt" using "2.prems" by simp
  then have "a \<le> nxt" using "2.prems"(1) by (auto simp: in_ranges_def)
  moreover have "covers_from nxt hi ranges" if "b < nxt"
    by (rule "2.IH"(1)) (use that "2.prems" in \<open>auto simp: in_ranges_def\<close>)
  moreover have "covers_from (b + 1) hi ranges" if "\<not> b < nxt" "b < hi"
  proof (rule "2.IH"(2))
    show "\<forall>c. b + 1 \<le> c \<and> c \<le> hi \<longrightarrow> in_ranges ranges c"
    proof (intro allI impI)
      fix c assume c: "b + 1 \<le> c \<and> c \<le> hi"
      then have "in_ranges ((a, b) # ranges) c" using "2.prems"(3) that by simp
      then show "in_ranges ranges c" using c by (auto simp: in_ranges_def)
    qed
  qed (use that \<open>a \<le> nxt\<close> "2.prems" in auto)
  ultimately show ?case by auto
qed

text \<open>What the parser guarantees of the classes of a program.\<close>

fun inst_ok :: "Inst \<Rightarrow> bool" where
  "inst_ok (IClass negated ranges) \<longleftrightarrow> sorted (map fst ranges) \<and> (\<forall>(a, b) \<in> set ranges. a \<le> b \<and> b < 2 ^ 32)"
| "inst_ok (ICp c) \<longleftrightarrow> c < 2 ^ 32"
| "inst_ok _ = True"

lemma inst_accepts_range_sound:
  "inst_matches i c \<Longrightarrow> lo \<le> c \<Longrightarrow> c \<le> hi \<Longrightarrow> inst_accepts_range i lo hi"
proof (cases i)
  case (IClass negated ranges)
  moreover assume "inst_matches i c" "lo \<le> c" "c \<le> hi"
  moreover have "\<exists>(a, b) \<in> set ranges. a \<le> hi \<and> b \<ge> lo" if "in_ranges ranges c"
    
    using that \<open>lo \<le> c\<close> \<open>c \<le> hi\<close> unfolding in_ranges_def case_prod_beta by (meson order_trans)
  ultimately show ?thesis using covers_from_sound [of lo hi ranges c]
    by (auto simp: inst_matches_def inst_accepts_range_def covers_def)
qed (auto simp: inst_matches_def inst_accepts_range_def)

lemma inst_accepts_range_complete:
  assumes "inst_accepts_range i lo hi" "inst_ok i" "lo \<le> hi"
  shows "\<exists>c. lo \<le> c \<and> c \<le> hi \<and> inst_matches i c"
proof (cases i)
  case (IClass negated ranges)
  show ?thesis
  proof (cases negated)
    case True
    then show ?thesis using IClass assms covers_from_complete [of ranges lo hi]
      by (auto simp: inst_matches_def inst_accepts_range_def covers_def)
  next
    case False
    then obtain a b where ab: "(a, b) \<in> set ranges" "a \<le> hi" "lo \<le> b" using assms(1) IClass by (auto simp: inst_accepts_range_def)
    then have "a \<le> b" using assms(2) IClass by auto
    then have "in_ranges ranges (max a lo)"
      using ab unfolding in_ranges_def by (intro bexI [of _ "(a, b)"]) auto
    then show ?thesis using IClass False ab assms(3)
      by (intro exI [of _ "max a lo"]) (auto simp: inst_matches_def)
  qed
qed (use assms in \<open>auto simp: inst_matches_def inst_accepts_range_def\<close>)

lemma non_surrogate_parts_iff:
  "(\<exists>(a, b) \<in> set (non_surrogate_parts lo hi). a \<le> c \<and> c \<le> b) \<longleftrightarrow> lo \<le> c \<and> c \<le> hi \<and> \<not> surrogate c"
  by (auto simp: non_surrogate_parts_def surrogate_def)

lemma scalar_not_surrogate: "scalar c \<Longrightarrow> \<not> surrogate c"
  by (auto simp: scalar_def surrogate_def)

lemma completion_range_le: "completion_range p = Some (lo, hi) \<Longrightarrow> lo \<le> hi"
proof -
  assume a: "completion_range p = Some (lo, hi)"
  then show ?thesis
  proof (cases rule: shapesE)
    case (21 x) then show ?thesis using completion_range_shapes(1) [OF 21(1), of x] a by simp
  next
    case (31 x) then show ?thesis using completion_range_shapes(2) [OF 31(1), of x] a by (simp split: if_splits)
  next
    case (32 x y) then show ?thesis using completion_range_shapes(3) [OF 32(1), of x y] a by simp
  next
    case (41 x) then show ?thesis using completion_range_shapes(4) [OF 41(1), of x] a by (simp split: if_splits)
  next
    case (42 x y) then show ?thesis using completion_range_shapes(5) [OF 42(1), of x y] a by simp
  next
    case (43 x y z) then show ?thesis using completion_range_shapes(6) [OF 43(1), of x y z] a by simp
  qed
qed

text \<open>The test for a partial character is exact on classes in order.\<close>

lemma partial_can_complete_if:
  assumes "completes p c" "p \<noteq> []" "st \<in> set stacks" "inst_matches (inst_at rs (last st)) c"
  shows "partial_can_complete rs stacks p"
proof -
  obtain lo hi where r: "completion_range p = Some (lo, hi)" "lo \<le> c" "c \<le> hi"
    using completes_in_range [OF assms(1,2)] by blast
  have "\<not> surrogate c" using assms(1) by (simp add: completes_def scalar_not_surrogate)
  then obtain a b where "(a, b) \<in> set (non_surrogate_parts lo hi)" "a \<le> c" "c \<le> b"
    using non_surrogate_parts_iff [of lo hi c] r by auto
  then show ?thesis using assms(3,4) r
    by (auto simp: partial_can_complete_def any_stack_accepts_range_def any_stack_accepts_plain_range_def
        intro!: bexI [of _ "(a, b)"] bexI [of _ st] inst_accepts_range_sound)
qed

lemma partial_can_completeD:
  assumes "partial_can_complete rs stacks p" "\<forall>st \<in> set stacks. inst_ok (inst_at rs (last st))"
  shows "\<exists>c. completes p c \<and> (\<exists>st \<in> set stacks. inst_matches (inst_at rs (last st)) c)"
proof -
  obtain lo hi where r: "completion_range p = Some (lo, hi)" "any_stack_accepts_range rs stacks lo hi"
    using assms(1) by (auto simp: partial_can_complete_def split: option.splits)
  then obtain a b st where ab: "(a, b) \<in> set (non_surrogate_parts lo hi)" "st \<in> set stacks"
      "inst_accepts_range (inst_at rs (last st)) a b"
    by (auto simp: any_stack_accepts_range_def any_stack_accepts_plain_range_def)
  have "lo \<le> hi" using r(1) completion_range_le by blast
  then have "a \<le> b" using ab(1) by (auto simp: non_surrogate_parts_def split: if_splits)
  then obtain c where c: "a \<le> c" "c \<le> b" "inst_matches (inst_at rs (last st)) c"
    using inst_accepts_range_complete [OF ab(3)] assms(2) ab(2) by blast
  then have "lo \<le> c \<and> c \<le> hi" using non_surrogate_parts_iff [of lo hi c] ab(1) by blast
  then show ?thesis using range_completes [OF r(1)] c ab(2) by blast
qed

section \<open>Consumption\<close>

lemma consume_loop_ok:
  assumes "consume_loop rs k buf i stacks = Ok (stacks', j)" "i \<le> length buf" "\<forall>st \<in> set stacks. halted rs st"
  shows "\<exists>w. scalars w \<and> drop i buf = utf8_of w @ drop j buf \<and> j \<le> length buf \<and>
             set stacks' = reach rs (set stacks) w \<and>
             (drop j buf \<noteq> [] \<longrightarrow> decode_at buf j = Incomplete \<and> partial_can_complete rs stacks' (drop j buf))"
  using assms
proof (induction rs k buf i stacks rule: consume_loop.induct)
  case (1 rs k buf i stacks)
  show ?case
  proof (cases "i < length buf")
    case False
    then have "stacks' = stacks" "j = i" using "1.prems"(1) by (simp_all add: consume_loop.simps [of rs k buf i])
    then show ?thesis using "1.prems"(2,3) False by (intro exI [of _ "[]"]) simp
  next
    case i: True
    show ?thesis
    proof (cases "decode_at buf i")
      case (CpStep c n)
      note d = decode_at_CpD [OF CpStep i]
      obtain s where s: "vm_step rs stacks c = Ok s" "consume_loop rs k buf (i + n) s = Ok (stacks', j)" "\<not> surrogate c"
        using "1.prems"(1) CpStep i by (auto simp: consume_loop.simps [of rs k buf i] split: if_splits sum.splits)
      note h = vm_step_halted [OF s(1)]
      obtain w where w: "scalars w" "drop (i + n) buf = utf8_of w @ drop j buf" "j \<le> length buf"
          "set stacks' = reach rs (set s) w"
          "drop j buf \<noteq> [] \<longrightarrow> decode_at buf j = Incomplete \<and> partial_can_complete rs stacks' (drop j buf)"
        using "1.IH" [OF i CpStep s(3,1,2) d(5) h] by blast
      have "set stacks' = reach rs (set stacks) (c # w)"
        using reach_append [of rs "set stacks" "[c]" w] vm_step_set [OF s(1) "1.prems"(3)] w(4) by simp
      then show ?thesis using w d by (intro exI [of _ "c # w"]) auto
    next
      case Incomplete
      then show ?thesis using "1.prems" i
        by (intro exI [of _ "[]"]) (auto simp: consume_loop.simps [of rs k buf i] split: if_splits)
    next
      case Invalid
      then show ?thesis using "1.prems"(1) i by (simp add: consume_loop.simps [of rs k buf i])
    qed
  qed
qed

lemma consume_loop_err:
  assumes "consume_loop rs k buf i stacks = Err (n, e)" "\<not> limit_error e" "i \<le> length buf"
    and "\<forall>st \<in> set stacks. halted rs st" "prefix (drop i buf) (utf8_of w)" "scalars w"
  shows "reach rs (set stacks) w = {}"
  using assms
proof (induction rs k buf i stacks arbitrary: w rule: consume_loop.induct)
  case (1 rs k buf i stacks)
  note l = consume_loop.simps [of rs k buf i stacks]
  have i: "i < length buf" using "1.prems"(1) l by (auto split: if_splits)
  from "1.prems"(5) i "1.prems"(6) show ?case
  proof (cases rule: decode_prefix)
    case (whole c v)
    have ns: "\<not> surrogate c" using whole(2) scalar_not_surrogate by blast
    have v: "scalars v" using whole(1) "1.prems"(6) by simp
    show ?thesis
    proof (cases "vm_step rs stacks c")
      case (Inl e')
      then have "e' = e" using "1.prems"(1) i whole(3) ns l by simp
      then have "vm_step rs stacks c = Err (NoLiveStack c)" using vm_step_error [OF Inl] "1.prems"(2) Inl by simp
      then show ?thesis unfolding whole(1) using vm_step_dead "1.prems"(4) by blast
    next
      case (Inr s)
      have rest: "consume_loop rs k buf (i + length (encode_utf8 c)) s = Err (n, e)"
        using "1.prems"(1) i whole(3) ns Inr l by simp
      have "reach rs (set s) v = {}"
        using "1.IH" [OF i whole(3) ns Inr rest "1.prems"(2) decode_at_CpD(5) [OF whole(3) i] vm_step_halted [OF Inr] whole(4) v] .
      then show ?thesis
        using reach_append [of rs "set stacks" "[c]" v] vm_step_set [OF Inr "1.prems"(4)] whole(1) by simp
    qed
  next
    case (part c v)
    then have np: "\<not> partial_can_complete rs stacks (drop i buf)" using "1.prems"(1) i l by (auto split: if_splits)
    have ne: "drop i buf \<noteq> []" using i by simp
    have "eaten rs (set stacks) c = {}"
      using partial_can_complete_if [OF part(2) ne] np unfolding eaten_def by blast
    then show ?thesis using part(1) "1.prems"(4) by (simp add: reach_Cons)
  qed
qed

text \<open>A state of a run that started at rule \<open>root\<close> and has read the bytes \<open>h\<close>.\<close>

definition stands_for :: "program \<Rightarrow> nat \<Rightarrow> byte list \<Rightarrow> StateKey \<Rightarrow> bool" where
  "stands_for rs root h key \<longleftrightarrow>
     (\<exists>w. scalars w \<and> h = utf8_of w @ sk_partial key \<and> set (sk_stacks key) = reach rs {[(root, 0)]} w) \<and>
     (sk_partial key \<noteq> [] \<longrightarrow>
        decode_at (sk_partial key) 0 = Incomplete \<and> partial_can_complete rs (sk_stacks key) (sk_partial key))"

lemma reach_all_halted: "st \<in> reach rs S w \<Longrightarrow> halted rs st"
  by (simp add: reach_def)

lemma stands_for_halted: "stands_for rs root h key \<Longrightarrow> \<forall>st \<in> set (sk_stacks key). halted rs st"
  by (auto simp: stands_for_def reach_all_halted)

lemma stands_for_initial:
  "close rs [[(root, 0)]] = Ok stacks \<Longrightarrow> stands_for rs root [] \<lparr>sk_stacks = stacks, sk_partial = [], sk_done = d\<rparr>"
  using close_set [of rs "[[(root, 0)]]" stacks] by (auto simp: stands_for_def intro!: exI [of _ "[]"])

lemma consume_stands_for:
  assumes "stands_for rs root h key" "consume rs key bytes = Ok key'"
  shows "stands_for rs root (h @ bytes) key'"
proof -
  define p where "p = sk_partial key"
  define buf where "buf = p @ bytes"
  obtain u where u: "scalars u" "h = utf8_of u @ p" "set (sk_stacks key) = reach rs {[(root, 0)]} u"
    using assms(1) by (auto simp: stands_for_def p_def)
  obtain stacks j where c: "consume_loop rs (length p) buf 0 (sk_stacks key) = Ok (stacks, j)"
      and key': "key' = \<lparr>sk_stacks = stacks, sk_partial = drop j buf, sk_done = sk_done key\<rparr>"
    using assms(2) by (auto simp: consume_def and_then_eq_Inr p_def buf_def)
  obtain w where w: "scalars w" "drop 0 buf = utf8_of w @ drop j buf" "set stacks = reach rs (set (sk_stacks key)) w"
      "drop j buf \<noteq> [] \<longrightarrow> decode_at buf j = Incomplete \<and> partial_can_complete rs stacks (drop j buf)"
    using consume_loop_ok [OF c _ stands_for_halted [OF assms(1)]] by blast
  have "h @ bytes = utf8_of u @ drop 0 buf" using u(2) by (simp add: buf_def)
  then have "h @ bytes = utf8_of (u @ w) @ drop j buf" unfolding w(2) by simp
  moreover have "set stacks = reach rs {[(root, 0)]} (u @ w)" using u(3) w(3) by (simp add: reach_append)
  moreover have "scalars (u @ w)" using u(1) w(1) by auto
  moreover have "decode_at (drop j buf) 0 = decode_at buf j" by (simp add: decode_at_def)
  ultimately show ?thesis using w(4) unfolding key' stands_for_def StateKey.select_convs
    by (intro conjI exI [of _ "u @ w"] impI) metis+
qed

lemma consume_refused:
  assumes "stands_for rs root h key" "consume rs key bytes = Err (n, e)" "\<not> limit_error e"
    and "scalars w" "prefix (h @ bytes) (utf8_of w)"
  shows "reach rs {[(root, 0)]} w = {}"
proof -
  let ?p = "sk_partial key"
  obtain u where u: "scalars u" "h = utf8_of u @ ?p" "set (sk_stacks key) = reach rs {[(root, 0)]} u"
    using assms(1) by (auto simp: stands_for_def)
  obtain v where v: "w = u @ v" "prefix (?p @ bytes) (utf8_of v)"
    using utf8_of_prefix [of u w "?p @ bytes"] assms(4,5) u by auto
  have "consume_loop rs (length ?p) (?p @ bytes) 0 (sk_stacks key) = Err (n, e)"
    using assms(2) by (auto simp: consume_def and_then_def Let_def split: sum.splits)
  then have "reach rs (set (sk_stacks key)) v = {}"
    using consume_loop_err [OF _ assms(3) _ stands_for_halted [OF assms(1)]] v assms(4) by auto
  then show ?thesis using v(1) u(3) by (simp add: reach_append)
qed

text \<open>The words a rule of the program accepts, and what an accepting state says.\<close>

definition word_accepted :: "program \<Rightarrow> nat \<Rightarrow> nat list \<Rightarrow> bool" where
  "word_accepted rs root w \<longleftrightarrow> (\<exists>pc. runs rs [(root, 0)] w [(root, pc)] \<and> inst_at rs (root, pc) = Ret)"

lemma set_pc_bottom: "st \<noteq> [] \<Longrightarrow> set_pc st a \<noteq> [] \<and> fst (hd (set_pc st a)) = fst (hd st)"
  by (cases st) (auto simp: set_pc_def)

lemma esuccs_bottom:
  assumes "st' \<in> set (esuccs rs st)" "st \<noteq> []"
  shows "st' \<noteq> [] \<and> fst (hd st') = fst (hd st)"
proof -
  have "butlast st \<noteq> [] \<and> hd (butlast st) = hd st" if "length st \<noteq> 1"
    using that assms(2) by (cases st) auto
  then show ?thesis using assms set_pc_bottom [OF assms(2)]
    by (auto simp: esuccs_def hd_append split: Flow.splits if_splits)
qed

lemma run_bottom: "run rs n st w st' \<Longrightarrow> st \<noteq> [] \<Longrightarrow> st' \<noteq> [] \<and> fst (hd st') = fst (hd st)"
proof (induction rule: run.induct)
  case (run_eps st' st n w st'')
  then show ?case using esuccs_bottom [OF run_eps(1)] by simp
next
  case (run_eat st c n w st'')
  then show ?case using set_pc_bottom [of st] by (simp add: advance_def)
qed simp

lemma word_accepted_reach:
  "word_accepted rs root w \<longleftrightarrow> (\<exists>s \<in> reach rs {[(root, 0)]} w. length s = 1 \<and> inst_at rs (s ! 0) = Ret)"
proof
  assume "word_accepted rs root w"
  then obtain pc where "runs rs [(root, 0)] w [(root, pc)]" "inst_at rs (root, pc) = Ret" by (auto simp: word_accepted_def)
  then show "\<exists>s \<in> reach rs {[(root, 0)]} w. length s = 1 \<and> inst_at rs (s ! 0) = Ret"
    by (intro bexI [of _ "[(root, pc)]"]) (auto simp: reach_def halted_def flow_def)
next
  assume "\<exists>s \<in> reach rs {[(root, 0)]} w. length s = 1 \<and> inst_at rs (s ! 0) = Ret"
  then obtain s where s: "runs rs [(root, 0)] w s" "length s = 1" "inst_at rs (s ! 0) = Ret" by (auto simp: reach_def)
  then obtain r pc where rp: "s = [(r, pc)]" by (metis length_1_2_3(1) surj_pair)
  then have "r = root" using s(1) run_bottom unfolding runs_def by fastforce
  then show "word_accepted rs root w" using s rp by (auto simp: word_accepted_def)
qed

lemma accepting_word:
  assumes "stands_for rs root h key" "\<not> sk_done key"
  shows "state_key_accepting rs key \<longleftrightarrow> (\<exists>w. scalars w \<and> h = utf8_of w \<and> word_accepted rs root w)"
proof
  assume "state_key_accepting rs key"
  then show "\<exists>w. scalars w \<and> h = utf8_of w \<and> word_accepted rs root w"
    using assms(1) by (auto simp: state_key_accepting_def stands_for_def word_accepted_reach)
next
  assume "\<exists>w. scalars w \<and> h = utf8_of w \<and> word_accepted rs root w"
  then obtain w where w: "scalars w" "h = utf8_of w" "word_accepted rs root w" by blast
  obtain u where u: "scalars u" "h = utf8_of u @ sk_partial key" "set (sk_stacks key) = reach rs {[(root, 0)]} u"
    using assms(1) by (auto simp: stands_for_def)
  have "prefix (utf8_of u @ sk_partial key) (utf8_of w)" using w(2) u(2) by simp
  then obtain v where v: "w = u @ v" using utf8_of_prefix [OF u(1) w(1)] by blast
  have p: "sk_partial key = utf8_of v" using u(2) w(2) v by simp
  have "sk_partial key = []"
  proof (rule ccontr)
    assume ne: "sk_partial key \<noteq> []"
    then obtain c v' where "v = c # v'" using p by (cases v) auto
    then have "decode_at (sk_partial key) 0 = CpStep c (length (encode_utf8 c))"
      using p w(1) v by (intro decode_at_encode) auto
    then show False using assms(1) ne by (simp add: stands_for_def)
  qed
  moreover from this have "v = []" using p by (cases v) auto
  ultimately show "state_key_accepting rs key"
    using w(3) v u(3) assms(2) by (simp add: state_key_accepting_def word_accepted_reach)
qed

end
