(* ===== verification/Gbnf_Emit.thy ===== *)
theory Gbnf_Emit
  imports Grammar_Text
begin

text \<open>
  The compiler of the grammar engine (\<open>src/grammar.rs\<close>): the syntax tree of a rule body, the check
  of its references, and \<open>emit_node\<close>, which appends the instructions of a body to a program and
  patches the forward jumps. Texts, among them the names of rules, are lists of code points.
\<close>

type_synonym ustr = "nat list"

section \<open>Syntax trees\<close>

datatype Node =
    NStr "nat list" | NClass bool "(nat \<times> nat) list" | NAny | NSeq "Node list" | NAlt "Node list"
  | NRep Node nat "nat option" | NRef ustr

text \<open>Why a grammar text is refused; the byte offsets and excerpts of the messages are left out.\<close>

datatype gbnf_error =
    ExpectedRuleName | ExpectedText ustr | DuplicateRule ustr | NoRules | NoRoot
  | UndefinedRule ustr ustr | UndefinedInternal ustr
  | RepetitionNotClosed | RepetitionReversed nat nat | RepetitionTooLarge nat
  | ExpectedNumber | NumberTooLarge ustr
  | MissingParen | UnterminatedString | ExpectedAtom
  | UnterminatedEscape | UnsupportedEscape nat | ExpectedHex nat
  | ShorthandEndpoint | UnterminatedClass | EmptyClass | ReversedRange nat nat
  | RuleClosure ustr grammar_error | GbnfPanic | OutOfFuel

fun check_refs :: "Node \<Rightarrow> (ustr \<times> Node) list \<Rightarrow> ustr \<Rightarrow> (gbnf_error, unit) res"
and check_refs_all :: "Node list \<Rightarrow> (ustr \<times> Node) list \<Rightarrow> ustr \<Rightarrow> (gbnf_error, unit) res" where
  "check_refs (NRef name) rules owner =
     (if \<not> (\<exists>(n, _) \<in> set rules. n = name) then Err (UndefinedRule owner name) else Ok ())"
| "check_refs (NSeq items) rules owner = check_refs_all items rules owner"
| "check_refs (NAlt items) rules owner = check_refs_all items rules owner"
| "check_refs (NRep inner m n) rules owner = check_refs inner rules owner"
| "check_refs (NStr cps) rules owner = Ok ()"
| "check_refs (NClass negated ranges) rules owner = Ok ()"
| "check_refs NAny rules owner = Ok ()"
| "check_refs_all [] rules owner = Ok ()"
| "check_refs_all (it # items) rules owner =
     and_then (check_refs it rules owner) (\<lambda>_. check_refs_all items rules owner)"

section \<open>Emission\<close>

text \<open>A loop that runs a fallible body a given number of times.\<close>

primrec times_res :: "nat \<Rightarrow> ('a \<Rightarrow> ('e, 'a) res) \<Rightarrow> 'a \<Rightarrow> ('e, 'a) res" where
  "times_res 0 f x = Ok x"
| "times_res (Suc k) f x = and_then (f x) (times_res k f)"

definition patch_jumps :: "nat list \<Rightarrow> nat \<Rightarrow> Inst list \<Rightarrow> Inst list" where
  "patch_jumps jumps target prog = fold (\<lambda>j p. p[j := Jump target]) jumps prog"

function emit_node :: "(ustr \<Rightarrow> nat option) \<Rightarrow> Node \<Rightarrow> Inst list \<Rightarrow> (gbnf_error, Inst list) res"
and emit_seq :: "(ustr \<Rightarrow> nat option) \<Rightarrow> Node list \<Rightarrow> Inst list \<Rightarrow> (gbnf_error, Inst list) res"
and emit_alt :: "(ustr \<Rightarrow> nat option) \<Rightarrow> Node list \<Rightarrow> Inst list \<Rightarrow> nat list \<Rightarrow> (gbnf_error, Inst list \<times> nat list) res" where
  "emit_node ids (NStr cps) prog = Ok (prog @ map ICp cps)"
| "emit_node ids (NClass negated ranges) prog = Ok (prog @ [IClass negated ranges])"
| "emit_node ids NAny prog = Ok (prog @ [IAny])"
| "emit_node ids (NRef name) prog =
     (case ids name of None \<Rightarrow> Err (UndefinedInternal name) | Some rid \<Rightarrow> Ok (prog @ [Call rid]))"
| "emit_node ids (NSeq items) prog = emit_seq ids items prog"
| "emit_node ids (NAlt branches) prog =
     and_then (emit_alt ids branches prog []) (\<lambda>(prog', jumps). Ok (patch_jumps jumps (length prog') prog'))"
| "emit_node ids (NRep inner m n) prog =
     and_then (times_res m (\<lambda>p. emit_node ids inner p) prog) (\<lambda>prog1.
       case n of
         None \<Rightarrow>
           (let split = length prog1; body = split + 1 in
            and_then (emit_node ids inner (prog1 @ [Split body 0])) (\<lambda>prog2.
              let prog3 = prog2 @ [Jump split] in
              Ok (prog3[split := Split body (length prog3)])))
       | Some most \<Rightarrow>
           times_res (most - m) (\<lambda>p.
             let split = length p; body = split + 1 in
             and_then (emit_node ids inner (p @ [Split body 0])) (\<lambda>p2.
               Ok (p2[split := Split body (length p2)]))) prog1)"
| "emit_seq ids [] prog = Ok prog"
| "emit_seq ids (it # items) prog = and_then (emit_node ids it prog) (emit_seq ids items)"
| "emit_alt ids [] prog jumps = Ok (prog, jumps)"
| "emit_alt ids (branch # branches) prog jumps =
     (if branches \<noteq> [] then
        (let split = length prog; start = split + 1 in
         and_then (emit_node ids branch (prog @ [Split start 0])) (\<lambda>prog2.
           let j = length prog2; prog3 = prog2 @ [Jump 0] in
           emit_alt ids branches (prog3[split := Split start (length prog3)]) (jumps @ [j])))
      else and_then (emit_node ids branch prog) (\<lambda>prog2. emit_alt ids branches prog2 jumps))"
  by pat_completeness auto
termination
  by (relation "measure (\<lambda>x. case x of Inl (_, node, _) \<Rightarrow> size node
        | Inr (Inl (_, items, _)) \<Rightarrow> size_list size items
        | Inr (Inr (_, items, _, _)) \<Rightarrow> size_list size items)") auto

section \<open>Well-formed trees\<close>

text \<open>What the parser guarantees of a rule body: \<open>MAX_REPEAT\<close> bounds an upper count.\<close>

definition MAX_REPEAT :: nat where "MAX_REPEAT = 1024"

fun node_ok :: "Node \<Rightarrow> bool" where
  "node_ok (NAlt branches) \<longleftrightarrow> branches \<noteq> [] \<and> (\<forall>b \<in> set branches. node_ok b)"
| "node_ok (NSeq items) \<longleftrightarrow> (\<forall>it \<in> set items. node_ok it)"
| "node_ok (NRep inner m n) \<longleftrightarrow> node_ok inner \<and> (case n of None \<Rightarrow> True | Some t \<Rightarrow> m \<le> t \<and> t \<le> MAX_REPEAT)"
| "node_ok (NClass negated ranges) \<longleftrightarrow>
     ranges \<noteq> [] \<and> sorted (map fst ranges) \<and> (\<forall>(a, b) \<in> set ranges. a \<le> b \<and> b < 2 ^ 32)"
| "node_ok (NStr cps) \<longleftrightarrow> (\<forall>c \<in> set cps. c < 2 ^ 32)"
| "node_ok NAny \<longleftrightarrow> True"
| "node_ok (NRef name) \<longleftrightarrow> True"

section \<open>The language of a rule body\<close>

inductive derives :: "(ustr \<times> Node) list \<Rightarrow> Node \<Rightarrow> nat list \<Rightarrow> bool"
  and derives_all :: "(ustr \<times> Node) list \<Rightarrow> Node list \<Rightarrow> nat list \<Rightarrow> bool" for rules where
  d_str: "derives rules (NStr cps) cps"
| d_class: "in_ranges ranges c \<noteq> negated \<Longrightarrow> derives rules (NClass negated ranges) [c]"
| d_any: "derives rules NAny [c]"
| d_seq: "derives_all rules items w \<Longrightarrow> derives rules (NSeq items) w"
| d_alt: "b \<in> set branches \<Longrightarrow> derives rules b w \<Longrightarrow> derives rules (NAlt branches) w"
| d_rep: "m \<le> k \<Longrightarrow> (\<And>t. n = Some t \<Longrightarrow> k \<le> t) \<Longrightarrow> derives_all rules (replicate k inner) w \<Longrightarrow>
    derives rules (NRep inner m n) w"
| d_ref: "map_of rules name = Some body \<Longrightarrow> derives rules body w \<Longrightarrow> derives rules (NRef name) w"
| d_nil: "derives_all rules [] []"
| d_cons: "derives rules it u \<Longrightarrow> derives_all rules items v \<Longrightarrow> derives_all rules (it # items) (u @ v)"

section \<open>The code of a node in a program\<close>

text \<open>\<open>code_at ids p a node b\<close>: the instructions of \<open>p\<close> from \<open>a\<close> to before \<open>b\<close> are those of \<open>node\<close>.\<close>

inductive code_at :: "(ustr \<Rightarrow> nat option) \<Rightarrow> Inst list \<Rightarrow> nat \<Rightarrow> Node \<Rightarrow> nat \<Rightarrow> bool"
  and code_all :: "(ustr \<Rightarrow> nat option) \<Rightarrow> Inst list \<Rightarrow> nat \<Rightarrow> Node list \<Rightarrow> nat \<Rightarrow> bool"
  and code_alt :: "(ustr \<Rightarrow> nat option) \<Rightarrow> Inst list \<Rightarrow> nat \<Rightarrow> Node list \<Rightarrow> nat \<Rightarrow> bool"
  and code_opts :: "(ustr \<Rightarrow> nat option) \<Rightarrow> Inst list \<Rightarrow> nat \<Rightarrow> nat \<Rightarrow> Node \<Rightarrow> nat \<Rightarrow> bool" for ids p where
  c_str: "(\<And>i. i < length cps \<Longrightarrow> p ! (a + i) = ICp (cps ! i)) \<Longrightarrow> code_at ids p a (NStr cps) (a + length cps)"
| c_class: "p ! a = IClass negated ranges \<Longrightarrow> code_at ids p a (NClass negated ranges) (Suc a)"
| c_any: "p ! a = IAny \<Longrightarrow> code_at ids p a NAny (Suc a)"
| c_ref: "p ! a = Call rid \<Longrightarrow> ids name = Some rid \<Longrightarrow> code_at ids p a (NRef name) (Suc a)"
| c_seq: "code_all ids p a items b \<Longrightarrow> code_at ids p a (NSeq items) b"
| c_alt: "code_alt ids p a branches b \<Longrightarrow> code_at ids p a (NAlt branches) b"
| c_star: "code_all ids p a (replicate m inner) l \<Longrightarrow> p ! l = Split (Suc l) (Suc j) \<Longrightarrow>
    code_at ids p (Suc l) inner j \<Longrightarrow> p ! j = Jump l \<Longrightarrow> code_at ids p a (NRep inner m None) (Suc j)"
| c_opts: "code_all ids p a (replicate m inner) l \<Longrightarrow> code_opts ids p l (t - m) inner b \<Longrightarrow> m \<le> t \<Longrightarrow>
    code_at ids p a (NRep inner m (Some t)) b"
| c_nil: "code_all ids p a [] a"
| c_cons: "code_at ids p a it b \<Longrightarrow> code_all ids p b items c \<Longrightarrow> code_all ids p a (it # items) c"
| c_last: "code_at ids p a branch e \<Longrightarrow> code_alt ids p a [branch] e"
| c_branch: "p ! a = Split (Suc a) (Suc j) \<Longrightarrow> code_at ids p (Suc a) branch j \<Longrightarrow> p ! j = Jump e \<Longrightarrow>
    code_alt ids p (Suc j) branches e \<Longrightarrow> branches \<noteq> [] \<Longrightarrow> code_alt ids p a (branch # branches) e"
| c_opt0: "code_opts ids p a 0 inner a"
| c_optS: "p ! a = Split (Suc a) j \<Longrightarrow> code_at ids p (Suc a) inner j \<Longrightarrow> code_opts ids p j k inner b \<Longrightarrow>
    code_opts ids p a (Suc k) inner b"

text \<open>The code occupies an interval and depends on nothing outside it.\<close>

lemma code_le:
  "code_at ids p a node b \<Longrightarrow> a \<le> b"
  "code_all ids p a items b \<Longrightarrow> a \<le> b"
  "code_alt ids p a items b \<Longrightarrow> a \<le> b"
  "code_opts ids p a k inner b \<Longrightarrow> a \<le> b"
  by (induction rule: code_at_code_all_code_alt_code_opts.inducts) auto

lemma code_cong:
  "code_at ids p a node b \<Longrightarrow> (\<forall>i. a \<le> i \<and> i < b \<longrightarrow> q ! i = p ! i) \<longrightarrow> code_at ids q a node b"
  "code_all ids p a items b \<Longrightarrow> (\<forall>i. a \<le> i \<and> i < b \<longrightarrow> q ! i = p ! i) \<longrightarrow> code_all ids q a items b"
  "code_alt ids p a items b \<Longrightarrow> (\<forall>i. a \<le> i \<and> i < b \<longrightarrow> q ! i = p ! i) \<longrightarrow> code_alt ids q a items b"
  "code_opts ids p a k inner b \<Longrightarrow> (\<forall>i. a \<le> i \<and> i < b \<longrightarrow> q ! i = p ! i) \<longrightarrow> code_opts ids q a k inner b"
proof (induction rule: code_at_code_all_code_alt_code_opts.inducts)
  case (c_star a m inner l j)
  note le = code_le(2) [OF c_star(1)] code_le(1) [OF c_star(4)]
  show ?case using c_star le by (auto intro!: code_at_code_all_code_alt_code_opts.c_star [where l = l])
next
  case (c_opts a m inner l t b)
  note le = code_le(2) [OF c_opts(1)] code_le(4) [OF c_opts(3)]
  show ?case using c_opts le by (auto intro!: code_at_code_all_code_alt_code_opts.c_opts [where l = l])
next
  case (c_cons a it b items c)
  note le = code_le(1) [OF c_cons(1)] code_le(2) [OF c_cons(3)]
  show ?case using c_cons le by (auto intro!: code_at_code_all_code_alt_code_opts.c_cons [where b = b])
next
  case (c_branch a j branch e branches)
  note le = code_le(1) [OF c_branch(2)] code_le(3) [OF c_branch(5)]
  show ?case using c_branch le by (auto intro!: code_at_code_all_code_alt_code_opts.c_branch [where j = j])
next
  case (c_optS a j inner k b)
  note le = code_le(1) [OF c_optS(2)] code_le(4) [OF c_optS(4)]
  show ?case using c_optS le by (auto intro!: code_at_code_all_code_alt_code_opts.c_optS [where j = j])
qed (auto intro: code_at_code_all_code_alt_code_opts.intros)

lemmas code_intros = code_at_code_all_code_alt_code_opts.intros

section \<open>Emission produces the code\<close>

text \<open>A program that keeps another one as its beginning.\<close>

definition ext :: "Inst list \<Rightarrow> Inst list \<Rightarrow> bool" where
  "ext p q \<longleftrightarrow> length p \<le> length q \<and> (\<forall>i < length p. q ! i = p ! i)"

lemma ext_refl [simp]: "ext p p"
  by (simp add: ext_def)

lemma ext_append [simp]: "ext p (p @ q)"
  by (simp add: ext_def nth_append)

lemma ext_trans: "ext p q \<Longrightarrow> ext q r \<Longrightarrow> ext p r"
  by (auto simp: ext_def)

lemma ext_len: "ext p q \<Longrightarrow> length p \<le> length q"
  by (simp add: ext_def)

lemma ext_nth: "ext p q \<Longrightarrow> i < length p \<Longrightarrow> q ! i = p ! i"
  by (simp add: ext_def)

lemma ext_code: "ext p q \<Longrightarrow> b \<le> length p \<Longrightarrow> code_at ids p a node b \<Longrightarrow> code_at ids q a node b"
  using code_cong(1) [of ids p a node b q] by (auto simp: ext_def)

lemma ext_code_all: "ext p q \<Longrightarrow> b \<le> length p \<Longrightarrow> code_all ids p a items b \<Longrightarrow> code_all ids q a items b"
  using code_cong(2) [of ids p a items b q] by (auto simp: ext_def)

lemma length_patch_jumps [simp]: "length (patch_jumps js t p) = length p"
  unfolding patch_jumps_def by (induction js arbitrary: p) auto

lemma nth_patch_jumps: "i < length p \<Longrightarrow> patch_jumps js t p ! i = (if i \<in> set js then Jump t else p ! i)"
  unfolding patch_jumps_def
proof (induction js arbitrary: p)
  case (Cons j js)
  then show ?case by (cases "i = j") (auto simp: nth_list_update)
qed simp

definition emits :: "(ustr \<Rightarrow> nat option) \<Rightarrow> Node \<Rightarrow> bool" where
  "emits ids node \<longleftrightarrow> (\<forall>p q. emit_node ids node p = Ok q \<longrightarrow> ext p q \<and> code_at ids q (length p) node (length q))"

lemma times_emit:
  assumes "emits ids inner" "times_res m (\<lambda>p. emit_node ids inner p) p = Ok q"
  shows "ext p q \<and> code_all ids q (length p) (replicate m inner) (length q)"
  using assms(2)
proof (induction m arbitrary: p)
  case 0
  then show ?case by (simp add: code_intros)
next
  case (Suc m)
  then obtain p1 where p1: "emit_node ids inner p = Ok p1" "times_res m (\<lambda>p. emit_node ids inner p) p1 = Ok q"
    by (auto simp: and_then_eq_Inr)
  have IH: "ext p1 q" "code_all ids q (length p1) (replicate m inner) (length q)" using Suc.IH [OF p1(2)] by simp_all
  have c: "ext p p1" "code_at ids p1 (length p) inner (length p1)" using assms(1) p1(1) by (simp_all add: emits_def)
  show ?case using ext_trans [OF c(1) IH(1)] c_cons [OF ext_code [OF IH(1) order_refl c(2)] IH(2)] by simp
qed

text \<open>A split that is patched once its branch is emitted.\<close>

lemma emit_guarded:
  assumes "emits ids inner" "emit_node ids inner (p @ [Split (length p + 1) 0]) = Ok p2"
    and "q = (p2 @ r)[length p := Split (Suc (length p)) t]"
  shows "ext p q" "q ! length p = Split (Suc (length p)) t" "code_at ids q (Suc (length p)) inner (length p2)"
    "length p < length p2" "\<And>i. length p < i \<Longrightarrow> q ! i = (p2 @ r) ! i"
proof -
  have e: "ext (p @ [Split (length p + 1) 0]) p2" and c: "code_at ids p2 (Suc (length p)) inner (length p2)"
    using assms(1) [unfolded emits_def, rule_format, OF assms(2)] by simp_all
  show l: "length p < length p2" using ext_len [OF e] by simp
  show "ext p q" using e l assms(3) by (auto simp: ext_def nth_append)
  show "q ! length p = Split (Suc (length p)) t" using l assms(3) by simp
  show n: "\<And>i. length p < i \<Longrightarrow> q ! i = (p2 @ r) ! i" using assms(3) by simp
  have "\<forall>i. Suc (length p) \<le> i \<and> i < length p2 \<longrightarrow> q ! i = p2 ! i" using n by (simp add: nth_append)
  then show "code_at ids q (Suc (length p)) inner (length p2)" using code_cong(1) [OF c, of q] by blast
qed

lemma opts_emit:
  assumes "emits ids inner"
    and "times_res k (\<lambda>p. let split = length p; body = split + 1 in
             and_then (emit_node ids inner (p @ [Split body 0])) (\<lambda>p2.
               Ok (p2[split := Split body (length p2)]))) p = Ok q"
  shows "ext p q \<and> code_opts ids q (length p) k inner (length q)"
  using assms(2)
proof (induction k arbitrary: p)
  case 0
  then show ?case by (simp add: code_intros)
next
  case (Suc k)
  then obtain p2 where p2: "emit_node ids inner (p @ [Split (length p + 1) 0]) = Ok p2"
    and r: "times_res k (\<lambda>p. let split = length p; body = split + 1 in
             and_then (emit_node ids inner (p @ [Split body 0])) (\<lambda>p2.
               Ok (p2[split := Split body (length p2)]))) (p2[length p := Split (Suc (length p)) (length p2)]) = Ok q"
    by (auto simp: and_then_eq_Inr Let_def)
  define p3 where "p3 = p2[length p := Split (Suc (length p)) (length p2)]"
  have "p3 = (p2 @ [])[length p := Split (Suc (length p)) (length p2)]" by (simp add: p3_def)
  note g = emit_guarded [OF assms(1) p2 this]
  have IH: "ext p3 q" "code_opts ids q (length p3) k inner (length q)" using Suc.IH [OF r] by (simp_all add: p3_def)
  have "length p3 = length p2" by (simp add: p3_def)
  then show ?case using g IH ext_code [OF IH(1) _ g(3)] ext_nth [OF IH(1), of "length p"]
    by (auto intro!: c_optS [of _ _ "length p2"] intro: ext_trans)
qed

lemma emit_seq_code:
  "\<forall>it \<in> set items. emits ids it \<Longrightarrow> emit_seq ids items p = Ok q \<Longrightarrow> ext p q \<and> code_all ids q (length p) items (length q)"
proof (induction items arbitrary: p)
  case (Cons it items)
  then obtain p1 where p1: "emit_node ids it p = Ok p1" "emit_seq ids items p1 = Ok q" by (auto simp: and_then_eq_Inr)
  have IH: "ext p1 q" "code_all ids q (length p1) items (length q)" using Cons p1 by auto
  have c: "ext p p1" "code_at ids p1 (length p) it (length p1)" using Cons.prems(1) p1(1) by (simp_all add: emits_def)
  show ?case using ext_trans [OF c(1) IH(1)] c_cons [OF ext_code [OF IH(1) order_refl c(2)] IH(2)] by simp
qed (simp add: code_intros)

lemma emit_alt_code:
  "\<forall>b \<in> set branches. emits ids b \<Longrightarrow> branches \<noteq> [] \<Longrightarrow> emit_alt ids branches p jumps = Ok (q, js) \<Longrightarrow>
   ext p q \<and> (\<exists>js'. js = jumps @ js' \<and> (\<forall>j \<in> set js'. length p \<le> j) \<and>
     code_alt ids (patch_jumps js' (length q) q) (length p) branches (length q))"
proof (induction branches arbitrary: p jumps)
  case (Cons b branches)
  show ?case
  proof (cases "branches = []")
    case True
    then have "emit_node ids b p = Ok q" "js = jumps" using Cons.prems(3) by (auto simp: and_then_eq_Inr)
    then show ?thesis using Cons.prems(1) True by (auto simp: emits_def patch_jumps_def intro: c_last)
  next
    case False
    then obtain p2 where p2: "emit_node ids b (p @ [Split (length p + 1) 0]) = Ok p2"
      and r: "emit_alt ids branches ((p2 @ [Jump 0])[length p := Split (Suc (length p)) (Suc (length p2))])
                (jumps @ [length p2]) = Ok (q, js)"
      using Cons.prems(3) by (auto simp: and_then_eq_Inr Let_def)
    define p4 where "p4 = (p2 @ [Jump 0])[length p := Split (Suc (length p)) (Suc (length p2))]"
    have "emits ids b" using Cons.prems(1) by simp
    note g = emit_guarded [OF this p2 p4_def]
    have l4: "length p4 = Suc (length p2)" by (simp add: p4_def)
    obtain js' where js: "js = (jumps @ [length p2]) @ js'" "\<forall>j \<in> set js'. length p4 \<le> j"
      and IH: "ext p4 q" "code_alt ids (patch_jumps js' (length q) q) (length p4) branches (length q)"
      using Cons.IH [OF _ False r] Cons.prems(1) unfolding p4_def by auto
    define Q where "Q = patch_jumps (length p2 # js') (length q) q"
    have lq: "length p2 < length q" using ext_len [OF IH(1)] l4 by simp
    have low: "Q ! i = p4 ! i" if "i < length p2" for i
      unfolding Q_def using that lq js(2) l4 ext_nth [OF IH(1), of i] by (auto simp: nth_patch_jumps)
    have high: "Q ! i = patch_jumps js' (length q) q ! i" if "length p4 \<le> i" "i < length q" for i
      unfolding Q_def using that l4 by (simp add: nth_patch_jumps)
    have at: "Q ! length p2 = Jump (length q)" unfolding Q_def using lq by (simp add: nth_patch_jumps)
    have "Q ! length p = Split (Suc (length p)) (Suc (length p2))" using low [OF g(4)] g(2) by simp
    moreover have "code_at ids Q (Suc (length p)) b (length p2)"
      using code_cong(1) [OF g(3), of Q] low by blast
    moreover have "code_alt ids Q (Suc (length p2)) branches (length q)"
      using code_cong(3) [OF IH(2), of Q] high l4 by simp
    ultimately have "code_alt ids Q (length p) (b # branches) (length q)"
      using at False by (intro c_branch)
    moreover have "\<forall>j \<in> set (length p2 # js'). length p \<le> j" using js(2) l4 g(4) by auto
    ultimately show ?thesis using ext_trans [OF g(1) IH(1)] js(1) unfolding Q_def by auto
  qed
qed simp

lemma emit_rep_code:
  assumes "emits ids inner" "\<And>t. n = Some t \<Longrightarrow> m \<le> t"
  shows "emits ids (NRep inner m n)"
  unfolding emits_def
proof (intro allI impI)
  fix p q assume e: "emit_node ids (NRep inner m n) p = Ok q"
  then obtain p1 where p1: "times_res m (\<lambda>p. emit_node ids inner p) p = Ok p1" by (auto simp: and_then_eq_Inr)
  note t = times_emit [OF assms(1) p1]
  show "ext p q \<and> code_at ids q (length p) (NRep inner m n) (length q)"
  proof (cases n)
    case None
    then obtain p2 where p2: "emit_node ids inner (p1 @ [Split (length p1 + 1) 0]) = Ok p2"
      and q: "q = (p2 @ [Jump (length p1)])[length p1 := Split (Suc (length p1)) (Suc (length p2))]"
      using e p1 by (auto simp: and_then_eq_Inr Let_def)
    note g = emit_guarded [OF assms(1) p2 q]
    have "q ! length p2 = Jump (length p1)" "length q = Suc (length p2)" using g(5) [OF g(4)] q by simp_all
    then show ?thesis
      using ext_trans [OF conjunct1 [OF t] g(1)] None
        c_star [OF ext_code_all [OF g(1) order_refl conjunct2 [OF t]] g(2,3)] by simp
  next
    case (Some k)
    then have "times_res (k - m) (\<lambda>p. let split = length p; body = split + 1 in
             and_then (emit_node ids inner (p @ [Split body 0])) (\<lambda>p2.
               Ok (p2[split := Split body (length p2)]))) p1 = Ok q" using e p1 by simp
    note o = opts_emit [OF assms(1) this]
    show ?thesis
      using ext_trans [OF conjunct1 [OF t] conjunct1 [OF o]] Some
        c_opts [OF ext_code_all [OF conjunct1 [OF o] order_refl conjunct2 [OF t]] conjunct2 [OF o] assms(2)] by simp
  qed
qed

text \<open>The compiler is correct: what it appends is the code of the node.\<close>

lemma emit_node_code: "node_ok node \<Longrightarrow> emits ids node"
proof (induction node)
  case (NStr cps)
  show ?case unfolding emits_def
    using c_str [of cps "p @ map ICp cps" "length p" ids for p] by (auto simp: nth_append)
next
  case (NSeq items)
  then have "\<forall>it \<in> set items. emits ids it" by auto
  from emit_seq_code [OF this] show ?case by (simp add: emits_def c_seq)
next
  case (NAlt branches)
  then have b: "\<forall>b \<in> set branches. emits ids b" "branches \<noteq> []" by auto
  show ?case unfolding emits_def
  proof (intro allI impI)
    fix p q assume "emit_node ids (NAlt branches) p = Ok q"
    then obtain q' js where e: "emit_alt ids branches p [] = Ok (q', js)" "q = patch_jumps js (length q') q'"
      by (auto simp: and_then_eq_Inr)
    have c: "ext p q'" "\<forall>j \<in> set js. length p \<le> j" "code_alt ids q (length p) branches (length q)"
      using emit_alt_code [OF b e(1)] e(2) by auto
    have "ext p q" using c(1,2) e(2) by (auto simp: ext_def nth_patch_jumps)
    then show "ext p q \<and> code_at ids q (length p) (NAlt branches) (length q)" using c(3) by (simp add: c_alt)
  qed
next
  case (NRep inner m n)
  then show ?case by (intro emit_rep_code) auto
qed (auto simp: emits_def intro: code_intros split: option.splits)

end
