(* ===== verification/Gbnf_Correct.thy ===== *)
theory Gbnf_Correct
  imports Gbnf_Emit
begin

text \<open>
  The compiled program accepts the language of the grammar. One direction runs the code of a body
  along a derivation, the other reads a derivation off an accepting run, by induction on its steps.
\<close>

section \<open>Single steps at a known instruction\<close>

lemma top_simps [simp]:
  "set_pc (fs @ [(r, a)]) b = fs @ [(r, b)]" "advance (fs @ [(r, a)]) = fs @ [(r, Suc a)]"
  by (simp_all add: set_pc_def advance_def)

lemma esuccs_top:
  "inst_at rs (r, a) = Split x y \<Longrightarrow> esuccs rs (fs @ [(r, a)]) = [fs @ [(r, y)], fs @ [(r, x)]]"
  "inst_at rs (r, a) = Jump x \<Longrightarrow> esuccs rs (fs @ [(r, a)]) = [fs @ [(r, x)]]"
  "inst_at rs (r, a) = Call q \<Longrightarrow> esuccs rs (fs @ [(r, a)]) = [(fs @ [(r, Suc a)]) @ [(q, 0)]]"
  "inst_at rs (r, a) = Ret \<Longrightarrow> fs \<noteq> [] \<Longrightarrow> esuccs rs (fs @ [(r, a)]) = [fs]"
  by (simp_all add: esuccs_def flow_def set_pc_def)

lemma runs_split:
  "inst_at rs (r, a) = Split x y \<Longrightarrow> runs rs (fs @ [(r, x)]) w st \<Longrightarrow> runs rs (fs @ [(r, a)]) w st"
  "inst_at rs (r, a) = Split x y \<Longrightarrow> runs rs (fs @ [(r, y)]) w st \<Longrightarrow> runs rs (fs @ [(r, a)]) w st"
  by (rule runs_eps, simp_all add: esuccs_top)+

lemma runs_jump: "inst_at rs (r, a) = Jump x \<Longrightarrow> runs rs (fs @ [(r, x)]) w st \<Longrightarrow> runs rs (fs @ [(r, a)]) w st"
  by (rule runs_eps) (simp_all add: esuccs_top)

lemma runs_call:
  "inst_at rs (r, a) = Call q \<Longrightarrow> runs rs ((fs @ [(r, Suc a)]) @ [(q, 0)]) w st \<Longrightarrow> runs rs (fs @ [(r, a)]) w st"
  by (rule runs_eps) (simp_all add: esuccs_top)

lemma runs_ret: "inst_at rs (r, a) = Ret \<Longrightarrow> fs \<noteq> [] \<Longrightarrow> runs rs (fs @ [(r, a)]) [] fs"
  by (rule runs_eps [where st' = fs]) (simp_all add: esuccs_top)

lemma runs_match: "inst_matches (inst_at rs (r, a)) c \<Longrightarrow> runs rs (fs @ [(r, a)]) [c] (fs @ [(r, Suc a)])"
  by (rule runs_eat) simp_all

section \<open>A program that is the code of a list of rules\<close>

definition compiled :: "(ustr \<times> Node) list \<Rightarrow> (ustr \<Rightarrow> nat option) \<Rightarrow> program \<Rightarrow> bool" where
  "compiled rules ids rs \<longleftrightarrow>
     length rs = length rules \<and>
     (\<forall>name body. map_of rules name = Some body \<longrightarrow> (\<exists>r. ids name = Some r)) \<and>
     (\<forall>name r. ids name = Some r \<longrightarrow>
        (\<exists>body b. r < length rs \<and> map_of rules name = Some body \<and> code_at ids (rs ! r) 0 body b \<and>
           length (rs ! r) = Suc b \<and> rs ! r ! b = Ret))"

section \<open>Derivations run\<close>

definition node_runs :: "(ustr \<Rightarrow> nat option) \<Rightarrow> program \<Rightarrow> Node \<Rightarrow> nat list \<Rightarrow> bool" where
  "node_runs ids rs node w \<longleftrightarrow>
     (\<forall>fs r a b. code_at ids (rs ! r) a node b \<longrightarrow> runs rs (fs @ [(r, a)]) w (fs @ [(r, b)]))"

lemma node_runsD: "node_runs ids rs node w \<Longrightarrow> code_at ids (rs ! r) a node b \<Longrightarrow> runs rs (fs @ [(r, a)]) w (fs @ [(r, b)])"
  by (auto simp: node_runs_def)

lemma str_runs:
  assumes "\<And>i. i < length cps \<Longrightarrow> rs ! r ! (a + i) = ICp (cps ! i)"
  shows "runs rs (fs @ [(r, a)]) cps (fs @ [(r, a + length cps)])"
  using assms
proof (induction cps arbitrary: a)
  case (Cons c cps)
  have 1: "runs rs (fs @ [(r, a)]) [c] (fs @ [(r, Suc a)])"
    by (rule runs_match) (use Cons.prems [of 0] in \<open>simp add: inst_at_def inst_matches_def\<close>)
  have 2: "runs rs (fs @ [(r, Suc a)]) cps (fs @ [(r, Suc a + length cps)])"
    by (rule Cons.IH) (use Cons.prems [of "Suc i" for i] in simp)
  show ?case using runs_trans [OF 1 2] by simp
qed simp

lemma all_runs:
  "list_all2 (node_runs ids rs) items ws \<Longrightarrow> code_all ids (rs ! r) a items b \<Longrightarrow>
   runs rs (fs @ [(r, a)]) (concat ws) (fs @ [(r, b)])"
proof (induction items ws arbitrary: a rule: list_all2_induct)
  case Nil
  then show ?case by (auto elim: code_all.cases)
next
  case (Cons it items w ws)
  from Cons.prems obtain c where c: "code_at ids (rs ! r) a it c" "code_all ids (rs ! r) c items b"
    by (auto elim: code_all.cases)
  show ?case using runs_trans [OF node_runsD [OF Cons.hyps(1) c(1)] Cons.IH [OF c(2)]] by simp
qed

lemma star_runs:
  assumes "rs ! r ! l = Split (Suc l) (Suc j)" "code_at ids (rs ! r) (Suc l) inner j" "rs ! r ! j = Jump l"
  shows "list_all (node_runs ids rs inner) ws \<Longrightarrow> runs rs (fs @ [(r, l)]) (concat ws) (fs @ [(r, Suc j)])"
proof (induction ws)
  case Nil
  then show ?case using runs_split(2) [of rs r l "Suc l" "Suc j"] assms(1) by (simp add: inst_at_def)
next
  case (Cons w ws)
  have i: "inst_at rs (r, l) = Split (Suc l) (Suc j)" "inst_at rs (r, j) = Jump l" using assms by (simp_all add: inst_at_def)
  have 1: "runs rs (fs @ [(r, l)]) w (fs @ [(r, j)])"
    using Cons.prems by (intro runs_split(1) [OF i(1)] node_runsD [OF _ assms(2)]) simp
  have 2: "runs rs (fs @ [(r, j)]) (concat ws) (fs @ [(r, Suc j)])"
    using Cons by (intro runs_jump [OF i(2)]) simp
  show ?case using runs_trans [OF 1 2] by simp
qed

lemma opts_runs:
  "list_all (node_runs ids rs inner) ws \<Longrightarrow> length ws \<le> k \<Longrightarrow> code_opts ids (rs ! r) a k inner b \<Longrightarrow>
   runs rs (fs @ [(r, a)]) (concat ws) (fs @ [(r, b)])"
proof (induction k arbitrary: a ws)
  case 0
  then show ?case by (auto elim: code_opts.cases)
next
  case (Suc k)
  from Suc.prems(3) obtain j where j: "rs ! r ! a = Split (Suc a) j" "code_at ids (rs ! r) (Suc a) inner j"
      "code_opts ids (rs ! r) j k inner b" by (auto elim: code_opts.cases)
  have i: "inst_at rs (r, a) = Split (Suc a) j" using j(1) by (simp add: inst_at_def)
  show ?case
  proof (cases ws)
    case Nil
    then show ?thesis using runs_split(2) [OF i] Suc.IH [of "[]", OF _ _ j(3)] by simp
  next
    case (Cons w ws')
    have 1: "runs rs (fs @ [(r, a)]) w (fs @ [(r, j)])"
      using Suc.prems(1) Cons by (intro runs_split(1) [OF i] node_runsD [OF _ j(2)]) simp
    have 2: "runs rs (fs @ [(r, j)]) (concat ws') (fs @ [(r, b)])"
      using Suc.prems Cons by (intro Suc.IH [OF _ _ j(3)]) simp_all
    show ?thesis using runs_trans [OF 1 2] Cons by simp
  qed
qed

lemma alt_runs:
  "node_runs ids rs x w \<Longrightarrow> x \<in> set branches \<Longrightarrow> code_alt ids (rs ! r) a branches e \<Longrightarrow>
   runs rs (fs @ [(r, a)]) w (fs @ [(r, e)])"
proof (induction branches arbitrary: a)
  case (Cons y branches)
  from Cons.prems(3) show ?case
  proof (cases rule: code_alt.cases)
    case c_last
    then show ?thesis using Cons.prems node_runsD by auto
  next
    case (c_branch j)
    have i: "inst_at rs (r, a) = Split (Suc a) (Suc j)" "inst_at rs (r, j) = Jump e"
      using c_branch by (simp_all add: inst_at_def)
    show ?thesis
    proof (cases "x = y")
      case True
      have 1: "runs rs (fs @ [(r, a)]) w (fs @ [(r, j)])"
        using Cons.prems(1) True c_branch by (intro runs_split(1) [OF i(1)] node_runsD) simp_all
      have 2: "runs rs (fs @ [(r, j)]) [] (fs @ [(r, e)])" by (rule runs_jump [OF i(2)]) simp
      show ?thesis using runs_trans [OF 1 2] by simp
    next
      case False
      then show ?thesis using runs_split(2) [OF i(1)] Cons.IH [OF Cons.prems(1)] Cons.prems(2) c_branch by simp
    qed
  qed
qed simp

lemma list_all2_replicateD: "list_all2 P (replicate k x) ws \<Longrightarrow> length ws = k \<and> list_all (P x) ws"
  by (induction k arbitrary: ws) (auto simp: list_all2_Cons1)

lemma rep_runs:
  assumes "m \<le> k" "\<And>t. n = Some t \<Longrightarrow> k \<le> t" "list_all2 (node_runs ids rs) (replicate k inner) ws"
  shows "node_runs ids rs (NRep inner m n) (concat ws)"
  unfolding node_runs_def
proof (intro allI impI)
  fix fs r a b assume c: "code_at ids (rs ! r) a (NRep inner m n) b"
  have ws: "length ws = k" "list_all (node_runs ids rs inner) ws" using list_all2_replicateD [OF assms(3)] by simp_all
  define us vs where "us = take m ws" and "vs = drop m ws"
  have 2: "list_all (node_runs ids rs inner) us" "list_all (node_runs ids rs inner) vs"
    using ws(2) by (auto simp: us_def vs_def list_all_iff dest: in_set_takeD in_set_dropD)
  have l: "length us = m" "length vs = k - m" using ws(1) assms(1) by (simp_all add: us_def vs_def)
  have r: "list_all2 (node_runs ids rs) (replicate m inner) us"
    using 2(1) l(1) by (auto simp: list_all2_conv_all_nth list_all_length)
  have cat: "concat ws = concat us @ concat vs" by (simp add: us_def vs_def flip: concat_append)
  from c show "runs rs (fs @ [(r, a)]) (concat ws) (fs @ [(r, b)])"
  proof (cases rule: code_at.cases)
    case (c_star l j)
    show ?thesis unfolding cat c_star(2)
      by (rule runs_trans [OF all_runs [OF r c_star(3)] star_runs [OF c_star(4,5,6) 2(2)]])
  next
    case (c_opts l t)
    then have "length vs \<le> t - m" using assms(2) l(2) by simp
    then show ?thesis unfolding cat
      using runs_trans [OF all_runs [OF r c_opts(2)] opts_runs [OF 2(2) _ c_opts(3)]] by simp
  qed
qed

lemma derives_runs:
  assumes "compiled rules ids rs"
  shows "derives rules node w \<Longrightarrow> node_runs ids rs node w"
    and "derives_all rules items w \<Longrightarrow> \<exists>ws. w = concat ws \<and> list_all2 (node_runs ids rs) items ws"
proof (induction rule: derives_derives_all.inducts)
  case (d_str cps)
  show ?case unfolding node_runs_def by (auto elim!: code_at.cases intro: str_runs)
next
  case (d_class ranges c negated)
  then show ?case unfolding node_runs_def
    by (auto elim!: code_at.cases intro!: runs_match simp: inst_at_def inst_matches_def)
next
  case (d_any c)
  then show ?case unfolding node_runs_def
    by (auto elim!: code_at.cases intro!: runs_match simp: inst_at_def inst_matches_def)
next
  case (d_seq items w)
  then show ?case unfolding node_runs_def [of ids rs "NSeq items"] by (auto elim!: code_at.cases intro: all_runs)
next
  case (d_alt b branches w)
  then show ?case unfolding node_runs_def [of ids rs "NAlt branches"] by (auto elim!: code_at.cases intro: alt_runs)
next
  case (d_rep m k n inner w)
  then show ?case using rep_runs by blast
next
  case (d_ref name body w)
  show ?case unfolding node_runs_def
  proof (intro allI impI)
    fix fs r a b assume "code_at ids (rs ! r) a (NRef name) b"
    then obtain q where q: "rs ! r ! a = Call q" "ids name = Some q" "b = Suc a" by (auto elim: code_at.cases)
    then obtain e where e: "code_at ids (rs ! q) 0 body e" "rs ! q ! e = Ret"
      using assms d_ref(1) unfolding compiled_def by force
    have 1: "runs rs ((fs @ [(r, Suc a)]) @ [(q, 0)]) w ((fs @ [(r, Suc a)]) @ [(q, e)])"
      by (rule node_runsD [OF d_ref(3) e(1)])
    have 2: "runs rs ((fs @ [(r, Suc a)]) @ [(q, e)]) [] (fs @ [(r, Suc a)])"
      using e(2) by (intro runs_ret) (simp_all add: inst_at_def)
    have "runs rs ((fs @ [(r, Suc a)]) @ [(q, 0)]) w (fs @ [(r, Suc a)])" using runs_trans [OF 1 2] by simp
    then show "runs rs (fs @ [(r, a)]) w (fs @ [(r, b)])"
      using q by (intro runs_call [of rs r a q]) (simp_all add: inst_at_def)
  qed
next
  case d_nil
  show ?case by (intro exI [of _ "[]"]) simp
next
  case (d_cons it u items v)
  then obtain ws where "v = concat ws" "list_all2 (node_runs ids rs) items ws" by blast
  then show ?case using d_cons(2) by (intro exI [of _ "u # ws"]) simp
qed

section \<open>Accepting runs derive\<close>

definition final :: "program \<Rightarrow> stack \<Rightarrow> bool" where
  "final rs st \<longleftrightarrow> length st = 1 \<and> inst_at rs (st ! 0) = Ret"

lemma final_not_top: "final rs (fs @ [(r, a)]) \<Longrightarrow> fs = [] \<and> inst_at rs (r, a) = Ret"
  by (cases fs) (auto simp: final_def)

lemma run_top:
  assumes "run rs n (fs @ [(r, a)]) w st" "final rs st"
  shows "inst_at rs (r, a) = Split x y \<Longrightarrow>
      \<exists>m < n. run rs m (fs @ [(r, x)]) w st \<or> run rs m (fs @ [(r, y)]) w st"
    and "inst_at rs (r, a) = Jump x \<Longrightarrow> \<exists>m < n. run rs m (fs @ [(r, x)]) w st"
    and "inst_at rs (r, a) = Call q \<Longrightarrow> \<exists>m < n. run rs m ((fs @ [(r, Suc a)]) @ [(q, 0)]) w st"
    and "inst_at rs (r, a) = Ret \<Longrightarrow> fs \<noteq> [] \<Longrightarrow> \<exists>m < n. run rs m fs w st"
    and "flow rs (r, a) = FConsume \<Longrightarrow>
      \<exists>m < n. \<exists>c v. w = c # v \<and> inst_matches (inst_at rs (r, a)) c \<and> run rs m (fs @ [(r, Suc a)]) v st"
proof -
  have nz: "n \<noteq> 0" if "inst_at rs (r, a) \<noteq> Ret \<or> fs \<noteq> []"
  proof
    assume "n = 0"
    then have "st = fs @ [(r, a)]" using assms(1) by (auto elim: run_0E)
    then show False using assms(2) that by (auto dest: final_not_top)
  qed
  have nm: "\<not> inst_matches (inst_at rs (r, a)) c" if "flow rs (r, a) \<noteq> FConsume" for c
    using that by (auto simp: inst_matches_def flow_def split: Inst.splits)
  have es: "esuccs rs (fs @ [(r, a)]) = []" if "flow rs (r, a) = FConsume" using that by (simp add: esuccs_def)
  show "inst_at rs (r, a) = Split x y \<Longrightarrow> \<exists>m < n. run rs m (fs @ [(r, x)]) w st \<or> run rs m (fs @ [(r, y)]) w st"
    using assms(1) nz nm by (cases n) (auto elim!: run_SucE simp: esuccs_top flow_def)
  show "inst_at rs (r, a) = Jump x \<Longrightarrow> \<exists>m < n. run rs m (fs @ [(r, x)]) w st"
    using assms(1) nz nm by (cases n) (auto elim!: run_SucE simp: esuccs_top flow_def)
  show "inst_at rs (r, a) = Call q \<Longrightarrow> \<exists>m < n. run rs m ((fs @ [(r, Suc a)]) @ [(q, 0)]) w st"
    using assms(1) nz nm by (cases n) (auto elim!: run_SucE simp: esuccs_top flow_def)
  show "inst_at rs (r, a) = Ret \<Longrightarrow> fs \<noteq> [] \<Longrightarrow> \<exists>m < n. run rs m fs w st"
    using assms(1) nz nm by (cases n) (auto elim!: run_SucE simp: esuccs_top flow_def)
  show "flow rs (r, a) = FConsume \<Longrightarrow>
      \<exists>m < n. \<exists>c v. w = c # v \<and> inst_matches (inst_at rs (r, a)) c \<and> run rs m (fs @ [(r, Suc a)]) v st"
    using assms(1) nz es by (cases n) (auto elim!: run_SucE simp: flow_def split: Inst.splits)
qed

text \<open>
  What an accepting run of at most \<open>N\<close> steps from \<open>a\<close> says: it reads a word of the
  language \<open>L\<close> and goes on from \<open>b\<close>.
\<close>

definition code_reads_in :: "program \<Rightarrow> nat \<Rightarrow> nat \<Rightarrow> nat \<Rightarrow> (nat list \<Rightarrow> bool) \<Rightarrow> nat \<Rightarrow> bool" where
  "code_reads_in rs N r a L b \<longleftrightarrow>
     (\<forall>n \<le> N. \<forall>fs w st. run rs n (fs @ [(r, a)]) w st \<longrightarrow> final rs st \<longrightarrow>
        (\<exists>m \<le> n. \<exists>u v. w = u @ v \<and> L u \<and> run rs m (fs @ [(r, b)]) v st))"

lemma readsI:
  assumes "\<And>n fs w st. n \<le> N \<Longrightarrow> run rs n (fs @ [(r, a)]) w st \<Longrightarrow> final rs st \<Longrightarrow>
    \<exists>m \<le> n. \<exists>u v. w = u @ v \<and> L u \<and> run rs m (fs @ [(r, b)]) v st"
  shows "code_reads_in rs N r a L b"
  using assms by (auto simp: code_reads_in_def)

lemma code_reads_inD:
  assumes "code_reads_in rs N r a L b" "run rs n (fs @ [(r, a)]) w st" "final rs st" "n \<le> N"
  obtains m u v where "m \<le> n" "w = u @ v" "L u" "run rs m (fs @ [(r, b)]) v st"
  using assms unfolding code_reads_in_def by blast

lemma reads_mono: "code_reads_in rs N r a L b \<Longrightarrow> (\<And>u. L u \<Longrightarrow> L' u) \<Longrightarrow> code_reads_in rs N r a L' b"
proof (rule readsI)
  fix n fs w st assume r: "code_reads_in rs N r a L b" and L: "\<And>u. L u \<Longrightarrow> L' u" and n: "n \<le> N"
    and run: "run rs n (fs @ [(r, a)]) w st" "final rs st"
  from code_reads_inD [OF r run n] obtain m u v where "m \<le> n" "w = u @ v" "L u" "run rs m (fs @ [(r, b)]) v st" .
  then show "\<exists>m \<le> n. \<exists>u v. w = u @ v \<and> L' u \<and> run rs m (fs @ [(r, b)]) v st"
    using L by (intro exI [of _ m] conjI exI [of _ u] exI [of _ v]) auto
qed

lemma reads_empty: "L [] \<Longrightarrow> code_reads_in rs N r a L a"
proof (rule readsI)
  fix n fs w st assume "L []" "run rs n (fs @ [(r, a)]) w st"
  then show "\<exists>m \<le> n. \<exists>u v. w = u @ v \<and> L u \<and> run rs m (fs @ [(r, a)]) v st"
    by (intro exI [of _ n] conjI exI [of _ "[]"] exI [of _ w]) auto
qed

lemma reads_trans:
  assumes "code_reads_in rs N r a L b" "code_reads_in rs N r b L' c" "\<And>u v. L u \<Longrightarrow> L' v \<Longrightarrow> L'' (u @ v)"
  shows "code_reads_in rs N r a L'' c"
proof (rule readsI)
  fix n fs w st assume n: "n \<le> N" and run: "run rs n (fs @ [(r, a)]) w st" and fin: "final rs st"
  from code_reads_inD [OF assms(1) run fin n] obtain m u v where 1: "m \<le> n" "w = u @ v" "L u" "run rs m (fs @ [(r, b)]) v st" .
  from code_reads_inD [OF assms(2) 1(4) fin] 1(1) n obtain k x y where "k \<le> m" "v = x @ y" "L' x" "run rs k (fs @ [(r, c)]) y st"
    by auto
  then show "\<exists>m \<le> n. \<exists>u v. w = u @ v \<and> L'' u \<and> run rs m (fs @ [(r, c)]) v st"
    using 1 assms(3) by (intro exI [of _ k] conjI exI [of _ "u @ x"] exI [of _ y]) auto
qed

lemma reads_eat:
  assumes "flow rs (r, a) = FConsume" "\<And>c. inst_matches (inst_at rs (r, a)) c \<Longrightarrow> L [c]"
  shows "code_reads_in rs N r a L (Suc a)"
proof (rule readsI)
  fix n fs w st assume "run rs n (fs @ [(r, a)]) w st" "final rs st"
  from run_top(5) [OF this assms(1)] obtain m c v where "m < n" "w = c # v" "inst_matches (inst_at rs (r, a)) c"
    "run rs m (fs @ [(r, Suc a)]) v st" by blast
  then show "\<exists>m \<le> n. \<exists>u v. w = u @ v \<and> L u \<and> run rs m (fs @ [(r, Suc a)]) v st"
    using assms(2) by (intro exI [of _ m] conjI exI [of _ "[c]"] exI [of _ v]) auto
qed

lemma reads_jump:
  assumes "inst_at rs (r, a) = Jump b" "L []"
  shows "code_reads_in rs N r a L b"
proof (rule readsI)
  fix n fs w st assume "run rs n (fs @ [(r, a)]) w st" "final rs st"
  from run_top(2) [OF this assms(1)] obtain m where "m < n" "run rs m (fs @ [(r, b)]) w st" by blast
  then show "\<exists>m \<le> n. \<exists>u v. w = u @ v \<and> L u \<and> run rs m (fs @ [(r, b)]) v st"
    using assms(2) by (intro exI [of _ m] conjI exI [of _ "[]"] exI [of _ w]) auto
qed

lemma reads_split:
  assumes "inst_at rs (r, a) = Split x y" "code_reads_in rs N r x L b" "code_reads_in rs N r y L b"
  shows "code_reads_in rs N r a L b"
proof (rule readsI)
  fix n fs w st assume n: "n \<le> N" and run: "run rs n (fs @ [(r, a)]) w st" and fin: "final rs st"
  from run_top(1) [OF run fin assms(1)] obtain m z where m: "m < n" "run rs m (fs @ [(r, z)]) w st" "code_reads_in rs N r z L b"
    using assms(2,3) by blast
  from m(1) n have "m \<le> N" by simp
  from code_reads_inD [OF m(3,2) fin this] obtain k u v where "k \<le> m" "w = u @ v" "L u" "run rs k (fs @ [(r, b)]) v st" .
  then show "\<exists>m \<le> n. \<exists>u v. w = u @ v \<and> L u \<and> run rs m (fs @ [(r, b)]) v st"
    using m(1) by (intro exI [of _ k] conjI exI [of _ u] exI [of _ v]) auto
qed

lemma reads_star:
  assumes "inst_at rs (r, l) = Split (Suc l) (Suc j)" "inst_at rs (r, j) = Jump l" "code_reads_in rs N r (Suc l) L j"
  shows "code_reads_in rs N r l (\<lambda>u. \<exists>us. u = concat us \<and> list_all L us) (Suc j)"
proof -
  have "\<exists>m \<le> n. \<exists>us v. w = concat us @ v \<and> list_all L us \<and> run rs m (fs @ [(r, Suc j)]) v st"
    if "n \<le> N" "run rs n (fs @ [(r, l)]) w st" "final rs st" for n fs w st
    using that
  proof (induction n arbitrary: w rule: less_induct)
    case (less n)
    from run_top(1) [OF less.prems(2,3) assms(1)] obtain m where
      m: "m < n" "run rs m (fs @ [(r, Suc l)]) w st \<or> run rs m (fs @ [(r, Suc j)]) w st" by blast
    from m(2) show ?case
    proof
      assume "run rs m (fs @ [(r, Suc j)]) w st"
      then show ?thesis using m(1) by (intro exI [of _ m] conjI exI [of _ "[]"] exI [of _ w]) auto
    next
      assume "run rs m (fs @ [(r, Suc l)]) w st"
      moreover have "m \<le> N" using m(1) less.prems(1) by simp
      ultimately obtain k u v where k: "k \<le> m" "w = u @ v" "L u" "run rs k (fs @ [(r, j)]) v st"
        using code_reads_inD [OF assms(3) _ less.prems(3)] by blast
      from run_top(2) [OF k(4) less.prems(3) assms(2)] obtain i where i: "i < k" "run rs i (fs @ [(r, l)]) v st" by blast
      have "i < n" "i \<le> N" using i k(1) m(1) less.prems(1) by simp_all
      from less.IH [OF this i(2) less.prems(3)] obtain m' us v' where
        "m' \<le> i" "v = concat us @ v'" "list_all L us" "run rs m' (fs @ [(r, Suc j)]) v' st" by blast
      then show ?thesis using k \<open>i < n\<close>
        by (intro exI [of _ m'] conjI exI [of _ "u # us"] exI [of _ v']) auto
    qed
  qed
  note star = this
  show ?thesis
  proof (rule readsI)
    fix n fs w st assume "n \<le> N" "run rs n (fs @ [(r, l)]) w st" "final rs st"
    from star [OF this] obtain m us v where "m \<le> n" "w = concat us @ v" "list_all L us" "run rs m (fs @ [(r, Suc j)]) v st"
      by blast
    then show "\<exists>m \<le> n. \<exists>u v. w = u @ v \<and> (\<exists>us. u = concat us \<and> list_all L us) \<and> run rs m (fs @ [(r, Suc j)]) v st"
      by (intro exI [of _ m] conjI exI [of _ "concat us"] exI [of _ v] exI [of _ us]) auto
  qed
qed

text \<open>A call reads what the callee reads, in fewer steps.\<close>

lemma reads_call:
  assumes "inst_at rs (r, a) = Call q" "\<And>M. M < N \<Longrightarrow> code_reads_in rs M q 0 L e" "inst_at rs (q, e) = Ret"
  shows "code_reads_in rs N r a L (Suc a)"
proof (rule readsI)
  fix n fs w st assume n: "n \<le> N" and run: "run rs n (fs @ [(r, a)]) w st" and fin: "final rs st"
  from run_top(3) [OF run fin assms(1)] obtain m where
    m: "m < n" "run rs m ((fs @ [(r, Suc a)]) @ [(q, 0)]) w st" by blast
  have "code_reads_in rs m q 0 L e" using assms(2) m(1) n by simp
  from code_reads_inD [OF this m(2) fin order_refl] obtain k u v where
    k: "k \<le> m" "w = u @ v" "L u" "run rs k ((fs @ [(r, Suc a)]) @ [(q, e)]) v st" .
  from run_top(4) [OF k(4) fin assms(3)] obtain i where "i < k" "run rs i (fs @ [(r, Suc a)]) v st" by auto
  then show "\<exists>m \<le> n. \<exists>u v. w = u @ v \<and> L u \<and> run rs m (fs @ [(r, Suc a)]) v st"
    using k m(1) by (intro exI [of _ i] conjI exI [of _ u] exI [of _ v]) auto
qed

lemma derives_all_append: "derives_all rules xs u \<Longrightarrow> derives_all rules ys v \<Longrightarrow> derives_all rules (xs @ ys) (u @ v)"
proof (induction xs arbitrary: u)
  case Nil
  then show ?case by (auto elim: derives_all.cases)
next
  case (Cons x xs)
  from Cons.prems(1) obtain a b where "u = a @ b" "derives rules x a" "derives_all rules xs b" by (auto elim: derives_all.cases)
  then show ?case using Cons.IH [of b] Cons.prems(2) by (auto intro: d_cons)
qed

lemma derives_all_copies: "list_all (derives rules inner) us \<Longrightarrow> derives_all rules (replicate (length us) inner) (concat us)"
  by (induction us) (auto intro: derives_derives_all.intros)

lemma reads_str:
  assumes "\<And>i. i < length cps \<Longrightarrow> rs ! r ! (a + i) = ICp (cps ! i)"
  shows "code_reads_in rs N r a (\<lambda>u. u = cps) (a + length cps)"
  using assms
proof (induction cps arbitrary: a)
  case Nil
  then show ?case by (simp add: reads_empty)
next
  case (Cons c cps)
  have i: "inst_at rs (r, a) = ICp c" using Cons.prems [of 0] by (simp add: inst_at_def)
  have 1: "code_reads_in rs N r a (\<lambda>u. u = [c]) (Suc a)"
    by (rule reads_eat) (simp_all add: i flow_def inst_matches_def)
  have 2: "code_reads_in rs N r (Suc a) (\<lambda>u. u = cps) (Suc a + length cps)"
    by (rule Cons.IH) (use Cons.prems [of "Suc i" for i] in simp)
  show ?case using reads_trans [OF 1 2, of "\<lambda>u. u = c # cps"] by simp
qed

lemma code_reads_step:
  assumes "compiled rules ids rs"
    and IH: "\<And>M q a node b. M < N \<Longrightarrow> code_at ids (rs ! q) a node b \<Longrightarrow> code_reads_in rs M q a (derives rules node) b"
  shows "code_at ids (rs ! r) a node b \<Longrightarrow> code_reads_in rs N r a (derives rules node) b"
    and "code_all ids (rs ! r) a items b \<Longrightarrow> code_reads_in rs N r a (derives_all rules items) b"
    and "code_alt ids (rs ! r) a branches b \<Longrightarrow> code_reads_in rs N r a (\<lambda>u. \<exists>x \<in> set branches. derives rules x u) b"
    and "code_opts ids (rs ! r) a k inner b \<Longrightarrow> code_reads_in rs N r a (\<lambda>u. \<exists>i \<le> k. derives_all rules (replicate i inner) u) b"
proof (induction rule: code_at_code_all_code_alt_code_opts.inducts)
  case (c_str cps a)
  show ?case by (rule reads_mono [OF reads_str [OF c_str]]) (simp_all add: d_str)
next
  case (c_class a negated ranges)
  then show ?case by (intro reads_eat) (auto simp: inst_at_def flow_def inst_matches_def intro: d_class)
next
  case (c_any a)
  then show ?case by (intro reads_eat) (auto simp: inst_at_def flow_def inst_matches_def intro: d_any)
next
  case (c_ref a q name)
  from c_ref(2) assms(1) obtain body e where e: "map_of rules name = Some body" "code_at ids (rs ! q) 0 body e"
      "rs ! q ! e = Ret" unfolding compiled_def by blast
  have "code_reads_in rs N r a (derives rules body) (Suc a)"
    by (rule reads_call [of rs r a q N _ e]) (use c_ref(1) e IH in \<open>simp_all add: inst_at_def\<close>)
  then show ?case by (rule reads_mono) (rule d_ref [OF e(1)])
next
  case (c_seq a items b)
  from c_seq(2) show ?case by (rule reads_mono) (rule d_seq)
next
  case (c_alt a branches b)
  from c_alt(2) show ?case by (rule reads_mono) (auto intro: d_alt)
next
  case (c_star a m inner l j)
  have "code_reads_in rs N r l (\<lambda>u. \<exists>us. u = concat us \<and> list_all (derives rules inner) us) (Suc j)"
    using c_star by (intro reads_star) (simp_all add: inst_at_def)
  then show ?case
  proof (rule reads_trans [OF c_star(2)])
    fix u v assume u: "derives_all rules (replicate m inner) u" and "\<exists>us. v = concat us \<and> list_all (derives rules inner) us"
    then obtain us where v: "v = concat us" "list_all (derives rules inner) us" by blast
    have "derives_all rules (replicate (m + length us) inner) (u @ v)"
      unfolding replicate_add v(1) by (rule derives_all_append [OF u derives_all_copies [OF v(2)]])
    then show "derives rules (NRep inner m None) (u @ v)" by (intro d_rep [of m "m + length us"]) simp_all
  qed
next
  case (c_opts a m inner l t b)
  show ?case
  proof (rule reads_trans [OF c_opts(2,4)])
    fix u v assume u: "derives_all rules (replicate m inner) u" and "\<exists>i \<le> t - m. derives_all rules (replicate i inner) v"
    then obtain i where i: "i \<le> t - m" "derives_all rules (replicate i inner) v" by blast
    have "derives_all rules (replicate (m + i) inner) (u @ v)"
      using derives_all_append [OF u i(2)] by (simp add: replicate_add)
    then show "derives rules (NRep inner m (Some t)) (u @ v)" 
      using i(1) c_opts(5) by (intro d_rep [of m "m + i"]) simp_all
  qed
next
  case (c_nil a)
  show ?case by (rule reads_empty) (rule d_nil)
next
  case (c_cons a it b items c)
  show ?case by (rule reads_trans [OF c_cons(2,4)]) (rule d_cons)
next
  case (c_last a branch e)
  from c_last(2) show ?case by (rule reads_mono) simp
next
  case (c_branch a j branch e branches)
  have i: "inst_at rs (r, a) = Split (Suc a) (Suc j)" "inst_at rs (r, j) = Jump e"
    using c_branch by (simp_all add: inst_at_def)
  have j: "code_reads_in rs N r j (\<lambda>u. u = []) e" by (rule reads_jump [OF i(2)]) simp
  have "code_reads_in rs N r (Suc a) (\<lambda>u. \<exists>x \<in> set (branch # branches). derives rules x u) e"
    by (rule reads_trans [OF c_branch(3) j]) simp
  moreover have "code_reads_in rs N r (Suc j) (\<lambda>u. \<exists>x \<in> set (branch # branches). derives rules x u) e"
    by (rule reads_mono [OF c_branch(6)]) auto
  ultimately show ?case by (rule reads_split [OF i(1)])
next
  case (c_opt0 a inner)
  show ?case by (rule reads_empty) (auto intro: d_nil)
next
  case (c_optS a j inner k b)
  have i: "inst_at rs (r, a) = Split (Suc a) j" using c_optS by (simp add: inst_at_def)
  have "code_reads_in rs N r (Suc a) (\<lambda>u. \<exists>i \<le> Suc k. derives_all rules (replicate i inner) u) b"
  proof (rule reads_trans [OF c_optS(3,5)])
    fix u v assume u: "derives rules inner u" and "\<exists>i \<le> k. derives_all rules (replicate i inner) v"
    then obtain i where "i \<le> k" "derives_all rules (replicate i inner) v" by blast
    then show "\<exists>i \<le> Suc k. derives_all rules (replicate i inner) (u @ v)"
      using d_cons [OF u] by (intro exI [of _ "Suc i"]) simp
  qed
  moreover have "code_reads_in rs N r j (\<lambda>u. \<exists>i \<le> Suc k. derives_all rules (replicate i inner) u) b"
    by (rule reads_mono [OF c_optS(5)]) (auto intro: le_SucI)
  ultimately show ?case by (rule reads_split [OF i])
qed

lemma code_reads:
  assumes "compiled rules ids rs"
  shows "code_at ids (rs ! r) a node b \<Longrightarrow> code_reads_in rs N r a (derives rules node) b"
proof (induction N arbitrary: r a node b rule: less_induct)
  case (less N)
  from code_reads_step(1) [OF assms less.IH less.prems] show ?case by blast
qed

section \<open>The program accepts the language of its rules\<close>

theorem compiled_language:
  assumes "compiled rules ids rs" "ids name = Some r"
  shows "word_accepted rs r w \<longleftrightarrow> derives rules (NRef name) w"
proof -
  obtain body b where b: "map_of rules name = Some body" "code_at ids (rs ! r) 0 body b"
      "length (rs ! r) = Suc b" "rs ! r ! b = Ret" using assms unfolding compiled_def by blast
  show ?thesis
  proof
    assume "word_accepted rs r w"
    then obtain n pc where run: "run rs n ([] @ [(r, 0)]) w [(r, pc)]" and ret: "inst_at rs (r, pc) = Ret"
      by (auto simp: word_accepted_def runs_def)
    have fin: "final rs [(r, pc)]" using ret by (simp add: final_def)
    from code_reads_inD [OF code_reads [OF assms(1) b(2)] run fin order_refl] obtain m u v where
      m: "w = u @ v" "derives rules body u" "run rs m ([] @ [(r, b)]) v [(r, pc)]" by metis
    have "halted rs [(r, b)]" using b(4) by (simp add: halted_def flow_def inst_at_def)
    then have "v = []"
      using m(3) b(4) by (cases m) (auto elim!: run_0E run_SucE simp: inst_at_def inst_matches_def)
    then show "derives rules (NRef name) w" using m d_ref [OF b(1)] by simp
  next
    assume "derives rules (NRef name) w"
    then have "derives rules body w" using b(1) by (auto elim: derives.cases)
    from node_runsD [OF derives_runs(1) [OF assms(1) this] b(2), of "[]"]
    show "word_accepted rs r w" using b(4) by (auto simp: word_accepted_def inst_at_def)
  qed
qed

end
