(* ===== verification/Gbnf_Parse.thy ===== *)
theory Gbnf_Parse
  imports Gbnf_Emit
begin

text \<open>
  The GBNF parser (\<open>GbnfParser\<close> of \<open>src/grammar.rs\<close>) on the code points of the text: the state is
  the rest of the input, a method returns its result and the new rest. The recursive methods take a
  fuel that stands for the recursion and the loop iterations of the source; that the fuel given by
  \<open>parse\<close> never runs out is proved below.
\<close>

section \<open>Characters\<close>

text \<open>\<open>char::is_whitespace\<close>: the code points with the property \<open>White_Space\<close>.\<close>

definition is_whitespace :: "nat \<Rightarrow> bool" where
  "is_whitespace c \<longleftrightarrow> 0x09 \<le> c \<and> c \<le> 0x0D \<or> c = 0x20 \<or> c = 0x85 \<or> c = 0xA0 \<or> c = 0x1680 \<or>
     0x2000 \<le> c \<and> c \<le> 0x200A \<or> c = 0x2028 \<or> c = 0x2029 \<or> c = 0x202F \<or> c = 0x205F \<or> c = 0x3000"

definition ascii_digit :: "nat \<Rightarrow> bool" where
  "ascii_digit c \<longleftrightarrow> 48 \<le> c \<and> c \<le> 57"

definition is_alphabetic :: "nat \<Rightarrow> bool" where
  "is_alphabetic c \<longleftrightarrow> 65 \<le> c \<and> c \<le> 90 \<or> 97 \<le> c \<and> c \<le> 122"

definition is_hexdigit :: "nat \<Rightarrow> bool" where
  "is_hexdigit c \<longleftrightarrow> ascii_digit c \<or> 65 \<le> c \<and> c \<le> 70 \<or> 97 \<le> c \<and> c \<le> 102"

definition hex_value :: "nat \<Rightarrow> nat" where
  "hex_value c = (if ascii_digit c then c - 48 else if c \<le> 70 then c - 55 else c - 87)"

text \<open>The characters of a string literal of the source.\<close>

definition chars :: "string \<Rightarrow> ustr" where
  "chars s = map of_char s"

abbreviation ch :: "char \<Rightarrow> nat" where
  "ch c \<equiv> of_char c"

section \<open>Tokens\<close>

fun skip_line :: "ustr \<Rightarrow> ustr" where
  "skip_line [] = []"
| "skip_line (c # s) = (if c = 10 then s else skip_line s)"

lemma skip_line_length: "length (skip_line s) \<le> length s"
  by (induction s rule: skip_line.induct) auto

function skip_trivia :: "ustr \<Rightarrow> ustr" where
  "skip_trivia [] = []"
| "skip_trivia (c # s) =
     (if is_whitespace c then skip_trivia s
      else if c = ch CHR ''#'' then skip_trivia (skip_line s)
      else c # s)"
  by pat_completeness auto
termination
  by (relation "measure length") (auto simp: le_imp_less_Suc skip_line_length)

definition ident_start :: "nat \<Rightarrow> bool" where
  "ident_start c \<longleftrightarrow> is_alphabetic c \<or> c = ch CHR ''_''"

definition ident_char :: "nat \<Rightarrow> bool" where
  "ident_char c \<longleftrightarrow> is_alphabetic c \<or> ascii_digit c \<or> c = ch CHR ''_'' \<or> c = ch CHR ''-''"

definition expect_str :: "ustr \<Rightarrow> ustr \<Rightarrow> (gbnf_error, ustr) res" where
  "expect_str lit s = (if take (length lit) s = lit then Ok (drop (length lit) s) else Err (ExpectedText lit))"

definition ident :: "ustr \<Rightarrow> (gbnf_error, ustr \<times> ustr) res" where
  "ident s = (case s of
     c # s' \<Rightarrow> if ident_start c then Ok (c # takeWhile ident_char s', dropWhile ident_char s') else Err ExpectedRuleName
   | [] \<Rightarrow> Err ExpectedRuleName)"

text \<open>
  The trivia of \<open>at_rule_boundary\<close> is read bytewise: only ASCII white space counts, since the first
  byte of any other character is no white space.
\<close>

definition is_ascii_space :: "nat \<Rightarrow> bool" where
  "is_ascii_space c \<longleftrightarrow> 0x09 \<le> c \<and> c \<le> 0x0D \<or> c = 0x20"

function skip_trivia_bytes :: "ustr \<Rightarrow> ustr" where
  "skip_trivia_bytes [] = []"
| "skip_trivia_bytes (c # s) =
     (if is_ascii_space c then skip_trivia_bytes s
      else if c = ch CHR ''#'' then skip_trivia_bytes (dropWhile (\<lambda>d. d \<noteq> 10) s)
      else c # s)"
  by pat_completeness auto
termination
  by (relation "measure length") (auto simp: le_imp_less_Suc length_dropWhile_le)

definition at_rule_boundary :: "ustr \<Rightarrow> bool" where
  "at_rule_boundary s = (case s of
     c # s' \<Rightarrow> ident_start c \<and>
       take 3 (skip_trivia_bytes (dropWhile ident_char s)) = chars ''::=''
   | [] \<Rightarrow> False)"

definition number :: "ustr \<Rightarrow> (gbnf_error, nat \<times> ustr) res" where
  "number s =
     (let ds = takeWhile ascii_digit s; n = foldl (\<lambda>n d. n * 10 + (d - 48)) 0 ds in
      if ds = [] then Err ExpectedNumber
      else if n < 2 ^ 64 then Ok (n, dropWhile ascii_digit s) else Err (NumberTooLarge ds))"

section \<open>Escapes and classes\<close>

definition hex :: "nat \<Rightarrow> ustr \<Rightarrow> (gbnf_error, nat \<times> ustr) res" where
  "hex n s =
     (if length (takeWhile is_hexdigit (take n s)) = n
      then Ok (foldl (\<lambda>v d. v * 16 + hex_value d) 0 (take n s), drop n s) else Err (ExpectedHex n))"

definition escape :: "ustr \<Rightarrow> (gbnf_error, nat \<times> ustr) res" where
  "escape s = (case s of
     [] \<Rightarrow> Err UnterminatedEscape
   | c # s' \<Rightarrow>
       if c = ch CHR ''n'' then Ok (10, s')
       else if c = ch CHR ''r'' then Ok (13, s')
       else if c = ch CHR ''t'' then Ok (9, s')
       else if c \<in> {92, 34, 39, 91, 93, 45, 94, 47} then Ok (c, s')
       else if c = ch CHR ''x'' then hex 2 s'
       else if c = ch CHR ''u'' then hex 4 s'
       else Err (UnsupportedEscape c))"

text \<open>\<open>class_shorthand\<close> of the rest after a backslash; \<open>None\<close> if it is no shorthand.\<close>

definition class_shorthand :: "ustr \<Rightarrow> (gbnf_error, ((nat \<times> nat) list \<times> ustr) option) res" where
  "class_shorthand s =
     (let ranges = (case s of
          [] \<Rightarrow> None
        | c # _ \<Rightarrow>
            if c = ch CHR ''d'' then Some [(48, 57)]
            else if c = ch CHR ''w'' then Some [(48, 57), (65, 90), (95, 95), (97, 122)]
            else if c = ch CHR ''s'' then Some [(9, 13), (32, 32)]
            else None) in
      case ranges of
        None \<Rightarrow> Ok None
      | Some rs \<Rightarrow>
          (case tl s of
             d # e # _ \<Rightarrow> if d = ch CHR ''-'' \<and> e \<noteq> ch CHR '']'' then Err ShorthandEndpoint else Ok (Some (rs, tl s))
           | _ \<Rightarrow> Ok (Some (rs, tl s))))"

definition push_range :: "(nat \<times> nat) list \<Rightarrow> nat \<Rightarrow> nat \<Rightarrow> (gbnf_error, (nat \<times> nat) list) res" where
  "push_range ranges lo hi = (if hi < lo then Err (ReversedRange lo hi) else Ok (ranges @ [(lo, hi)]))"

definition push_class_item :: "(nat \<times> nat) list \<Rightarrow> nat \<Rightarrow> ustr \<Rightarrow> (gbnf_error, (nat \<times> nat) list \<times> ustr) res" where
  "push_class_item ranges lo s = (case s of
     c # s' \<Rightarrow>
       if c \<noteq> ch CHR ''-'' then Ok (ranges @ [(lo, lo)], s)
       else (case s' of
          [] \<Rightarrow> Ok (ranges @ [(lo, lo), (45, 45)], s')
        | d # s'' \<Rightarrow>
            if d = ch CHR '']'' then Ok (ranges @ [(lo, lo), (45, 45)], s')
            else if d = 92 then
              and_then (escape s'') (\<lambda>(hi, r). and_then (push_range ranges lo hi) (\<lambda>ranges'. Ok (ranges', r)))
            else and_then (push_range ranges lo (as_u32 d)) (\<lambda>ranges'. Ok (ranges', s'')))
   | [] \<Rightarrow> Ok (ranges @ [(lo, lo)], s))"

lemma hex_length: "hex n s = Ok (v, r) \<Longrightarrow> length r \<le> length s"
  by (auto simp: hex_def split: if_splits)

lemma escape_length: "escape s = Ok (v, r) \<Longrightarrow> length r < length s"
  by (auto simp: escape_def le_imp_less_Suc dest!: hex_length split: list.splits if_splits)

lemma push_class_item_length: "push_class_item ranges lo s = Ok (ranges', r) \<Longrightarrow> length r \<le> length s"
  by (auto simp: push_class_item_def and_then_eq_Inr dest!: escape_length split: list.splits if_splits)

lemma class_shorthand_length: "class_shorthand s = Ok (Some (rs, r)) \<Longrightarrow> length r < length s"
  by (auto simp: class_shorthand_def Let_def split: list.splits if_splits option.splits)

function class_loop :: "(nat \<times> nat) list \<Rightarrow> ustr \<Rightarrow> (gbnf_error, (nat \<times> nat) list \<times> ustr) res" where
  "class_loop ranges [] = Err UnterminatedClass"
| "class_loop ranges (c # s) =
     (if c = ch CHR '']'' then Ok (ranges, s)
      else if c = 92 then
        (case class_shorthand s of
           Inl e \<Rightarrow> Err e
         | Inr (Some (short, r)) \<Rightarrow> class_loop (ranges @ short) r
         | Inr None \<Rightarrow>
             (case escape s of
                Inl e \<Rightarrow> Err e
              | Inr (lo, r) \<Rightarrow>
                  (case push_class_item ranges lo r of
                     Inl e \<Rightarrow> Err e
                   | Inr (ranges', r') \<Rightarrow> class_loop ranges' r')))
      else
        (case push_class_item ranges (as_u32 c) s of
           Inl e \<Rightarrow> Err e
         | Inr (ranges', r) \<Rightarrow> class_loop ranges' r))"
  by pat_completeness auto
termination
  by (relation "measure (\<lambda>(ranges, s). length s)")
     (auto dest!: class_shorthand_length escape_length push_class_item_length)

definition char_class :: "ustr \<Rightarrow> (gbnf_error, Node \<times> ustr) res" where
  "char_class s =
     (let negated = (case s of c # _ \<Rightarrow> c = ch CHR ''^'' | [] \<Rightarrow> False) in
      and_then (class_loop [] (if negated then tl s else s)) (\<lambda>(ranges, r).
        if ranges = [] then Err EmptyClass else Ok (NClass negated (sort ranges), r)))"

text \<open>The loop of a string literal, after its opening quote.\<close>

function string_loop :: "nat list \<Rightarrow> ustr \<Rightarrow> (gbnf_error, nat list \<times> ustr) res" where
  "string_loop cps [] = Err UnterminatedString"
| "string_loop cps (c # s) =
     (if c = 34 then Ok (cps, s)
      else if c = 92 then
        (case escape s of Inl e \<Rightarrow> Err e | Inr (cp, r) \<Rightarrow> string_loop (cps @ [cp]) r)
      else string_loop (cps @ [as_u32 c]) s)"
  by pat_completeness auto
termination
  by (relation "measure (\<lambda>(cps, s). length s)") (auto dest!: escape_length)

section \<open>Repetitions\<close>

text \<open>The rest of a repetition after its opening brace: the counts and their checks.\<close>

definition repetition :: "ustr \<Rightarrow> (gbnf_error, (nat \<times> nat option) \<times> ustr) res" where
  "repetition s =
     and_then (number s) (\<lambda>(m, r).
     and_then
       (case skip_trivia r of
          c # r2 \<Rightarrow>
            if c = ch CHR '','' then
              (case skip_trivia r2 of
                 d # r3 \<Rightarrow> if d = ch CHR ''}'' then Ok (None, d # r3)
                           else and_then (number (d # r3)) (\<lambda>(k, r4). Ok (Some k, r4))
               | [] \<Rightarrow> and_then (number []) (\<lambda>(k, r4). Ok (Some k, r4)))
            else Ok (Some m, c # r2)
        | [] \<Rightarrow> Ok (Some m, [])) (\<lambda>(n, r5).
     case skip_trivia r5 of
       c # r6 \<Rightarrow>
         if c = ch CHR ''}'' then
           (case n of
              None \<Rightarrow> Ok ((m, None), r6)
            | Some k \<Rightarrow> if k < m then Err (RepetitionReversed m k)
                        else if k > MAX_REPEAT then Err (RepetitionTooLarge k)
                        else Ok ((m, Some k), r6))
         else Err RepetitionNotClosed
     | [] \<Rightarrow> Err RepetitionNotClosed))"

section \<open>The recursive descent\<close>

definition wrap_alt :: "Node list \<Rightarrow> Node" where
  "wrap_alt branches = (if length branches = 1 then hd branches else NAlt branches)"

definition wrap_seq :: "Node list \<Rightarrow> Node" where
  "wrap_seq items = (if length items = 1 then hd items else NSeq items)"

text \<open>
  The methods are written over the parser \<open>alt\<close> that a group calls, which is \<open>alternation\<close> with
  one level of nesting less; a loop takes the fuel of its iterations, each of which reads a character.
\<close>

primrec item_loop :: "nat \<Rightarrow> Node \<Rightarrow> ustr \<Rightarrow> (gbnf_error, Node \<times> ustr) res" where
  "item_loop 0 node s = Err OutOfFuel"
| "item_loop (Suc f) node s =
     (case skip_trivia s of
        c # r \<Rightarrow>
          if c = ch CHR ''*'' then item_loop f (NRep node 0 None) r
          else if c = ch CHR ''+'' then item_loop f (NRep node 1 None) r
          else if c = ch CHR ''?'' then item_loop f (NRep node 0 (Some 1)) r
          else if c = ch CHR ''{'' then and_then (repetition r) (\<lambda>((m, n), r'). item_loop f (NRep node m n) r')
          else Ok (node, c # r)
      | [] \<Rightarrow> Ok (node, []))"

type_synonym parser = "ustr \<Rightarrow> (gbnf_error, Node \<times> ustr) res"

definition atom :: "parser \<Rightarrow> parser" where
  "atom alt s =
     (case skip_trivia s of
        c # r \<Rightarrow>
          if c = ch CHR ''('' then
            and_then (alt r) (\<lambda>(inner, r').
              case skip_trivia r' of
                d # r'' \<Rightarrow> if d = ch CHR '')'' then Ok (inner, r'') else Err MissingParen
              | [] \<Rightarrow> Err MissingParen)
          else if c = 34 then and_then (string_loop [] r) (\<lambda>(cps, r'). Ok (NStr cps, r'))
          else if c = ch CHR ''['' then char_class r
          else if c = ch CHR ''.'' then Ok (NAny, r)
          else if ident_start c then and_then (ident (c # r)) (\<lambda>(name, r'). Ok (NRef name, r'))
          else Err ExpectedAtom
      | [] \<Rightarrow> Err ExpectedAtom)"

definition item :: "parser \<Rightarrow> parser" where
  "item alt s = and_then (atom alt s) (\<lambda>(n, r). item_loop (Suc (length r)) n r)"

primrec seq_loop :: "parser \<Rightarrow> nat \<Rightarrow> Node list \<Rightarrow> ustr \<Rightarrow> (gbnf_error, Node \<times> ustr) res" where
  "seq_loop alt 0 items s = Err OutOfFuel"
| "seq_loop alt (Suc f) items s =
     (let s1 = skip_trivia s in
      if at_rule_boundary s1 then Ok (wrap_seq items, s1)
      else (case s1 of
              [] \<Rightarrow> Ok (wrap_seq items, s1)
            | c # r \<Rightarrow> if c = ch CHR ''|'' \<or> c = ch CHR '')'' then Ok (wrap_seq items, s1)
                       else and_then (item alt s1) (\<lambda>(n, r'). seq_loop alt f (items @ [n]) r')))"

definition sequence :: "parser \<Rightarrow> parser" where
  "sequence alt s = seq_loop alt (Suc (length s)) [] s"

primrec alt_loop :: "parser \<Rightarrow> nat \<Rightarrow> Node list \<Rightarrow> ustr \<Rightarrow> (gbnf_error, Node \<times> ustr) res" where
  "alt_loop alt 0 branches s = Err OutOfFuel"
| "alt_loop alt (Suc f) branches s =
     (case skip_trivia s of
        c # r \<Rightarrow>
          if c = ch CHR ''|'' then and_then (sequence alt r) (\<lambda>(n, r'). alt_loop alt f (branches @ [n]) r')
          else Ok (wrap_alt branches, c # r)
      | [] \<Rightarrow> Ok (wrap_alt branches, []))"

primrec alternation :: "nat \<Rightarrow> parser" where
  "alternation 0 s = Err OutOfFuel"
| "alternation (Suc f) s =
     and_then (sequence (alternation f) s) (\<lambda>(n, r). alt_loop (alternation f) (Suc (length r)) [n] r)"

text \<open>The loop over the rules; an iteration reads at least the name of a rule.\<close>

fun parse_loop :: "nat \<Rightarrow> (ustr \<times> Node) list \<Rightarrow> ustr \<Rightarrow> (gbnf_error, (ustr \<times> Node) list) res" where
  "parse_loop 0 rules s = Err OutOfFuel"
| "parse_loop (Suc f) rules s =
     (let s1 = skip_trivia s in
      if s1 = [] then Ok rules
      else and_then (ident s1) (\<lambda>(name, r).
           and_then (expect_str (chars ''::='') (skip_trivia r)) (\<lambda>r2.
           and_then (alternation (Suc (length r2)) r2) (\<lambda>(body, r3).
           if \<exists>(n, _) \<in> set rules. n = name then Err (DuplicateRule name)
           else parse_loop f (rules @ [(name, body)]) r3))))"

fun check_all_refs :: "(ustr \<times> Node) list \<Rightarrow> (ustr \<times> Node) list \<Rightarrow> (gbnf_error, unit) res" where
  "check_all_refs [] rules = Ok ()"
| "check_all_refs ((name, node) # rest) rules = and_then (check_refs node rules name) (\<lambda>_. check_all_refs rest rules)"

definition parse :: "ustr \<Rightarrow> (gbnf_error, (ustr \<times> Node) list) res" where
  "parse source =
     and_then (parse_loop (Suc (length source)) [] source) (\<lambda>rules.
       if rules = [] then Err NoRules else and_then (check_all_refs rules rules) (\<lambda>_. Ok rules))"

end
