(* ===== verification/Gbnf_Parse_Inv.thy ===== *)
theory Gbnf_Parse_Inv
  imports Gbnf_Parse
begin

text \<open>
  The parser always answers: the fuel of every loop and of the recursion suffices, and what it
  accepts is a list of rules with distinct names, well-formed bodies and resolved references.
\<close>

section \<open>A result with a property, or a refusal\<close>

definition res_ok :: "('a \<Rightarrow> bool) \<Rightarrow> (gbnf_error, 'a) res \<Rightarrow> bool" where
  "res_ok P r = (case r of Inl e \<Rightarrow> e \<noteq> OutOfFuel | Inr x \<Rightarrow> P x)"

named_theorems res_rules \<open>results of the parser\<close>

lemma res_ok_simps [simp]: "res_ok P (Err e) \<longleftrightarrow> e \<noteq> OutOfFuel" "res_ok P (Ok x) \<longleftrightarrow> P x"
  by (simp_all add: res_ok_def)

lemma res_ok_bind: "res_ok Q m \<Longrightarrow> (\<And>x. Q x \<Longrightarrow> res_ok P (g x)) \<Longrightarrow> res_ok P (and_then m g)"
  by (cases m) auto

lemma res_ok_mono: "res_ok Q m \<Longrightarrow> (\<And>x. Q x \<Longrightarrow> P x) \<Longrightarrow> res_ok P m"
  by (cases m) auto

lemma skip_trivia_length: "length (skip_trivia s) \<le> length s"
proof (induction s rule: skip_trivia.induct)
  case (2 c s)
  then show ?case using skip_line_length [of s] by auto
qed simp

lemma skip_trivia_Cons: "skip_trivia s = c # r \<Longrightarrow> length r < length s"
  using skip_trivia_length [of s] by simp

section \<open>Tokens, escapes and classes\<close>

lemma number_ok [res_rules]: "res_ok (\<lambda>(n, r). length r < length s) (number s)"
proof -
  have "length (dropWhile ascii_digit s) < length s" if "takeWhile ascii_digit s \<noteq> []"
    using that arg_cong [OF takeWhile_dropWhile_id [of ascii_digit s], of length] by (cases "takeWhile ascii_digit s") (auto simp del: takeWhile_dropWhile_id)
  then show ?thesis by (auto simp: number_def Let_def)
qed

lemma ident_ok [res_rules]: "res_ok (\<lambda>(n, r). length r < length s) (ident s)"
  by (auto simp: ident_def le_imp_less_Suc length_dropWhile_le split: list.split)

lemma hex_value_bound: "is_hexdigit c \<Longrightarrow> hex_value c < 16"
  by (auto simp: is_hexdigit_def ascii_digit_def hex_value_def)

lemma hex_fold_bound:
  "\<forall>d \<in> set ds. is_hexdigit d \<Longrightarrow> foldl (\<lambda>v d. v * 16 + hex_value d) 0 ds < 16 ^ length ds"
proof (induction ds rule: rev_induct)
  case (snoc d ds)
  let ?v = "foldl (\<lambda>v d. v * 16 + hex_value d) 0 ds"
  have "?v + 1 \<le> 16 ^ length ds" using snoc by simp
  then have "(?v + 1) * 16 \<le> 16 ^ length ds * 16" by (rule mult_le_mono1)
  then show ?case using hex_value_bound [of d] snoc.prems by simp
qed simp

lemma hex_ok [res_rules]: "n \<le> 4 \<Longrightarrow> res_ok (\<lambda>(c, r). c < 2 ^ 32 \<and> length r \<le> length s) (hex n s)"
proof -
  assume n: "n \<le> 4"
  have "foldl (\<lambda>v d. v * 16 + hex_value d) 0 (take n s) < 2 ^ 32"
    if l: "length (takeWhile is_hexdigit (take n s)) = n"
  proof -
    have "takeWhile is_hexdigit (take n s) = take n s"
      using l by (metis length_take min.cobounded2 takeWhile_eq_take take_all)
    then have "\<forall>d \<in> set (take n s). is_hexdigit d" by (metis set_takeWhileD)
    from hex_fold_bound [OF this] have "foldl (\<lambda>v d. v * 16 + hex_value d) 0 (take n s) < 16 ^ length (take n s)" .
    also have "\<dots> \<le> 16 ^ 4" using n by (intro power_increasing) auto
    finally show ?thesis by simp
  qed
  then show ?thesis by (simp add: hex_def)
qed

lemma escape_ok [res_rules]: "res_ok (\<lambda>(c, r). c < 2 ^ 32 \<and> length r < length s) (escape s)"
proof (cases s)
  case (Cons c s')
  have h: "res_ok (\<lambda>(c, r). c < 2 ^ 32 \<and> length r < length s) (hex n s')" if "n \<le> 4" for n
    by (rule res_ok_mono [OF hex_ok [OF that]]) (auto simp: Cons)
  show ?thesis using h [of 2] h [of 4] by (auto simp: escape_def Cons)
qed (simp add: escape_def)

definition ranges_ok :: "(nat \<times> nat) list \<Rightarrow> bool" where
  "ranges_ok ranges \<longleftrightarrow> (\<forall>(a, b) \<in> set ranges. a \<le> b \<and> b < 2 ^ 32)"

lemma as_u32_bound [simp]: "as_u32 c < 2 ^ 32" "as_u32 c < 4294967296"
  by (simp_all add: as_u32_def)

lemma push_class_item_ok [res_rules]:
  "ranges_ok ranges \<Longrightarrow> lo < 2 ^ 32 \<Longrightarrow> res_ok (\<lambda>(rs, r). ranges_ok rs \<and> rs \<noteq> [] \<and> length r \<le> length s) (push_class_item ranges lo s)"
  unfolding push_class_item_def push_range_def
  by (auto simp: ranges_ok_def split: list.split intro!: res_ok_bind [OF escape_ok])

lemma class_shorthand_ok [res_rules]:
  "res_ok (\<lambda>x. case x of None \<Rightarrow> True | Some (rs, r) \<Rightarrow> ranges_ok rs \<and> length r < length s) (class_shorthand s)"
  by (auto simp: class_shorthand_def Let_def ranges_ok_def split: list.split)

lemma class_loop_ok:
  "ranges_ok ranges \<Longrightarrow> res_ok (\<lambda>(rs, r). ranges_ok rs \<and> length r < length s) (class_loop ranges s)"
proof (induction ranges s rule: class_loop.induct)
  case (2 ranges c s)
  have push: "res_ok (\<lambda>(rs, r). ranges_ok rs \<and> length r < length (c # s))
      (case push_class_item ranges lo r of Inl e \<Rightarrow> Err e | Inr (ranges', r') \<Rightarrow> class_loop ranges' r')"
    if IH: "\<And>ranges' r'. push_class_item ranges lo r = Ok (ranges', r') \<Longrightarrow> ranges_ok ranges' \<Longrightarrow>
        res_ok (\<lambda>(rs, q). ranges_ok rs \<and> length q < length r') (class_loop ranges' r')"
      and r: "length r \<le> length s" and lo: "lo < 2 ^ 32" for lo r
  proof (cases "push_class_item ranges lo r")
    case (Inl e)
    then show ?thesis using push_class_item_ok [OF "2.prems" lo, of r] by simp
  next
    case (Inr x)
    obtain ranges' r' where x: "x = (ranges', r')" by (cases x)
    have "ranges_ok ranges'" "length r' \<le> length r" using push_class_item_ok [OF "2.prems" lo, of r] Inr x by simp_all
    then show ?thesis using IH Inr x r by (auto elim!: res_ok_mono)
  qed
  consider (close) "c = ch CHR '']''" | (slash) "c \<noteq> ch CHR '']''" "c = 92" | (plain) "c \<noteq> ch CHR '']''" "c \<noteq> 92" by blast
  then show ?case
  proof cases
    case close
    then show ?thesis using "2.prems" by simp
  next
    case plain
    have "res_ok (\<lambda>(rs, r). ranges_ok rs \<and> length r < length (c # s))
      (case push_class_item ranges (as_u32 c) s of Inl e \<Rightarrow> Err e | Inr (ranges', r') \<Rightarrow> class_loop ranges' r')"
      by (rule push) (use "2.IH"(3) [OF plain] in auto)
    then show ?thesis using plain by simp
  next
    case slash
    show ?thesis
    proof (cases "class_shorthand s")
      case (Inl e)
      then show ?thesis using slash class_shorthand_ok [of s] by simp
    next
      case (Inr x)
      show ?thesis
      proof (cases x)
        case None
        show ?thesis
        proof (cases "escape s")
          case (Inl e)
          then show ?thesis using slash Inr None escape_ok [of s] by simp
        next
          case e: (Inr y)
          obtain lo r where y: "y = (lo, r)" by (cases y)
          have "length r \<le> length s" "lo < 2 ^ 32" using escape_ok [of s] e y by simp_all
          then have "res_ok (\<lambda>(rs, r). ranges_ok rs \<and> length r < length (c # s))
            (case push_class_item ranges lo r of Inl e \<Rightarrow> Err e | Inr (ranges', r') \<Rightarrow> class_loop ranges' r')"
            by (intro push) (use "2.IH"(1) [OF slash Inr None e] y in auto)
          then show ?thesis using slash Inr None e y by simp
        qed
      next
        case (Some z)
        obtain short r where z: "z = (short, r)" by (cases z)
        have r: "ranges_ok short" "length r < length s" using class_shorthand_ok [of s] Inr Some z by simp_all
        then have "ranges_ok (ranges @ short)" using "2.prems" by (auto simp: ranges_ok_def)
        then have "res_ok (\<lambda>(rs, q). ranges_ok rs \<and> length q < length r) (class_loop (ranges @ short) r)"
          using "2.IH"(2) [OF slash Inr] Some z by simp
        then have "res_ok (\<lambda>(rs, q). ranges_ok rs \<and> length q < length (c # s)) (class_loop (ranges @ short) r)"
          by (rule res_ok_mono) (use r in auto)
        then show ?thesis using slash Inr Some z by simp
      qed
    qed
  qed
qed simp

lemma sorted_fst_sort: "sorted (map fst (sort (ranges :: (nat \<times> nat) list)))"
proof -
  have "sorted xs \<Longrightarrow> sorted (map fst xs)" for xs :: "(nat \<times> nat) list"
    by (induction xs) (auto simp: less_eq_prod_def)
  then show ?thesis by simp
qed

lemma sort_Nil: "sort xs = [] \<longleftrightarrow> xs = []"
  by (metis length_0_conv length_sort)

lemma char_class_ok [res_rules]: "res_ok (\<lambda>(n, r). node_ok n \<and> length r \<le> length s) (char_class s)"
proof -
  have *: "res_ok (\<lambda>(n, r). node_ok n \<and> length r \<le> length s)
      (and_then (class_loop [] t) (\<lambda>(ranges, r). if ranges = [] then Err EmptyClass else Ok (NClass neg (sort ranges), r)))"
    if "length t \<le> length s" for neg t
  proof (rule res_ok_bind [OF class_loop_ok])
    fix x assume "case x of (rs, r) \<Rightarrow> ranges_ok rs \<and> length r < length t"
    then show "res_ok (\<lambda>(n, r). node_ok n \<and> length r \<le> length s)
        (case x of (ranges, r) \<Rightarrow> if ranges = [] then Err EmptyClass else Ok (NClass neg (sort ranges), r))"
      using that by (cases x) (auto simp: ranges_ok_def sorted_fst_sort sort_Nil)
  qed (simp add: ranges_ok_def)
  show ?thesis unfolding char_class_def Let_def by (rule *) simp
qed

lemma string_loop_ok:
  "\<forall>c \<in> set cps. c < 2 ^ 32 \<Longrightarrow> res_ok (\<lambda>(n, r). (\<forall>c \<in> set n. c < 2 ^ 32) \<and> length r < length s) (string_loop cps s)"
proof (induction cps s rule: string_loop.induct)
  case (2 cps c s)
  show ?case
  proof (cases "c = 34 \<or> c \<noteq> 92")
    case True
    have "\<forall>d \<in> set (cps @ [as_u32 c]). d < 2 ^ 32" using "2.prems" as_u32_bound by simp
    then show ?thesis using True "2.IH"(2) "2.prems" by (auto elim!: res_ok_mono)
  next
    case False
    show ?thesis
    proof (cases "escape s")
      case (Inl e)
      then show ?thesis using False escape_ok [of s] by simp
    next
      case (Inr x)
      obtain cp r where x: "x = (cp, r)" by (cases x)
      have "length r < length s" "cp < 2 ^ 32" using escape_ok [of s] Inr x by simp_all
      then show ?thesis using False "2.IH"(1) [OF _ _ Inr] Inr x "2.prems" by (auto elim!: res_ok_mono)
    qed
  qed
qed simp

section \<open>The recursive descent\<close>

lemma repetition_ok [res_rules]:
  "res_ok (\<lambda>((m, n), r). (\<forall>k. n = Some k \<longrightarrow> m \<le> k \<and> k \<le> MAX_REPEAT) \<and> length r < length s) (repetition s)"
proof -
  have *: "res_ok (\<lambda>(n, r'). length r' \<le> length r)
      (case skip_trivia r of
          c # r2 \<Rightarrow>
            if c = ch CHR '','' then
              (case skip_trivia r2 of
                 d # r3 \<Rightarrow> if d = ch CHR ''}'' then Ok (None, d # r3)
                           else and_then (number (d # r3)) (\<lambda>(k, r4). Ok (Some k, r4))
               | [] \<Rightarrow> and_then (number []) (\<lambda>(k, r4). Ok (Some k, r4)))
            else Ok (Some m, c # r2)
        | [] \<Rightarrow> Ok (Some m, []))" for r m
  proof (cases "skip_trivia r")
    case (Cons c r2)
    note l = skip_trivia_Cons [OF Cons]
    have "res_ok (\<lambda>(n, r'). length r' \<le> length r) (and_then (number t) (\<lambda>(k, r4). Ok (Some k, r4)))"
      if "length t \<le> length r" for t
      by (rule res_ok_bind [OF number_ok]) (use that in auto)
    then show ?thesis using Cons l skip_trivia_length [of r2] skip_trivia_Cons [of r2]
      by (auto split: list.split)
  qed simp
  have "res_ok (\<lambda>((m, n), r). (\<forall>k. n = Some k \<longrightarrow> m \<le> k \<and> k \<le> MAX_REPEAT) \<and> length r < length s)
     (case skip_trivia r5 of
       c # r6 \<Rightarrow>
         if c = ch CHR ''}'' then
           (case n of
              None \<Rightarrow> Ok ((m, None), r6)
            | Some k \<Rightarrow> if k < m then Err (RepetitionReversed m k)
                        else if k > MAX_REPEAT then Err (RepetitionTooLarge k)
                        else Ok ((m, Some k), r6))
         else Err RepetitionNotClosed
     | [] \<Rightarrow> Err RepetitionNotClosed)" if "length r5 < length s" for r5 m n
    using that skip_trivia_Cons [of r5] by (auto split: list.split option.split)
  then show ?thesis unfolding repetition_def
    by (intro res_ok_bind [OF number_ok]) (auto intro!: res_ok_bind [OF *])
qed

lemma item_loop_ok:
  "length s < f \<Longrightarrow> node_ok node \<Longrightarrow> res_ok (\<lambda>(n, r). node_ok n \<and> length r \<le> length s) (item_loop f node s)"
proof (induction f arbitrary: node s)
  case (Suc f)
  show ?case
  proof (cases "skip_trivia s")
    case (Cons c r)
    have r: "length r < length s" using skip_trivia_Cons [OF Cons] .
    have go: "res_ok (\<lambda>(n, q). node_ok n \<and> length q \<le> length s) (item_loop f (NRep node m k) t)"
      if "length t \<le> length r" "\<forall>j. k = Some j \<longrightarrow> m \<le> j \<and> j \<le> MAX_REPEAT" for m k t
      by (rule res_ok_mono [OF Suc.IH]) (use that r Suc.prems in \<open>auto split: option.split\<close>)
    have "res_ok (\<lambda>(n, q). node_ok n \<and> length q \<le> length s)
        (and_then (repetition r) (\<lambda>((m, n), r'). item_loop f (NRep node m n) r'))"
      by (rule res_ok_bind [OF repetition_ok]) (auto intro!: go)
    then show ?thesis using Cons r Suc.prems go [of r] by (auto simp: MAX_REPEAT_def)
  qed (use Suc.prems in simp)
qed simp

definition adequate :: "parser \<Rightarrow> nat \<Rightarrow> bool" where
  "adequate alt k \<longleftrightarrow> (\<forall>s. length s < k \<longrightarrow> res_ok (\<lambda>(n, r). node_ok n \<and> length r \<le> length s) (alt s))"

lemma adequate_mono: "adequate alt k \<Longrightarrow> j \<le> k \<Longrightarrow> adequate alt j"
  by (auto simp: adequate_def)

lemma atom_ok:
  assumes "adequate alt (length s)"
  shows "res_ok (\<lambda>(n, r). node_ok n \<and> length r < length s) (atom alt s)"
proof (cases "skip_trivia s")
  case (Cons c r)
  have r: "length r < length s" using skip_trivia_Cons [OF Cons] .
  have 1: "res_ok (\<lambda>(n, q). node_ok n \<and> length q < length s)
      (and_then (alt r) (\<lambda>(inner, r'). case skip_trivia r' of
                d # r'' \<Rightarrow> if d = ch CHR '')'' then Ok (inner, r'') else Err MissingParen
              | [] \<Rightarrow> Err MissingParen))"
    by (rule res_ok_bind [OF assms [unfolded adequate_def, rule_format, OF r]])
       (use r skip_trivia_Cons in \<open>force split: list.split\<close>)
  have 2: "res_ok (\<lambda>(n, q). node_ok n \<and> length q < length s)
      (and_then (string_loop [] r) (\<lambda>(cps, r'). Ok (NStr cps, r')))"
    by (rule res_ok_bind [OF string_loop_ok]) (use r in auto)
  have 3: "res_ok (\<lambda>(n, q). node_ok n \<and> length q < length s) (char_class r)"
    by (rule res_ok_mono [OF char_class_ok]) (use r in auto)
  have 4: "res_ok (\<lambda>(n, q). node_ok n \<and> length q < length s)
      (and_then (ident (c # r)) (\<lambda>(name, r'). Ok (NRef name, r')))"
    by (rule res_ok_bind [OF ident_ok]) (use r in auto)
  show ?thesis unfolding atom_def Cons using 1 2 3 4 r by simp
qed (simp add: atom_def)

lemma item_ok:
  assumes "adequate alt (length s)"
  shows "res_ok (\<lambda>(n, r). node_ok n \<and> length r < length s) (item alt s)"
  unfolding item_def
proof (rule res_ok_bind [OF atom_ok [OF assms]])
  fix x :: "Node \<times> ustr" assume "case x of (n, r) \<Rightarrow> node_ok n \<and> length r < length s"
  then show "res_ok (\<lambda>(n, r). node_ok n \<and> length r < length s) (case x of (n, r) \<Rightarrow> item_loop (Suc (length r)) n r)"
    by (cases x) (auto simp del: item_loop.simps intro!: res_ok_mono [OF item_loop_ok])
qed

lemma wrap_ok: "\<forall>n \<in> set ns. node_ok n \<Longrightarrow> node_ok (wrap_seq ns)" "\<forall>n \<in> set ns. node_ok n \<Longrightarrow> ns \<noteq> [] \<Longrightarrow> node_ok (wrap_alt ns)"
  by (auto simp: wrap_seq_def wrap_alt_def length_Suc_conv)

lemma seq_loop_ok:
  "length s < f \<Longrightarrow> adequate alt (length s) \<Longrightarrow> \<forall>n \<in> set items. node_ok n \<Longrightarrow>
   res_ok (\<lambda>(n, r). node_ok n \<and> length r \<le> length s) (seq_loop alt f items s)"
proof (induction f arbitrary: items s)
  case (Suc f)
  let ?s = "skip_trivia s"
  have l: "length ?s \<le> length s" by (rule skip_trivia_length)
  have "res_ok (\<lambda>(n, r). node_ok n \<and> length r \<le> length s) (and_then (item alt ?s) (\<lambda>(n, r'). seq_loop alt f (items @ [n]) r'))"
  proof (rule res_ok_bind [OF item_ok [OF adequate_mono [OF Suc.prems(2) l]]])
    fix x :: "Node \<times> ustr" assume x: "case x of (n, r) \<Rightarrow> node_ok n \<and> length r < length ?s"
    obtain n r where nr: "x = (n, r)" by (cases x)
    have r: "length r < length s" "node_ok n" using x nr l by auto
    have "res_ok (\<lambda>(n, q). node_ok n \<and> length q \<le> length r) (seq_loop alt f (items @ [n]) r)"
      by (rule Suc.IH) (use r Suc.prems adequate_mono in auto)
    then show "res_ok (\<lambda>(n, r). node_ok n \<and> length r \<le> length s) (case x of (n, r') \<Rightarrow> seq_loop alt f (items @ [n]) r')"
      unfolding nr using r(1) by (auto elim!: res_ok_mono)
  qed
  then show ?case using l wrap_ok(1) [OF Suc.prems(3)] by (auto simp: Let_def split: list.split)
qed simp

lemma sequence_ok: "adequate alt (length s) \<Longrightarrow> res_ok (\<lambda>(n, r). node_ok n \<and> length r \<le> length s) (sequence alt s)"
  by (simp add: sequence_def seq_loop_ok del: seq_loop.simps)

lemma alt_loop_ok:
  "length s < f \<Longrightarrow> adequate alt (length s) \<Longrightarrow> \<forall>n \<in> set bs. node_ok n \<Longrightarrow> bs \<noteq> [] \<Longrightarrow>
   res_ok (\<lambda>(n, r). node_ok n \<and> length r \<le> length s) (alt_loop alt f bs s)"
proof (induction f arbitrary: bs s)
  case (Suc f)
  show ?case
  proof (cases "skip_trivia s")
    case (Cons c r)
    have l: "length r < length s" using skip_trivia_Cons [OF Cons] .
    then have a: "adequate alt (length r)" using adequate_mono [OF Suc.prems(2)] by simp
    have "res_ok (\<lambda>(n, q). node_ok n \<and> length q \<le> length s) (and_then (sequence alt r) (\<lambda>(n, r'). alt_loop alt f (bs @ [n]) r'))"
    proof (rule res_ok_bind [OF sequence_ok [OF a]])
      fix x :: "Node \<times> ustr" assume x: "case x of (n, q) \<Rightarrow> node_ok n \<and> length q \<le> length r"
      obtain n q where nq: "x = (n, q)" by (cases x)
      have q: "length q < length s" "node_ok n" using x nq l by auto
      have "res_ok (\<lambda>(n, p). node_ok n \<and> length p \<le> length q) (alt_loop alt f (bs @ [n]) q)"
        by (rule Suc.IH) (use q Suc.prems adequate_mono in auto)
      then show "res_ok (\<lambda>(n, r). node_ok n \<and> length r \<le> length s) (case x of (n, r') \<Rightarrow> alt_loop alt f (bs @ [n]) r')"
        unfolding nq using q(1) by (auto elim!: res_ok_mono)
    qed
    then show ?thesis using Cons l wrap_ok(2) [OF Suc.prems(3,4)] by auto
  next
    case Nil
    then show ?thesis using wrap_ok(2) [OF Suc.prems(3,4)] by simp
  qed
qed simp

lemma alternation_adequate: "adequate (alternation f) f"
proof (induction f)
  case (Suc f)
  show ?case unfolding adequate_def
  proof (intro allI impI)
    fix s :: ustr assume "length s < Suc f"
    then have a: "adequate (alternation f) (length s)" using adequate_mono [OF Suc] by simp
    have "res_ok (\<lambda>(n, r). node_ok n \<and> length r \<le> length s)
        (and_then (sequence (alternation f) s) (\<lambda>(n, r). alt_loop (alternation f) (Suc (length r)) [n] r))"
    proof (rule res_ok_bind [OF sequence_ok [OF a]])
      fix x :: "Node \<times> ustr" assume x: "case x of (n, q) \<Rightarrow> node_ok n \<and> length q \<le> length s"
      obtain n q where nq: "x = (n, q)" by (cases x)
      have "res_ok (\<lambda>(n, p). node_ok n \<and> length p \<le> length q) (alt_loop (alternation f) (Suc (length q)) [n] q)"
        by (rule alt_loop_ok) (use x nq adequate_mono [OF a] in auto)
      then show "res_ok (\<lambda>(n, r). node_ok n \<and> length r \<le> length s)
          (case x of (n, r) \<Rightarrow> alt_loop (alternation f) (Suc (length r)) [n] r)"
        unfolding nq using x nq by (auto elim!: res_ok_mono simp del: alt_loop.simps)
    qed
    then show "res_ok (\<lambda>(n, r). node_ok n \<and> length r \<le> length s) (alternation (Suc f) s)" by simp
  qed
qed (simp add: adequate_def)

section \<open>The rules\<close>

definition rules_ok :: "(ustr \<times> Node) list \<Rightarrow> bool" where
  "rules_ok rules \<longleftrightarrow> distinct (map fst rules) \<and> (\<forall>(name, body) \<in> set rules. node_ok body)"

lemma parse_loop_ok:
  "length s < f \<Longrightarrow> rules_ok rules \<Longrightarrow> res_ok rules_ok (parse_loop f rules s)"
proof (induction f arbitrary: rules s)
  case (Suc f)
  let ?s = "skip_trivia s"
  have l: "length ?s \<le> length s" by (rule skip_trivia_length)
  have "res_ok rules_ok (and_then (ident ?s) (\<lambda>(name, r).
           and_then (expect_str (chars ''::='') (skip_trivia r)) (\<lambda>r2.
           and_then (alternation (Suc (length r2)) r2) (\<lambda>(body, r3).
           if \<exists>(n, _) \<in> set rules. n = name then Err (DuplicateRule name)
           else parse_loop f (rules @ [(name, body)]) r3))))"
  proof (rule res_ok_bind [OF ident_ok], clarify)
    fix name r :: ustr assume r: "length r < length ?s"
    have "res_ok (\<lambda>r2. length r2 \<le> length r) (expect_str (chars ''::='') (skip_trivia r))"
      using skip_trivia_length [of r] by (auto simp: expect_str_def)
    then show "res_ok rules_ok (and_then (expect_str (chars ''::='') (skip_trivia r)) (\<lambda>r2.
           and_then (alternation (Suc (length r2)) r2) (\<lambda>(body, r3).
           if \<exists>(n, _) \<in> set rules. n = name then Err (DuplicateRule name)
           else parse_loop f (rules @ [(name, body)]) r3)))"
    proof (rule res_ok_bind)
      fix r2 :: ustr assume r2: "length r2 \<le> length r"
      have "res_ok (\<lambda>(n, q). node_ok n \<and> length q \<le> length r2) (alternation (Suc (length r2)) r2)"
        using alternation_adequate [of "Suc (length r2)"] unfolding adequate_def by blast
      then show "res_ok rules_ok (and_then (alternation (Suc (length r2)) r2) (\<lambda>(body, r3).
           if \<exists>(n, _) \<in> set rules. n = name then Err (DuplicateRule name)
           else parse_loop f (rules @ [(name, body)]) r3))"
      proof (rule res_ok_bind, clarify)
        fix body and r3 :: ustr assume b: "node_ok body" "length r3 \<le> length r2"
        have "res_ok rules_ok (parse_loop f (rules @ [(name, body)]) r3)" if "\<not> (\<exists>(n, _) \<in> set rules. n = name)"
          by (rule Suc.IH) (use that b r r2 l Suc.prems in \<open>auto simp: rules_ok_def image_iff\<close>)
        then show "res_ok rules_ok (if \<exists>(n, _) \<in> set rules. n = name then Err (DuplicateRule name)
           else parse_loop f (rules @ [(name, body)]) r3)" by simp
      qed
    qed
  qed
  then show ?case using Suc.prems(2) by (auto simp: Let_def)
qed simp

text \<open>References that resolve.\<close>

fun refs_in :: "ustr set \<Rightarrow> Node \<Rightarrow> bool" where
  "refs_in N (NRef name) \<longleftrightarrow> name \<in> N"
| "refs_in N (NSeq items) \<longleftrightarrow> (\<forall>it \<in> set items. refs_in N it)"
| "refs_in N (NAlt items) \<longleftrightarrow> (\<forall>it \<in> set items. refs_in N it)"
| "refs_in N (NRep inner m n) \<longleftrightarrow> refs_in N inner"
| "refs_in N (NStr cps) \<longleftrightarrow> True"
| "refs_in N (NClass negated ranges) \<longleftrightarrow> True"
| "refs_in N NAny \<longleftrightarrow> True"

lemma check_refs_ok:
  shows "check_refs node rules owner = Ok u \<longleftrightarrow> refs_in (fst ` set rules) node"
    and "check_refs_all items rules owner = Ok u \<longleftrightarrow> (\<forall>it \<in> set items. refs_in (fst ` set rules) it)"
proof (induction node rules owner and items rules owner rule: check_refs_check_refs_all.induct)
  case (9 it items rules owner)
  then show ?case by (auto simp: and_then_def split: sum.splits)
qed (force simp: image_iff)+

lemma check_refs_no_fuel:
  shows "check_refs node rules owner \<noteq> Err OutOfFuel" and "check_refs_all items rules owner \<noteq> Err OutOfFuel"
  by (induction node rules owner and items rules owner rule: check_refs_check_refs_all.induct)
     (auto simp: and_then_def split: sum.splits)

lemma check_all_refs_ok:
  "res_ok (\<lambda>_. \<forall>(name, body) \<in> set rs. refs_in (fst ` set rules) body) (check_all_refs rs rules)"
proof (induction rs rules rule: check_all_refs.induct)
  case (2 name node rest rules)
  have "res_ok (\<lambda>_. refs_in (fst ` set rules) node) (check_refs node rules name)"
    using check_refs_ok(1) [of node rules name] check_refs_no_fuel(1) [of node rules name]
    by (cases "check_refs node rules name") auto
  then show ?case unfolding check_all_refs.simps
    by (rule res_ok_bind) (auto intro!: res_ok_mono [OF 2])
qed simp

lemma parse_ok:
  "res_ok (\<lambda>rules. rules \<noteq> [] \<and> rules_ok rules \<and> (\<forall>(name, body) \<in> set rules. refs_in (fst ` set rules) body)) (parse source)"
proof -
  have "res_ok rules_ok (parse_loop (Suc (length source)) [] source)"
    by (rule parse_loop_ok) (simp_all add: rules_ok_def)
  then show ?thesis unfolding parse_def
  proof (rule res_ok_bind)
    fix rules :: "(ustr \<times> Node) list" assume "rules_ok rules"
    then show "res_ok (\<lambda>rules. rules \<noteq> [] \<and> rules_ok rules \<and> (\<forall>(name, body) \<in> set rules. refs_in (fst ` set rules) body))
       (if rules = [] then Err NoRules else and_then (check_all_refs rules rules) (\<lambda>_. Ok rules))"
      by (auto intro!: res_ok_bind [OF check_all_refs_ok])
  qed
qed

end
