(* ===== verification/Grammar_Compile.thy ===== *)
theory Grammar_Compile
  imports Gbnf_Correct Gbnf_Parse_Inv
begin

text \<open>
  A grammar compiled against a vocabulary (\<open>Grammar::from_gbnf\<close> of \<open>src/grammar.rs\<close>), the index of
  its tokens by first code point, the state of a run and the acceptance of a sampled token. Token
  ids are \<open>u32\<close> in the source; a vocabulary has fewer than two to the 32 tokens, so that the casts
  from positions keep the value.
\<close>

section \<open>The token index\<close>

record TokenIndex =
  ti_buckets :: "(nat, nat list) btree"
  ti_headless :: "nat list"

text \<open>The loop of \<open>build\<close> from token \<open>tid\<close> on. An empty piece makes \<open>decode_at\<close> panic.\<close>

fun build_loop :: "nat list \<Rightarrow> nat \<Rightarrow> byte list option list \<Rightarrow> TokenIndex \<Rightarrow> (gbnf_error, TokenIndex) res" where
  "build_loop eog tid [] ix = Ok ix"
| "build_loop eog tid (None # pieces) ix = build_loop eog (Suc tid) pieces ix"
| "build_loop eog tid (Some piece # pieces) ix =
     (if tid \<in> set eog then build_loop eog (Suc tid) pieces ix
      else if piece = [] then Err GbnfPanic
      else (case decode_at piece 0 of
              CpStep cp _ \<Rightarrow>
                build_loop eog (Suc tid) pieces
                  (ix\<lparr>ti_buckets := bt_insert cp ((case map_of (ti_buckets ix) cp of None \<Rightarrow> [] | Some l \<Rightarrow> l) @ [tid]) (ti_buckets ix)\<rparr>)
            | Incomplete \<Rightarrow> build_loop eog (Suc tid) pieces (ix\<lparr>ti_headless := ti_headless ix @ [tid]\<rparr>)
            | Invalid \<Rightarrow> build_loop eog (Suc tid) pieces ix))"

definition build :: "byte list option list \<Rightarrow> nat list \<Rightarrow> (gbnf_error, TokenIndex) res" where
  "build pieces eog = build_loop eog 0 pieces \<lparr>ti_buckets = [], ti_headless = []\<rparr>"

section \<open>Compilation\<close>

record Compiled =
  g_rules :: program
  g_names :: "ustr list"
  g_root :: nat
  g_n_vocab :: nat
  g_pieces :: "byte list option list"
  g_eog_ids :: "nat list"
  g_source :: ustr
  g_index :: TokenIndex

definition compile_rule :: "(ustr \<Rightarrow> nat option) \<Rightarrow> ustr \<times> Node \<Rightarrow> (gbnf_error, Inst list) res" where
  "compile_rule ids rule =
     and_then (emit_node ids (snd rule) []) (\<lambda>prog.
       let prog' = prog @ [Ret] in
       if length prog' < 2 ^ 32 - 1 then Ok prog' else Err GbnfPanic)"

definition rule_ids :: "ustr list \<Rightarrow> ustr \<Rightarrow> nat option" where
  "rule_ids names = map_of (rev (zip names [0..<length names]))"

fun check_closures :: "program \<Rightarrow> ustr list \<Rightarrow> nat list \<Rightarrow> (gbnf_error, unit) res" where
  "check_closures rs names [] = Ok ()"
| "check_closures rs names (r # more_rules) =
     (case close rs [[(r, 0)]] of
        Inl e \<Rightarrow> Err (RuleClosure (names ! r) e)
      | Inr _ \<Rightarrow> check_closures rs names more_rules)"

definition from_gbnf :: "ustr \<Rightarrow> byte list option list \<Rightarrow> bool list \<Rightarrow> (gbnf_error, Compiled) res" where
  "from_gbnf source pieces eog =
     and_then (parse source) (\<lambda>parsed.
     let names = map fst parsed; ids = rule_ids names in
     case ids (chars ''root'') of
       None \<Rightarrow> Err NoRoot
     | Some root \<Rightarrow>
         and_then (traverse_res (compile_rule ids) parsed) (\<lambda>rules.
         let eog_ids = map fst (filter snd (zip [0..<length eog] eog)) in
         and_then (build pieces eog_ids) (\<lambda>index.
         and_then (check_closures rules names [0..<length rules]) (\<lambda>_.
         Ok \<lparr>g_rules = rules, g_names = names, g_root = root, g_n_vocab = length pieces, g_pieces = pieces,
             g_eog_ids = eog_ids, g_source = source, g_index = index\<rparr>))))"

section \<open>The state of a run\<close>

type_synonym bitset = "64 word list"

record GrammarState =
  gs_inner :: StateKey
  gs_accepting :: bool
  gs_cache :: "(StateKey \<times> bitset) list"

text \<open>\<open>None\<close> stands for the panic of \<open>expect\<close>.\<close>

definition initial_state :: "Compiled \<Rightarrow> GrammarState option" where
  "initial_state g =
     (case close (g_rules g) [[(g_root g, 0)]] of
        Inl _ \<Rightarrow> None
      | Inr stacks \<Rightarrow>
          (let inner = \<lparr>sk_stacks = stacks, sk_partial = [], sk_done = False\<rparr> in
           Some \<lparr>gs_inner = inner, gs_accepting = state_key_accepting (g_rules g) inner, gs_cache = []\<rparr>))"

datatype accept_error =
    OutsideVocabulary nat | AfterEnd | EogNotAccepting nat | EmptyPiece nat | TokenRejected nat nat grammar_error

definition accept_token :: "Compiled \<Rightarrow> GrammarState \<Rightarrow> nat \<Rightarrow> GrammarState \<times> (accept_error, unit) res" where
  "accept_token g st tid =
     (if tid \<ge> g_n_vocab g then (st, Err (OutsideVocabulary tid))
      else if sk_done (gs_inner st) then (st, Err AfterEnd)
      else if tid \<in> set (g_eog_ids g) then
        (if \<not> gs_accepting st then (st, Err (EogNotAccepting tid))
         else (st\<lparr>gs_inner := (gs_inner st)\<lparr>sk_done := True\<rparr>, gs_accepting := False, gs_cache := []\<rparr>, Ok ()))
      else (case g_pieces g ! tid of
              None \<Rightarrow> (st, Err (EmptyPiece tid))
            | Some piece \<Rightarrow>
                (case consume (g_rules g) (gs_inner st) piece of
                   Inr nxt \<Rightarrow> (st\<lparr>gs_accepting := state_key_accepting (g_rules g) nxt, gs_inner := nxt\<rparr>, Ok ())
                 | Inl (accepted, why) \<Rightarrow> (st, Err (TokenRejected tid accepted why)))))"

section \<open>What a compiled grammar is\<close>

lemma traverse_res_Ok:
  "traverse_res f xs = Ok ys \<longleftrightarrow> length ys = length xs \<and> (\<forall>i < length xs. f (xs ! i) = Ok (ys ! i))"
proof (induction xs arbitrary: ys)
  case (Cons x xs)
  show ?case
  proof (cases ys)
    case (Cons y zs)
    then show ?thesis using Cons.IH [of zs]
      by (auto simp: All_less_Suc2 split: sum.splits)
  qed (auto split: sum.splits)
qed auto

lemma rule_ids_Some:
  assumes "distinct names"
  shows "rule_ids names name = Some r \<longleftrightarrow> r < length names \<and> names ! r = name"
proof -
  have "distinct (map fst (rev (zip names [0..<length names])))" using assms by (simp add: rev_map [symmetric])
  then have "rule_ids names name = Some r \<longleftrightarrow> (name, r) \<in> set (zip names [0..<length names])"
    by (simp add: rule_ids_def)
  also have "\<dots> \<longleftrightarrow> r < length names \<and> names ! r = name" by (auto simp: in_set_zip)
  finally show ?thesis .
qed

lemma compile_rule_code:
  assumes "compile_rule ids rule = Ok p" "node_ok (snd rule)"
  obtains b where "code_at ids p 0 (snd rule) b" "length p = Suc b" "p ! b = Ret"
proof -
  obtain q where q: "emit_node ids (snd rule) [] = Ok q" "p = q @ [Ret]"
    using assms(1) by (auto simp: compile_rule_def and_then_eq_Inr Let_def split: if_splits)
  have "code_at ids q 0 (snd rule) (length q)" 
    using emit_node_code [OF assms(2), of ids, unfolded emits_def, rule_format, OF q(1)] by simp
  then have "code_at ids p 0 (snd rule) (length q)" using ext_code [of q p "length q"] q(2) by simp
  then show ?thesis using that [of "length q"] q(2) by simp
qed

lemma compiled_rules:
  assumes "rules_ok parsed" "traverse_res (compile_rule (rule_ids (map fst parsed))) parsed = Ok rs"
  shows "compiled parsed (rule_ids (map fst parsed)) rs"
proof -
  let ?ids = "rule_ids (map fst parsed)"
  have d: "distinct (map fst parsed)" using assms(1) by (simp add: rules_ok_def)
  have rs: "length rs = length parsed" "\<And>i. i < length parsed \<Longrightarrow> compile_rule ?ids (parsed ! i) = Ok (rs ! i)"
    using assms(2) by (auto simp: traverse_res_Ok)
  have "\<exists>body b. r < length rs \<and> map_of parsed name = Some body \<and> code_at ?ids (rs ! r) 0 body b \<and>
      length (rs ! r) = Suc b \<and> rs ! r ! b = Ret" if "?ids name = Some r" for name r
  proof -
    have r: "r < length parsed" "fst (parsed ! r) = name" using that by (auto simp: rule_ids_Some [OF d])
    then have m: "map_of parsed name = Some (snd (parsed ! r))"
      using d by (metis map_of_eq_Some_iff nth_mem prod.collapse)
    have "node_ok (snd (parsed ! r))" 
      using assms(1) nth_mem [OF r(1)] by (auto simp: rules_ok_def case_prod_beta)
    from compile_rule_code [OF rs(2) [OF r(1)] this] m r(1) rs(1) show ?thesis by metis
  qed
  moreover have "\<exists>r. ?ids name = Some r" if "map_of parsed name = Some body" for name body
    using map_of_SomeD [OF that] by (auto simp: rule_ids_Some [OF d] in_set_conv_nth)
  ultimately show ?thesis using rs(1) by (auto simp: compiled_def)
qed

lemma check_closures_ok: "check_closures rs names ns = Ok u \<Longrightarrow> r \<in> set ns \<Longrightarrow> is_ok (close rs [[(r, 0)]])"
  by (induction rs names ns rule: check_closures.induct) (auto split: sum.splits)

lemma from_gbnfE:
  assumes "from_gbnf source pieces eog = Ok g"
  obtains parsed where "parse source = Ok parsed" "rules_ok parsed"
    "compiled parsed (rule_ids (map fst parsed)) (g_rules g)"
    "rule_ids (map fst parsed) (chars ''root'') = Some (g_root g)"
    "\<forall>(name, body) \<in> set parsed. refs_in (fst ` set parsed) body"
    "build pieces (g_eog_ids g) = Ok (g_index g)" "g_pieces g = pieces" "g_n_vocab g = length pieces"
    "\<forall>r < length (g_rules g). is_ok (close (g_rules g) [[(r, 0)]])"
    "g_eog_ids g = map fst (filter snd (zip [0..<length eog] eog))"
proof -
  obtain parsed where p: "parse source = Ok parsed"
    and r: "(let names = map fst parsed; ids = rule_ids names in
     case ids (chars ''root'') of
       None \<Rightarrow> Err NoRoot
     | Some root \<Rightarrow>
         and_then (traverse_res (compile_rule ids) parsed) (\<lambda>rules.
         let eog_ids = map fst (filter snd (zip [0..<length eog] eog)) in
         and_then (build pieces eog_ids) (\<lambda>index.
         and_then (check_closures rules names [0..<length rules]) (\<lambda>_.
         Ok \<lparr>g_rules = rules, g_names = names, g_root = root, g_n_vocab = length pieces, g_pieces = pieces,
             g_eog_ids = eog_ids, g_source = source, g_index = index\<rparr>)))) = Ok g"
    using assms unfolding from_gbnf_def and_then_eq_Inr by blast
  obtain root rules index where x: "rule_ids (map fst parsed) (chars ''root'') = Some root"
      "traverse_res (compile_rule (rule_ids (map fst parsed))) parsed = Ok rules"
      "build pieces (map fst (filter snd (zip [0..<length eog] eog))) = Ok index"
      "check_closures rules (map fst parsed) [0..<length rules] = Ok ()"
      "g = \<lparr>g_rules = rules, g_names = map fst parsed, g_root = root, g_n_vocab = length pieces, g_pieces = pieces,
             g_eog_ids = map fst (filter snd (zip [0..<length eog] eog)), g_source = source, g_index = index\<rparr>"
    using r by (auto simp: Let_def and_then_eq_Inr split: option.splits)
  have ok: "rules_ok parsed" "\<forall>(name, body) \<in> set parsed. refs_in (fst ` set parsed) body"
    using parse_ok [of source] p by simp_all
  show ?thesis
    using that [OF p ok(1)] compiled_rules [OF ok(1) x(2)] x ok(2) check_closures_ok [OF x(4)] by simp
qed

section \<open>Every frame stays in the program\<close>

text \<open>An instruction whose targets stay below or at \<open>b\<close>, whose calls name a rule and whose class is in order.\<close>

fun inst_in :: "nat \<Rightarrow> nat \<Rightarrow> Inst \<Rightarrow> bool" where
  "inst_in n b (Split x y) \<longleftrightarrow> x \<le> b \<and> y \<le> b"
| "inst_in n b (Jump x) \<longleftrightarrow> x \<le> b"
| "inst_in n b (Call q) \<longleftrightarrow> q < n"
| "inst_in n b Ret \<longleftrightarrow> False"
| "inst_in n b (IClass negated ranges) \<longleftrightarrow> inst_ok (IClass negated ranges)"
| "inst_in n b (ICp c) \<longleftrightarrow> inst_ok (ICp c)"
| "inst_in n b _ \<longleftrightarrow> True"

lemma inst_in_mono: "inst_in n b i \<Longrightarrow> b \<le> c \<Longrightarrow> inst_in n c i"
  by (cases i) auto

definition insts_in :: "nat \<Rightarrow> Inst list \<Rightarrow> nat \<Rightarrow> nat \<Rightarrow> bool" where
  "insts_in n p a b \<longleftrightarrow> (\<forall>i. a \<le> i \<and> i < b \<longrightarrow> inst_in n b (p ! i))"

lemma insts_in_empty [simp]: "insts_in n p a a"
  by (auto simp: insts_in_def)

lemma insts_in_single: "inst_in n (Suc a) (p ! a) \<Longrightarrow> insts_in n p a (Suc a)"
  by (auto simp: insts_in_def less_Suc_eq_le dest: antisym)

lemma insts_in_append: "insts_in n p a b \<Longrightarrow> insts_in n p b c \<Longrightarrow> b \<le> c \<Longrightarrow> insts_in n p a c"
  unfolding insts_in_def by (metis inst_in_mono not_less)

lemma insts_in_Cons: "inst_in n c (p ! a) \<Longrightarrow> insts_in n p (Suc a) c \<Longrightarrow> insts_in n p a c"
  unfolding insts_in_def by (metis Suc_leI le_neq_implies_less)

lemma insts_in_snoc: "insts_in n p a b \<Longrightarrow> inst_in n (Suc b) (p ! b) \<Longrightarrow> a \<le> b \<Longrightarrow> insts_in n p a (Suc b)"
  using insts_in_append insts_in_single by (metis le_SucI order_refl)

lemma code_insts:
  assumes ids: "\<And>name q. ids name = Some q \<Longrightarrow> q < n"
  shows
  "code_at ids p a node b \<Longrightarrow> node_ok node \<longrightarrow> insts_in n p a b"
  "code_all ids p a items b \<Longrightarrow> (\<forall>it \<in> set items. node_ok it) \<longrightarrow> insts_in n p a b"
  "code_alt ids p a items b \<Longrightarrow> (\<forall>it \<in> set items. node_ok it) \<longrightarrow> insts_in n p a b"
  "code_opts ids p a k inner b \<Longrightarrow> node_ok inner \<longrightarrow> insts_in n p a b"
proof (induction rule: code_at_code_all_code_alt_code_opts.inducts)
  case (c_str cps a)
  have "inst_in n (a + length cps) (p ! i)" if "a \<le> i" "i < a + length cps" "node_ok (NStr cps)" for i
    using c_str [of "i - a"] that by simp
  then show ?case by (simp add: insts_in_def)
next
  case (c_star a m inner l j)
  note le = code_le(2) [OF c_star(1)] code_le(1) [OF c_star(4)]
  show ?case
  proof
    assume ok: "node_ok (NRep inner m None)"
    have 1: "insts_in n p (Suc l) j" "insts_in n p a l" using c_star(2,5) ok by auto
    have "insts_in n p (Suc l) (Suc j)" by (rule insts_in_snoc [OF 1(1) _ le(2)]) (use c_star(6) le in simp)
    then have 2: "insts_in n p l (Suc j)" by (rule insts_in_Cons [rotated]) (use c_star(3) le in simp)
    have "l \<le> Suc j" using le by simp
    then show "insts_in n p a (Suc j)" by (rule insts_in_append [OF 1(2) 2])
  qed
next
  case (c_opts a m inner l t b)
  note le = code_le(2) [OF c_opts(1)] code_le(4) [OF c_opts(3)]
  then show ?case using c_opts by (auto intro!: insts_in_append [of n p a l b])
next
  case (c_cons a it b items c)
  note le = code_le(1) [OF c_cons(1)] code_le(2) [OF c_cons(3)]
  then show ?case using c_cons by (auto intro!: insts_in_append [of n p a b c])
next
  case (c_branch a j branch e branches)
  note le = code_le(1) [OF c_branch(2)] code_le(3) [OF c_branch(5)]
  show ?case
  proof
    assume ok: "\<forall>it \<in> set (branch # branches). node_ok it"
    have 1: "insts_in n p (Suc a) j" "insts_in n p (Suc j) e" using c_branch ok by auto
    have 2: "insts_in n p j e" by (rule insts_in_Cons [OF _ 1(2)]) (use c_branch(4) in simp)
    have "j \<le> e" using le by simp
    then have "insts_in n p (Suc a) e" by (rule insts_in_append [OF 1(1) 2])
    then show "insts_in n p a e" by (rule insts_in_Cons [rotated]) (use c_branch(1) le in simp)
  qed
next
  case (c_optS a j inner k b)
  note le = code_le(1) [OF c_optS(2)] code_le(4) [OF c_optS(4)]
  show ?case
  proof
    assume ok: "node_ok inner"
    have 1: "insts_in n p (Suc a) j" "insts_in n p j b" using c_optS(3,5) ok by auto
    have "insts_in n p (Suc a) b" by (rule insts_in_append [OF 1 le(2)])
    then show "insts_in n p a b" by (rule insts_in_Cons [rotated]) (use c_optS(1) le in simp)
  qed
qed (auto intro!: insts_in_single dest: ids)

definition program_ok :: "program \<Rightarrow> bool" where
  "program_ok rs \<longleftrightarrow>
     (\<forall>r < length rs. \<exists>b. length (rs ! r) = Suc b \<and> rs ! r ! b = Ret \<and> insts_in (length rs) (rs ! r) 0 b)"

definition frame_ok :: "program \<Rightarrow> frame \<Rightarrow> bool" where
  "frame_ok rs f \<longleftrightarrow> fst f < length rs \<and> snd f < length (rs ! fst f)"

definition stack_ok :: "program \<Rightarrow> stack \<Rightarrow> bool" where
  "stack_ok rs st \<longleftrightarrow> st \<noteq> [] \<and> (\<forall>f \<in> set st. frame_ok rs f)"

lemma stack_ok_top: "stack_ok rs (fs @ [(r, a)]) \<longleftrightarrow> (\<forall>f \<in> set fs. frame_ok rs f) \<and> frame_ok rs (r, a)"
  by (auto simp: stack_ok_def)

lemma program_ok_inst:
  assumes "program_ok rs" "frame_ok rs (r, a)"
  obtains b where "length (rs ! r) = Suc b" "a \<le> b" "a = b \<Longrightarrow> inst_at rs (r, a) = Ret"
    "a < b \<Longrightarrow> inst_in (length rs) b (inst_at rs (r, a))"
  using assms by (auto simp: program_ok_def frame_ok_def insts_in_def inst_at_def less_Suc_eq_le)

lemma stack_topE:
  assumes "stack_ok rs st"
  obtains fs r a where "st = fs @ [(r, a)]" "frame_ok rs (r, a)" "\<forall>f \<in> set fs. frame_ok rs f"
  using assms by (cases st rule: rev_cases) (auto simp: stack_ok_def)

lemma stack_ok_step:
  assumes "program_ok rs" "stack_ok rs st"
  shows "st' \<in> set (esuccs rs st) \<Longrightarrow> stack_ok rs st'"
    and "inst_matches (inst_at rs (last st)) c \<Longrightarrow> stack_ok rs (advance st)"
proof -
  from assms(2) obtain fs r a where st: "st = fs @ [(r, a)]" "frame_ok rs (r, a)" "\<forall>f \<in> set fs. frame_ok rs f"
    by (rule stack_topE)
  from program_ok_inst [OF assms(1) st(2)] obtain b where b: "length (rs ! r) = Suc b" "a \<le> b"
      "a = b \<Longrightarrow> inst_at rs (r, a) = Ret" "a < b \<Longrightarrow> inst_in (length rs) b (inst_at rs (r, a))" by blast
  have f: "frame_ok rs (r, x)" if "x \<le> b" for x using st(2) b(1) that by (simp add: frame_ok_def)
  have call: "frame_ok rs (q, 0)" if "q < length rs" for q
    using assms(1) that by (auto simp: program_ok_def frame_ok_def)
  show "stack_ok rs st'" if e: "st' \<in> set (esuccs rs st)"
  proof (cases "inst_at rs (r, a) = Ret")
    case True
    then show ?thesis using e st by (cases fs) (auto simp: esuccs_def flow_def stack_ok_def)
  next
    case False
    then have lt: "a < b" using b(2,3) by fastforce
    show ?thesis
    proof (cases "inst_at rs (r, a)")
      case (Split x y)
      then show ?thesis using e st b(4) [OF lt] f by (auto simp: esuccs_top stack_ok_top)
    next
      case (Jump x)
      then show ?thesis using e st b(4) [OF lt] f by (auto simp: esuccs_top stack_ok_top)
    next
      case (Call q)
      then show ?thesis using e st b(4) [OF lt] f [of "Suc a"] lt call
        by (auto simp: esuccs_top stack_ok_top stack_ok_def)
    qed (use e st False in \<open>auto simp: esuccs_def flow_def\<close>)
  qed
  show "stack_ok rs (advance st)" if m: "inst_matches (inst_at rs (last st)) c"
  proof -
    have "inst_at rs (r, a) \<noteq> Ret" using m st by (auto simp: inst_matches_def)
    then have "a < b" using b(2,3) by fastforce
    then show ?thesis using st f [of "Suc a"] by (simp add: stack_ok_top)
  qed
qed

lemma runs_stack_ok:
  assumes "program_ok rs" "stack_ok rs st" "runs rs st w st'"
  shows "stack_ok rs st'"
proof -
  have "run rs n st w st' \<Longrightarrow> stack_ok rs st \<Longrightarrow> stack_ok rs st'" for n
    by (induction rule: run.induct) (auto dest: stack_ok_step [OF assms(1)])
  then show ?thesis using assms(2,3) unfolding runs_def by blast
qed

lemma compiled_program_ok:
  assumes "rules_ok parsed" "compiled parsed (rule_ids (map fst parsed)) rs"
  shows "program_ok rs"
  unfolding program_ok_def
proof (intro allI impI)
  let ?ids = "rule_ids (map fst parsed)"
  fix r assume r: "r < length rs"
  have d: "distinct (map fst parsed)" using assms(1) by (simp add: rules_ok_def)
  have "?ids (fst (parsed ! r)) = Some r"
    using r assms(2) by (simp add: rule_ids_Some [OF d] compiled_def)
  then obtain body b where b: "map_of parsed (fst (parsed ! r)) = Some body" "code_at ?ids (rs ! r) 0 body b"
      "length (rs ! r) = Suc b" "rs ! r ! b = Ret" using assms(2) unfolding compiled_def by metis
  have "node_ok body" using map_of_SomeD [OF b(1)] assms(1) by (auto simp: rules_ok_def)
  moreover have "q < length rs" if "?ids name = Some q" for name q
    using that assms(2) unfolding compiled_def by blast
  ultimately have "insts_in (length rs) (rs ! r) 0 b" using code_insts(1) [OF _ b(2)] by blast
  then show "\<exists>b. length (rs ! r) = Suc b \<and> rs ! r ! b = Ret \<and> insts_in (length rs) (rs ! r) 0 b" using b by blast
qed

lemma from_gbnf_program:
  assumes "from_gbnf source pieces eog = Ok g"
  shows "program_ok (g_rules g)" "g_root g < length (g_rules g)" "stack_ok (g_rules g) [(g_root g, 0)]"
    "is_ok (close (g_rules g) [[(g_root g, 0)]])"
proof -
  from assms obtain parsed where p: "rules_ok parsed" "compiled parsed (rule_ids (map fst parsed)) (g_rules g)"
      "rule_ids (map fst parsed) (chars ''root'') = Some (g_root g)"
      "\<forall>r < length (g_rules g). is_ok (close (g_rules g) [[(r, 0)]])"
    by (rule from_gbnfE)
  show ok: "program_ok (g_rules g)" using compiled_program_ok [OF p(1,2)] .
  show r: "g_root g < length (g_rules g)" using p(2,3) unfolding compiled_def by blast
  show "stack_ok (g_rules g) [(g_root g, 0)]"
    using ok r by (auto simp: stack_ok_def frame_ok_def program_ok_def)
  show "is_ok (close (g_rules g) [[(g_root g, 0)]])" using p(4) r by blast
qed

text \<open>The instruction a halted stack waits at is in order.\<close>

lemma stack_ok_inst_ok:
  assumes "program_ok rs" "stack_ok rs st"
  shows "inst_ok (inst_at rs (last st))"
proof -
  from assms(2) obtain fs r a where st: "st = fs @ [(r, a)]" "frame_ok rs (r, a)" by (rule stack_topE)
  from program_ok_inst [OF assms(1) st(2)] obtain b where
    "a \<le> b" "a = b \<Longrightarrow> inst_at rs (r, a) = Ret" "a < b \<Longrightarrow> inst_in (length rs) b (inst_at rs (r, a))" by blast
  then show ?thesis using st(1) by (cases "a = b"; cases "inst_at rs (r, a)") auto
qed

end
