(* ===== verification/Grammar_Mask.thy ===== *)
theory Grammar_Mask
  imports Grammar_Compile
begin

text \<open>
  The token mask of a state (\<open>Grammar::mask\<close> of \<open>src/grammar.rs\<close>): the choice between the walk over
  the whole vocabulary and the one over the index of first code points, the memoised
  transitions both use, and the cache of masks by state. The hash maps are association lists.
\<close>

section \<open>Accepted first code points\<close>

record Accepted =
  ac_wide :: bool
  ac_ranges :: "(nat \<times> nat) list"

definition width :: "Accepted \<Rightarrow> nat" where
  "width ac = sum_list (map (\<lambda>(a, b). b - a + 1) (ac_ranges ac))"

definition ac_contains :: "Accepted \<Rightarrow> nat \<Rightarrow> bool" where
  "ac_contains ac cp =
     (let i = length (takeWhile (\<lambda>(a, _). a \<le> cp) (ac_ranges ac)) in
      i > 0 \<and> snd (ac_ranges ac ! (i - 1)) \<ge> cp)"

definition codepoints :: "Accepted \<Rightarrow> nat list" where
  "codepoints ac = concat (map (\<lambda>(a, b). [a..<Suc b]) (ac_ranges ac))"

definition saturating_succ :: "nat \<Rightarrow> nat" where
  "saturating_succ x = min (x + 1) (2 ^ 32 - 1)"

fun merge_loop :: "(nat \<times> nat) list \<Rightarrow> (nat \<times> nat) list \<Rightarrow> (nat \<times> nat) list" where
  "merge_loop out [] = out"
| "merge_loop out ((a, b) # ranges) =
     (if out \<noteq> [] \<and> a \<le> saturating_succ (snd (last out))
      then merge_loop (butlast out @ [(fst (last out), max (snd (last out)) b)]) ranges
      else merge_loop (out @ [(a, b)]) ranges)"

definition merge_ranges :: "(nat \<times> nat) list \<Rightarrow> (nat \<times> nat) list" where
  "merge_ranges ranges = merge_loop [] (sort ranges)"

text \<open>The loop over the stacks; \<open>None\<close> is a wide frontier.\<close>

fun first_loop :: "program \<Rightarrow> (nat \<times> nat) list \<Rightarrow> stack list \<Rightarrow> (nat \<times> nat) list option" where
  "first_loop rs ranges [] = Some ranges"
| "first_loop rs ranges (st # stacks) =
     (case inst_at rs (last st) of
        IAny \<Rightarrow> None
      | ICp c \<Rightarrow> first_loop rs (if surrogate c then ranges else ranges @ [(c, c)]) stacks
      | IClass negated cls \<Rightarrow>
          if negated then None
          else first_loop rs (ranges @ concat (map (\<lambda>(a, b). non_surrogate_parts a b) cls)) stacks
      | Ret \<Rightarrow> first_loop rs ranges stacks
      | Split _ _ \<Rightarrow> first_loop rs ranges stacks
      | Jump _ \<Rightarrow> first_loop rs ranges stacks
      | Call _ \<Rightarrow> first_loop rs ranges stacks)"

definition first_codepoints :: "program \<Rightarrow> stack list \<Rightarrow> Accepted" where
  "first_codepoints rs stacks =
     (case first_loop rs [] stacks of
        None \<Rightarrow> \<lparr>ac_wide = True, ac_ranges = []\<rparr>
      | Some ranges \<Rightarrow> \<lparr>ac_wide = False, ac_ranges = merge_ranges ranges\<rparr>)"

datatype Walk = Whole | Buckets Accepted

definition plan :: "Compiled \<Rightarrow> StateKey \<Rightarrow> Walk" where
  "plan g key =
     (if sk_partial key \<noteq> [] \<or> sk_done key then Whole
      else (let accepted = first_codepoints (g_rules g) (sk_stacks key) in
            if ac_wide accepted \<or> width accepted \<ge> g_n_vocab g then Whole else Buckets accepted))"

section \<open>Memoised transitions\<close>

record MaskWalk =
  mw_states :: "stack list list"
  mw_intern :: "(stack list \<times> nat) list"
  mw_memo :: "((nat \<times> nat) \<times> nat option) list"
  mw_walked :: nat

definition new_walk :: "stack list \<Rightarrow> MaskWalk" where
  "new_walk seed = \<lparr>mw_states = [seed], mw_intern = [(seed, 0)], mw_memo = [], mw_walked = 0\<rparr>"

definition memo_step :: "program \<Rightarrow> MaskWalk \<Rightarrow> nat \<Rightarrow> nat \<Rightarrow> MaskWalk \<times> nat option" where
  "memo_step rs w cur cp =
     (case map_of (mw_memo w) (cur, cp) of
        Some cached \<Rightarrow> (w, cached)
      | None \<Rightarrow>
          (case vm_step rs (mw_states w ! cur) cp of
             Inl _ \<Rightarrow> (w\<lparr>mw_memo := ((cur, cp), None) # mw_memo w\<rparr>, None)
           | Inr ns \<Rightarrow>
               (case map_of (mw_intern w) ns of
                  Some idx \<Rightarrow> (w\<lparr>mw_memo := ((cur, cp), Some idx) # mw_memo w\<rparr>, Some idx)
                | None \<Rightarrow>
                    (let idx = length (mw_states w) in
                     (w\<lparr>mw_states := mw_states w @ [ns], mw_intern := (ns, idx) # mw_intern w,
                        mw_memo := ((cur, cp), Some idx) # mw_memo w\<rparr>, Some idx)))))"

function allows_loop :: "program \<Rightarrow> MaskWalk \<Rightarrow> byte list \<Rightarrow> nat \<Rightarrow> nat \<Rightarrow> MaskWalk \<times> bool" where
  "allows_loop rs w piece cur i =
     (if i < length piece then
        (case decode_at piece i of
           CpStep cp n \<Rightarrow>
             if surrogate cp then (w, False)
             else (case memo_step rs w cur cp of
                     (w', Some nxt) \<Rightarrow> allows_loop rs w' piece nxt (i + n)
                   | (w', None) \<Rightarrow> (w', False))
         | Incomplete \<Rightarrow> (w, partial_can_complete rs (mw_states w ! cur) (drop i piece))
         | Invalid \<Rightarrow> (w, False))
      else (w, True))"
  by auto
termination
  by (relation "measure (\<lambda>(rs, w, piece, cur, i). length piece - i)") (auto dest: decode_at_width)

declare allows_loop.simps [simp del]

definition allows :: "program \<Rightarrow> MaskWalk \<Rightarrow> byte list \<Rightarrow> MaskWalk \<times> bool" where
  "allows rs w piece = allows_loop rs (w\<lparr>mw_walked := mw_walked w + 1\<rparr>) piece 0 0"

section \<open>Masks\<close>

definition set_bit_at :: "bitset \<Rightarrow> nat \<Rightarrow> bitset" where
  "set_bit_at bits i = bits[i div 64 := or (bits ! (i div 64)) (push_bit (i mod 64) 1)]"

definition eog_bits :: "Compiled \<Rightarrow> StateKey \<Rightarrow> bool \<Rightarrow> bitset" where
  "eog_bits g key accepting =
     (let bits = replicate ((g_n_vocab g + 63) div 64) 0 in
      if sk_done key \<or> accepting then fold (\<lambda>i b. set_bit_at b i) (g_eog_ids g) bits else bits)"

text \<open>One iteration of the walk over the whole vocabulary.\<close>

definition whole_step :: "Compiled \<Rightarrow> StateKey \<Rightarrow> nat \<Rightarrow> MaskWalk \<times> bitset \<Rightarrow> MaskWalk \<times> bitset" where
  "whole_step g key i wb =
     (if i \<in> set (g_eog_ids g) then wb
      else (case g_pieces g ! i of
              None \<Rightarrow> wb
            | Some piece \<Rightarrow>
                (case (if sk_partial key \<noteq> []
                       then ((fst wb)\<lparr>mw_walked := mw_walked (fst wb) + 1\<rparr>, is_ok (consume (g_rules g) key piece))
                       else allows (g_rules g) (fst wb) piece) of
                   (w', allowed) \<Rightarrow> (w', if allowed then set_bit_at (snd wb) i else snd wb))))"

definition mask_whole :: "Compiled \<Rightarrow> StateKey \<Rightarrow> bool \<Rightarrow> bitset \<times> nat" where
  "mask_whole g key accepting =
     (let bits = eog_bits g key accepting in
      if sk_done key then (bits, 0)
      else (case fold (whole_step g key) [0..<g_n_vocab g] (new_walk (sk_stacks key), bits) of
              (w, bits') \<Rightarrow> (bits', mw_walked w)))"

text \<open>The walk over some indexed tokens; \<open>piece\<close> panics on a token without a piece, which the index does not hold.\<close>

definition token_step :: "Compiled \<Rightarrow> nat \<Rightarrow> MaskWalk \<times> bitset \<Rightarrow> MaskWalk \<times> bitset" where
  "token_step g i wb =
     (case allows (g_rules g) (fst wb) (the (g_pieces g ! i)) of
        (w', allowed) \<Rightarrow> (w', if allowed then set_bit_at (snd wb) i else snd wb))"

definition bucket :: "Compiled \<Rightarrow> nat list \<Rightarrow> MaskWalk \<times> bitset \<Rightarrow> MaskWalk \<times> bitset" where
  "bucket g ids wb = fold (token_step g) ids wb"

definition mask_buckets :: "Compiled \<Rightarrow> StateKey \<Rightarrow> bool \<Rightarrow> Accepted \<Rightarrow> bitset \<times> nat" where
  "mask_buckets g key accepting accepted =
     (let buckets = ti_buckets (g_index g);
          wb = fold (token_step g) (ti_headless (g_index g)) (new_walk (sk_stacks key), eog_bits g key accepting) in
      case (if width accepted \<le> length buckets
            then fold (\<lambda>cp wb. case map_of buckets cp of Some ids \<Rightarrow> bucket g ids wb | None \<Rightarrow> wb) (codepoints accepted) wb
            else fold (\<lambda>(cp, ids) wb. if ac_contains accepted cp then bucket g ids wb else wb) buckets wb) of
        (w, bits) \<Rightarrow> (bits, mw_walked w))"

definition MAX_MASK_CACHE :: nat where "MAX_MASK_CACHE = 64"

definition mask_of :: "Compiled \<Rightarrow> StateKey \<Rightarrow> bool \<Rightarrow> bitset \<times> nat" where
  "mask_of g key accepting =
     (case plan g key of Whole \<Rightarrow> mask_whole g key accepting | Buckets accepted \<Rightarrow> mask_buckets g key accepting accepted)"

definition token_mask :: "Compiled \<Rightarrow> GrammarState \<Rightarrow> GrammarState \<times> bitset" where
  "token_mask g st =
     (case map_of (gs_cache st) (gs_inner st) of
        Some cached \<Rightarrow> (st, cached)
      | None \<Rightarrow>
          (let bits = fst (mask_of g (gs_inner st) (gs_accepting st));
               cache = (if length (gs_cache st) \<ge> MAX_MASK_CACHE then [] else gs_cache st) in
           (st\<lparr>gs_cache := (gs_inner st, bits) # cache\<rparr>, bits)))"

end
