(* ===== verification/Grammar_Mask_Inv.thy ===== *)
theory Grammar_Mask_Inv
  imports Grammar_Mask
begin

text \<open>
  The mask is exact: whichever walk computes it, and whether it comes from the cache, a token has
  its bit exactly when the state can consume its piece (or the state admits the end of generation).
\<close>

section \<open>Bits\<close>

definition mask_bit :: "bitset \<Rightarrow> nat \<Rightarrow> bool" where
  "mask_bit bits i \<longleftrightarrow> i div 64 < length bits \<and> bit (bits ! (i div 64)) (i mod 64)"

lemma length_set_bit_at [simp]: "length (set_bit_at bits i) = length bits"
  by (simp add: set_bit_at_def)

lemma mask_bit_set:
  assumes "i div 64 < length bits"
  shows "mask_bit (set_bit_at bits i) j \<longleftrightarrow> j = i \<or> mask_bit bits j"
proof (cases "j div 64 = i div 64")
  case True
  have "j mod 64 = i mod 64 \<longleftrightarrow> j = i" using True by (metis mod_mult_div_eq)
  then show ?thesis using True assms
    by (auto simp: mask_bit_def set_bit_at_def bit_or_iff push_bit_eq_mult bit_exp_iff)
next
  case False
  then show ?thesis using assms by (auto simp: mask_bit_def set_bit_at_def)
qed

lemma mask_bit_zero [simp]: "\<not> mask_bit (replicate n 0) i"
  by (auto simp: mask_bit_def)

lemma mask_bit_fold:
  "\<forall>i \<in> set ids. i div 64 < length bits \<Longrightarrow>
   length (fold (\<lambda>i b. set_bit_at b i) ids bits) = length bits \<and>
   (mask_bit (fold (\<lambda>i b. set_bit_at b i) ids bits) j \<longleftrightarrow> j \<in> set ids \<or> mask_bit bits j)"
  by (induction ids arbitrary: bits) (auto simp: mask_bit_set)

lemma slots: "(i::nat) < n \<Longrightarrow> i div 64 < (n + 63) div 64"
proof -
  assume "i < n"
  then have "(i + 64) div 64 \<le> (n + 63) div 64" by (intro div_le_mono) simp
  then show ?thesis by simp
qed

section \<open>The memo\<close>

definition entry_ok :: "program \<Rightarrow> stack list list \<Rightarrow> nat \<Rightarrow> nat \<Rightarrow> nat option \<Rightarrow> bool" where
  "entry_ok rs states cur cp r \<longleftrightarrow> cur < length states \<and>
     (case r of None \<Rightarrow> \<not> is_ok (vm_step rs (states ! cur) cp)
      | Some nxt \<Rightarrow> nxt < length states \<and> vm_step rs (states ! cur) cp = Ok (states ! nxt))"

definition intern_ok :: "stack list list \<Rightarrow> (stack list \<times> nat) list \<Rightarrow> bool" where
  "intern_ok states m \<longleftrightarrow> (\<forall>ns idx. map_of m ns = Some idx \<longrightarrow> idx < length states \<and> states ! idx = ns)"

definition memo_ok :: "program \<Rightarrow> stack list list \<Rightarrow> ((nat \<times> nat) \<times> nat option) list \<Rightarrow> bool" where
  "memo_ok rs states m \<longleftrightarrow> (\<forall>cur cp r. map_of m (cur, cp) = Some r \<longrightarrow> entry_ok rs states cur cp r)"

definition walk_ok :: "program \<Rightarrow> stack list \<Rightarrow> MaskWalk \<Rightarrow> bool" where
  "walk_ok rs seed w \<longleftrightarrow> mw_states w \<noteq> [] \<and> mw_states w ! 0 = seed \<and>
     intern_ok (mw_states w) (mw_intern w) \<and> memo_ok rs (mw_states w) (mw_memo w)"

lemma entry_ok_append: "entry_ok rs states cur cp r \<Longrightarrow> entry_ok rs (states @ [ns]) cur cp r"
  by (auto simp: entry_ok_def nth_append split: option.splits)

lemma memo_ok_append: "memo_ok rs states m \<Longrightarrow> memo_ok rs (states @ [ns]) m"
  unfolding memo_ok_def using entry_ok_append by blast

lemma memo_ok_Cons: "memo_ok rs states m \<Longrightarrow> entry_ok rs states cur cp r \<Longrightarrow> memo_ok rs states (((cur, cp), r) # m)"
  by (simp add: memo_ok_def)

lemma intern_ok_Cons: "intern_ok states m \<Longrightarrow> intern_ok (states @ [ns]) ((ns, length states) # m)"
  unfolding intern_ok_def by (auto simp: nth_append less_Suc_eq)

lemma walk_ok_new: "walk_ok rs seed (new_walk seed)"
  by (simp add: walk_ok_def new_walk_def intern_ok_def memo_ok_def)

lemma walk_ok_walked: "walk_ok rs seed (w\<lparr>mw_walked := n\<rparr>) = walk_ok rs seed w"
  by (simp add: walk_ok_def)

lemma memo_step_ok:
  assumes "walk_ok rs seed w" "cur < length (mw_states w)" "memo_step rs w cur cp = (w', r)"
  shows "walk_ok rs seed w' \<and> entry_ok rs (mw_states w') cur cp r \<and> mw_states w' ! cur = mw_states w ! cur"
proof -
  note w = assms(1) [unfolded walk_ok_def]
  show ?thesis
  proof (cases "map_of (mw_memo w) (cur, cp)")
    case (Some cached)
    then have "w' = w" "r = cached" using assms(3) by (simp_all add: memo_step_def)
    then show ?thesis using w Some assms(1) by (auto simp: memo_ok_def)
  next
    case None
    show ?thesis
    proof (cases "vm_step rs (mw_states w ! cur) cp")
      case (Inl e)
      then have "w' = w\<lparr>mw_memo := ((cur, cp), None) # mw_memo w\<rparr>" "r = None"
        using assms(3) None by (simp_all add: memo_step_def)
      moreover have "entry_ok rs (mw_states w) cur cp None" using Inl assms(2) by (simp add: entry_ok_def)
      ultimately show ?thesis using w by (simp add: walk_ok_def memo_ok_Cons)
    next
      case (Inr ns)
      show ?thesis
      proof (cases "map_of (mw_intern w) ns")
        case (Some idx)
        then have "w' = w\<lparr>mw_memo := ((cur, cp), Some idx) # mw_memo w\<rparr>" "r = Some idx"
          using assms(3) None Inr by (auto simp: memo_step_def)
        moreover have "entry_ok rs (mw_states w) cur cp (Some idx)"
          using Inr Some w assms(2) by (auto simp: entry_ok_def intern_ok_def)
        ultimately show ?thesis using w by (simp add: walk_ok_def memo_ok_Cons)
      next
        case no: None
        let ?s = "mw_states w @ [ns]"
        have e: "mw_states w' = ?s" "mw_intern w' = (ns, length (mw_states w)) # mw_intern w"
            "mw_memo w' = ((cur, cp), Some (length (mw_states w))) # mw_memo w" "r = Some (length (mw_states w))"
          using assms(3) None Inr no by (auto simp: memo_step_def Let_def)
        have "entry_ok rs ?s cur cp r" using Inr assms(2) e(4) by (simp add: entry_ok_def nth_append)
        then show ?thesis using w e assms(2)
          by (simp add: walk_ok_def memo_ok_Cons memo_ok_append intern_ok_Cons nth_append)
      qed
    qed
  qed
qed

text \<open>A walk of a piece answers as consumption from the stacks does.\<close>

lemma allows_loop_ok:
  "walk_ok rs seed w \<Longrightarrow> cur < length (mw_states w) \<Longrightarrow>
   walk_ok rs seed (fst (allows_loop rs w piece cur i)) \<and>
   snd (allows_loop rs w piece cur i) = is_ok (consume_loop rs k piece i (mw_states w ! cur))"
proof (induction rs w piece cur i rule: allows_loop.induct)
  case (1 rs w piece cur i)
  note a = allows_loop.simps [of rs w piece cur i] and c = consume_loop.simps [of rs k piece i "mw_states w ! cur"]
  show ?case
  proof (cases "i < length piece")
    case i: True
    show ?thesis
    proof (cases "decode_at piece i")
      case (CpStep cp n)
      show ?thesis
      proof (cases "surrogate cp")
        case True
        then show ?thesis using a c i CpStep "1.prems" by simp
      next
        case ns: False
        obtain w' r where m: "memo_step rs w cur cp = (w', r)" by (cases "memo_step rs w cur cp")
        note mo = memo_step_ok [OF "1.prems" m, unfolded entry_ok_def]
        show ?thesis
        proof (cases r)
          case None
          then show ?thesis using a c i CpStep ns m mo by (cases "vm_step rs (mw_states w ! cur) cp") auto
        next
          case (Some nxt)
          then have "walk_ok rs seed (fst (allows_loop rs w' piece nxt (i + n))) \<and>
            snd (allows_loop rs w' piece nxt (i + n)) = is_ok (consume_loop rs k piece (i + n) (mw_states w' ! nxt))"
            using "1.IH" [OF i CpStep ns m [symmetric] Some] mo by simp
          then show ?thesis using a c i CpStep ns m mo Some by auto
        qed
      qed
    next
      case Incomplete
      then show ?thesis using a c i "1.prems" by auto
    next
      case Invalid
      then show ?thesis using a c i "1.prems" by simp
    qed
  qed (use a c "1.prems" in simp)
qed

definition readable :: "program \<Rightarrow> stack list \<Rightarrow> byte list \<Rightarrow> bool" where
  "readable rs stacks piece \<longleftrightarrow> is_ok (consume_loop rs 0 piece 0 stacks)"

lemma allows_ok:
  assumes "walk_ok rs seed w"
  shows "walk_ok rs seed (fst (allows rs w piece))" "snd (allows rs w piece) = readable rs seed piece"
proof -
  let ?w = "w\<lparr>mw_walked := mw_walked w + 1\<rparr>"
  have w: "walk_ok rs seed ?w" using assms by (simp add: walk_ok_walked)
  then have "0 < length (mw_states ?w)" "mw_states ?w ! 0 = seed" by (auto simp: walk_ok_def)
  then show "walk_ok rs seed (fst (allows rs w piece))" "snd (allows rs w piece) = readable rs seed piece"
    using allows_loop_ok [OF w, of 0 piece 0 0] by (auto simp: allows_def readable_def)
qed

lemma consume_readable: "sk_partial key = [] \<Longrightarrow> is_ok (consume rs key piece) \<longleftrightarrow> readable rs (sk_stacks key) piece"
  by (auto simp: consume_def readable_def Let_def and_then_def split: sum.splits)

section \<open>Accepted code points\<close>

lemma in_ranges_append: "in_ranges (xs @ ys) c \<longleftrightarrow> in_ranges xs c \<or> in_ranges ys c"
  by (auto simp: in_ranges_def)

lemma in_ranges_Nil [simp]: "\<not> in_ranges [] c"
  by (simp add: in_ranges_def)

lemma in_ranges_Cons: "in_ranges ((a, b) # xs) c \<longleftrightarrow> a \<le> c \<and> c \<le> b \<or> in_ranges xs c"
  by (auto simp: in_ranges_def)

text \<open>Ascending ranges with a gap between neighbours.\<close>

definition spaced :: "(nat \<times> nat) list \<Rightarrow> bool" where
  "spaced rs \<longleftrightarrow> sorted_wrt (\<lambda>p q. snd p < fst q) rs \<and> (\<forall>(a, b) \<in> set rs. a \<le> b \<and> b < 2 ^ 32)"

lemma spaced_append:
  "spaced (xs @ [(a, b)]) \<longleftrightarrow> spaced xs \<and> (\<forall>p \<in> set xs. snd p < a) \<and> a \<le> b \<and> b < 2 ^ 32"
  by (auto simp: spaced_def sorted_wrt_append)

lemma merge_loop_ok:
  assumes "spaced out" "sorted (map fst ranges)" "\<forall>(a, b) \<in> set ranges. a \<le> b \<and> b < 2 ^ 32"
    and "out \<noteq> [] \<longrightarrow> (\<forall>(a, b) \<in> set ranges. fst (last out) \<le> a)"
  shows "spaced (merge_loop out ranges) \<and> (in_ranges (merge_loop out ranges) c \<longleftrightarrow> in_ranges (out @ ranges) c)"
  using assms
proof (induction out ranges rule: merge_loop.induct)
  case (2 out a b ranges)
  have ab: "a \<le> b" "b < 2 ^ 32" "\<forall>(x, y) \<in> set ranges. a \<le> x" using "2.prems"(2,3) by auto
  show ?case
  proof (cases "out \<noteq> [] \<and> a \<le> saturating_succ (snd (last out))")
    case True
    then obtain xs x y where out: "out = xs @ [(x, y)]" by (metis append_butlast_last_id surj_pair)
    have xy: "x \<le> a" "a \<le> y + 1" using "2.prems"(4) True out by (auto simp: saturating_succ_def)
    let ?out = "xs @ [(x, max y b)]"
    have s: "spaced ?out" using "2.prems"(1) ab xy out by (auto simp: spaced_append)
    have "spaced (merge_loop ?out ranges) \<and> (in_ranges (merge_loop ?out ranges) c \<longleftrightarrow> in_ranges (?out @ ranges) c)"
      using "2.IH"(1) [OF True] s "2.prems"(2,3) ab(3) xy out by fastforce
    moreover have "in_ranges (?out @ ranges) c \<longleftrightarrow> in_ranges (out @ (a, b) # ranges) c"
      using xy ab by (auto simp: out in_ranges_append in_ranges_Cons)
    ultimately show ?thesis using True out by simp
  next
    case False
    have "\<forall>p \<in> set out. snd p < a"
    proof (cases out rule: rev_cases)
      case (snoc xs p)
      obtain x y where p: "p = (x, y)" by (cases p)
      have "y < 2 ^ 32" "\<forall>q \<in> set xs. snd q < x" "x \<le> y" using "2.prems"(1) snoc p by (auto simp: spaced_append)
      moreover have "y < a" using False snoc p ab calculation(1) by (auto simp: saturating_succ_def min_def split: if_splits)
      ultimately show ?thesis using snoc p by auto
    qed simp
    then have s: "spaced (out @ [(a, b)])" using "2.prems"(1) ab by (simp add: spaced_append)
    have "spaced (merge_loop (out @ [(a, b)]) ranges) \<and>
        (in_ranges (merge_loop (out @ [(a, b)]) ranges) c \<longleftrightarrow> in_ranges ((out @ [(a, b)]) @ ranges) c)"
      using "2.IH"(2) [OF False s] "2.prems"(2,3) ab(3) by auto
    then show ?thesis using False by auto
  qed
qed simp

lemma merge_ranges_ok:
  assumes "\<forall>(a, b) \<in> set ranges. a \<le> b \<and> b < 2 ^ 32"
  shows "spaced (merge_ranges ranges)" "in_ranges (merge_ranges ranges) c \<longleftrightarrow> in_ranges ranges c"
proof -
  have "in_ranges (sort ranges) c \<longleftrightarrow> in_ranges ranges c" by (simp add: in_ranges_def)
  then show "spaced (merge_ranges ranges)" "in_ranges (merge_ranges ranges) c \<longleftrightarrow> in_ranges ranges c"
    using merge_loop_ok [of "[]" "sort ranges" c] assms by (simp_all add: merge_ranges_def spaced_def sorted_fst_sort)
qed

lemma contains_ranges:
  assumes "spaced (ac_ranges ac)"
  shows "ac_contains ac c \<longleftrightarrow> in_ranges (ac_ranges ac) c"
proof -
  define rs where "rs = ac_ranges ac"
  define P where "P = (\<lambda>p :: nat \<times> nat. fst p \<le> c)"
  define us vs where "us = takeWhile P rs" and "vs = dropWhile P rs"
  have rs: "rs = us @ vs" by (simp add: us_def vs_def)
  have sp: "sorted_wrt (\<lambda>p q. snd p < fst q) (us @ vs)" "\<forall>p \<in> set (us @ vs). fst p \<le> snd p"
    using assms unfolding rs [symmetric] rs_def spaced_def by (simp_all add: case_prod_beta)
  have vs: "\<not> in_ranges vs c"
  proof (cases vs)
    case (Cons p ps)
    then have "\<not> P p" unfolding vs_def by (metis hd_dropWhile list.distinct(1) list.sel(1))
    then have "c < fst p" by (simp add: P_def)
    moreover have "\<forall>q \<in> set ps. fst p < fst q"
      using sp Cons by (auto simp: sorted_wrt_append intro: le_less_trans)
    ultimately show ?thesis using Cons by (auto simp: in_ranges_def)
  qed simp
  have con: "ac_contains ac c \<longleftrightarrow> us \<noteq> [] \<and> c \<le> snd (last us)"
  proof -
    have "(\<lambda>(a, _). a \<le> c) = P" by (auto simp: P_def)
    moreover have "rs ! (length us - 1) = last us" if "us \<noteq> []"
      using that rs by (simp add: last_conv_nth nth_append)
    ultimately show ?thesis by (auto simp: ac_contains_def Let_def rs_def [symmetric] us_def [symmetric])
  qed
  show ?thesis
  proof (cases us rule: rev_cases)
    case Nil
    then show ?thesis using con vs rs unfolding rs_def by simp
  next
    case (snoc xs p)
    have "P p" using snoc unfolding us_def by (metis in_set_conv_decomp set_takeWhileD)
    then have "fst p \<le> c" by (simp add: P_def)
    moreover have "\<forall>q \<in> set xs. snd q < fst p" using sp(1) snoc by (auto simp: sorted_wrt_append)
    ultimately have "in_ranges us c \<longleftrightarrow> c \<le> snd p" unfolding snoc in_ranges_append by (force simp: in_ranges_def)
    moreover have "in_ranges rs c \<longleftrightarrow> in_ranges us c" using vs by (simp add: rs in_ranges_append)
    ultimately show ?thesis using con snoc unfolding rs_def by simp
  qed
qed

lemma set_codepoints: "c \<in> set (codepoints ac) \<longleftrightarrow> in_ranges (ac_ranges ac) c"
  by (auto simp: codepoints_def in_ranges_def case_prod_beta less_Suc_eq_le simp del: upt_Suc)

lemma first_loop_ok:
  assumes "\<forall>st \<in> set stacks. inst_ok (inst_at rs (last st))" "first_loop rs ranges stacks = Some out"
  shows "in_ranges out c \<longleftrightarrow> in_ranges ranges c \<or> \<not> surrogate c \<and> (\<exists>st \<in> set stacks. inst_matches (inst_at rs (last st)) c)"
    and "\<forall>(a, b) \<in> set ranges. a \<le> b \<and> b < 2 ^ 32 \<Longrightarrow> \<forall>(a, b) \<in> set out. a \<le> b \<and> b < 2 ^ 32"
proof -
  have "(in_ranges out c \<longleftrightarrow> in_ranges ranges c \<or> \<not> surrogate c \<and> (\<exists>st \<in> set stacks. inst_matches (inst_at rs (last st)) c)) \<and>
    ((\<forall>(a, b) \<in> set ranges. a \<le> b \<and> b < 2 ^ 32) \<longrightarrow> (\<forall>(a, b) \<in> set out. a \<le> b \<and> b < 2 ^ 32))"
    using assms
  proof (induction rs ranges stacks rule: first_loop.induct)
    case (2 rs ranges st stacks)
    have tail: "\<forall>st \<in> set stacks. inst_ok (inst_at rs (last st))" and ok: "inst_ok (inst_at rs (last st))"
      using "2.prems"(1) by simp_all
    show ?case
    proof (cases "inst_at rs (last st)")
      case (ICp d)
      let ?r = "if surrogate d then ranges else ranges @ [(d, d)]"
      have l: "first_loop rs ?r stacks = Some out" using "2.prems"(2) ICp by simp
      have "in_ranges ?r c \<longleftrightarrow> in_ranges ranges c \<or> \<not> surrogate c \<and> c = d"
        by (auto simp: in_ranges_append in_ranges_Cons)
      moreover have "(\<forall>(a, b) \<in> set ranges. a \<le> b \<and> b < 2 ^ 32) \<longrightarrow> (\<forall>(a, b) \<in> set ?r. a \<le> b \<and> b < 2 ^ 32)"
        using ok ICp by simp
      moreover have "inst_matches (inst_at rs (last st)) c \<longleftrightarrow> c = d" using ICp by (auto simp: inst_matches_def)
      moreover note "2.IH"(1) [OF ICp tail l]
      ultimately show ?thesis unfolding list.set(2) bex_simps(5) by blast
    next
      case (IClass negated cls)
      then have n: "\<not> negated" using "2.prems"(2) by (auto split: if_splits)
      let ?new = "concat (map (\<lambda>(a, b). non_surrogate_parts a b) cls)"
      have new: "in_ranges ?new c \<longleftrightarrow> \<not> surrogate c \<and> in_ranges cls c"
        using non_surrogate_parts_iff [of _ _ c] by (auto simp: in_ranges_def case_prod_beta) 
      have bnd: "\<forall>(a, b) \<in> set ?new. a \<le> b \<and> b < 2 ^ 32"
        using ok IClass by (auto simp: non_surrogate_parts_def split: if_splits)
      have l: "first_loop rs (ranges @ ?new) stacks = Some out" using "2.prems"(2) IClass n by simp
      have "in_ranges (ranges @ ?new) c \<longleftrightarrow> in_ranges ranges c \<or> \<not> surrogate c \<and> in_ranges cls c"
        using new by (simp add: in_ranges_append)
      moreover have "(\<forall>(a, b) \<in> set ranges. a \<le> b \<and> b < 2 ^ 32) \<longrightarrow> (\<forall>(a, b) \<in> set (ranges @ ?new). a \<le> b \<and> b < 2 ^ 32)"
        using bnd unfolding set_append ball_Un by blast
      moreover have "inst_matches (inst_at rs (last st)) c \<longleftrightarrow> in_ranges cls c" using IClass n by (auto simp: inst_matches_def)
      moreover note "2.IH"(2) [OF IClass n tail l]
      ultimately show ?thesis unfolding list.set(2) bex_simps(5) by blast
    next
      case Ret
      then show ?thesis using "2.IH"(6) tail "2.prems"(2) by (auto simp: inst_matches_def)
    next
      case (Split x y)
      then show ?thesis using "2.IH"(3) tail "2.prems"(2) by (auto simp: inst_matches_def)
    next
      case (Jump x)
      then show ?thesis using "2.IH"(4) tail "2.prems"(2) by (auto simp: inst_matches_def)
    next
      case (Call x)
      then show ?thesis using "2.IH"(5) tail "2.prems"(2) by (auto simp: inst_matches_def)
    qed (use "2.prems" in simp)
  qed simp
  then show "in_ranges out c \<longleftrightarrow> in_ranges ranges c \<or> \<not> surrogate c \<and> (\<exists>st \<in> set stacks. inst_matches (inst_at rs (last st)) c)"
    and "\<forall>(a, b) \<in> set ranges. a \<le> b \<and> b < 2 ^ 32 \<Longrightarrow> \<forall>(a, b) \<in> set out. a \<le> b \<and> b < 2 ^ 32" by blast+
qed

lemma first_codepoints_ok:
  assumes "\<forall>st \<in> set stacks. inst_ok (inst_at rs (last st))" "\<not> ac_wide (first_codepoints rs stacks)"
  shows "spaced (ac_ranges (first_codepoints rs stacks))"
    and "in_ranges (ac_ranges (first_codepoints rs stacks)) c \<longleftrightarrow>
      \<not> surrogate c \<and> (\<exists>st \<in> set stacks. inst_matches (inst_at rs (last st)) c)"
proof -
  obtain out where out: "first_loop rs [] stacks = Some out" "first_codepoints rs stacks = \<lparr>ac_wide = False, ac_ranges = merge_ranges out\<rparr>"
    using assms(2) by (cases "first_loop rs [] stacks") (simp_all add: first_codepoints_def)
  have "\<forall>(a, b) \<in> set out. a \<le> b \<and> b < 2 ^ 32" using first_loop_ok(2) [OF assms(1) out(1)] by simp
  then show "spaced (ac_ranges (first_codepoints rs stacks))"
    and "in_ranges (ac_ranges (first_codepoints rs stacks)) c \<longleftrightarrow>
      \<not> surrogate c \<and> (\<exists>st \<in> set stacks. inst_matches (inst_at rs (last st)) c)"
    using merge_ranges_ok [of out] first_loop_ok(1) [OF assms(1) out(1)] out(2) by simp_all
qed

end
