(* ===== verification/Grammar_Exact.thy ===== *)
theory Grammar_Exact
  imports Grammar_Mask_Inv
begin

text \<open>
  The index holds every token at its first code point, a walk marks exactly the tokens whose pieces
  the state can read, and so the mask of a state is exact; the runs of a compiled grammar keep the
  state consistent with the bytes accepted so far and the cache consistent with the masks.
\<close>

section \<open>The index\<close>

definition tokens_with :: "nat list \<Rightarrow> nat \<Rightarrow> byte list option list \<Rightarrow> (Utf8Step \<Rightarrow> bool) \<Rightarrow> nat set" where
  "tokens_with eog tid ps Q =
     {tid + k |k. k < length ps \<and> tid + k \<notin> set eog \<and> (\<exists>p. ps ! k = Some p \<and> p \<noteq> [] \<and> Q (decode_at p 0))}"

lemma tokens_with_Nil [simp]: "tokens_with eog tid [] Q = {}"
  by (simp add: tokens_with_def)

lemma ex_Suc_split: "(\<exists>k. P k) \<longleftrightarrow> P 0 \<or> (\<exists>k. P (Suc k))"
  by (metis not0_implies_Suc)

lemma tokens_with_Cons:
  "tokens_with eog tid (x # ps) Q =
     (if tid \<notin> set eog \<and> (\<exists>p. x = Some p \<and> p \<noteq> [] \<and> Q (decode_at p 0)) then {tid} else {}) \<union> tokens_with eog (Suc tid) ps Q"
proof -
  have "(\<exists>k. i = tid + k \<and> k < length (x # ps) \<and> tid + k \<notin> set eog \<and> (\<exists>p. (x # ps) ! k = Some p \<and> p \<noteq> [] \<and> Q (decode_at p 0))) \<longleftrightarrow>
    (i = tid \<and> tid \<notin> set eog \<and> (\<exists>p. x = Some p \<and> p \<noteq> [] \<and> Q (decode_at p 0))) \<or>
    (\<exists>k. i = Suc tid + k \<and> k < length ps \<and> Suc tid + k \<notin> set eog \<and> (\<exists>p. ps ! k = Some p \<and> p \<noteq> [] \<and> Q (decode_at p 0)))" for i
    by (subst ex_Suc_split) auto
  then show ?thesis unfolding tokens_with_def by auto
qed

definition bucket_set :: "TokenIndex \<Rightarrow> nat \<Rightarrow> nat set" where
  "bucket_set ix cp = (case map_of (ti_buckets ix) cp of None \<Rightarrow> {} | Some l \<Rightarrow> set l)"

lemma build_loop_ok:
  assumes "build_loop eog tid ps ix = Ok ix'" "bt_wf (ti_buckets ix)"
  shows "bt_wf (ti_buckets ix') \<and>
    set (ti_headless ix') = set (ti_headless ix) \<union> tokens_with eog tid ps (\<lambda>s. s = Incomplete) \<and>
    (\<forall>cp. bucket_set ix' cp = bucket_set ix cp \<union> tokens_with eog tid ps (\<lambda>s. \<exists>n. s = CpStep cp n)) \<and>
    (\<forall>k < length ps. tid + k \<notin> set eog \<longrightarrow> ps ! k \<noteq> Some [])"
  using assms
proof (induction eog tid ps ix rule: build_loop.induct)
  case (2 eog tid pieces ix)
  then show ?case by (auto simp: tokens_with_Cons less_Suc_eq_0_disj)
next
  case (3 eog tid piece pieces ix)
  show ?case
  proof (cases "tid \<in> set eog")
    case True
    then show ?thesis using 3 by (auto simp: tokens_with_Cons less_Suc_eq_0_disj)
  next
    case False
    then have ne: "piece \<noteq> []" using "3.prems" by auto
    show ?thesis
    proof (cases "decode_at piece 0")
      case (CpStep cp n)
      let ?l = "(case map_of (ti_buckets ix) cp of None \<Rightarrow> [] | Some l \<Rightarrow> l) @ [tid]"
      let ?ix = "ix\<lparr>ti_buckets := bt_insert cp ?l (ti_buckets ix)\<rparr>"
      have b: "bucket_set ?ix d = bucket_set ix d \<union> (if d = cp then {tid} else {})" for d
        by (auto simp: bucket_set_def split: option.splits)
      have "build_loop eog (Suc tid) pieces ?ix = Ok ix'" using "3.prems" False ne CpStep by simp
      from "3.IH"(2) [OF False ne CpStep this] "3.prems"(2)
      show ?thesis using False ne CpStep b by (auto simp: tokens_with_Cons less_Suc_eq_0_disj)
    next
      case Incomplete
      let ?ix = "ix\<lparr>ti_headless := ti_headless ix @ [tid]\<rparr>"
      have b: "bucket_set ?ix d = bucket_set ix d" for d by (simp add: bucket_set_def)
      have "build_loop eog (Suc tid) pieces ?ix = Ok ix'" using "3.prems" False ne Incomplete by simp
      from "3.IH"(3) [OF False ne Incomplete this] "3.prems"(2)
      show ?thesis using False ne Incomplete b by (auto simp: tokens_with_Cons less_Suc_eq_0_disj)
    next
      case Invalid
      then have "build_loop eog (Suc tid) pieces ix = Ok ix'" using "3.prems" False ne by simp
      from "3.IH"(4) [OF False ne Invalid this "3.prems"(2)]
      show ?thesis using False ne Invalid by (auto simp: tokens_with_Cons less_Suc_eq_0_disj)
    qed
  qed
qed auto

section \<open>Walks that mark\<close>

definition marks :: "program \<Rightarrow> stack list \<Rightarrow> nat \<Rightarrow> (MaskWalk \<times> bitset \<Rightarrow> MaskWalk \<times> bitset) \<Rightarrow> nat set \<Rightarrow> bool" where
  "marks rs seed L f S \<longleftrightarrow>
     (\<forall>wb. walk_ok rs seed (fst wb) \<longrightarrow> length (snd wb) = L \<longrightarrow>
        walk_ok rs seed (fst (f wb)) \<and> length (snd (f wb)) = L \<and>
        (\<forall>j. mask_bit (snd (f wb)) j \<longleftrightarrow> mask_bit (snd wb) j \<or> j \<in> S))"

lemma marks_id: "marks rs seed L (\<lambda>wb. wb) {}"
  by (simp add: marks_def)

lemma marks_comp: "marks rs seed L f S \<Longrightarrow> marks rs seed L h T \<Longrightarrow> marks rs seed L (\<lambda>wb. h (f wb)) (S \<union> T)"
  unfolding marks_def Un_iff by blast

lemma marks_fold:
  "\<forall>x \<in> set xs. marks rs seed L (f x) (S x) \<Longrightarrow> marks rs seed L (fold f xs) (\<Union>x \<in> set xs. S x)"
proof (induction xs)
  case Nil
  then show ?case by (simp add: marks_def)
next
  case (Cons x xs)
  then have "marks rs seed L (\<lambda>wb. fold f xs (f x wb)) (S x \<union> (\<Union>x \<in> set xs. S x))"
    by (intro marks_comp) auto
  then show ?case by (simp add: comp_def)
qed

lemma marks_allows:
  assumes "i div 64 < L"
  shows "marks rs seed L (\<lambda>wb. case allows rs (fst wb) piece of (w', allowed) \<Rightarrow>
      (w', if allowed then set_bit_at (snd wb) i else snd wb)) (if readable rs seed piece then {i} else {})"
  unfolding marks_def using assms allows_ok by (auto simp: mask_bit_set case_prod_beta)

lemma token_step_marks:
  "i div 64 < L \<Longrightarrow> marks (g_rules g) seed L (token_step g i) (if readable (g_rules g) seed (the (g_pieces g ! i)) then {i} else {})"
  using marks_allows [of i L "g_rules g" seed "the (g_pieces g ! i)"] by (simp add: token_step_def [abs_def])

lemma bucket_marks:
  "\<forall>i \<in> set ids. i div 64 < L \<Longrightarrow>
   marks (g_rules g) seed L (bucket g ids) {i \<in> set ids. readable (g_rules g) seed (the (g_pieces g ! i))}"
proof -
  assume "\<forall>i \<in> set ids. i div 64 < L"
  then have "marks (g_rules g) seed L (fold (token_step g) ids)
      (\<Union>i \<in> set ids. if readable (g_rules g) seed (the (g_pieces g ! i)) then {i} else {})"
    by (intro marks_fold) (simp add: token_step_marks)
  moreover have "(\<Union>i \<in> set ids. if readable (g_rules g) seed (the (g_pieces g ! i)) then {i} else {}) =
      {i \<in> set ids. readable (g_rules g) seed (the (g_pieces g ! i))}" by auto
  ultimately show ?thesis by (simp add: bucket_def [abs_def])
qed

lemma whole_step_marks:
  assumes "i div 64 < L"
  shows "marks (g_rules g) (sk_stacks key) L (whole_step g key i)
    (if i \<notin> set (g_eog_ids g) \<and> (\<exists>p. g_pieces g ! i = Some p \<and> is_ok (consume (g_rules g) key p)) then {i} else {})"
proof (cases "i \<in> set (g_eog_ids g) \<or> g_pieces g ! i = None")
  case True
  then have "whole_step g key i = (\<lambda>wb. wb)" by (auto simp: whole_step_def fun_eq_iff)
  then show ?thesis using True marks_id by auto
next
  case False
  then obtain p where p: "g_pieces g ! i = Some p" by auto
  show ?thesis
  proof (cases "sk_partial key = []")
    case True
    then have "whole_step g key i = (\<lambda>wb. case allows (g_rules g) (fst wb) p of (w', allowed) \<Rightarrow>
      (w', if allowed then set_bit_at (snd wb) i else snd wb))" using False p by (simp add: whole_step_def fun_eq_iff)
    then show ?thesis using marks_allows [OF assms] p False consume_readable [OF True] by simp
  next
    case carried: False
    then have "whole_step g key i = (\<lambda>wb. ((fst wb)\<lparr>mw_walked := mw_walked (fst wb) + 1\<rparr>,
      if is_ok (consume (g_rules g) key p) then set_bit_at (snd wb) i else snd wb))"
      using False p by (simp add: whole_step_def fun_eq_iff)
    then show ?thesis using p False assms by (auto simp: marks_def walk_ok_walked mask_bit_set)
  qed
qed

section \<open>The mask is exact\<close>

definition grammar_ok :: "Compiled \<Rightarrow> bool" where
  "grammar_ok g \<longleftrightarrow> program_ok (g_rules g) \<and> build (g_pieces g) (g_eog_ids g) = Ok (g_index g) \<and>
     g_n_vocab g = length (g_pieces g) \<and> (\<forall>i \<in> set (g_eog_ids g). i < g_n_vocab g)"

definition key_ok :: "Compiled \<Rightarrow> StateKey \<Rightarrow> bool" where
  "key_ok g key \<longleftrightarrow> (\<forall>st \<in> set (sk_stacks key). stack_ok (g_rules g) st)"

text \<open>The tokens a state admits.\<close>

definition admits :: "Compiled \<Rightarrow> StateKey \<Rightarrow> bool \<Rightarrow> nat \<Rightarrow> bool" where
  "admits g key accepting i \<longleftrightarrow>
     (if i \<in> set (g_eog_ids g) then sk_done key \<or> accepting
      else \<not> sk_done key \<and> (\<exists>p. g_pieces g ! i = Some p \<and> is_ok (consume (g_rules g) key p)))"

lemma eog_bits_ok:
  assumes "grammar_ok g"
  shows "length (eog_bits g key acc) = (g_n_vocab g + 63) div 64"
    "mask_bit (eog_bits g key acc) i \<longleftrightarrow> i \<in> set (g_eog_ids g) \<and> (sk_done key \<or> acc)"
  using mask_bit_fold [of "g_eog_ids g" "replicate ((g_n_vocab g + 63) div 64) 0"] assms slots
  by (auto simp: eog_bits_def Let_def grammar_ok_def)

lemma mask_whole_exact:
  assumes "grammar_ok g"
  shows "length (fst (mask_whole g key acc)) = (g_n_vocab g + 63) div 64 \<and>
    (mask_bit (fst (mask_whole g key acc)) i \<longleftrightarrow> i < g_n_vocab g \<and> admits g key acc i)"
proof (cases "sk_done key")
  case True
  then show ?thesis using eog_bits_ok [OF assms] assms by (auto simp: mask_whole_def admits_def Let_def grammar_ok_def)
next
  case False
  let ?S = "\<Union>i \<in> set [0..<g_n_vocab g]. if i \<notin> set (g_eog_ids g) \<and>
      (\<exists>p. g_pieces g ! i = Some p \<and> is_ok (consume (g_rules g) key p)) then {i} else {}"
  have "marks (g_rules g) (sk_stacks key) ((g_n_vocab g + 63) div 64) (fold (whole_step g key) [0..<g_n_vocab g]) ?S"
    by (rule marks_fold) (use slots whole_step_marks in auto)
  then have "length (snd (fold (whole_step g key) [0..<g_n_vocab g] (new_walk (sk_stacks key), eog_bits g key acc))) = (g_n_vocab g + 63) div 64 \<and>
      (mask_bit (snd (fold (whole_step g key) [0..<g_n_vocab g] (new_walk (sk_stacks key), eog_bits g key acc))) i \<longleftrightarrow>
      mask_bit (eog_bits g key acc) i \<or> i \<in> ?S)"
    using eog_bits_ok(1) [OF assms] walk_ok_new by (simp add: marks_def)
  then show ?thesis using False eog_bits_ok(2) [OF assms] assms
    by (auto simp: mask_whole_def admits_def Let_def case_prod_beta grammar_ok_def split: if_splits)
qed

text \<open>A token of the index has its bit only if its first code point is accepted.\<close>

lemma readable_head:
  assumes "decode_at p 0 = CpStep c n" "p \<noteq> []" "readable rs stacks p"
  shows "\<not> surrogate c \<and> (\<exists>st \<in> set stacks. inst_matches (inst_at rs (last st)) c)"
proof (rule ccontr)
  assume no: "\<not> ?thesis"
  have "\<not> is_ok (vm_step rs stacks c)" if "\<not> surrogate c"
    using no that by (simp add: vm_step_def filter_empty_conv)
  then show False using assms consume_loop.simps [of rs 0 p 0 stacks]
    by (auto simp: readable_def split: if_splits sum.splits)
qed

lemma readable_invalid: "decode_at p 0 = Invalid \<Longrightarrow> p \<noteq> [] \<Longrightarrow> \<not> readable rs stacks p"
  using consume_loop.simps [of rs 0 p 0 stacks] by (simp add: readable_def)

lemma build_ok:
  assumes "grammar_ok g"
  shows "bt_wf (ti_buckets (g_index g))"
    "set (ti_headless (g_index g)) = tokens_with (g_eog_ids g) 0 (g_pieces g) (\<lambda>s. s = Incomplete)"
    "bucket_set (g_index g) cp = tokens_with (g_eog_ids g) 0 (g_pieces g) (\<lambda>s. \<exists>n. s = CpStep cp n)"
    "i < g_n_vocab g \<Longrightarrow> i \<notin> set (g_eog_ids g) \<Longrightarrow> g_pieces g ! i \<noteq> Some []"
proof -
  let ?ix = "\<lparr>ti_buckets = [], ti_headless = []\<rparr>"
  have b: "build_loop (g_eog_ids g) 0 (g_pieces g) ?ix = Ok (g_index g)" "length (g_pieces g) = g_n_vocab g"
    using assms by (auto simp: grammar_ok_def build_def)
  have e: "bt_wf (ti_buckets ?ix)" "set (ti_headless ?ix) = {}" "\<And>cp. bucket_set ?ix cp = {}" by (simp_all add: bucket_set_def)
  note ok = build_loop_ok [OF b(1) e(1), unfolded e(2,3) Un_empty_left]
  show "bt_wf (ti_buckets (g_index g))"
    "set (ti_headless (g_index g)) = tokens_with (g_eog_ids g) 0 (g_pieces g) (\<lambda>s. s = Incomplete)"
    "bucket_set (g_index g) cp = tokens_with (g_eog_ids g) 0 (g_pieces g) (\<lambda>s. \<exists>n. s = CpStep cp n)"
    using ok by blast+
  show "i < g_n_vocab g \<Longrightarrow> i \<notin> set (g_eog_ids g) \<Longrightarrow> g_pieces g ! i \<noteq> Some []"
    using ok b(2) by simp
qed

lemma tokens_with_iff:
  "i \<in> tokens_with eog 0 ps Q \<longleftrightarrow> i < length ps \<and> i \<notin> set eog \<and> (\<exists>p. ps ! i = Some p \<and> p \<noteq> [] \<and> Q (decode_at p 0))"
  by (auto simp: tokens_with_def)

text \<open>Both orders of the bucket walk visit the buckets of the accepted code points.\<close>

lemma cp_walk_marks:
  assumes ok: "\<forall>cp ids. map_of bs cp = Some ids \<longrightarrow> marks rs seed L (bucket g ids) (S ids)"
  shows "marks rs seed L (fold (\<lambda>cp wb. case map_of bs cp of Some ids \<Rightarrow> bucket g ids wb | None \<Rightarrow> wb) cps)
    (\<Union>cp \<in> set cps. case map_of bs cp of Some ids \<Rightarrow> S ids | None \<Rightarrow> {})"
  by (rule marks_fold) (use ok in \<open>auto simp: marks_id split: option.splits\<close>)

lemma entry_walk_marks:
  assumes ok: "\<forall>cp ids. (cp, ids) \<in> set bs \<longrightarrow> marks rs seed L (bucket g ids) (S ids)"
  shows "marks rs seed L (fold (\<lambda>(cp, ids) wb. if P cp then bucket g ids wb else wb) bs)
    (\<Union>(cp, ids) \<in> set bs. if P cp then S ids else {})"
  by (rule marks_fold) (use ok in \<open>auto simp: marks_id\<close>)

lemma bucket_walk_marks:
  assumes ac: "spaced (ac_ranges ac)" and wf: "bt_wf bs"
    and ok: "\<forall>cp ids. map_of bs cp = Some ids \<longrightarrow> marks rs seed L (bucket g ids) (S ids)"
  shows "marks rs seed L (\<lambda>wb. if width ac \<le> length bs
      then fold (\<lambda>cp wb. case map_of bs cp of Some ids \<Rightarrow> bucket g ids wb | None \<Rightarrow> wb) (codepoints ac) wb
      else fold (\<lambda>(cp, ids) wb. if ac_contains ac cp then bucket g ids wb else wb) bs wb)
    {i. \<exists>cp ids. in_ranges (ac_ranges ac) cp \<and> map_of bs cp = Some ids \<and> i \<in> S ids}" (is "marks _ _ _ ?f ?T")
proof (cases "width ac \<le> length bs")
  case True
  have "(\<Union>cp \<in> set (codepoints ac). case map_of bs cp of Some ids \<Rightarrow> S ids | None \<Rightarrow> {}) = ?T"
    by (auto simp: set_codepoints split: option.splits)
  then show ?thesis using cp_walk_marks [OF ok, of "codepoints ac"] True by simp
next
  case False
  have m: "(cp, ids) \<in> set bs \<longleftrightarrow> map_of bs cp = Some ids" for cp ids
    using wf by (simp add: bt_wf_def strict_sorted_iff)
  have "(\<Union>(cp, ids) \<in> set bs. if ac_contains ac cp then S ids else {}) = ?T"
    using contains_ranges [OF ac] by (force simp: m split: if_splits)
  then show ?thesis using entry_walk_marks [of bs rs seed L g S "ac_contains ac"] ok False by (simp add: m)
qed

lemma mask_buckets_exact:
  assumes g: "grammar_ok g" and key: "key_ok g key" and pl: "plan g key = Buckets ac"
  shows "length (fst (mask_buckets g key acc ac)) = (g_n_vocab g + 63) div 64 \<and>
    (mask_bit (fst (mask_buckets g key acc ac)) i \<longleftrightarrow> i < g_n_vocab g \<and> admits g key acc i)"
proof -
  let ?rs = "g_rules g" and ?st = "sk_stacks key" and ?L = "(g_n_vocab g + 63) div 64" and ?bs = "ti_buckets (g_index g)"
  let ?R = "\<lambda>ids. {i \<in> set ids. readable ?rs ?st (the (g_pieces g ! i))}"
  have k: "sk_partial key = []" "\<not> sk_done key" "ac = first_codepoints ?rs ?st" "\<not> ac_wide ac"
    using pl by (auto simp: plan_def Let_def split: if_splits)
  have io: "\<forall>st \<in> set ?st. inst_ok (inst_at ?rs (last st))"
    using key g stack_ok_inst_ok by (auto simp: key_ok_def grammar_ok_def)
  note fc = first_codepoints_ok [OF io, folded k(3), OF k(4)]
  have len: "length (g_pieces g) = g_n_vocab g" using g by (simp add: grammar_ok_def)
  note bo = build_ok [OF g]
  have hl: "marks ?rs ?st ?L (fold (token_step g) (ti_headless (g_index g))) (?R (ti_headless (g_index g)))"
    using bucket_marks [of "ti_headless (g_index g)" ?L g ?st] bo(2) slots len by (auto simp: bucket_def [abs_def] tokens_with_iff)
  have bm: "\<forall>cp ids. map_of ?bs cp = Some ids \<longrightarrow> marks ?rs ?st ?L (bucket g ids) (?R ids)"
  proof (intro allI impI bucket_marks ballI)
    fix cp ids i assume "map_of ?bs cp = Some ids" "i \<in> set ids"
    then have "i \<in> bucket_set (g_index g) cp" by (simp add: bucket_set_def)
    then have "i < g_n_vocab g" using len by (simp add: bo(3) tokens_with_iff)
    then show "i div 64 < ?L" by (rule slots)
  qed
  note all = marks_comp [OF hl bucket_walk_marks [OF fc(1) bo(1) bm], unfolded marks_def, rule_format,
      of "(new_walk ?st, eog_bits g key acc)"]
  have len': "length (fst (mask_buckets g key acc ac)) = ?L"
    using all eog_bits_ok(1) [OF g] walk_ok_new by (simp add: mask_buckets_def Let_def case_prod_beta)
  have "mask_bit (fst (mask_buckets g key acc ac)) i \<longleftrightarrow> mask_bit (eog_bits g key acc) i \<or>
     i \<in> ?R (ti_headless (g_index g)) \<or> (\<exists>cp ids. in_ranges (ac_ranges ac) cp \<and> map_of ?bs cp = Some ids \<and> i \<in> ?R ids)"
    using all eog_bits_ok(1) [OF g] walk_ok_new by (simp add: mask_buckets_def Let_def case_prod_beta)
  also have "(\<exists>cp ids. in_ranges (ac_ranges ac) cp \<and> map_of ?bs cp = Some ids \<and> i \<in> ?R ids) \<longleftrightarrow>
      (\<exists>cp. in_ranges (ac_ranges ac) cp \<and> i \<in> bucket_set (g_index g) cp \<and> readable ?rs ?st (the (g_pieces g ! i)))"
    by (auto simp: bucket_set_def split: option.splits)
  also have "mask_bit (eog_bits g key acc) i \<or> i \<in> ?R (ti_headless (g_index g)) \<or>
      (\<exists>cp. in_ranges (ac_ranges ac) cp \<and> i \<in> bucket_set (g_index g) cp \<and> readable ?rs ?st (the (g_pieces g ! i))) \<longleftrightarrow>
      i < g_n_vocab g \<and> admits g key acc i"
  proof (cases "i \<in> set (g_eog_ids g) \<or> g_n_vocab g \<le> i \<or> g_pieces g ! i = None")
    case True
    have "\<forall>j \<in> set (g_eog_ids g). j < g_n_vocab g" using g unfolding grammar_ok_def by blast
    then show ?thesis using True len
      unfolding admits_def eog_bits_ok(2) [OF g] mem_Collect_eq bo(2,3) tokens_with_iff by auto
  next
    case False
    then obtain p where p: "g_pieces g ! i = Some p" "i \<notin> set (g_eog_ids g)" and i: "i < g_n_vocab g" by auto
    then have ne: "p \<noteq> []" using bo(4) i by auto
    have "admits g key acc i \<longleftrightarrow> readable ?rs ?st p" using p k consume_readable [OF k(1)] by (simp add: admits_def)
    moreover have "in_ranges (ac_ranges ac) c" if "decode_at p 0 = CpStep c n" "readable ?rs ?st p" for c n
      using readable_head [OF that(1) ne that(2)] fc(2) by simp
    ultimately show ?thesis using p ne i len readable_invalid [OF _ ne]
      unfolding eog_bits_ok(2) [OF g] mem_Collect_eq bo(2,3) tokens_with_iff
      by (cases "decode_at p 0") auto
  qed
  finally show ?thesis using len' by blast
qed

text \<open>A mask is determined by its bits.\<close>

lemma mask_eqI:
  assumes "length xs = length ys" "\<And>i. mask_bit xs i \<longleftrightarrow> mask_bit ys i"
  shows "xs = ys"
proof (rule nth_equalityI [OF assms(1)], rule bit_word_eqI)
  fix k n assume k: "k < length xs" and n: "n < LENGTH(64)"
  then have "(64 * k + n) div 64 = k" "(64 * k + n) mod 64 = n" by simp_all
  then show "bit (xs ! k) n = bit (ys ! k) n" using assms(2) [of "64 * k + n"] k assms(1) by (simp add: mask_bit_def)
qed

lemma mask_of_whole:
  assumes "grammar_ok g" "key_ok g key"
  shows "fst (mask_of g key acc) = fst (mask_whole g key acc)"
proof (cases "plan g key")
  case (Buckets ac)
  then show ?thesis using mask_buckets_exact [OF assms Buckets] mask_whole_exact [OF assms(1)]
    by (auto simp: mask_of_def intro!: mask_eqI)
qed (simp add: mask_of_def)

lemma mask_of_exact:
  assumes "grammar_ok g" "key_ok g key" "i < g_n_vocab g"
  shows "mask_bit (fst (mask_of g key acc)) i \<longleftrightarrow> admits g key acc i"
  using mask_whole_exact [OF assms(1)] assms(3) by (simp add: mask_of_whole [OF assms(1,2)])

section \<open>The state of a run\<close>

definition mask_exact :: "Compiled \<Rightarrow> StateKey \<Rightarrow> bitset \<Rightarrow> bool" where
  "mask_exact g key bits \<longleftrightarrow>
     (\<forall>i < g_n_vocab g. mask_bit bits i \<longleftrightarrow> admits g key (state_key_accepting (g_rules g) key) i)"

definition state_ok :: "Compiled \<Rightarrow> byte list \<Rightarrow> GrammarState \<Rightarrow> bool" where
  "state_ok g h st \<longleftrightarrow> stands_for (g_rules g) (g_root g) h (gs_inner st) \<and>
     gs_accepting st = state_key_accepting (g_rules g) (gs_inner st) \<and>
     (\<forall>key bits. map_of (gs_cache st) key = Some bits \<longrightarrow> mask_exact g key bits)"

lemma stands_for_key_ok:
  assumes "program_ok (g_rules g)" "stack_ok (g_rules g) [(g_root g, 0)]" "stands_for (g_rules g) (g_root g) h key"
  shows "key_ok g key"
  using assms runs_stack_ok unfolding stands_for_def key_ok_def by (auto simp: reach_def)

lemma initial_state_ok:
  assumes "from_gbnf source pieces eog = Ok g"
  obtains st where "initial_state g = Some st" "state_ok g [] st" "\<not> sk_done (gs_inner st)"
proof -
  obtain stacks where s: "close (g_rules g) [[(g_root g, 0)]] = Ok stacks"
    using from_gbnf_program(4) [OF assms] by (cases "close (g_rules g) [[(g_root g, 0)]]") auto
  show ?thesis
    by (rule that [OF _ _]) (simp add: initial_state_def s Let_def, simp_all add: state_ok_def stands_for_initial [OF s])
qed

lemma stands_for_done [simp]: "stands_for rs root h (key\<lparr>sk_done := d\<rparr>) = stands_for rs root h key"
  by (simp add: stands_for_def)

lemma accept_token_ok:
  assumes "state_ok g h st" "accept_token g st tid = (st', r)"
  shows "state_ok g (h @ (if is_ok r \<and> tid \<notin> set (g_eog_ids g) then the (g_pieces g ! tid) else [])) st'"
    and "\<not> is_ok r \<Longrightarrow> st' = st"
proof -
  have acc: "accept_token g st tid = (st', r)" by (rule assms(2))
  consider (refused) "st' = st" "\<not> is_ok r"
    | (ended) "tid \<in> set (g_eog_ids g)" "r = Ok ()" "gs_accepting st"
      "st' = st\<lparr>gs_inner := (gs_inner st)\<lparr>sk_done := True\<rparr>, gs_accepting := False, gs_cache := []\<rparr>"
    | (read) p nxt where "tid \<notin> set (g_eog_ids g)" "r = Ok ()" "g_pieces g ! tid = Some p" "consume (g_rules g) (gs_inner st) p = Ok nxt"
      "st' = st\<lparr>gs_accepting := state_key_accepting (g_rules g) nxt, gs_inner := nxt\<rparr>"
  proof (cases "tid \<ge> g_n_vocab g \<or> sk_done (gs_inner st)")
    case True
    then have "fst (accept_token g st tid) = st \<and> \<not> is_ok (snd (accept_token g st tid))" by (auto simp: accept_token_def)
    then show ?thesis using acc that(1) by simp
  next
    case False
    note live = False
    show ?thesis
    proof (cases "tid \<in> set (g_eog_ids g)")
      case True
      then have "accept_token g st tid = (if \<not> gs_accepting st then (st, Err (EogNotAccepting tid))
         else (st\<lparr>gs_inner := (gs_inner st)\<lparr>sk_done := True\<rparr>, gs_accepting := False, gs_cache := []\<rparr>, Ok ()))"
        using live by (simp add: accept_token_def)
      then show ?thesis using acc that(1,2) True by (cases "gs_accepting st") simp_all
    next
      case False
      show ?thesis
      proof (cases "g_pieces g ! tid")
        case None
        then have "accept_token g st tid = (st, Err (EmptyPiece tid))" using live False by (simp add: accept_token_def)
        then show ?thesis using acc that(1) by simp
      next
        case (Some p)
        show ?thesis
        proof (cases "consume (g_rules g) (gs_inner st) p")
          case (Inl e)
          then have "fst (accept_token g st tid) = st \<and> \<not> is_ok (snd (accept_token g st tid))"
            using live False Some by (simp add: accept_token_def case_prod_beta)
          then show ?thesis using acc that(1) by simp
        next
          case (Inr nxt)
          then have "accept_token g st tid = (st\<lparr>gs_accepting := state_key_accepting (g_rules g) nxt, gs_inner := nxt\<rparr>, Ok ())"
            using live False Some by (simp add: accept_token_def)
          then show ?thesis using acc that(3) False Some Inr by simp
        qed
      qed
    qed
  qed
  note c = this
  show "state_ok g (h @ (if is_ok r \<and> tid \<notin> set (g_eog_ids g) then the (g_pieces g ! tid) else [])) st'"
    using c
  proof cases
    case ended
    then show ?thesis using assms(1) by (simp add: state_ok_def state_key_accepting_def)
  next
    case read
    then show ?thesis using assms(1) consume_stands_for [OF _ read(4)] by (simp add: state_ok_def)
  qed (use assms(1) in simp)
  show "\<not> is_ok r \<Longrightarrow> st' = st" using c by cases auto
qed

lemma token_mask_ok:
  assumes g: "grammar_ok g" "stack_ok (g_rules g) [(g_root g, 0)]" and st: "state_ok g h st" and m: "token_mask g st = (st', bits)"
  shows "state_ok g h st'" "mask_exact g (gs_inner st) bits" "gs_inner st' = gs_inner st"
proof -
  let ?key = "gs_inner st" and ?bits = "fst (mask_of g (gs_inner st) (gs_accepting st))"
  have key: "key_ok g ?key" using stands_for_key_ok g st by (auto simp: grammar_ok_def state_ok_def)
  have b: "mask_exact g ?key ?bits" using mask_of_exact [OF g(1) key] st by (simp add: mask_exact_def state_ok_def)
  show "state_ok g h st'" "mask_exact g (gs_inner st) bits" "gs_inner st' = gs_inner st"
    using st m b by (auto simp: token_mask_def state_ok_def Let_def split: option.splits if_splits)
qed

lemma from_gbnf_ok:
  assumes "from_gbnf source pieces eog = Ok g" "length eog \<le> length pieces"
  shows "grammar_ok g"
proof -
  from assms(1) obtain "build pieces (g_eog_ids g) = Ok (g_index g)" "g_pieces g = pieces" "g_n_vocab g = length pieces"
    "g_eog_ids g = map fst (filter snd (zip [0..<length eog] eog))" by (rule from_gbnfE)
  then show ?thesis using assms(2) from_gbnf_program(1) [OF assms(1)]
    by (auto simp: grammar_ok_def in_set_zip)
qed

text \<open>A token is admitted exactly when its acceptance succeeds, unless the run has ended.\<close>

lemma admits_accept:
  assumes "\<not> sk_done (gs_inner st)" "i < g_n_vocab g"
  shows "admits g (gs_inner st) (gs_accepting st) i \<longleftrightarrow> is_ok (snd (accept_token g st i))"
  using assms by (auto simp: admits_def accept_token_def split: option.splits sum.splits)

end
