(* ===== verification/Grammar_Props.thy ===== *)
theory Grammar_Props
  imports Grammar_Exact Sampler_Props
begin

text \<open>
  The properties of the grammar engine over the runs of a compiled grammar, and of constrained
  sampling, where the pipeline of the sampler calls the engine.
\<close>

section \<open>Runs\<close>

text \<open>The states that masks and accepted tokens lead to, with the bytes accepted.\<close>

inductive grammar_run :: "Compiled \<Rightarrow> byte list \<Rightarrow> GrammarState \<Rightarrow> bool" for g where
  gr_start: "initial_state g = Some st \<Longrightarrow> grammar_run g [] st"
| gr_mask: "grammar_run g h st \<Longrightarrow> token_mask g st = (st', bits) \<Longrightarrow> grammar_run g h st'"
| gr_eog: "grammar_run g h st \<Longrightarrow> tid \<in> set (g_eog_ids g) \<Longrightarrow> accept_token g st tid = (st', Ok ()) \<Longrightarrow> grammar_run g h st'"
| gr_token: "grammar_run g h st \<Longrightarrow> tid \<notin> set (g_eog_ids g) \<Longrightarrow> accept_token g st tid = (st', Ok ()) \<Longrightarrow>
    g_pieces g ! tid = Some piece \<Longrightarrow> grammar_run g (h @ piece) st'"

lemma compiled_ok:
  assumes "from_gbnf source pieces eog = Ok g" "length eog \<le> length pieces"
  shows "grammar_ok g" "stack_ok (g_rules g) [(g_root g, 0)]"
  using from_gbnf_ok [OF assms] from_gbnf_program(3) [OF assms(1)] by simp_all

lemma grammar_run_ok:
  assumes "from_gbnf source pieces eog = Ok g" "length eog \<le> length pieces" "grammar_run g h st"
  shows "state_ok g h st"
  using assms(3)
proof induction
  case (gr_start st)
  then show ?case using initial_state_ok [OF assms(1)] by (metis option.inject)
next
  case (gr_mask h st st' bits)
  then show ?case using token_mask_ok [OF compiled_ok [OF assms(1,2)]] by blast
next
  case (gr_eog h st tid st')
  then show ?case using accept_token_ok(1) [OF gr_eog.IH gr_eog.hyps(3)] by simp
next
  case (gr_token h st tid st' piece)
  then show ?case using accept_token_ok(1) [OF gr_token.IH gr_token.hyps(3)] by simp
qed

lemma grammar_run_key_ok:
  assumes "from_gbnf source pieces eog = Ok g" "length eog \<le> length pieces" "grammar_run g h st"
  shows "key_ok g (gs_inner st)"
  using grammar_run_ok [OF assms] compiled_ok [OF assms(1,2)] stands_for_key_ok
  by (auto simp: state_ok_def grammar_ok_def)

text \<open>A state that is not done accepts exactly when the bytes read are a sentence.\<close>

lemma sentence_iff:
  assumes "from_gbnf source pieces eog = Ok g" "parse source = Ok parsed"
    and "stands_for (g_rules g) (g_root g) h key" "\<not> sk_done key"
  shows "state_key_accepting (g_rules g) key \<longleftrightarrow>
    (\<exists>w. scalars w \<and> h = utf8_of w \<and> derives parsed (NRef (chars ''root'')) w)"
proof -
  from assms(1) obtain p where p: "parse source = Ok p" "compiled p (rule_ids (map fst p)) (g_rules g)"
    "rule_ids (map fst p) (chars ''root'') = Some (g_root g)" by (rule from_gbnfE)
  have "p = parsed" using p(1) assms(2) by simp
  then show ?thesis using accepting_word [OF assms(3,4)] compiled_language [OF p(2,3)] by simp
qed

text \<open>A done state has read a sentence.\<close>

lemma token_mask_inner: "token_mask g st = (st', bits) \<Longrightarrow> gs_inner st' = gs_inner st"
  by (auto simp: token_mask_def Let_def split: option.splits)

lemma consume_done: "consume rs key bytes = Ok key' \<Longrightarrow> sk_done key' = sk_done key"
  by (auto simp: consume_def and_then_eq_Inr)

lemma done_accepted:
  assumes "from_gbnf source pieces eog = Ok g" "length eog \<le> length pieces" "grammar_run g h st" "sk_done (gs_inner st)"
  shows "state_key_accepting (g_rules g) ((gs_inner st)\<lparr>sk_done := False\<rparr>)"
  using assms(3,4)
proof induction
  case (gr_start st)
  then show ?case by (auto simp: initial_state_def Let_def split: sum.splits)
next
  case (gr_mask h st st' bits)
  then show ?case using token_mask_inner [OF gr_mask.hyps(2)] by simp
next
  case (gr_eog h st tid st')
  have "gs_accepting st" "gs_inner st' = (gs_inner st)\<lparr>sk_done := True\<rparr>"
    using gr_eog.hyps by (auto simp: accept_token_def split: if_splits)
  then show ?case using grammar_run_ok [OF assms(1,2) gr_eog.hyps(1)]
    by (simp add: state_ok_def state_key_accepting_def)
next
  case (gr_token h st tid st' piece)
  obtain nxt where "\<not> sk_done (gs_inner st)" "consume (g_rules g) (gs_inner st) piece = Ok nxt" "gs_inner st' = nxt"
    using gr_token.hyps by (auto simp: accept_token_def split: if_splits sum.splits)
  then show ?case using gr_token.prems consume_done by blast
qed

section \<open>An example\<close>

text \<open>
  The letter e with an acute accent and then digits, over tokens that cut the letter into its two
  bytes, a digit, a digit with a letter, the end of generation, and the letter with a digit.
\<close>

definition demo_source :: ustr where
  "demo_source = chars ''root ::= \"'' @ [0xE9] @ chars ''\" [0-9]*''"

definition demo_pieces :: "byte list option list" where
  "demo_pieces = [Some [0xC3], Some [0xA9], Some [0x31], Some [0x31, 0x61], None, Some [0xC3, 0xA9, 0x32]]"

definition demo_eog :: "bool list" where
  "demo_eog = [False, False, False, False, True, False]"

definition demo_rules :: "(ustr \<times> Node) list" where
  "demo_rules = [(chars ''root'', NSeq [NStr [0xE9], NRep (NClass False [(48, 57)]) 0 None])]"

definition demo_g :: Compiled where
  "demo_g = \<lparr>g_rules = [[ICp 233, Split 2 4, IClass False [(48, 57)], Jump 1, Ret]],
     g_names = [chars ''root''], g_root = 0, g_n_vocab = 6, g_pieces = demo_pieces, g_eog_ids = [4],
     g_source = demo_source, g_index = \<lparr>ti_buckets = [(49, [2, 3]), (233, [5])], ti_headless = [0]\<rparr>\<rparr>"

lemma demo_parse: "parse demo_source = Ok demo_rules"
  by code_simp

lemma demo_compiles: "from_gbnf demo_source demo_pieces demo_eog = Ok demo_g"
  by code_simp

lemma demo_sizes: "length demo_eog \<le> length demo_pieces"
  by (simp add: demo_eog_def demo_pieces_def)

definition demo_key :: "(nat \<times> nat) list list \<Rightarrow> byte list \<Rightarrow> bool \<Rightarrow> StateKey" where
  "demo_key stacks p d = \<lparr>sk_stacks = stacks, sk_partial = p, sk_done = d\<rparr>"

definition demo_st :: "nat \<Rightarrow> GrammarState" where
  "demo_st n = \<lparr>gs_inner = (if n = 0 then demo_key [[(0, 0)]] [] False
       else if n = 1 then demo_key [[(0, 0)]] [0xC3] False
       else if n = 2 then demo_key [[(0, 2)], [(0, 4)]] [] False
       else demo_key [[(0, 2)], [(0, 4)]] [] True),
     gs_accepting = (n = 2), gs_cache = []\<rparr>"

lemma demo_steps:
  "initial_state demo_g = Some (demo_st 0)"
  "accept_token demo_g (demo_st 0) 0 = (demo_st 1, Ok ())"
  "accept_token demo_g (demo_st 1) 1 = (demo_st 2, Ok ())"
  "accept_token demo_g (demo_st 2) 4 = (demo_st 3, Ok ())"
  by code_simp+

lemma demo_runs:
  "grammar_run demo_g [] (demo_st 0)" "grammar_run demo_g [0xC3] (demo_st 1)"
  "grammar_run demo_g [0xC3, 0xA9] (demo_st 2)" "grammar_run demo_g [0xC3, 0xA9] (demo_st 3)"
proof -
  have f: "0 \<notin> set (g_eog_ids demo_g)" "1 \<notin> set (g_eog_ids demo_g)" "4 \<in> set (g_eog_ids demo_g)"
    "g_pieces demo_g ! 0 = Some [0xC3]" "g_pieces demo_g ! 1 = Some [0xA9]" by (simp_all add: demo_g_def demo_pieces_def)
  show 0: "grammar_run demo_g [] (demo_st 0)" by (rule gr_start [OF demo_steps(1)])
  show 1: "grammar_run demo_g [0xC3] (demo_st 1)" using gr_token [OF 0 f(1) demo_steps(2) f(4)] by simp
  show 2: "grammar_run demo_g [0xC3, 0xA9] (demo_st 2)" using gr_token [OF 1 f(2) demo_steps(3) f(5)] by simp
  show "grammar_run demo_g [0xC3, 0xA9] (demo_st 3)" by (rule gr_eog [OF 2 f(3) demo_steps(4)])
qed


section \<open>The language\<close>

text \<open>
  C10: a run of a compiled grammar that has not ended accepts exactly when the bytes it has read are the
  UTF-8 encoding of a word that the rules of the text derive from \<open>root\<close>, and a run that has ended
  read the encoding of such a word.
\<close>

theorem grammar_language:
  assumes "from_gbnf source pieces eog = Ok g" "length eog \<le> length pieces" "parse source = Ok parsed" "grammar_run g h st"
  shows "gs_accepting st \<or> sk_done (gs_inner st) \<longleftrightarrow>
    (\<exists>w. scalars w \<and> h = utf8_of w \<and> derives parsed (NRef (chars ''root'')) w)"
proof -
  have ok: "state_ok g h st" by (rule grammar_run_ok [OF assms(1,2,4)])
  let ?key = "(gs_inner st)\<lparr>sk_done := False\<rparr>"
  have "state_key_accepting (g_rules g) ?key \<longleftrightarrow>
      (\<exists>w. scalars w \<and> h = utf8_of w \<and> derives parsed (NRef (chars ''root'')) w)"
    using sentence_iff [OF assms(1,3), of h ?key] ok by (simp add: state_ok_def)
  moreover have "state_key_accepting (g_rules g) ?key" if "sk_done (gs_inner st)"
    using done_accepted [OF assms(1,2,4) that] .
  moreover have "gs_accepting st \<longleftrightarrow> state_key_accepting (g_rules g) ?key" if "\<not> sk_done (gs_inner st)"
    using ok that by (simp add: state_ok_def state_key_accepting_def)
  ultimately show ?thesis using ok by (auto simp: state_ok_def state_key_accepting_def)
qed

theorem grammar_language_witness:
  "\<exists>w. scalars w \<and> [0xC3, 0xA9] = utf8_of w \<and> derives demo_rules (NRef (chars ''root'')) w"
  using grammar_language [OF demo_compiles demo_sizes demo_parse demo_runs(3)] by (simp add: demo_st_def)

text \<open>
  C14: a token that the engine refuses for another reason than one of its three limits cannot be continued:
  no sentence of the grammar has an encoding that begins with the bytes read and the piece of the token.
\<close>

theorem refused_token_is_dead:
  assumes "from_gbnf source pieces eog = Ok g" "length eog \<le> length pieces" "parse source = Ok parsed" "grammar_run g h st"
    and "accept_token g st tid = (st', Err (TokenRejected tid n e))" "\<not> limit_error e" "g_pieces g ! tid = Some piece"
    and "scalars w" "prefix (h @ piece) (utf8_of w)"
  shows "\<not> derives parsed (NRef (chars ''root'')) w"
proof
  assume d: "derives parsed (NRef (chars ''root'')) w"
  from assms(1) obtain p where p: "parse source = Ok p" "compiled p (rule_ids (map fst p)) (g_rules g)"
    "rule_ids (map fst p) (chars ''root'') = Some (g_root g)" by (rule from_gbnfE)
  have "word_accepted (g_rules g) (g_root g) w" using compiled_language [OF p(2,3)] d p(1) assms(3) by simp
  moreover have "consume (g_rules g) (gs_inner st) piece = Err (n, e)"
    using assms(5,7) by (auto simp: accept_token_def split: if_splits sum.splits)
  then have "reach (g_rules g) {[(g_root g, 0)]} w = {}"
    using consume_refused [OF _ _ assms(6,8,9)] grammar_run_ok [OF assms(1,2,4)] by (auto simp: state_ok_def)
  ultimately show False by (simp add: word_accepted_reach)
qed

theorem refused_token_is_dead_witness: "\<not> derives demo_rules (NRef (chars ''root'')) [0xE9, 0x31, 0x61]"
proof -
  have a: "accept_token demo_g (demo_st 2) 3 = (demo_st 2, Err (TokenRejected 3 1 (NoLiveStack 0x61)))" by code_simp
  have p: "g_pieces demo_g ! 3 = Some [0x31, 0x61]" by (simp add: demo_g_def demo_pieces_def)
  have e: "\<not> limit_error (NoLiveStack 0x61)" by (simp add: limit_error_def)
  have "scalars [0xE9, 0x31, 0x61]" "prefix ([0xC3, 0xA9] @ [0x31, 0x61]) (utf8_of [0xE9, 0x31, 0x61])"
    by (simp add: scalar_def, code_simp)
  from refused_token_is_dead [OF demo_compiles demo_sizes demo_parse demo_runs(3) a e p this] show ?thesis .
qed

section \<open>The mask\<close>

lemma mask_agrees:
  assumes "from_gbnf source pieces eog = Ok g" "length eog \<le> length pieces" "grammar_run g h st"
    and "\<not> sk_done (gs_inner st)" "i < g_n_vocab g"
  shows "mask_bit (snd (token_mask g st)) i \<longleftrightarrow> is_ok (snd (accept_token g st i))"
proof -
  obtain st' bits where m: "token_mask g st = (st', bits)" by (cases "token_mask g st")
  have ok: "state_ok g h st" by (rule grammar_run_ok [OF assms(1-3)])
  from token_mask_ok(2) [OF compiled_ok [OF assms(1,2)] ok m] show ?thesis
    using admits_accept [OF assms(4,5)] ok assms(5) m by (simp add: mask_exact_def state_ok_def)
qed



text \<open>
  C13: the walk over the index of first code points computes the very words of the walk over
  the whole vocabulary, in every state in which the engine chooses it.
\<close>

theorem indexed_mask_is_whole_mask:
  assumes "from_gbnf source pieces eog = Ok g" "length eog \<le> length pieces" "grammar_run g h st"
    and "plan g (gs_inner st) = Buckets accepted"
  shows "fst (mask_buckets g (gs_inner st) acc accepted) = fst (mask_whole g (gs_inner st) acc)"
  using mask_of_whole [OF compiled_ok(1) [OF assms(1,2)] grammar_run_key_ok [OF assms(1-3)], of acc] assms(4)
  by (simp add: mask_of_def)

theorem indexed_mask_is_whole_mask_witness:
  "fst (mask_buckets demo_g (gs_inner (demo_st 0)) False \<lparr>ac_wide = False, ac_ranges = [(0xE9, 0xE9)]\<rparr>) =
   fst (mask_whole demo_g (gs_inner (demo_st 0)) False)"
proof -
  have "plan demo_g (gs_inner (demo_st 0)) = Buckets \<lparr>ac_wide = False, ac_ranges = [(0xE9, 0xE9)]\<rparr>" by code_simp
  from indexed_mask_is_whole_mask [OF demo_compiles demo_sizes demo_runs(1) this] show ?thesis .
qed

section \<open>States\<close>

text \<open>
  C16: no run of a compiled grammar indexes outside its program: the initial state exists, and every frame of
  every live stack that a run reaches names an instruction of the rule it names.
\<close>

theorem frames_stay_in_program:
  assumes "from_gbnf source pieces eog = Ok g" "length eog \<le> length pieces"
  shows "initial_state g \<noteq> None \<and>
    (\<forall>h st. grammar_run g h st \<longrightarrow> (\<forall>stack \<in> set (sk_stacks (gs_inner st)). stack \<noteq> [] \<and>
       (\<forall>(rule, pc) \<in> set stack. rule < length (g_rules g) \<and> pc < length (g_rules g ! rule))))"
proof -
  have "initial_state g \<noteq> None" using initial_state_ok [OF assms(1)] by (metis option.distinct(1))
  moreover have "key_ok g (gs_inner st)" if "grammar_run g h st" for h st by (rule grammar_run_key_ok [OF assms that])
  ultimately show ?thesis by (fastforce simp: key_ok_def stack_ok_def frame_ok_def)
qed

theorem frames_stay_in_program_witness:
  "initial_state demo_g \<noteq> None" by (rule conjunct1 [OF frames_stay_in_program [OF demo_compiles demo_sizes]])

text \<open>
  A character carried over from one token to the next can always be finished: it is cut short, and there is a
  scalar value whose encoding it begins and that one of the live stacks reads.
\<close>

lemma carried_character_completes:
  assumes "from_gbnf source pieces eog = Ok g" "length eog \<le> length pieces" "grammar_run g h st"
    and "sk_partial (gs_inner st) \<noteq> []"
  shows "\<exists>c. completes (sk_partial (gs_inner st)) c \<and>
    (\<exists>stack \<in> set (sk_stacks (gs_inner st)). inst_matches (inst_at (g_rules g) (last stack)) c)"
proof -
  have "partial_can_complete (g_rules g) (sk_stacks (gs_inner st)) (sk_partial (gs_inner st))"
    using grammar_run_ok [OF assms(1-3)] assms(4) by (simp add: state_ok_def stands_for_def)
  moreover have "\<forall>stack \<in> set (sk_stacks (gs_inner st)). inst_ok (inst_at (g_rules g) (last stack))"
    using grammar_run_key_ok [OF assms(1-3)] compiled_ok(1) [OF assms(1,2)] stack_ok_inst_ok
    by (auto simp: key_ok_def grammar_ok_def)
  ultimately show ?thesis by (rule partial_can_completeD)
qed

lemma carried_character_completes_witness: "\<exists>c. completes [0xC3] c"
  using carried_character_completes [OF demo_compiles demo_sizes demo_runs(2)] by (auto simp: demo_st_def demo_key_def)

text \<open>
  The range of code points that a cut character can still become is exact, at every point of the cut, and
  it is missing exactly when the bytes begin no character.
\<close>

lemma completion_range_exact:
  assumes "p \<noteq> []"
  shows "completes p c \<longleftrightarrow> (\<exists>lo hi. completion_range p = Some (lo, hi) \<and> lo \<le> c \<and> c \<le> hi)"
  using completes_in_range [OF _ assms] range_completes by blast

lemma completion_range_exact_witness: "completes [0xC3] 0xE9"
proof -
  have "completion_range [0xC3] = Some (0xC0, 0xFF)" by code_simp
  then show ?thesis using completion_range_exact [of "[0xC3]" "0xE9"] by simp
qed

section \<open>Refusals\<close>

lemma consume_loop_error:
  assumes "consume_loop rs k buf i stacks = Err (n, e)" "i \<le> length buf"
  shows "\<exists>j \<ge> i. j \<le> length buf \<and> n = j - k \<and> (\<exists>stacks'. consume_loop rs k (take j buf) i stacks = Ok (stacks', j))"
  using assms
proof (induction rs k buf i stacks rule: consume_loop.induct)
  case (1 rs k buf i stacks)
  note l = consume_loop.simps [of rs k]
  have i: "i < length buf" using "1.prems" l [of buf i stacks] by (auto split: if_splits)
  have here: ?case if "n = i - k"
    using that i l [of "take i buf" i stacks] by (intro exI [of _ i]) simp
  show ?case
  proof (cases "decode_at buf i")
    case (CpStep cp m)
    show ?thesis
    proof (cases "surrogate cp \<or> \<not> is_ok (vm_step rs stacks cp)")
      case True
      then have "n = i - k" using "1.prems"(1) l [of buf i stacks] i CpStep by (auto split: sum.splits if_splits)
      then show ?thesis by (rule here)
    next
      case False
      then obtain stacks' where s: "vm_step rs stacks cp = Ok stacks'" by (cases "vm_step rs stacks cp") auto
      have le: "i + m \<le> length buf" by (rule decode_at_CpD(5) [OF CpStep i])
      have "consume_loop rs k buf (i + m) stacks' = Err (n, e)"
        using "1.prems"(1) l [of buf i stacks] i CpStep False s by simp
      then obtain j stacks2 where j: "j \<ge> i + m" "j \<le> length buf" "n = j - k"
          "consume_loop rs k (take j buf) (i + m) stacks' = Ok (stacks2, j)"
        using "1.IH" [OF i CpStep _ s] False le by blast
      have "drop i (take j buf) = encode_utf8 cp @ take (j - (i + m)) (drop (i + m) buf)"
        using decode_at_CpD(2,3) [OF CpStep i] j(1) by (simp add: drop_take) 
      then have "decode_at (take j buf) i = CpStep cp m" using decode_at_encode decode_at_CpD(1,3) [OF CpStep i] by metis
      moreover have "i < length (take j buf)" using decode_at_CpD(4) [OF CpStep i] j(1,2) by simp
      ultimately have "consume_loop rs k (take j buf) i stacks = Ok (stacks2, j)"
        using l [of "take j buf" i stacks] False s j(4) by simp
      then show ?thesis using j by (intro exI [of _ j]) auto
    qed
  next
    case Incomplete
    then show ?thesis using "1.prems"(1) l [of buf i stacks] i here by (auto split: if_splits)
  next
    case Invalid
    then show ?thesis using "1.prems"(1) l [of buf i stacks] i here by simp
  qed
qed

lemma consume_error_prefix:
  assumes "stands_for rs root h key" "consume rs key piece = Err (n, e)"
  shows "n \<le> length piece \<and> is_ok (consume rs key (take n piece))"
proof -
  let ?p = "sk_partial key" and ?buf = "sk_partial key @ piece"
  have "consume_loop rs (length ?p) ?buf 0 (sk_stacks key) = Err (n, e)"
    using assms(2) by (auto simp: consume_def and_then_def Let_def split: sum.splits)
  then obtain j stacks where j: "j \<le> length ?buf" "n = j - length ?p"
      "consume_loop rs (length ?p) (take j ?buf) 0 (sk_stacks key) = Ok (stacks, j)"
    using consume_loop_error by (metis le0)
  have n: "n \<le> length piece" using j(1,2) by simp
  show ?thesis
  proof (cases "length ?p \<le> j")
    case True
    then have "take j ?buf = ?p @ take n piece" using j(2) by simp
    then show ?thesis using j(3) n by (simp add: consume_def and_then_def)
  next
    case False
    then have "n = 0" "?p \<noteq> []" using j(2) by auto
    moreover have "consume_loop rs (length ?p) ?p 0 (sk_stacks key) = Ok (sk_stacks key, 0)" if "?p \<noteq> []"
      using that assms(1) consume_loop.simps [of rs "length ?p" ?p 0] by (simp add: stands_for_def)
    ultimately show ?thesis by (simp add: consume_def and_then_def)
  qed
qed

text \<open>
  C18: a refused token leaves the state as it was, and the offset that the refusal of a piece names is that of a prefix of
  the piece that the state does read.
\<close>

theorem refusal_keeps_state:
  assumes "from_gbnf source pieces eog = Ok g" "length eog \<le> length pieces" "grammar_run g h st"
    and "accept_token g st tid = (st', Err err)"
  shows "st' = st \<and> (\<forall>n e. err = TokenRejected tid n e \<longrightarrow>
    (\<exists>piece. g_pieces g ! tid = Some piece \<and> n \<le> length piece \<and> is_ok (consume (g_rules g) (gs_inner st) (take n piece))))"
proof -
  have ok: "state_ok g h st" by (rule grammar_run_ok [OF assms(1-3)])
  have "\<exists>piece. g_pieces g ! tid = Some piece \<and> n \<le> length piece \<and> is_ok (consume (g_rules g) (gs_inner st) (take n piece))"
    if err: "err = TokenRejected tid n e" for n e
  proof -
    obtain piece where p: "g_pieces g ! tid = Some piece" "consume (g_rules g) (gs_inner st) piece = Err (n, e)"
      using assms(4) err by (auto simp: accept_token_def split: if_splits option.splits sum.splits)
    then show ?thesis using consume_error_prefix ok by (auto simp: state_ok_def)
  qed
  then show ?thesis using accept_token_ok(2) [OF ok assms(4)] by simp
qed

theorem refusal_keeps_state_witness: "is_ok (consume (g_rules demo_g) (gs_inner (demo_st 2)) [0x31])"
proof -
  have a: "accept_token demo_g (demo_st 2) 3 = (demo_st 2, Err (TokenRejected 3 1 (NoLiveStack 0x61)))" by code_simp
  show ?thesis using refusal_keeps_state [OF demo_compiles demo_sizes demo_runs(3) a]
    by (simp add: demo_g_def demo_pieces_def)
qed

text \<open>
  The prefix is the longest one of whole characters, not of bytes: the piece of the letter e with a grave
  accent is refused at offset 0, although its first byte alone is read.
\<close>

lemma refusal_offset_skips_read_byte:
  "consume (g_rules demo_g) (gs_inner (demo_st 0)) [0xC3, 0xA8] = Err (0, NoLiveStack 0xE8)"
  "is_ok (consume (g_rules demo_g) (gs_inner (demo_st 0)) [0xC3])"
  by code_simp+

text \<open>The mask of a state that has ended admits the end of generation, which acceptance refuses.\<close>

lemma done_mask_admits_eog:
  "mask_bit (snd (token_mask demo_g (demo_st 3))) 4" "snd (accept_token demo_g (demo_st 3) 4) = Err AfterEnd"
  by code_simp+

section \<open>Parsing\<close>


section \<open>Constrained sampling\<close>

text \<open>
  The engine as the pipeline of the sampler calls it. The texts of an error and of a state are
  parameters.
\<close>

definition engine :: "(accept_error \<Rightarrow> string) \<Rightarrow> (Compiled \<Rightarrow> GrammarState \<Rightarrow> string) \<Rightarrow> Compiled \<Rightarrow> GrammarState Grammar" where
  "engine say tell g =
     \<lparr>gr_n_vocab = g_n_vocab g,
      gr_mask = (\<lambda>st. case token_mask g st of (st', bits) \<Rightarrow> (st', Ok bits)),
      gr_accept = (\<lambda>st t. case accept_token g st t of (st', r) \<Rightarrow> (st', map_sum say id r)),
      gr_describe = tell g\<rparr>"

text \<open>The tokens a generation draws one after the other, over any logits, windows, mirostat states and seeds.\<close>

inductive constrained ::
  "('f, 'd) fp \<Rightarrow> ('r \<Rightarrow> 'f \<times> 'r) \<Rightarrow> ('f, 'g) SamplerConfig \<Rightarrow> 'g \<Rightarrow> nat list \<Rightarrow> 'g \<Rightarrow> bool" for F gen cfg st0 where
  cs_start: "constrained F gen cfg st0 [] st0"
| cs_draw: "constrained F gen cfg st0 ts st \<Longrightarrow>
    sample_with_config_grammar F gen logits cfg window mu (Some st) rng = (Ok t, mu', Some st', rng') \<Longrightarrow>
    constrained F gen cfg st0 (ts @ [t]) st'"

definition token_bytes :: "Compiled \<Rightarrow> nat \<Rightarrow> byte list" where
  "token_bytes g t = (if t \<in> set (g_eog_ids g) then [] else the (g_pieces g ! t))"

lemma token_bytes_eog [simp]: "t \<in> set (g_eog_ids g) \<Longrightarrow> token_bytes g t = []"
  by (simp add: token_bytes_def)

lemma token_bytes_piece [simp]: "t \<notin> set (g_eog_ids g) \<Longrightarrow> token_bytes g t = the (g_pieces g ! t)"
  by (simp add: token_bytes_def)

lemma drawn_accepted:
  assumes "sc_grammar cfg = Some (engine say tell g)"
    and "sample_with_config_grammar F gen logits cfg window mu (Some st) rng = (Ok t, mu', Some st', rng')"
  obtains st1 bits where "token_mask g st = (st1, bits)" "accept_token g st1 t = (st', Ok ())"
proof -
  obtain st1 bits where m: "token_mask g st = (st1, bits)" by (cases "token_mask g st")
  obtain st2 r where a: "accept_token g st1 t = (st2, r)" by (cases "accept_token g st1 t")
  have "r = Ok () \<and> st2 = st'"
    using assms m a by (cases r)
      (auto simp: sample_with_config_grammar_def constrain_def engine_def split: if_splits option.splits prod.splits sum.splits)
  then show ?thesis using that m a by blast
qed

lemma constrained_run:
  assumes "sc_grammar cfg = Some (engine say tell g)" "initial_state g = Some st0" "constrained F gen cfg st0 ts st"
  shows "grammar_run g (concat (map (token_bytes g) ts)) st \<and> (\<forall>t \<in> set (butlast ts). t \<notin> set (g_eog_ids g)) \<and>
    (sk_done (gs_inner st) \<longleftrightarrow> ts \<noteq> [] \<and> last ts \<in> set (g_eog_ids g))"
  using assms(3)
proof induction
  case cs_start
  then show ?case using gr_start [OF assms(2)] assms(2) by (auto simp: initial_state_def Let_def split: sum.splits)
next
  case (cs_draw ts st logits window mu rng t mu' st' rng')
  obtain st1 bits where m: "token_mask g st = (st1, bits)" and a: "accept_token g st1 t = (st', Ok ())"
    using drawn_accepted [OF assms(1) cs_draw.hyps(2)] .
  let ?h = "concat (map (token_bytes g) ts)"
  have r: "grammar_run g ?h st1" using gr_mask [OF _ m] cs_draw.IH by blast
  have nd: "\<not> sk_done (gs_inner st)" using a token_mask_inner [OF m] by (auto simp: accept_token_def split: if_splits)
  then have old: "\<forall>t \<in> set ts. t \<notin> set (g_eog_ids g)"
    using cs_draw.IH by (cases ts rule: rev_cases) auto
  show ?case
  proof (cases "t \<in> set (g_eog_ids g)")
    case True
    have "sk_done (gs_inner st')" using a True by (auto simp: accept_token_def split: if_splits)
    then show ?thesis using gr_eog [OF r True a] True old by simp
  next
    case False
    obtain piece nxt where p: "g_pieces g ! t = Some piece" "consume (g_rules g) (gs_inner st1) piece = Ok nxt" "gs_inner st' = nxt"
      using a False by (auto simp: accept_token_def split: if_splits option.splits sum.splits)
    have "\<not> sk_done (gs_inner st')" using consume_done [OF p(2)] p(3) nd token_mask_inner [OF m] by simp
    then show ?thesis using gr_token [OF r False a p(1)] False old p(1) by simp
  qed
qed

text \<open>
  C11: constrained generation produces sentences: whatever the logits and the arithmetic of the pipeline, only
  the last token drawn can be an end of generation, and when it is, the bytes of the tokens are the
  encoding of a word that the grammar derives.
\<close>

theorem constrained_generation:
  assumes "from_gbnf source pieces eog = Ok g" "length eog \<le> length pieces" "parse source = Ok parsed"
    and "sc_grammar cfg = Some (engine say tell g)" "initial_state g = Some st0" "constrained F gen cfg st0 ts st"
  shows "(\<forall>t \<in> set (butlast ts). t \<notin> set (g_eog_ids g)) \<and>
    (ts \<noteq> [] \<and> last ts \<in> set (g_eog_ids g) \<longrightarrow>
      (\<exists>w. scalars w \<and> concat (map (token_bytes g) ts) = utf8_of w \<and> derives parsed (NRef (chars ''root'')) w))"
proof -
  note r = constrained_run [OF assms(4-6)]
  have "state_key_accepting (g_rules g) ((gs_inner st)\<lparr>sk_done := False\<rparr>)" if "sk_done (gs_inner st)"
    using done_accepted [OF assms(1,2) conjunct1 [OF r] that] .
  moreover have "stands_for (g_rules g) (g_root g) (concat (map (token_bytes g) ts)) ((gs_inner st)\<lparr>sk_done := False\<rparr>)"
    using grammar_run_ok [OF assms(1,2) conjunct1 [OF r]] by (simp add: state_ok_def)
  from sentence_iff [OF assms(1,3) this] have "state_key_accepting (g_rules g) ((gs_inner st)\<lparr>sk_done := False\<rparr>) \<Longrightarrow>
    \<exists>w. scalars w \<and> concat (map (token_bytes g) ts) = utf8_of w \<and> derives parsed (NRef (chars ''root'')) w" by simp
  ultimately show ?thesis using r by blast
qed

definition demo_config :: "(int, GrammarState) SamplerConfig" where
  "demo_config = (default_config fixed)\<lparr>sc_temp := 0, sc_top_k := 0, sc_top_p := 1000000, sc_repeat_penalty := 1000000,
     sc_grammar := Some (engine (\<lambda>_. []) (\<lambda>_ _. []) demo_g)\<rparr>"

definition demo_logits :: "int list" where
  "demo_logits = [2, 9, 3, 8, 4, 7]"

definition demo_draw :: "GrammarState \<Rightarrow> (sample_error, nat) res \<times> int \<times> GrammarState option \<times> int" where
  "demo_draw st = sample_with_config_grammar fixed_fp (\<lambda>r. (r, r)) demo_logits demo_config [] 0 (Some st) 0"

definition demo_cached :: GrammarState where
  "demo_cached = (demo_st 2)\<lparr>gs_cache := [(demo_key [[(0, 0)]] [] False, [33])]\<rparr>"

lemma demo_draws: "constrained fixed_fp (\<lambda>r :: int. (r, r)) demo_config (demo_st 0) [5, 4] (demo_st 3)"
proof -
  have 1: "demo_draw (demo_st 0) = (Ok 5, 0, Some demo_cached, 0)" by code_simp
  have 2: "demo_draw demo_cached = (Ok 4, 0, Some (demo_st 3), 0)" by code_simp
  show ?thesis
    using cs_draw [OF cs_draw [OF cs_start 1 [unfolded demo_draw_def]] 2 [unfolded demo_draw_def]] by simp
qed

theorem constrained_generation_witness:
  "\<exists>w. scalars w \<and> [0xC3, 0xA9, 0x32] = utf8_of w \<and> derives demo_rules (NRef (chars ''root'')) w"
proof -
  have g: "sc_grammar demo_config = Some (engine (\<lambda>_. []) (\<lambda>_ _. []) demo_g)" by (simp add: demo_config_def)
  have b: "token_bytes demo_g 5 = [0xC3, 0xA9, 0x32]" "token_bytes demo_g 4 = []" "4 \<in> set (g_eog_ids demo_g)"
    by (simp_all add: token_bytes_def demo_g_def demo_pieces_def)
  show ?thesis
    using constrained_generation [OF demo_compiles demo_sizes demo_parse g demo_steps(1) demo_draws] b by simp
qed

text \<open>
  C15: the greedy pipeline never draws a token that the grammar then refuses: from every state that a run
  reaches before its end it returns a token that the mask of the state admits, or reports that none is left.
\<close>

theorem greedy_never_refused:
  assumes "from_gbnf source pieces eog = Ok g" "length eog \<le> length pieces" "grammar_run g h st" "\<not> sk_done (gs_inner st)"
    and "sc_grammar cfg = Some (engine say tell g)" "ieee (fp32 F)" "n_tiny (fp32 F) (sc_temp cfg)" "length logits = g_n_vocab g"
  shows "case fst (sample_with_config_grammar F gen logits cfg window mu (Some st) rng) of
      Inl e \<Rightarrow> \<exists>text. e = NoAllowedToken text
    | Inr t \<Rightarrow> t < g_n_vocab g \<and> mask_bit (snd (token_mask g st)) t"
proof -
  let ?N = "fp32 F" and ?d = "apply_deterministic_filters (fp32 F) logits cfg window"
  obtain st1 bits where m: "token_mask g st = (st1, bits)" by (cases "token_mask g st")
  let ?l = "fst (apply_token_mask ?N ?d bits)"
  have ld: "length ?d = g_n_vocab g" using assms(8) by (simp add: deterministic_length)
  have con: "constrain ?N ?d (sc_grammar cfg) (Some st) =
      (if snd (apply_token_mask ?N ?d bits) = 0 then Err (NoAllowedToken (tell g st1)) else Ok ?l, Some st1)"
    using ld m assms(5) by (simp add: constrain_def engine_def case_prod_beta)
  show ?thesis
  proof (cases "snd (apply_token_mask ?N ?d bits) = 0")
    case True
    then show ?thesis using con by (simp add: sample_with_config_grammar_def)
  next
    case False
    note live = token_mask_live [OF False]
    then obtain t where t: "sample_greedy ?N ?l = Some t" by (cases ?l) (auto simp: sample_greedy_def)
    have t': "t < length ?l" "?l ! t \<noteq> n_ninf ?N" using sample_greedy_unmasked [OF assms(6) t live] by simp_all
    have ll: "length ?l = g_n_vocab g" by (simp add: apply_token_mask_def ld)
    have bit: "mask_bit bits t" using t' by (auto simp: apply_token_mask_def mask_bit_def mask_allows_def split: if_splits)
    have r1: "grammar_run g h st1" "\<not> sk_done (gs_inner st1)"
      using gr_mask [OF assms(3) m] token_mask_inner [OF m] assms(4) by simp_all
    have "snd (token_mask g st1) = bits" using m by (auto simp: token_mask_def Let_def split: option.splits)
    then have "is_ok (snd (accept_token g st1 t))"
      using mask_agrees [OF assms(1,2) r1] bit t'(1) ll by simp
    then obtain st2 where "accept_token g st1 t = (st2, Ok ())"
      by (cases "snd (accept_token g st1 t)") (auto simp: prod_eq_iff)
    then show ?thesis using con False t assms(5,7) m bit t'(1) ll
      by (simp add: sample_with_config_grammar_def engine_def)
  qed
qed

theorem greedy_never_refused_witness:
  "case fst (sample_with_config_grammar fixed_fp (\<lambda>r. (r, r)) demo_logits demo_config [] 0 (Some (demo_st 1)) (0 :: int)) of
     Inl e \<Rightarrow> \<exists>text. e = NoAllowedToken text
   | Inr t \<Rightarrow> t < g_n_vocab demo_g \<and> mask_bit (snd (token_mask demo_g (demo_st 1))) t"
proof (rule greedy_never_refused [OF demo_compiles demo_sizes demo_runs(2)])
  show "n_tiny (fp32 fixed_fp) (sc_temp demo_config)" by code_simp
qed (simp_all add: demo_st_def demo_key_def demo_config_def fixed_ieee demo_logits_def demo_g_def)

end
