(* ===== verification/Tok_Split.thy ===== *)
theory Tok_Split
  imports Gbnf_Parse
begin

text \<open>
  Pre-tokenization (\<open>PreTokenizer\<close> of \<open>src/tokenizer.rs\<close>): the rules, their flags, and the scan that cuts a text
  into pieces. A text is the list of its code points. The general categories \<open>L\<close>, \<open>N\<close> and \<open>M\<close> come from the
  \<open>regex\<close> crate and are parameters.
\<close>

section \<open>Rules\<close>

record char_classes =
  cl_letter :: "nat \<Rightarrow> bool"
  cl_number :: "nat \<Rightarrow> bool"
  cl_mark :: "nat \<Rightarrow> bool"

datatype PreTokenizer = Qwen2 | Qwen35 | LlamaBpe | Gemma4Rule | Lfm2 | SmaugDbrx | JinaV1En | WhitespaceRule

datatype tok_error =
    UnknownPre "nat list" | MissingPre | UnknownModel "nat list" | MissingModel
  | NoMerges | ByteIncomplete nat nat | NoScores nat nat | NoUnknown | UnknownOutOfRange nat nat
  | CharsmapShort | CharsmapBlob nat nat | NoVocabulary
  | EmptyBreaker | BreakerTooLong nat | BreakerSplitsChar | TailTooLong nat nat | BreakerUnmatched

fun pre_from_gguf :: "ustr option \<Rightarrow> (tok_error, PreTokenizer) res" where
  "pre_from_gguf None = Err MissingPre"
| "pre_from_gguf (Some v) =
     (if v \<in> {chars ''qwen2'', chars ''deepseek-r1-qwen''} then Ok Qwen2
      else if v = chars ''qwen35'' then Ok Qwen35
      else if v \<in> {chars ''llama-bpe'', chars ''llama3'', chars ''llama-v3''} then Ok LlamaBpe
      else if v \<in> {chars ''falcon3'', chars ''falcon-h1'', chars ''pixtral'', chars ''midm-2.0'', chars ''jina-v5-nano''} then Ok LlamaBpe
      else if v \<in> {chars ''smaug-bpe'', chars ''dbrx''} then Ok SmaugDbrx
      else if v = chars ''lfm2'' then Ok Lfm2
      else if v = chars ''whitespace'' then Ok WhitespaceRule
      else if v = chars ''jina-v1-en'' then Ok JinaV1En
      else if v \<in> {chars ''mpt'', chars ''olmo'', chars ''jais'', chars ''trillion'', chars ''granite-docling''} then Ok JinaV1En
      else if v = chars ''gemma4'' then Ok Gemma4Rule
      else Err (UnknownPre v))"

definition ignores_merges :: "PreTokenizer \<Rightarrow> bool" where
  "ignores_merges r \<longleftrightarrow> r \<in> {LlamaBpe, Lfm2}"

definition include_marks :: "PreTokenizer \<Rightarrow> bool" where
  "include_marks r \<longleftrightarrow> r = Qwen35"

definition number_run :: "PreTokenizer \<Rightarrow> nat" where
  "number_run r = (case r of
     LlamaBpe \<Rightarrow> 3 | Lfm2 \<Rightarrow> 3 | SmaugDbrx \<Rightarrow> 3
   | Qwen2 \<Rightarrow> 1 | Qwen35 \<Rightarrow> 1 | Gemma4Rule \<Rightarrow> 1 | WhitespaceRule \<Rightarrow> 1
   | JinaV1En \<Rightarrow> 2 ^ 64 - 1)"

definition applies_nfc :: "PreTokenizer \<Rightarrow> bool" where
  "applies_nfc r \<longleftrightarrow> r \<in> {Qwen2, Qwen35}"

section \<open>One step of a scan\<close>

text \<open>Each definition gives the number of characters that an iteration of a scan takes off the rest.\<close>

abbreviation CR :: nat where "CR \<equiv> 13"
abbreviation LF :: nat where "LF \<equiv> 10"
abbreviation SPACE :: nat where "SPACE \<equiv> 32"
abbreviation APOSTROPHE :: nat where "APOSTROPHE \<equiv> 39"

definition ascii_lower :: "nat \<Rightarrow> nat" where
  "ascii_lower c = (if 65 \<le> c \<and> c \<le> 90 then c + 32 else c)"

definition run_len :: "(nat \<Rightarrow> bool) \<Rightarrow> ustr \<Rightarrow> nat" where
  "run_len P s = length (takeWhile P s)"

definition next_is :: "(nat \<Rightarrow> bool) \<Rightarrow> ustr \<Rightarrow> bool" where
  "next_is P s = (case s of c # _ \<Rightarrow> P c | [] \<Rightarrow> False)"

text \<open>The contraction at an apostrophe: two characters, three, or none.\<close>

definition contraction :: "ustr \<Rightarrow> nat" where
  "contraction s = (case s of
     c # c1 # t \<Rightarrow>
       if c \<noteq> APOSTROPHE then 0
       else if ascii_lower c1 \<in> {ch CHR ''s'', ch CHR ''t'', ch CHR ''m'', ch CHR ''d''} then 2
       else (case t of
               c2 # _ \<Rightarrow>
                 if (ascii_lower c1, ascii_lower c2) \<in>
                      {(ch CHR ''r'', ch CHR ''e''), (ch CHR ''v'', ch CHR ''e''), (ch CHR ''l'', ch CHR ''l'')}
                 then 3 else 0
             | [] \<Rightarrow> 0)
   | _ \<Rightarrow> 0)"

definition word_char :: "char_classes \<Rightarrow> PreTokenizer \<Rightarrow> nat \<Rightarrow> bool" where
  "word_char cl r c \<longleftrightarrow> cl_letter cl c \<or> include_marks r \<and> cl_mark cl c"

definition symbol_char :: "char_classes \<Rightarrow> PreTokenizer \<Rightarrow> nat \<Rightarrow> bool" where
  "symbol_char cl r c \<longleftrightarrow>
     \<not> is_whitespace c \<and> \<not> cl_letter cl c \<and> \<not> cl_number cl c \<and> \<not> (include_marks r \<and> cl_mark cl c)"

definition is_newline :: "nat \<Rightarrow> bool" where
  "is_newline c \<longleftrightarrow> c = CR \<or> c = LF"

text \<open>The scan over a run of white space: its length and the end of its last line break.\<close>

fun last_newline :: "nat \<Rightarrow> nat \<Rightarrow> ustr \<Rightarrow> nat \<times> nat" where
  "last_newline num_ws lb [] = (num_ws, lb)"
| "last_newline num_ws lb (c # s) =
     (if \<not> is_whitespace c then (num_ws, lb)
      else last_newline (num_ws + 1) (if is_newline c then num_ws + 1 else lb) s)"

definition scan_head :: "char_classes \<Rightarrow> PreTokenizer \<Rightarrow> ustr \<Rightarrow> nat" where
  "scan_head cl r s = (case s of [] \<Rightarrow> 0 | c # t \<Rightarrow>
     if contraction s > 0 then contraction s
     else if c \<noteq> CR \<and> c \<noteq> LF \<and> \<not> cl_number cl c \<and> (word_char cl r c \<or> next_is (word_char cl r) t)
     then 1 + run_len (word_char cl r) t
     else if cl_number cl c then min (number_run r) (run_len (cl_number cl) s)
     else if (if c = SPACE then next_is (symbol_char cl r) t else symbol_char cl r c)
     then (let k = (if c = SPACE then 1 else 0); k2 = k + run_len (symbol_char cl r) (drop k s) in
           k2 + run_len is_newline (drop k2 s))
     else (case last_newline 0 0 s of (num_ws, lb) \<Rightarrow>
             if lb > 0 then lb
             else if num_ws > 1 \<and> num_ws < length s then num_ws - 1
             else if num_ws > 0 then num_ws
             else 1))"

text \<open>The rule of \<open>jina-v1-en\<close>.\<close>

definition gpt2_head :: "char_classes \<Rightarrow> ustr \<Rightarrow> nat" where
  "gpt2_head cl s = (case s of [] \<Rightarrow> 0 | c # t \<Rightarrow>
     let letter = cl_letter cl; number = cl_number cl; symbol = symbol_char cl JinaV1En in
     if c = APOSTROPHE then (if contraction s > 0 then contraction s else 1 + run_len symbol t)
     else if c = SPACE \<and> next_is letter t then 1 + run_len letter t
     else if letter c then 1 + run_len letter t
     else if c = SPACE \<and> next_is number t then 1 + run_len number t
     else if number c then 1 + run_len number t
     else if c = SPACE \<and> next_is symbol t then 1 + run_len symbol t
     else if c \<noteq> SPACE \<and> symbol c then 1 + run_len symbol t
     else if is_whitespace c
     then (let j = run_len is_whitespace s in if j < length s \<and> j > 1 then j - 1 else j)
     else 1)"

text \<open>Maximal runs of line feeds and of everything else.\<close>

definition newline_head :: "ustr \<Rightarrow> nat" where
  "newline_head s = (case s of [] \<Rightarrow> 0 | c # t \<Rightarrow> run_len (\<lambda>d. (d = LF) = (c = LF)) s)"

section \<open>The split\<close>

text \<open>The loop around a step; a step that takes nothing would not end, so at least one character goes.\<close>

function chop :: "(ustr \<Rightarrow> nat) \<Rightarrow> ustr \<Rightarrow> ustr list" where
  "chop f [] = []"
| "chop f (c # s) = take (f (c # s)) (c # s) # chop f (drop (max 1 (f (c # s))) (c # s))"
  by pat_completeness auto
termination
  by (relation "measure (\<lambda>(f, s). length s)") auto

text \<open>\<open>str::split_whitespace\<close>.\<close>

function split_whitespace :: "ustr \<Rightarrow> ustr list" where
  "split_whitespace s =
     (case dropWhile is_whitespace s of
        [] \<Rightarrow> []
      | c # t \<Rightarrow> (c # takeWhile (\<lambda>d. \<not> is_whitespace d) t) # split_whitespace (dropWhile (\<lambda>d. \<not> is_whitespace d) t))"
  by auto
termination
proof (relation "measure length")
  fix s c t assume "dropWhile is_whitespace s = c # t"
  then have "length (c # t) \<le> length s" by (metis length_dropWhile_le)
  then show "(dropWhile (\<lambda>d. \<not> is_whitespace d) t, s) \<in> measure length"
    using length_dropWhile_le [of "\<lambda>d. \<not> is_whitespace d" t] by simp
qed simp

declare split_whitespace.simps [simp del]

definition split_rule :: "char_classes \<Rightarrow> PreTokenizer \<Rightarrow> ustr \<Rightarrow> ustr list" where
  "split_rule cl r text = (case r of
     JinaV1En \<Rightarrow> chop (gpt2_head cl) text
   | WhitespaceRule \<Rightarrow> split_whitespace text
   | Gemma4Rule \<Rightarrow> chop newline_head text
   | _ \<Rightarrow> chop (scan_head cl r) text)"

end
