(* ===== verification/Tok_Core.thy ===== *)
theory Tok_Core
  imports Tok_Split Sampler
begin

text \<open>
  The data of a tokenizer (\<open>Tokenizer\<close> of \<open>src/tokenizer.rs\<close>): the engines, the byte alphabet of byte-level BPE,
  the trie over vocabulary entries, and the record that the loader fills. Texts are lists of code points, ids
  natural numbers; a hash map is a function to options.
\<close>

section \<open>Engines\<close>

datatype TokenizerModel = Gpt2 | Spm | Ugm | Rwkv | WhitespaceModel | NoModel | HybridDna | Plamo2 | Gemma4 | Bert

fun model_from_gguf :: "ustr option \<Rightarrow> (tok_error, TokenizerModel) res" where
  "model_from_gguf None = Err MissingModel"
| "model_from_gguf (Some v) =
     (if v = chars ''gpt2'' then Ok Gpt2
      else if v \<in> {chars ''none'', chars ''no_vocab''} then Ok NoModel
      else if v = chars ''whitespace'' then Ok WhitespaceModel
      else if v = chars ''llama'' then Ok Spm
      else if v = chars ''bert'' then Ok Bert
      else if v = chars ''gemma4'' then Ok Gemma4
      else if v = chars ''rwkv'' then Ok Rwkv
      else if v = chars ''plamo2'' then Ok Plamo2
      else if v = chars ''hybriddna'' then Ok HybridDna
      else if v = chars ''t5'' then Ok Ugm
      else Err (UnknownModel v))"

definition SPM_SPACE :: nat where "SPM_SPACE = 0x2581"
definition DNA_KMER_MARKER :: ustr where "DNA_KMER_MARKER = [0xE000]"

section \<open>The byte alphabet\<close>

text \<open>The loop over the bytes that are not printable: each gets the next code point from 256 on.\<close>

fun unprintable_loop :: "nat list \<Rightarrow> nat list \<Rightarrow> nat list \<Rightarrow> nat \<Rightarrow> nat list \<times> nat list" where
  "unprintable_loop bs cs [] n = (bs, cs)"
| "unprintable_loop bs cs (b # rest) n =
     (if b \<notin> set bs then unprintable_loop (bs @ [b]) (cs @ [256 + n]) rest (n + 1) else unprintable_loop bs cs rest n)"

definition build_byte_to_unicode :: "(nat \<times> nat) list" where
  "build_byte_to_unicode =
     (let bs = [0x21..<0x7F] @ [0xA1..<0xAD] @ [0xAE..<0x100] in
      case unprintable_loop bs bs [0..<256] 0 of (bs', cs) \<Rightarrow> zip bs' cs)"

definition byte_to_unicode :: "byte \<Rightarrow> nat option" where
  "byte_to_unicode b = map_of build_byte_to_unicode (unat b)"

definition unicode_to_byte :: "nat \<Rightarrow> byte option" where
  "unicode_to_byte c = map_option word_of_nat (map_of (map (\<lambda>(b, c). (c, b)) build_byte_to_unicode) c)"

text \<open>The index panics on a byte without an entry; the table has all 256.\<close>

definition byte_encode :: "byte list \<Rightarrow> ustr" where
  "byte_encode bs = map (\<lambda>b. the (byte_to_unicode b)) bs"

section \<open>Spellings of bytes\<close>

text \<open>The fields of the loop: what is written, the escape flag, the digits still to come and their value.\<close>

text \<open>A digit below the digit zero and a value above a byte overflow; the source wraps in release builds.\<close>

fun unescape_loop :: "byte list \<Rightarrow> bool \<Rightarrow> nat \<Rightarrow> byte \<Rightarrow> byte list \<Rightarrow> byte list" where
  "unescape_loop out escaping rem acc [] = out"
| "unescape_loop out escaping rem acc (b # bs) =
     (if rem \<noteq> 0 then
        (let value = (if b \<ge> 97 then b - 97 + 10 else b - 48); acc' = push_bit 4 acc + value in
         if rem = 1 then unescape_loop (out @ [acc']) escaping 0 0 bs else unescape_loop out escaping (rem - 1) acc' bs)
      else if escaping then
        (if b = 116 then unescape_loop (out @ [9]) False rem acc bs
         else if b = 110 then unescape_loop (out @ [10]) False rem acc bs
         else if b = 114 then unescape_loop (out @ [13]) False rem acc bs
         else if b = 120 then unescape_loop out False 2 acc bs
         else unescape_loop (out @ [b]) False rem acc bs)
      else if b = 92 then unescape_loop out True rem acc bs
      else unescape_loop (out @ [b]) escaping rem acc bs)"

definition unescape_rwkv_token :: "ustr \<Rightarrow> byte list" where
  "unescape_rwkv_token token = unescape_loop [] False 0 0 (utf8_of token)"

text \<open>\<open>u8::from_str_radix\<close> takes a sign in front of a digit too.\<close>

definition hex_byte :: "ustr \<Rightarrow> byte option" where
  "hex_byte ds = (case ds of
     [a, b] \<Rightarrow>
       if is_hexdigit b then
         (if is_hexdigit a then Some (word_of_nat (hex_value a * 16 + hex_value b))
          else if a = ch CHR ''+'' then Some (word_of_nat (hex_value b)) else None)
       else None
   | _ \<Rightarrow> None)"

definition parse_spm_byte_token :: "ustr \<Rightarrow> byte option" where
  "parse_spm_byte_token token =
     (if take 3 token = chars ''<0x'' \<and> length token > 3 \<and> last token = ch CHR ''>''
      then (let hex = butlast (drop 3 token) in if length (utf8_of hex) \<noteq> 2 then None else hex_byte hex)
      else None)"

section \<open>The trie\<close>

record TrieNode =
  tn_children :: "byte \<Rightarrow> nat option"
  tn_token :: "nat option"

type_synonym VocabTrie = "TrieNode list"

definition fresh_node :: TrieNode where
  "fresh_node = \<lparr>tn_children = (\<lambda>_. None), tn_token = None\<rparr>"

fun insert_path :: "VocabTrie \<Rightarrow> nat \<Rightarrow> byte list \<Rightarrow> VocabTrie \<times> nat" where
  "insert_path nodes node [] = (nodes, node)"
| "insert_path nodes node (b # bs) =
     (case tn_children (nodes ! node) b of
        Some nxt \<Rightarrow> insert_path nodes nxt bs
      | None \<Rightarrow>
          (let nodes1 = nodes @ [fresh_node]; nxt = length nodes1 - 1 in
           insert_path (nodes1[node := (nodes1 ! node)\<lparr>tn_children := (tn_children (nodes1 ! node))(b \<mapsto> nxt)\<rparr>]) nxt bs))"

definition insert_bytes :: "VocabTrie \<Rightarrow> byte list \<Rightarrow> nat \<Rightarrow> VocabTrie" where
  "insert_bytes trie bytes i =
     (case insert_path (if trie = [] then [fresh_node] else trie) 0 bytes of
        (nodes, node) \<Rightarrow> nodes[node := (nodes ! node)\<lparr>tn_token := Some i\<rparr>])"

definition trie_insert :: "VocabTrie \<Rightarrow> ustr \<Rightarrow> nat \<Rightarrow> VocabTrie" where
  "trie_insert trie w i = insert_bytes trie (utf8_of w) i"

fun match_loop :: "VocabTrie \<Rightarrow> nat \<Rightarrow> nat \<Rightarrow> byte list \<Rightarrow> (nat \<times> nat) list" where
  "match_loop trie node i [] = []"
| "match_loop trie node i (b # bs) =
     (case tn_children (trie ! node) b of
        None \<Rightarrow> []
      | Some nxt \<Rightarrow>
          (case tn_token (trie ! nxt) of Some t \<Rightarrow> [(t, i + 1)] | None \<Rightarrow> []) @ match_loop trie nxt (i + 1) bs)"

text \<open>A token id and the end of its entry, for every entry that is a prefix of the rest.\<close>

definition trie_matches :: "VocabTrie \<Rightarrow> byte list \<Rightarrow> nat \<Rightarrow> (nat \<times> nat) list" where
  "trie_matches trie bytes start = (if trie = [] then [] else match_loop trie 0 start (drop start bytes))"

definition trie_step :: "VocabTrie \<Rightarrow> nat \<Rightarrow> byte \<Rightarrow> nat option" where
  "trie_step trie node b = (if node < length trie then tn_children (trie ! node) b else None)"

definition trie_terminal :: "VocabTrie \<Rightarrow> nat \<Rightarrow> nat option" where
  "trie_terminal trie node = (if node < length trie then tn_token (trie ! node) else None)"

definition starts_with_byte :: "VocabTrie \<Rightarrow> byte \<Rightarrow> bool" where
  "starts_with_byte trie b \<longleftrightarrow> trie \<noteq> [] \<and> tn_children (trie ! 0) b \<noteq> None"

fun longest_loop :: "VocabTrie \<Rightarrow> nat \<Rightarrow> nat \<Rightarrow> (nat \<times> nat) option \<Rightarrow> byte list \<Rightarrow> (nat \<times> nat) option" where
  "longest_loop trie node i best [] = best"
| "longest_loop trie node i best (b # bs) =
     (case tn_children (trie ! node) b of
        None \<Rightarrow> best
      | Some nxt \<Rightarrow>
          longest_loop trie nxt (i + 1) (case tn_token (trie ! nxt) of Some t \<Rightarrow> Some (t, i + 1) | None \<Rightarrow> best) bs)"

definition longest_prefix_bytes :: "VocabTrie \<Rightarrow> byte list \<Rightarrow> (nat \<times> nat) option" where
  "longest_prefix_bytes trie bytes = (if trie = [] then None else longest_loop trie 0 0 None bytes)"

lemma longest_loop_pos:
  "longest_loop trie node i best bs = Some (t, e) \<Longrightarrow> best = Some (t, e) \<or> i < e"
proof (induction bs arbitrary: node i best)
  case (Cons b bs)
  then show ?case by (fastforce split: option.splits)
qed simp

lemma longest_prefix_pos: "longest_prefix_bytes trie bs = Some (t, e) \<Longrightarrow> 0 < e"
  by (auto simp: longest_prefix_bytes_def dest: longest_loop_pos split: if_splits)

definition trie_longest_prefix :: "VocabTrie \<Rightarrow> ustr \<Rightarrow> (nat \<times> nat) option" where
  "trie_longest_prefix trie w = longest_prefix_bytes trie (utf8_of w)"

section \<open>The tokenizer\<close>

record NormalizerOptions =
  nz_lowercase :: bool
  nz_strip_accents :: bool

record DnaData =
  dna_begin :: nat
  dna_end :: nat
  dna_oov :: nat
  dna_kmers :: "ustr \<Rightarrow> nat option"

record 'f UgmData =
  ug_trie :: VocabTrie
  ug_user_defined :: VocabTrie
  ug_unknown_score :: 'f
  ug_xcda :: "32 word list"
  ug_replacements :: "byte list"

record 'f Tokenizer =
  tk_tokens :: "ustr list"
  tk_scores :: "'f list"
  tk_types :: "int list"
  tk_vocab :: "ustr \<Rightarrow> nat option"
  tk_merges :: "ustr \<times> ustr \<Rightarrow> nat option"
  tk_model :: TokenizerModel
  tk_pre :: "PreTokenizer option"
  tk_add_space_prefix :: bool
  tk_byte_ids :: "byte \<Rightarrow> nat option"
  tk_normalizer :: NormalizerOptions
  tk_max_token_len :: nat
  tk_unk :: nat
  tk_ugm :: "'f UgmData"
  tk_ignore_merges :: bool
  tk_dna :: "DnaData option"
  tk_remove_extra_whitespaces :: bool
  tk_special_by_first :: "nat \<Rightarrow> (ustr \<times> nat) list option"
  tk_bos :: nat
  tk_eos :: nat

definition vocab_size :: "'f Tokenizer \<Rightarrow> nat" where
  "vocab_size tk = length (tk_tokens tk)"

definition bos_text :: "'f Tokenizer \<Rightarrow> ustr" where
  "bos_text tk = (if tk_bos tk < length (tk_tokens tk) then tk_tokens tk ! tk_bos tk else [])"

text \<open>What the Unicode data of the standard library and of the \<open>regex\<close> crate say of a character.\<close>

record unicode = char_classes +
  un_nonspacing :: "nat \<Rightarrow> bool"
  un_control :: "nat \<Rightarrow> bool"
  un_punctuation :: "nat \<Rightarrow> bool"
  un_alphanumeric :: "nat \<Rightarrow> bool"
  un_lower :: "nat \<Rightarrow> ustr"

end
