(* ===== verification/Tok_Bpe.thy ===== *)
theory Tok_Bpe
  imports Tok_Core
begin

text \<open>
  Byte-pair encoding (\<open>bpe_encode\<close>, \<open>encode_bpe\<close>, \<open>bpe_encode_raw\<close>, \<open>gemma4_encode\<close> and the DNA blocks of
  \<open>hybriddna_encode\<close> in \<open>src/tokenizer.rs\<close>). \<open>None\<close> is the panic on a violated invariant.
\<close>

section \<open>Results that may panic\<close>

fun collect_ids :: "nat list option list \<Rightarrow> nat list option" where
  "collect_ids [] = Some []"
| "collect_ids (x # xs) = (case (x, collect_ids xs) of (Some a, Some b) \<Rightarrow> Some (a @ b) | _ \<Rightarrow> None)"

section \<open>The merge loop\<close>

text \<open>The scan for the pair of the lowest rank: the best rank and its position so far, and the position of the head.\<close>

fun best_pair :: "(ustr \<times> ustr \<Rightarrow> nat option) \<Rightarrow> (nat \<times> nat) option \<Rightarrow> nat \<Rightarrow> ustr list \<Rightarrow> (nat \<times> nat) option" where
  "best_pair merges best i (a # b # word) =
     best_pair merges
       (case merges (a, b) of
          Some rank \<Rightarrow> (case best of Some (r, _) \<Rightarrow> if rank < r then Some (rank, i) else best | None \<Rightarrow> Some (rank, i))
        | None \<Rightarrow> best)
       (i + 1) (b # word)"
| "best_pair merges best i _ = best"

definition merge_at :: "nat \<Rightarrow> ustr list \<Rightarrow> ustr list" where
  "merge_at i word = take i word @ [word ! i @ word ! (i + 1)] @ drop (i + 2) word"

lemma best_pair_bound:
  "best_pair merges best i word = Some (r, j) \<Longrightarrow> best = Some (r, j) \<or> i \<le> j \<and> j + 1 < i + length word"
proof (induction merges best i word rule: best_pair.induct)
  case (1 merges best i a b word)
  then show ?case by (fastforce split: option.splits if_splits)
qed auto

function bpe_merge :: "(ustr \<times> ustr \<Rightarrow> nat option) \<Rightarrow> ustr list \<Rightarrow> ustr list" where
  "bpe_merge merges word =
     (case best_pair merges None 0 word of
        None \<Rightarrow> word
      | Some (_, i) \<Rightarrow> bpe_merge merges (merge_at i word))"
  by auto
termination
  by (relation "measure (\<lambda>(merges, word). length word)") (auto simp: merge_at_def dest: best_pair_bound)

declare bpe_merge.simps [simp del]

definition singletons :: "ustr \<Rightarrow> ustr list" where
  "singletons w = map (\<lambda>c. [c]) w"

section \<open>The engines\<close>

definition byte_fallback :: "'f Tokenizer \<Rightarrow> ustr \<Rightarrow> nat list option" where
  "byte_fallback tk piece = collect_ids (map (\<lambda>c. map_option (\<lambda>i. [i]) (tk_vocab tk [c])) piece)"

definition bpe_encode :: "'f Tokenizer \<Rightarrow> ustr \<Rightarrow> nat list option" where
  "bpe_encode tk token =
     collect_ids (map (\<lambda>piece. case tk_vocab tk piece of Some i \<Rightarrow> Some [i] | None \<Rightarrow> byte_fallback tk piece)
       (bpe_merge (tk_merges tk) (singletons token)))"

definition encode_piece :: "'f Tokenizer \<Rightarrow> ustr \<Rightarrow> nat list option" where
  "encode_piece tk piece =
     (let encoded = byte_encode (utf8_of piece) in
      case (if tk_ignore_merges tk then tk_vocab tk encoded else None) of
        Some i \<Rightarrow> Some [i]
      | None \<Rightarrow> bpe_encode tk encoded)"

definition encode_bpe :: "char_classes \<Rightarrow> 'f Tokenizer \<Rightarrow> ustr \<Rightarrow> nat list option" where
  "encode_bpe cl tk w =
     (case tk_pre tk of
        None \<Rightarrow> None
      | Some pre \<Rightarrow> collect_ids (map (encode_piece tk) (split_rule cl pre w)))"

definition byte_tokens :: "'f Tokenizer \<Rightarrow> byte list \<Rightarrow> nat list option" where
  "byte_tokens tk bs = collect_ids (map (\<lambda>b. map_option (\<lambda>i. [i]) (tk_byte_ids tk b)) bs)"

definition bpe_encode_raw :: "'f Tokenizer \<Rightarrow> ustr \<Rightarrow> nat list option" where
  "bpe_encode_raw tk piece =
     collect_ids (map (\<lambda>w. case tk_vocab tk w of Some i \<Rightarrow> Some [i] | None \<Rightarrow> byte_tokens tk (utf8_of w))
       (bpe_merge (tk_merges tk) (singletons piece)))"

definition spm_escape :: "ustr \<Rightarrow> ustr" where
  "spm_escape w = map (\<lambda>c. if c = SPACE then SPM_SPACE else c) w"

definition gemma4_encode :: "char_classes \<Rightarrow> 'f Tokenizer \<Rightarrow> ustr \<Rightarrow> nat list option" where
  "gemma4_encode cl tk w =
     (case tk_pre tk of
        None \<Rightarrow> None
      | Some pre \<Rightarrow>
          collect_ids (map (\<lambda>piece.
            case (if \<forall>c \<in> set piece. c = LF then tk_vocab tk piece else None) of
              Some i \<Rightarrow> Some [i]
            | None \<Rightarrow> bpe_encode_raw tk piece) (split_rule cl pre (spm_escape w))))"

section \<open>DNA blocks\<close>

text \<open>\<open>str::find\<close> of a non-empty pattern, as the number of characters before it.\<close>

fun find_sub :: "ustr \<Rightarrow> ustr \<Rightarrow> nat option" where
  "find_sub pat [] = (if pat = [] then Some 0 else None)"
| "find_sub pat (c # s) =
     (if take (length pat) (c # s) = pat then Some 0 else map_option Suc (find_sub pat s))"

lemma find_sub_le: "find_sub pat s = Some i \<Longrightarrow> i \<le> length s"
  by (induction pat s arbitrary: i rule: find_sub.induct) (auto split: if_splits)

text \<open>\<open>String::from_utf8_lossy\<close>: every ill-formed head becomes one replacement character.\<close>

function lossy_text :: "byte list \<Rightarrow> ustr" where
  "lossy_text bs =
     (if bs = [] then []
      else (if snd (utf8_head bs) then utf8_cp bs else 0xFFFD) # lossy_text (drop (fst (utf8_head bs)) bs))"
  by auto
termination
  using utf8_head_pos by (relation "measure length") auto

declare lossy_text.simps [simp del]

definition ascii_upper_byte :: "byte \<Rightarrow> byte" where
  "ascii_upper_byte b = (if 97 \<le> b \<and> b \<le> 122 then b - 32 else b)"

text \<open>The padding counts bytes of the text that the lossy decoding gave.\<close>

definition pad_kmer :: "ustr \<Rightarrow> ustr" where
  "pad_kmer kmer = kmer @ replicate (6 - length (utf8_of kmer)) (ch CHR ''A'')"

function kmer_loop :: "DnaData \<Rightarrow> byte list \<Rightarrow> nat list" where
  "kmer_loop dna s =
     (if 6 \<le> length s
      then (case dna_kmers dna (lossy_text (take 6 s)) of Some i \<Rightarrow> i | None \<Rightarrow> dna_oov dna) # kmer_loop dna (drop 6 s)
      else if s \<noteq> []
      then [case dna_kmers dna (pad_kmer (lossy_text s)) of Some i \<Rightarrow> i | None \<Rightarrow> dna_oov dna]
      else [])"
  by auto
termination by (relation "measure (\<lambda>(dna, s). length s)") auto

declare kmer_loop.simps [simp del]

definition hybriddna_kmers :: "DnaData \<Rightarrow> ustr \<Rightarrow> nat list" where
  "hybriddna_kmers dna raw = kmer_loop dna (map ascii_upper_byte (utf8_of raw))"

definition dna_open :: ustr where "dna_open = chars ''<dna>''"
definition dna_close :: ustr where "dna_close = chars ''</dna>''"

function dna_loop :: "char_classes \<Rightarrow> 'f Tokenizer \<Rightarrow> DnaData \<Rightarrow> ustr \<Rightarrow> nat list option" where
  "dna_loop cl tk dna rest =
     (if rest = [] then Some []
      else (case find_sub dna_open rest of
              None \<Rightarrow> encode_bpe cl tk rest
            | Some start \<Rightarrow>
                (let before = (if start > 0 then encode_bpe cl tk (take start rest) else Some []);
                     content = drop (start + 5) rest in
                 case find_sub dna_close content of
                   Some stop \<Rightarrow>
                     collect_ids [before, Some [dna_begin dna], Some (hybriddna_kmers dna (take stop content)),
                       Some [dna_end dna], dna_loop cl tk dna (drop (stop + 6) content)]
                 | None \<Rightarrow> collect_ids [before, Some [dna_begin dna], Some (hybriddna_kmers dna content)])))"
  by auto
termination
  by (relation "measure (\<lambda>(cl, tk, dna, rest). length rest)") auto

declare dna_loop.simps [simp del]

definition hybriddna_encode :: "char_classes \<Rightarrow> 'f Tokenizer \<Rightarrow> ustr \<Rightarrow> nat list option" where
  "hybriddna_encode cl tk w =
     (case tk_dna tk of None \<Rightarrow> encode_bpe cl tk w | Some dna \<Rightarrow> dna_loop cl tk dna w)"

end
