(* ===== verification/Tok_Spm.thy ===== *)
theory Tok_Spm
  imports Tok_Bpe
begin

text \<open>
  The SentencePiece engine (\<open>spm_encode\<close> and \<open>resegment\<close> of \<open>src/tokenizer.rs\<close>): a doubly linked list of
  symbols, a heap of candidate merges with lazy deletion, and the walk that emits tokens. The arithmetic of
  scores is the parameter \<open>N\<close>; \<open>None\<close> is a panic.
\<close>

section \<open>Symbols and candidate merges\<close>

record SpmSymbol =
  sy_text :: ustr
  sy_n :: nat
  sy_prev :: "nat option"
  sy_next :: "nat option"

record 'f SpmBigram =
  bg_score :: 'f
  bg_left :: nat
  bg_right :: nat
  bg_size :: nat

text \<open>
  \<open>Ord::cmp\<close> gives \<open>Greater\<close>: the higher score, where incomparable scores are equal, then the smaller left index.
\<close>

definition bigram_greater :: "'f flt \<Rightarrow> 'f SpmBigram \<Rightarrow> 'f SpmBigram \<Rightarrow> bool" where
  "bigram_greater N a b \<longleftrightarrow>
     n_lt N (bg_score b) (bg_score a) \<or> \<not> n_lt N (bg_score a) (bg_score b) \<and> bg_left a < bg_left b"

text \<open>The heap is the list of what was pushed; \<open>pop\<close> takes a greatest element, the oldest of equals.\<close>

fun pop_bigram :: "'f flt \<Rightarrow> 'f SpmBigram list \<Rightarrow> ('f SpmBigram \<times> 'f SpmBigram list) option" where
  "pop_bigram N [] = None"
| "pop_bigram N (b # q) =
     (case pop_bigram N q of
        None \<Rightarrow> Some (b, q)
      | Some (m, rest) \<Rightarrow> if bigram_greater N m b then Some (m, b # rest) else Some (b, q))"

record 'f SpmSession =
  ss_symbols :: "SpmSymbol list"
  ss_rev_merge :: "ustr \<Rightarrow> (ustr \<times> ustr) option"
  ss_queue :: "'f SpmBigram list"

definition try_add :: "'f Tokenizer \<Rightarrow> nat \<Rightarrow> nat \<Rightarrow> 'f SpmSession \<Rightarrow> 'f SpmSession" where
  "try_add tk left right s =
     (let l = ss_symbols s ! left; r = ss_symbols s ! right; joined = sy_text l @ sy_text r in
      case tk_vocab tk joined of
        None \<Rightarrow> s
      | Some i \<Rightarrow>
          if i < length (tk_scores tk)
          then s\<lparr>ss_queue := ss_queue s @
                   [\<lparr>bg_score = tk_scores tk ! i, bg_left = left, bg_right = right, bg_size = length (utf8_of joined)\<rparr>],
                 ss_rev_merge := (ss_rev_merge s)(joined \<mapsto> (sy_text l, sy_text r))\<rparr>
          else s)"

definition spm_symbols :: "ustr \<Rightarrow> SpmSymbol list" where
  "spm_symbols w =
     map (\<lambda>i. \<lparr>sy_text = [w ! i], sy_n = length (utf8_of [w ! i]),
              sy_prev = (if i = 0 then None else Some (i - 1)),
              sy_next = (if i + 1 = length w then None else Some (i + 1))\<rparr>) [0..<length w]"

definition spm_start :: "'f Tokenizer \<Rightarrow> ustr \<Rightarrow> 'f SpmSession" where
  "spm_start tk w =
     fold (\<lambda>i. try_add tk (i - 1) i) [1..<length w]
       \<lparr>ss_symbols = spm_symbols w, ss_rev_merge = (\<lambda>_. None), ss_queue = []\<rparr>"

section \<open>The merge loop\<close>

definition stale :: "SpmSymbol list \<Rightarrow> 'f SpmBigram \<Rightarrow> bool" where
  "stale sys bg \<longleftrightarrow>
     sy_n (sys ! bg_left bg) = 0 \<or> sy_n (sys ! bg_right bg) = 0
     \<or> sy_n (sys ! bg_left bg) + sy_n (sys ! bg_right bg) \<noteq> bg_size bg"

text \<open>The writes to the symbols when \<open>right\<close> is taken into \<open>left\<close>.\<close>

definition absorb :: "SpmSymbol list \<Rightarrow> nat \<Rightarrow> nat \<Rightarrow> SpmSymbol list" where
  "absorb sys left right =
     (let right_text = sy_text (sys ! right);
          sys1 = sys[right := (sys ! right)\<lparr>sy_text := []\<rparr>];
          sys2 = sys1[left := (sys1 ! left)\<lparr>sy_n := sy_n (sys1 ! left) + sy_n (sys1 ! right),
                                            sy_text := sy_text (sys1 ! left) @ right_text\<rparr>];
          sys3 = sys2[right := (sys2 ! right)\<lparr>sy_n := 0, sy_text := []\<rparr>];
          nxt = sy_next (sys3 ! right);
          sys4 = sys3[left := (sys3 ! left)\<lparr>sy_next := nxt\<rparr>]
      in case nxt of Some nx \<Rightarrow> sys4[nx := (sys4 ! nx)\<lparr>sy_prev := Some left\<rparr>] | None \<Rightarrow> sys4)"

definition spm_merge :: "'f Tokenizer \<Rightarrow> nat \<Rightarrow> nat \<Rightarrow> 'f SpmSession \<Rightarrow> 'f SpmSession" where
  "spm_merge tk left right s =
     (let s1 = s\<lparr>ss_symbols := absorb (ss_symbols s) left right\<rparr>;
          s2 = (case sy_prev (ss_symbols s1 ! left) of Some p \<Rightarrow> try_add tk p left s1 | None \<Rightarrow> s1)
      in case sy_next (ss_symbols s2 ! left) of Some nx \<Rightarrow> try_add tk left nx s2 | None \<Rightarrow> s2)"

definition bigram_in_range :: "SpmSymbol list \<Rightarrow> 'f SpmBigram \<Rightarrow> bool" where
  "bigram_in_range sys bg \<longleftrightarrow> bg_left bg < length sys \<and> bg_right bg < length sys"

definition live_symbols :: "SpmSymbol list \<Rightarrow> nat" where
  "live_symbols sys = length (filter (\<lambda>y. sy_n y \<noteq> 0) sys)"

lemma filter_update:
  "i < length xs \<Longrightarrow>
     length (filter P (xs[i := x])) + (if P (xs ! i) then 1 else 0) = length (filter P xs) + (if P x then 1 else 0)"
proof (induction xs arbitrary: i)
  case (Cons a xs)
  then show ?case using Cons.IH[of "i - 1"] by (cases i) (auto split: if_splits)
qed simp

lemma alive_map: "live_symbols sys = length (filter (\<lambda>n. n \<noteq> 0) (map sy_n sys))"
  by (simp add: live_symbols_def filter_map o_def)

lemma map_update_same: "f x = f (xs ! i) \<Longrightarrow> map f (xs[i := x]) = map f xs"
  by (cases "i < length xs") (auto simp: map_update list_update_same_conv list_update_beyond)

lemma sy_n_prev [simp]:
  "map sy_n (case nx of Some nx \<Rightarrow> ys[nx := (ys ! nx)\<lparr>sy_prev := p\<rparr>] | None \<Rightarrow> ys) = map sy_n ys"
  by (simp add: map_update_same split: option.split)

lemma map_sy_n_absorb:
  "left < length sys \<Longrightarrow> right < length sys \<Longrightarrow>
     map sy_n (absorb sys left right) = (map sy_n sys)[left := sy_n (sys ! left) + sy_n (sys ! right), right := 0]"
  unfolding absorb_def Let_def
  by (cases "left = right") (simp_all add: map_update map_update_same nth_list_update list_update_swap[of left right])

lemma alive_absorb:
  assumes "left < length sys" "right < length sys" "sy_n (sys ! left) \<noteq> 0" "sy_n (sys ! right) \<noteq> 0"
  shows "live_symbols (absorb sys left right) < live_symbols sys"
proof -
  let ?ns = "map sy_n sys"
  let ?ms = "?ns[left := sy_n (sys ! left) + sy_n (sys ! right)]"
  have 1: "length (filter (\<lambda>n. n \<noteq> 0) ?ms) = length (filter (\<lambda>n. n \<noteq> 0) ?ns)"
    using filter_update[of left ?ns "\<lambda>n. n \<noteq> 0" "sy_n (sys ! left) + sy_n (sys ! right)"] assms by simp
  have 2: "?ms ! right \<noteq> 0" using assms by (simp add: nth_list_update)
  have "length (filter (\<lambda>n. n \<noteq> 0) (?ms[right := 0])) + 1 = length (filter (\<lambda>n. n \<noteq> 0) ?ms)"
    using filter_update[of right ?ms "\<lambda>n. n \<noteq> 0" 0] assms 2 by simp
  then show ?thesis using 1 map_sy_n_absorb[OF assms(1,2)] by (simp add: alive_map)
qed

lemma try_add_simps [simp]:
  "ss_symbols (try_add tk l r s) = ss_symbols s"
  "length (ss_queue (try_add tk l r s)) \<le> Suc (length (ss_queue s))"
  by (auto simp: try_add_def Let_def split: option.split)

lemma spm_merge_symbols [simp]: "ss_symbols (spm_merge tk l r s) = absorb (ss_symbols s) l r"
  by (simp add: spm_merge_def Let_def split: option.split)

lemma try_add_queue: "length (ss_queue s) \<le> n \<Longrightarrow> length (ss_queue (try_add tk l r s)) \<le> Suc n"
  using try_add_simps(2)[of tk l r s] by linarith

lemma spm_merge_queue: "length (ss_queue (spm_merge tk l r s)) \<le> Suc (Suc (length (ss_queue s)))"
  unfolding spm_merge_def Let_def
  by (auto split: option.split intro!: try_add_queue intro: le_SucI)

lemma pop_bigram_length: "pop_bigram N q = Some (m, rest) \<Longrightarrow> length q = Suc (length rest)"
  by (induction q arbitrary: m rest) (auto split: option.splits if_splits)

text \<open>An index out of range panics; every merge kills a symbol and adds at most two candidates.\<close>

function spm_merge_loop :: "'f flt \<Rightarrow> 'f Tokenizer \<Rightarrow> 'f SpmSession \<Rightarrow> 'f SpmSession option" where
  "spm_merge_loop N tk s =
     (case pop_bigram N (ss_queue s) of
        None \<Rightarrow> Some s
      | Some (bg, rest) \<Rightarrow>
          (let s1 = s\<lparr>ss_queue := rest\<rparr> in
           if \<not> bigram_in_range (ss_symbols s) bg then None
           else if stale (ss_symbols s) bg then spm_merge_loop N tk s1
           else spm_merge_loop N tk (spm_merge tk (bg_left bg) (bg_right bg) s1)))"
  by auto
termination
proof (relation "measure (\<lambda>(N, tk, s). 3 * live_symbols (ss_symbols s) + length (ss_queue s))", goal_cases)
  case (2 N tk s p bg rest s1)
  then show ?case using pop_bigram_length[of N "ss_queue s" bg rest] by simp
next
  case (3 N tk s p bg rest s1)
  have "live_symbols (absorb (ss_symbols s) (bg_left bg) (bg_right bg)) < live_symbols (ss_symbols s)"
    using 3 by (intro alive_absorb) (auto simp: bigram_in_range_def stale_def)
  then show ?case
    using 3 pop_bigram_length[of N "ss_queue s" bg rest] spm_merge_queue[of tk "bg_left bg" "bg_right bg" s1] by simp
qed auto

declare spm_merge_loop.simps [simp del]

section \<open>Tokens\<close>

text \<open>The recursion on the recorded pairs; the fuel counts its depth.\<close>

fun resegment :: "'f Tokenizer \<Rightarrow> (ustr \<Rightarrow> (ustr \<times> ustr) option) \<Rightarrow> nat \<Rightarrow> ustr \<Rightarrow> nat list option" where
  "resegment tk rev_merge fuel w =
     (case tk_vocab tk w of
        Some i \<Rightarrow> Some [i]
      | None \<Rightarrow>
          if w = [] then Some []
          else (case rev_merge w of
                  Some (a, b) \<Rightarrow>
                    (case fuel of
                       0 \<Rightarrow> None
                     | Suc f \<Rightarrow> collect_ids [resegment tk rev_merge f a, resegment tk rev_merge f b])
                | None \<Rightarrow> byte_tokens tk (utf8_of w)))"

declare resegment.simps [simp del]

text \<open>The walk along \<open>next\<close>; the fuel counts the symbols visited.\<close>

fun spm_walk :: "'f Tokenizer \<Rightarrow> 'f SpmSession \<Rightarrow> nat \<Rightarrow> nat option \<Rightarrow> nat list option" where
  "spm_walk tk s fuel None = Some []"
| "spm_walk tk s 0 (Some i) = None"
| "spm_walk tk s (Suc f) (Some i) =
     (if i < length (ss_symbols s) then
        (let y = ss_symbols s ! i in
         collect_ids [resegment tk (ss_rev_merge s) (length (sy_text y)) (sy_text y), spm_walk tk s f (sy_next y)])
      else None)"

definition spm_encode :: "'f flt \<Rightarrow> 'f Tokenizer \<Rightarrow> ustr \<Rightarrow> nat list option" where
  "spm_encode N tk w =
     (case spm_merge_loop N tk (spm_start tk w) of
        None \<Rightarrow> None
      | Some s \<Rightarrow> spm_walk tk s (length w) (Some 0))"

end
