(* ===== verification/Tok_Dp.thy ===== *)
theory Tok_Dp
  imports Tok_Bpe
begin

text \<open>
  The engines that choose a segmentation over the vocabulary trie (\<open>src/tokenizer.rs\<close>): the greedy walk of
  \<open>rwkv_encode\<close>, the backward dynamic program of \<open>plamo2_encode\<close>, and the Viterbi walk of \<open>ugm_encode\<close> with its
  normalizer. The rounding of a score to an integer (\<open>rnd\<close>) and the arithmetic of scores (\<open>N\<close>, \<open>F\<close>) are
  parameters; integer sums of scores are unbounded, and a slice off a character boundary is \<open>None\<close>.
\<close>

unbundle bit_operations_syntax

section \<open>The greedy byte walk\<close>

function rwkv_walk :: "VocabTrie \<Rightarrow> nat \<Rightarrow> byte list \<Rightarrow> nat list" where
  "rwkv_walk trie unk bytes =
     (if bytes = [] then []
      else (case longest_prefix_bytes trie bytes of
              Some (i, len) \<Rightarrow> i # rwkv_walk trie unk (drop len bytes)
            | None \<Rightarrow> unk # rwkv_walk trie unk (drop 1 bytes)))"
  by auto
termination
  by (relation "measure (\<lambda>(trie, unk, bytes). length bytes)") (auto dest: longest_prefix_pos)

declare rwkv_walk.simps [simp del]

definition rwkv_encode :: "'f Tokenizer \<Rightarrow> ustr \<Rightarrow> nat list" where
  "rwkv_encode tk w = rwkv_walk (ug_trie (tk_ugm tk)) (tk_unk tk) (utf8_of w)"

section \<open>The backward dynamic program\<close>

definition INVALID_SCORE :: int where "INVALID_SCORE = -20000000"
definition UNKNOWN_SCORE :: int where "UNKNOWN_SCORE = -10000000"

definition plamo2_score_int :: "'f flt \<Rightarrow> ('f \<Rightarrow> int) \<Rightarrow> 'f Tokenizer \<Rightarrow> nat \<Rightarrow> int" where
  "plamo2_score_int N rnd tk i =
     (if i < length (tk_scores tk) \<and> n_finite N (tk_scores tk ! i)
      then rnd (n_mul N (tk_scores tk ! i) (n_nat N 10000)) else INVALID_SCORE)"

text \<open>The number of characters of valid UTF-8: the bytes that do not continue one.\<close>

definition chars_in :: "byte list \<Rightarrow> nat" where
  "chars_in bs = length (filter (\<lambda>b. \<not> (0x80 \<le> b \<and> b < 0xC0)) bs)"

fun candidates_loop :: "VocabTrie \<Rightarrow> nat \<Rightarrow> byte list \<Rightarrow> byte list \<Rightarrow> (nat \<times> nat) list" where
  "candidates_loop trie node seen [] = []"
| "candidates_loop trie node seen (b # bs) =
     (case trie_step trie node b of
        None \<Rightarrow> []
      | Some nxt \<Rightarrow>
          (case trie_terminal trie nxt of Some i \<Rightarrow> [(chars_in (seen @ [b]), i)] | None \<Rightarrow> [])
          @ candidates_loop trie nxt (seen @ [b]) bs)"

definition plamo2_candidates :: "VocabTrie \<Rightarrow> ustr \<Rightarrow> (nat \<times> nat) list" where
  "plamo2_candidates trie w = (if trie = [] then [] else candidates_loop trie 0 [] (utf8_of w))"

text \<open>
  One row: \<open>scores\<close> are those of the later positions, so that \<open>scores[i + piece_len]\<close> is entry \<open>piece_len - 1\<close>;
  the result is the score of the position and the piece taken there.
\<close>

definition plamo2_try :: "(nat \<Rightarrow> int) \<Rightarrow> int list \<Rightarrow> nat \<times> nat \<Rightarrow> int \<times> nat \<times> nat option \<Rightarrow> int \<times> nat \<times> nat option" where
  "plamo2_try score scores = (\<lambda>(piece_len, i) (best, choice).
     if score i \<le> INVALID_SCORE then (best, choice)
     else (let s = scores ! (piece_len - 1) - score i in
           if s < best then (s, (piece_len, Some i)) else (best, choice)))"

definition plamo2_row :: "(nat \<Rightarrow> int) \<Rightarrow> VocabTrie \<Rightarrow> int list \<Rightarrow> ustr \<Rightarrow> int \<times> nat \<times> nat option" where
  "plamo2_row score trie scores w =
     (case fold (plamo2_try score scores) (rev (plamo2_candidates trie w)) (2 ^ 60, (1, None)) of
        (best, choice) \<Rightarrow>
          (let s = scores ! 0 - UNKNOWN_SCORE in if s < best then (s, (1, None)) else (best, choice)))"

fun plamo2_rows :: "(nat \<Rightarrow> int) \<Rightarrow> VocabTrie \<Rightarrow> ustr \<Rightarrow> int list \<times> (nat \<times> nat option) list" where
  "plamo2_rows score trie [] = ([0], [])"
| "plamo2_rows score trie (c # w) =
     (case plamo2_rows score trie w of
        (scores, choices) \<Rightarrow>
          (case plamo2_row score trie scores (c # w) of (best, choice) \<Rightarrow> (best # scores, choice # choices)))"

text \<open>The walk over the choices; the fuel counts the characters.\<close>

fun plamo2_emit :: "'f Tokenizer \<Rightarrow> nat \<Rightarrow> ustr \<Rightarrow> (nat \<times> nat option) list \<Rightarrow> nat list option" where
  "plamo2_emit tk fuel [] choices = Some []"
| "plamo2_emit tk 0 (c # w) choices = None"
| "plamo2_emit tk (Suc f) (c # w) choices =
     (case choices ! 0 of
        (piece_len, i) \<Rightarrow>
          map_option (\<lambda>out. (case i of Some t \<Rightarrow> [t] | None \<Rightarrow> List.map_filter (tk_byte_ids tk) (encode_utf8 c)) @ out)
            (plamo2_emit tk f (drop piece_len (c # w)) (drop piece_len choices)))"

definition strip_bom :: "ustr \<Rightarrow> ustr" where
  "strip_bom w = (if w \<noteq> [] \<and> hd w = 0xFEFF then tl w else w)"

definition plamo2_encode :: "'f flt \<Rightarrow> ('f \<Rightarrow> int) \<Rightarrow> 'f Tokenizer \<Rightarrow> ustr \<Rightarrow> nat list option" where
  "plamo2_encode N rnd tk w =
     (let cps = strip_bom w in
      plamo2_emit tk (length cps) cps (snd (plamo2_rows (plamo2_score_int N rnd tk) (ug_trie (tk_ugm tk)) cps)))"

section \<open>The Viterbi walk\<close>

definition utf8_len :: "byte \<Rightarrow> nat" where
  "utf8_len b =
     (if b < 0x80 then 1 else if drop_bit 5 b = 0b110 then 2 else if drop_bit 4 b = 0b1110 then 3
      else if drop_bit 3 b = 0b11110 then 4 else 1)"

lemma utf8_len_pos [simp]: "0 < utf8_len b"
  by (simp add: utf8_len_def)

text \<open>\<open>f64::MIN\<close>\<close>

definition d_lowest :: "'d flt \<Rightarrow> 'd" where
  "d_lowest D = n_lit D (- (17976931348623157 * 10 ^ 292)) 0"

definition ugm_score :: "('f, 'd) fp \<Rightarrow> 'f Tokenizer \<Rightarrow> nat \<Rightarrow> 'd" where
  "ugm_score F tk i =
     (if i < length (tk_types tk) \<and> tk_types tk ! i = 4 then n_nat (fp64 F) 0
      else fp_up F (if i < length (tk_scores tk) then tk_scores tk ! i else n_nat (fp32 F) 0))"

type_synonym 'd best = "(nat \<times> nat \<times> 'd) list"

definition ugm_relax :: "'d flt \<Rightarrow> nat \<Rightarrow> nat \<times> nat \<times> 'd \<Rightarrow> 'd best \<Rightarrow> 'd best" where
  "ugm_relax D offset = (\<lambda>(i, stop, challenger) best.
     if n_lt D (snd (snd (best ! stop))) challenger then best[stop := (i, offset, challenger)] else best)"

definition ugm_step :: "('f, 'd) fp \<Rightarrow> 'f Tokenizer \<Rightarrow> byte list \<Rightarrow> nat \<Rightarrow> nat \<Rightarrow> 'd best \<Rightarrow> 'd best" where
  "ugm_step F tk bytes cp_len offset best =
     (let D = fp64 F; current = snd (snd (best ! offset)); ms = trie_matches (ug_trie (tk_ugm tk)) bytes offset;
          best1 = fold (ugm_relax D offset) (map (\<lambda>(i, stop). (i, stop, n_add D current (ugm_score F tk i))) ms) best
      in if \<exists>(i, stop) \<in> set ms. stop - offset = cp_len then best1
         else ugm_relax D offset
                (tk_unk tk, offset + cp_len, n_add D current (fp_up F (ug_unknown_score (tk_ugm tk)))) best1)"

function ugm_forward :: "('f, 'd) fp \<Rightarrow> 'f Tokenizer \<Rightarrow> byte list \<Rightarrow> nat \<Rightarrow> 'd best \<Rightarrow> 'd best" where
  "ugm_forward F tk bytes offset best =
     (if offset < length bytes then
        (let cp_len = min (utf8_len (bytes ! offset)) (length bytes - offset) in
         ugm_forward F tk bytes (offset + cp_len) (ugm_step F tk bytes cp_len offset best))
      else best)"
  by auto
termination
  by (relation "measure (\<lambda>(F, tk, bytes, offset, best). length bytes - offset)") (auto simp: min_def intro!: diff_less_mono2)

declare ugm_forward.simps [simp del]

text \<open>The walk back, last token first; the fuel counts the tokens.\<close>

fun ugm_back :: "'d best \<Rightarrow> nat \<Rightarrow> nat \<Rightarrow> nat \<Rightarrow> bool \<Rightarrow> nat list option" where
  "ugm_back best unk 0 at prev_unknown = None"
| "ugm_back best unk (Suc f) at prev_unknown =
     (case best ! at of
        (i, prev, _) \<Rightarrow>
          map_option (\<lambda>out. (if prev_unknown \<and> i = unk then [] else [i]) @ out)
            (if prev = 0 then Some [] else ugm_back best unk f prev (i = unk)))"

definition ugm_segment :: "('f, 'd) fp \<Rightarrow> 'f Tokenizer \<Rightarrow> byte list \<Rightarrow> nat list option" where
  "ugm_segment F tk bytes =
     (let n = length bytes; D = fp64 F in
      if n = 0 then Some []
      else map_option rev (ugm_back
             (ugm_forward F tk bytes 0 ((replicate (n + 1) (tk_unk tk, 0, d_lowest D))[0 := (tk_unk tk, 0, n_nat D 0)]))
             (tk_unk tk) n n False))"

section \<open>The normalizer of the Viterbi walk\<close>

text \<open>Slicing a string at a byte offset, which panics inside a character.\<close>

fun split_at_byte :: "nat \<Rightarrow> ustr \<Rightarrow> (ustr \<times> ustr) option" where
  "split_at_byte 0 w = Some ([], w)"
| "split_at_byte (Suc n) [] = None"
| "split_at_byte (Suc n) (c # w) =
     (if length (encode_utf8 c) \<le> Suc n
      then map_option (\<lambda>(a, b). (c # a, b)) (split_at_byte (Suc n - length (encode_utf8 c)) w) else None)"

definition xcda_base :: "32 word \<Rightarrow> 32 word" where
  "xcda_base packed = push_bit (unat (drop_bit 6 (packed AND 0x200))) (drop_bit 10 packed)"

fun xcda_loop :: "32 word list \<Rightarrow> 32 word \<Rightarrow> nat \<Rightarrow> nat \<times> nat \<Rightarrow> byte list \<Rightarrow> nat \<times> nat" where
  "xcda_loop xcda node i longest [] = longest"
| "xcda_loop xcda node i longest (c # bs) =
     (if c = 0 then longest
      else (let node1 = node XOR ucast c in
            if \<not> unat node1 < length xcda then longest
            else (let packed = xcda ! unat node1 in
                  if packed AND 0x800000FF \<noteq> ucast c then longest
                  else (let node2 = node1 XOR xcda_base packed;
                            value = (if unat node2 < length xcda then xcda ! unat node2 else 0) in
                        xcda_loop xcda node2 (i + 1)
                          (if drop_bit 8 packed AND 1 = 1 then (i + 1, unat (value AND 0x7FFFFFFF)) else longest) bs))))"

definition ugm_normalize_prefix :: "'f UgmData \<Rightarrow> ustr \<Rightarrow> (ustr \<times> nat) option" where
  "ugm_normalize_prefix ug input =
     (case trie_longest_prefix (ug_user_defined ug) input of
        Some (_, len) \<Rightarrow> map_option (\<lambda>(piece, _). (piece, len)) (split_at_byte len input)
      | None \<Rightarrow>
          (let longest = (if ug_xcda ug = [] then (0, 0)
                          else xcda_loop (ug_xcda ug) (xcda_base (ug_xcda ug ! 0)) 0 (0, 0) (utf8_of input)) in
           if fst longest > 0 then
             (if snd longest \<le> length (ug_replacements ug)
              then Some (lossy_text (takeWhile (\<lambda>b. b \<noteq> 0) (drop (snd longest) (ug_replacements ug))), fst longest)
              else map_option (\<lambda>(piece, _). (piece, fst longest)) (split_at_byte (fst longest) input))
           else (case input of c # _ \<Rightarrow> Some ([c], length (encode_utf8 c)) | [] \<Rightarrow> Some ([], 0))))"

text \<open>What is written, whether a space was put in front, and whether a word is being written.\<close>

type_synonym spacing = "ustr \<times> bool \<times> bool"

definition space_char :: "bool \<Rightarrow> bool \<Rightarrow> nat \<Rightarrow> spacing \<Rightarrow> spacing" where
  "space_char prepend merge_spaces c = (\<lambda>(out, prepended, in_word).
     if c \<noteq> SPACE then
       (if \<not> in_word then
          (if prepend \<and> \<not> prepended \<or> merge_spaces then (out @ [SPM_SPACE, c], True, True) else (out @ [c], prepended, True))
        else (out @ [c], prepended, True))
     else (if merge_spaces then out else out @ [SPM_SPACE], prepended, False))"

text \<open>The fuel counts the characters of the input.\<close>

fun normalize_loop :: "bool \<Rightarrow> bool \<Rightarrow> 'f UgmData \<Rightarrow> nat \<Rightarrow> spacing \<Rightarrow> ustr \<Rightarrow> ustr option" where
  "normalize_loop prepend merge_spaces ug fuel st [] = Some (fst st)"
| "normalize_loop prepend merge_spaces ug 0 st (c # w) = None"
| "normalize_loop prepend merge_spaces ug (Suc f) st (c # w) =
     (case ugm_normalize_prefix ug (c # w) of
        None \<Rightarrow> None
      | Some (replacement, consumed) \<Rightarrow>
          if consumed = 0 then Some (fst st)
          else (case split_at_byte consumed (c # w) of
                  None \<Rightarrow> None
                | Some (_, rest) \<Rightarrow>
                    normalize_loop prepend merge_spaces ug f (fold (space_char prepend merge_spaces) replacement st) rest))"

definition ugm_normalize :: "'f Tokenizer \<Rightarrow> ustr \<Rightarrow> ustr option" where
  "ugm_normalize tk input =
     normalize_loop (tk_add_space_prefix tk) (tk_remove_extra_whitespaces tk) (tk_ugm tk) (length input) ([], False, False) input"

definition ugm_encode :: "('f, 'd) fp \<Rightarrow> 'f Tokenizer \<Rightarrow> ustr \<Rightarrow> nat list option" where
  "ugm_encode F tk w =
     (case ugm_normalize tk w of None \<Rightarrow> None | Some normalized \<Rightarrow> ugm_segment F tk (utf8_of normalized))"

end
