(* ===== verification/Tok_Nfc.thy ===== *)
theory Tok_Nfc
  imports Utf8
begin

text \<open>
  Normalization of tokenizer input (\<open>src/tokenizer/nfc.rs\<close>): canonical decomposition, canonical ordering and
  canonical composition over code points. The generated tables are the parameter \<open>T\<close>; a binary search in a
  table sorted by its key is the lookup \<open>map_of\<close>.
\<close>

section \<open>Tables and Hangul arithmetic\<close>

record nfc_tables =
  DECOMPOSITION :: "(nat \<times> nat list) list"
  COMBINING_CLASS :: "(nat \<times> nat) list"
  COMPOSITION :: "((nat \<times> nat) \<times> nat) list"
  COMPOSITION_SECOND :: "nat list"

definition S_BASE :: nat where "S_BASE = 0xAC00"
definition L_BASE :: nat where "L_BASE = 0x1100"
definition V_BASE :: nat where "V_BASE = 0x1161"
definition T_BASE :: nat where "T_BASE = 0x11A7"
definition L_COUNT :: nat where "L_COUNT = 19"
definition V_COUNT :: nat where "V_COUNT = 21"
definition T_COUNT :: nat where "T_COUNT = 28"
definition N_COUNT :: nat where "N_COUNT = V_COUNT * T_COUNT"
definition S_COUNT :: nat where "S_COUNT = L_COUNT * N_COUNT"

lemmas hangul_defs = S_BASE_def L_BASE_def V_BASE_def T_BASE_def L_COUNT_def V_COUNT_def T_COUNT_def N_COUNT_def S_COUNT_def

text \<open>A half-open range \<open>a..a + n\<close>.\<close>

definition among :: "nat \<Rightarrow> nat \<Rightarrow> nat \<Rightarrow> bool" where
  "among a n c \<longleftrightarrow> a \<le> c \<and> c < a + n"

definition is_hangul_jamo :: "nat \<Rightarrow> bool" where
  "is_hangul_jamo cp \<longleftrightarrow> among L_BASE L_COUNT cp \<or> among V_BASE V_COUNT cp \<or> among (T_BASE + 1) (T_COUNT - 1) cp"

definition is_composition_second :: "nfc_tables \<Rightarrow> nat \<Rightarrow> bool" where
  "is_composition_second T cp \<longleftrightarrow> cp \<in> set (COMPOSITION_SECOND T)"

definition is_hangul_syllable :: "nat \<Rightarrow> bool" where
  "is_hangul_syllable cp \<longleftrightarrow> among S_BASE S_COUNT cp"

definition decomposition_of :: "nfc_tables \<Rightarrow> nat \<Rightarrow> nat list option" where
  "decomposition_of T cp = map_of (DECOMPOSITION T) cp"

definition combining_class :: "nfc_tables \<Rightarrow> nat \<Rightarrow> nat" where
  "combining_class T cp = (case map_of (COMBINING_CLASS T) cp of Some k \<Rightarrow> k | None \<Rightarrow> 0)"

section \<open>The three steps\<close>

text \<open>The recursion follows the decomposition table; the fuel bounds its depth by the number of entries.\<close>

fun push_decomposed :: "nfc_tables \<Rightarrow> nat \<Rightarrow> nat \<Rightarrow> nat list" where
  "push_decomposed T fuel cp =
     (if is_hangul_syllable cp then
        (let s = cp - S_BASE in
         [L_BASE + s div N_COUNT, V_BASE + s mod N_COUNT div T_COUNT]
         @ (if s mod T_COUNT \<noteq> 0 then [T_BASE + s mod T_COUNT] else []))
      else (case decomposition_of T cp of
              Some parts \<Rightarrow>
                (case fuel of 0 \<Rightarrow> [] | Suc f \<Rightarrow> concat (map (\<lambda>part. push_decomposed T f part) parts))
            | None \<Rightarrow> [cp]))"

declare push_decomposed.simps [simp del]

definition decompose :: "nfc_tables \<Rightarrow> nat list \<Rightarrow> nat list" where
  "decompose T w = concat (map (\<lambda>c. push_decomposed T (length (DECOMPOSITION T)) c) w)"

function canonical_order :: "nfc_tables \<Rightarrow> nat list \<Rightarrow> nat list" where
  "canonical_order T cps =
     (case cps of
        [] \<Rightarrow> []
      | c # rest \<Rightarrow>
          if combining_class T c = 0 then c # canonical_order T rest
          else sort_key (combining_class T) (takeWhile (\<lambda>c. combining_class T c \<noteq> 0) cps)
               @ canonical_order T (dropWhile (\<lambda>c. combining_class T c \<noteq> 0) cps))"
  by auto
termination
  by (relation "measure (\<lambda>(T, cps). length cps)") (auto simp: less_Suc_eq_le length_dropWhile_le)

declare canonical_order.simps [simp del]

definition compose_pair :: "nfc_tables \<Rightarrow> nat \<Rightarrow> nat \<Rightarrow> nat option" where
  "compose_pair T a b =
     (if among L_BASE L_COUNT a \<and> among V_BASE V_COUNT b
      then Some (S_BASE + ((a - L_BASE) * V_COUNT + (b - V_BASE)) * T_COUNT)
      else if is_hangul_syllable a \<and> (a - S_BASE) mod T_COUNT = 0 \<and> among (T_BASE + 1) (T_COUNT - 1) b
      then Some (a + (b - T_BASE))
      else map_of (COMPOSITION T) (a, b))"

text \<open>The output so far, the position of the last starter, and the class of the character pushed last.\<close>

fun compose_loop :: "nfc_tables \<Rightarrow> nat list \<Rightarrow> nat option \<Rightarrow> nat \<Rightarrow> nat list \<Rightarrow> nat list" where
  "compose_loop T out starter last_class [] = out"
| "compose_loop T out starter last_class (cp # cps) =
     (let cls = combining_class T cp in
      case (case starter of
              None \<Rightarrow> None
            | Some si \<Rightarrow>
                if length out > si + 1 \<and> last_class \<ge> cls then None
                else map_option (\<lambda>c. (si, c)) (compose_pair T (out ! si) cp)) of
        Some (si, composed) \<Rightarrow> compose_loop T (out[si := composed]) starter last_class cps
      | None \<Rightarrow> compose_loop T (out @ [cp]) (if cls = 0 then Some (length out) else starter) cls cps)"

definition compose :: "nfc_tables \<Rightarrow> nat list \<Rightarrow> nat list" where
  "compose T cps = compose_loop T [] None 0 cps"

section \<open>The two forms\<close>

definition needs_normalization :: "nfc_tables \<Rightarrow> nat list \<Rightarrow> bool" where
  "needs_normalization T w \<longleftrightarrow>
     (\<exists>cp \<in> set w. decomposition_of T cp \<noteq> None \<or> combining_class T cp \<noteq> 0 \<or> is_hangul_jamo cp \<or> is_composition_second T cp)"

definition is_ascii :: "nat list \<Rightarrow> bool" where
  "is_ascii w \<longleftrightarrow> (\<forall>c \<in> set w. c < 128)"

definition nfc :: "nfc_tables \<Rightarrow> nat list \<Rightarrow> nat list" where
  "nfc T w =
     (if is_ascii w \<or> \<not> needs_normalization T w then w
      else (let out = compose T (canonical_order T (decompose T w)) in if out = w then w else out))"

definition nfd :: "nfc_tables \<Rightarrow> nat list \<Rightarrow> nat list" where
  "nfd T w = (if is_ascii w then w else (let out = canonical_order T (decompose T w) in if out = w then w else out))"

end
