(* ===== verification/Tok_Text.thy ===== *)
theory Tok_Text
  imports Tok_Spm Tok_Dp Tok_Nfc
begin

text \<open>
  Text to tokens and back (\<open>src/tokenizer.rs\<close>): the WordPiece engine, the scan for special tokens of \<open>encode\<close>,
  the choice of the engine (\<open>encode_text\<close>), \<open>decode_bytes\<close>, the sequences that overlap a breaker of the DRY
  sampler, and the hold-back of an unfinished character. Unicode data (\<open>U\<close>), the normalization tables (\<open>T\<close>),
  the arithmetic of scores (\<open>F\<close>) and its rounding (\<open>rnd\<close>) are parameters.
\<close>

section \<open>WordPiece\<close>

definition is_chinese_char :: "nat \<Rightarrow> bool" where
  "is_chinese_char cp \<longleftrightarrow>
     0x4E00 \<le> cp \<and> cp \<le> 0x9FFF \<or> 0x3400 \<le> cp \<and> cp \<le> 0x4DBF \<or> 0x20000 \<le> cp \<and> cp \<le> 0x2A6DF
     \<or> 0x2A700 \<le> cp \<and> cp \<le> 0x2B73F \<or> 0x2B740 \<le> cp \<and> cp \<le> 0x2B81F \<or> 0x2B920 \<le> cp \<and> cp \<le> 0x2CEAF
     \<or> 0xF900 \<le> cp \<and> cp \<le> 0xFAFF \<or> 0x2F800 \<le> cp \<and> cp \<le> 0x2FA1F"

definition fresh_word :: "ustr list \<Rightarrow> ustr list" where
  "fresh_word ws = (if last ws = [] then ws else ws @ [[]])"

definition lowered :: "unicode \<Rightarrow> nat \<Rightarrow> ustr" where
  "lowered U c = (case un_lower U c of [x] \<Rightarrow> [x] | _ \<Rightarrow> [c])"

definition wpm_char :: "unicode \<Rightarrow> NormalizerOptions \<Rightarrow> nat \<Rightarrow> ustr list \<Rightarrow> ustr list" where
  "wpm_char U opts c ws =
     (if is_whitespace c then fresh_word ws
      else if c = 0 \<or> c = 0xFFFD \<or> un_control U c then ws
      else if nz_strip_accents opts \<and> un_nonspacing U c then ws
      else (let piece = (if nz_lowercase opts then lowered U c else [c]) in
            if un_punctuation U c \<or> c < 0x7F \<and> \<not> un_alphanumeric U c \<and> c \<noteq> ch CHR ''_'' \<or> is_chinese_char c
            then butlast (fresh_word ws) @ [piece, []]
            else butlast ws @ [last ws @ piece]))"

definition wpm_preprocess :: "unicode \<Rightarrow> nfc_tables \<Rightarrow> NormalizerOptions \<Rightarrow> ustr \<Rightarrow> ustr list" where
  "wpm_preprocess U T opts w =
     (let ws = fold (wpm_char U opts) (if nz_strip_accents opts then nfd T w else w) [[]] in
      if last ws = [] then butlast ws else ws)"

text \<open>The inner loop, over the prefixes of the rest that end on a character boundary, the longest first.\<close>

fun wpm_match :: "(ustr \<Rightarrow> nat option) \<Rightarrow> nat \<Rightarrow> ustr \<Rightarrow> nat \<Rightarrow> (nat \<times> nat) option" where
  "wpm_match vocab bound w 0 = None"
| "wpm_match vocab bound w (Suc k) =
     (case (if length (utf8_of (take (Suc k) w)) \<le> bound then vocab (take (Suc k) w) else None) of
        Some i \<Rightarrow> Some (i, Suc k)
      | None \<Rightarrow> wpm_match vocab bound w k)"

lemma wpm_match_pos: "wpm_match vocab bound w k = Some (i, j) \<Longrightarrow> 0 < j"
  by (induction k) (auto split: option.splits if_splits)

text \<open>The ids of a word; \<open>None\<close> when a part of it matches nothing.\<close>

function wpm_word :: "(ustr \<Rightarrow> nat option) \<Rightarrow> nat \<Rightarrow> ustr \<Rightarrow> nat list option" where
  "wpm_word vocab bound w =
     (if w = [] then Some []
      else (case wpm_match vocab bound w (length w) of
              None \<Rightarrow> None
            | Some (i, j) \<Rightarrow> map_option (\<lambda>out. i # out) (wpm_word vocab bound (drop j w))))"
  by auto
termination
  by (relation "measure (\<lambda>(vocab, bound, w). length w)") (auto dest: wpm_match_pos)

declare wpm_word.simps [simp del]

definition wpm_encode :: "unicode \<Rightarrow> nfc_tables \<Rightarrow> 'f Tokenizer \<Rightarrow> ustr \<Rightarrow> nat list" where
  "wpm_encode U T tk w =
     concat (map (\<lambda>word.
       if word = [] then []
       else (case wpm_word (tk_vocab tk) (tk_max_token_len tk + 1) (SPM_SPACE # word) of
               Some (i # ids) \<Rightarrow> i # ids
             | _ \<Rightarrow> [tk_unk tk])) (wpm_preprocess U T (tk_normalizer tk) w))"

section \<open>Special tokens\<close>

definition byte_len :: "ustr \<Rightarrow> nat" where
  "byte_len w = length (utf8_of w)"

text \<open>The group of a first character, longest first; an empty spelling goes under the character 0.\<close>

definition special_index :: "(ustr \<times> nat) list \<Rightarrow> nat \<Rightarrow> (ustr \<times> nat) list option" where
  "special_index specials c =
     (let grp = filter (\<lambda>(pat, _). (case pat of [] \<Rightarrow> 0 | x # _ \<Rightarrow> x) = c) specials in
      if grp = [] then None else Some (rev (sort_key (\<lambda>(pat, _). byte_len pat) (rev grp))))"

fun first_match :: "(ustr \<times> nat) list \<Rightarrow> ustr \<Rightarrow> (ustr \<times> nat) option" where
  "first_match [] w = None"
| "first_match ((pat, i) # grp) w = (if take (length pat) w = pat then Some (pat, i) else first_match grp w)"

text \<open>The scan: the characters before the earliest special token, its id and its length.\<close>

fun find_special :: "(nat \<Rightarrow> (ustr \<times> nat) list option) \<Rightarrow> nat \<Rightarrow> ustr \<Rightarrow> (nat \<times> nat \<times> nat) option" where
  "find_special by_first pos [] = None"
| "find_special by_first pos (c # w) =
     (case (case by_first c of Some grp \<Rightarrow> first_match grp (c # w) | None \<Rightarrow> None) of
        Some (pat, i) \<Rightarrow> Some (pos, i, length pat)
      | None \<Rightarrow> find_special by_first (pos + 1) w)"

section \<open>Encoding\<close>

definition normalized :: "nfc_tables \<Rightarrow> 'f Tokenizer \<Rightarrow> ustr \<Rightarrow> ustr" where
  "normalized T tk w = (if (case tk_pre tk of Some pre \<Rightarrow> applies_nfc pre | None \<Rightarrow> False) then nfc T w else w)"

definition encode_text :: "unicode \<Rightarrow> nfc_tables \<Rightarrow> ('f, 'd) fp \<Rightarrow> ('f \<Rightarrow> int) \<Rightarrow> 'f Tokenizer \<Rightarrow> ustr \<Rightarrow> bool \<Rightarrow> nat list option" where
  "encode_text U T F rnd tk w prev_special =
     (let cl = char_classes.truncate U in
      if w = [] then Some []
      else (case tk_model tk of
              NoModel \<Rightarrow> Some []
            | Gpt2 \<Rightarrow> encode_bpe cl tk w
            | WhitespaceModel \<Rightarrow> encode_bpe cl tk w
            | HybridDna \<Rightarrow> hybriddna_encode cl tk w
            | Bert \<Rightarrow> Some (wpm_encode U T tk w)
            | Ugm \<Rightarrow> ugm_encode F tk w
            | Gemma4 \<Rightarrow> gemma4_encode cl tk w
            | Rwkv \<Rightarrow> Some (rwkv_encode tk w)
            | Plamo2 \<Rightarrow> plamo2_encode (fp32 F) rnd tk w
            | Spm \<Rightarrow> spm_encode (fp32 F) tk
                ((if tk_add_space_prefix tk \<and> prev_special then [SPM_SPACE] else []) @ spm_escape w)))"

text \<open>
  The loop of \<open>encode\<close>. The fuel counts characters: a special token with a spelling takes one at least, and a
  special token without one, found at the character 0, takes none, so that the loop of the source does not end.
\<close>

fun encode_loop :: "(ustr \<Rightarrow> bool \<Rightarrow> nat list option) \<Rightarrow> (nat \<Rightarrow> (ustr \<times> nat) list option) \<Rightarrow> nat \<Rightarrow> ustr \<Rightarrow> bool \<Rightarrow> nat list option" where
  "encode_loop enc by_first fuel remaining prev_special =
     (case find_special by_first 0 remaining of
        None \<Rightarrow> enc remaining prev_special
      | Some (pos, i, len) \<Rightarrow>
          (case fuel of
             0 \<Rightarrow> None
           | Suc f \<Rightarrow>
               collect_ids [if pos > 0 then enc (take pos remaining) prev_special else Some [], Some [i],
                 encode_loop enc by_first f (drop (pos + len) remaining) True]))"

declare encode_loop.simps [simp del]

definition encode :: "unicode \<Rightarrow> nfc_tables \<Rightarrow> ('f, 'd) fp \<Rightarrow> ('f \<Rightarrow> int) \<Rightarrow> 'f Tokenizer \<Rightarrow> ustr \<Rightarrow> nat list option" where
  "encode U T F rnd tk w =
     (let n = normalized T tk w in encode_loop (encode_text U T F rnd tk) (tk_special_by_first tk) (length n) n True)"

definition encode_raw :: "unicode \<Rightarrow> nfc_tables \<Rightarrow> ('f, 'd) fp \<Rightarrow> ('f \<Rightarrow> int) \<Rightarrow> 'f Tokenizer \<Rightarrow> ustr \<Rightarrow> nat list option" where
  "encode_raw U T F rnd tk w = encode_text U T F rnd tk (normalized T tk w) True"

section \<open>Decoding\<close>

definition token_at :: "'f Tokenizer \<Rightarrow> nat \<Rightarrow> ustr option" where
  "token_at tk i = (if i < length (tk_tokens tk) then Some (tk_tokens tk ! i) else None)"

definition type_at :: "'f Tokenizer \<Rightarrow> nat \<Rightarrow> int" where
  "type_at tk i = (if i < length (tk_types tk) then tk_types tk ! i else 1)"

definition unescape_spaces :: "ustr \<Rightarrow> byte list" where
  "unescape_spaces w = concat (map (\<lambda>c. if c = SPM_SPACE then [32] else encode_utf8 c) w)"

definition wpm_piece :: "'f Tokenizer \<Rightarrow> nat \<Rightarrow> byte list" where
  "wpm_piece tk i =
     (case token_at tk i of
        None \<Rightarrow> []
      | Some token \<Rightarrow> if type_at tk i \<in> {2, 3, 4} then utf8_of token else unescape_spaces token)"

definition rwkv_piece :: "'f Tokenizer \<Rightarrow> nat \<Rightarrow> byte list" where
  "rwkv_piece tk i = (case token_at tk i of None \<Rightarrow> [] | Some token \<Rightarrow> unescape_rwkv_token token)"

definition spm_piece :: "'f Tokenizer \<Rightarrow> nat \<Rightarrow> byte list" where
  "spm_piece tk i =
     (case token_at tk i of
        None \<Rightarrow> []
      | Some token \<Rightarrow>
          (case (if type_at tk i = 6 then parse_spm_byte_token token else None) of
             Some b \<Rightarrow> [b]
           | None \<Rightarrow> unescape_spaces token))"

definition bpe_bytes :: "ustr \<Rightarrow> byte list" where
  "bpe_bytes encoded = concat (map (\<lambda>c. case unicode_to_byte c of Some b \<Rightarrow> [b] | None \<Rightarrow> encode_utf8 c) encoded)"

definition decode_bytes :: "'f Tokenizer \<Rightarrow> nat list \<Rightarrow> byte list" where
  "decode_bytes tk ids =
     (if tk_model tk = Bert then concat (map (wpm_piece tk) ids)
      else if tk_model tk = Rwkv then concat (map (rwkv_piece tk) ids)
      else if tk_model tk \<in> {Spm, Ugm, Gemma4, Plamo2} then concat (map (spm_piece tk) ids)
      else bpe_bytes (concat (map (\<lambda>i. case token_at tk i of Some token \<Rightarrow> token | None \<Rightarrow> []) ids)))"

definition encode_checked :: "unicode \<Rightarrow> nfc_tables \<Rightarrow> ('f, 'd) fp \<Rightarrow> ('f \<Rightarrow> int) \<Rightarrow> 'f Tokenizer \<Rightarrow> ustr
    \<Rightarrow> (tok_error, nat list) res option" where
  "encode_checked U T F rnd tk w =
     (if tk_model tk = NoModel then Some (Err NoVocabulary) else map_option Ok (encode U T F rnd tk w))"

definition decode_checked :: "'f Tokenizer \<Rightarrow> nat list \<Rightarrow> (tok_error, byte list) res" where
  "decode_checked tk ids = (if tk_model tk = NoModel then Err NoVocabulary else Ok (decode_bytes tk ids))"

section \<open>Breakers\<close>

definition MAX_BREAKER_CHARS :: nat where "MAX_BREAKER_CHARS = 40"
definition MAX_BREAKER_TAIL_TOKENS :: nat where "MAX_BREAKER_TAIL_TOKENS = 20"

text \<open>The bytes of the needle that agree with the word from a position on.\<close>

fun agree_len :: "byte list \<Rightarrow> byte list \<Rightarrow> nat" where
  "agree_len (x # xs) (y # ys) = (if x = y then Suc (agree_len xs ys) else 0)"
| "agree_len _ _ = 0"

text \<open>\<open>str::from_utf8\<close>: the text of valid bytes.\<close>

definition from_utf8 :: "byte list \<Rightarrow> ustr option" where
  "from_utf8 bs = (if utf8_error bs = None then Some (lossy_text bs) else None)"

text \<open>A sequence is added once.\<close>

definition add_new :: "nat list \<Rightarrow> nat list list \<Rightarrow> nat list list" where
  "add_new sq out = (if sq \<in> set out then out else out @ [sq])"

text \<open>One position of the second branch; the outer option is a panic of the engine.\<close>

definition breaker_pos :: "(ustr \<Rightarrow> nat list option) \<Rightarrow> byte list \<Rightarrow> nat \<Rightarrow> byte list \<Rightarrow> nat \<Rightarrow> nat list list
    \<Rightarrow> (tok_error, nat list list) res option" where
  "breaker_pos enc needle i word pos out =
     (if word ! pos \<noteq> needle ! 0 then Some (Ok out)
      else (let k = agree_len needle (drop pos word) in
            if k \<noteq> length needle \<and> pos + k \<noteq> length word then Some (Ok out)
            else (case from_utf8 (drop k needle) of
                    None \<Rightarrow> Some (Err BreakerSplitsChar)
                  | Some tail \<Rightarrow>
                      (case enc tail of
                         None \<Rightarrow> None
                       | Some ids \<Rightarrow>
                           if length ids > MAX_BREAKER_TAIL_TOKENS then Some (Err (TailTooLong (length ids) i))
                           else Some (Ok (add_new (i # ids) out))))))"

fun breaker_positions :: "(ustr \<Rightarrow> nat list option) \<Rightarrow> byte list \<Rightarrow> nat \<Rightarrow> byte list \<Rightarrow> nat list \<Rightarrow> nat list list
    \<Rightarrow> (tok_error, nat list list) res option" where
  "breaker_positions enc needle i word [] out = Some (Ok out)"
| "breaker_positions enc needle i word (pos # ps) out =
     (case breaker_pos enc needle i word pos out of
        None \<Rightarrow> None
      | Some (Err e) \<Rightarrow> Some (Err e)
      | Some (Ok out') \<Rightarrow> breaker_positions enc needle i word ps out')"

text \<open>\<open>windows(needle.len()).any(..)\<close>\<close>

definition occurs_in :: "byte list \<Rightarrow> byte list \<Rightarrow> bool" where
  "occurs_in needle word \<longleftrightarrow>
     (\<exists>p \<in> set [0..<length word]. p + length needle \<le> length word \<and> take (length needle) (drop p word) = needle)"

fun breaker_tokens :: "(ustr \<Rightarrow> nat list option) \<Rightarrow> (nat \<Rightarrow> byte list) \<Rightarrow> byte list \<Rightarrow> nat list \<Rightarrow> nat list list
    \<Rightarrow> (tok_error, nat list list) res option" where
  "breaker_tokens enc piece needle [] out = Some (Ok out)"
| "breaker_tokens enc piece needle (i # is) out =
     (let word = piece i in
      if word = [] then breaker_tokens enc piece needle is out
      else if occurs_in needle word then breaker_tokens enc piece needle is (out @ [[i]])
      else (case breaker_positions enc needle i word [0..<length word] out of
              None \<Rightarrow> None
            | Some (Err e) \<Rightarrow> Some (Err e)
            | Some (Ok out') \<Rightarrow> breaker_tokens enc piece needle is out'))"

definition overlapping_token_sequences :: "(ustr \<Rightarrow> nat list option) \<Rightarrow> 'f Tokenizer \<Rightarrow> ustr \<Rightarrow> (tok_error, nat list list) res option" where
  "overlapping_token_sequences enc tk breaker =
     (if breaker = [] then Some (Err EmptyBreaker)
      else if length breaker > MAX_BREAKER_CHARS then Some (Err (BreakerTooLong (length breaker)))
      else (case breaker_tokens enc (\<lambda>i. decode_bytes tk [i]) (utf8_of breaker) [0..<length (tk_tokens tk)] [] of
              None \<Rightarrow> None
            | Some (Err e) \<Rightarrow> Some (Err e)
            | Some (Ok out) \<Rightarrow> Some (if out = [] then Err BreakerUnmatched else Ok out)))"

fun resolve_loop :: "(ustr \<Rightarrow> (tok_error, nat list list) res option) \<Rightarrow> ustr list \<Rightarrow> nat list list \<Rightarrow> (tok_error, nat list list) res option" where
  "resolve_loop resolve [] out = Some (Ok out)"
| "resolve_loop resolve (b # bs) out =
     (case resolve b of
        None \<Rightarrow> None
      | Some (Err e) \<Rightarrow> Some (Err e)
      | Some (Ok seqs) \<Rightarrow> resolve_loop resolve bs (fold add_new seqs out))"

definition resolve_sequence_breakers :: "unicode \<Rightarrow> nfc_tables \<Rightarrow> ('f, 'd) fp \<Rightarrow> ('f \<Rightarrow> int) \<Rightarrow> 'f Tokenizer \<Rightarrow> ustr list
    \<Rightarrow> (tok_error, nat list list) res option" where
  "resolve_sequence_breakers U T F rnd tk breakers =
     resolve_loop (overlapping_token_sequences (encode_raw U T F rnd tk) tk) breakers []"

section \<open>Streaming\<close>

definition lead_len :: "byte \<Rightarrow> nat" where
  "lead_len b =
     (if b < 0x80 then 1 else if b AND 0xE0 = 0xC0 then 2 else if b AND 0xF0 = 0xE0 then 3
      else if b AND 0xF8 = 0xF0 then 4 else 1)"

lemma announced_pos [simp]: "0 < lead_len b"
  by (simp add: lead_len_def)

function prefix_loop :: "byte list \<Rightarrow> nat \<Rightarrow> nat" where
  "prefix_loop bytes i =
     (if i < length bytes then
        (if i + lead_len (bytes ! i) > length bytes then i else prefix_loop bytes (i + lead_len (bytes ! i)))
      else i)"
  by auto
termination
  by (relation "measure (\<lambda>(bytes, i). length bytes - i)") (auto intro!: diff_less_mono2)

declare prefix_loop.simps [simp del]

text \<open>\<open>end\<close> is \<open>i\<close> after every turn of the loop.\<close>

definition complete_utf8_prefix_len :: "byte list \<Rightarrow> nat" where
  "complete_utf8_prefix_len bytes = prefix_loop bytes 0"

end
