(* ===== verification/Tok_Bytes.thy ===== *)
theory Tok_Bytes
  imports Tok_Text
begin

text \<open>
  The byte alphabet is a bijection, the merge loop of byte-pair encoding takes the lowest rank and the leftmost
  pair at every step, and what an engine built on it emits decodes to the bytes it was given.
\<close>

section \<open>The byte alphabet\<close>

lemma unprintable_loop_eq:
  "distinct xs \<Longrightarrow>
     unprintable_loop bs cs xs n =
       (bs @ filter (\<lambda>b. b \<notin> set bs) xs,
        cs @ [256 + n..<256 + n + length (filter (\<lambda>b. b \<notin> set bs) xs)])"
proof (induction xs arbitrary: bs cs n)
  case (Cons x xs)
  have f: "filter (\<lambda>b. b \<notin> set (bs @ [x])) xs = filter (\<lambda>b. b \<notin> set bs) xs"
    using Cons.prems by (intro filter_cong) auto
  show ?case
  proof (cases "x \<in> set bs")
    case True
    then show ?thesis using Cons by simp
  next
    case False
    let ?k = "length (filter (\<lambda>b. b \<notin> set bs) xs)"
    have "[256 + n..<Suc (256 + n + ?k)] = (256 + n) # [256 + (n + 1)..<256 + (n + 1) + ?k]"
      by (simp add: upt_conv_Cons add.assoc del: upt_Suc)
    then show ?thesis
      using Cons.IH[of "bs @ [x]" "cs @ [256 + n]" "n + 1"] Cons.prems False unfolding f
      by (simp del: upt_Suc)
  qed
qed simp

definition printable :: "nat list" where
  "printable = [0x21..<0x7F] @ [0xA1..<0xAD] @ [0xAE..<0x100]"

lemma set_printable: "x \<in> set printable \<longleftrightarrow> 0x21 \<le> x \<and> x < 0x7F \<or> 0xA1 \<le> x \<and> x < 0xAD \<or> 0xAE \<le> x \<and> x < 0x100"
  by (simp only: printable_def set_append set_upt Un_iff atLeastLessThan_iff)

lemma distinct_printable: "distinct printable"
  by (simp only: printable_def distinct_append distinct_upt set_append set_upt) auto

definition the_rest :: "nat list" where
  "the_rest = filter (\<lambda>b. b \<notin> set printable) [0..<256]"

lemma byte_table:
  "build_byte_to_unicode = zip (printable @ the_rest) (printable @ [256..<256 + length the_rest])"
  by (simp only: build_byte_to_unicode_def Let_def printable_def[symmetric] unprintable_loop_eq[OF distinct_upt]
      the_rest_def[symmetric] prod.case add_0_right)

lemma map_of_zip_swap:
  assumes "length xs = length ys" "distinct xs" "distinct ys" "x \<in> set xs"
  shows "\<exists>y \<in> set ys. map_of (zip xs ys) x = Some y \<and> map_of (map (\<lambda>(b, c). (c, b)) (zip xs ys)) y = Some x"
proof -
  obtain i where i: "i < length xs" "xs ! i = x" using assms(4) by (auto simp: in_set_conv_nth)
  have sw: "map (\<lambda>(b, c). (c, b)) (zip xs ys) = zip ys xs"
    using assms(1) by (induction xs ys rule: list_induct2) auto
  have "map_of (zip xs ys) (xs ! i) = Some (ys ! i)" using i assms(1,2) by (intro map_of_zip_nth) simp_all
  moreover have "map_of (zip ys xs) (ys ! i) = Some (xs ! i)" using i assms(1,3) by (intro map_of_zip_nth) simp_all
  ultimately show ?thesis using i assms(1) sw by (intro bexI[of _ "ys ! i"]) auto
qed

lemma byte_alphabet:
  "\<exists>c. byte_to_unicode b = Some c \<and> unicode_to_byte c = Some b \<and> scalar c"
proof -
  have rest: "x \<in> set the_rest \<longleftrightarrow> x \<notin> set printable \<and> x < 256" for x
    by (simp only: the_rest_def set_filter set_upt mem_Collect_eq atLeastLessThan_iff) auto
  have d: "distinct (printable @ the_rest)"
    using distinct_printable rest by (auto simp only: the_rest_def distinct_append distinct_filter distinct_upt)
  have dc: "distinct (printable @ [256..<256 + length the_rest])"
    using distinct_printable by (auto simp only: distinct_append distinct_upt set_upt set_printable atLeastLessThan_iff)
  have len: "length (printable @ the_rest) = length (printable @ [256..<256 + length the_rest])"
    by simp
  have lr: "length the_rest \<le> 256"
    unfolding the_rest_def by (rule order_trans[OF length_filter_le]) (simp only: length_upt)
  have "unat b < 256" using unsigned_less[of b] by simp
  then have "unat b \<in> set (printable @ the_rest)" using rest by auto
  from map_of_zip_swap[OF len d dc this] obtain y where
    y: "y \<in> set (printable @ [256..<256 + length the_rest])" "map_of build_byte_to_unicode (unat b) = Some y"
      "map_of (map (\<lambda>(b, c). (c, b)) build_byte_to_unicode) y = Some (unat b)"
    unfolding byte_table by blast
  have "y < 512" using y(1) lr unfolding set_append Un_iff set_printable set_upt atLeastLessThan_iff by linarith
  then show ?thesis using y by (auto simp: byte_to_unicode_def unicode_to_byte_def scalar_def)
qed

lemma byte_to_unicode_inv: "unicode_to_byte (the (byte_to_unicode b)) = Some b"
  using byte_alphabet[of b] by auto

lemma bpe_bytes_simps [simp]:
  "bpe_bytes [] = []"
  "bpe_bytes (c # w) = (case unicode_to_byte c of Some b \<Rightarrow> [b] | None \<Rightarrow> encode_utf8 c) @ bpe_bytes w"
  "bpe_bytes (u @ w) = bpe_bytes u @ bpe_bytes w"
  by (simp_all add: bpe_bytes_def)

lemma bpe_bytes_encode: "bpe_bytes (byte_encode bs) = bs"
  by (induction bs) (auto simp: byte_encode_def byte_to_unicode_inv)

section \<open>The merge loop\<close>

text \<open>Position \<open>i\<close> holds a pair of the lowest rank, and no pair further left has that rank.\<close>

definition best_at :: "(ustr \<times> ustr \<Rightarrow> nat option) \<Rightarrow> ustr list \<Rightarrow> nat \<Rightarrow> bool" where
  "best_at merges word i \<longleftrightarrow>
     i + 1 < length word \<and>
     (\<exists>r. merges (word ! i, word ! (i + 1)) = Some r \<and>
        (\<forall>j r'. j + 1 < length word \<longrightarrow> merges (word ! j, word ! (j + 1)) = Some r' \<longrightarrow> r < r' \<or> r = r' \<and> i \<le> j))"

inductive bpe_step :: "(ustr \<times> ustr \<Rightarrow> nat option) \<Rightarrow> ustr list \<Rightarrow> ustr list \<Rightarrow> bool" for merges where
  merge: "best_at merges word i \<Longrightarrow> bpe_step merges word (take i word @ [word ! i @ word ! (i + 1)] @ drop (i + 2) word)"

inductive_cases bpe_stepE: "bpe_step merges word word'"

text \<open>The mergeable pairs with their positions; the scan folds over them.\<close>

fun ranked :: "(ustr \<times> ustr \<Rightarrow> nat option) \<Rightarrow> nat \<Rightarrow> ustr list \<Rightarrow> (nat \<times> nat) list" where
  "ranked merges i (a # b # word) =
     (case merges (a, b) of Some r \<Rightarrow> [(r, i)] | None \<Rightarrow> []) @ ranked merges (i + 1) (b # word)"
| "ranked merges i _ = []"

definition lower :: "nat \<times> nat \<Rightarrow> (nat \<times> nat) option \<Rightarrow> (nat \<times> nat) option" where
  "lower c best = (case best of Some b \<Rightarrow> if fst c < fst b then Some c else best | None \<Rightarrow> Some c)"

lemma best_pair_fold: "best_pair merges best i word = fold lower (ranked merges i word) best"
  by (induction merges best i word rule: best_pair.induct) (auto simp: lower_def split: option.split prod.split)

lemma mem_ranked:
  "(r, k) \<in> set (ranked merges i word) \<longleftrightarrow>
     i \<le> k \<and> k - i + 1 < length word \<and> merges (word ! (k - i), word ! (k - i + 1)) = Some r"
proof (induction merges i word rule: ranked.induct)
  case (1 merges i a b word)
  have "(r, k) \<in> set (ranked merges i (a # b # word)) \<longleftrightarrow>
      merges (a, b) = Some r \<and> k = i \<or> (r, k) \<in> set (ranked merges (i + 1) (b # word))"
    by (auto split: option.split)
  then show ?case unfolding 1 by (cases "k = i") (auto simp: nth_Cons' Suc_diff_le le_Suc_eq not_less_eq_eq)
qed auto

lemma ranked_sorted: "sorted_wrt (<) (map snd (ranked merges i word))"
proof (induction merges i word rule: ranked.induct)
  case (1 merges i a b word)
  have "\<forall>x \<in> set (ranked merges (i + 1) (b # word)). i < snd x" using mem_ranked[of _ _ merges "i + 1"] by fastforce
  then show ?case using 1 by (auto split: option.split)
qed auto

definition lex_le :: "nat \<times> nat \<Rightarrow> nat \<times> nat \<Rightarrow> bool" where
  "lex_le a b \<longleftrightarrow> fst a < fst b \<or> fst a = fst b \<and> snd a \<le> snd b"

lemma lex_le_trans: "lex_le a b \<Longrightarrow> lex_le b c \<Longrightarrow> lex_le a c"
  by (auto simp: lex_le_def)

lemma fold_lower_Some:
  "sorted_wrt (<) (map snd cs) \<Longrightarrow> \<forall>c \<in> set cs. snd b < snd c \<Longrightarrow>
     \<exists>m. fold lower cs (Some b) = Some m \<and> m \<in> set (b # cs) \<and> (\<forall>c \<in> set (b # cs). lex_le m c)"
proof (induction cs arbitrary: b)
  case Nil
  then show ?case by (simp add: lex_le_def)
next
  case (Cons c cs)
  obtain d where d: "lower c (Some b) = Some d" "d = (if fst c < fst b then c else b)" by (auto simp: lower_def)
  have "\<forall>x \<in> set cs. snd d < snd x" using Cons.prems d(2) by auto
  then obtain m where m: "fold lower cs (Some d) = Some m" "m \<in> set (d # cs)" "\<forall>x \<in> set (d # cs). lex_le m x"
    using Cons.IH[of d] Cons.prems by auto
  have "lex_le d b" "lex_le d c" using d(2) Cons.prems(2) by (auto simp: lex_le_def)
  then show ?case using m d by (auto intro: lex_le_trans split: if_splits)
qed

lemma fold_lower:
  assumes "sorted_wrt (<) (map snd cs)"
  shows "case fold lower cs None of None \<Rightarrow> cs = [] | Some m \<Rightarrow> m \<in> set cs \<and> (\<forall>c \<in> set cs. lex_le m c)"
proof (cases cs)
  case (Cons c ds)
  then show ?thesis using fold_lower_Some[of ds c] assms by (auto simp: lower_def[of c None])
qed simp

lemma best_pair_None:
  "best_pair merges None 0 word = None \<longleftrightarrow> (\<forall>j. j + 1 < length word \<longrightarrow> merges (word ! j, word ! (j + 1)) = None)"
proof -
  have "best_pair merges None 0 word = None \<longleftrightarrow> ranked merges 0 word = []"
    using fold_lower[OF ranked_sorted, of merges 0 word]
    by (auto simp: best_pair_fold split: option.splits)
  also have "\<dots> \<longleftrightarrow> (\<forall>r k. (r, k) \<notin> set (ranked merges 0 word))" by (cases "ranked merges 0 word") auto
  also have "\<dots> \<longleftrightarrow> (\<forall>j. j + 1 < length word \<longrightarrow> merges (word ! j, word ! (j + 1)) = None)"
    unfolding mem_ranked by (auto simp: not_Some_eq[symmetric] simp del: not_Some_eq)
  finally show ?thesis .
qed

lemma best_pair_Some:
  assumes "best_pair merges None 0 word = Some (r, i)"
  shows "best_at merges word i"
proof -
  have m: "(r, i) \<in> set (ranked merges 0 word)" "\<forall>c \<in> set (ranked merges 0 word). lex_le (r, i) c"
    using fold_lower[OF ranked_sorted, of merges 0 word] assms by (auto simp: best_pair_fold)
  have "r < r' \<or> r = r' \<and> i \<le> j" if "j + 1 < length word" "merges (word ! j, word ! (j + 1)) = Some r'" for j r'
    using m(2) that mem_ranked[of r' j merges 0 word] by (force simp: lex_le_def)
  then show ?thesis using m(1) by (auto simp: best_at_def mem_ranked)
qed

lemma best_at_unique: "best_at merges word i \<Longrightarrow> best_at merges word j \<Longrightarrow> i = j"
  unfolding best_at_def by (metis le_antisym less_asym less_irrefl)

lemma concat_merge_at:
  assumes "i + 1 < length word"
  shows "concat (merge_at i word) = concat word"
proof -
  have "drop i word = word ! i # word ! (i + 1) # drop (i + 2) word"
    using assms by (simp add: Cons_nth_drop_Suc)
  then have "concat word = concat (take i word @ word ! i # word ! (i + 1) # drop (i + 2) word)"
    by (metis append_take_drop_id)
  then show ?thesis by (simp add: merge_at_def)
qed

text \<open>The loop runs the step relation to its end.\<close>

lemma bpe_merge_steps: "(bpe_step merges)\<^sup>*\<^sup>* word (bpe_merge merges word) \<and> \<not> bpe_step merges (bpe_merge merges word) v"
proof (induction merges word rule: bpe_merge.induct)
  case (1 merges word)
  show ?case
  proof (cases "best_pair merges None 0 word")
    case None
    then have "\<not> bpe_step merges word v" by (auto elim!: bpe_stepE simp: best_at_def best_pair_None)
    then show ?thesis using None by (subst (1 2) bpe_merge.simps) simp
  next
    case (Some p)
    obtain r i where p: "p = (r, i)" by fastforce
    have b: "best_at merges word i" using best_pair_Some Some p by blast
    then have "bpe_step merges word (merge_at i word)" unfolding merge_at_def by (rule bpe_step.merge)
    moreover have "bpe_merge merges word = bpe_merge merges (merge_at i word)"
      using Some p by (subst bpe_merge.simps) simp
    ultimately show ?thesis using "1.IH"[OF Some p[symmetric]] by (auto intro: converse_rtranclp_into_rtranclp)
  qed
qed

lemma bpe_step_deterministic: "bpe_step merges word u \<Longrightarrow> bpe_step merges word v \<Longrightarrow> u = v"
  by (auto elim!: bpe_stepE dest: best_at_unique)

lemma bpe_merge_unique:
  "(bpe_step merges)\<^sup>*\<^sup>* word v \<Longrightarrow> \<nexists>u. bpe_step merges v u \<Longrightarrow> v = bpe_merge merges word"
proof (induction rule: converse_rtranclp_induct)
  case base
  from bpe_merge_steps[of merges v] show ?case using base by (metis converse_rtranclpE)
next
  case (step x y)
  obtain i where i: "best_at merges x i" "y = merge_at i x"
    using step.hyps(1) by (auto elim!: bpe_stepE simp: merge_at_def)
  have "bpe_merge merges x = bpe_merge merges y"
  proof (cases "best_pair merges None 0 x")
    case None
    then show ?thesis using i(1) by (auto simp: best_at_def best_pair_None)
  next
    case (Some p)
    then have "snd p = i" using best_pair_Some[of merges x "fst p" "snd p"] best_at_unique[OF i(1)] by simp
    then show ?thesis using Some i(2) by (subst bpe_merge.simps) (auto split: prod.split)
  qed
  then show ?case using step.IH step.prems by simp
qed

lemma concat_bpe_merge [simp]: "concat (bpe_merge merges word) = concat word"
proof (induction merges word rule: bpe_merge.induct)
  case (1 merges word)
  show ?case
  proof (cases "best_pair merges None 0 word")
    case None
    then show ?thesis by (subst bpe_merge.simps) simp
  next
    case (Some p)
    obtain r i where p: "p = (r, i)" by fastforce
    have "i + 1 < length word" using best_pair_Some Some p by (auto simp: best_at_def)
    then show ?thesis using "1.IH"[OF Some p[symmetric]] Some p concat_merge_at by (subst bpe_merge.simps) simp
  qed
qed

lemma concat_singletons [simp]: "concat (singletons w) = w"
  by (induction w) (auto simp: singletons_def)

end
