(* ===== verification/Tok_Trie.thy ===== *)
theory Tok_Trie
  imports Tok_Dp
begin

text \<open>
  The vocabulary trie is a finite map from byte strings to ids: what an insertion changes, and what the walks
  along a text (\<open>matches\<close>, \<open>longest_prefix_bytes\<close>, the candidates of \<open>plamo2_encode\<close>) find.
\<close>

section \<open>Walks\<close>

fun walk :: "VocabTrie \<Rightarrow> nat \<Rightarrow> byte list \<Rightarrow> nat option" where
  "walk nodes n [] = Some n"
| "walk nodes n (b # bs) = (case tn_children (nodes ! n) b of None \<Rightarrow> None | Some m \<Rightarrow> walk nodes m bs)"

definition trie_get :: "VocabTrie \<Rightarrow> nat \<Rightarrow> byte list \<Rightarrow> nat option" where
  "trie_get nodes n bs = (case walk nodes n bs of None \<Rightarrow> None | Some m \<Rightarrow> tn_token (nodes ! m))"

definition lookup :: "VocabTrie \<Rightarrow> byte list \<Rightarrow> nat option" where
  "lookup trie bs = (if trie = [] then None else trie_get trie 0 bs)"

text \<open>Edges lead to later nodes, and no two edges to the same node.\<close>

definition trie_ok :: "VocabTrie \<Rightarrow> bool" where
  "trie_ok nodes \<longleftrightarrow>
     (\<forall>n < length nodes. \<forall>b m. tn_children (nodes ! n) b = Some m \<longrightarrow> n < m \<and> m < length nodes)
     \<and> (\<forall>n < length nodes. \<forall>n' < length nodes. \<forall>b b' m.
          tn_children (nodes ! n) b = Some m \<longrightarrow> tn_children (nodes ! n') b' = Some m \<longrightarrow> n = n' \<and> b = b')"

lemma trie_okD:
  assumes "trie_ok nodes" "n < length nodes" "tn_children (nodes ! n) b = Some m"
  shows "n < m" "m < length nodes"
  using assms unfolding trie_ok_def by blast+

lemma walk_append: "walk nodes n (bs @ cs) = (case walk nodes n bs of None \<Rightarrow> None | Some m \<Rightarrow> walk nodes m cs)"
  by (induction bs arbitrary: n) (auto split: option.split)

lemma walk_bound: "trie_ok nodes \<Longrightarrow> n < length nodes \<Longrightarrow> walk nodes n bs = Some m \<Longrightarrow> n \<le> m \<and> m < length nodes"
proof (induction bs arbitrary: n)
  case (Cons b bs)
  then obtain k where k: "tn_children (nodes ! n) b = Some k" "walk nodes k bs = Some m" by (auto split: option.splits)
  then show ?case using Cons.IH[of k] Cons.prems trie_okD[OF Cons.prems(1,2) k(1)] by auto
qed auto

lemma walk_inj:
  assumes ok: "trie_ok nodes"
  shows "walk nodes 0 bs = Some m \<Longrightarrow> walk nodes 0 cs = Some m \<Longrightarrow> 0 < length nodes \<Longrightarrow> bs = cs"
proof (induction bs arbitrary: m cs rule: rev_induct)
  case Nil
  show ?case
  proof (cases cs)
    case (Cons c cs')
    then obtain k where k: "tn_children (nodes ! 0) c = Some k" "walk nodes k cs' = Some m"
      using Nil by (auto split: option.splits)
    then show ?thesis using trie_okD[OF ok Nil(3) k(1)] walk_bound[OF ok _ k(2)] Nil(1) by auto
  qed simp
next
  case (snoc b bs)
  obtain k where k: "walk nodes 0 bs = Some k" "tn_children (nodes ! k) b = Some m"
    using snoc.prems(1) by (auto simp: walk_append split: option.splits)
  have kb: "k < length nodes" using walk_bound[OF ok snoc.prems(3) k(1)] by simp
  show ?case
  proof (cases cs rule: rev_cases)
    case Nil
    then show ?thesis using snoc.prems(2) trie_okD[OF ok kb k(2)] by simp
  next
    case (snoc ds d)
    then obtain l where l: "walk nodes 0 ds = Some l" "tn_children (nodes ! l) d = Some m"
      using snoc.prems(2) by (auto simp: walk_append split: option.splits)
    have lb: "l < length nodes" using walk_bound[OF ok snoc.prems(3) l(1)] by simp
    have "k = l \<and> b = d" using ok kb lb k(2) l(2) unfolding trie_ok_def by blast
    then show ?thesis using snoc.IH[OF k(1) _ snoc.prems(3)] l(1) snoc by auto
  qed
qed

section \<open>Insertion\<close>

text \<open>What grows: old nodes keep their tokens and edges, new edges lead to new nodes, which have no token.\<close>

definition grows :: "VocabTrie \<Rightarrow> VocabTrie \<Rightarrow> bool" where
  "grows nodes nodes' \<longleftrightarrow>
     length nodes \<le> length nodes'
     \<and> (\<forall>k < length nodes. tn_token (nodes' ! k) = tn_token (nodes ! k)
          \<and> (\<forall>b x. tn_children (nodes ! k) b = Some x \<longrightarrow> tn_children (nodes' ! k) b = Some x)
          \<and> (\<forall>b x. tn_children (nodes' ! k) b = Some x \<longrightarrow> tn_children (nodes ! k) b = Some x \<or> length nodes \<le> x))
     \<and> (\<forall>k. length nodes \<le> k \<longrightarrow> k < length nodes' \<longrightarrow> tn_token (nodes' ! k) = None)"

lemma grows_refl: "grows nodes nodes"
  by (simp add: grows_def)

lemma grows_trans:
  assumes "grows a b" "grows b c"
  shows "grows a c"
proof -
  have le: "length a \<le> length b" "length b \<le> length c" using assms by (auto simp: grows_def)
  have "tn_token (c ! k) = tn_token (a ! k)" if "k < length a" for k
    using assms le that by (simp add: grows_def)
  moreover have "tn_children (c ! k) x = Some y" if "k < length a" "tn_children (a ! k) x = Some y" for k x y
    using assms le that by (simp add: grows_def)
  moreover have "tn_children (a ! k) x = Some y \<or> length a \<le> y" if "k < length a" "tn_children (c ! k) x = Some y" for k x y
  proof -
    have "tn_children (b ! k) x = Some y \<or> length b \<le> y" using assms(2) le that by (simp add: grows_def)
    moreover have "tn_children (b ! k) x = Some y \<Longrightarrow> tn_children (a ! k) x = Some y \<or> length a \<le> y"
      using assms(1) that(1) unfolding grows_def by blast
    ultimately show ?thesis using le by linarith
  qed
  moreover have "tn_token (c ! k) = None" if "length a \<le> k" "k < length c" for k
    using assms le that by (cases "k < length b") (auto simp: grows_def)
  ultimately show ?thesis using le unfolding grows_def by auto
qed

definition new_edge :: "VocabTrie \<Rightarrow> nat \<Rightarrow> byte \<Rightarrow> VocabTrie" where
  "new_edge nodes n b =
     (nodes @ [fresh_node])[n := (nodes ! n)\<lparr>tn_children := (tn_children (nodes ! n))(b \<mapsto> length nodes)\<rparr>]"

lemma insert_path_new:
  "n < length nodes \<Longrightarrow> tn_children (nodes ! n) b = None \<Longrightarrow>
     insert_path nodes n (b # bs) = insert_path (new_edge nodes n b) (length nodes) bs"
  by (simp add: new_edge_def nth_append Let_def)

lemma new_edge_length: "length (new_edge nodes n b) = Suc (length nodes)"
  by (simp add: new_edge_def)

lemma new_edge_children:
  assumes "n < length nodes" "k < Suc (length nodes)"
  shows "tn_children (new_edge nodes n b ! k) c =
    (if k = length nodes then None else if k = n \<and> c = b then Some (length nodes) else tn_children (nodes ! k) c)"
  using assms by (cases "k = n") (auto simp: new_edge_def fresh_node_def nth_list_update nth_append)

lemma new_edge_token:
  assumes "n < length nodes" "k < Suc (length nodes)"
  shows "tn_token (new_edge nodes n b ! k) = (if k = length nodes then None else tn_token (nodes ! k))"
  using assms by (cases "k = n") (auto simp: new_edge_def fresh_node_def nth_list_update nth_append)

lemma new_edge_ok:
  assumes ok: "trie_ok nodes" and n: "n < length nodes" and b: "tn_children (nodes ! n) b = None"
  shows "trie_ok (new_edge nodes n b)"
  unfolding trie_ok_def new_edge_length
proof (intro conjI allI impI)
  fix k c m assume k: "k < Suc (length nodes)" and m: "tn_children (new_edge nodes n b ! k) c = Some m"
  then show "k < m" "m < Suc (length nodes)"
    using trie_okD[OF ok, of k c m] n by (auto simp: new_edge_children less_Suc_eq split: if_splits)
next
  fix k k' c c' m
  assume k: "k < Suc (length nodes)" "k' < Suc (length nodes)"
    and m: "tn_children (new_edge nodes n b ! k) c = Some m" "tn_children (new_edge nodes n b ! k') c' = Some m"
  have old: "m \<noteq> length nodes" if "tn_children (nodes ! j) d = Some m" "j < length nodes" for j d
    using trie_okD(2)[OF ok that(2,1)] by simp
  have "tn_children (nodes ! k) c = Some m \<Longrightarrow> tn_children (nodes ! k') c' = Some m \<Longrightarrow> k < length nodes
      \<Longrightarrow> k' < length nodes \<Longrightarrow> k = k' \<and> c = c'"
    using ok unfolding trie_ok_def by blast
  then show "k = k'" "c = c'" using k m n old by (auto simp: new_edge_children less_Suc_eq split: if_splits)
qed

lemma new_edge_grows: "n < length nodes \<Longrightarrow> tn_children (nodes ! n) b = None \<Longrightarrow> grows nodes (new_edge nodes n b)"
  by (auto simp: grows_def new_edge_length new_edge_children new_edge_token split: if_splits)

lemma insert_path_ok:
  "trie_ok nodes \<Longrightarrow> n < length nodes \<Longrightarrow> insert_path nodes n bs = (nodes', m) \<Longrightarrow>
     trie_ok nodes' \<and> grows nodes nodes' \<and> walk nodes' n bs = Some m \<and> m < length nodes'"
proof (induction nodes n bs arbitrary: nodes' m rule: insert_path.induct)
  case (1 nodes n)
  then show ?case by (simp add: grows_refl)
next
  case (2 nodes n b bs)
  show ?case
  proof (cases "tn_children (nodes ! n) b")
    case (Some k)
    have k: "k < length nodes" using trie_okD[OF "2.prems"(1,2) Some] by simp
    have "insert_path nodes k bs = (nodes', m)" using "2.prems"(3) Some by simp
    from "2.IH"(2)[OF Some "2.prems"(1) k this] show ?thesis using Some "2.prems"(2) by (auto simp: grows_def)
  next
    case None
    let ?nodes = "new_edge nodes n b"
    have eq: "insert_path ?nodes (length nodes) bs = (nodes', m)"
      using "2.prems"(3) insert_path_new[OF "2.prems"(2) None] by simp
    have "trie_ok nodes' \<and> grows ?nodes nodes' \<and> walk nodes' (length nodes) bs = Some m \<and> m < length nodes'"
      using "2.IH"(1)[OF None refl refl] new_edge_ok[OF "2.prems"(1,2) None] eq "2.prems"(2)
      by (simp add: new_edge_def nth_append)
    moreover from this have "tn_children (nodes' ! n) b = Some (length nodes)"
      using new_edge_children[OF "2.prems"(2), of n b b] "2.prems"(2) by (auto simp: grows_def new_edge_length)
    ultimately show ?thesis using new_edge_grows[OF "2.prems"(2) None] by (auto intro: grows_trans)
  qed
qed


lemma walk_grows:
  assumes ok: "trie_ok nodes" "trie_ok nodes'" and g: "grows nodes nodes'"
  shows "n < length nodes \<Longrightarrow> walk nodes' n bs = Some m \<Longrightarrow> walk nodes n bs = Some m \<or> length nodes \<le> m"
proof (induction bs arbitrary: n)
  case (Cons b bs)
  then obtain k where k: "tn_children (nodes' ! n) b = Some k" "walk nodes' k bs = Some m" by (auto split: option.splits)
  have n': "n < length nodes'" using Cons.prems(1) g by (auto simp: grows_def)
  have k': "k < length nodes'" using trie_okD[OF ok(2) n' k(1)] by simp
  have "tn_children (nodes ! n) b = Some k \<or> length nodes \<le> k"
    using g Cons.prems(1) k(1) unfolding grows_def by blast
  then show ?case
  proof
    assume e: "tn_children (nodes ! n) b = Some k"
    then show ?thesis using Cons.IH[OF _ k(2)] trie_okD[OF ok(1) Cons.prems(1) e] by simp
  next
    assume "length nodes \<le> k"
    then show ?thesis using walk_bound[OF ok(2) k' k(2)] by simp
  qed
qed simp

lemma grows_walk:
  assumes ok: "trie_ok nodes" and g: "grows nodes nodes'"
  shows "n < length nodes \<Longrightarrow> walk nodes n bs = Some m \<Longrightarrow> walk nodes' n bs = Some m"
proof (induction bs arbitrary: n)
  case (Cons b bs)
  then obtain k where k: "tn_children (nodes ! n) b = Some k" "walk nodes k bs = Some m" by (auto split: option.splits)
  have "tn_children (nodes' ! n) b = Some k" using g Cons.prems(1) k(1) unfolding grows_def by blast
  then show ?case using Cons.IH[OF _ k(2)] trie_okD[OF ok Cons.prems(1) k(1)] by simp
qed simp

lemma trie_get_grows:
  assumes "trie_ok nodes" "trie_ok nodes'" "grows nodes nodes'" "0 < length nodes"
  shows "trie_get nodes' 0 bs = trie_get nodes 0 bs"
proof (cases "walk nodes' 0 bs")
  case None
  then have "walk nodes 0 bs = None" using grows_walk[OF assms(1,3,4)] by (cases "walk nodes 0 bs") auto
  then show ?thesis using None by (simp add: trie_get_def)
next
  case (Some m)
  have "0 < length nodes'" using assms(3,4) unfolding grows_def by linarith
  then have m: "m < length nodes'" using walk_bound[OF assms(2) _ Some] by blast
  show ?thesis
  proof (cases "walk nodes 0 bs")
    case None
    then have "length nodes \<le> m" using walk_grows[OF assms(1,2,3,4) Some] by simp
    then show ?thesis using None Some m assms(3) by (simp add: trie_get_def grows_def)
  next
    case (Some k)
    then have "k = m" using grows_walk[OF assms(1,3,4) Some] \<open>walk nodes' 0 bs = Some m\<close> by simp
    moreover have "k < length nodes" using walk_bound[OF assms(1,4) Some] by simp
    ultimately show ?thesis using Some \<open>walk nodes' 0 bs = Some m\<close> assms(3) by (simp add: trie_get_def grows_def)
  qed
qed

lemma set_token_children: "tn_children (nodes[m := (nodes ! m)\<lparr>tn_token := t\<rparr>] ! n) = tn_children (nodes ! n)"
  by (cases "m < length nodes"; cases "n = m") (simp_all add: list_update_beyond)

lemma walk_set_token: "walk (nodes[m := (nodes ! m)\<lparr>tn_token := t\<rparr>]) n bs = walk nodes n bs"
  by (induction bs arbitrary: n) (simp_all add: set_token_children split: option.split)

lemma set_token_ok: "trie_ok (nodes[m := (nodes ! m)\<lparr>tn_token := t\<rparr>]) = trie_ok nodes"
  by (simp add: trie_ok_def set_token_children)

lemma trie_ok_root: "trie_ok [fresh_node]"
  by (simp add: trie_ok_def fresh_node_def)

lemma trie_get_root: "trie_get [fresh_node] 0 bs = None"
  by (cases bs) (simp_all add: trie_get_def fresh_node_def)

lemma trie_ok_Nil [simp]: "trie_ok []"
  by (simp add: trie_ok_def)

lemma insert_bytes_ok:
  assumes "trie_ok trie"
  shows "trie_ok (insert_bytes trie bs i)" "insert_bytes trie bs i \<noteq> []"
    "lookup (insert_bytes trie bs i) cs = (if cs = bs then Some i else lookup trie cs)"
proof -
  let ?r = "if trie = [] then [fresh_node] else trie"
  obtain nodes m where p: "insert_path ?r 0 bs = (nodes, m)" by fastforce
  have r: "trie_ok ?r" "0 < length ?r" using assms trie_ok_root by auto
  have n: "trie_ok nodes" "grows ?r nodes" "walk nodes 0 bs = Some m" "m < length nodes"
    using insert_path_ok[OF r p] by auto
  have len: "0 < length nodes" using n(4) by (cases nodes) auto
  let ?t = "nodes[m := (nodes ! m)\<lparr>tn_token := Some i\<rparr>]"
  have t: "insert_bytes trie bs i = ?t" using p by (simp add: insert_bytes_def)
  show "trie_ok (insert_bytes trie bs i)" using n(1) by (simp add: t set_token_ok)
  show "insert_bytes trie bs i \<noteq> []" using len by (auto simp: t)
  have old: "trie_get nodes 0 cs = lookup trie cs"
    using trie_get_grows[OF r(1) n(1,2) r(2), of cs] trie_get_root by (simp add: lookup_def split: if_splits)
  have "trie_get ?t 0 cs = (if cs = bs then Some i else trie_get nodes 0 cs)"
  proof (cases "walk nodes 0 cs")
    case None
    then show ?thesis using n(3) by (auto simp: trie_get_def walk_set_token)
  next
    case (Some k)
    have "k < length nodes" using walk_bound[OF n(1) len Some] by simp
    moreover have "k = m \<longleftrightarrow> cs = bs" using walk_inj[OF n(1) _ n(3) len, of cs] Some n(3) by auto
    ultimately show ?thesis using Some n(4) by (auto simp: trie_get_def walk_set_token nth_list_update)
  qed
  then show "lookup (insert_bytes trie bs i) cs = (if cs = bs then Some i else lookup trie cs)"
    using len old by (auto simp: t lookup_def)
qed

text \<open>A vocabulary inserted entry by entry: the last entry of a spelling wins.\<close>

definition build_trie :: "(byte list \<times> nat) list \<Rightarrow> VocabTrie" where
  "build_trie entries = fold (\<lambda>(bs, i) trie. insert_bytes trie bs i) entries []"

lemma build_trie_ok: "trie_ok (build_trie entries) \<and> lookup (build_trie entries) bs = map_of (rev entries) bs"
proof (induction entries rule: rev_induct)
  case Nil
  show ?case by (simp add: build_trie_def lookup_def)
next
  case (snoc e es)
  then show ?case using insert_bytes_ok(1,3)[of "build_trie es" "fst e" "snd e"]
    by (auto simp: build_trie_def split: prod.splits)
qed

section \<open>Matches\<close>

lemma match_loop_get:
  "match_loop trie n i bs =
     List.map_filter (\<lambda>k. map_option (\<lambda>t. (t, i + k)) (trie_get trie n (take k bs))) [1..<Suc (length bs)]"
proof (induction bs arbitrary: n i)
  case Nil
  then show ?case by (simp add: map_filter_simps)
next
  case (Cons b bs)
  have up: "[1..<Suc (length (b # bs))] = 1 # map Suc [1..<Suc (length bs)]"
    by (simp add: map_Suc_upt upt_conv_Cons del: upt_Suc)
  show ?case
  proof (cases "tn_children (trie ! n) b")
    case None
    then have "trie_get trie n (take k (b # bs)) = None" if "k \<ge> 1" for k
      using that by (cases k) (auto simp: trie_get_def)
    then have "List.map_filter (\<lambda>k. map_option (\<lambda>t. (t, i + k)) (trie_get trie n (take k (b # bs)))) ks = []"
      if "\<forall>k \<in> set ks. k \<ge> 1" for ks using that by (induction ks) (auto simp: map_filter_simps)
    from this[of "[1..<Suc (length (b # bs))]"] show ?thesis using None by (simp del: upt_Suc)
  next
    case (Some m)
    have g: "trie_get trie n (b # cs) = trie_get trie m cs" for cs using Some by (simp add: trie_get_def)
    have e: "List.map_filter (\<lambda>k. map_option (\<lambda>t. (t, i + k)) (trie_get trie n (take k (b # bs)))) (map Suc ks)
        = List.map_filter (\<lambda>k. map_option (\<lambda>t. (t, i + 1 + k)) (trie_get trie m (take k bs))) ks" for ks
      by (induction ks) (auto simp: map_filter_simps g split: option.split)
    show ?thesis
      unfolding up match_loop.simps Some option.case Cons.IH[of m "i + 1"] map_filter_simps(1) e
      by (simp add: g e trie_get_def[of _ _ "[]"] del: upt_Suc split: option.split)
  qed
qed

lemma longest_loop_matches:
  "longest_loop trie n i best bs = (case match_loop trie n i bs of [] \<Rightarrow> best | ms \<Rightarrow> Some (last ms))"
proof (induction bs arbitrary: n i best)
  case (Cons b bs)
  then show ?case by (auto split: option.split list.split)
qed simp


lemma trie_matches_lookup:
  "trie_matches trie bytes start =
     List.map_filter (\<lambda>stop. map_option (\<lambda>t. (t, stop)) (lookup trie (take (stop - start) (drop start bytes))))
       [start + 1..<length bytes + 1]"
proof (cases "trie = []")
  case True
  have "List.map_filter (\<lambda>stop. None :: (nat \<times> nat) option) ks = []" for ks :: "nat list" by (induction ks) (auto simp: map_filter_simps)
  then show ?thesis using True by (simp add: trie_matches_def lookup_def del: upt_Suc)
next
  case False
  have e: "List.map_filter (\<lambda>k. map_option (\<lambda>t. (t, start + k)) (trie_get trie 0 (take k bs))) ks =
    List.map_filter (\<lambda>stop. map_option (\<lambda>t. (t, stop)) (lookup trie (take (stop - start) bs))) (map (\<lambda>k. k + start) ks)"
    for bs ks using False by (induction ks) (auto simp: map_filter_simps lookup_def add.commute split: option.split)
  show ?thesis
  proof (cases "start \<le> length bytes")
    case True
    have "map (\<lambda>k. k + start) [1..<Suc (length (drop start bytes))] = [start + 1..<length bytes + 1]"
      using True by (intro nth_equalityI) (auto simp del: upt_Suc)
    then show ?thesis using False unfolding trie_matches_def match_loop_get e by simp
  next
    case False
    then show ?thesis using \<open>trie \<noteq> []\<close> by (simp add: trie_matches_def map_filter_simps)
  qed
qed

lemma set_map_filter: "x \<in> set (List.map_filter f xs) \<longleftrightarrow> (\<exists>y \<in> set xs. f y = Some x)"
  by (induction xs) (auto simp: map_filter_simps split: option.split)

lemma mem_trie_matches:
  "(i, stop) \<in> set (trie_matches trie bytes start) \<longleftrightarrow>
     start < stop \<and> stop \<le> length bytes \<and> lookup trie (take (stop - start) (drop start bytes)) = Some i"
  unfolding trie_matches_lookup set_map_filter by (auto simp del: upt_Suc)

lemma longest_prefix_matches:
  "longest_prefix_bytes trie bytes = (case trie_matches trie bytes 0 of [] \<Rightarrow> None | ms \<Rightarrow> Some (last ms))"
  by (simp add: longest_prefix_bytes_def trie_matches_def longest_loop_matches)

lemma sorted_map_filter:
  "sorted_wrt (<) (ks :: nat list) \<Longrightarrow> sorted_wrt (<) (map snd (List.map_filter (\<lambda>k. map_option (\<lambda>t. (t, k)) (f k)) ks))"
  by (induction ks) (auto simp: map_filter_simps set_map_filter split: option.split)

lemma trie_matches_sorted: "sorted_wrt (<) (map snd (trie_matches trie bytes start))"
  unfolding trie_matches_lookup by (rule sorted_map_filter) (simp del: upt_Suc)

lemma last_greatest: "sorted_wrt (<) (map snd ms) \<Longrightarrow> (i, k) \<in> set ms \<Longrightarrow> k \<le> snd (last ms)" for k :: nat
proof (induction ms)
  case (Cons m ms)
  then show ?case by (cases "ms = []") (auto dest: last_in_set intro: less_imp_le)
qed simp

text \<open>The longest entry in front of a text, or none.\<close>

lemma longest_prefix_Some:
  assumes "longest_prefix_bytes trie bytes = Some (i, k)"
  shows "0 < k" "k \<le> length bytes" "lookup trie (take k bytes) = Some i"
    "\<And>l. k < l \<Longrightarrow> l \<le> length bytes \<Longrightarrow> lookup trie (take l bytes) = None"
proof -
  have ne: "trie_matches trie bytes 0 \<noteq> []" and l: "last (trie_matches trie bytes 0) = (i, k)"
    using assms by (auto simp: longest_prefix_matches split: list.splits)
  have "(i, k) \<in> set (trie_matches trie bytes 0)" using last_in_set[OF ne] l by simp
  then show "0 < k" "k \<le> length bytes" "lookup trie (take k bytes) = Some i" by (auto simp: mem_trie_matches)
  fix l assume "k < l" "l \<le> length bytes"
  then show "lookup trie (take l bytes) = None"
    using last_greatest[OF trie_matches_sorted, of _ l trie bytes 0] \<open>last _ = _\<close>
    by (cases "lookup trie (take l bytes)") (auto simp: mem_trie_matches)
qed

lemma longest_prefix_None:
  assumes "longest_prefix_bytes trie bytes = None" "0 < l" "l \<le> length bytes"
  shows "lookup trie (take l bytes) = None"
proof -
  have "trie_matches trie bytes 0 = []" using assms(1) by (auto simp: longest_prefix_matches split: list.splits)
  then show ?thesis using mem_trie_matches[of _ l trie bytes 0] assms(2,3) by (cases "lookup trie (take l bytes)") auto
qed

end
