(* ===== verification/Tok_Pattern.thy ===== *)
theory Tok_Pattern
  imports Tok_Split
begin

text \<open>
  The documented patterns of the pre-tokenizer rules, with the meaning of a backtracking matcher, and the proof
  that the hand-written scans take what the patterns match. The pieces of a split tile the text.
\<close>

section \<open>Patterns\<close>

text \<open>Greedy patterns over characters: a class, a run of a class, and a negative look-ahead.\<close>

datatype pattern =
    Cls "nat \<Rightarrow> bool" | Run "nat \<Rightarrow> bool" nat "nat option" | NotAhead "nat \<Rightarrow> bool"
  | Then pattern pattern | Or pattern pattern | Maybe pattern

text \<open>The lengths a pattern can match at the start of a text, in the order in which a backtracking matcher tries them.\<close>

definition capped :: "nat option \<Rightarrow> nat \<Rightarrow> nat" where
  "capped cap n = (case cap of None \<Rightarrow> n | Some m \<Rightarrow> min m n)"

primrec lens :: "pattern \<Rightarrow> ustr \<Rightarrow> nat list" where
  "lens (Cls P) s = (if next_is P s then [1] else [])"
| "lens (Run P lo cap) s = rev [lo..<Suc (capped cap (run_len P s))]"
| "lens (NotAhead P) s = (if next_is P s then [] else [0])"
| "lens (Then a b) s = concat (map (\<lambda>n. map ((+) n) (lens b (drop n s))) (lens a s))"
| "lens (Or a b) s = lens a s @ lens b s"
| "lens (Maybe a) s = lens a s @ [0]"

definition longest :: "nat list \<Rightarrow> nat option" where
  "longest ns = (case ns of [] \<Rightarrow> None | n # _ \<Rightarrow> Some n)"

definition matched :: "pattern \<Rightarrow> ustr \<Rightarrow> nat option" where
  "matched p s = longest (lens p s)"

definition char_i :: "char \<Rightarrow> pattern" where
  "char_i c = Cls (\<lambda>d. ascii_lower d = of_char c)"

definition contraction_re :: pattern where
  "contraction_re = Then (Cls ((=) APOSTROPHE))
     (Or (char_i CHR ''s'') (Or (char_i CHR ''t'') (Or (Then (char_i CHR ''r'') (char_i CHR ''e''))
     (Or (Then (char_i CHR ''v'') (char_i CHR ''e'')) (Or (char_i CHR ''m'')
     (Or (Then (char_i CHR ''l'') (char_i CHR ''l'')) (char_i CHR ''d'')))))))"

text \<open>\<open>(?i:'s|'t|'re|'ve|'m|'ll|'d)|[^\r\n\p{L}\p{N}]?\p{L}+|\p{N}{1,k}| ?[^\s\p{L}\p{N}]+[\r\n]*|\s*[\r\n]+|\s+(?!\S)|\s+\<close>\<close>

definition scan_re :: "char_classes \<Rightarrow> PreTokenizer \<Rightarrow> pattern" where
  "scan_re cl r = Or contraction_re
     (Or (Then (Maybe (Cls (\<lambda>c. \<not> is_newline c \<and> \<not> cl_letter cl c \<and> \<not> cl_number cl c))) (Run (word_char cl r) 1 None))
     (Or (Run (cl_number cl) 1 (Some (number_run r)))
     (Or (Then (Maybe (Cls ((=) SPACE))) (Then (Run (symbol_char cl r) 1 None) (Run is_newline 0 None)))
     (Or (Then (Run is_whitespace 0 None) (Run is_newline 1 None))
     (Or (Then (Run is_whitespace 1 None) (NotAhead (\<lambda>c. \<not> is_whitespace c)))
         (Run is_whitespace 1 None))))))"

text \<open>\<open>(?i:'s|'t|'re|'ve|'m|'ll|'d)| ?\p{L}+| ?\p{N}+| ?[^\s\p{L}\p{N}]+|\s+(?!\S)|\s+\<close>\<close>

definition gpt2_re :: "char_classes \<Rightarrow> pattern" where
  "gpt2_re cl = (let spaced = (\<lambda>P. Then (Maybe (Cls ((=) SPACE))) (Run P 1 None)) in
     Or contraction_re (Or (spaced (cl_letter cl)) (Or (spaced (cl_number cl)) (Or (spaced (symbol_char cl JinaV1En))
     (Or (Then (Run is_whitespace 1 None) (NotAhead (\<lambda>c. \<not> is_whitespace c)))
         (Run is_whitespace 1 None))))))"

text \<open>The general categories are disjoint from each other and from white space, and an apostrophe is in none.\<close>

definition classes_ok :: "char_classes \<Rightarrow> bool" where
  "classes_ok cl \<longleftrightarrow> \<not> cl_letter cl APOSTROPHE \<and> \<not> cl_number cl APOSTROPHE \<and>
     (\<forall>c. (cl_letter cl c \<longrightarrow> \<not> cl_number cl c \<and> \<not> cl_mark cl c \<and> \<not> is_whitespace c) \<and>
          (cl_number cl c \<longrightarrow> \<not> cl_mark cl c \<and> \<not> is_whitespace c) \<and> (cl_mark cl c \<longrightarrow> \<not> is_whitespace c))"

section \<open>What the parts match\<close>

lemma longest_simps [simp]: "longest [] = None" "longest (n # ns) = Some n"
  by (simp_all add: longest_def)

lemma longest_append [simp]: "longest (xs @ ys) = (case longest xs of None \<Rightarrow> longest ys | Some n \<Rightarrow> Some n)"
  by (cases xs) simp_all

lemma longest_map [simp]: "longest (map f xs) = map_option f (longest xs)"
  by (cases xs) simp_all

lemma longest_downto: "longest (rev [lo..<Suc k]) = (if lo \<le> k then Some k else None)"
  by simp

lemma matched_Or [simp]: "matched (Or a b) s = (case matched a s of None \<Rightarrow> matched b s | Some n \<Rightarrow> Some n)"
  by (simp add: matched_def split: option.split)

lemma matched_Cls [simp]: "matched (Cls P) s = (if next_is P s then Some 1 else None)"
  by (simp add: matched_def)

lemma matched_Run: "matched (Run P lo cap) s = (if lo \<le> capped cap (run_len P s) then Some (capped cap (run_len P s)) else None)"
  unfolding matched_def lens.simps by (rule longest_downto)

lemma matched_Then_Cls [simp]:
  "matched (Then (Cls P) b) s = (if next_is P s then map_option ((+) 1) (matched b (drop 1 s)) else None)"
  by (simp add: matched_def)

lemma matched_Then_Maybe [simp]:
  "matched (Then (Maybe (Cls P)) b) s =
     (case (if next_is P s then map_option ((+) 1) (matched b (drop 1 s)) else None) of
        None \<Rightarrow> matched b s | Some n \<Rightarrow> Some n)"
  by (simp add: matched_def map_option_case split: option.split)

lemma run_len_Cons [simp]: "run_len P (c # s) = (if P c then Suc (run_len P s) else 0)"
  by (simp add: run_len_def)

lemma run_len_Nil [simp]: "run_len P [] = 0"
  by (simp add: run_len_def)

lemma next_is_simps [simp]: "\<not> next_is P []" "next_is P (c # s) \<longleftrightarrow> P c"
  by (simp_all add: next_is_def)

lemma run_len_pos: "0 < run_len P s \<longleftrightarrow> next_is P s"
  by (cases s) simp_all

lemma run_len_le: "run_len P s \<le> length s"
  by (simp add: run_len_def length_takeWhile_le)

lemma next_is_run: "n < run_len P s \<Longrightarrow> next_is P (drop n s)"
proof (induction s arbitrary: n)
  case (Cons c s)
  then show ?case by (cases n) (auto split: if_splits)
qed simp

lemma next_is_run_end: "\<not> next_is P (drop (run_len P s) s)"
  by (induction s) auto

lemma matched_Then_tail:
  assumes "\<And>t. longest (lens b t) \<noteq> None"
  shows "matched (Then a b) s = map_option (\<lambda>n. n + the (matched b (drop n s))) (matched a s)"
proof (cases "lens a s")
  case (Cons n ns)
  obtain k where k: "longest (lens b (drop n s)) = Some k" using assms [of "drop n s"] by blast
  then show ?thesis using Cons by (simp add: matched_def)
qed (simp add: matched_def)

text \<open>A run that may give characters back: the largest length after which the rest matches.\<close>

lemma matched_back:
  assumes n: "lo \<le> n" "n \<le> run_len P s" "matched b (drop n s) = Some k"
    and none: "\<And>m. n < m \<Longrightarrow> m \<le> run_len P s \<Longrightarrow> matched b (drop m s) = None"
  shows "matched (Then (Run P lo None) b) s = Some (n + k)"
proof -
  have "longest (concat (map (\<lambda>m. map ((+) m) (lens b (drop m s))) (rev [lo..<Suc j]))) = Some (n + k)"
    if "n \<le> j" "j \<le> run_len P s" for j
    using that
  proof (induction j)
    case 0
    then show ?case using n by (simp add: matched_def)
  next
    case (Suc j)
    show ?case
    proof (cases "n = Suc j")
      case True
      then show ?thesis using n by (simp add: matched_def)
    next
      case False
      then have "lens b (drop (Suc j) s) = []"
        using none [of "Suc j"] Suc.prems by (cases "lens b (drop (Suc j) s)") (auto simp: matched_def)
      then show ?thesis using Suc False n(1) by simp
    qed
  qed
  from this [of "run_len P s"] show ?thesis using n(2) by (simp add: matched_def capped_def)
qed

lemma matched_back_None:
  assumes "\<And>m. lo \<le> m \<Longrightarrow> m \<le> run_len P s \<Longrightarrow> matched b (drop m s) = None"
  shows "matched (Then (Run P lo None) b) s = None"
proof -
  have "lens b (drop m s) = []" if "lo \<le> m" "m \<le> run_len P s" for m
    using assms [OF that] by (cases "lens b (drop m s)") (auto simp: matched_def)
  then have "concat (map (\<lambda>m. map ((+) m) (lens b (drop m s))) (rev [lo..<Suc (run_len P s)])) = []"
    by auto
  then show ?thesis unfolding matched_def lens.simps capped_def option.simps by (simp only: longest_simps)
qed

lemma contraction_matched: "matched contraction_re s = (if contraction s > 0 then Some (contraction s) else None)"
  by (auto simp: contraction_re_def char_i_def contraction_def split: list.splits)

text \<open>White space before a line break: the scan remembers the end of the last one.\<close>

lemma newline_white: "is_newline c \<Longrightarrow> is_whitespace c"
  by (auto simp: is_newline_def is_whitespace_def)

lemma last_newline_ok:
  "fst (last_newline n lb s) = n + run_len is_whitespace s \<and>
   ((\<forall>i < run_len is_whitespace s. \<not> is_newline (s ! i)) \<and> snd (last_newline n lb s) = lb \<or>
    (\<exists>i < run_len is_whitespace s. is_newline (s ! i) \<and>
       (\<forall>j. i < j \<and> j < run_len is_whitespace s \<longrightarrow> \<not> is_newline (s ! j)) \<and> snd (last_newline n lb s) = n + i + 1))"
proof (induction s arbitrary: n lb)
  case (Cons c s)
  show ?case
  proof (cases "is_whitespace c")
    case ws: True
    let ?lb = "if is_newline c then n + 1 else lb"
    note IH = Cons.IH [of "n + 1" ?lb]
    have step: "last_newline n lb (c # s) = last_newline (n + 1) ?lb s" using ws by simp
    show ?thesis
    proof (cases "\<exists>i < run_len is_whitespace s. is_newline (s ! i)")
      case True
      then obtain i where i: "i < run_len is_whitespace s" "is_newline (s ! i)"
          "\<forall>j. i < j \<and> j < run_len is_whitespace s \<longrightarrow> \<not> is_newline (s ! j)" "snd (last_newline (n + 1) ?lb s) = n + 1 + i + 1"
        using IH by blast
      have "\<forall>j. Suc i < j \<and> j < Suc (run_len is_whitespace s) \<longrightarrow> \<not> is_newline ((c # s) ! j)"
        using i(3) by (auto simp: nth_Cons split: nat.splits)
      then show ?thesis using IH i ws unfolding step by (intro conjI disjI2 exI [of _ "Suc i"]) simp_all
    next
      case False
      then have e: "snd (last_newline (n + 1) ?lb s) = ?lb" using IH by blast
      show ?thesis
      proof (cases "is_newline c")
        case True
        have "\<forall>j. 0 < j \<and> j < Suc (run_len is_whitespace s) \<longrightarrow> \<not> is_newline ((c # s) ! j)"
          using False by (auto simp: nth_Cons split: nat.splits)
        then show ?thesis using IH e ws True unfolding step by (intro conjI disjI2 exI [of _ 0]) simp_all
      next
        case nn: False
        have "\<forall>i < Suc (run_len is_whitespace s). \<not> is_newline ((c # s) ! i)"
          using False nn by (auto simp: nth_Cons split: nat.splits)
        then show ?thesis using IH e ws nn unfolding step by (intro conjI disjI1) simp_all
      qed
    qed
  qed simp
qed simp

lemma nth_drop_next: "n < length s \<Longrightarrow> next_is P (drop n s) \<longleftrightarrow> P (s ! n)"
  by (cases "drop n s") (auto simp: Cons_nth_drop_Suc [symmetric])

lemma run_len_next: "n < run_len P s \<Longrightarrow> P (s ! n)"
  using next_is_run [of n P s] nth_drop_next [of n s P] run_len_le [of P s] by simp

lemma run_len_stop: "run_len P s < length s \<Longrightarrow> \<not> P (s ! run_len P s)"
  using next_is_run_end [of P s] nth_drop_next by blast

text \<open>\<open>\s*[\r\n]+\<close> ends behind the last line break of the run of white space.\<close>

lemma newline_arm:
  "matched (Then (Run is_whitespace 0 None) (Run is_newline 1 None)) s =
     (if snd (last_newline 0 0 s) > 0 then Some (snd (last_newline 0 0 s)) else None)"
proof -
  let ?k = "run_len is_whitespace s"
  have m: "matched (Run is_newline 1 None) (drop n s) =
      (if next_is is_newline (drop n s) then Some (run_len is_newline (drop n s)) else None)" for n
    using run_len_pos [of is_newline "drop n s"] by (auto simp: matched_Run capped_def)
  consider (no) "\<forall>i < ?k. \<not> is_newline (s ! i)" "snd (last_newline 0 0 s) = 0"
    | (yes) i where "i < ?k" "is_newline (s ! i)" "\<forall>j. i < j \<and> j < ?k \<longrightarrow> \<not> is_newline (s ! j)"
        "snd (last_newline 0 0 s) = i + 1"
    using last_newline_ok [of 0 0 s] by auto
  then show ?thesis
  proof cases
    case no
    have "\<not> next_is is_newline (drop n s)" if "n \<le> ?k" for n
    proof (cases "n < ?k")
      case True
      then show ?thesis using no(1) nth_drop_next [of n s] run_len_le [of is_whitespace s] by simp
    next
      case False
      then have "n = ?k" using that by simp
      then show ?thesis using next_is_run_end [of is_whitespace s] newline_white by (cases "drop n s") auto
    qed
    then have "matched (Then (Run is_whitespace 0 None) (Run is_newline 1 None)) s = None"
      by (intro matched_back_None) (simp only: m if_False)
    then show ?thesis using no(2) by simp
  next
    case yes
    have len: "i < length s" using yes(1) run_len_le [of is_whitespace s] by simp
    have ds: "drop i s = s ! i # drop (Suc i) s" using len by (simp add: Cons_nth_drop_Suc)
    have nn: "\<not> next_is is_newline (drop j s)" if "i < j" "j \<le> ?k" for j
    proof (cases "j < ?k")
      case True
      then show ?thesis using yes(3) that(1) nth_drop_next [of j s] run_len_le [of is_whitespace s] by simp
    next
      case False
      then have "j = ?k" using that by simp
      then show ?thesis using next_is_run_end [of is_whitespace s] newline_white by (cases "drop j s") auto
    qed
    have "run_len is_newline (drop (Suc i) s) = 0" using nn [of "Suc i"] yes(1) run_len_pos [of is_newline] by force
    then have "matched (Run is_newline 1 None) (drop i s) = Some 1" using m [of i] yes(2) by (simp add: ds)
    then have "matched (Then (Run is_whitespace 0 None) (Run is_newline 1 None)) s = Some (i + 1)"
      by (rule matched_back [rotated 2]) (use yes(1) nn m in simp_all)
    then show ?thesis using yes(4) by simp
  qed
qed

text \<open>\<open>\s+(?!\S)\<close> leaves the last character of the run to what follows, if anything does.\<close>

lemma ahead_arm:
  "matched (Then (Run is_whitespace 1 None) (NotAhead (\<lambda>c. \<not> is_whitespace c))) s =
     (let k = run_len is_whitespace s in
      if k > 0 \<and> k = length s then Some k else if k > 1 then Some (k - 1) else None)"
proof -
  let ?k = "run_len is_whitespace s"
  have m: "matched (NotAhead (\<lambda>c. \<not> is_whitespace c)) t = (if next_is (\<lambda>c. \<not> is_whitespace c) t then None else Some 0)" for t
    by (simp add: matched_def)
  show ?thesis
  proof (cases "?k = length s")
    case True
    show ?thesis
    proof (cases "?k = 0")
      case False
      have "matched (Then (Run is_whitespace 1 None) (NotAhead (\<lambda>c. \<not> is_whitespace c))) s = Some (?k + 0)"
        by (rule matched_back) (use False True m in \<open>simp_all add: Suc_le_eq\<close>)
      then show ?thesis using True False by (simp add: Let_def)
    qed (simp add: matched_back_None Let_def)
  next
    case False
    then have lt: "?k < length s" using run_len_le [of is_whitespace s] by simp
    have stop: "matched (NotAhead (\<lambda>c. \<not> is_whitespace c)) (drop ?k s) = None"
      using run_len_stop [OF lt] nth_drop_next [OF lt] m by simp
    show ?thesis
    proof (cases "?k > 1")
      case True
      have "\<not> next_is (\<lambda>c. \<not> is_whitespace c) (drop (?k - 1) s)"
        using nth_drop_next [of "?k - 1" s] run_len_next [of "?k - 1" is_whitespace s] True lt by simp
      then have "matched (Then (Run is_whitespace 1 None) (NotAhead (\<lambda>c. \<not> is_whitespace c))) s = Some (?k - 1 + 0)"
      proof (intro matched_back)
        fix j assume "?k - 1 < j" "j \<le> ?k"
        then have "j = ?k" by simp
        then show "matched (NotAhead (\<lambda>c. \<not> is_whitespace c)) (drop j s) = None" using stop by simp
      qed (use True m in simp_all)
      then show ?thesis using True False by (simp add: Let_def)
    next
      case small: False
      have "matched (Then (Run is_whitespace 1 None) (NotAhead (\<lambda>c. \<not> is_whitespace c))) s = None"
      proof (rule matched_back_None)
        fix j assume "1 \<le> j" "j \<le> ?k"
        then have "j = ?k" using small by simp
        then show "matched (NotAhead (\<lambda>c. \<not> is_whitespace c)) (drop j s) = None" using stop by simp
      qed
      then show ?thesis using small False by (simp add: Let_def)
    qed
  qed
qed

section \<open>Scans take what the patterns match\<close>

lemma run1: "matched (Run P 1 None) s = (if next_is P s then Some (run_len P s) else None)"
  using run_len_pos [of P s] by (auto simp: matched_Run capped_def Suc_le_eq)

lemma run_capped: "0 < m \<Longrightarrow> matched (Run P 1 (Some m)) s = (if next_is P s then Some (min m (run_len P s)) else None)"
  using run_len_pos [of P s] by (cases "next_is P s") (auto simp: matched_Run capped_def Suc_le_eq)

lemma matched_Or_Some: "matched a s = Some n \<Longrightarrow> matched (Or a b) s = Some n"
  by simp

lemma matched_Or_None: "matched a s = None \<Longrightarrow> matched (Or a b) s = matched b s"
  by simp

lemma number_run_pos: "0 < number_run r"
  by (cases r) (simp_all add: number_run_def)

lemma symbol_arm:
  "matched (Then (Run P 1 None) (Run is_newline 0 None)) s =
     (if next_is P s then Some (run_len P s + run_len is_newline (drop (run_len P s) s)) else None)"
proof -
  have t: "matched (Run is_newline 0 None) u = Some (run_len is_newline u)" for u by (simp add: matched_Run capped_def)
  then have "longest (lens (Run is_newline 0 None) u) \<noteq> None" for u by (simp only: matched_def) simp
  from matched_Then_tail [OF this, of "Run P 1 None" s] show ?thesis unfolding run1 t by simp
qed

lemma scan_head_matched:
  assumes cl: "classes_ok cl" and s: "s \<noteq> []"
  shows "matched (scan_re cl r) s = Some (scan_head cl r s)"
proof -
  obtain c t where st: "s = c # t" using s by (cases s) auto
  have nl: "\<not> is_newline c" if "cl_letter cl c \<or> cl_number cl c \<or> cl_mark cl c" for c
    using cl that newline_white [of c] unfolding classes_ok_def by blast
  have sp: "\<not> cl_letter cl SPACE" "\<not> cl_number cl SPACE" "\<not> cl_mark cl SPACE" "is_whitespace SPACE"
    using cl unfolding classes_ok_def by (auto simp: is_whitespace_def)
  have w: "matched (Then (Maybe (Cls (\<lambda>c. \<not> is_newline c \<and> \<not> cl_letter cl c \<and> \<not> cl_number cl c))) (Run (word_char cl r) 1 None)) s =
      (if \<not> is_newline c \<and> \<not> cl_number cl c \<and> (word_char cl r c \<or> next_is (word_char cl r) t)
       then Some (1 + run_len (word_char cl r) t) else None)"
  proof -
    have "word_char cl r c \<Longrightarrow> \<not> cl_number cl c" using cl unfolding word_char_def classes_ok_def by blast
    moreover have "word_char cl r c \<Longrightarrow> \<not> is_newline c" using nl unfolding word_char_def by blast
    moreover have "cl_letter cl c \<Longrightarrow> word_char cl r c" by (simp add: word_char_def)
    moreover have "next_is (word_char cl r) t \<Longrightarrow> 0 < run_len (word_char cl r) t" by (simp add: run_len_pos)
    ultimately show ?thesis using run_len_pos [of "word_char cl r" t] by (simp add: st run1 [unfolded One_nat_def])
  qed
  have n: "matched (Run (cl_number cl) 1 (Some (number_run r))) s =
      (if cl_number cl c then Some (min (number_run r) (run_len (cl_number cl) s)) else None)"
    using run_capped [OF number_run_pos] by (simp add: st)
  let ?sym = "symbol_char cl r" and ?k = "if c = SPACE then 1 else 0 :: nat"
  have symsp: "\<not> ?sym SPACE" using sp(4) by (simp add: symbol_char_def)
  have y: "matched (Then (Maybe (Cls ((=) SPACE))) (Then (Run ?sym 1 None) (Run is_newline 0 None))) s =
      (if (if c = SPACE then next_is ?sym t else ?sym c)
       then Some (let k2 = ?k + run_len ?sym (drop ?k s) in k2 + run_len is_newline (drop k2 s)) else None)"
  proof (cases "c = SPACE")
    case True
    show ?thesis
    proof (cases "next_is ?sym t")
      case False
      then show ?thesis using symsp unfolding matched_Then_Maybe symbol_arm st by (simp add: True)
    qed (simp only: matched_Then_Maybe symbol_arm st True, simp add: Let_def)
  next
    case False
    then show ?thesis unfolding matched_Then_Maybe symbol_arm st by (simp add: Let_def)
  qed
  have ln: "fst (last_newline 0 0 s) = run_len is_whitespace s" using last_newline_ok [of 0 0 s] by simp
  have cover: "is_whitespace c \<or> cl_number cl c \<or> word_char cl r c \<and> \<not> is_newline c \<and> \<not> cl_number cl c \<or> ?sym c"
    using nl cl newline_white [of c] unfolding symbol_char_def word_char_def classes_ok_def by blast
  let ?ws = "run_len is_whitespace s" and ?lb = "snd (last_newline 0 0 s)"
  have tail: "matched (Or (Then (Run is_whitespace 0 None) (Run is_newline 1 None))
      (Or (Then (Run is_whitespace 1 None) (NotAhead (\<lambda>c. \<not> is_whitespace c))) (Run is_whitespace 1 None))) s =
      Some (if ?lb > 0 then ?lb else if ?ws > 1 \<and> ?ws < length s then ?ws - 1 else ?ws)"
    if "is_whitespace c"
  proof -
    have "0 < ?ws" using that st by simp
    then show ?thesis using run_len_le [of is_whitespace s] that
      unfolding matched_Or newline_arm ahead_arm run1 by (auto simp: Let_def st)
  qed
  have head: "scan_head cl r s =
    (if contraction s > 0 then contraction s
     else if \<not> is_newline c \<and> \<not> cl_number cl c \<and> (word_char cl r c \<or> next_is (word_char cl r) t)
     then 1 + run_len (word_char cl r) t
     else if cl_number cl c then min (number_run r) (run_len (cl_number cl) s)
     else if (if c = SPACE then next_is ?sym t else ?sym c)
     then (let k2 = ?k + run_len ?sym (drop ?k s) in k2 + run_len is_newline (drop k2 s))
     else if ?lb > 0 then ?lb else if ?ws > 1 \<and> ?ws < length s then ?ws - 1 else if ?ws > 0 then ?ws else 1)"
    unfolding scan_head_def st list.case
    by (simp only: is_newline_def Let_def case_prod_beta ln [unfolded st] de_Morgan_disj conj_assoc)
  have wsp: "is_whitespace c \<Longrightarrow> 0 < ?ws" by (simp add: st)
  have tl: "matched (Or (Then (Run is_whitespace 0 None) (Run is_newline 1 None))
      (Or (Then (Run is_whitespace 1 None) (NotAhead (\<lambda>c. \<not> is_whitespace c))) (Run is_whitespace 1 None))) s =
      Some (if ?lb > 0 then ?lb else if ?ws > 1 \<and> ?ws < length s then ?ws - 1 else if ?ws > 0 then ?ws else 1)"
    if "\<not> (\<not> is_newline c \<and> \<not> cl_number cl c \<and> (word_char cl r c \<or> next_is (word_char cl r) t))" "\<not> cl_number cl c"
       "\<not> (if c = SPACE then next_is ?sym t else ?sym c)"
  proof -
    have "is_whitespace c" using that cover sp(4) by (auto split: if_splits)
    then show ?thesis using tail wsp by simp
  qed
  show ?thesis
  proof (cases "contraction s > 0")
    case True
    then have "matched contraction_re s = Some (contraction s)" by (simp add: contraction_matched)
    then show ?thesis unfolding scan_re_def head using True by (simp only: matched_Or_Some if_True)
  next
    case False
    then have 1: "matched contraction_re s = None" by (simp add: contraction_matched)
    note f1 = False
    show ?thesis
    proof (cases "\<not> is_newline c \<and> \<not> cl_number cl c \<and> (word_char cl r c \<or> next_is (word_char cl r) t)")
      case True
      note w' = w [unfolded if_P [OF True]]
      show ?thesis unfolding scan_re_def matched_Or_None [OF 1] matched_Or_Some [OF w'] head if_not_P [OF f1] if_P [OF True] ..
    next
      case False
      note f2 = False
      note w' = w [unfolded if_not_P [OF False]]
      show ?thesis
      proof (cases "cl_number cl c")
        case True
        note n' = n [unfolded if_P [OF True]]
        show ?thesis unfolding scan_re_def matched_Or_None [OF 1] matched_Or_None [OF w'] matched_Or_Some [OF n'] head
          if_not_P [OF f1] if_not_P [OF f2] if_P [OF True] ..
      next
        case False
        note f3 = False
        note n' = n [unfolded if_not_P [OF False]]
        show ?thesis
        proof (cases "if c = SPACE then next_is ?sym t else ?sym c")
          case True
          note y' = y [unfolded if_P [OF True]]
          show ?thesis unfolding scan_re_def matched_Or_None [OF 1] matched_Or_None [OF w'] matched_Or_None [OF n']
            matched_Or_Some [OF y'] head if_not_P [OF f1] if_not_P [OF f2] if_not_P [OF f3] if_P [OF True] ..
        next
          case False
          note y' = y [unfolded if_not_P [OF False]]
          show ?thesis unfolding scan_re_def matched_Or_None [OF 1] matched_Or_None [OF w'] matched_Or_None [OF n']
            matched_Or_None [OF y'] head if_not_P [OF f1] if_not_P [OF f2] if_not_P [OF f3] if_not_P [OF False] tl [OF f2 f3 False] ..
        qed
      qed
    qed
  qed
qed

lemma gpt2_head_matched:
  assumes cl: "classes_ok cl" and s: "s \<noteq> []"
  shows "matched (gpt2_re cl) s = Some (gpt2_head cl s)"
proof -
  obtain c t where st: "s = c # t" using s by (cases s) auto
  let ?sym = "symbol_char cl JinaV1En"
  have sp: "\<not> cl_letter cl SPACE" "\<not> cl_number cl SPACE" "is_whitespace SPACE"
    using cl unfolding classes_ok_def by (auto simp: is_whitespace_def)
  have symsp: "\<not> ?sym SPACE" using sp(3) by (simp add: symbol_char_def)
  have sym: "?sym c \<longleftrightarrow> \<not> is_whitespace c \<and> \<not> cl_letter cl c \<and> \<not> cl_number cl c"
    by (simp add: symbol_char_def include_marks_def)
  have spaced: "matched (Then (Maybe (Cls ((=) SPACE))) (Run P 1 None)) s =
      (if c = SPACE \<and> next_is P t \<or> P c then Some (1 + run_len P t) else None)" if "\<not> P SPACE" for P
    using that run_len_pos [of P t] unfolding matched_Then_Maybe run1 st by (auto simp: Suc_le_eq)
  have con: "contraction s > 0 \<Longrightarrow> c = APOSTROPHE" by (auto simp: contraction_def st split: if_splits list.splits)
  have ap: "\<not> is_whitespace APOSTROPHE" by (simp add: is_whitespace_def)
  let ?ws = "run_len is_whitespace s"
  let ?white = "if ?ws < length s \<and> ?ws > 1 then ?ws - 1 else ?ws"
  have white: "matched (Or (Then (Run is_whitespace 1 None) (NotAhead (\<lambda>c. \<not> is_whitespace c))) (Run is_whitespace 1 None)) s =
      Some ?white" if "is_whitespace c"
  proof -
    have "0 < ?ws" using that st by simp
    then show ?thesis using run_len_le [of is_whitespace s] that
      unfolding matched_Or ahead_arm run1 by (auto simp: Let_def st)
  qed
  note L = spaced [of "cl_letter cl", OF sp(1)] and N = spaced [of "cl_number cl", OF sp(2)] and S = spaced [of ?sym, OF symsp]
  have not_ap: "\<not> cl_letter cl APOSTROPHE" "\<not> cl_number cl APOSTROPHE" using cl by (simp_all add: classes_ok_def)
  have cover: "is_whitespace c \<or> cl_letter cl c \<or> cl_number cl c \<or> ?sym c" using sym by blast
  note re = gpt2_re_def Let_def
  have hd: "gpt2_head cl s =
    (if c = APOSTROPHE then (if contraction s > 0 then contraction s else 1 + run_len ?sym t)
     else if c = SPACE \<and> next_is (cl_letter cl) t then 1 + run_len (cl_letter cl) t
     else if cl_letter cl c then 1 + run_len (cl_letter cl) t
     else if c = SPACE \<and> next_is (cl_number cl) t then 1 + run_len (cl_number cl) t
     else if cl_number cl c then 1 + run_len (cl_number cl) t
     else if c = SPACE \<and> next_is ?sym t then 1 + run_len ?sym t
     else if c \<noteq> SPACE \<and> ?sym c then 1 + run_len ?sym t
     else if is_whitespace c then ?white else 1)"
    by (simp only: gpt2_head_def st list.case Let_def)
  show ?thesis
  proof (cases "contraction s > 0")
    case True
    then have "matched contraction_re s = Some (contraction s)" by (simp add: contraction_matched)
    then show ?thesis unfolding re using True con by (simp only: matched_Or_Some) (simp add: hd)
  next
    case False
    then have 1: "matched contraction_re s = None" by (simp add: contraction_matched)
    show ?thesis
    proof (cases "c = APOSTROPHE")
      case True
      have s1: "?sym c" using True ap not_ap sym by simp
      have c2: "\<not> (c = SPACE \<and> next_is (cl_letter cl) t \<or> cl_letter cl c)" "\<not> (c = SPACE \<and> next_is (cl_number cl) t \<or> cl_number cl c)"
        "c = SPACE \<and> next_is ?sym t \<or> ?sym c"
        using True not_ap s1 by auto
      show ?thesis unfolding re matched_Or_None [OF 1] matched_Or_None [OF L [unfolded if_not_P [OF c2(1)]]]
        matched_Or_None [OF N [unfolded if_not_P [OF c2(2)]]] matched_Or_Some [OF S [unfolded if_P [OF c2(3)]]]
        hd using True False by simp
    next
      case na: False
      show ?thesis
      proof (cases "c = SPACE \<and> next_is (cl_letter cl) t \<or> cl_letter cl c")
        case True
        show ?thesis unfolding re matched_Or_None [OF 1] matched_Or_Some [OF L [unfolded if_P [OF True]]] hd
          using True na by auto
      next
        case nl: False
        show ?thesis
        proof (cases "c = SPACE \<and> next_is (cl_number cl) t \<or> cl_number cl c")
          case True
          show ?thesis unfolding re matched_Or_None [OF 1] matched_Or_None [OF L [unfolded if_not_P [OF nl]]]
            matched_Or_Some [OF N [unfolded if_P [OF True]]] hd
            using True na nl by auto
        next
          case nn: False
          show ?thesis
          proof (cases "c = SPACE \<and> next_is ?sym t \<or> ?sym c")
            case True
            show ?thesis unfolding re matched_Or_None [OF 1] matched_Or_None [OF L [unfolded if_not_P [OF nl]]]
              matched_Or_None [OF N [unfolded if_not_P [OF nn]]] matched_Or_Some [OF S [unfolded if_P [OF True]]] hd
              using True na nl nn symsp by auto
          next
            case ns: False
            have "is_whitespace c" using cover nl nn ns by blast
            then show ?thesis unfolding re matched_Or_None [OF 1] matched_Or_None [OF L [unfolded if_not_P [OF nl]]]
              matched_Or_None [OF N [unfolded if_not_P [OF nn]]] matched_Or_None [OF S [unfolded if_not_P [OF ns]]] hd
              using white na nl nn ns by auto
          qed
        qed
      qed
    qed
  qed
qed

section \<open>Pieces tile the text\<close>

text \<open>What a scan promises: a step takes at least one character and no more than there are.\<close>

locale scan =
  fixes step :: "ustr \<Rightarrow> nat"
  assumes step_pos: "s \<noteq> [] \<Longrightarrow> 0 < step s" and step_le: "step s \<le> length s"
begin

lemma max_step: "s \<noteq> [] \<Longrightarrow> max 1 (step s) = step s"
  using step_pos by (simp add: max_def Suc_le_eq)

lemma chop_step: "s \<noteq> [] \<Longrightarrow> chop step s = take (step s) s # chop step (drop (step s) s)"
  using max_step by (cases s) simp_all

lemma concat_chop: "concat (chop step s) = s"
proof (induction s rule: length_induct)
  case (1 s)
  show ?case
  proof (cases "s = []")
    case False
    then have "length (drop (step s) s) < length s" using step_pos [OF False] by simp
    then have "concat (chop step (drop (step s) s)) = drop (step s) s" using 1 by blast
    then show ?thesis using chop_step [OF False] by simp
  qed simp
qed

lemma chop_ne: "p \<in> set (chop step s) \<Longrightarrow> p \<noteq> []"
proof (induction s rule: length_induct)
  case (1 s)
  then have ne: "s \<noteq> []" by auto
  then have "length (drop (step s) s) < length s" using step_pos [OF ne] by simp
  moreover have "take (step s) s \<noteq> []" using ne step_pos [OF ne] by simp
  ultimately show ?case using 1 chop_step [OF ne] by auto
qed

end

lemma if_le: "(b \<Longrightarrow> x \<le> n) \<Longrightarrow> (\<not> b \<Longrightarrow> y \<le> n) \<Longrightarrow> (if b then x else y) \<le> (n :: nat)"
  by simp

lemma if_pos: "(b \<Longrightarrow> 0 < x) \<Longrightarrow> (\<not> b \<Longrightarrow> 0 < y) \<Longrightarrow> 0 < (if b then x else y :: nat)"
  by simp

lemma contraction_le: "contraction s \<le> length s"
  by (auto simp: contraction_def split: list.splits if_splits)

lemma last_newline_le: "snd (last_newline 0 0 s) \<le> length s"
proof -
  have "snd (last_newline 0 0 s) \<le> run_len is_whitespace s" using last_newline_ok [of 0 0 s] by auto
  then show ?thesis using run_len_le [of is_whitespace s] by simp
qed

lemma runs_le: "k \<le> length s \<Longrightarrow> k + run_len P (drop k s) \<le> length s"
  using run_len_le [of P "drop k s"] by simp

lemma scan_head_le: "scan_head cl r s \<le> length s"
proof (cases s)
  case (Cons c t)
  let ?sym = "symbol_char cl r" and ?k = "if c = SPACE then 1 else 0 :: nat"
  have "?k + run_len ?sym (drop ?k s) \<le> length s" by (rule runs_le) (simp add: Cons)
  then have 1: "?k + run_len ?sym (drop ?k s) + run_len is_newline (drop (?k + run_len ?sym (drop ?k s)) s) \<le> length s"
    by (rule runs_le)
  have 2: "fst (last_newline 0 0 s) \<le> length s" using last_newline_ok [of 0 0 s] run_len_le [of is_whitespace s] by simp
  then have 5: "fst (last_newline 0 0 s) - 1 \<le> length s" by simp
  have 3: "min (number_run r) (run_len (cl_number cl) s) \<le> length s" using run_len_le [of "cl_number cl" s] by simp
  have 4: "1 + run_len (word_char cl r) t \<le> length s" using run_len_le [of "word_char cl r" t] Cons by simp
  show ?thesis unfolding scan_head_def Let_def case_prod_beta
    by (simp only: Cons list.case, fold Cons, intro if_le)
      (use 1 2 5 3 4 Cons contraction_le [of s] last_newline_le [of s] in \<open>simp_all del: run_len_Cons last_newline.simps\<close>)
qed (simp add: scan_head_def)

lemma scan_head_pos: "s \<noteq> [] \<Longrightarrow> 0 < scan_head cl r s"
proof -
  assume "s \<noteq> []"
  then obtain c t where s: "s = c # t" by (cases s) auto
  let ?sym = "symbol_char cl r" and ?k = "if c = SPACE then 1 else 0 :: nat"
  have 1: "0 < ?k + run_len ?sym (drop ?k s) + m" if "if c = SPACE then next_is ?sym t else ?sym c" for m
    using that by (simp add: s split: if_splits)
  have 2: "0 < min (number_run r) (run_len (cl_number cl) s)" if "cl_number cl c"
    using that number_run_pos [of r] by (simp add: s)
  show ?thesis unfolding scan_head_def Let_def case_prod_beta
    by (simp only: s list.case, fold s, intro if_pos) (use 1 2 in \<open>simp_all del: run_len_Cons last_newline.simps\<close>)
qed

interpretation scanned: scan "scan_head cl r" for cl r
  by unfold_locales (simp_all add: scan_head_pos scan_head_le)

lemma gpt2_head_le: "gpt2_head cl s \<le> length s"
proof (cases s)
  case (Cons c t)
  have 1: "1 + run_len P t \<le> length s" for P using run_len_le [of P t] Cons by simp
  have 2: "run_len is_whitespace s \<le> length s" "run_len is_whitespace s - 1 \<le> length s" "1 \<le> length s"
    using run_len_le [of is_whitespace s] Cons by simp_all
  show ?thesis unfolding gpt2_head_def Let_def
    by (simp only: Cons list.case, fold Cons, intro if_le)
      (use 1 2 contraction_le [of s] in \<open>simp_all del: run_len_Cons\<close>)
qed (simp add: gpt2_head_def)

lemma gpt2_head_pos: "s \<noteq> [] \<Longrightarrow> 0 < gpt2_head cl s"
  by (cases s) (simp_all add: gpt2_head_def Let_def)

interpretation gpt2: scan "gpt2_head cl" for cl
  by unfold_locales (simp_all add: gpt2_head_pos gpt2_head_le)

lemma newline_head_le: "newline_head s \<le> length s"
proof -
  have "run_len P s \<le> length s" for P by (rule run_len_le)
  then show ?thesis unfolding newline_head_def by (simp only: le0 split: list.split) simp
qed

interpretation newlines: scan newline_head
  by unfold_locales (simp_all add: newline_head_le, simp add: newline_head_def split: list.splits)

lemma split_rule_tiles: "r \<noteq> WhitespaceRule \<Longrightarrow> concat (split_rule cl r text) = text"
  by (cases r) (simp_all add: split_rule_def scanned.concat_chop gpt2.concat_chop newlines.concat_chop)

lemma split_whitespace_pieces:
  "p \<in> set (split_whitespace s) \<Longrightarrow> p \<noteq> [] \<and> (\<forall>c \<in> set p. \<not> is_whitespace c)"
proof (induction s rule: split_whitespace.induct)
  case (1 s)
  show ?case
  proof (cases "dropWhile is_whitespace s")
    case Nil
    then have "split_whitespace s = []" by (subst split_whitespace.simps) (simp only: list.case)
    then show ?thesis using "1.prems" by simp
  next
    case (Cons c t)
    have "\<not> is_whitespace c" using Cons by (metis hd_dropWhile list.discI list.sel(1))
    have "split_whitespace s =
        (c # takeWhile (\<lambda>d. \<not> is_whitespace d) t) # split_whitespace (dropWhile (\<lambda>d. \<not> is_whitespace d) t)"
      by (subst split_whitespace.simps) (simp only: Cons list.case)
    then consider "p = c # takeWhile (\<lambda>d. \<not> is_whitespace d) t" | "p \<in> set (split_whitespace (dropWhile (\<lambda>d. \<not> is_whitespace d) t))"
      using "1.prems" by (metis set_ConsD)
    then show ?thesis
    proof cases
      case 1
      then show ?thesis using \<open>\<not> is_whitespace c\<close> by (auto dest: set_takeWhileD)
    qed (rule "1.IH" [OF Cons])
  qed
qed

lemma split_rule_ne: "p \<in> set (split_rule cl r text) \<Longrightarrow> p \<noteq> []"
  using scanned.chop_ne [of p cl r "text"] gpt2.chop_ne [of p cl "text"] newlines.chop_ne [of p "text"] split_whitespace_pieces [of p "text"]
  by (cases r) (simp_all add: split_rule_def)

section \<open>Successive matches\<close>

text \<open>The successive matches of a pattern over a text.\<close>

inductive found :: "pattern \<Rightarrow> ustr \<Rightarrow> ustr list \<Rightarrow> bool" for p where
  stop: "found p [] []"
| piece: "s \<noteq> [] \<Longrightarrow> matched p s = Some n \<Longrightarrow> 0 < n \<Longrightarrow> found p (drop n s) ps \<Longrightarrow> found p s (take n s # ps)"

inductive_cases found_NilE: "found p [] ps"
inductive_cases found_ConsE: "found p (c # s) ps"

definition rule_re :: "char_classes \<Rightarrow> PreTokenizer \<Rightarrow> pattern" where
  "rule_re cl r = (if r = JinaV1En then gpt2_re cl else scan_re cl r)"

context scan
begin

lemma found_chop:
  assumes "\<And>s. s \<noteq> [] \<Longrightarrow> matched p s = Some (step s)"
  shows "found p s ps \<longleftrightarrow> ps = chop step s"
proof (induction s arbitrary: ps rule: length_induct)
  case (1 s)
  show ?case
  proof (cases s)
    case Nil
    then show ?thesis by (auto intro: found.stop elim: found_NilE)
  next
    case (Cons c t)
    then have ne: "s \<noteq> []" by simp
    have "length (drop (step s) s) < length s" using step_pos[OF ne] ne by simp
    then have IH: "found p (drop (step s) s) ps' \<longleftrightarrow> ps' = chop step (drop (step s) s)" for ps' using 1 by blast
    show ?thesis
    proof
      assume "found p s ps"
      then obtain n ps' where "ps = take n s # ps'" "matched p s = Some n" "found p (drop n s) ps'"
        unfolding Cons by (auto elim: found_ConsE)
      then show "ps = chop step s" using assms[OF ne] IH unfolding chop_step[OF ne] by simp
    next
      assume "ps = chop step s"
      then show "found p s ps" unfolding chop_step[OF ne]
        by (simp only:) (intro found.piece ne assms step_pos, simp add: IH)
    qed
  qed
qed

end

lemma split_found:
  assumes "classes_ok cl" "r \<notin> {WhitespaceRule, Gemma4Rule}"
  shows "found (rule_re cl r) w ps \<longleftrightarrow> ps = split_rule cl r w"
proof (cases "r = JinaV1En")
  case True
  then show ?thesis using gpt2.found_chop[of "gpt2_re cl" cl] gpt2_head_matched[OF assms(1)]
    by (simp add: rule_re_def split_rule_def)
next
  case False
  then have "split_rule cl r w = chop (scan_head cl r) w" using assms(2) by (cases r) (simp_all add: split_rule_def)
  then show ?thesis using scanned.found_chop[of "scan_re cl r" cl r] scan_head_matched[OF assms(1)] False
    by (simp add: rule_re_def)
qed

end
