(* ===== verification/Tok_Round.thy ===== *)
theory Tok_Round
  imports Tok_Bytes Tok_Trie Tok_Pattern
begin

text \<open>
  Round trips: what the byte-level engine and the byte walk emit decodes to the text they were given, also
  around special tokens.
\<close>

section \<open>Vocabularies\<close>

text \<open>The map that \<open>load\<close> builds: the last token of a spelling wins.\<close>

definition vocab_of :: "'a list \<Rightarrow> 'a \<Rightarrow> nat option" where
  "vocab_of tokens = map_of (rev (zip tokens [0..<length tokens]))"

lemma vocab_of_Some: "vocab_of tokens w = Some i \<Longrightarrow> i < length tokens \<and> tokens ! i = w"
  by (auto simp: vocab_of_def dest!: map_of_SomeD simp: set_zip)

lemma vocab_of_mem: "w \<in> set tokens \<Longrightarrow> \<exists>i. vocab_of tokens w = Some i"
proof -
  assume "w \<in> set tokens"
  then have "w \<in> fst ` set (zip tokens [0..<length tokens])" by (metis length_map map_fst_zip map_nth set_map)
  then have "vocab_of tokens w \<noteq> None" unfolding vocab_of_def by (simp add: map_of_eq_None_iff)
  then show ?thesis by auto
qed

lemma collect_ids_Some: "collect_ids xs = Some ys \<longleftrightarrow> None \<notin> set xs \<and> ys = concat (map the xs)"
proof (induction xs arbitrary: ys)
  case (Cons x xs)
  then show ?case by (cases x; cases "collect_ids xs") auto
qed auto

lemma collect_ids_None: "collect_ids xs = None \<longleftrightarrow> None \<in> set xs"
  by (induction xs) (auto split: option.splits)

lemma collect_ids_ex: "(\<And>x. x \<in> set xs \<Longrightarrow> x \<noteq> None) \<Longrightarrow> \<exists>ys. collect_ids xs = Some ys"
  using collect_ids_None[of xs] by (cases "collect_ids xs") auto

section \<open>Byte-level encoding\<close>

definition token_text :: "'f Tokenizer \<Rightarrow> nat \<Rightarrow> ustr" where
  "token_text tk i = (case token_at tk i of Some token \<Rightarrow> token | None \<Rightarrow> [])"

definition tokens_text :: "'f Tokenizer \<Rightarrow> nat list \<Rightarrow> ustr" where
  "tokens_text tk ids = concat (map (token_text tk) ids)"

lemma tokens_text_simps [simp]:
  "tokens_text tk [] = []"
  "tokens_text tk (i # is) = token_text tk i @ tokens_text tk is"
  "tokens_text tk (is @ js) = tokens_text tk is @ tokens_text tk js"
  by (simp_all add: tokens_text_def)

lemma token_text_of: "vocab_of (tk_tokens tk) w = Some i \<Longrightarrow> token_text tk i = w"
  using vocab_of_Some[of "tk_tokens tk" w i] by (simp add: token_text_def token_at_def)

lemma token_text_vocab: "tk_vocab tk = vocab_of (tk_tokens tk) \<Longrightarrow> tk_vocab tk w = Some i \<Longrightarrow> token_text tk i = w"
  using vocab_of_Some[of "tk_tokens tk" w i] by (simp add: token_text_def token_at_def)

text \<open>Where every part spells its piece, the whole spells the text.\<close>

lemma collect_ids_text:
  assumes "collect_ids (map f xs) = Some ids" "\<And>x js. x \<in> set xs \<Longrightarrow> f x = Some js \<Longrightarrow> tokens_text tk js = g x"
  shows "tokens_text tk ids = concat (map g xs)"
  using assms
proof (induction xs arbitrary: ids)
  case (Cons x xs)
  then show ?case by (auto split: option.splits)
qed simp

lemma byte_fallback_text:
  "tk_vocab tk = vocab_of (tk_tokens tk) \<Longrightarrow> byte_fallback tk piece = Some ids \<Longrightarrow> tokens_text tk ids = piece"
  unfolding byte_fallback_def
  by (drule collect_ids_text[of _ piece ids tk "\<lambda>c. [c]"]) (auto dest: token_text_of)

lemma bpe_encode_text:
  assumes "tk_vocab tk = vocab_of (tk_tokens tk)" "bpe_encode tk w = Some ids"
  shows "tokens_text tk ids = w"
proof -
  have "tokens_text tk ids = concat (map (\<lambda>piece. piece) (bpe_merge (tk_merges tk) (singletons w)))"
    using assms(2) unfolding bpe_encode_def
    by (rule collect_ids_text) (auto split: option.splits dest: token_text_vocab[OF assms(1)] byte_fallback_text[OF assms(1)])
  then show ?thesis by simp
qed

lemma encode_piece_text:
  assumes "tk_vocab tk = vocab_of (tk_tokens tk)" "encode_piece tk piece = Some ids"
  shows "tokens_text tk ids = byte_encode (utf8_of piece)"
  using assms(2) unfolding encode_piece_def Let_def
  by (auto split: option.splits if_splits dest: token_text_vocab[OF assms(1)] bpe_encode_text[OF assms(1)])

lemma byte_encode_concat: "concat (map (\<lambda>p. byte_encode (utf8_of p)) ps) = byte_encode (utf8_of (concat ps))"
  by (induction ps) (simp_all add: byte_encode_def utf8_of_def)

lemma encode_bpe_text:
  assumes "tk_vocab tk = vocab_of (tk_tokens tk)" "tk_pre tk = Some r" "r \<noteq> WhitespaceRule" "encode_bpe cl tk w = Some ids"
  shows "tokens_text tk ids = byte_encode (utf8_of w)"
proof -
  have "tokens_text tk ids = concat (map (\<lambda>p. byte_encode (utf8_of p)) (split_rule cl r w))"
    using assms(4) unfolding encode_bpe_def assms(2) option.case
    by (rule collect_ids_text) (rule encode_piece_text[OF assms(1)])
  then show ?thesis using split_rule_tiles[OF assms(3)] by (simp add: byte_encode_concat)
qed

text \<open>The vocabulary has a token for every character of the byte alphabet.\<close>

definition byte_complete :: "'f Tokenizer \<Rightarrow> bool" where
  "byte_complete tk \<longleftrightarrow> (\<forall>n \<in> set [0..<256]. tk_vocab tk (byte_encode [word_of_nat n]) \<noteq> None)"

lemma byte_completeD: "byte_complete tk \<Longrightarrow> tk_vocab tk [the (byte_to_unicode b)] \<noteq> None"
proof -
  assume c: "byte_complete tk"
  have "unat b \<in> set [0..<256]" using unat_byte_bound[of b] unfolding set_upt atLeastLessThan_iff by simp
  then have "tk_vocab tk (byte_encode [word_of_nat (unat b)]) \<noteq> None" using c unfolding byte_complete_def by blast
  then show ?thesis by (simp add: byte_encode_def)
qed

lemma bpe_encode_total:
  assumes "byte_complete tk"
  shows "\<exists>ids. bpe_encode tk (byte_encode bs) = Some ids"
  unfolding bpe_encode_def
proof (rule collect_ids_ex)
  fix x assume "x \<in> set (map (\<lambda>piece. case tk_vocab tk piece of Some i \<Rightarrow> Some [i] | None \<Rightarrow> byte_fallback tk piece)
      (bpe_merge (tk_merges tk) (singletons (byte_encode bs))))"
  then obtain piece where piece: "piece \<in> set (bpe_merge (tk_merges tk) (singletons (byte_encode bs)))"
    "x = (case tk_vocab tk piece of Some i \<Rightarrow> Some [i] | None \<Rightarrow> byte_fallback tk piece)" by auto
  have "set piece \<subseteq> set (concat (bpe_merge (tk_merges tk) (singletons (byte_encode bs))))"
    using piece(1) unfolding set_concat by blast
  then have "set piece \<subseteq> (\<lambda>b. the (byte_to_unicode b)) ` set bs" by (simp add: byte_encode_def)
  then have "\<forall>c \<in> set piece. tk_vocab tk [c] \<noteq> None" using byte_completeD[OF assms] by auto
  then have "byte_fallback tk piece \<noteq> None" unfolding byte_fallback_def collect_ids_None by auto
  then show "x \<noteq> None" using piece(2) by (auto split: option.split)
qed

lemma encode_bpe_total:
  assumes "byte_complete tk" "tk_pre tk = Some r"
  shows "\<exists>ids. encode_bpe cl tk w = Some ids"
  unfolding encode_bpe_def assms(2) option.case
proof (rule collect_ids_ex)
  fix x assume "x \<in> set (map (encode_piece tk) (split_rule cl r w))"
  then show "x \<noteq> None"
    using bpe_encode_total[OF assms(1)] by (fastforce simp: encode_piece_def Let_def split: option.splits)
qed

section \<open>Special tokens\<close>

lemma first_match_Some:
  "first_match grp w = Some (pat, i) \<Longrightarrow> (pat, i) \<in> set grp \<and> take (length pat) w = pat"
  by (induction grp w rule: first_match.induct) (auto split: if_splits)

lemma find_special_Some:
  "find_special by_first pos w = Some (p, i, len) \<Longrightarrow>
     pos \<le> p \<and> (\<exists>c grp pat. by_first c = Some grp \<and> (pat, i) \<in> set grp \<and> len = length pat \<and> take len (drop (p - pos) w) = pat)"
proof (induction by_first pos w rule: find_special.induct)
  case (2 by_first pos c w)
  show ?case
  proof (cases "case by_first c of Some grp \<Rightarrow> first_match grp (c # w) | None \<Rightarrow> None")
    case None
    then have "find_special by_first (pos + 1) w = Some (p, i, len)" using "2.prems" by (simp split: option.splits)
    from "2.IH"[OF None this] obtain k grp pat where g: "pos + 1 \<le> p" "by_first k = Some grp" "(pat, i) \<in> set grp"
      "len = length pat" "take len (drop (p - (pos + 1)) w) = pat" by blast
    have "p - pos = Suc (p - (pos + 1))" using g(1) by simp
    then have "drop (p - pos) (c # w) = drop (p - (pos + 1)) w" by (simp only: drop_Suc_Cons)
    then show ?thesis using g by (metis add_leD1)
  next
    case (Some m)
    then obtain grp where g: "by_first c = Some grp" "first_match grp (c # w) = Some m" by (auto split: option.splits)
    then show ?thesis using "2.prems" first_match_Some[of grp "c # w" "fst m" "snd m"] by (auto split: prod.splits) blast
  qed
qed simp

text \<open>A special token is spelled by its own bytes.\<close>

definition specials_ok :: "'f Tokenizer \<Rightarrow> bool" where
  "specials_ok tk \<longleftrightarrow>
     (\<forall>c grp pat i. tk_special_by_first tk c = Some grp \<longrightarrow> (pat, i) \<in> set grp \<longrightarrow>
        pat \<noteq> [] \<and> token_text tk i = pat \<and> bpe_bytes pat = utf8_of pat)"

lemma encode_loop_round:
  assumes enc: "\<And>u p. \<exists>ids. enc u p = Some ids \<and> bpe_bytes (tokens_text tk ids) = utf8_of u"
    and sp: "\<And>c grp pat i. by_first c = Some grp \<Longrightarrow> (pat, i) \<in> set grp \<Longrightarrow>
      pat \<noteq> [] \<and> token_text tk i = pat \<and> bpe_bytes pat = utf8_of pat"
  shows "length w \<le> fuel \<Longrightarrow> \<exists>ids. encode_loop enc by_first fuel w prev = Some ids \<and> bpe_bytes (tokens_text tk ids) = utf8_of w"
proof (induction fuel arbitrary: w prev)
  case (0 w)
  then show ?case using enc[of "[]" prev] by (simp add: encode_loop.simps)
next
  case (Suc f w prev)
  show ?case
  proof (cases "find_special by_first 0 w")
    case None
    then show ?thesis using enc by (simp add: encode_loop.simps)
  next
    case (Some q)
    obtain p i len where q: "q = (p, i, len)" by (cases q) auto
    obtain c grp pat where g: "by_first c = Some grp" "(pat, i) \<in> set grp" "len = length pat" "take len (drop p w) = pat"
      using find_special_Some[OF Some[unfolded q]] by auto
    have pat: "pat \<noteq> []" "token_text tk i = pat" "bpe_bytes pat = utf8_of pat" using sp[OF g(1,2)] by auto
    have "length (drop (p + len) w) \<le> f" using Suc.prems pat(1) g(3) by (cases pat) auto
    from Suc.IH[OF this] obtain r where r: "encode_loop enc by_first f (drop (p + len) w) True = Some r"
      "bpe_bytes (tokens_text tk r) = utf8_of (drop (p + len) w)" by blast
    obtain h where h: "enc (take p w) prev = Some h" "bpe_bytes (tokens_text tk h) = utf8_of (take p w)" using enc by blast
    have "w = take p w @ pat @ drop (p + len) w"
      using g(4) append_take_drop_id[of p w] append_take_drop_id[of len "drop p w"] by (simp add: add.commute)
    then have "utf8_of w = utf8_of (take p w) @ utf8_of pat @ utf8_of (drop (p + len) w)"
      by (metis utf8_of_def concat_append map_append)
    then show ?thesis
      using Some q r h pat by (subst encode_loop.simps) (cases "p = 0"; simp add: utf8_of_def)
  qed
qed

section \<open>The greedy byte walk\<close>

lemma longest_prefix_some:
  "trie_ok trie \<Longrightarrow> bytes \<noteq> [] \<Longrightarrow> lookup trie [hd bytes] \<noteq> None \<Longrightarrow> \<exists>i k. longest_prefix_bytes trie bytes = Some (i, k)"
  using longest_prefix_None[of trie bytes 1] by (cases "longest_prefix_bytes trie bytes"; cases bytes) auto

lemma rwkv_walk_round:
  assumes spell: "\<And>bs i. lookup trie bs = Some i \<Longrightarrow> piece i = bs" and covers: "\<And>b. lookup trie [b] \<noteq> None"
  shows "concat (map piece (rwkv_walk trie unk bytes)) = bytes"
proof (induction bytes rule: length_induct)
  case (1 bytes)
  show ?case
  proof (cases "longest_prefix_bytes trie bytes")
    case None
    have "bytes = []"
    proof (rule ccontr)
      assume "bytes \<noteq> []"
      then have "take 1 bytes = [hd bytes]" "1 \<le> length bytes" by (cases bytes; simp)+
      then show False using longest_prefix_None[OF None, of 1] covers[of "hd bytes"] by simp
    qed
    then show ?thesis by (simp add: rwkv_walk.simps)
  next
    case (Some p)
    obtain i k where p: "p = (i, k)" by fastforce
    have k: "0 < k" "k \<le> length bytes" "lookup trie (take k bytes) = Some i"
      using longest_prefix_Some(1,2,3)[OF Some[unfolded p]] by auto
    have "bytes \<noteq> []" "length (drop k bytes) < length bytes" using k(1,2) by auto
    then have "concat (map piece (rwkv_walk trie unk bytes)) = take k bytes @ drop k bytes"
      using 1 Some p spell[OF k(3)] by (subst rwkv_walk.simps) simp
    then show ?thesis by simp
  qed
qed

text \<open>The trie that \<open>load\<close> builds for this engine.\<close>

definition rwkv_trie :: "ustr list \<Rightarrow> VocabTrie" where
  "rwkv_trie tokens = build_trie (zip (map unescape_rwkv_token tokens) [0..<length tokens])"

lemma rwkv_lookup: "lookup (rwkv_trie tokens) bs = vocab_of (map unescape_rwkv_token tokens) bs"
  using build_trie_ok by (simp add: rwkv_trie_def vocab_of_def)

end
