(* ===== verification/Tok_Load.thy ===== *)
theory Tok_Load
  imports Tok_Round Gguf
begin

text \<open>
  Loading a tokenizer from the metadata of a GGUF file (\<open>Tokenizer::load\<close> of \<open>src/tokenizer.rs\<close>): the arrays and
  keys that are read, the special tokens, and what each engine demands of the file. A refusal is \<open>Done (Err e)\<close>,
  a failed assertion of a getter \<open>Panicked\<close>. The reading of the bits of a 32-bit float is the parameter \<open>bits\<close>,
  the arithmetic of scores the parameter \<open>N\<close>. The strings of the file are those that the reader decoded.
\<close>

unbundle bit_operations_syntax

section \<open>Results\<close>

type_synonym 'a loaded = "(tok_error, 'a) res outcome"

definition lbind :: "'a loaded \<Rightarrow> ('a \<Rightarrow> 'b loaded) \<Rightarrow> 'b loaded" where
  "lbind x f = obind x (\<lambda>r. case r of Err e \<Rightarrow> Done (Err e) | Ok a \<Rightarrow> f a)"

definition demand :: "bool \<Rightarrow> tok_error \<Rightarrow> 'a loaded \<Rightarrow> 'a loaded" where
  "demand b e x = (if b then x else Done (Err e))"

definition fine :: "'a outcome \<Rightarrow> 'a loaded" where
  "fine x = obind x (\<lambda>a. Done (Ok a))"

section \<open>Getters\<close>

definition gguf_text :: "byte list \<Rightarrow> ustr" where
  "gguf_text bs = lossy_text bs"

fun get_all :: "(nat \<Rightarrow> 'a outcome) \<Rightarrow> nat list \<Rightarrow> 'a list outcome" where
  "get_all get [] = Done []"
| "get_all get (i # is) = obind (get i) (\<lambda>a. obind (get_all get is) (\<lambda>as. Done (a # as)))"

definition kv_values :: "(GgufKv \<Rightarrow> nat \<Rightarrow> 'a outcome) \<Rightarrow> GgufKv \<Rightarrow> 'a list outcome" where
  "kv_values get kv = obind (get_ne kv) (\<lambda>n. get_all (get kv) [0..<n])"

text \<open>The elements of every array of the name, one array after the other.\<close>

fun read_arrays :: "(GgufKv \<Rightarrow> nat \<Rightarrow> 'a outcome) \<Rightarrow> string \<Rightarrow> GgufKv list \<Rightarrow> 'a list list outcome" where
  "read_arrays get name [] = Done []"
| "read_arrays get name (kv # kvs) =
     (if kv_key kv = ascii name \<and> kv_is_array kv
      then obind (kv_values get kv) (\<lambda>xs. obind (read_arrays get name kvs) (\<lambda>rest. Done (xs # rest)))
      else read_arrays get name kvs)"

definition read_array :: "(GgufKv \<Rightarrow> nat \<Rightarrow> 'a outcome) \<Rightarrow> string \<Rightarrow> GgufKv list \<Rightarrow> 'a list outcome" where
  "read_array get name kvs = obind (read_arrays get name kvs) (\<lambda>xss. Done (concat xss))"

definition get_gguf_str :: "GgufKv list \<Rightarrow> string \<Rightarrow> ustr option outcome" where
  "get_gguf_str kvs name =
     (case find (\<lambda>kv. kv_key kv = ascii name \<and> kv_type kv = StringT) kvs of
        None \<Rightarrow> Done None
      | Some kv \<Rightarrow> obind (get_val_str kv 0) (\<lambda>bs. Done (Some (gguf_text bs))))"

definition get_gguf_bool :: "GgufKv list \<Rightarrow> string \<Rightarrow> bool option outcome" where
  "get_gguf_bool kvs name =
     (case find (\<lambda>kv. kv_key kv = ascii name \<and> kv_type kv = BoolT \<and> \<not> kv_is_array kv) kvs of
        None \<Rightarrow> Done None
      | Some kv \<Rightarrow> obind (get_val_bool kv 0) (\<lambda>b. Done (Some b)))"

definition get_gguf_bytes :: "GgufKv list \<Rightarrow> string \<Rightarrow> byte list option outcome" where
  "get_gguf_bytes kvs name =
     (case find (\<lambda>kv. kv_key kv = ascii name \<and> kv_is_array kv \<and> kv_type kv \<in> {Int8, Uint8}) kvs of
        None \<Rightarrow> Done None
      | Some kv \<Rightarrow>
          obind (kv_values (\<lambda>kv i. if kv_type kv = Int8 then obind (get_val_i8 kv i) (\<lambda>v. Done (word_of_int v))
                               else obind (get_val_u8 kv i) (\<lambda>v. Done (word_of_nat v))) kv)
            (\<lambda>bs. Done (Some bs)))"

text \<open>A cast to 32 bits wraps.\<close>

fun get_gguf_u32 :: "GgufKv list \<Rightarrow> string \<Rightarrow> nat option outcome" where
  "get_gguf_u32 [] name = Done None"
| "get_gguf_u32 (kv # kvs) name =
     (if kv_key kv = ascii name then
        (if kv_type kv = Uint32 then obind (get_val_u32 kv 0) (\<lambda>v. Done (Some v))
         else if kv_type kv = Int32 then obind (get_val_i32 kv 0) (\<lambda>v. Done (Some (nat (v mod 2 ^ 32))))
         else if kv_type kv = Int64 then obind (get_val_i64 kv 0) (\<lambda>v. Done (Some (nat (v mod 2 ^ 32))))
         else if kv_type kv = Uint64 then obind (get_val_u64 kv 0) (\<lambda>v. Done (Some (v mod 2 ^ 32)))
         else get_gguf_u32 kvs name)
      else get_gguf_u32 kvs name)"

section \<open>What every engine reads\<close>

text \<open>A merge is split at its first space; without one it is skipped, but it keeps its rank.\<close>

definition merge_entries :: "ustr list \<Rightarrow> ((ustr \<times> ustr) \<times> nat) list" where
  "merge_entries ss =
     List.map_filter (\<lambda>(s, i). if SPACE \<in> set s
       then Some ((takeWhile (\<lambda>c. c \<noteq> SPACE) s, tl (dropWhile (\<lambda>c. c \<noteq> SPACE) s)), i) else None)
       (zip ss [0..<length ss])"

definition SPECIAL_ROLE_KEYS :: "string list" where
  "SPECIAL_ROLE_KEYS =
     [''tokenizer.ggml.bos_token_id'', ''tokenizer.ggml.eos_token_id'', ''tokenizer.ggml.eot_token_id'',
      ''tokenizer.ggml.eom_token_id'', ''tokenizer.ggml.unknown_token_id'', ''tokenizer.ggml.seperator_token_id'',
      ''tokenizer.ggml.padding_token_id'', ''tokenizer.ggml.mask_token_id'', ''tokenizer.ggml.fim_pre_token_id'',
      ''tokenizer.ggml.fim_suf_token_id'', ''tokenizer.ggml.fim_mid_token_id'', ''tokenizer.ggml.fim_pad_token_id'',
      ''tokenizer.ggml.fim_rep_token_id'', ''tokenizer.ggml.fim_sep_token_id'', ''tokenizer.ggml.prefix_token_id'',
      ''tokenizer.ggml.suffix_token_id'', ''tokenizer.ggml.middle_token_id'']"

definition put_special :: "ustr \<Rightarrow> nat \<Rightarrow> (ustr \<times> nat) list \<Rightarrow> (ustr \<times> nat) list" where
  "put_special w i sp = (w, i) # filter (\<lambda>(u, _). u \<noteq> w) sp"

definition typed_specials :: "ustr list \<Rightarrow> int list \<Rightarrow> (ustr \<times> nat) list" where
  "typed_specials tokens types =
     fold (\<lambda>i sp. if (if i < length types then types ! i else 1) \<in> {2, 3, 4} then put_special (tokens ! i) i sp else sp)
       [0..<length tokens] []"

fun role_specials :: "GgufKv list \<Rightarrow> ustr list \<Rightarrow> string list \<Rightarrow> (ustr \<times> nat) list \<Rightarrow> (ustr \<times> nat) list outcome" where
  "role_specials kvs tokens [] sp = Done sp"
| "role_specials kvs tokens (key # keys) sp =
     obind (get_gguf_u32 kvs key) (\<lambda>v.
       role_specials kvs tokens keys
         (case v of Some i \<Rightarrow> if i < length tokens \<and> tokens ! i \<noteq> [] then put_special (tokens ! i) i sp else sp | None \<Rightarrow> sp))"

section \<open>What an engine demands\<close>

definition all_bytes :: "byte list" where
  "all_bytes = map word_of_nat [0..<256]"

text \<open>The \<open><0xXX>\<close> tokens of the type for bytes.\<close>

definition spm_byte_ids :: "ustr list \<Rightarrow> int list \<Rightarrow> byte \<Rightarrow> nat option" where
  "spm_byte_ids tokens types =
     fold (\<lambda>i m. if (if i < length types then types ! i else 1) = 6
                 then (case parse_spm_byte_token (tokens ! i) of Some b \<Rightarrow> m(b \<mapsto> i) | None \<Rightarrow> m) else m)
       [0..<length tokens] (\<lambda>_. None)"

definition missing_bytes :: "(byte \<Rightarrow> nat option) \<Rightarrow> byte list" where
  "missing_bytes m = filter (\<lambda>b. m b = None) all_bytes"

definition complete_bytes :: "(byte \<Rightarrow> nat option) \<Rightarrow> 'a loaded \<Rightarrow> 'a loaded" where
  "complete_bytes m x =
     (case missing_bytes m of [] \<Rightarrow> x | b # bs \<Rightarrow> Done (Err (ByteIncomplete (length (b # bs)) (unat b))))"

text \<open>The bytes without a character in the vocabulary that occur in the text of a token and start none.\<close>

definition unreachable_bytes :: "'f Tokenizer \<Rightarrow> byte list" where
  "unreachable_bytes tk =
     filter (\<lambda>b. \<not> (\<exists>t \<in> set (tk_tokens tk). utf8_of t \<noteq> [] \<and> hd (utf8_of t) = b) \<and> (\<exists>t \<in> set (tk_tokens tk). b \<in> set (utf8_of t)))
       (filter (\<lambda>b. tk_vocab tk [the (byte_to_unicode b)] = None) all_bytes)"

text \<open>The ids and the spellings of the marked k-mers, and the tokens without their mark.\<close>

definition strip_marker :: "ustr \<Rightarrow> ustr option" where
  "strip_marker t = (if t \<noteq> [] \<and> [last t] = DNA_KMER_MARKER then Some (butlast t) else None)"

definition dna_data :: "'f Tokenizer \<Rightarrow> DnaData option" where
  "dna_data tk =
     (case (tk_vocab tk (chars ''<dna>''), tk_vocab tk (chars ''</dna>''), tk_vocab tk (chars ''<oov>'')) of
        (Some b, Some e, Some u) \<Rightarrow>
          Some \<lparr>dna_begin = b, dna_end = e, dna_oov = u,
                dna_kmers = fold (\<lambda>i m. case strip_marker (tk_tokens tk ! i) of Some bare \<Rightarrow> m(bare \<mapsto> i) | None \<Rightarrow> m)
                  [0..<length (tk_tokens tk)] (\<lambda>_. None)\<rparr>
      | _ \<Rightarrow> None)"

definition load_bpe :: "GgufKv list \<Rightarrow> ((ustr \<times> ustr) \<times> nat) list \<Rightarrow> 'f Tokenizer \<Rightarrow> 'f Tokenizer loaded" where
  "load_bpe kvs merges tk =
     lbind (fine (get_gguf_str kvs ''tokenizer.ggml.pre'')) (\<lambda>v.
     lbind (Done (pre_from_gguf v)) (\<lambda>pre.
     demand (merges \<noteq> []) NoMerges
       (case unreachable_bytes tk of
          b # bs \<Rightarrow> Done (Err (ByteIncomplete (length (b # bs)) (unat b)))
        | [] \<Rightarrow>
            (let dna = (if tk_model tk = HybridDna then dna_data tk else None);
                 tokens = (case dna of
                             None \<Rightarrow> tk_tokens tk
                           | Some _ \<Rightarrow> map (\<lambda>t. case strip_marker t of Some bare \<Rightarrow> bare | None \<Rightarrow> t) (tk_tokens tk))
             in Done (Ok (tk\<lparr>tk_dna := dna, tk_tokens := tokens, tk_ignore_merges := ignores_merges pre, tk_pre := Some pre\<rparr>))))))"

definition all_zero :: "'f flt \<Rightarrow> 'f list \<Rightarrow> bool" where
  "all_zero N xs \<longleftrightarrow> (\<forall>x \<in> set xs. n_eq N x (n_nat N 0))"

definition load_spm :: "'f flt \<Rightarrow> GgufKv list \<Rightarrow> 'f Tokenizer \<Rightarrow> 'f Tokenizer loaded" where
  "load_spm N kvs tk =
     demand (\<not> all_zero N (tk_scores tk)) (NoScores (length (tk_scores tk)) (length (tk_tokens tk)))
       (let m = spm_byte_ids (tk_tokens tk) (tk_types tk) in
        complete_bytes m
          (lbind (fine (get_gguf_bool kvs ''tokenizer.ggml.add_space_prefix'')) (\<lambda>b.
             Done (Ok (tk\<lparr>tk_byte_ids := m, tk_add_space_prefix := (case b of Some x \<Rightarrow> x | None \<Rightarrow> True)\<rparr>)))))"

definition unknown_id :: "GgufKv list \<Rightarrow> nat option outcome" where
  "unknown_id kvs = get_gguf_u32 kvs ''tokenizer.ggml.unknown_token_id''"

definition load_rwkv :: "GgufKv list \<Rightarrow> 'f Tokenizer \<Rightarrow> 'f Tokenizer loaded" where
  "load_rwkv kvs tk =
     (let n = length (tk_tokens tk);
          trie = fold (\<lambda>i t. insert_bytes t (unescape_rwkv_token (tk_tokens tk ! i)) i) [0..<n] [];
          missing = filter (\<lambda>b. \<not> starts_with_byte trie b) all_bytes
      in lbind (fine (unknown_id kvs)) (\<lambda>u.
           case u of
             Some i \<Rightarrow> demand (i < n) (UnknownOutOfRange i n)
                         (Done (Ok (tk\<lparr>tk_unk := i, tk_ugm := (tk_ugm tk)\<lparr>ug_trie := trie\<rparr>\<rparr>)))
           | None \<Rightarrow> demand (missing = []) (ByteIncomplete (length missing) (unat (hd missing)))
                       (Done (Ok (tk\<lparr>tk_unk := 0, tk_ugm := (tk_ugm tk)\<lparr>ug_trie := trie\<rparr>\<rparr>)))))"

definition load_plamo2 :: "'f Tokenizer \<Rightarrow> 'f Tokenizer loaded" where
  "load_plamo2 tk =
     (let n = length (tk_tokens tk) in
      demand (length (tk_scores tk) = n \<and> tk_scores tk \<noteq> []) (NoScores (length (tk_scores tk)) n)
        (let m = spm_byte_ids (tk_tokens tk) (tk_types tk);
             trie = fold (\<lambda>i t. if type_at tk i = 6 then t else insert_bytes t (utf8_of (tk_tokens tk ! i)) i) [0..<n] []
         in complete_bytes m (Done (Ok (tk\<lparr>tk_byte_ids := m, tk_ugm := (tk_ugm tk)\<lparr>ug_trie := trie\<rparr>\<rparr>)))))"

definition load_gemma4 :: "((ustr \<times> ustr) \<times> nat) list \<Rightarrow> 'f Tokenizer \<Rightarrow> 'f Tokenizer loaded" where
  "load_gemma4 merges tk =
     demand (merges \<noteq> []) NoMerges
       (let m = spm_byte_ids (tk_tokens tk) (tk_types tk) in
        complete_bytes m (Done (Ok (tk\<lparr>tk_byte_ids := m, tk_pre := Some Gemma4Rule\<rparr>))))"

text \<open>\<open>f32::MAX\<close>\<close>

definition f_max :: "'f flt \<Rightarrow> 'f" where
  "f_max N = n_lit N 340282346638528859811704183484516925440 0"

definition ugm_min_score :: "'f flt \<Rightarrow> 'f Tokenizer \<Rightarrow> 'f" where
  "ugm_min_score N tk =
     (let m = fold (\<lambda>i m. if type_at tk i = 1
                        then n_min N m (if i < length (tk_scores tk) then tk_scores tk ! i else n_nat N 0) else m)
                [0..<length (tk_tokens tk)] (f_max N)
      in if n_eq N m (f_max N) then n_nat N 0 else m)"

fun xcda_words :: "byte list \<Rightarrow> 32 word list" where
  "xcda_words (a # b # c # d # bs) = word_of_nat (le_nat [a, b, c, d]) # xcda_words bs"
| "xcda_words _ = []"

text \<open>The precompiled charsmap: the size of the table, the table, and the replacements.\<close>

definition load_charsmap :: "byte list \<Rightarrow> 'f UgmData \<Rightarrow> 'f UgmData loaded" where
  "load_charsmap bytes ug =
     demand (4 \<le> length bytes) CharsmapShort
       (let blob = le_nat (take 4 bytes) in
        demand (4 + blob \<le> length bytes \<and> blob mod 4 = 0) (CharsmapBlob blob (length bytes))
          (Done (Ok (ug\<lparr>ug_xcda := xcda_words (take blob (drop 4 bytes)), ug_replacements := drop (4 + blob) bytes\<rparr>))))"

definition load_ugm :: "'f flt \<Rightarrow> GgufKv list \<Rightarrow> 'f Tokenizer \<Rightarrow> 'f Tokenizer loaded" where
  "load_ugm N kvs tk =
     (let n = length (tk_tokens tk) in
      demand (\<not> all_zero N (tk_scores tk)) (NoScores (length (tk_scores tk)) n)
        (lbind (fine (unknown_id kvs)) (\<lambda>u.
           case u of
             None \<Rightarrow> Done (Err NoUnknown)
           | Some unk \<Rightarrow>
               demand (unk < n) (UnknownOutOfRange unk n)
                 (let trie = fold (\<lambda>i t. if type_at tk i \<in> {1, 4, 5} then trie_insert t (tk_tokens tk ! i) i else t) [0..<n] [];
                      user = fold (\<lambda>i t. if type_at tk i = 4 then trie_insert t (tk_tokens tk ! i) i else t) [0..<n] [];
                      ug = (tk_ugm tk)\<lparr>ug_trie := trie, ug_user_defined := user,
                             ug_unknown_score := n_sub N (ugm_min_score N tk) (n_nat N 10)\<rparr>
                  in lbind (fine (get_gguf_bytes kvs ''tokenizer.ggml.precompiled_charsmap'')) (\<lambda>cm.
                     lbind (case cm of Some bytes \<Rightarrow> load_charsmap bytes ug | None \<Rightarrow> Done (Ok ug)) (\<lambda>ug'.
                     lbind (fine (get_gguf_bool kvs ''tokenizer.ggml.add_space_prefix'')) (\<lambda>sp.
                     lbind (fine (get_gguf_bool kvs ''tokenizer.ggml.remove_extra_whitespaces'')) (\<lambda>rw.
                       Done (Ok (tk\<lparr>tk_unk := unk, tk_ugm := ug', tk_add_space_prefix := (sp = Some True),
                                   tk_remove_extra_whitespaces := (rw = Some True)\<rparr>))))))))))"

definition load_bert :: "GgufKv list \<Rightarrow> 'f Tokenizer \<Rightarrow> 'f Tokenizer loaded" where
  "load_bert kvs tk =
     (let n = length (tk_tokens tk) in
      lbind (fine (get_gguf_bool kvs ''tokenizer.ggml.normalizer.lowercase'')) (\<lambda>lo.
      lbind (fine (get_gguf_bool kvs ''tokenizer.ggml.normalizer.strip_accents'')) (\<lambda>st.
        (let lowercase = (case lo of Some b \<Rightarrow> b | None \<Rightarrow> True);
             strip = (case st of Some b \<Rightarrow> b | None \<Rightarrow> lowercase) in
         lbind (fine (unknown_id kvs)) (\<lambda>u.
           case u of
             None \<Rightarrow> Done (Err NoUnknown)
           | Some unk \<Rightarrow>
               demand (unk < n) (UnknownOutOfRange unk n)
                 (Done (Ok (tk\<lparr>tk_normalizer := \<lparr>nz_lowercase = lowercase, nz_strip_accents = strip\<rparr>,
                    tk_unk := unk, tk_max_token_len := fold max (map byte_len (tk_tokens tk)) 0\<rparr>))))))))"

definition load_none :: "'f flt \<Rightarrow> GgufKv list \<Rightarrow> 'f Tokenizer \<Rightarrow> 'f Tokenizer loaded" where
  "load_none N kvs tk =
     lbind (fine (get_gguf_u32 kvs ''tokenizer.ggml.vocab_size'')) (\<lambda>v.
       (let n = (case v of Some k \<Rightarrow> k | None \<Rightarrow> 0) in
        Done (Ok (tk\<lparr>tk_tokens := replicate n [], tk_scores := replicate n (n_nat N 0), tk_types := replicate n 0\<rparr>))))"

definition load_engine :: "'f flt \<Rightarrow> GgufKv list \<Rightarrow> ((ustr \<times> ustr) \<times> nat) list \<Rightarrow> 'f Tokenizer \<Rightarrow> 'f Tokenizer loaded" where
  "load_engine N kvs merges tk =
     (case tk_model tk of
        NoModel \<Rightarrow> load_none N kvs tk
      | Gpt2 \<Rightarrow> load_bpe kvs merges tk
      | HybridDna \<Rightarrow> load_bpe kvs merges tk
      | WhitespaceModel \<Rightarrow> load_bpe kvs merges tk
      | Spm \<Rightarrow> load_spm N kvs tk
      | Rwkv \<Rightarrow> load_rwkv kvs tk
      | Plamo2 \<Rightarrow> load_plamo2 tk
      | Gemma4 \<Rightarrow> load_gemma4 merges tk
      | Ugm \<Rightarrow> load_ugm N kvs tk
      | Bert \<Rightarrow> load_bert kvs tk)"

section \<open>The loader\<close>

definition empty_ugm :: "'f flt \<Rightarrow> 'f UgmData" where
  "empty_ugm N = \<lparr>ug_trie = [], ug_user_defined = [], ug_unknown_score = n_nat N 0, ug_xcda = [], ug_replacements = []\<rparr>"

text \<open>What the loader has before it turns to the engine.\<close>

definition base_tokenizer :: "'f flt \<Rightarrow> ustr list \<Rightarrow> 'f list \<Rightarrow> int list \<Rightarrow> ((ustr \<times> ustr) \<times> nat) list \<Rightarrow> (ustr \<times> nat) list
    \<Rightarrow> TokenizerModel \<Rightarrow> nat \<Rightarrow> nat \<Rightarrow> 'f Tokenizer" where
  "base_tokenizer N tokens scores types merges specials model bos eos =
     \<lparr>tk_tokens = tokens, tk_scores = (if scores = [] then replicate (length tokens) (n_nat N 0) else scores),
      tk_types = (if types = [] then replicate (length tokens) 1 else types),
      tk_vocab = vocab_of tokens, tk_merges = map_of (rev merges), tk_model = model, tk_pre = None,
      tk_add_space_prefix = False, tk_byte_ids = (\<lambda>_. None),
      tk_normalizer = \<lparr>nz_lowercase = True, nz_strip_accents = True\<rparr>, tk_max_token_len = 0, tk_unk = 0,
      tk_ugm = empty_ugm N, tk_ignore_merges = False, tk_dna = None, tk_remove_extra_whitespaces = False,
      tk_special_by_first = special_index specials, tk_bos = bos, tk_eos = eos\<rparr>"

definition load :: "'f flt \<Rightarrow> (nat \<Rightarrow> 'f) \<Rightarrow> GgufContext \<Rightarrow> 'f Tokenizer loaded" where
  "load N bits gguf =
     (let kvs = gc_kv gguf in
      lbind (fine (read_array get_val_str ''tokenizer.ggml.tokens'' kvs)) (\<lambda>raw.
      lbind (fine (read_array get_val_f32 ''tokenizer.ggml.scores'' kvs)) (\<lambda>scores.
      lbind (fine (read_array get_val_i32 ''tokenizer.ggml.token_type'' kvs)) (\<lambda>types.
      lbind (fine (read_arrays get_val_str ''tokenizer.ggml.merges'' kvs)) (\<lambda>mss.
        (let tokens = map gguf_text raw; merges = concat (map (\<lambda>ms. merge_entries (map gguf_text ms)) mss);
             types' = (if types = [] then replicate (length tokens) 1 else types) in
         lbind (fine (role_specials kvs tokens SPECIAL_ROLE_KEYS (typed_specials tokens types'))) (\<lambda>specials.
         lbind (fine (get_gguf_u32 kvs ''tokenizer.ggml.bos_token_id'')) (\<lambda>bos.
         lbind (fine (get_gguf_u32 kvs ''tokenizer.ggml.eos_token_id'')) (\<lambda>eos.
         lbind (fine (get_gguf_str kvs ''tokenizer.ggml.model'')) (\<lambda>v.
         lbind (Done (model_from_gguf v)) (\<lambda>model.
           load_engine N kvs merges
             (base_tokenizer N tokens (map bits scores) types merges specials model
               (case bos of Some i \<Rightarrow> i | None \<Rightarrow> 0) (case eos of Some i \<Rightarrow> i | None \<Rightarrow> 0)))))))))))))"

section \<open>What an accepted file guarantees\<close>

lemma lbind_Ok [simp]: "lbind (Done (Ok a)) f = f a" "lbind (Done (Err e)) f = Done (Err e)"
  by (simp_all add: lbind_def)

lemma fine_simp [simp]: "fine (Done a) = Done (Ok a)"
  by (simp add: fine_def)

lemma lbind_Done: "lbind x f = Done (Ok b) \<longleftrightarrow> (\<exists>a. x = Done (Ok a) \<and> f a = Done (Ok b))"
  by (cases x) (auto simp: lbind_def split: sum.splits)

lemma fine_Done: "fine x = Done (Ok a) \<longleftrightarrow> x = Done a"
  by (cases x) (auto simp: fine_def)

lemma demand_Done: "demand c e x = Done (Ok a) \<longleftrightarrow> c \<and> x = Done (Ok a)"
  by (auto simp: demand_def)

lemmas loaded = lbind_Done fine_Done demand_Done

lemma mem_all_bytes: "b \<in> set all_bytes"
proof -
  have "unat b \<in> set [0..<256]" using unat_byte_bound[of b] unfolding set_upt atLeastLessThan_iff by simp
  then have "word_of_nat (unat b) \<in> set all_bytes" unfolding all_bytes_def set_map by (rule imageI)
  then show ?thesis by simp
qed

lemma complete_bytes_Done: "complete_bytes m x = Done (Ok a) \<longleftrightarrow> (\<forall>b. m b \<noteq> None) \<and> x = Done (Ok a)"
proof -
  have "missing_bytes m = [] \<longleftrightarrow> (\<forall>b. m b \<noteq> None)"
    using mem_all_bytes by (auto simp: missing_bytes_def filter_empty_conv)
  then show ?thesis by (auto simp: complete_bytes_def split: list.splits)
qed

text \<open>A byte id names a token of the type for bytes that spells the byte.\<close>

lemma spm_byte_ids_Some:
  "spm_byte_ids tokens types b = Some i \<Longrightarrow>
     i < length tokens \<and> (if i < length types then types ! i else 1) = 6 \<and> parse_spm_byte_token (tokens ! i) = Some b"
proof -
  let ?f = "\<lambda>i m. if (if i < length types then types ! i else 1) = 6
                 then (case parse_spm_byte_token (tokens ! i) of Some b \<Rightarrow> m(b \<mapsto> i) | None \<Rightarrow> m) else m"
  have "\<forall>b i. fold ?f ks m b = Some i \<longrightarrow> m b = Some i
     \<or> i \<in> set ks \<and> (if i < length types then types ! i else 1) = 6 \<and> parse_spm_byte_token (tokens ! i) = Some b" for ks m
  proof (induction ks arbitrary: m)
    case (Cons i ks)
    show ?case using Cons.IH[of "?f i m"] by (auto split: if_splits option.splits)
  qed simp
  then show "spm_byte_ids tokens types b = Some i \<Longrightarrow>
     i < length tokens \<and> (if i < length types then types ! i else 1) = 6 \<and> parse_spm_byte_token (tokens ! i) = Some b"
    unfolding spm_byte_ids_def by fastforce
qed

definition byte_ready :: "'f Tokenizer \<Rightarrow> bool" where
  "byte_ready tk \<longleftrightarrow> (\<forall>b. \<exists>i. tk_byte_ids tk b = Some i \<and> i < length (tk_tokens tk) \<and> spm_piece tk i = [b])"

lemma byte_ids_ready:
  assumes "tk_byte_ids tk = spm_byte_ids (tk_tokens tk) (tk_types tk)" "\<forall>b. tk_byte_ids tk b \<noteq> None"
  shows "byte_ready tk"
  unfolding byte_ready_def
proof
  fix b
  obtain i where i: "tk_byte_ids tk b = Some i" using assms(2) by blast
  then have "i < length (tk_tokens tk)" "type_at tk i = 6" "parse_spm_byte_token (tk_tokens tk ! i) = Some b"
    using spm_byte_ids_Some[of "tk_tokens tk" "tk_types tk" b i] assms(1) by (auto simp: type_at_def)
  then show "\<exists>i. tk_byte_ids tk b = Some i \<and> i < length (tk_tokens tk) \<and> spm_piece tk i = [b]"
    using i by (auto simp: spm_piece_def token_at_def)
qed

text \<open>What the engine of a loaded tokenizer needs.\<close>

definition engine_ready :: "'f Tokenizer \<Rightarrow> bool" where
  "engine_ready tk \<longleftrightarrow>
     (tk_model tk \<in> {Spm, Gemma4, Plamo2} \<longrightarrow> byte_ready tk)
     \<and> (tk_model tk \<in> {Ugm, Bert} \<longrightarrow> tk_unk tk < length (tk_tokens tk))
     \<and> (tk_model tk \<in> {Gpt2, HybridDna, WhitespaceModel, Gemma4} \<longrightarrow> tk_pre tk \<noteq> None)
     \<and> (tk_model tk = Rwkv \<longrightarrow> ug_trie (tk_ugm tk) = rwkv_trie (tk_tokens tk))
     \<and> (tk_model tk \<notin> {NoModel, HybridDna} \<longrightarrow> tk_vocab tk = vocab_of (tk_tokens tk))"

lemma fold_rwkv: "fold (\<lambda>i t. insert_bytes t (unescape_rwkv_token (tokens ! i)) i) [0..<length tokens] [] = rwkv_trie tokens"
proof -
  have "zip (map unescape_rwkv_token tokens) [0..<length tokens] = map (\<lambda>i. (unescape_rwkv_token (tokens ! i), i)) [0..<length tokens]"
    by (rule nth_equalityI) simp_all
  then show ?thesis by (simp add: rwkv_trie_def build_trie_def fold_map o_def)
qed

lemma load_bpe_Done:
  assumes "load_bpe kvs merges tk0 = Done (Ok tk)"
  shows "unreachable_bytes tk0 = [] \<and> tk_model tk = tk_model tk0 \<and> tk_pre tk \<noteq> None \<and> tk_vocab tk = tk_vocab tk0
    \<and> (tk_model tk0 \<noteq> HybridDna \<longrightarrow> tk_tokens tk = tk_tokens tk0)"
proof (cases "unreachable_bytes tk0")
  case Nil
  then show ?thesis using assms by (auto simp: load_bpe_def loaded Let_def)
next
  case (Cons b bs)
  then show ?thesis using assms by (auto simp: load_bpe_def loaded)
qed

lemma load_ugm_Done:
  assumes "load_ugm N kvs tk0 = Done (Ok tk)"
  shows "tk_unk tk < length (tk_tokens tk) \<and> tk_model tk = tk_model tk0 \<and> tk_vocab tk = tk_vocab tk0 \<and> tk_tokens tk = tk_tokens tk0"
proof -
  obtain u where u: "unknown_id kvs = Done u"
    using assms unfolding load_ugm_def Let_def loaded by blast
  show ?thesis
  proof (cases u)
    case None
    then show ?thesis using assms u by (simp add: load_ugm_def Let_def demand_def fine_def split: if_splits)
  next
    case (Some unk)
    then show ?thesis using assms unfolding load_ugm_def Let_def u by (clarsimp simp: loaded)
  qed
qed

lemma load_rwkv_Done:
  assumes "load_rwkv kvs tk0 = Done (Ok tk)"
  shows "ug_trie (tk_ugm tk) = rwkv_trie (tk_tokens tk) \<and> tk_model tk = tk_model tk0 \<and> tk_vocab tk = tk_vocab tk0
    \<and> tk_tokens tk = tk_tokens tk0"
proof -
  obtain u where u: "unknown_id kvs = Done u"
    using assms unfolding load_rwkv_def Let_def loaded by blast
  show ?thesis
    using assms unfolding load_rwkv_def Let_def u fold_rwkv by (cases u) (clarsimp simp: loaded fine_def demand_def split: if_splits)+
qed

lemma load_bert_Done:
  assumes "load_bert kvs tk0 = Done (Ok tk)"
  shows "tk_unk tk < length (tk_tokens tk) \<and> tk_model tk = tk_model tk0 \<and> tk_vocab tk = tk_vocab tk0 \<and> tk_tokens tk = tk_tokens tk0"
proof -
  obtain u where u: "unknown_id kvs = Done u"
    using assms unfolding load_bert_def Let_def loaded by blast
  show ?thesis
    using assms unfolding load_bert_def Let_def u by (cases u) (clarsimp simp: loaded)+
qed

lemma load_engine_ok:
  assumes e: "load_engine N kvs merges tk0 = Done (Ok tk)" and v: "tk_vocab tk0 = vocab_of (tk_tokens tk0)"
  shows "tk_model tk = tk_model tk0 \<and> engine_ready tk"
proof (cases "tk_model tk0")
  case Gpt2
  then show ?thesis using e v load_bpe_Done[of kvs merges tk0 tk] by (simp add: load_engine_def engine_ready_def)
next
  case Spm
  then show ?thesis using e v
    by (auto simp: load_engine_def load_spm_def loaded complete_bytes_Done engine_ready_def Let_def intro!: byte_ids_ready)
next
  case Ugm
  then have "load_ugm N kvs tk0 = Done (Ok tk)" using e by (simp add: load_engine_def)
  from load_ugm_Done[OF this] show ?thesis using Ugm v by (auto simp: engine_ready_def)
next
  case Rwkv
  then have "load_rwkv kvs tk0 = Done (Ok tk)" using e by (simp add: load_engine_def)
  from load_rwkv_Done[OF this] show ?thesis using Rwkv v by (auto simp: engine_ready_def)
next
  case WhitespaceModel
  then show ?thesis using e v load_bpe_Done[of kvs merges tk0 tk] by (simp add: load_engine_def engine_ready_def)
next
  case NoModel
  then show ?thesis using e by (auto simp: load_engine_def load_none_def loaded engine_ready_def Let_def)
next
  case HybridDna
  then show ?thesis using e load_bpe_Done[of kvs merges tk0 tk] by (simp add: load_engine_def engine_ready_def)
next
  case Plamo2
  then show ?thesis using e v
    by (auto simp: load_engine_def load_plamo2_def loaded complete_bytes_Done engine_ready_def Let_def intro!: byte_ids_ready)
next
  case Gemma4
  then show ?thesis using e v
    by (auto simp: load_engine_def load_gemma4_def loaded complete_bytes_Done engine_ready_def Let_def intro!: byte_ids_ready)
next
  case Bert
  then have "load_bert kvs tk0 = Done (Ok tk)" using e by (simp add: load_engine_def)
  from load_bert_Done[OF this] show ?thesis using Bert v by (auto simp: engine_ready_def)
qed

lemma load_ready:
  assumes "load N bits gguf = Done (Ok tk)"
  shows "engine_ready tk"
proof -
  obtain merges tokens scores types specials model bos eos where
    "load_engine N (gc_kv gguf) merges (base_tokenizer N tokens scores types merges specials model bos eos) = Done (Ok tk)"
    using assms unfolding load_def Let_def loaded by blast
  then show ?thesis using load_engine_ok by (fastforce simp: base_tokenizer_def)
qed

end
