(* ===== verification/Tok_Stream.thy ===== *)
theory Tok_Stream
  imports Tok_Round
begin

text \<open>
  Facts on the remaining operations: the hold-back of an unfinished character, the greedy longest match of the
  WordPiece engine, and the token sequences that overlap a breaker.
\<close>

unbundle bit_operations_syntax

section \<open>Unfinished characters\<close>

definition lead_width :: "nat \<Rightarrow> nat" where
  "lead_width n = (if n < 0x80 then 1 else if 0xC0 \<le> n \<and> n < 0xE0 then 2 else if 0xE0 \<le> n \<and> n < 0xF0 then 3
     else if 0xF0 \<le> n \<and> n < 0xF8 then 4 else 1)"

lemma and_top:
  assumes "x < (256::nat)" "k \<le> 8"
  shows "x AND push_bit k (mask (8 - k)) = 2 ^ k * (x div 2 ^ k)"
proof -
  have x: "take_bit 8 x = x" using assms(1) by (simp add: take_bit_nat_eq_self)
  have "take_bit 8 x AND push_bit k (mask (8 - k)) = push_bit k (drop_bit k (take_bit 8 x))"
    using assms(2) by (intro bit_eqI) (auto simp: bit_simps)
  then show ?thesis unfolding x by (simp add: push_bit_eq_mult drop_bit_eq_div)
qed

lemma and_lead:
  assumes "x < (256::nat)"
  shows "x AND 0xE0 = 0xC0 \<longleftrightarrow> 0xC0 \<le> x \<and> x < 0xE0" "x AND 0xF0 = 0xE0 \<longleftrightarrow> 0xE0 \<le> x \<and> x < 0xF0"
    "x AND 0xF8 = 0xF0 \<longleftrightarrow> 0xF0 \<le> x \<and> x < 0xF8"
proof -
  have "x AND 0xE0 = 32 * (x div 32)" "x AND 0xF0 = 16 * (x div 16)" "x AND 0xF8 = 8 * (x div 8)"
    using and_top[OF assms, of 5] and_top[OF assms, of 4] and_top[OF assms, of 3]
    by (simp_all add: push_bit_eq_mult mask_eq_exp_minus_1)
  then show "x AND 0xE0 = 0xC0 \<longleftrightarrow> 0xC0 \<le> x \<and> x < 0xE0" "x AND 0xF0 = 0xE0 \<longleftrightarrow> 0xE0 \<le> x \<and> x < 0xF0"
    "x AND 0xF8 = 0xF0 \<longleftrightarrow> 0xF0 \<le> x \<and> x < 0xF8" by auto
qed

lemma announced_width: "lead_len b = lead_width (unat b)"
proof -
  have "b AND m = n \<longleftrightarrow> unat b AND unat m = unat n" for m n :: byte
    by (metis unsigned_and_eq word_eq_iff_unsigned)
  then show ?thesis
    using and_lead[OF unat_byte_bound, of b] by (simp add: lead_len_def lead_width_def word_less_nat_alt)
qed

lemma announced_char:
  assumes "scalar c"
  shows "\<exists>b bs. encode_utf8 c = b # bs \<and> lead_len b = length (encode_utf8 c)"
proof -
  obtain b bs where e: "encode_utf8 c = b # bs" by (cases "encode_utf8 c") auto
  have u: "utf8_units c = unat b # map unat bs" using map_unat_encode[OF assms] e by simp
  have "lead_width (hd (utf8_units c)) = length (utf8_units c)"
    using assms by (auto simp: utf8_units_def lead_width_def scalar_def)
  then show ?thesis using u e by (simp add: announced_width)
qed

lemma prefix_loop_text:
  "scalars v \<Longrightarrow> prefix p (a @ utf8_of v) \<Longrightarrow> length a \<le> length p \<Longrightarrow>
     \<exists>u. prefix u v \<and> take (prefix_loop p (length a)) p = a @ utf8_of u
       \<and> (\<forall>t. prefix t v \<longrightarrow> length (a @ utf8_of t) \<le> length p \<longrightarrow> length t \<le> length u)"
proof (induction v arbitrary: a)
  case Nil
  then have "p = a" by (metis append_Nil2 prefix_length_le prefix_order.eq_iff prefix_def take_all_iff append_eq_conv_conj utf8_of_simps(1))
  then show ?case by (intro exI[of _ "[]"]) (subst prefix_loop.simps, simp)
next
  case (Cons c v)
  obtain b bs where e: "encode_utf8 c = b # bs" "lead_len b = length (encode_utf8 c)" using announced_char[of c] Cons.prems(1) by fastforce
  obtain q where q: "a @ utf8_of (c # v) = p @ q" using Cons.prems(2) by (auto simp: prefix_def)
  have pa: "p = a @ drop (length a) p" using q Cons.prems(3) by (metis append_eq_append_conv_if append_take_drop_id)
  show ?case
  proof (cases "length p < length a + length (encode_utf8 c)")
    case True
    have stop: "prefix_loop p (length a) = length a"
    proof (cases "length a < length p")
      case l: True
      have "p ! length a = (a @ utf8_of (c # v)) ! length a" using q l by (simp add: nth_append)
      then have "p ! length a = b" using e(1) by (simp add: utf8_of_def)
      then show ?thesis using True e(2) l by (subst prefix_loop.simps) simp
    qed (subst prefix_loop.simps, simp)
    have "take (length a) p = a" by (subst pa) simp
    moreover have "length t \<le> 0" if "prefix t (c # v)" "length (a @ utf8_of t) \<le> length p" for t
      using that True by (cases t) (auto simp: utf8_of_def)
    ultimately show ?thesis unfolding stop by (intro exI[of _ "[]"]) (auto simp: utf8_of_def)
  next
    case False
    then have l: "length a < length p" using e(1) by simp
    have "p ! length a = (a @ utf8_of (c # v)) ! length a" using q l by (simp add: nth_append)
    then have "p ! length a = b" using e(1) by (simp add: utf8_of_def)
    then have go: "prefix_loop p (length a) = prefix_loop p (length (a @ encode_utf8 c))"
      using False e(2) l by (subst prefix_loop.simps) simp
    obtain u where u: "prefix u v" "take (prefix_loop p (length (a @ encode_utf8 c))) p = (a @ encode_utf8 c) @ utf8_of u"
      "\<forall>t. prefix t v \<longrightarrow> length ((a @ encode_utf8 c) @ utf8_of t) \<le> length p \<longrightarrow> length t \<le> length u"
      using Cons.IH[of "a @ encode_utf8 c"] Cons.prems False by (auto simp: utf8_of_def)
    have "length t \<le> length (c # u)" if t: "prefix t (c # v)" "length (a @ utf8_of t) \<le> length p" for t
      using u(3) t by (cases t) (auto simp: utf8_of_def)
    then show ?thesis using u(1,2) unfolding go by (intro exI[of _ "c # u"]) (auto simp: utf8_of_def)
  qed
qed

section \<open>WordPiece\<close>

text \<open>Greedy longest match, without a bound on the length of an entry.\<close>

inductive greedy :: "(ustr \<Rightarrow> nat option) \<Rightarrow> ustr \<Rightarrow> nat list \<Rightarrow> bool" for vocab where
  finish: "greedy vocab [] []"
| take: "0 < j \<Longrightarrow> j \<le> length w \<Longrightarrow> vocab (take j w) = Some i \<Longrightarrow> (\<And>l. j < l \<Longrightarrow> l \<le> length w \<Longrightarrow> vocab (take l w) = None)
    \<Longrightarrow> greedy vocab (drop j w) ids \<Longrightarrow> greedy vocab w (i # ids)"

inductive_cases greedy_ConsE: "greedy vocab w (i # ids)"
inductive_cases greedy_NilE: "greedy vocab w []"

text \<open>No entry is longer than the bound.\<close>

definition bounded :: "(ustr \<Rightarrow> nat option) \<Rightarrow> nat \<Rightarrow> bool" where
  "bounded vocab bound \<longleftrightarrow> (\<forall>w. vocab w \<noteq> None \<longrightarrow> length (utf8_of w) \<le> bound)"

lemma wpm_match_Some:
  "bounded vocab bound \<Longrightarrow> wpm_match vocab bound w k = Some (i, j) \<longleftrightarrow>
     0 < j \<and> j \<le> k \<and> vocab (take j w) = Some i \<and> (\<forall>l. j < l \<longrightarrow> l \<le> k \<longrightarrow> vocab (take l w) = None)"
proof (induction k)
  case (Suc k)
  have b: "(if length (utf8_of (take (Suc k) w)) \<le> bound then vocab (take (Suc k) w) else None) = vocab (take (Suc k) w)"
    using Suc.prems unfolding bounded_def by (metis (full_types))
  show ?case using Suc unfolding wpm_match.simps b by (cases "vocab (take (Suc k) w)") (auto simp: le_Suc_eq dest: spec[of _ "Suc k"])
qed auto

lemma wpm_match_None:
  "bounded vocab bound \<Longrightarrow> wpm_match vocab bound w k = None \<longleftrightarrow> (\<forall>j. 0 < j \<longrightarrow> j \<le> k \<longrightarrow> vocab (take j w) = None)"
proof (induction k)
  case (Suc k)
  have b: "(if length (utf8_of (take (Suc k) w)) \<le> bound then vocab (take (Suc k) w) else None) = vocab (take (Suc k) w)"
    using Suc.prems unfolding bounded_def by (metis (full_types))
  show ?case using Suc unfolding wpm_match.simps b by (cases "vocab (take (Suc k) w)") (auto simp: le_Suc_eq)
qed auto

lemma wpm_word_greedy:
  assumes b: "bounded vocab bound"
  shows "wpm_word vocab bound w = Some ids \<longleftrightarrow> greedy vocab w ids"
proof (induction "length w" arbitrary: w ids rule: less_induct)
  case less
  show ?case
  proof (cases "w = []")
    case True
    then show ?thesis by (subst wpm_word.simps) (auto intro: greedy.finish elim: greedy.cases)
  next
    case ne: False
    show ?thesis
    proof (cases "wpm_match vocab bound w (length w)")
      case None
      then show ?thesis using ne wpm_match_None[OF b, of w "length w"] by (subst wpm_word.simps) (auto elim: greedy.cases)
    next
      case (Some p)
      obtain i j where p: "p = (i, j)" by fastforce
      have m: "0 < j" "j \<le> length w" "vocab (take j w) = Some i" "\<And>l. j < l \<Longrightarrow> l \<le> length w \<Longrightarrow> vocab (take l w) = None"
        using Some p wpm_match_Some[OF b, of w "length w" i j] by auto
      have IH: "wpm_word vocab bound (drop j w) = Some js \<longleftrightarrow> greedy vocab (drop j w) js" for js
        using less[of "drop j w" js] m(1) ne by simp
      have eq: "wpm_word vocab bound w = map_option (\<lambda>out. i # out) (wpm_word vocab bound (drop j w))"
        using Some p ne by (subst wpm_word.simps) simp
      show ?thesis
      proof
        assume "wpm_word vocab bound w = Some ids"
        then obtain js where "ids = i # js" "greedy vocab (drop j w) js" using eq IH by auto
        then show "greedy vocab w ids" using greedy.take[where vocab = vocab and w = w and j = j, OF m] by blast
      next
        assume g: "greedy vocab w ids"
        then show "wpm_word vocab bound w = Some ids"
        proof cases
          case (take l k js)
          have "l = j" using take m by (metis linorder_neqE_nat option.distinct(1))
          then show ?thesis using take m(3) IH eq by simp
        qed (use ne in simp)
      qed
    qed
  qed
qed

lemma greedy_spells: "greedy vocab w ids \<Longrightarrow> (\<And>u i. vocab u = Some i \<Longrightarrow> text_of i = u) \<Longrightarrow> concat (map text_of ids) = w"
  by (induction rule: greedy.induct) auto

section \<open>Breakers\<close>

lemma agree_take: "take (agree_len xs ys) xs = take (agree_len xs ys) ys" "agree_len xs ys \<le> length xs" "agree_len xs ys \<le> length ys"
  by (induction xs ys rule: agree_len.induct) auto

lemma agree_greatest: "take k xs = take k ys \<Longrightarrow> k \<le> length xs \<Longrightarrow> k \<le> length ys \<Longrightarrow> k \<le> agree_len xs ys"
proof (induction xs ys arbitrary: k rule: agree_len.induct)
  case (1 x xs y ys)
  then show ?case by (cases k) auto
qed auto

text \<open>The last \<open>k\<close> bytes of the word are the first \<open>k\<close> of the needle.\<close>

definition overhang :: "byte list \<Rightarrow> byte list \<Rightarrow> nat \<Rightarrow> bool" where
  "overhang needle word k \<longleftrightarrow> 0 < k \<and> k \<le> length word \<and> k \<le> length needle \<and> drop (length word - k) word = take k needle"

definition tail_seq :: "(ustr \<Rightarrow> nat list option) \<Rightarrow> byte list \<Rightarrow> nat \<Rightarrow> nat \<Rightarrow> nat list \<Rightarrow> bool" where
  "tail_seq enc needle i k sq \<longleftrightarrow>
     (\<exists>tail ids. from_utf8 (drop k needle) = Some tail \<and> enc tail = Some ids \<and> sq = i # ids
        \<and> length ids \<le> MAX_BREAKER_TAIL_TOKENS)"

text \<open>The sequence of an overhang: the token, and the tokens of the rest of the breaker.\<close>

definition overlap_seq :: "(ustr \<Rightarrow> nat list option) \<Rightarrow> byte list \<Rightarrow> nat \<Rightarrow> byte list \<Rightarrow> nat list \<Rightarrow> bool" where
  "overlap_seq enc needle i word sq \<longleftrightarrow>
     (\<exists>k. overhang needle word k \<and> tail_seq enc needle i k sq)"

lemma occursI: "needle \<noteq> [] \<Longrightarrow> p + length needle \<le> length word \<Longrightarrow> take (length needle) (drop p word) = needle \<Longrightarrow> occurs_in needle word"
  unfolding occurs_in_def by (intro bexI[of _ p]) (cases needle; auto)+

lemma match_overhang:
  assumes "needle \<noteq> []" "\<not> occurs_in needle word" "pos < length word"
  shows "word ! pos = needle ! 0 \<and> (agree_len needle (drop pos word) = length needle \<or> pos + agree_len needle (drop pos word) = length word)
    \<longleftrightarrow> overhang needle word (length word - pos) \<and> agree_len needle (drop pos word) = length word - pos"
proof -
  let ?k = "agree_len needle (drop pos word)"
  note a = agree_take[of needle "drop pos word"]
  have full: "?k \<noteq> length needle"
  proof
    assume k: "?k = length needle"
    then have "take (length needle) (drop pos word) = needle" using a(1) by simp
    moreover have "pos + length needle \<le> length word" using a(3) k assms(3) by simp
    ultimately show False using occursI[OF assms(1)] assms(2) by blast
  qed
  have "0 < ?k" if "word ! pos = needle ! 0"
  proof -
    have "take 1 needle = take 1 (drop pos word)"
      using that assms(1,3) by (cases needle) (auto simp: Cons_nth_drop_Suc[symmetric])
    moreover have "1 \<le> length needle" "1 \<le> length (drop pos word)" using assms(1,3) by (cases needle; simp)+
    ultimately show ?thesis using agree_greatest[of 1 needle "drop pos word"] by linarith
  qed
  moreover have "word ! pos = needle ! 0" if "overhang needle word (length word - pos)"
  proof -
    have "drop pos word = take (length word - pos) needle" using that assms(3) by (simp add: overhang_def)
    then have "drop pos word ! 0 = take (length word - pos) needle ! 0" by simp
    then show ?thesis using assms(3) that by (simp add: overhang_def)
  qed
  moreover have "overhang needle word (length word - pos)" if "0 < ?k" "?k = length word - pos"
  proof -
    have "take (length word - pos) needle = drop pos word" using a(1) that(2) by simp
    then show ?thesis using that a(2) assms(3) by (simp add: overhang_def)
  qed
  moreover have "pos + ?k = length word \<longleftrightarrow> ?k = length word - pos" using assms(3) by auto
  ultimately show ?thesis using full by blast
qed

lemma overhang_agree: "overhang needle word (length word - pos) \<Longrightarrow> pos < length word \<Longrightarrow> agree_len needle (drop pos word) = length word - pos"
  using agree_greatest[of "length word - pos" needle "drop pos word"] agree_take(3)[of needle "drop pos word"]
  by (auto simp: overhang_def)

text \<open>One position adds the sequence of its overhang, if there is one.\<close>

lemma breaker_at_set:
  assumes n: "needle \<noteq> []" "\<not> occurs_in needle word" and pos: "pos < length word"
    and r: "breaker_pos enc needle i word pos out = Some (Ok out')"
  shows "set out' = set out \<union> {sq. overhang needle word (length word - pos) \<and>
      tail_seq enc needle i (length word - pos) sq}"
proof (cases "overhang needle word (length word - pos)")
  case True
  note k = overhang_agree[OF True pos]
  have "word ! pos = needle ! 0" using match_overhang[OF n pos] True k by blast
  then show ?thesis using r True pos unfolding breaker_pos_def Let_def k
    by (auto simp: add_new_def tail_seq_def split: if_splits option.splits)
next
  case False
  then have "\<not> (word ! pos = needle ! 0 \<and> (agree_len needle (drop pos word) = length needle \<or> pos + agree_len needle (drop pos word) = length word))"
    using match_overhang[OF n pos] by blast
  then have "out' = out" using r unfolding breaker_pos_def Let_def by (auto split: if_splits)
  then show ?thesis using False by simp
qed

lemma breaker_positions_set:
  assumes n: "needle \<noteq> []" "\<not> occurs_in needle word"
  shows "\<forall>p \<in> set ps. p < length word \<Longrightarrow> breaker_positions enc needle i word ps out = Some (Ok out') \<Longrightarrow>
    set out' = set out \<union> {sq. \<exists>p \<in> set ps. overhang needle word (length word - p) \<and>
      tail_seq enc needle i (length word - p) sq}"
proof (induction ps arbitrary: out)
  case (Cons p ps)
  obtain o1 where o1: "breaker_pos enc needle i word p out = Some (Ok o1)" "breaker_positions enc needle i word ps o1 = Some (Ok out')"
    using Cons.prems(2) by (auto split: option.splits sum.splits)
  have "set out' = set o1 \<union> {sq. \<exists>p \<in> set ps. overhang needle word (length word - p) \<and>
      tail_seq enc needle i (length word - p) sq}" using Cons.IH[OF _ o1(2)] Cons.prems(1) by simp
  then show ?case using breaker_at_set[OF n _ o1(1)] Cons.prems(1) by auto
qed simp

lemma all_positions:
  assumes n: "needle \<noteq> []" "\<not> occurs_in needle word"
    and r: "breaker_positions enc needle i word [0..<length word] out = Some (Ok out')"
  shows "set out' = set out \<union> {sq. overlap_seq enc needle i word sq}"
proof -
  have over: "(\<exists>p \<in> set [0..<length word]. overhang needle word (length word - p) \<and> P (length word - p)) \<longleftrightarrow> (\<exists>k. overhang needle word k \<and> P k)" for P
  proof
    assume "\<exists>k. overhang needle word k \<and> P k"
    then obtain k where k: "overhang needle word k" "P k" by blast
    then have "length word - (length word - k) = k" "length word - k < length word" by (auto simp: overhang_def)
    then show "\<exists>p \<in> set [0..<length word]. overhang needle word (length word - p) \<and> P (length word - p)"
      using k by (intro bexI[of _ "length word - k"]) auto
  qed blast
  have "set out' = set out \<union> {sq. \<exists>p \<in> set [0..<length word]. overhang needle word (length word - p) \<and>
      tail_seq enc needle i (length word - p) sq}" using r by (intro breaker_positions_set[OF n]) simp_all
  moreover have "(\<exists>p \<in> set [0..<length word]. overhang needle word (length word - p) \<and> tail_seq enc needle i (length word - p) sq)
      \<longleftrightarrow> (\<exists>k. overhang needle word k \<and> tail_seq enc needle i k sq)" for sq by (rule over)
  ultimately show ?thesis unfolding overlap_seq_def by (simp only:)
qed

text \<open>What a token contributes.\<close>

definition token_seqs :: "(ustr \<Rightarrow> nat list option) \<Rightarrow> byte list \<Rightarrow> byte list \<Rightarrow> nat \<Rightarrow> nat list set" where
  "token_seqs enc needle word i =
     (if word = [] then {} else if occurs_in needle word then {[i]} else {sq. overlap_seq enc needle i word sq})"

lemma breaker_tokens_set:
  "needle \<noteq> [] \<Longrightarrow> breaker_tokens enc piece needle is out = Some (Ok out') \<Longrightarrow>
     set out' = set out \<union> (\<Union>i \<in> set is. token_seqs enc needle (piece i) i)"
proof (induction enc piece needle "is" out rule: breaker_tokens.induct)
  case (2 enc piece needle i "is" out)
  consider "piece i = []" | "piece i \<noteq> []" "occurs_in needle (piece i)" | "piece i \<noteq> []" "\<not> occurs_in needle (piece i)" by blast
  then show ?case
  proof cases
    case 1
    then show ?thesis using "2.IH"(1)[OF refl 1 "2.prems"(1)] "2.prems"(2) by (simp add: token_seqs_def)
  next
    case c: 2
    then show ?thesis using "2.IH"(2)[OF refl c "2.prems"(1)] "2.prems"(2) by (simp add: token_seqs_def)
  next
    case c: 3
    obtain o1 where o1: "breaker_positions enc needle i (piece i) [0..<length (piece i)] out = Some (Ok o1)"
      "breaker_tokens enc piece needle is o1 = Some (Ok out')"
      using "2.prems"(2) c by (auto simp: Let_def split: option.splits sum.splits)
    show ?thesis
      using "2.IH"(3)[OF refl c o1(1) refl "2.prems"(1) o1(2)] all_positions[OF "2.prems"(1) c(2) o1(1)] c
      by (simp add: token_seqs_def Un_assoc)
  qed
qed simp

end
