(* ===== verification/Tok_Spm_Greedy.thy ===== *)
theory Tok_Spm_Greedy
  imports Tok_Round
begin

text \<open>
  The heap of the SentencePiece engine with its stale entries, against the greedy rule it implements: merge the
  adjacent pair of the highest score, the leftmost of equals, until no pair is in the vocabulary.
\<close>

section \<open>The greedy rule\<close>

definition spm_score :: "'f Tokenizer \<Rightarrow> ustr \<Rightarrow> ustr \<Rightarrow> 'f option" where
  "spm_score tk a b =
     (case tk_vocab tk (a @ b) of
        None \<Rightarrow> None
      | Some i \<Rightarrow> if i < length (tk_scores tk) then Some (tk_scores tk ! i) else None)"

text \<open>No pair has a higher score, and none further left an equal one.\<close>

definition spm_best_at :: "'f flt \<Rightarrow> 'f Tokenizer \<Rightarrow> ustr list \<Rightarrow> nat \<Rightarrow> 'f \<Rightarrow> bool" where
  "spm_best_at N tk word p s \<longleftrightarrow>
     (\<forall>u a b v s'. word = u @ a # b # v \<longrightarrow> spm_score tk a b = Some s' \<longrightarrow> \<not> n_lt N s s' \<and> (n_lt N s' s \<or> p \<le> length u))"

inductive spm_step :: "'f flt \<Rightarrow> 'f Tokenizer \<Rightarrow> ustr list \<Rightarrow> ustr list \<Rightarrow> bool" for N tk where
  merge: "spm_score tk a b = Some s \<Longrightarrow> spm_best_at N tk (u @ a # b # v) (length u) s \<Longrightarrow>
    spm_step N tk (u @ a # b # v) (u @ (a @ b) # v)"

inductive_cases spm_stepE: "spm_step N tk word word'"

text \<open>A piece as tokens: the vocabulary entry, or one token per byte.\<close>

definition spm_emit :: "'f Tokenizer \<Rightarrow> ustr \<Rightarrow> nat list option" where
  "spm_emit tk piece = (case tk_vocab tk piece of Some i \<Rightarrow> Some [i] | None \<Rightarrow> byte_tokens tk (utf8_of piece))"

text \<open>The comparison of scores is a strict weak order, as it is on numbers.\<close>

definition scores_ordered :: "'f flt \<Rightarrow> 'f list \<Rightarrow> bool" where
  "scores_ordered N xs \<longleftrightarrow>
     (\<forall>a \<in> set xs. \<forall>b \<in> set xs. n_lt N a b \<longrightarrow> \<not> n_lt N b a)
     \<and> (\<forall>a \<in> set xs. \<forall>b \<in> set xs. \<forall>c \<in> set xs. \<not> n_lt N a b \<longrightarrow> \<not> n_lt N b c \<longrightarrow> \<not> n_lt N a c)"

section \<open>The heap\<close>

lemma bigram_not_greater:
  "\<not> bigram_greater N a b \<longleftrightarrow> \<not> n_lt N (bg_score b) (bg_score a) \<and> (n_lt N (bg_score a) (bg_score b) \<or> bg_left b \<le> bg_left a)"
  by (auto simp: bigram_greater_def)

lemma bigram_asym:
  assumes "scores_ordered N xs" "bg_score a \<in> set xs" "bg_score b \<in> set xs" "bigram_greater N a b"
  shows "\<not> bigram_greater N b a"
proof -
  have "n_lt N (bg_score b) (bg_score a) \<Longrightarrow> \<not> n_lt N (bg_score a) (bg_score b)"
    using assms(1-3) unfolding scores_ordered_def by blast
  then show ?thesis using assms(4) unfolding bigram_greater_def by linarith
qed

lemma bigram_neg_trans:
  assumes o: "scores_ordered N xs" and m: "bg_score a \<in> set xs" "bg_score b \<in> set xs" "bg_score c \<in> set xs"
    and ab: "\<not> bigram_greater N a b" and bc: "\<not> bigram_greater N b c"
  shows "\<not> bigram_greater N a c"
proof -
  have nt: "\<not> n_lt N x y \<Longrightarrow> \<not> n_lt N y z \<Longrightarrow> \<not> n_lt N x z" if "{x, y, z} \<subseteq> set xs" for x y z
    using o that unfolding scores_ordered_def by blast
  have "\<not> n_lt N (bg_score c) (bg_score a)"
    using ab bc nt[of "bg_score c" "bg_score b" "bg_score a"] m by (simp add: bigram_not_greater)
  moreover have "n_lt N (bg_score a) (bg_score c)" if "bg_left a < bg_left c"
  proof -
    have "n_lt N (bg_score a) (bg_score b) \<or> n_lt N (bg_score b) (bg_score c)"
      using ab bc that by (auto simp: bigram_not_greater)
    then show ?thesis
      using ab bc nt[of "bg_score a" "bg_score c" "bg_score b"] nt[of "bg_score b" "bg_score a" "bg_score c"] m
      by (auto simp: bigram_not_greater)
  qed
  ultimately show ?thesis by (auto simp: bigram_not_greater not_less)
qed

lemma pop_bigram_set: "pop_bigram N q = Some (m, rest) \<Longrightarrow> set q = insert m (set rest)"
  by (induction q arbitrary: m rest) (auto split: option.splits if_splits)

lemma pop_bigram_None: "pop_bigram N q = None \<longleftrightarrow> q = []"
  by (cases q) (auto split: option.splits)

lemma pop_bigram_max:
  assumes o: "scores_ordered N xs"
  shows "\<forall>b \<in> set q. bg_score b \<in> set xs \<Longrightarrow> pop_bigram N q = Some (m, rest) \<Longrightarrow> \<forall>b \<in> set q. \<not> bigram_greater N b m"
proof (induction q arbitrary: m rest)
  case (Cons x q)
  have irr: "\<not> bigram_greater N b b" if "bg_score b \<in> set xs" for b using bigram_asym[OF o that that] by blast
  show ?case
  proof (cases "pop_bigram N q")
    case None
    then show ?thesis using Cons.prems irr pop_bigram_None[of N q] by auto
  next
    case (Some p)
    obtain m' rest' where p: "p = (m', rest')" by fastforce
    have IH: "\<forall>b \<in> set q. \<not> bigram_greater N b m'" using Cons.IH Cons.prems(1) Some p by simp
    have m': "bg_score m' \<in> set xs" using pop_bigram_set[OF Some[unfolded p]] Cons.prems(1) by simp
    show ?thesis
    proof (cases "bigram_greater N m' x")
      case True
      then show ?thesis using Cons.prems Some p IH bigram_asym[OF o m' _ True] by auto
    next
      case False
      have "\<not> bigram_greater N b x" if "b \<in> set q" for b
        using bigram_neg_trans[OF o _ m' _ _ False, of b] IH Cons.prems(1) that by simp
      then show ?thesis using Cons.prems Some p False irr by auto
    qed
  qed
qed simp

section \<open>The linked list\<close>

fun linked :: "SpmSymbol list \<Rightarrow> nat option \<Rightarrow> nat list \<Rightarrow> nat option \<Rightarrow> bool" where
  "linked sys p [] e \<longleftrightarrow> True"
| "linked sys p (k # ks) e \<longleftrightarrow>
     sy_prev (sys ! k) = p \<and> sy_next (sys ! k) = (case ks of [] \<Rightarrow> e | k' # _ \<Rightarrow> Some k') \<and> linked sys (Some k) ks e"

lemma linked_append:
  "linked sys p (as @ bs) e \<longleftrightarrow>
     linked sys p as (case bs of [] \<Rightarrow> e | b # _ \<Rightarrow> Some b) \<and> linked sys (if as = [] then p else Some (last as)) bs e"
  by (induction as arbitrary: p) (auto split: list.split)

lemma linked_cong:
  "(\<And>k. k \<in> set ks \<Longrightarrow> sy_prev (sys' ! k) = sy_prev (sys ! k) \<and> sy_next (sys' ! k) = sy_next (sys ! k)) \<Longrightarrow>
     linked sys' p ks e = linked sys p ks e"
  by (induction ks arbitrary: p) auto

lemma nth_update: "k < length xs \<Longrightarrow> xs[i := x] ! k = (if i = k then x else xs ! k)"
  by auto

lemma absorb_nth:
  assumes "l \<noteq> r" "l < length sys" "r < length sys" "k < length sys"
  shows "sy_text (absorb sys l r ! k) = (if k = r then [] else if k = l then sy_text (sys ! l) @ sy_text (sys ! r) else sy_text (sys ! k))"
    and "sy_n (absorb sys l r ! k) = (if k = r then 0 else if k = l then sy_n (sys ! l) + sy_n (sys ! r) else sy_n (sys ! k))"
    and "sy_next (absorb sys l r ! k) = (if k = l then sy_next (sys ! r) else sy_next (sys ! k))"
    and "sy_prev (absorb sys l r ! k) = (if sy_next (sys ! r) = Some k then Some l else sy_prev (sys ! k))"
  using assms by (simp_all add: absorb_def Let_def nth_update split: option.split)

lemma length_absorb [simp]: "length (absorb sys l r) = length sys"
  by (simp add: absorb_def Let_def split: option.split)

section \<open>The invariant\<close>

text \<open>A candidate that is not dead spells a prefix of the texts of two neighbours of the list.\<close>

definition bigram_ok :: "'f Tokenizer \<Rightarrow> SpmSymbol list \<Rightarrow> nat list \<Rightarrow> 'f SpmBigram \<Rightarrow> bool" where
  "bigram_ok tk sys idx e \<longleftrightarrow>
     bg_left e < bg_right e \<and> bg_right e < length sys \<and> bg_score e \<in> set (tk_scores tk) \<and>
     (bg_left e \<in> set idx \<longrightarrow> bg_right e \<in> set idx \<longrightarrow>
        (\<forall>k \<in> set idx. \<not> (bg_left e < k \<and> k < bg_right e)) \<and>
        (\<exists>a b. prefix a (sy_text (sys ! bg_left e)) \<and> prefix b (sy_text (sys ! bg_right e)) \<and>
           bg_size e = byte_len a + byte_len b \<and> spm_score tk a b = Some (bg_score e)))"

text \<open>Two neighbours that may be merged are in the queue.\<close>

definition queued :: "'f Tokenizer \<Rightarrow> SpmSymbol list \<Rightarrow> 'f SpmBigram list \<Rightarrow> nat \<Rightarrow> nat \<Rightarrow> bool" where
  "queued tk sys q l r \<longleftrightarrow>
     (\<forall>s. spm_score tk (sy_text (sys ! l)) (sy_text (sys ! r)) = Some s \<longrightarrow>
        \<lparr>bg_score = s, bg_left = l, bg_right = r, bg_size = byte_len (sy_text (sys ! l)) + byte_len (sy_text (sys ! r))\<rparr> \<in> set q)"

definition spelled :: "'f Tokenizer \<Rightarrow> ustr \<Rightarrow> bool" where
  "spelled tk w \<longleftrightarrow> length w = 1 \<or> w \<noteq> [] \<and> tk_vocab tk w \<noteq> None"

definition symbols_ok :: "'f Tokenizer \<Rightarrow> SpmSymbol list \<Rightarrow> nat list \<Rightarrow> bool" where
  "symbols_ok tk sys idx \<longleftrightarrow>
     sorted_wrt (<) idx \<and> set idx \<subseteq> {..<length sys} \<and> idx \<noteq> [] \<and> hd idx = 0 \<and> linked sys None idx None
     \<and> (\<forall>k < length sys. sy_n (sys ! k) = (if k \<in> set idx then byte_len (sy_text (sys ! k)) else 0))
     \<and> (\<forall>k \<in> set idx. spelled tk (sy_text (sys ! k)))"

definition rev_ok :: "'f Tokenizer \<Rightarrow> (ustr \<Rightarrow> (ustr \<times> ustr) option) \<Rightarrow> bool" where
  "rev_ok tk rv \<longleftrightarrow> (\<forall>w. rv w \<noteq> None \<longrightarrow> 2 \<le> length w \<and> tk_vocab tk w \<noteq> None)"

definition session_ok :: "'f Tokenizer \<Rightarrow> nat list \<Rightarrow> 'f SpmSession \<Rightarrow> bool" where
  "session_ok tk idx s \<longleftrightarrow>
     symbols_ok tk (ss_symbols s) idx \<and> rev_ok tk (ss_rev_merge s)
     \<and> (\<forall>e \<in> set (ss_queue s). bigram_ok tk (ss_symbols s) idx e)
     \<and> (\<forall>as l r bs. idx = as @ l # r # bs \<longrightarrow> queued tk (ss_symbols s) (ss_queue s) l r)"

definition words :: "nat list \<Rightarrow> SpmSymbol list \<Rightarrow> ustr list" where
  "words idx sys = map (\<lambda>k. sy_text (sys ! k)) idx"

lemma byte_len_simps [simp]: "byte_len [] = 0" "byte_len (a @ b) = byte_len a + byte_len b" "byte_len w = 0 \<longleftrightarrow> w = []"
  by (cases w; simp add: byte_len_def utf8_of_def)+

lemma spelled_ne: "spelled tk w \<Longrightarrow> w \<noteq> []"
  by (auto simp: spelled_def)

lemma byte_len_prefix: "prefix a b \<Longrightarrow> byte_len b \<le> byte_len a \<Longrightarrow> a = b"
  by (auto simp: prefix_def)

lemma byte_len_prefix_le: "prefix a b \<Longrightarrow> byte_len a \<le> byte_len b"
  by (auto simp: prefix_def)

section \<open>Pushing a candidate\<close>

lemma try_add_ok:
  assumes q: "\<forall>e \<in> set (ss_queue s). bigram_ok tk (ss_symbols s) idx e" and rv: "rev_ok tk (ss_rev_merge s)"
    and lr: "l \<in> set idx" "r \<in> set idx" "l < r" "\<forall>k \<in> set idx. \<not> (l < k \<and> k < r)" "r < length (ss_symbols s)"
    and t: "sy_text (ss_symbols s ! l) \<noteq> []" "sy_text (ss_symbols s ! r) \<noteq> []"
  shows "\<forall>e \<in> set (ss_queue (try_add tk l r s)). bigram_ok tk (ss_symbols s) idx e"
    and "rev_ok tk (ss_rev_merge (try_add tk l r s))"
    and "queued tk (ss_symbols s) (ss_queue (try_add tk l r s)) l r"
    and "set (ss_queue s) \<subseteq> set (ss_queue (try_add tk l r s))"
proof -
  let ?a = "sy_text (ss_symbols s ! l)" and ?b = "sy_text (ss_symbols s ! r)"
  have len: "2 \<le> length (?a @ ?b)" using t by (cases ?a; cases ?b) auto
  show "set (ss_queue s) \<subseteq> set (ss_queue (try_add tk l r s))"
    by (auto simp: try_add_def Let_def split: option.split)
  show "queued tk (ss_symbols s) (ss_queue (try_add tk l r s)) l r"
    by (auto simp: queued_def try_add_def Let_def spm_score_def byte_len_def utf8_of_def split: option.splits if_splits)
  show "rev_ok tk (ss_rev_merge (try_add tk l r s))"
    using rv len by (auto simp: rev_ok_def try_add_def Let_def split: option.splits)
  have new: "bigram_ok tk (ss_symbols s) idx \<lparr>bg_score = tk_scores tk ! i, bg_left = l, bg_right = r, bg_size = length (utf8_of (?a @ ?b))\<rparr>"
    if "tk_vocab tk (?a @ ?b) = Some i" "i < length (tk_scores tk)" for i
  proof -
    have "\<exists>a b. prefix a ?a \<and> prefix b ?b \<and> length (utf8_of (?a @ ?b)) = byte_len a + byte_len b \<and>
        spm_score tk a b = Some (tk_scores tk ! i)"
      by (rule exI[of _ ?a], rule exI[of _ ?b]) (use that in \<open>simp add: spm_score_def byte_len_def utf8_of_def\<close>)
    then show ?thesis using lr that by (simp add: bigram_ok_def)
  qed
  show "\<forall>e \<in> set (ss_queue (try_add tk l r s)). bigram_ok tk (ss_symbols s) idx e"
    using q new by (auto simp: try_add_def Let_def split: option.split)
qed

section \<open>The start\<close>

lemma spm_start_fold:
  assumes "symbols_ok tk (ss_symbols s0) [0..<n]" "n = length (ss_symbols s0)" "ss_queue s0 = []" "ss_rev_merge s0 = (\<lambda>_. None)" "m \<le> n"
  shows "let s = fold (\<lambda>i. try_add tk (i - 1) i) [1..<m] s0 in
      ss_symbols s = ss_symbols s0 \<and> rev_ok tk (ss_rev_merge s) \<and> (\<forall>e \<in> set (ss_queue s). bigram_ok tk (ss_symbols s0) [0..<n] e)
      \<and> (\<forall>i. 1 \<le> i \<longrightarrow> i < m \<longrightarrow> queued tk (ss_symbols s0) (ss_queue s) (i - 1) i)"
  using assms(5)
proof (induction m)
  case 0
  then show ?case using assms by (simp add: rev_ok_def)
next
  case (Suc m)
  show ?case
  proof (cases "m = 0")
    case True
    then show ?thesis using assms by (simp add: rev_ok_def)
  next
    case False
    let ?s = "fold (\<lambda>i. try_add tk (i - 1) i) [1..<m] s0"
    have IH: "ss_symbols ?s = ss_symbols s0" "rev_ok tk (ss_rev_merge ?s)"
      "\<forall>e \<in> set (ss_queue ?s). bigram_ok tk (ss_symbols s0) [0..<n] e"
      "\<forall>i. 1 \<le> i \<longrightarrow> i < m \<longrightarrow> queued tk (ss_symbols s0) (ss_queue ?s) (i - 1) i"
      using Suc by (auto simp: Let_def)
    have t: "sy_text (ss_symbols ?s ! k) \<noteq> []" if "k < n" for k
      using assms(1) that IH(1) by (force simp: symbols_ok_def spelled_def)
    have a: "m - 1 \<in> set [0..<n]" "m \<in> set [0..<n]" "m - 1 < m" "\<forall>k \<in> set [0..<n]. \<not> (m - 1 < k \<and> k < m)" "m < length (ss_symbols ?s)"
      using False Suc.prems assms(2) IH(1) by auto
    note add = try_add_ok[of ?s tk "[0..<n]", unfolded IH(1), OF IH(3,2) a(1-4) a(5)[unfolded IH(1)] t[unfolded IH(1)] t[unfolded IH(1)]]
    have f: "fold (\<lambda>i. try_add tk (i - 1) i) [1..<Suc m] s0 = try_add tk (m - 1) m ?s" using False by simp
    have mono: "queued tk (ss_symbols s0) (ss_queue (try_add tk (m - 1) m ?s)) (i - 1) i" if "1 \<le> i" "i < m" for i
      using IH(4) that add(4) False Suc.prems unfolding queued_def by (meson Suc_leD Suc_le_lessD diff_le_self le_less_trans subsetD)
    show ?thesis unfolding f Let_def
      using IH(1) add(1-3) mono False Suc.prems by (auto simp: less_Suc_eq)
  qed
qed

lemma linked_upt:
  "m \<le> n \<Longrightarrow> (\<And>k. m \<le> k \<Longrightarrow> k < n \<Longrightarrow> sy_prev (sys ! k) = (if k = 0 then None else Some (k - 1))
      \<and> sy_next (sys ! k) = (if k + 1 = n then None else Some (k + 1))) \<Longrightarrow>
     linked sys (if m = 0 then None else Some (m - 1)) [m..<n] None"
proof (induction "n - m" arbitrary: m)
  case (Suc d)
  then have "linked sys (Some m) [m + 1..<n] None" using Suc.hyps(1)[of "m + 1"] by (auto simp: Suc_diff_Suc)
  moreover have "(case [m + 1..<n] of [] \<Rightarrow> None | k # _ \<Rightarrow> Some k) = (if m + 1 = n then None else Some (m + 1))"
    using Suc.hyps(2) by (auto simp: upt_conv_Cons)
  ultimately show ?case using Suc by (simp add: upt_conv_Cons)
qed simp

lemma spm_symbols_ok:
  assumes "w \<noteq> []"
  shows "symbols_ok tk (spm_symbols w) [0..<length w]"
proof -
  have "linked (spm_symbols w) None [0..<length w] None"
    using linked_upt[of 0 "length w" "spm_symbols w"] by (simp add: spm_symbols_def)
  moreover have "length (spm_symbols w) = length w" by (simp add: spm_symbols_def)
  moreover have "sy_n (spm_symbols w ! k) = byte_len (sy_text (spm_symbols w ! k))" "spelled tk (sy_text (spm_symbols w ! k))"
    if "k < length w" for k
    using that by (simp_all add: spm_symbols_def byte_len_def spelled_def)
  moreover have "hd [0..<length w] = 0" "[0..<length w] \<noteq> []" using assms by (cases w; simp add: upt_conv_Cons del: upt_Suc)+
  ultimately show ?thesis by (simp add: symbols_ok_def lessThan_atLeast0)
qed

lemma adjacent_upt:
  assumes e: "[0..<n] = as @ l # r # bs"
  shows "l + 1 = r \<and> r < n"
proof -
  have n: "n = length as + 2 + length bs" using arg_cong[OF e, of length] by simp
  have "[0..<n] ! length as = l" "[0..<n] ! (length as + 1) = r" unfolding e by (simp_all add: nth_append)
  then show ?thesis using n by (simp del: upt_Suc)
qed

lemma spm_start_ok:
  assumes "w \<noteq> []"
  shows "session_ok tk [0..<length w] (spm_start tk w)" "words [0..<length w] (ss_symbols (spm_start tk w)) = singletons w"
proof -
  define s0 :: "'a SpmSession" where "s0 = \<lparr>ss_symbols = spm_symbols w, ss_rev_merge = (\<lambda>_. None), ss_queue = []\<rparr>"
  let ?s = "spm_start tk w"
  have l: "length (spm_symbols w) = length w" by (simp add: spm_symbols_def)
  have s0: "ss_symbols s0 = spm_symbols w" "ss_queue s0 = []" "ss_rev_merge s0 = (\<lambda>_. None)" by (simp_all add: s0_def)
  have s: "fold (\<lambda>i. try_add tk (i - 1) i) [1..<length w] s0 = ?s" unfolding spm_start_def s0_def ..
  note g = spm_start_fold[of tk s0 "length w" "length w", unfolded s0 Let_def s,
      OF spm_symbols_ok[OF assms] l[symmetric] refl refl order_refl]
  have f: "ss_symbols ?s = spm_symbols w" "rev_ok tk (ss_rev_merge ?s)"
    "\<forall>e \<in> set (ss_queue ?s). bigram_ok tk (spm_symbols w) [0..<length w] e"
    "\<forall>i. 1 \<le> i \<longrightarrow> i < length w \<longrightarrow> queued tk (spm_symbols w) (ss_queue ?s) (i - 1) i"
    using g by blast+
  have "queued tk (spm_symbols w) (ss_queue ?s) a b" if "[0..<length w] = as @ a # b # bs" for as a b bs
    using f(4)[rule_format, of b] adjacent_upt[OF that] by auto
  then show "session_ok tk [0..<length w] ?s"
    using f(1-3) spm_symbols_ok[OF assms, of tk] by (simp add: session_ok_def)
  show "words [0..<length w] (ss_symbols ?s) = singletons w"
    unfolding f(1) by (rule nth_equalityI) (simp_all add: words_def singletons_def spm_symbols_def)
qed

section \<open>One turn of the loop\<close>

lemma sorted_between:
  assumes "sorted_wrt (<) idx" "l \<in> set idx" "r \<in> set idx" "l < (r::nat)" "\<forall>k \<in> set idx. \<not> (l < k \<and> k < r)"
  shows "\<exists>as bs. idx = as @ l # r # bs"
proof -
  obtain as cs where i: "idx = as @ l # cs" using split_list[OF assms(2)] by blast
  have "r \<in> set cs" using assms(1,3,4) i by (auto simp: sorted_wrt_append)
  then obtain c ds where cs: "cs = c # ds" by (cases cs) auto
  have "l < c" "c \<le> r" using assms(1) i cs \<open>r \<in> set cs\<close> by (auto simp: sorted_wrt_append)
  then have "c = r" using assms(5) i cs by auto
  then show ?thesis using i cs by blast
qed

text \<open>What the absorption of a neighbour leaves.\<close>

lemma absorb_ok:
  assumes ok: "symbols_ok tk sys (as @ l # r # bs)" and voc: "tk_vocab tk (sy_text (sys ! l) @ sy_text (sys ! r)) \<noteq> None"
  shows "symbols_ok tk (absorb sys l r) (as @ l # bs)"
    and "words (as @ l # bs) (absorb sys l r) = words as sys @ (sy_text (sys ! l) @ sy_text (sys ! r)) # words bs sys"
    and "k \<in> set (as @ bs) \<Longrightarrow> sy_text (absorb sys l r ! k) = sy_text (sys ! k)"
    and "sy_text (absorb sys l r ! l) = sy_text (sys ! l) @ sy_text (sys ! r)"
proof -
  have srt: "sorted_wrt (<) (as @ l # r # bs)" and rng: "set (as @ l # r # bs) \<subseteq> {..<length sys}"
    and lk: "linked sys None (as @ l # r # bs) None"
    and n: "\<forall>k < length sys. sy_n (sys ! k) = (if k \<in> set (as @ l # r # bs) then byte_len (sy_text (sys ! k)) else 0)"
    and sp: "\<forall>k \<in> set (as @ l # r # bs). spelled tk (sy_text (sys ! k))"
    using ok by (auto simp: symbols_ok_def)
  have ne: "l \<noteq> r" "l \<notin> set as" "r \<notin> set as" "l \<notin> set bs" "r \<notin> set bs" "set as \<inter> set bs = {}"
    using srt by (auto simp: sorted_wrt_append)
  have lr: "l < length sys" "r < length sys" using rng by auto
  note nth = absorb_nth[OF ne(1) lr]
  have same: "sy_text (absorb sys l r ! k) = sy_text (sys ! k)" if "k \<in> set (as @ bs)" for k
    using nth(1)[of k] that ne rng by auto
  then show "k \<in> set (as @ bs) \<Longrightarrow> sy_text (absorb sys l r ! k) = sy_text (sys ! k)" by blast
  show joined: "sy_text (absorb sys l r ! l) = sy_text (sys ! l) @ sy_text (sys ! r)" using nth(1)[of l] ne lr by simp
  show "words (as @ l # bs) (absorb sys l r) = words as sys @ (sy_text (sys ! l) @ sy_text (sys ! r)) # words bs sys"
    using same joined by (auto simp: words_def)
  have nr: "sy_next (sys ! r) = (case bs of [] \<Rightarrow> None | b # _ \<Rightarrow> Some b)"
    and pl: "sy_prev (sys ! l) = (if as = [] then None else Some (last as))"
    and la: "linked sys None as (Some l)" and lb: "linked sys (Some r) bs None"
    using lk by (auto simp: linked_append)
  have la': "linked (absorb sys l r) None as (Some l)"
  proof (rule linked_cong[THEN iffD2, OF _ la])
    fix k assume "k \<in> set as"
    then show "sy_prev (absorb sys l r ! k) = sy_prev (sys ! k) \<and> sy_next (absorb sys l r ! k) = sy_next (sys ! k)"
      using nth(3,4)[of k] rng ne nr by (auto split: list.splits)
  qed
  have lb': "linked (absorb sys l r) (Some l) bs None"
  proof (cases bs)
    case (Cons b cs)
    have "linked (absorb sys l r) (Some b) cs None"
    proof (rule linked_cong[THEN iffD2])
      show "linked sys (Some b) cs None" using lb Cons by simp
      fix k assume "k \<in> set cs"
      moreover from this have "k \<noteq> b" using srt Cons by (auto simp: sorted_wrt_append)
      ultimately show "sy_prev (absorb sys l r ! k) = sy_prev (sys ! k) \<and> sy_next (absorb sys l r ! k) = sy_next (sys ! k)"
        using nth(3,4)[of k] rng ne nr srt Cons by (auto simp: sorted_wrt_append)
    qed
    then show ?thesis using nth(3,4)[of b] rng ne nr lb Cons by (auto split: list.splits)
  qed simp
  have ll: "sy_prev (absorb sys l r ! l) = (if as = [] then None else Some (last as))"
    "sy_next (absorb sys l r ! l) = (case bs of [] \<Rightarrow> None | b # _ \<Rightarrow> Some b)"
    using nth(3,4)[of l] lr ne nr pl by (auto split: list.splits)
  have "linked (absorb sys l r) None (as @ l # bs) None"
    using la' lb' ll by (auto simp: linked_append split: list.split)
  moreover have "sy_n (absorb sys l r ! k) = (if k \<in> set (as @ l # bs) then byte_len (sy_text (absorb sys l r ! k)) else 0)"
    if "k < length sys" for k
    using nth(1,2)[OF that] n that ne lr by auto
  moreover have "spelled tk (sy_text (absorb sys l r ! k))" if "k \<in> set (as @ l # bs)" for k
  proof (cases "k = l")
    case True
    have "sy_text (sys ! l) \<noteq> []" using sp by (auto simp: spelled_def)
    then show ?thesis using True joined voc by (auto simp: spelled_def)
  next
    case False
    then show ?thesis using that same[of k] sp by auto
  qed
  ultimately show "symbols_ok tk (absorb sys l r) (as @ l # bs)"
    using ok by (auto simp: symbols_ok_def sorted_wrt_append hd_append split: if_splits)
qed

lemma bigram_ok_absorb:
  assumes ok: "bigram_ok tk sys (as @ l # r # bs) e" and srt: "symbols_ok tk sys (as @ l # r # bs)"
  shows "bigram_ok tk (absorb sys l r) (as @ l # bs) e"
proof -
  have ne: "l \<noteq> r" "l < length sys" "r < length sys" "r \<notin> set (as @ l # bs)"
    using srt by (auto simp: symbols_ok_def sorted_wrt_append)
  have pre: "prefix (sy_text (sys ! k)) (sy_text (absorb sys l r ! k))" if "k \<in> set (as @ l # bs)" for k
  proof -
    have "k < length sys" "k \<noteq> r" using that srt ne(4) by (auto simp: symbols_ok_def)
    then show ?thesis using absorb_nth(1)[OF ne(1-3), of k] by simp
  qed
  show ?thesis
    unfolding bigram_ok_def length_absorb
  proof (intro conjI impI)
    show "bg_left e < bg_right e" "bg_right e < length sys" "bg_score e \<in> set (tk_scores tk)" using ok by (auto simp: bigram_ok_def)
    assume m: "bg_left e \<in> set (as @ l # bs)" "bg_right e \<in> set (as @ l # bs)"
    have "bg_left e \<in> set (as @ l # r # bs)" "bg_right e \<in> set (as @ l # r # bs)" using m by auto
    note live = ok[unfolded bigram_ok_def, THEN conjunct2, THEN conjunct2, THEN conjunct2, rule_format, OF this]
    show "\<forall>k \<in> set (as @ l # bs). \<not> (bg_left e < k \<and> k < bg_right e)"
      by (rule ballI, rule bspec[OF live[THEN conjunct1]]) auto
    from live obtain a b where "prefix a (sy_text (sys ! bg_left e))" "prefix b (sy_text (sys ! bg_right e))"
      "bg_size e = byte_len a + byte_len b" "spm_score tk a b = Some (bg_score e)"
      by blast
    then show "\<exists>a b. prefix a (sy_text (absorb sys l r ! bg_left e)) \<and> prefix b (sy_text (absorb sys l r ! bg_right e)) \<and>
        bg_size e = byte_len a + byte_len b \<and> spm_score tk a b = Some (bg_score e)"
      using pre[OF m(1)] pre[OF m(2)] by (meson prefix_order.trans)
  qed
qed

lemma append_eq_at:
  assumes "xs @ ys = zs @ ws" "length xs = length zs + n"
  shows "xs = zs @ take n ws" "ys = drop n ws"
proof -
  have "take (length xs) (xs @ ys) = take (length zs + n) (zs @ ws)" "drop (length xs) (xs @ ys) = drop (length zs + n) (zs @ ws)"
    using assms by simp_all
  then show "xs = zs @ take n ws" "ys = drop n ws" by simp_all
qed

text \<open>The pairs of neighbours after a neighbour is gone: those of its merged symbol, and old ones away from it.\<close>

lemma adjacent_cases:
  assumes e: "as @ l # bs = cs @ a # b # ds" and d: "distinct (as @ l # bs)"
  obtains (left) "as \<noteq> []" "a = last as" "b = l"
    | (right) "a = l" "bs \<noteq> []" "b = hd bs"
    | (old) "a \<noteq> l" "b \<noteq> l" "\<exists>us vs. as @ l # r # bs = us @ a # b # vs"
proof (cases "length as \<le> length cs")
  case True
  then have len: "length cs = length as + (length cs - length as)" by simp
  show ?thesis
  proof (cases "length cs - length as")
    case 0
    then have "a # b # ds = l # bs" using append_eq_at(2)[OF e[symmetric] len] by simp
    then show ?thesis using right by auto
  next
    case (Suc n)
    then have "cs = as @ l # take n bs" "a # b # ds = drop n bs" using append_eq_at[OF e[symmetric] len, unfolded Suc] by simp_all
    then have bs: "bs = take n bs @ a # b # ds" by (metis append_take_drop_id)
    then have "as @ l # r # bs = (as @ l # r # take n bs) @ a # b # ds" by simp
    moreover have "a \<in> set bs" "b \<in> set bs" by (subst bs, simp)+
    then have "a \<noteq> l" "b \<noteq> l" using d by auto
    ultimately show ?thesis using old by blast
  qed
next
  case False
  then have len: "length as = length cs + (length as - length cs)" by simp
  obtain m where m: "length as - length cs = Suc m" using False by (metis Suc_diff_Suc not_le)
  have parts: "as = cs @ take (Suc m) (a # b # ds)" "l # bs = drop (Suc m) (a # b # ds)"
    using append_eq_at[OF e len] unfolding m .
  show ?thesis
  proof (cases m)
    case 0
    have p: "as = cs @ [a]" "l # bs = b # ds" using parts unfolding 0 by simp_all
    show ?thesis
    proof (rule left)
      show "as \<noteq> []" "a = last as" by (simp_all add: p(1))
      show "b = l" using p(2) by simp
    qed
  next
    case (Suc n)
    have as: "as = cs @ a # b # take n ds" using parts(1) unfolding Suc by simp
    then have "as @ l # r # bs = cs @ a # b # (take n ds @ l # r # bs)" by simp
    moreover have "a \<in> set as" "b \<in> set as" by (subst as, simp)+
    then have "a \<noteq> l" "b \<noteq> l" using d by auto
    ultimately show ?thesis using old by blast
  qed
qed

lemma queued_mono: "queued tk sys q a b \<Longrightarrow> set q \<subseteq> set q' \<Longrightarrow> queued tk sys q' a b"
  by (auto simp: queued_def)

lemma queued_absorb:
  assumes "queued tk sys q a b" "set q = insert e (set rest)" "bg_left e = l"
    "a \<noteq> l" "sy_text (sys' ! a) = sy_text (sys ! a)" "sy_text (sys' ! b) = sy_text (sys ! b)"
  shows "queued tk sys' rest a b"
  using assms unfolding queued_def by auto


lemma spm_merge_ok:
  assumes ok: "session_ok tk (as @ l # r # bs) s" and voc: "tk_vocab tk (sy_text (ss_symbols s ! l) @ sy_text (ss_symbols s ! r)) \<noteq> None"
    and q: "set (ss_queue s) = insert e (set rest)" "bg_left e = l"
  shows "session_ok tk (as @ l # bs) (spm_merge tk l r (s\<lparr>ss_queue := rest\<rparr>))"
proof -
  let ?sys = "ss_symbols s" and ?idx = "as @ l # bs"
  let ?sys' = "absorb ?sys l r"
  have so: "symbols_ok tk ?sys (as @ l # r # bs)" and rv: "rev_ok tk (ss_rev_merge s)"
    and bg: "\<forall>e \<in> set (ss_queue s). bigram_ok tk ?sys (as @ l # r # bs) e"
    and qd: "\<And>as' a b bs'. as @ l # r # bs = as' @ a # b # bs' \<Longrightarrow> queued tk ?sys (ss_queue s) a b"
    using ok unfolding session_ok_def by blast+
  note ab = absorb_ok[OF so voc]
  have srt: "sorted_wrt (<) ?idx" and rng: "set ?idx \<subseteq> {..<length ?sys'}" and lk: "linked ?sys' None ?idx None"
    and sp: "\<forall>k \<in> set ?idx. spelled tk (sy_text (?sys' ! k))"
    using ab(1) by (auto simp: symbols_ok_def)
  have dist: "distinct ?idx" using srt by (simp only: strict_sorted_iff)
  have ne: "sy_text (?sys' ! k) \<noteq> []" if "k \<in> set ?idx" for k using sp that spelled_ne by blast
  let ?s1 = "s\<lparr>ss_queue := rest, ss_symbols := ?sys'\<rparr>"
  have bg1: "\<forall>e \<in> set (ss_queue ?s1). bigram_ok tk (ss_symbols ?s1) ?idx e"
    using bg q(1) bigram_ok_absorb[OF _ so] by auto
  have add: "\<forall>e \<in> set (ss_queue (try_add tk a b u)). bigram_ok tk ?sys' ?idx e"
      "rev_ok tk (ss_rev_merge (try_add tk a b u))" "queued tk ?sys' (ss_queue (try_add tk a b u)) a b"
      "set (ss_queue u) \<subseteq> set (ss_queue (try_add tk a b u))"
    if "ss_symbols u = ?sys'" "\<forall>e \<in> set (ss_queue u). bigram_ok tk ?sys' ?idx e" "rev_ok tk (ss_rev_merge u)"
      "?idx = us @ a # b # vs" for u a b us vs
  proof -
    have m: "a \<in> set ?idx" "b \<in> set ?idx" "a < b" "b < length ?sys'" "\<forall>k \<in> set ?idx. \<not> (a < k \<and> k < b)"
      using srt rng unfolding that(4) by (auto simp: sorted_wrt_append)
    from try_add_ok[of u tk ?idx a b, unfolded that(1), OF that(2,3) m(1,2,3,5,4) ne[OF m(1)] ne[OF m(2)]]
    show "\<forall>e \<in> set (ss_queue (try_add tk a b u)). bigram_ok tk ?sys' ?idx e"
      "rev_ok tk (ss_rev_merge (try_add tk a b u))" "queued tk ?sys' (ss_queue (try_add tk a b u)) a b"
      "set (ss_queue u) \<subseteq> set (ss_queue (try_add tk a b u))" by auto
  qed
  have pn: "sy_prev (?sys' ! l) = (if as = [] then None else Some (last as))"
    "sy_next (?sys' ! l) = (case bs of [] \<Rightarrow> None | b # _ \<Rightarrow> Some b)"
    using lk by (auto simp: linked_append)
  define s2 where "s2 = (if as = [] then ?s1 else try_add tk (last as) l ?s1)"
  define s3 where "s3 = (case bs of [] \<Rightarrow> s2 | b # _ \<Rightarrow> try_add tk l b s2)"
  have sym: "ss_symbols s2 = ?sys'" by (simp add: s2_def)
  have m3: "spm_merge tk l r (s\<lparr>ss_queue := rest\<rparr>) = s3"
    using pn by (auto simp: spm_merge_def Let_def s3_def s2_def split: list.split)
  have e2: "?idx = butlast as @ last as # l # bs" if "as \<noteq> []" using that by (metis append.assoc append_Cons append_Nil append_butlast_last_id)
  have s2: "\<forall>e \<in> set (ss_queue s2). bigram_ok tk ?sys' ?idx e" "rev_ok tk (ss_rev_merge s2)" "set rest \<subseteq> set (ss_queue s2)"
    "as \<noteq> [] \<longrightarrow> queued tk ?sys' (ss_queue s2) (last as) l"
    using bg1 rv add[of ?s1, OF _ _ _ e2] by (auto simp: s2_def)
  have s3: "\<forall>e \<in> set (ss_queue s3). bigram_ok tk ?sys' ?idx e" "rev_ok tk (ss_rev_merge s3)" "set (ss_queue s2) \<subseteq> set (ss_queue s3)"
    "bs \<noteq> [] \<longrightarrow> queued tk ?sys' (ss_queue s3) l (hd bs)" "ss_symbols s3 = ?sys'"
    using s2 sym add[OF sym s2(1,2)] by (auto simp: s3_def split: list.split)
  have "queued tk ?sys' (ss_queue s3) a b" if "?idx = us @ a # b # vs" for us a b vs
    using that dist
  proof (cases rule: adjacent_cases[of as l bs us a b vs _ r])
    case left
    then show ?thesis using s2(4) s3(3) queued_mono by blast
  next
    case right
    then show ?thesis using s3(4) by simp
  next
    case old
    then have "queued tk ?sys (ss_queue s) a b" using qd by blast
    moreover have "a \<in> set ?idx" "b \<in> set ?idx" unfolding that by simp_all
    then have "a \<in> set (as @ bs)" "b \<in> set (as @ bs)" using old(1,2) by auto
    then have "sy_text (?sys' ! a) = sy_text (?sys ! a)" "sy_text (?sys' ! b) = sy_text (?sys ! b)"
      using ab(3) by blast+
    ultimately have "queued tk ?sys' rest a b" using queued_absorb[OF _ q] old(1) by blast
    then show ?thesis using s2(3) s3(3) queued_mono by (metis subset_trans)
  qed
  then show ?thesis using ab(1) s3 unfolding m3 session_ok_def by simp
qed

section \<open>The loop is the greedy rule\<close>

text \<open>A candidate that is not stale is a pair of neighbours with its own score.\<close>

lemma fresh_bigram:
  assumes so: "symbols_ok tk sys idx" and bg: "bigram_ok tk sys idx e" and fresh: "\<not> stale sys e"
  obtains as bs where "idx = as @ bg_left e # bg_right e # bs"
    "spm_score tk (sy_text (sys ! bg_left e)) (sy_text (sys ! bg_right e)) = Some (bg_score e)"
proof -
  let ?l = "bg_left e" and ?r = "bg_right e"
  have r: "?l < ?r" "?r < length sys" using bg by (auto simp: bigram_ok_def)
  have n: "sy_n (sys ! k) = (if k \<in> set idx then byte_len (sy_text (sys ! k)) else 0)" if "k < length sys" for k
    using so that unfolding symbols_ok_def by blast
  have m: "?l \<in> set idx" "?r \<in> set idx" using fresh n[of ?l] n[of ?r] r by (auto simp: stale_def split: if_splits)
  note live = bg[unfolded bigram_ok_def, THEN conjunct2, THEN conjunct2, THEN conjunct2, rule_format, OF m]
  obtain a b where ab: "prefix a (sy_text (sys ! ?l))" "prefix b (sy_text (sys ! ?r))" "bg_size e = byte_len a + byte_len b"
    "spm_score tk a b = Some (bg_score e)" using live by blast
  have "byte_len (sy_text (sys ! ?l)) + byte_len (sy_text (sys ! ?r)) = byte_len a + byte_len b"
    using fresh n[of ?l] n[of ?r] r m ab(3) by (simp add: stale_def)
  then have "a = sy_text (sys ! ?l)" "b = sy_text (sys ! ?r)"
    using byte_len_prefix[OF ab(1)] byte_len_prefix[OF ab(2)] byte_len_prefix_le[OF ab(1)] byte_len_prefix_le[OF ab(2)] by linarith+
  moreover have "sorted_wrt (<) idx" using so by (simp add: symbols_ok_def)
  then obtain as bs where "idx = as @ ?l # ?r # bs" using sorted_between[OF _ m r(1) live[THEN conjunct1]] by blast
  ultimately show ?thesis using that ab(4) by blast
qed

lemma stale_drop:
  assumes ok: "session_ok tk idx s" and q: "set (ss_queue s) = insert e (set rest)" and st: "stale (ss_symbols s) e"
  shows "session_ok tk idx (s\<lparr>ss_queue := rest\<rparr>)"
proof -
  have so: "symbols_ok tk (ss_symbols s) idx" using ok by (simp add: session_ok_def)
  have "queued tk (ss_symbols s) rest a b" if i: "idx = as @ a # b # bs" for as a b bs
  proof -
    have "queued tk (ss_symbols s) (ss_queue s) a b" using ok i unfolding session_ok_def by blast
    moreover have "e \<noteq> \<lparr>bg_score = sc, bg_left = a, bg_right = b,
        bg_size = byte_len (sy_text (ss_symbols s ! a)) + byte_len (sy_text (ss_symbols s ! b))\<rparr>" for sc
    proof
      assume e: "e = \<lparr>bg_score = sc, bg_left = a, bg_right = b,
        bg_size = byte_len (sy_text (ss_symbols s ! a)) + byte_len (sy_text (ss_symbols s ! b))\<rparr>"
      have m: "a \<in> set idx" "b \<in> set idx" using i by simp_all
      have "sy_n (ss_symbols s ! k) = byte_len (sy_text (ss_symbols s ! k))" "sy_text (ss_symbols s ! k) \<noteq> []" if "k \<in> set idx" for k
        using so that unfolding symbols_ok_def by (auto simp: subset_iff dest: spelled_ne)
      then show False using st m unfolding e stale_def by simp
    qed
    ultimately show ?thesis unfolding queued_def q by (metis insert_iff)
  qed
  then show ?thesis using ok q by (simp add: session_ok_def)
qed

text \<open>The candidate on top of the heap is the best pair.\<close>

lemma top_is_best:
  assumes ok: "session_ok tk idx s" and o: "scores_ordered N (tk_scores tk)" and pop: "pop_bigram N (ss_queue s) = Some (e, rest)"
    and i: "idx = as @ bg_left e # bg_right e # bs"
  shows "spm_best_at N tk (words idx (ss_symbols s)) (length as) (bg_score e)"
  unfolding spm_best_at_def
proof (intro allI impI)
  fix u a b v s' assume w: "words idx (ss_symbols s) = u @ a # b # v" and sc: "spm_score tk a b = Some s'"
  obtain us l r vs where x: "idx = us @ l # r # vs" "u = words us (ss_symbols s)" "a = sy_text (ss_symbols s ! l)" "b = sy_text (ss_symbols s ! r)"
    using w unfolding words_def map_eq_append_conv map_eq_Cons_conv by blast
  have "queued tk (ss_symbols s) (ss_queue s) l r" using ok x(1) unfolding session_ok_def by blast
  then obtain c where c: "c \<in> set (ss_queue s)" "bg_score c = s'" "bg_left c = l"
    using sc x(3,4) unfolding queued_def by (metis SpmBigram.select_convs(1,2))
  have "\<forall>b \<in> set (ss_queue s). bg_score b \<in> set (tk_scores tk)" using ok by (auto simp: session_ok_def bigram_ok_def)
  from pop_bigram_max[OF o this pop] c(1) have ng: "\<not> bigram_greater N c e" by blast
  have srt: "sorted_wrt (<) idx" using ok by (simp add: session_ok_def symbols_ok_def)
  have "length as \<le> length us" if "bg_left e \<le> l"
  proof (rule ccontr)
    assume "\<not> length as \<le> length us"
    then have "idx ! length us < idx ! length as" using srt i by (intro sorted_wrt_nth_less[OF srt]) auto
    moreover have "idx ! length us = l" unfolding x(1) by simp
    moreover have "idx ! length as = bg_left e" unfolding i by simp
    ultimately show False using that by simp
  qed
  then show "\<not> n_lt N (bg_score e) s' \<and> (n_lt N s' (bg_score e) \<or> length as \<le> length u)"
    using ng c(2,3) x(2) by (auto simp: bigram_not_greater words_def)
qed

lemma merge_loop_greedy:
  "session_ok tk idx s \<Longrightarrow> scores_ordered N (tk_scores tk) \<Longrightarrow>
     \<exists>s' idx'. spm_merge_loop N tk s = Some s' \<and> session_ok tk idx' s' \<and> length idx' \<le> length idx
       \<and> (spm_step N tk)\<^sup>*\<^sup>* (words idx (ss_symbols s)) (words idx' (ss_symbols s')) \<and> ss_queue s' = []"
proof (induction N tk s arbitrary: idx rule: spm_merge_loop.induct)
  case (1 N tk s)
  show ?case
  proof (cases "pop_bigram N (ss_queue s)")
    case None
    then have "ss_queue s = []" by (simp add: pop_bigram_None)
    moreover have "spm_merge_loop N tk s = Some s" using None by (subst spm_merge_loop.simps) simp
    moreover note "1.prems"
    ultimately show ?thesis by blast
  next
    case (Some p)
    obtain e rest where p: "p = (e, rest)" by fastforce
    note pop = Some[unfolded p]
    have q: "set (ss_queue s) = insert e (set rest)" using pop_bigram_set[OF pop] .
    have bg: "bigram_ok tk (ss_symbols s) idx e" and so: "symbols_ok tk (ss_symbols s) idx"
      using "1.prems"(1) q by (auto simp: session_ok_def)
    have ran: "bigram_in_range (ss_symbols s) e" using bg by (auto simp: bigram_in_range_def bigram_ok_def)
    show ?thesis
    proof (cases "stale (ss_symbols s) e")
      case True
      have "spm_merge_loop N tk s = spm_merge_loop N tk (s\<lparr>ss_queue := rest\<rparr>)"
        using pop ran True by (subst spm_merge_loop.simps) simp
      then show ?thesis
        using "1.IH"(1)[OF Some p[symmetric] refl _ True stale_drop[OF "1.prems"(1) q True] "1.prems"(2)] ran by simp
    next
      case False
      obtain as bs where i: "idx = as @ bg_left e # bg_right e # bs"
        and sc: "spm_score tk (sy_text (ss_symbols s ! bg_left e)) (sy_text (ss_symbols s ! bg_right e)) = Some (bg_score e)"
        using fresh_bigram[OF so bg False] by blast
      have voc: "tk_vocab tk (sy_text (ss_symbols s ! bg_left e) @ sy_text (ss_symbols s ! bg_right e)) \<noteq> None"
        using sc by (auto simp: spm_score_def split: option.splits)
      let ?s = "spm_merge tk (bg_left e) (bg_right e) (s\<lparr>ss_queue := rest\<rparr>)"
      have ok: "session_ok tk (as @ bg_left e # bs) ?s"
        using spm_merge_ok[OF "1.prems"(1)[unfolded i] voc q refl] .
      have eq: "spm_merge_loop N tk s = spm_merge_loop N tk ?s" using pop ran False by (subst spm_merge_loop.simps) simp
      have "spm_step N tk (words idx (ss_symbols s)) (words (as @ bg_left e # bs) (ss_symbols ?s))"
      proof -
        have w: "words idx (ss_symbols s) = words as (ss_symbols s) @ sy_text (ss_symbols s ! bg_left e)
            # sy_text (ss_symbols s ! bg_right e) # words bs (ss_symbols s)" by (simp add: i words_def)
        have l: "length (words as (ss_symbols s)) = length as" by (simp add: words_def)
        show ?thesis
          using spm_step.merge[OF sc, of N "words as (ss_symbols s)" "words bs (ss_symbols s)"]
            top_is_best[OF "1.prems" pop i] absorb_ok(2)[OF so[unfolded i] voc] unfolding w l by simp
      qed
      moreover obtain s' idx' where r: "spm_merge_loop N tk ?s = Some s'" "session_ok tk idx' s'" "length idx' \<le> length (as @ bg_left e # bs)"
        "(spm_step N tk)\<^sup>*\<^sup>* (words (as @ bg_left e # bs) (ss_symbols ?s)) (words idx' (ss_symbols s'))" "ss_queue s' = []"
        using "1.IH"(2)[OF Some p[symmetric] refl _ False ok "1.prems"(2)] ran by blast
      ultimately have "(spm_step N tk)\<^sup>*\<^sup>* (words idx (ss_symbols s)) (words idx' (ss_symbols s'))"
        by (metis converse_rtranclp_into_rtranclp)
      moreover have "length idx' \<le> length idx" using r(3) unfolding i by simp
      ultimately show ?thesis using r eq by metis
    qed
  qed
qed

section \<open>The tokens\<close>

lemma resegment_emit:
  assumes "rev_ok tk rv" "spelled tk w"
  shows "resegment tk rv fuel w = spm_emit tk w"
proof (cases "tk_vocab tk w")
  case None
  then have "length w = 1" using assms(2) by (auto simp: spelled_def)
  then have "rv w = None" "w \<noteq> []" using assms(1) by (cases "rv w"; force simp: rev_ok_def)+
  then show ?thesis using None by (subst resegment.simps) (simp add: spm_emit_def)
qed (subst resegment.simps, simp add: spm_emit_def)

lemma collect_ids_pair: "collect_ids [x, collect_ids xs] = collect_ids (x # xs)"
  by (cases x; cases "collect_ids xs") simp_all

lemma spm_walk_words:
  assumes rv: "rev_ok tk (ss_rev_merge s)"
  shows "linked (ss_symbols s) p idx None \<Longrightarrow> set idx \<subseteq> {..<length (ss_symbols s)}
    \<Longrightarrow> \<forall>k \<in> set idx. spelled tk (sy_text (ss_symbols s ! k)) \<Longrightarrow> length idx \<le> fuel \<Longrightarrow>
      spm_walk tk s fuel (case idx of [] \<Rightarrow> None | k # _ \<Rightarrow> Some k) = collect_ids (map (spm_emit tk) (words idx (ss_symbols s)))"
proof (induction idx arbitrary: p fuel)
  case (Cons k ks)
  obtain f where f: "fuel = Suc f" using Cons.prems(4) by (cases fuel) auto
  have "spm_walk tk s f (sy_next (ss_symbols s ! k)) = collect_ids (map (spm_emit tk) (words ks (ss_symbols s)))"
    using Cons.IH[of "Some k" f] Cons.prems f by simp
  then show ?case
    using Cons.prems rv by (simp add: f Let_def resegment_emit collect_ids_pair words_def del: collect_ids.simps)
qed (simp add: words_def)

text \<open>
  The engine gives the tokens of the words that the greedy rule ends with; in particular the re-split of
  \<open>resegment\<close> is never taken.
\<close>

lemma spm_encode_spec:
  assumes o: "scores_ordered N (tk_scores tk)" and w: "w \<noteq> []"
  shows "\<exists>word. (spm_step N tk)\<^sup>*\<^sup>* (singletons w) word \<and> (\<nexists>word'. spm_step N tk word word')
    \<and> spm_encode N tk w = collect_ids (map (spm_emit tk) word)"
proof -
  obtain s idx where s: "spm_merge_loop N tk (spm_start tk w) = Some s" "session_ok tk idx s" "length idx \<le> length w"
    "(spm_step N tk)\<^sup>*\<^sup>* (singletons w) (words idx (ss_symbols s))" "ss_queue s = []"
    using merge_loop_greedy[OF spm_start_ok(1)[OF w] o] spm_start_ok(2)[OF w, of tk] by auto
  have so: "symbols_ok tk (ss_symbols s) idx" and rv: "rev_ok tk (ss_rev_merge s)" using s(2) by (auto simp: session_ok_def)
  have "\<not> spm_step N tk (words idx (ss_symbols s)) word'" for word'
  proof
    assume "spm_step N tk (words idx (ss_symbols s)) word'"
    then obtain u a b v sc where w: "words idx (ss_symbols s) = u @ a # b # v" "spm_score tk a b = Some sc" by (auto elim: spm_stepE)
    then obtain us l r vs where x: "idx = us @ l # r # vs" "a = sy_text (ss_symbols s ! l)" "b = sy_text (ss_symbols s ! r)"
      unfolding words_def map_eq_append_conv map_eq_Cons_conv by blast
    have "queued tk (ss_symbols s) (ss_queue s) l r" using s(2) x(1) unfolding session_ok_def by blast
    then show False using w(2) x s(5) by (simp add: queued_def)
  qed
  moreover have "spm_encode N tk w = collect_ids (map (spm_emit tk) (words idx (ss_symbols s)))"
  proof -
    have "(case idx of [] \<Rightarrow> None | k # _ \<Rightarrow> Some k) = Some 0" using so by (cases idx) (auto simp: symbols_ok_def)
    then show ?thesis
      using spm_walk_words[OF rv, of None idx "length w"] so s(1,3) by (simp add: spm_encode_def symbols_ok_def)
  qed
  ultimately show ?thesis using s(4) by blast
qed

end
