(* ===== verification/Tok_Total.thy ===== *)
theory Tok_Total
  imports Tok_Load Tok_Stream Tok_Spm_Greedy
begin

text \<open>
  What a loaded tokenizer guarantees: the bound of the WordPiece match covers its vocabulary, its special tokens are
  tokens, and the engines that check their vocabulary encode every text. The last section has the texts and
  vocabularies that the checks of \<open>load\<close> let through.
\<close>

section \<open>The bound of the WordPiece match\<close>

lemma base_engine:
  assumes "load N bits gguf = Done (Ok tk)"
  shows "\<exists>merges tk0 kvs. load_engine N kvs merges tk0 = Done (Ok tk) \<and> tk_vocab tk0 = vocab_of (tk_tokens tk0)"
proof -
  obtain merges tokens scores types specials model bos eos where
    "load_engine N (gc_kv gguf) merges (base_tokenizer N tokens scores types merges specials model bos eos) = Done (Ok tk)"
    using assms unfolding load_def Let_def loaded by blast
  then show ?thesis by (fastforce simp: base_tokenizer_def)
qed

lemma fold_max: "a \<le> fold max xs a" "x \<in> set xs \<Longrightarrow> x \<le> fold max xs (a :: nat)"
proof -
  show le: "a \<le> fold max xs a" for a :: nat and xs
  proof (induction xs arbitrary: a)
    case (Cons y ys)
    have "max y a \<le> fold max ys (max y a)" by (rule Cons.IH)
    then show ?case using max.cobounded2[of a y] by (simp del: max.cobounded2)
  qed simp
  show "x \<in> set xs \<Longrightarrow> x \<le> fold max xs a"
  proof (induction xs arbitrary: a)
    case (Cons y ys)
    have "y \<le> max y a" by simp
    then show ?case using Cons le[where a = "max y a" and xs = ys] by auto
  qed simp
qed

lemma load_bert_bound:
  assumes "load_bert kvs tk0 = Done (Ok tk)"
  shows "tk_max_token_len tk = fold max (map byte_len (tk_tokens tk)) 0"
proof -
  obtain u where u: "unknown_id kvs = Done u"
    using assms unfolding load_bert_def Let_def loaded by blast
  show ?thesis
    using assms unfolding load_bert_def Let_def u by (cases u) (clarsimp simp: loaded)+
qed

lemma load_bounded:
  assumes "load N bits gguf = Done (Ok tk)" "tk_model tk = Bert"
  shows "bounded (vocab_of (tk_tokens tk)) (tk_max_token_len tk + 1) \<and> tk_vocab tk = vocab_of (tk_tokens tk)"
proof -
  obtain merges tk0 kvs where e: "load_engine N kvs merges tk0 = Done (Ok tk)" "tk_vocab tk0 = vocab_of (tk_tokens tk0)"
    using base_engine[OF assms(1)] by blast
  then have "load_bert kvs tk0 = Done (Ok tk)"
    using load_engine_ok[OF e] assms(2) by (simp add: load_engine_def)
  from load_bert_bound[OF this] load_bert_Done[OF this] e(2) show ?thesis
    using fold_max(2)[of _ "map byte_len (tk_tokens tk)" 0]
    by (auto simp: bounded_def byte_len_def dest!: vocab_of_Some intro!: le_SucI)
qed

section \<open>No engine fails\<close>

lemma byte_tokens_total: "byte_ready tk \<Longrightarrow> \<exists>ids. byte_tokens tk bs = Some ids"
  unfolding byte_tokens_def byte_ready_def by (rule collect_ids_ex) force

lemma spm_encode_total:
  assumes "byte_ready tk" "scores_ordered N (tk_scores tk)" "w \<noteq> []"
  shows "\<exists>ids. spm_encode N tk w = Some ids"
proof -
  obtain word where w: "spm_encode N tk w = collect_ids (map (spm_emit tk) word)"
    using spm_encode_spec[OF assms(2,3)] by blast
  show ?thesis unfolding w
    by (rule collect_ids_ex) (use byte_tokens_total[OF assms(1)] in \<open>fastforce simp: spm_emit_def split: option.splits\<close>)
qed

lemma gemma4_encode_total:
  assumes "byte_ready tk" "tk_pre tk \<noteq> None"
  shows "\<exists>ids. gemma4_encode cl tk w = Some ids"
proof -
  have raw: "\<exists>ids. bpe_encode_raw tk piece = Some ids" for piece
    unfolding bpe_encode_raw_def
    by (rule collect_ids_ex) (use byte_tokens_total[OF assms(1)] in \<open>fastforce split: option.splits\<close>)
  obtain pre where "tk_pre tk = Some pre" using assms(2) by blast
  then show ?thesis unfolding gemma4_encode_def
    by (simp only: option.case) (rule collect_ids_ex, use raw in \<open>fastforce split: option.splits\<close>)
qed

lemma encode_text_total:
  assumes "engine_ready tk" "tk_model tk \<in> {Spm, Gemma4, Rwkv, Bert}" "scores_ordered (fp32 F) (tk_scores tk)"
  shows "\<exists>ids. encode_text U T F rnd tk w p = Some ids"
proof -
  have e: "spm_escape w \<noteq> []" if "w \<noteq> []" using that by (simp add: spm_escape_def)
  have b: "tk_model tk \<in> {Spm, Gemma4} \<Longrightarrow> byte_ready tk" "tk_model tk = Gemma4 \<Longrightarrow> tk_pre tk \<noteq> None"
    using assms(1) by (auto simp: engine_ready_def)
  consider "tk_model tk = Spm" | "tk_model tk = Gemma4" | "tk_model tk = Rwkv" | "tk_model tk = Bert" using assms(2) by blast
  then show ?thesis
  proof cases
    case 1
    then show ?thesis using spm_encode_total[OF b(1) assms(3)] e by (auto simp: encode_text_def Let_def)
  next
    case 2
    then show ?thesis using gemma4_encode_total[OF b(1) b(2)] by (simp add: encode_text_def Let_def)
  qed (simp_all add: encode_text_def Let_def)
qed

lemma encode_loop_total:
  assumes enc: "\<And>u p. \<exists>ids. enc u p = Some ids"
    and ne: "\<And>c grp pat i. by_first c = Some grp \<Longrightarrow> (pat, i) \<in> set grp \<Longrightarrow> pat \<noteq> []"
  shows "length w \<le> fuel \<Longrightarrow> \<exists>ids. encode_loop enc by_first fuel w prev = Some ids"
proof (induction fuel arbitrary: w prev)
  case 0
  then show ?case using enc[of "[]" prev] by (simp add: encode_loop.simps)
next
  case (Suc f w prev)
  show ?case
  proof (cases "find_special by_first 0 w")
    case None
    then show ?thesis using enc by (simp add: encode_loop.simps)
  next
    case (Some q)
    obtain p i len where q: "q = (p, i, len)" by (cases q) auto
    obtain c grp pat where g: "by_first c = Some grp" "(pat, i) \<in> set grp" "len = length pat"
      using find_special_Some[OF Some[unfolded q]] by auto
    have "length (drop (p + len) w) \<le> f" using Suc.prems ne[OF g(1,2)] g(3) by (cases pat) auto
    from Suc.IH[OF this] obtain r where r: "encode_loop enc by_first f (drop (p + len) w) True = Some r" by blast
    obtain h where h: "enc (take p w) prev = Some h" using enc by blast
    show ?thesis using Some q r h by (subst encode_loop.simps) (cases "p = 0"; simp add: collect_ids_Some)
  qed
qed

text \<open>Every special token is a token of the vocabulary.\<close>

definition specials_listed :: "(ustr \<times> nat) list \<Rightarrow> ustr list \<Rightarrow> bool" where
  "specials_listed sp tokens \<longleftrightarrow> (\<forall>(pat, i) \<in> set sp. i < length tokens \<and> tokens ! i = pat)"

lemma specials_listedD: "specials_listed sp tokens \<Longrightarrow> (pat, i) \<in> set sp \<Longrightarrow> i < length tokens \<and> tokens ! i = pat"
  unfolding specials_listed_def by (drule (1) bspec) simp

lemma put_special_listed:
  "specials_listed sp tokens \<Longrightarrow> i < length tokens \<Longrightarrow> specials_listed (put_special (tokens ! i) i sp) tokens"
  by (auto simp: specials_listed_def put_special_def)

lemma typed_specials_listed: "specials_listed (typed_specials tokens types) tokens"
proof -
  have f: "specials_listed (fold (\<lambda>i sp. if P i then put_special (tokens ! i) i sp else sp) is sp) tokens"
    if "specials_listed sp tokens" "\<forall>i \<in> set is. i < length tokens" for "is" sp P
    using that by (induction "is" arbitrary: sp) (simp_all add: put_special_listed)
  show ?thesis unfolding typed_specials_def by (rule f) (simp_all add: specials_listed_def)
qed

lemma role_specials_listed:
  "role_specials kvs tokens keys sp = Done sp' \<Longrightarrow> specials_listed sp tokens \<Longrightarrow> specials_listed sp' tokens"
proof (induction kvs tokens keys sp rule: role_specials.induct)
  case (2 kvs tokens key keys sp)
  obtain v where v: "get_gguf_u32 kvs key = Done v" using "2.prems"(1) by (cases "get_gguf_u32 kvs key") auto
  show ?case
    by (rule "2.IH"[of v]) (use "2.prems" v in \<open>auto simp: put_special_listed split: option.split\<close>)
qed simp

lemma load_engine_specials:
  assumes "load_engine N kvs merges tk0 = Done (Ok tk)" "tk_model tk0 \<in> {Spm, Gemma4, Rwkv, Bert}"
  shows "tk_special_by_first tk = tk_special_by_first tk0 \<and> tk_tokens tk = tk_tokens tk0"
proof -
  consider "tk_model tk0 = Spm" | "tk_model tk0 = Gemma4" | "tk_model tk0 = Rwkv" | "tk_model tk0 = Bert" using assms(2) by blast
  then show ?thesis
  proof cases
    case 1
    then show ?thesis using assms(1) by (auto simp: load_engine_def load_spm_def loaded complete_bytes_Done Let_def)
  next
    case 2
    then show ?thesis using assms(1) by (auto simp: load_engine_def load_gemma4_def loaded complete_bytes_Done Let_def)
  next
    case 3
    then have "load_rwkv kvs tk0 = Done (Ok tk)" using assms(1) by (simp add: load_engine_def)
    moreover obtain u where u: "unknown_id kvs = Done u" using calculation unfolding load_rwkv_def Let_def loaded by blast
    ultimately show ?thesis unfolding load_rwkv_def Let_def u by (cases u) (clarsimp simp: loaded fine_def demand_def split: if_splits)+
  next
    case 4
    then have "load_bert kvs tk0 = Done (Ok tk)" using assms(1) by (simp add: load_engine_def)
    moreover obtain u where u: "unknown_id kvs = Done u" using calculation unfolding load_bert_def Let_def loaded by blast
    ultimately show ?thesis unfolding load_bert_def Let_def u by (cases u) (clarsimp simp: loaded fine_def demand_def split: if_splits)+
  qed
qed

lemma load_specials:
  assumes "load N bits gguf = Done (Ok tk)" "tk_model tk \<in> {Spm, Gemma4, Rwkv, Bert}"
  shows "\<exists>sp. tk_special_by_first tk = special_index sp \<and> specials_listed sp (tk_tokens tk)"
proof -
  obtain raw types types' scores merges sp model bos eos where
    sp: "role_specials (gc_kv gguf) (map gguf_text raw) SPECIAL_ROLE_KEYS (typed_specials (map gguf_text raw) types') = Done sp" and
    e: "load_engine N (gc_kv gguf) merges (base_tokenizer N (map gguf_text raw) scores types merges sp model bos eos) = Done (Ok tk)"
    using assms(1) unfolding load_def Let_def loaded by blast
  have m: "model = tk_model tk" using load_engine_ok[OF e] by (simp add: base_tokenizer_def)
  from load_engine_specials[OF e] show ?thesis
    using assms(2) m role_specials_listed[OF sp typed_specials_listed] by (auto simp: base_tokenizer_def)
qed

lemma special_index_mem: "special_index sp c = Some grp \<Longrightarrow> set grp \<subseteq> set sp"
  by (auto simp: special_index_def Let_def split: if_splits)

section \<open>Where the promise ends\<close>

text \<open>An empty special token, found at the character 0, takes nothing: the loop does not end.\<close>

lemma empty_special_never_ends:
  assumes "by_first 0 = Some (([], i) # grp)"
  shows "encode_loop enc by_first fuel (0 # w) prev = None"
proof (induction fuel arbitrary: prev)
  case 0
  then show ?case using assms by (subst encode_loop.simps) simp
next
  case (Suc fuel)
  then show ?case using assms by (subst encode_loop.simps) (simp add: collect_ids_None)
qed

text \<open>A byte that only starts an entry reaches the unknown token.\<close>

lemma rwkv_unknown_reached: "rwkv_walk (build_trie [([97, 98], 7)]) 0 [97] = [0]"
  by code_simp

text \<open>The test for missing bytes accepts a vocabulary without them, and the fallback finds no token.\<close>

lemma byte_gap_accepted: "tk_vocab tk = vocab_of [chars ''a''] \<Longrightarrow> tk_tokens tk = [chars ''a''] \<Longrightarrow> unreachable_bytes tk = []"
  by (simp add: unreachable_bytes_def filter_empty_conv chars_def utf8_of_def encode_utf8_def utf8_units_def)

lemma byte_gap_panics: "tk_vocab tk [98] = None \<Longrightarrow> byte_fallback tk [98] = None"
  by (simp add: byte_fallback_def collect_ids_None)

end
