(* ===== verification/Tok_Plamo.thy ===== *)
theory Tok_Plamo
  imports Tok_Round
begin

text \<open>
  The backward dynamic program of \<open>plamo2_encode\<close> finds a cheapest segmentation: of the ways to cover the text by
  vocabulary entries and single characters, none costs less than the one whose tokens it emits.
\<close>

section \<open>Characters of a byte prefix\<close>

definition continues :: "nat \<Rightarrow> bool" where
  "continues n \<longleftrightarrow> 0x80 \<le> n \<and> n < 0xC0"

lemma chars_in_nat: "chars_in bs = length (filter (\<lambda>n. \<not> continues n) (map unat bs))"
  by (induction bs) (auto simp: chars_in_def continues_def word_le_nat_alt word_less_nat_alt)

lemma chars_in_append [simp]: "chars_in (a @ b) = chars_in a + chars_in b"
  by (simp add: chars_in_def)

lemma units_heads: "scalar c \<Longrightarrow> \<exists>h t. utf8_units c = h # t \<and> \<not> continues h \<and> (\<forall>n \<in> set t. continues n)"
  by (auto simp: utf8_units_def continues_def scalar_def)

lemma chars_in_char:
  assumes "scalar c"
  shows "\<exists>b bs. encode_utf8 c = b # bs \<and> chars_in [b] = 1 \<and> chars_in bs = 0"
proof -
  obtain h t where u: "utf8_units c = h # t" "\<not> continues h" "\<forall>n \<in> set t. continues n" using units_heads[OF assms] by blast
  obtain b bs where e: "encode_utf8 c = b # bs" by (cases "encode_utf8 c") auto
  have "map unat (b # bs) = h # t" using map_unat_encode[OF assms] e u(1) by simp
  then have "unat b = h" "map unat bs = t" by auto
  then show ?thesis using u(2,3) e by (auto simp: chars_in_nat filter_empty_conv)
qed

lemma chars_in_utf8: "\<forall>c \<in> set w. scalar c \<Longrightarrow> chars_in (utf8_of w) = length w"
proof (induction w)
  case Nil
  then show ?case by (simp add: utf8_of_def chars_in_def)
next
  case (Cons c w)
  obtain b bs where "encode_utf8 c = b # bs" "chars_in [b] = 1" "chars_in bs = 0" using chars_in_char[of c] Cons.prems by auto
  then have "chars_in (encode_utf8 c) = 1" using chars_in_append[of "[b]" bs] by simp
  then show ?case using Cons by (simp add: utf8_of_def)
qed

lemma chars_in_prefix:
  assumes "\<forall>c \<in> set w. scalar c" "prefix bs (utf8_of w)" "bs \<noteq> []"
  shows "1 \<le> chars_in bs" "chars_in bs \<le> length w"
proof -
  obtain cs where cs: "utf8_of w = bs @ cs" using assms(2) by (auto simp: prefix_def)
  then show "chars_in bs \<le> length w" using chars_in_utf8[OF assms(1)] by simp
  obtain c w' where w: "w = c # w'" using cs assms(3) by (cases w) (auto simp: utf8_of_def)
  obtain b ds where b: "encode_utf8 c = b # ds" "chars_in [b] = 1" using chars_in_char[of c] assms(1) w by auto
  then have "hd bs = b" using cs w assms(3) by (cases bs) (auto simp: utf8_of_def)
  then show "1 \<le> chars_in bs" using b(2) assms(3) chars_in_append[of "[b]" "tl bs"] by (cases bs) auto
qed

section \<open>Candidates\<close>

lemma candidates_loop_prefix:
  "(len, i) \<in> set (candidates_loop trie node seen bs) \<Longrightarrow> \<exists>cs. cs \<noteq> [] \<and> prefix cs bs \<and> len = chars_in (seen @ cs)"
proof (induction trie node seen bs rule: candidates_loop.induct)
  case (2 trie node seen b bs)
  show ?case
  proof (cases "trie_step trie node b")
    case (Some nxt)
    consider "trie_terminal trie nxt = Some i" "len = chars_in (seen @ [b])" | "(len, i) \<in> set (candidates_loop trie nxt (seen @ [b]) bs)"
      using "2.prems" Some by (auto split: option.splits)
    then show ?thesis
    proof cases
      case 1
      then show ?thesis by (intro exI[of _ "[b]"]) simp
    next
      case 2
      then obtain cs where "prefix cs bs" "len = chars_in ((seen @ [b]) @ cs)" using "2.IH"[OF Some] by blast
      then show ?thesis by (intro exI[of _ "b # cs"]) simp
    qed
  qed (use "2.prems" in simp)
qed simp

lemma candidates_len:
  assumes "\<forall>c \<in> set w. scalar c" "(len, i) \<in> set (plamo2_candidates trie w)"
  shows "1 \<le> len" "len \<le> length w"
proof -
  obtain cs where "cs \<noteq> []" "prefix cs (utf8_of w)" "len = chars_in cs"
    using assms(2) candidates_loop_prefix[of len i trie 0 "[]" "utf8_of w"] by (auto simp: plamo2_candidates_def split: if_splits)
  then show "1 \<le> len" "len \<le> length w" using chars_in_prefix[OF assms(1)] by auto
qed

section \<open>Segmentations\<close>

text \<open>A segmentation takes an admitted entry or falls back to one character; the fallback costs ten million.\<close>

fun plamo2_cover :: "(nat \<Rightarrow> int) \<Rightarrow> VocabTrie \<Rightarrow> ustr \<Rightarrow> (nat \<times> nat option) list \<Rightarrow> bool" where
  "plamo2_cover score trie w [] \<longleftrightarrow> w = []"
| "plamo2_cover score trie w ((len, choice) # cs) \<longleftrightarrow>
     w \<noteq> [] \<and> (case choice of
        None \<Rightarrow> len = 1
      | Some i \<Rightarrow> (len, i) \<in> set (plamo2_candidates trie w) \<and> INVALID_SCORE < score i)
     \<and> plamo2_cover score trie (drop len w) cs"

fun plamo2_cost :: "(nat \<Rightarrow> int) \<Rightarrow> (nat \<times> nat option) list \<Rightarrow> int" where
  "plamo2_cost score [] = 0"
| "plamo2_cost score ((len, choice) # cs) = (case choice of None \<Rightarrow> - UNKNOWN_SCORE | Some i \<Rightarrow> - score i) + plamo2_cost score cs"

fun plamo2_tokens :: "'f Tokenizer \<Rightarrow> ustr \<Rightarrow> (nat \<times> nat option) list \<Rightarrow> nat list" where
  "plamo2_tokens tk w [] = []"
| "plamo2_tokens tk w ((len, choice) # cs) =
     (case choice of Some t \<Rightarrow> [t] | None \<Rightarrow> List.map_filter (tk_byte_ids tk) (encode_utf8 (hd w))) @ plamo2_tokens tk (drop len w) cs"

section \<open>Rows\<close>

lemma plamo2_rows_length:
  "length (fst (plamo2_rows score trie w)) = Suc (length w)" "length (snd (plamo2_rows score trie w)) = length w"
  by (induction w) (auto simp: split_beta)

lemma plamo2_rows_drop:
  "k \<le> length w \<Longrightarrow> drop k (fst (plamo2_rows score trie w)) = fst (plamo2_rows score trie (drop k w))
     \<and> drop k (snd (plamo2_rows score trie w)) = snd (plamo2_rows score trie (drop k w))"
proof (induction w arbitrary: k)
  case (Cons c w)
  then show ?case by (cases k) (auto simp: split_beta)
qed auto

definition least_cost :: "(nat \<Rightarrow> int) \<Rightarrow> VocabTrie \<Rightarrow> ustr \<Rightarrow> int" where
  "least_cost score trie w = fst (plamo2_rows score trie w) ! 0"

lemma least_cost_drop:
  assumes "k \<le> length w"
  shows "fst (plamo2_rows score trie w) ! k = least_cost score trie (drop k w)"
proof -
  have "fst (plamo2_rows score trie w) ! k = drop k (fst (plamo2_rows score trie w)) ! 0"
    using assms plamo2_rows_length(1)[of score trie w] by simp
  then show ?thesis unfolding least_cost_def using plamo2_rows_drop[OF assms] by simp
qed

definition piece_ok :: "(nat \<Rightarrow> int) \<Rightarrow> (nat \<times> nat) list \<Rightarrow> nat \<Rightarrow> nat \<Rightarrow> bool" where
  "piece_ok score cands len i \<longleftrightarrow> (len, i) \<in> set cands \<and> INVALID_SCORE < score i"

lemma try_cases:
  "plamo2_try score scores (len, i) st =
     (if INVALID_SCORE < score i \<and> scores ! (len - 1) - score i < fst st then (scores ! (len - 1) - score i, (len, Some i)) else st)"
  by (cases st) (auto simp: plamo2_try_def Let_def)

lemma fold_try:
  "fst (fold (plamo2_try score scores) cands st) \<le> fst st
   \<and> (\<forall>len i. piece_ok score cands len i \<longrightarrow> fst (fold (plamo2_try score scores) cands st) \<le> scores ! (len - 1) - score i)
   \<and> (fold (plamo2_try score scores) cands st = st
       \<or> (\<exists>len i. piece_ok score cands len i \<and> fold (plamo2_try score scores) cands st = (scores ! (len - 1) - score i, (len, Some i))))"
proof (induction cands arbitrary: st)
  case (Cons c cands)
  obtain len i where c: "c = (len, i)" by fastforce
  define st1 where "st1 = plamo2_try score scores c st"
  have st1: "fst st1 \<le> fst st" "INVALID_SCORE < score i \<Longrightarrow> fst st1 \<le> scores ! (len - 1) - score i"
    "st1 = st \<or> INVALID_SCORE < score i \<and> st1 = (scores ! (len - 1) - score i, (len, Some i))"
    by (auto simp: st1_def c try_cases)
  have pc: "piece_ok score (c # cands) l j \<longleftrightarrow> l = len \<and> j = i \<and> INVALID_SCORE < score i \<or> piece_ok score cands l j" for l j
    by (auto simp: piece_ok_def c)
  have f: "fold (plamo2_try score scores) (c # cands) st = fold (plamo2_try score scores) cands st1" by (simp add: st1_def)
  note IH = Cons.IH[of st1]
  show ?case unfolding f
  proof (intro conjI allI impI)
    show "fst (fold (plamo2_try score scores) cands st1) \<le> fst st" using IH st1(1) by linarith
    show "fst (fold (plamo2_try score scores) cands st1) \<le> scores ! (l - 1) - score j" if "piece_ok score (c # cands) l j" for l j
      using that IH st1(2) unfolding pc by (meson order_trans)
    show "fold (plamo2_try score scores) cands st1 = st
       \<or> (\<exists>len i. piece_ok score (c # cands) len i \<and> fold (plamo2_try score scores) cands st1 = (scores ! (len - 1) - score i, (len, Some i)))"
      using IH st1(3) unfolding pc by metis
  qed
qed (simp add: piece_ok_def)

text \<open>What a row chooses: the least of the fallback and the admitted pieces.\<close>

lemma plamo2_row_spec:
  assumes start: "scores ! 0 - UNKNOWN_SCORE < 2 ^ 60"
  shows "fst (plamo2_row score trie scores w) \<le> scores ! 0 - UNKNOWN_SCORE"
    and "piece_ok score (plamo2_candidates trie w) len i \<Longrightarrow> fst (plamo2_row score trie scores w) \<le> scores ! (len - 1) - score i"
    and "plamo2_row score trie scores w = (scores ! 0 - UNKNOWN_SCORE, (1, None))
      \<or> (\<exists>len i. piece_ok score (plamo2_candidates trie w) len i \<and> plamo2_row score trie scores w = (scores ! (len - 1) - score i, (len, Some i)))"
proof -
  let ?r = "fold (plamo2_try score scores) (rev (plamo2_candidates trie w)) (2 ^ 60, (1, None))"
  have row: "plamo2_row score trie scores w = (if scores ! 0 - UNKNOWN_SCORE < fst ?r then (scores ! 0 - UNKNOWN_SCORE, (1, None)) else ?r)"
    by (auto simp: plamo2_row_def Let_def split_beta)
  have po: "piece_ok score (rev cs) = piece_ok score cs" for cs by (intro ext) (simp add: piece_ok_def)
  note f = fold_try[of score scores "rev (plamo2_candidates trie w)" "(2 ^ 60, (1, None))", unfolded po]
  show "fst (plamo2_row score trie scores w) \<le> scores ! 0 - UNKNOWN_SCORE" unfolding row by simp
  show "fst (plamo2_row score trie scores w) \<le> scores ! (len - 1) - score i" if "piece_ok score (plamo2_candidates trie w) len i"
    using f that unfolding row by fastforce
  show "plamo2_row score trie scores w = (scores ! 0 - UNKNOWN_SCORE, (1, None))
      \<or> (\<exists>len i. piece_ok score (plamo2_candidates trie w) len i \<and> plamo2_row score trie scores w = (scores ! (len - 1) - score i, (len, Some i)))"
    using f start unfolding row by (cases "scores ! 0 - UNKNOWN_SCORE < fst ?r") auto
qed

section \<open>The dynamic program\<close>

text \<open>The bound keeps every sum below the initial value of the table.\<close>

definition plamo2_bound :: "ustr \<Rightarrow> bool" where
  "plamo2_bound w \<longleftrightarrow> scalars w \<and> length w \<le> 10 ^ 10"

lemma plamo2_boundD:
  "plamo2_bound w \<Longrightarrow> scalars w" "plamo2_bound w \<Longrightarrow> length w \<le> 10 ^ 10" "plamo2_bound (c # w) \<Longrightarrow> plamo2_bound w"
  by (auto simp: plamo2_bound_def)

lemma least_cost_Cons:
  "least_cost score trie (c # w) = fst (plamo2_row score trie (fst (plamo2_rows score trie w)) (c # w))"
  "snd (plamo2_rows score trie (c # w)) ! 0 = snd (plamo2_row score trie (fst (plamo2_rows score trie w)) (c # w))"
  by (simp_all add: least_cost_def split_beta)

lemma least_cost_le: "length w \<le> 10 ^ 10 \<Longrightarrow> least_cost score trie w \<le> 10 ^ 7 * int (length w)"
proof (induction w)
  case (Cons c w)
  have IH: "least_cost score trie w \<le> 10 ^ 7 * int (length w)" using Cons by simp
  have "fst (plamo2_rows score trie w) ! 0 - UNKNOWN_SCORE < 2 ^ 60"
    using IH Cons.prems by (simp add: least_cost_def UNKNOWN_SCORE_def)
  from plamo2_row_spec(1)[OF this, of score trie "c # w"] show ?case
    unfolding least_cost_Cons(1) using IH by (simp add: least_cost_def UNKNOWN_SCORE_def)
qed (simp add: least_cost_def)

lemma row_start: "plamo2_bound (c # w) \<Longrightarrow> fst (plamo2_rows score trie w) ! 0 - UNKNOWN_SCORE < 2 ^ 60"
  using least_cost_le[of w score trie] by (simp add: plamo2_bound_def least_cost_def UNKNOWN_SCORE_def)

lemma piece_len:
  assumes "plamo2_bound w" "piece_ok score (plamo2_candidates trie w) len i"
  shows "1 \<le> len" "len \<le> length w"
  using candidates_len[of w len i trie] assms by (auto simp: piece_ok_def plamo2_bound_def)

lemma later_row:
  assumes "1 \<le> len" "len \<le> length (c # w)"
  shows "fst (plamo2_rows score trie w) ! (len - 1) = least_cost score trie (drop len (c # w))"
  using least_cost_drop[of "len - 1" w score trie] assms by (cases len) auto

lemma least_cost_lower:
  "plamo2_bound w \<Longrightarrow> plamo2_cover score trie w cs \<Longrightarrow> least_cost score trie w \<le> plamo2_cost score cs"
proof (induction cs arbitrary: w)
  case Nil
  then show ?case by (simp add: least_cost_def)
next
  case (Cons p cs)
  obtain len pick where p: "p = (len, pick)" by fastforce
  obtain c v where w: "w = c # v" using Cons.prems(2) p by (cases w) auto
  note start = row_start[OF Cons.prems(1)[unfolded w], of score trie]
  have sub: "plamo2_bound (drop k w)" for k using Cons.prems(1) by (auto simp: plamo2_bound_def dest: in_set_dropD)
  have rest: "least_cost score trie (drop len w) \<le> plamo2_cost score cs" using Cons.IH[OF sub] Cons.prems(2) p by simp
  show ?case
  proof (cases pick)
    case None
    then have len: "len = 1" using Cons.prems(2) p by simp
    have "least_cost score trie w \<le> least_cost score trie v - UNKNOWN_SCORE" using plamo2_row_spec(1)[OF start, of score trie "c # v"] unfolding w least_cost_Cons(1) by (simp add: least_cost_def)
    then show ?thesis using rest None len by (simp add: p w)
  next
    case (Some i)
    then have ok: "piece_ok score (plamo2_candidates trie (c # v)) len i" using Cons.prems(2) by (simp add: p w piece_ok_def)
    note l = piece_len[OF Cons.prems(1)[unfolded w] ok]
    have "least_cost score trie w \<le> least_cost score trie (drop len (c # v)) - score i"
      using plamo2_row_spec(2)[OF start ok] later_row[OF l] by (simp add: w least_cost_Cons)
    then show ?thesis using rest Some by (simp add: p w)
  qed
qed

lemma plamo2_emit_best:
  "plamo2_bound w \<Longrightarrow> length w \<le> fuel \<Longrightarrow>
     \<exists>cs. plamo2_cover score trie w cs \<and> plamo2_cost score cs = least_cost score trie w
       \<and> plamo2_emit tk fuel w (snd (plamo2_rows score trie w)) = Some (plamo2_tokens tk w cs)"
proof (induction fuel arbitrary: w)
  case 0
  then show ?case by (intro exI[of _ "[]"]) (simp add: least_cost_def)
next
  case (Suc f)
  show ?case
  proof (cases w)
    case Nil
    then show ?thesis by (intro exI[of _ "[]"]) (simp add: least_cost_def)
  next
    case (Cons c v)
    note b = Suc.prems(1)[unfolded Cons]
    let ?row = "plamo2_row score trie (fst (plamo2_rows score trie v)) (c # v)"
    have sub: "plamo2_bound (drop k w)" for k using Suc.prems(1) by (auto simp: plamo2_bound_def dest: in_set_dropD)
    have step: "\<exists>cs. plamo2_cover score trie w cs \<and> plamo2_cost score cs = least_cost score trie w
       \<and> plamo2_emit tk (Suc f) w (snd (plamo2_rows score trie w)) = Some (plamo2_tokens tk w cs)"
      if row: "?row = (least_cost score trie (drop len w) + d, (len, pick))" and len: "1 \<le> len" "len \<le> length w"
        and d: "d = (case pick of None \<Rightarrow> - UNKNOWN_SCORE | Some i \<Rightarrow> - score i)"
        and pick: "case pick of None \<Rightarrow> len = 1 | Some i \<Rightarrow> (len, i) \<in> set (plamo2_candidates trie w) \<and> INVALID_SCORE < score i"
      for len d pick
    proof -
      obtain cs where cs: "plamo2_cover score trie (drop len w) cs" "plamo2_cost score cs = least_cost score trie (drop len w)"
        "plamo2_emit tk f (drop len w) (snd (plamo2_rows score trie (drop len w))) = Some (plamo2_tokens tk (drop len w) cs)"
      proof -
        have "length (drop len w) \<le> f" using Suc.prems(2) len by simp
        from Suc.IH[OF sub this] show ?thesis using that by blast
      qed
      have "least_cost score trie w = plamo2_cost score ((len, pick) # cs)"
        using row cs(2) d by (simp add: Cons least_cost_Cons(1))
      moreover have "plamo2_cover score trie w ((len, pick) # cs)" using cs(1) pick unfolding Cons by simp
      moreover have "plamo2_emit tk (Suc f) w (snd (plamo2_rows score trie w)) = Some (plamo2_tokens tk w ((len, pick) # cs))"
        using cs(3) row least_cost_Cons(2)[of score trie c v] plamo2_rows_drop[OF len(2), of score trie]
        by (simp add: Cons split: option.split)
      ultimately show ?thesis by metis
    qed
    from plamo2_row_spec(3)[OF row_start[OF b, of score trie], of score trie "c # v"] show ?thesis
    proof
      assume r: "?row = (fst (plamo2_rows score trie v) ! 0 - UNKNOWN_SCORE, (1, None))"
      show ?thesis using r by (intro step[of 1 "- UNKNOWN_SCORE" None]) (simp_all add: Cons least_cost_def)
    next
      assume "\<exists>len i. piece_ok score (plamo2_candidates trie (c # v)) len i
        \<and> ?row = (fst (plamo2_rows score trie v) ! (len - 1) - score i, (len, Some i))"
      then obtain len i where ok: "piece_ok score (plamo2_candidates trie (c # v)) len i"
        and r: "?row = (fst (plamo2_rows score trie v) ! (len - 1) - score i, (len, Some i))" by blast
      note l = piece_len[OF b ok]
      show ?thesis using r l later_row[OF l] ok by (intro step[of len "- score i" "Some i"]) (simp_all add: Cons piece_ok_def)
    qed
  qed
qed

end
