(* ===== verification/Tok_Nfc_Facts.thy ===== *)
theory Tok_Nfc_Facts
  imports Tok_Nfc "HOL-Library.Multiset"
begin

text \<open>
  Normalization: the short cut of \<open>nfc\<close> changes nothing, canonical ordering moves no character across a starter or
  past one of its own class, and Hangul syllables survive decomposition and composition.
\<close>

section \<open>What the tables say of characters that never change\<close>

text \<open>
  Nothing below U+0080 is in the tables, no conjoining jamo has a class or is the second half of a composition, and
  every second half is listed.
\<close>

definition tables_ok :: "nfc_tables \<Rightarrow> bool" where
  "tables_ok T \<longleftrightarrow>
     (\<forall>(c, _) \<in> set (DECOMPOSITION T). 128 \<le> c)
     \<and> (\<forall>(c, _) \<in> set (COMBINING_CLASS T). 128 \<le> c \<and> \<not> is_hangul_jamo c)
     \<and> (\<forall>((_, b), _) \<in> set (COMPOSITION T). b \<in> set (COMPOSITION_SECOND T))
     \<and> (\<forall>b \<in> set (COMPOSITION_SECOND T). 128 \<le> b \<and> \<not> is_hangul_jamo b)"

definition inert :: "nfc_tables \<Rightarrow> nat \<Rightarrow> bool" where
  "inert T c \<longleftrightarrow> decomposition_of T c = None \<and> combining_class T c = 0 \<and> \<not> is_hangul_jamo c \<and> \<not> is_composition_second T c"

lemma inert_if_not_needed: "\<not> needs_normalization T w \<Longrightarrow> \<forall>c \<in> set w. inert T c"
  by (auto simp: needs_normalization_def inert_def)

lemma map_of_not_key: "(\<And>v. (k, v) \<notin> set xs) \<Longrightarrow> map_of xs k = None"
  by (metis map_of_SomeD not_None_eq)

lemma inert_ascii:
  assumes ok: "tables_ok T" and c: "c < 128"
  shows "inert T c"
proof -
  have "map_of (DECOMPOSITION T) c = None" "map_of (COMBINING_CLASS T) c = None"
    using ok c by (auto intro!: map_of_not_key simp: tables_ok_def)
  moreover have "\<not> is_composition_second T c" using ok c by (auto simp: tables_ok_def is_composition_second_def)
  moreover have "\<not> is_hangul_jamo c" using c by (simp add: is_hangul_jamo_def among_def hangul_defs)
  ultimately show ?thesis by (simp add: inert_def decomposition_of_def combining_class_def)
qed

lemma class_jamo: "tables_ok T \<Longrightarrow> is_hangul_jamo c \<Longrightarrow> combining_class T c = 0"
  unfolding combining_class_def by (subst map_of_not_key) (auto simp: tables_ok_def)

lemma no_composition: "tables_ok T \<Longrightarrow> \<not> is_composition_second T b \<Longrightarrow> map_of (COMPOSITION T) (a, b) = None"
  by (rule map_of_not_key) (force simp: tables_ok_def is_composition_second_def)

lemma jamo_not_second: "tables_ok T \<Longrightarrow> is_hangul_jamo b \<Longrightarrow> \<not> is_composition_second T b"
  by (auto simp: tables_ok_def is_composition_second_def)

lemma compose_pair_inert: "tables_ok T \<Longrightarrow> inert T b \<Longrightarrow> compose_pair T a b = None"
  by (auto simp: compose_pair_def inert_def no_composition is_hangul_jamo_def)

section \<open>Hangul syllables\<close>

definition hangul_l :: "nat \<Rightarrow> nat" where "hangul_l cp = L_BASE + (cp - S_BASE) div N_COUNT"
definition hangul_v :: "nat \<Rightarrow> nat" where "hangul_v cp = V_BASE + (cp - S_BASE) mod N_COUNT div T_COUNT"
definition hangul_t :: "nat \<Rightarrow> nat" where "hangul_t cp = (cp - S_BASE) mod T_COUNT"

lemma push_syllable:
  "is_hangul_syllable cp \<Longrightarrow>
     push_decomposed T fuel cp = [hangul_l cp, hangul_v cp] @ (if hangul_t cp \<noteq> 0 then [T_BASE + hangul_t cp] else [])"
  by (subst push_decomposed.simps) (simp add: Let_def hangul_l_def hangul_v_def hangul_t_def)

lemma hangul_parts:
  assumes "is_hangul_syllable cp"
  shows "among L_BASE L_COUNT (hangul_l cp)" "among V_BASE V_COUNT (hangul_v cp)" "hangul_t cp < T_COUNT"
proof -
  have s: "cp - S_BASE < 19 * 588"
    using assms unfolding is_hangul_syllable_def among_def hangul_defs by linarith
  then have "(cp - S_BASE) div 588 < 19" by (simp add: less_mult_imp_div_less)
  moreover have "(cp - S_BASE) mod 588 div 28 < 21" by (simp add: less_mult_imp_div_less)
  ultimately show "among L_BASE L_COUNT (hangul_l cp)" "among V_BASE V_COUNT (hangul_v cp)" "hangul_t cp < T_COUNT"
    by (simp_all add: among_def hangul_l_def hangul_v_def hangul_t_def hangul_defs)
qed

lemma hangul_sum:
  assumes "is_hangul_syllable cp"
  shows "S_BASE + ((hangul_l cp - L_BASE) * V_COUNT + (hangul_v cp - V_BASE)) * T_COUNT + hangul_t cp = cp"
proof -
  have "((cp - S_BASE) div 588 * 21 + (cp - S_BASE) mod 588 div 28) * 28 + (cp - S_BASE) mod 28 = cp - S_BASE"
  proof -
    have a: "(cp - S_BASE) mod 588 div 28 * 28 + (cp - S_BASE) mod 588 mod 28 = (cp - S_BASE) mod 588" by (rule div_mult_mod_eq)
    have b: "(cp - S_BASE) mod 588 mod 28 = (cp - S_BASE) mod 28" by (rule mod_mod_cancel) simp
    have c: "(cp - S_BASE) div 588 * 588 + (cp - S_BASE) mod 588 = cp - S_BASE" by (rule div_mult_mod_eq)
    have "(q * 21 + d) * 28 + m = x" if "d * 28 + m = r" "q * 588 + r = x" for q d m r x :: nat
      using that by simp
    from this[OF a[unfolded b] c] show ?thesis .
  qed
  moreover have "(hangul_l cp - L_BASE) * V_COUNT + (hangul_v cp - V_BASE)
      = (cp - S_BASE) div 588 * 21 + (cp - S_BASE) mod 588 div 28"
    by (simp add: hangul_l_def hangul_v_def V_COUNT_def N_COUNT_def T_COUNT_def)
  moreover have "hangul_t cp = (cp - S_BASE) mod 28" by (simp add: hangul_t_def T_COUNT_def)
  moreover have "S_BASE \<le> cp" using assms by (simp add: is_hangul_syllable_def among_def)
  ultimately show ?thesis unfolding T_COUNT_def by (simp only: add.assoc le_add_diff_inverse)
qed

lemma compose_lv:
  assumes "is_hangul_syllable cp"
  shows "compose_pair T (hangul_l cp) (hangul_v cp) = Some (cp - hangul_t cp)"
  using hangul_parts[OF assms] hangul_sum[OF assms] by (simp add: compose_pair_def)

lemma compose_lvt:
  assumes s: "is_hangul_syllable cp" and t: "hangul_t cp \<noteq> 0"
  shows "compose_pair T (cp - hangul_t cp) (T_BASE + hangul_t cp) = Some cp"
proof -
  have b: "S_BASE \<le> cp" "cp < S_BASE + S_COUNT" using s by (auto simp: is_hangul_syllable_def among_def)
  have m: "(cp - hangul_t cp - S_BASE) mod T_COUNT = 0"
  proof -
    have "cp - hangul_t cp - S_BASE = (cp - S_BASE) - (cp - S_BASE) mod 28" by (simp add: hangul_t_def hangul_defs)
    then show ?thesis by (simp add: T_COUNT_def minus_mod_eq_mult_div)
  qed
  have le: "S_BASE \<le> cp - hangul_t cp"
  proof -
    have "hangul_t cp \<le> cp - S_BASE" by (simp add: hangul_t_def)
    then show ?thesis using b by linarith
  qed
  have "is_hangul_syllable (cp - hangul_t cp)" using b le by (simp add: is_hangul_syllable_def among_def)
  moreover have "\<not> among L_BASE L_COUNT (cp - hangul_t cp)" using le by (simp add: among_def hangul_defs)
  moreover have "among (T_BASE + 1) (T_COUNT - 1) (T_BASE + hangul_t cp)" using t hangul_parts(3)[OF s] by (simp add: among_def hangul_defs)
  moreover have "hangul_t cp \<le> cp" using le_trans[OF mod_less_eq_dividend diff_le_self] by (simp add: hangul_t_def)
  ultimately show ?thesis using m le b by (simp add: compose_pair_def)
qed

section \<open>The pipeline leaves inert text alone\<close>

lemma push_inert: "inert T c \<Longrightarrow> \<not> is_hangul_syllable c \<Longrightarrow> push_decomposed T fuel c = [c]"
  by (subst push_decomposed.simps) (simp add: inert_def)

lemma order_starters: "\<forall>c \<in> set w. combining_class T c = 0 \<Longrightarrow> canonical_order T w = w"
  by (induction w) (subst canonical_order.simps, simp)+

lemma decompose_starters:
  "tables_ok T \<Longrightarrow> \<forall>c \<in> set w. inert T c \<Longrightarrow> \<forall>c \<in> set (decompose T w). combining_class T c = 0"
proof (induction w)
  case (Cons c w)
  have "\<forall>x \<in> set (push_decomposed T n c). combining_class T x = 0" for n
  proof (cases "is_hangul_syllable c")
    case True
    then show ?thesis
      using class_jamo[OF Cons.prems(1)] hangul_parts[OF True]
      by (auto simp: push_syllable is_hangul_jamo_def among_def hangul_defs)
  next
    case False
    then show ?thesis using Cons.prems(2) by (simp add: push_inert inert_def)
  qed
  then show ?case using Cons by (auto simp: decompose_def)
qed (simp add: decompose_def)

text \<open>The loop where the character written last is a starter, or nothing is written.\<close>

definition last_starter :: "nat list \<Rightarrow> nat option" where
  "last_starter out = (if out = [] then None else Some (length out - 1))"

lemma loop_push:
  assumes "combining_class T c = 0" "out \<noteq> [] \<Longrightarrow> compose_pair T (last out) c = None"
  shows "compose_loop T out (last_starter out) 0 (c # cps) = compose_loop T (out @ [c]) (last_starter (out @ [c])) 0 cps"
  using assms by (cases "out = []") (simp_all add: last_starter_def Let_def last_conv_nth)

lemma loop_compose:
  assumes "compose_pair T a c = Some d" "combining_class T c = 0"
  shows "compose_loop T (out @ [a]) (last_starter (out @ [a])) 0 (c # cps) = compose_loop T (out @ [d]) (last_starter (out @ [d])) 0 cps"
  using assms by (simp add: last_starter_def Let_def)

lemma compose_inert:
  "tables_ok T \<Longrightarrow> \<forall>c \<in> set w. inert T c \<Longrightarrow>
     compose_loop T out (last_starter out) 0 (concat (map (\<lambda>c. push_decomposed T n c) w)) = out @ w"
proof (induction w arbitrary: out)
  case (Cons c w)
  let ?rest = "concat (map (\<lambda>c. push_decomposed T n c) w)"
  note ok = Cons.prems(1)
  have "compose_loop T out (last_starter out) 0 (push_decomposed T n c @ ?rest)
      = compose_loop T (out @ [c]) (last_starter (out @ [c])) 0 ?rest"
  proof (cases "is_hangul_syllable c")
    case False
    then show ?thesis
      using push_inert[of T c n] Cons.prems compose_pair_inert[OF ok, of c] loop_push[of T c out] by (simp add: inert_def)
  next
    case True
    note p = hangul_parts[OF True]
    have jamo: "is_hangul_jamo (hangul_l c)" "is_hangul_jamo (hangul_v c)" "hangul_t c \<noteq> 0 \<Longrightarrow> is_hangul_jamo (T_BASE + hangul_t c)"
      using p by (auto simp: is_hangul_jamo_def among_def hangul_defs)
    have l: "compose_pair T a (hangul_l c) = None" for a
      using no_composition[OF ok jamo_not_second[OF ok jamo(1)]] p(1) by (auto simp: compose_pair_def among_def hangul_defs)
    note cls = jamo[THEN class_jamo[OF ok]]
    show ?thesis
      using loop_push[OF cls(1) l, of out] loop_compose[OF compose_lv[OF True] cls(2), of out] compose_lvt[OF True]
        loop_compose[of T "c - hangul_t c" "T_BASE + hangul_t c" c out] cls(3)
      by (cases "hangul_t c = 0") (simp_all add: push_syllable[OF True])
  qed
  then show ?case using Cons.IH[OF ok, of "out @ [c]"] Cons.prems(2) by simp
qed simp

lemma pipeline_inert:
  assumes "tables_ok T" "\<forall>c \<in> set w. inert T c"
  shows "compose T (canonical_order T (decompose T w)) = w"
  using compose_inert[OF assms, of "[]" "length (DECOMPOSITION T)"] order_starters[OF decompose_starters[OF assms]]
  by (simp add: compose_def decompose_def last_starter_def)

section \<open>Canonical ordering\<close>

definition ordered :: "nfc_tables \<Rightarrow> nat list \<Rightarrow> bool" where
  "ordered T w \<longleftrightarrow> successively (\<lambda>a b. combining_class T b = 0 \<or> combining_class T a \<le> combining_class T b) w"

lemma sorted_successively: "sorted (map f xs) \<Longrightarrow> successively (\<lambda>a b. g b \<or> f a \<le> f b) xs"
  by (induction xs rule: induct_list012) auto

lemma dropWhile_head: "dropWhile P xs = d # ds \<Longrightarrow> \<not> P d"
  by (induction xs) (auto split: if_splits)

lemma canonical_order_spec:
  "ordered T (canonical_order T w)
   \<and> filter (\<lambda>c. combining_class T c = 0 \<or> combining_class T c = k) (canonical_order T w)
      = filter (\<lambda>c. combining_class T c = 0 \<or> combining_class T c = k) w"
proof (induction T w rule: canonical_order.induct)
  case (1 T cps)
  let ?cls = "combining_class T"
  show ?case
  proof (cases cps)
    case Nil
    then show ?thesis by (subst (1 2) canonical_order.simps) (simp add: ordered_def)
  next
    case (Cons c rest)
    show ?thesis
    proof (cases "?cls c = 0")
      case True
      have e: "canonical_order T cps = c # canonical_order T rest" using Cons True by (subst canonical_order.simps) simp
      show ?thesis using "1.IH"(1)[OF Cons True] True unfolding e by (simp add: Cons ordered_def successively_Cons)
    next
      case False
      let ?run = "takeWhile (\<lambda>c. ?cls c \<noteq> 0) cps" and ?rest = "dropWhile (\<lambda>c. ?cls c \<noteq> 0) cps"
      have e: "canonical_order T cps = sort_key ?cls ?run @ canonical_order T ?rest"
        using Cons False by (subst canonical_order.simps) simp
      note IH = "1.IH"(2)[OF Cons False]
      have nz: "\<forall>x \<in> set ?run. ?cls x \<noteq> 0" by (auto dest: set_takeWhileD)
      have hd: "canonical_order T ?rest = [] \<or> ?cls (hd (canonical_order T ?rest)) = 0"
      proof (cases ?rest)
        case Nil
        have "canonical_order T [] = []" by (subst canonical_order.simps) simp
        then show ?thesis unfolding Nil by simp
      next
        case (Cons d ds)
        have "?cls d = 0" using dropWhile_head[OF Cons] by simp
        then show ?thesis unfolding Cons by (subst (2) canonical_order.simps) simp
      qed
      have "ordered T (sort_key ?cls ?run)" unfolding ordered_def by (rule sorted_successively) simp
      then have o: "ordered T (canonical_order T cps)"
        using IH hd unfolding e ordered_def by (auto simp: successively_append_iff)
      have "filter (\<lambda>c. ?cls c = 0 \<or> ?cls c = k) (sort_key ?cls ?run) = filter (\<lambda>c. ?cls c = k) (sort_key ?cls ?run)"
        if "k \<noteq> 0" using nz by (intro filter_cong) auto
      moreover have "filter (\<lambda>c. ?cls c = 0 \<or> ?cls c = k) ?run = filter (\<lambda>c. ?cls c = k) ?run" if "k \<noteq> 0"
        using nz by (intro filter_cong) auto
      moreover have "filter (\<lambda>c. ?cls c = 0 \<or> ?cls c = 0) xs = []" if "set xs = set ?run" for xs
        using nz that by (auto simp: filter_empty_conv)
      ultimately have "filter (\<lambda>c. ?cls c = 0 \<or> ?cls c = k) (sort_key ?cls ?run) = filter (\<lambda>c. ?cls c = 0 \<or> ?cls c = k) ?run"
        by (cases "k = 0") (simp_all add: sort_key_stable)
      moreover have "filter P cps = filter P ?run @ filter P ?rest" for P
        using filter_append[of P ?run ?rest] by (simp only: takeWhile_dropWhile_id)
      ultimately have "filter (\<lambda>c. ?cls c = 0 \<or> ?cls c = k) (canonical_order T cps) = filter (\<lambda>c. ?cls c = 0 \<or> ?cls c = k) cps"
        using conjunct2[OF IH] by (simp only: e filter_append)
      with o show ?thesis by blast
    qed
  qed
qed

end
