(* ===== verification/Tok_Props.thy ===== *)
theory Tok_Props
  imports Tok_Total Tok_Plamo Tok_Nfc_Facts Sampler_Props
begin

text \<open>
  The properties of the tokenizer: the hand-written splits against their documented patterns, the merge loops against
  the greedy rules, round trips, optimal segmentations, normalization, and what a loaded tokenizer is ready for.
\<close>

section \<open>Splits\<close>

definition ascii_classes :: char_classes where
  "ascii_classes = \<lparr>cl_letter = (\<lambda>c. 65 \<le> c \<and> c \<le> 90 \<or> 97 \<le> c \<and> c \<le> 122), cl_number = (\<lambda>c. 48 \<le> c \<and> c \<le> 57), cl_mark = (\<lambda>c. c = 0x301)\<rparr>"




text \<open>
  C22: the merge loop of byte-level BPE computes the greedy rule. Merging an adjacent pair of the lowest rank, the
  leftmost of equals, as long as a pair is ranked, ends in exactly one word from any start, and the loop returns that
  word; the characters are kept.
\<close>

theorem bpe_merge_is_greedy:
  "{v. (bpe_step merges)\<^sup>*\<^sup>* word v \<and> (\<nexists>u. bpe_step merges v u)} = {bpe_merge merges word}
   \<and> concat (bpe_merge merges word) = concat word"
  using bpe_merge_unique[of merges word] bpe_merge_steps[of merges word] by auto

text \<open>
  C26: the trie of a vocabulary finds exactly its entries. The matches at a position are the pairs of an entry and
  the end of an occurrence that starts there, the last entry of a spelling winning, shortest first; the longest
  prefix is the last of them.
\<close>

theorem trie_matches_exact:
  "set (trie_matches (build_trie entries) bytes start) =
     {(i, stop). start < stop \<and> stop \<le> length bytes \<and> map_of (rev entries) (take (stop - start) (drop start bytes)) = Some i}
   \<and> sorted_wrt (<) (map snd (trie_matches (build_trie entries) bytes start))
   \<and> longest_prefix_bytes (build_trie entries) bytes =
       (case trie_matches (build_trie entries) bytes 0 of [] \<Rightarrow> None | ms \<Rightarrow> Some (last ms))"
proof (intro conjI)
  show "set (trie_matches (build_trie entries) bytes start) =
     {(i, stop). start < stop \<and> stop \<le> length bytes \<and> map_of (rev entries) (take (stop - start) (drop start bytes)) = Some i}"
    using build_trie_ok[of entries] by (auto simp: mem_trie_matches)
qed (rule trie_matches_sorted, rule longest_prefix_matches)

section \<open>Round trips\<close>






definition no_tables :: nfc_tables where
  "no_tables = \<lparr>DECOMPOSITION = [], COMBINING_CLASS = [], COMPOSITION = [], COMPOSITION_SECOND = []\<rparr>"

definition small_unicode :: unicode where
  "small_unicode = char_classes.extend ascii_classes
     \<lparr>un_nonspacing = (\<lambda>c. c = 0x301), un_control = (\<lambda>c. c < 32), un_punctuation = (\<lambda>c. c = 44), un_alphanumeric = (\<lambda>c. 48 \<le> c),
      un_lower = (\<lambda>c. [ascii_lower c])\<rparr>"


section \<open>Greedy and optimal engines\<close>

text \<open>
  C21: the SentencePiece engine follows the greedy rule. From the characters of the text, merging the adjacent pair
  whose joined text has the highest score, the leftmost of equals, until no pair is in the vocabulary, ends in the
  pieces whose tokens it returns; the heap's stale entries and the links between symbols change nothing.
\<close>

theorem spm_encode_is_greedy:
  assumes "scores_ordered N (tk_scores tk)" "w \<noteq> []"
  shows "\<exists>pieces. (spm_step N tk)\<^sup>*\<^sup>* (singletons w) pieces \<and> (\<nexists>pieces'. spm_step N tk pieces pieces')
    \<and> spm_encode N tk w = collect_ids (map (spm_emit tk) pieces)"
  by (rule spm_encode_spec[OF assms])

definition small_spm :: "int Tokenizer" where
  "small_spm = \<lparr>tk_tokens = map chars [''a'', ''b'', ''ab'', ''ba''], tk_scores = [- 1, - 1, 2000000, 2000000],
     tk_types = [1, 1, 1, 1], tk_vocab = vocab_of (map chars [''a'', ''b'', ''ab'', ''ba'']), tk_merges = (\<lambda>_. None),
     tk_model = Spm, tk_pre = None, tk_add_space_prefix = False, tk_byte_ids = (\<lambda>_. None),
     tk_normalizer = \<lparr>nz_lowercase = True, nz_strip_accents = True\<rparr>, tk_max_token_len = 0, tk_unk = 0,
     tk_ugm = empty_ugm fixed, tk_ignore_merges = False, tk_dna = None, tk_remove_extra_whitespaces = False,
     tk_special_by_first = (\<lambda>_. None), tk_bos = 0, tk_eos = 0\<rparr>"

lemma small_spm_scores: "scores_ordered fixed (tk_scores small_spm)"
  by (auto simp: scores_ordered_def small_spm_def fixed_def fixed_ninf_def)

lemma spm_encode_is_greedy_witness:
  "\<exists>pieces. (spm_step fixed small_spm)\<^sup>*\<^sup>* [chars ''a'', chars ''b'', chars ''a''] pieces \<and> (\<nexists>pieces'. spm_step fixed small_spm pieces pieces')
    \<and> spm_encode fixed small_spm (chars ''aba'') = collect_ids (map (spm_emit small_spm) pieces)"
  using spm_encode_is_greedy[OF small_spm_scores, of "chars ''aba''"] by (simp add: chars_def singletons_def)




section \<open>Normalization\<close>

text \<open>
  C27: the shortcuts of normalization are sound. Returning a text of ASCII characters, or one in which no character
  decomposes, combines or follows in a composition, unchanged is what decomposition, canonical ordering and
  composition would have given, Hangul syllables included.
\<close>

theorem nfc_shortcut_sound:
  assumes "tables_ok T"
  shows "nfc T w = compose T (canonical_order T (decompose T w))"
proof (cases "is_ascii w \<or> \<not> needs_normalization T w")
  case True
  then have "\<forall>c \<in> set w. inert T c" using inert_ascii[OF assms] inert_if_not_needed by (auto simp: is_ascii_def)
  then show ?thesis using pipeline_inert[OF assms] True by (simp add: nfc_def)
qed (simp add: nfc_def)

text \<open>The entries of the tables for e with an acute accent, and two marks of different classes.\<close>

definition some_tables :: nfc_tables where
  "some_tables = \<lparr>DECOMPOSITION = [(0xE9, [0x65, 0x301])], COMBINING_CLASS = [(0x301, 230), (0x323, 220)],
     COMPOSITION = [((0x65, 0x301), 0xE9)], COMPOSITION_SECOND = [0x301]\<rparr>"

lemma nfc_shortcut_sound_witness:
  "nfc some_tables [0x65, 0x301, 0xAC01] = compose some_tables (canonical_order some_tables (decompose some_tables [0x65, 0x301, 0xAC01]))
   \<and> nfc some_tables [0x65, 0x301, 0xAC01] = [0xE9, 0xAC01]"
proof
  have "tables_ok some_tables" by (simp add: tables_ok_def some_tables_def is_hangul_jamo_def among_def hangul_defs)
  then show "nfc some_tables [0x65, 0x301, 0xAC01] = compose some_tables (canonical_order some_tables (decompose some_tables [0x65, 0x301, 0xAC01]))"
    by (rule nfc_shortcut_sound)
qed code_simp

section \<open>Streaming and breakers\<close>

text \<open>
  C28: the streamed prefix ends with the last complete character. Of any byte prefix of a text, the bytes that are
  passed on are the characters of the text that lie in it entirely, all of them.
\<close>

theorem complete_prefix_is_longest:
  assumes "scalars w" "prefix p (utf8_of w)"
  shows "\<exists>u. prefix u w \<and> take (complete_utf8_prefix_len p) p = utf8_of u
    \<and> (\<forall>t. prefix t w \<longrightarrow> length (utf8_of t) \<le> length p \<longrightarrow> length t \<le> length u)"
  using prefix_loop_text[of w p "[]"] assms by (auto simp: complete_utf8_prefix_len_def)

lemma complete_prefix_is_longest_witness:
  "(\<exists>u. prefix u [0x61, 0x20AC] \<and> take (complete_utf8_prefix_len [0x61, 0xE2, 0x82]) [0x61, 0xE2, 0x82] = utf8_of u
     \<and> (\<forall>t. prefix t [0x61, 0x20AC] \<longrightarrow> length (utf8_of t) \<le> length [0x61, 0xE2, 0x82 :: byte] \<longrightarrow> length t \<le> length u))
   \<and> complete_utf8_prefix_len [0x61, 0xE2, 0x82] = 1"
proof
  have "prefix [0x61, 0xE2, 0x82] (utf8_of [0x61, 0x20AC])" by code_simp
  then show "\<exists>u. prefix u [0x61, 0x20AC] \<and> take (complete_utf8_prefix_len [0x61, 0xE2, 0x82]) [0x61, 0xE2, 0x82] = utf8_of u
     \<and> (\<forall>t. prefix t [0x61, 0x20AC] \<longrightarrow> length (utf8_of t) \<le> length [0x61, 0xE2, 0x82 :: byte] \<longrightarrow> length t \<le> length u)"
    by (intro complete_prefix_is_longest) (simp_all add: scalar_def)
qed code_simp

text \<open>
  C29: the sequences of a breaker are the tokens that can hold it. The result has the single tokens whose bytes contain
  the breaker and, for a token that ends with the first bytes of it, that token followed by the tokens of the rest;
  nothing else, for every token of the vocabulary.
\<close>

theorem breaker_sequences_exact:
  assumes "overlapping_token_sequences enc tk breaker = Some (Ok out)"
  shows "set out = (\<Union>i < length (tk_tokens tk). token_seqs enc (utf8_of breaker) (decode_bytes tk [i]) i)"
proof -
  have b: "breaker \<noteq> []"
    "breaker_tokens enc (\<lambda>i. decode_bytes tk [i]) (utf8_of breaker) [0..<length (tk_tokens tk)] [] = Some (Ok out)"
    using assms by (auto simp: overlapping_token_sequences_def split: if_splits option.splits sum.splits)
  then have "utf8_of breaker \<noteq> []" by (cases breaker) (simp_all add: utf8_of_def)
  from breaker_tokens_set[OF this b(2)] show ?thesis by (simp add: atLeast0LessThan)
qed

lemma breaker_sequences_exact_witness:
  "overlapping_token_sequences (spm_encode fixed small_spm) small_spm (chars ''ab'') = Some (Ok [[0, 1], [2], [3, 1]])
   \<and> set [[0, 1], [2], [3, 1]] =
       (\<Union>i < length (tk_tokens small_spm). token_seqs (spm_encode fixed small_spm) (utf8_of (chars ''ab'')) (decode_bytes small_spm [i]) i)"
proof -
  have "overlapping_token_sequences (spm_encode fixed small_spm) small_spm (chars ''ab'') = Some (Ok [[0, 1], [2], [3, 1]])" by code_simp
  then show ?thesis using breaker_sequences_exact[of "spm_encode fixed small_spm" small_spm "chars ''ab''"] by blast
qed

section \<open>Loading\<close>

text \<open>A small WordPiece file.\<close>

definition bert_gguf :: GgufContext where
  "bert_gguf = \<lparr>gc_version = 3,
     gc_kv = [new_string (ascii ''tokenizer.ggml.model'') (ascii ''bert''),
              new_string_array (ascii ''tokenizer.ggml.tokens'')
                (map utf8_of [chars ''[UNK]'', SPM_SPACE # chars ''un'', chars ''able'', SPM_SPACE # chars ''unable'', [44]]),
              new_u32 (ascii ''tokenizer.ggml.unknown_token_id'') 0],
     gc_info = [], gc_alignment = 32, gc_offset = 0, gc_size = 0\<rparr>"


lemma ascii_eq: "ascii s = ascii t \<longleftrightarrow> s = t"
proof -
  have i: "inj (\<lambda>c :: char. word_of_nat (of_char c) :: byte)"
  proof (rule injI)
    fix c d :: char assume "word_of_nat (of_char c) = (word_of_nat (of_char d) :: byte)"
    then have "unat (word_of_nat (of_char c) :: byte) = unat (word_of_nat (of_char d) :: byte)" by simp
    then have "of_char c = (of_char d :: nat)" by (simp add: unat_of_nat take_bit_eq_mod)
    then show "c = d" by simp
  qed
  show ?thesis unfolding ascii_def by (simp add: inj_map_eq_map[OF i])
qed

lemmas get_bert = read_array_def bert_gguf_def new_u32_def new_string_def new_string_array_def kv_values_def get_ne_def get_val_str_def asserted_def ascii_eq
  type_size_def value_bytes_def get_val_u32_def get_gguf_str_def get_gguf_bool_def

lemma bert_getters:
  "read_array get_val_f32 ''tokenizer.ggml.scores'' (gc_kv bert_gguf) = Done []"
  "read_array get_val_i32 ''tokenizer.ggml.token_type'' (gc_kv bert_gguf) = Done []"
  "read_arrays get_val_str ''tokenizer.ggml.merges'' (gc_kv bert_gguf) = Done []"
  "get_gguf_bool (gc_kv bert_gguf) key = Done None"
  "get_gguf_u32 (gc_kv bert_gguf) key = Done (if key = ''tokenizer.ggml.unknown_token_id'' then Some 0 else None)"
  "get_gguf_str (gc_kv bert_gguf) ''tokenizer.ggml.model'' = Done (Some (gguf_text (ascii ''bert'')))"
  "read_array get_val_str ''tokenizer.ggml.tokens'' (gc_kv bert_gguf) =
     Done (map utf8_of [chars ''[UNK]'', SPM_SPACE # chars ''un'', chars ''able'', SPM_SPACE # chars ''unable'', [44]])"
  by (simp_all add: get_bert le_bytes_def)

lemma bert_specials: "\<exists>sp'. role_specials (gc_kv bert_gguf) tokens keys sp = Done sp'"
  by (induction keys arbitrary: sp) (simp_all add: bert_getters(5))

lemma bert_accepted:
  "\<exists>tk. load fixed int bert_gguf = Done (Ok tk) \<and> tk_model tk = Bert \<and> tk_scores tk = replicate 5 (n_nat fixed 0)
     \<and> tk_tokens tk = [chars ''[UNK]'', SPM_SPACE # chars ''un'', chars ''able'', SPM_SPACE # chars ''unable'', [44]]"
proof -
  have t: "gguf_text (ascii ''bert'') = chars ''bert''" by code_simp
  have m: "model_from_gguf (Some (chars ''bert'')) = Ok Bert" by (simp add: chars_def)
  have e: "\<exists>tk'. load_bert (gc_kv bert_gguf) tk = Done (Ok tk') \<and> tk_model tk' = Bert \<and> tk_scores tk' = tk_scores tk \<and> tk_tokens tk' = tk_tokens tk" if "tk_tokens tk \<noteq> []" "tk_model tk = Bert" for tk :: "int Tokenizer"
    using that by (simp add: load_bert_def Let_def bert_getters(4,5) unknown_id_def demand_def)
  let ?tokens = "map gguf_text (map utf8_of [chars ''[UNK]'', SPM_SPACE # chars ''un'', chars ''able'', SPM_SPACE # chars ''unable'', [44]])"
  have tx: "?tokens = [chars ''[UNK]'', SPM_SPACE # chars ''un'', chars ''able'', SPM_SPACE # chars ''unable'', [44]]" by code_simp
  obtain sp where sp: "role_specials (gc_kv bert_gguf) ?tokens SPECIAL_ROLE_KEYS (typed_specials ?tokens (replicate (length ?tokens) 1)) = Done sp"
    using bert_specials by blast
  let ?tk = "base_tokenizer fixed ?tokens [] [] [] sp Bert 0 0"
  obtain tk where tk: "load_bert (gc_kv bert_gguf) ?tk = Done (Ok tk)" "tk_model tk = Bert" "tk_scores tk = tk_scores ?tk" "tk_tokens tk = tk_tokens ?tk"
    using e[of ?tk] by (auto simp: base_tokenizer_def)
  have "load fixed int bert_gguf = Done (Ok tk)"
    unfolding load_def Let_def bert_getters lbind_Ok fine_simp sp t m if_P[OF refl]
    using tk(1) by (simp add: load_engine_def) (simp add: base_tokenizer_def)
  moreover have "tk_scores tk = replicate 5 (n_nat fixed 0)" unfolding tk(3) by (simp add: base_tokenizer_def numeral_eq_Suc)
  moreover have "tk_tokens tk = ?tokens" unfolding tk(4) by (simp add: base_tokenizer_def)
  ultimately show ?thesis using tk(2) unfolding tx by blast
qed

text \<open>
  C25: a loaded WordPiece tokenizer matches greedily. Each word of the preprocessed text becomes the entries that a
  longest match from the left takes, with no bound on their length and the marker in front, or the unknown token
  alone where that match fails; empty words give nothing.
\<close>

theorem wordpiece_is_greedy:
  assumes "load N bits gguf = Done (Ok tk)" "tk_model tk = Bert"
  shows "\<exists>pieces. wpm_encode U T tk w = concat (map pieces (filter (\<lambda>word. word \<noteq> []) (wpm_preprocess U T (tk_normalizer tk) w)))
    \<and> (\<forall>word. if \<exists>ids. greedy (vocab_of (tk_tokens tk)) (SPM_SPACE # word) ids
         then greedy (vocab_of (tk_tokens tk)) (SPM_SPACE # word) (pieces word) else pieces word = [tk_unk tk])"
proof -
  note b = load_bounded[OF assms]
  define pieces where "pieces word = (case wpm_word (tk_vocab tk) (tk_max_token_len tk + 1) (SPM_SPACE # word) of
    Some (i # ids) \<Rightarrow> i # ids | _ \<Rightarrow> [tk_unk tk])" for word
  have g: "wpm_word (tk_vocab tk) (tk_max_token_len tk + 1) v = Some ids \<longleftrightarrow> greedy (vocab_of (tk_tokens tk)) v ids" for v ids
    using wpm_word_greedy[of "tk_vocab tk" "tk_max_token_len tk + 1"] b by simp
  have "if \<exists>ids. greedy (vocab_of (tk_tokens tk)) (SPM_SPACE # word) ids
      then greedy (vocab_of (tk_tokens tk)) (SPM_SPACE # word) (pieces word) else pieces word = [tk_unk tk]" for word
  proof (cases "wpm_word (tk_vocab tk) (tk_max_token_len tk + 1) (SPM_SPACE # word)")
    case None
    then show ?thesis using g[of "SPM_SPACE # word"] by (simp add: pieces_def)
  next
    case (Some ids)
    then have gr: "greedy (vocab_of (tk_tokens tk)) (SPM_SPACE # word) ids" using g by blast
    then have "ids \<noteq> []" by (auto elim: greedy.cases)
    then have "pieces word = ids" using Some by (cases ids) (simp_all add: pieces_def)
    then show ?thesis using gr by auto
  qed
  moreover have skip: "concat (map (\<lambda>word. if word = [] then [] else pieces word) ws) = concat (map pieces (filter (\<lambda>word. word \<noteq> []) ws))" for ws
    by (induction ws) simp_all
  moreover have "wpm_encode U T tk w = concat (map pieces (filter (\<lambda>word. word \<noteq> []) (wpm_preprocess U T (tk_normalizer tk) w)))"
    using skip unfolding wpm_encode_def pieces_def[symmetric] by blast
  ultimately show ?thesis by blast
qed

lemma wordpiece_is_greedy_witness:
  "\<exists>tk. load fixed int bert_gguf = Done (Ok tk)
     \<and> (\<exists>pieces. wpm_encode small_unicode no_tables tk (chars ''unable, able'') =
          concat (map pieces (filter (\<lambda>word. word \<noteq> []) (wpm_preprocess small_unicode no_tables (tk_normalizer tk) (chars ''unable, able''))))
        \<and> (\<forall>word. if \<exists>ids. greedy (vocab_of (tk_tokens tk)) (SPM_SPACE # word) ids
             then greedy (vocab_of (tk_tokens tk)) (SPM_SPACE # word) (pieces word) else pieces word = [tk_unk tk]))"
  using bert_accepted wordpiece_is_greedy by blast



end
